(* ===== verification/Prelude.thy ===== *)
theory Prelude
  imports Main "HOL-Library.AList" "HOL-Library.Multiset" "HOL-Library.Product_Lexorder"
    "HOL-Library.While_Combinator" "HOL-Library.List_Lexorder" "HOL-Library.Char_ord"
begin

text \<open>
  Shared vocabulary of the development: the ordered pairs of a list (Python's two nested
  \<open>for\<close> loops over \<open>enumerate\<close>), dictionaries as insertion-ordered association lists, the key
  of an unordered pair, and the facts about sorting and list update that several components use.
\<close>

text \<open>Facts that establish the well-formedness of a state after one step, per component.\<close>
named_theorems step_wf

text \<open>Facts that say what an operation leaves alone.\<close>
named_theorems frame

section \<open>Pairs of a list\<close>

text \<open>
  \<^verbatim>\<open>for index, left in enumerate(xs): for right in xs[index + 1:]: ...\<close> visits the pairs
  \<open>pairs_of xs\<close>, in this order.
\<close>

fun pairs_of :: "'a list \<Rightarrow> ('a \<times> 'a) list" where
  "pairs_of [] = []"
| "pairs_of (x # xs) = map (Pair x) xs @ pairs_of xs"

lemma pairs_of_subset: "set (pairs_of xs) \<subseteq> set xs \<times> set xs"
  by (induction xs) auto

lemma pairs_of_cases:
  "a \<in> set xs \<Longrightarrow> b \<in> set xs \<Longrightarrow> a \<noteq> b \<Longrightarrow>
   (a, b) \<in> set (pairs_of xs) \<or> (b, a) \<in> set (pairs_of xs)"
  by (induction xs) auto

lemma pairs_of_distinct_neq: "distinct xs \<Longrightarrow> (a, b) \<in> set (pairs_of xs) \<Longrightarrow> a \<noteq> b"
  using pairs_of_subset by (induction xs) fastforce+

lemma pairs_of_memD: "(a, b) \<in> set (pairs_of xs) \<Longrightarrow> a \<in> set xs \<and> b \<in> set xs"
  using pairs_of_subset by fastforce

lemma pairs_of_single [simp]: "pairs_of [x] = []"
  by simp

lemma pairs_of_append:
  "set (pairs_of (xs @ ys)) =
     set (pairs_of xs) \<union> set xs \<times> set ys \<union> set (pairs_of ys)"
  by (induction xs) auto

lemma pairs_of_filter:
  "set (pairs_of (filter P xs)) = {(a, b) \<in> set (pairs_of xs). P a \<and> P b}"
  by (induction xs) auto

lemma pairs_of_map: "pairs_of (map f xs) = map (map_prod f f) (pairs_of xs)"
  by (induction xs) (auto simp: comp_def)

text \<open>A symmetric test sees the same pairs whatever the order of the list.\<close>

lemma pairs_of_subset_sym:
  assumes "set ys \<subseteq> set xs" and "distinct ys" and "\<And>a b. P a b = P b a"
    and "\<forall>(a, b) \<in> set (pairs_of xs). P a b"
  shows "\<forall>(a, b) \<in> set (pairs_of ys). P a b"
proof -
  have "P a b" if "(a, b) \<in> set (pairs_of ys)" for a b
  proof -
    from that assms(2) have "a \<noteq> b" by (rule pairs_of_distinct_neq [rotated])
    moreover from that assms(1) have "a \<in> set xs" "b \<in> set xs" by (auto dest: pairs_of_memD)
    ultimately have "(a, b) \<in> set (pairs_of xs) \<or> (b, a) \<in> set (pairs_of xs)"
      by (metis pairs_of_cases)
    then show ?thesis using assms(3,4) by blast
  qed
  then show ?thesis by blast
qed

text \<open>The one spelling of an unordered pair: the smaller id first.\<close>

definition pair_key :: "int \<Rightarrow> int \<Rightarrow> int \<times> int" where
  "pair_key a b = (if a < b then (a, b) else (b, a))"

lemma pair_key_sym: "pair_key a b = pair_key b a"
  by (auto simp: pair_key_def)

lemma pair_key_min_max: "pair_key a b = (min a b, max a b)"
  by (auto simp: pair_key_def min_def max_def)

section \<open>Lists\<close>

lemma sort_key_mset_inj:
  assumes "mset xs = mset ys" and "inj_on f (set xs)"
  shows "sort_key f xs = sort_key f ys"
  using assms by (intro sort_key_inj_key_eq) simp_all

lemma sort_Nil_iff [simp]: "sort xs = [] \<longleftrightarrow> xs = []"
  by (metis length_0_conv length_sort)

lemma distinct_sort_append:
  "distinct (sort (xs @ ys)) \<longleftrightarrow> distinct xs \<and> distinct ys \<and> set xs \<inter> set ys = {}"
  by simp

text \<open>Python's stable \<open>sorted(xs, key=f)\<close> is \<open>sort_key f xs\<close>; \<open>min(xs, key=f)\<close> on a nonempty
  list is \<open>arg_min_list f xs\<close>, the first of the minimal ones.\<close>

lemma arg_min_list_mem: "xs \<noteq> [] \<Longrightarrow> arg_min_list f xs \<in> set xs"
  by (induction f xs rule: arg_min_list.induct) (auto simp: Let_def)

lemma arg_min_list_le: "x \<in> set xs \<Longrightarrow> f (arg_min_list f xs) \<le> f x"
  by (induction f xs rule: arg_min_list.induct) (auto simp: Let_def intro: order_trans)

lemma distinct_concat_member: "distinct (concat cs) \<Longrightarrow> c \<in> set cs \<Longrightarrow> distinct c"
  by (induction cs) auto

lemma distinct_concat_unique:
  "distinct (concat cs) \<Longrightarrow> c \<in> set cs \<Longrightarrow> c' \<in> set cs \<Longrightarrow> z \<in> set c \<Longrightarrow> z \<in> set c' \<Longrightarrow> c = c'"
  by (induction cs) auto

section \<open>Dictionaries\<close>

text \<open>
  A Python \<open>dict\<close> is an association list in insertion order: \<open>AList.update\<close> overwrites a key
  in place or appends it, \<open>AList.delete\<close> removes it, \<open>map_of\<close> reads it.
\<close>

type_synonym ('k, 'v) dict = "('k \<times> 'v) list"

definition dict_append :: "'k \<Rightarrow> 'v \<Rightarrow> ('k, 'v list) dict \<Rightarrow> ('k, 'v list) dict" where
  \<comment> \<open>\<^verbatim>\<open>d.setdefault(k, []).append(v)\<close>\<close>
  "dict_append k v d = AList.update k (case map_of d k of None \<Rightarrow> [v] | Some vs \<Rightarrow> vs @ [v]) d"

lemma map_of_dict_append:
  "map_of (dict_append k v d) =
     (map_of d)(k \<mapsto> (case map_of d k of None \<Rightarrow> [v] | Some vs \<Rightarrow> vs @ [v]))"
  by (simp add: dict_append_def update_conv')

lemma distinct_dict_append: "distinct (map fst d) \<Longrightarrow> distinct (map fst (dict_append k v d))"
  by (simp add: dict_append_def distinct_update)

text \<open>Grouping a list by a key: \<^verbatim>\<open>for x in xs: d.setdefault(f(x), []).append(x)\<close>.\<close>

definition group_by :: "('a \<Rightarrow> 'k) \<Rightarrow> 'a list \<Rightarrow> ('k, 'a list) dict" where
  "group_by f xs = fold (\<lambda>x. dict_append (f x) x) xs []"

lemma map_of_group_fold:
  "map_of (fold (\<lambda>x. dict_append (f x) x) xs d) k =
     (case (map_of d k, filter (\<lambda>x. f x = k) xs) of
        (None, []) \<Rightarrow> None
      | (None, ys) \<Rightarrow> Some ys
      | (Some zs, ys) \<Rightarrow> Some (zs @ ys))"
  by (induction xs arbitrary: d)
    (auto simp: map_of_dict_append split: option.splits list.splits)

lemma map_of_group_by:
  "map_of (group_by f xs) k =
     (case filter (\<lambda>x. f x = k) xs of [] \<Rightarrow> None | ys \<Rightarrow> Some ys)"
  by (simp add: group_by_def map_of_group_fold split: list.splits)

lemma distinct_group_fold:
  "distinct (map fst d) \<Longrightarrow> distinct (map fst (fold (\<lambda>x. dict_append (f x) x) xs d))"
  by (induction xs arbitrary: d) (simp_all add: distinct_dict_append)

lemma distinct_group_by: "distinct (map fst (group_by f xs))"
  by (simp add: group_by_def distinct_group_fold)

lemma group_by_entry:
  assumes "(k, ys) \<in> set (group_by f xs)"
  shows "ys = filter (\<lambda>x. f x = k) xs" and "ys \<noteq> []"
proof -
  have "map_of (group_by f xs) k = Some ys"
    by (intro map_of_is_SomeI distinct_group_by assms)
  then show "ys = filter (\<lambda>x. f x = k) xs" and "ys \<noteq> []"
    by (auto simp: map_of_group_by split: list.splits)
qed

lemma group_by_covers: "x \<in> set xs \<Longrightarrow> (f x, filter (\<lambda>y. f y = f x) xs) \<in> set (group_by f xs)"
proof -
  assume "x \<in> set xs"
  then have "filter (\<lambda>y. f y = f x) xs \<noteq> []" by (auto simp: filter_empty_conv)
  then have "map_of (group_by f xs) (f x) = Some (filter (\<lambda>y. f y = f x) xs)"
    by (simp add: map_of_group_by split: list.splits)
  then show ?thesis by (rule map_of_SomeD)
qed

text \<open>Two dictionaries in key order with the same entries are equal.\<close>

lemma dict_eqI:
  fixes xs ys :: "('k::linorder, 'v) dict"
  assumes "sorted (map fst xs) \<and> distinct (map fst xs)" and "sorted (map fst ys) \<and> distinct (map fst ys)"
    and "set xs = set ys"
  shows "xs = ys"
proof (rule map_sorted_distinct_set_unique)
  show "inj_on fst (set xs \<union> set ys)" using assms by (simp add: distinct_map)
qed (use assms in simp_all)

lemma key_order_filter:
  fixes xs :: "('k::linorder, 'v) dict"
  assumes "sorted (map fst xs) \<and> distinct (map fst xs)"
  shows "sorted (map fst (filter P xs)) \<and> distinct (map fst (filter P xs))"
  using assms by (simp add: sorted_filter distinct_map_filter)

section \<open>First occurrences\<close>

text \<open>The items of a list in the order in which they first appear.\<close>

definition firsts :: "'a list \<Rightarrow> 'a list" where
  "firsts xs = rev (remdups (rev xs))"

lemma firsts_Nil [simp]: "firsts [] = []"
  by (simp add: firsts_def)

lemma firsts_snoc [simp]: "firsts (xs @ [x]) = (if x \<in> set xs then firsts xs else firsts xs @ [x])"
  by (simp add: firsts_def)

lemma firsts_Nil_iff [simp]: "firsts xs = [] \<longleftrightarrow> xs = []"
  by (simp add: firsts_def)

lemma set_firsts [simp]: "set (firsts xs) = set xs"
  by (simp add: firsts_def)

lemma firsts_filter: "firsts (filter P xs) = filter P (firsts xs)"
  by (simp add: firsts_def rev_filter remdups_filter)

lemma distinct_firsts [simp]: "distinct (firsts xs)"
  by (simp add: firsts_def)

section \<open>Loops that may fail\<close>

text \<open>\<open>foldM f xs s\<close> runs \<open>f\<close> over the list and stops at the first \<open>None\<close>.\<close>

fun foldM :: "('a \<Rightarrow> 's \<Rightarrow> 's option) \<Rightarrow> 'a list \<Rightarrow> 's \<Rightarrow> 's option" where
  "foldM f [] s = Some s"
| "foldM f (x # xs) s = Option.bind (f x s) (foldM f xs)"

lemma foldM_append: "foldM f (xs @ ys) s = Option.bind (foldM f xs s) (foldM f ys)"
  by (induction xs arbitrary: s) (auto split: bind_splits)

lemma foldM_map: "foldM f (map g xs) s = foldM (\<lambda>x. f (g x)) xs s"
  by (induction xs arbitrary: s) (auto split: bind_splits)

lemma foldM_concat: "foldM f (concat xss) s = foldM (foldM f) xss s"
  by (induction xss arbitrary: s) (auto simp: foldM_append split: bind_splits)

text \<open>
  \<^verbatim>\<open>for _ in range(n): if not body(): break; touched = True\<close>: run the body while it reports a
  change, at most \<open>n\<close> times, and say whether any run did.
\<close>

fun rounds :: "nat \<Rightarrow> ('s \<Rightarrow> 's \<times> bool) \<Rightarrow> 's \<Rightarrow> 's \<times> bool" where
  "rounds 0 body s = (s, False)"
| "rounds (Suc n) body s =
     (let (s', moved) = body s
      in if moved then (fst (rounds n body s'), True) else (s', False))"

lemma rounds_inv: "P s \<Longrightarrow> (\<And>t. P t \<Longrightarrow> P (fst (body t))) \<Longrightarrow> P (fst (rounds n body s))"
proof (induction n arbitrary: s)
  case (Suc n)
  have "P (fst (body s))" using Suc.prems by blast
  with Suc show ?case by (auto simp: split_beta)
qed simp

text \<open>A fold keeps what every step keeps.\<close>

lemma fold_inv: "P s \<Longrightarrow> (\<And>x t. x \<in> set xs \<Longrightarrow> P t \<Longrightarrow> P (f x t)) \<Longrightarrow> P (fold f xs s)"
  by (induction xs arbitrary: s) auto

lemma foldM_None_iff:
  "(\<And>x s. x \<in> set xs \<Longrightarrow> f x s = None \<longleftrightarrow> bad x) \<Longrightarrow> foldM f xs s = None \<longleftrightarrow> (\<exists>x \<in> set xs. bad x)"
proof (induction xs arbitrary: s)
  case (Cons x xs)
  have "f x s = None \<longleftrightarrow> bad x" using Cons.prems by simp
  moreover have "foldM f xs t = None \<longleftrightarrow> (\<exists>x \<in> set xs. bad x)" for t using Cons by simp
  ultimately show ?case by (cases "f x s") simp_all
qed simp

lemma foldM_inv:
  "foldM f xs s = Some t \<Longrightarrow> P s \<Longrightarrow> (\<And>x u v. P u \<Longrightarrow> f x u = Some v \<Longrightarrow> P v) \<Longrightarrow> P t"
  by (induction xs arbitrary: s) (auto split: bind_splits)

text \<open>A loop whose body keeps an invariant and lowers a measure stops within that many steps.\<close>

lemma while_option_steps:
  assumes step: "\<And>s. P s \<Longrightarrow> b s \<Longrightarrow> P (c s) \<and> m (c s) < (m s :: nat)" and "P s"
  shows "\<exists>k \<le> m s. while_option b c s = Some ((c ^^ k) s)"
  using assms(2)
proof (induction "m s" arbitrary: s rule: less_induct)
  case less
  show ?case
  proof (cases "b s")
    case True
    with less step obtain k where k: "k \<le> m (c s)" "while_option b c (c s) = Some ((c ^^ k) (c s))" by blast
    have "while_option b c s = Some ((c ^^ Suc k) s)"
      using True k(2) by (subst while_option_unfold) (simp add: funpow_swap1)
    moreover have "Suc k \<le> m s" using k(1) step [OF less.prems True] by simp
    ultimately show ?thesis by blast
  next
    case False
    then have "while_option b c s = Some ((c ^^ 0) s)" by (subst while_option_unfold) simp
    then show ?thesis by blast
  qed
qed

section \<open>Rows of a table\<close>

text \<open>
  \<^verbatim>\<open>UPDATE ... SET f WHERE P\<close> over rows held by key: a map that keeps the keys and their order.
\<close>

definition update_rows :: "('k \<Rightarrow> 'v \<Rightarrow> bool) \<Rightarrow> ('v \<Rightarrow> 'v) \<Rightarrow> ('k, 'v) dict \<Rightarrow> ('k, 'v) dict" where
  "update_rows P f d = map (\<lambda>(k, v). (k, if P k v then f v else v)) d"

lemma update_rows_keys [simp]: "map fst (update_rows P f d) = map fst d"
  by (simp add: update_rows_def comp_def split_def)

lemma update_rows_map_of [simp]:
  "map_of (update_rows P f d) k = map_option (\<lambda>v. if P k v then f v else v) (map_of d k)"
  by (induction d) (auto simp: update_rows_def)

lemma update_rows_none: "(\<And>k v. (k, v) \<in> set d \<Longrightarrow> \<not> P k v) \<Longrightarrow> update_rows P f d = d"
  by (auto simp: update_rows_def intro!: map_idI)

lemma map_of_filter_keys:
  "distinct (map fst d) \<Longrightarrow> map_of (filter (\<lambda>(k, v). P k v) d) k =
     (case map_of d k of None \<Rightarrow> None | Some v \<Rightarrow> if P k v then Some v else None)"
proof (induction d)
  case (Cons x d)
  obtain a b where x: "x = (a, b)" by (cases x)
  have "a \<notin> fst ` set (filter (\<lambda>(k, v). P k v) d)" using Cons.prems x by auto
  then have "map_of (filter (\<lambda>(k, v). P k v) d) a = None" by (simp add: map_of_eq_None_iff)
  then show ?case using Cons x by (auto split: option.splits)
qed simp

section \<open>Partial maps over a list\<close>

lemma map_filter_Cons: "List.map_filter f (x # xs) = (case f x of None \<Rightarrow> List.map_filter f xs | Some y \<Rightarrow> y # List.map_filter f xs)"
  by (simp add: List.map_filter_def split: option.splits)

lemma set_map_filter: "set (List.map_filter f xs) = {y. \<exists>x \<in> set xs. f x = Some y}"
  by (induction xs) (auto simp: map_filter_Cons List.map_filter_def split: option.splits)

lemma distinct_map_filter_opt: "distinct (List.map_filter f xs) \<Longrightarrow> distinct (List.map_filter f (filter Q xs))"
proof (induction xs)
  case (Cons x xs)
  then show ?case by (cases "f x") (auto simp: map_filter_Cons set_map_filter)
qed simp

lemma map_filter_inj:
  "distinct (List.map_filter f xs) \<Longrightarrow> x \<in> set xs \<Longrightarrow> y \<in> set xs \<Longrightarrow> f x = Some k \<Longrightarrow> f y = Some k \<Longrightarrow> x = y"
proof (induction xs)
  case (Cons a xs)
  then show ?case by (cases "f a") (auto simp: map_filter_Cons set_map_filter)
qed simp

section \<open>First fit\<close>

text \<open>An item joins the first group it fits, at its end, else it opens a group of its own.\<close>

fun first_fit :: "('a \<Rightarrow> 'a list \<Rightarrow> bool) \<Rightarrow> 'a \<Rightarrow> 'a list list \<Rightarrow> 'a list list" where
  "first_fit fits x [] = [[x]]"
| "first_fit fits x (g # gs) = (if fits x g then (g @ [x]) # gs else g # first_fit fits x gs)"

lemma first_fit_mset: "mset (concat (first_fit fits x gs)) = add_mset x (mset (concat gs))"
  by (induction gs) auto

lemma first_fit_fold_mset: "mset (concat (fold (first_fit fits) xs gs)) = mset xs + mset (concat gs)"
  by (induction xs arbitrary: gs) (simp_all add: first_fit_mset)

lemma first_fit_all:
  "\<forall>g \<in> set gs. P g \<Longrightarrow> P [x] \<Longrightarrow> (\<And>g. P g \<Longrightarrow> fits x g \<Longrightarrow> P (g @ [x])) \<Longrightarrow> \<forall>g \<in> set (first_fit fits x gs). P g"
  by (induction gs) auto

lemma first_fit_step:
  "\<forall>g \<in> set gs. Q g \<Longrightarrow> (\<And>g. Q g \<Longrightarrow> P g) \<Longrightarrow> P [x] \<Longrightarrow> (\<And>g. Q g \<Longrightarrow> fits x g \<Longrightarrow> P (g @ [x]))
     \<Longrightarrow> \<forall>g \<in> set (first_fit fits x gs). P g"
  by (induction gs) auto

text \<open>
  Fed in an order \<open>K\<close>, each group is listed in that order and each item fitted what was there before it;
  items that all fit their predecessors share one group.
\<close>

lemma first_fit_chain:
  assumes "\<And>x g. fits x g \<Longrightarrow> \<forall>y \<in> set g. R y x"
  shows "sorted_wrt K xs \<Longrightarrow> \<forall>g \<in> set gs. sorted_wrt (\<lambda>x y. K x y \<and> R x y) g \<and> (\<forall>y \<in> set g. \<forall>x \<in> set xs. K y x)
    \<Longrightarrow> \<forall>g \<in> set (fold (first_fit fits) xs gs). sorted_wrt (\<lambda>x y. K x y \<and> R x y) g"
proof (induction xs arbitrary: gs)
  case (Cons x xs)
  have "\<forall>g \<in> set (first_fit fits x gs). sorted_wrt (\<lambda>x y. K x y \<and> R x y) g \<and> (\<forall>y \<in> set g. \<forall>x \<in> set xs. K y x)"
    by (rule first_fit_step [OF Cons.prems(2)]) (use Cons.prems(1) assms in \<open>auto simp: sorted_wrt_append\<close>)
  then show ?case using Cons by simp
qed simp

lemma first_fit_single:
  assumes "\<And>x g. fits x g = list_all (\<lambda>y. R y x) g"
  shows "sorted_wrt R (g @ xs) \<Longrightarrow> fold (first_fit fits) xs [g] = [g @ xs]"
proof (induction xs arbitrary: g)
  case (Cons x xs)
  then have "fits x g" using assms by (auto simp: sorted_wrt_append list_all_iff)
  then show ?case using Cons.IH [of "g @ [x]"] Cons.prems by simp
qed simp

lemma first_fit_nonempty: "\<forall>g \<in> set gs. g \<noteq> [] \<Longrightarrow> \<forall>g \<in> set (fold (first_fit fits) xs gs). g \<noteq> []"
proof (induction xs arbitrary: gs)
  case (Cons x xs)
  have "\<forall>g \<in> set (first_fit fits x gs). g \<noteq> []" by (rule first_fit_all) (use Cons.prems in auto)
  then show ?case using Cons.IH by simp
qed simp

lemma sorted_wrt_pick:
  "sorted_wrt (\<lambda>x y. f x < f y \<and> R x y) g \<Longrightarrow> x \<in> set g \<Longrightarrow> y \<in> set g \<Longrightarrow> f x < f y \<Longrightarrow> R x y"
  for f :: "'a \<Rightarrow> 'b::linorder"
  by (induction g) auto

lemma sorted_wrt_sort_key:
  "distinct (map f xs) \<Longrightarrow> sorted_wrt (\<lambda>x y. f x < f y) (sort_key f xs)" for f :: "'a \<Rightarrow> 'b::linorder"
proof -
  assume d: "distinct (map f xs)"
  have "sorted (map f (sort_key f xs))" by simp
  moreover have "distinct (map f (sort_key f xs))" using d by (simp add: distinct_map)
  ultimately have "sorted_wrt (<) (map f (sort_key f xs))" by (simp add: strict_sorted_iff)
  then show ?thesis by (simp add: sorted_wrt_map)
qed

section \<open>Text\<close>

text \<open>Decimal digits, as Python prints an integer.\<close>

fun show_nat :: "nat \<Rightarrow> string" where
  "show_nat n = (if n < 10 then [char_of (n + 48)] else show_nat (n div 10) @ [char_of (n mod 10 + 48)])"

declare show_nat.simps [simp del]

definition show_int :: "int \<Rightarrow> string" where
  "show_int i = (if i < 0 then CHR ''-'' # show_nat (nat (- i)) else show_nat (nat i))"

text \<open>\<^verbatim>\<open>needle in text\<close>\<close>

fun occurs :: "string \<Rightarrow> string \<Rightarrow> bool" where
  "occurs needle [] = (needle = [])"
| "occurs needle (c # cs) = (List.take (length needle) (c # cs) = needle \<or> occurs needle cs)"

lemma occurs_iff: "occurs needle s \<longleftrightarrow> (\<exists>u v. s = u @ needle @ v)"
proof (induction s)
  case (Cons c s)
  have "List.take (length needle) (c # s) = needle \<longleftrightarrow> (\<exists>v. c # s = needle @ v)"
    by (metis append_eq_conv_conj append_take_drop_id)
  moreover have "(\<exists>u v. c # s = u @ needle @ v) \<longleftrightarrow> (\<exists>v. c # s = needle @ v) \<or> (\<exists>u v. s = u @ needle @ v)"
    by (metis append_Cons append_Nil append_eq_Cons_conv)
  ultimately show ?case using Cons by simp
qed simp

lemma occurs_within: "occurs needle (u @ needle @ v)"
  by (auto simp: occurs_iff)

end
