(* ===== verification/Union_Find.thy ===== *)
theory Union_Find
  imports Prelude
begin

text \<open>
  The parent forest that four places of the program build with the same loop:
  \<open>autodedup/repartition.py\<close> (\<open>components\<close>), \<open>autodedup/cluster.py\<close>
  (\<open>must_link_closures\<close> and \<open>_UnionFind\<close>) and \<open>autodedup/family.py\<close> (\<open>_Union\<close>).
  A parent dictionary points every item at a smaller one or at itself; \<open>find\<close> walks up with
  path halving, a union hangs the larger root under the smaller one. The loop
  \<^verbatim>\<open>while root != parent[root]: parent[root] = parent[parent[root]]; root = parent[root]\<close>
  is \<open>find_root\<close>, a \<open>while_option\<close>: \<open>None\<close> would mean that it does not return.
\<close>

type_synonym parents = "(int, int) dict"

definition parent_of :: "parents \<Rightarrow> int \<Rightarrow> int" where
  "parent_of d x = (case map_of d x of Some y \<Rightarrow> y | None \<Rightarrow> x)"

definition halve :: "parents \<times> int \<Rightarrow> parents \<times> int" where
  "halve = (\<lambda>(d, r). let d' = AList.update r (parent_of d (parent_of d r)) d
                     in (d', parent_of d' r))"

definition find_root :: "parents \<Rightarrow> int \<Rightarrow> (parents \<times> int) option" where
  "find_root d r = while_option (\<lambda>(d, r). r \<noteq> parent_of d r) halve (d, r)"

definition items :: "parents \<Rightarrow> int set" where
  "items d = fst ` set d"

lemma items_dom: "items d = dom (map_of d)"
  by (simp add: items_def dom_map_of_conv_image_fst)

lemma items_update [simp]: "items (AList.update k v d) = insert k (items d)"
  by (simp add: items_dom update_conv')

lemma finite_items [simp]: "finite (items d)"
  by (simp add: items_def)

lemma parent_of_update:
  "parent_of (AList.update k v d) x = (if x = k then v else parent_of d x)"
  by (simp add: parent_of_def update_conv')

lemma parent_of_outside: "x \<notin> items d \<Longrightarrow> parent_of d x = x"
  by (simp add: parent_of_def items_dom domIff split: option.splits)

subsection \<open>Forests\<close>

text \<open>Every pointer goes to a smaller item or to itself, and stays inside the dictionary.\<close>

definition forest :: "parents \<Rightarrow> bool" where
  "forest d \<longleftrightarrow> (\<forall>x. parent_of d x \<le> x) \<and> (\<forall>x \<in> items d. parent_of d x \<in> items d)"

lemma forest_le: "forest d \<Longrightarrow> parent_of d x \<le> x"
  by (simp add: forest_def)

lemma forest_item: "forest d \<Longrightarrow> x \<in> items d \<Longrightarrow> parent_of d x \<in> items d"
  by (simp add: forest_def)

lemma forest_Nil [simp]: "forest []"
  by (simp add: forest_def items_def parent_of_def)

lemma forest_add: "forest d \<Longrightarrow> x \<notin> items d \<Longrightarrow> forest (AList.update x x d)"
  by (auto simp: forest_def parent_of_update)

lemma forest_link:
  "forest d \<Longrightarrow> k \<in> items d \<Longrightarrow> v \<in> items d \<Longrightarrow> v \<le> k \<Longrightarrow> forest (AList.update k v d)"
  by (auto simp: forest_def parent_of_update)

text \<open>The height of an item: the items below it. Each step up lowers it.\<close>

definition below :: "parents \<Rightarrow> int \<Rightarrow> nat" where
  "below d x = card {y \<in> items d. y < x}"

lemma below_less:
  assumes "forest d" and "x \<in> items d" and "parent_of d x \<noteq> x"
  shows "below d (parent_of d x) < below d x"
proof -
  have lt: "parent_of d x < x" using forest_le [OF assms(1), of x] assms(3) by linarith
  have "parent_of d x \<in> items d" using forest_item [OF assms(1,2)] .
  then have "{y \<in> items d. y < parent_of d x} \<subset> {y \<in> items d. y < x}" using lt by auto
  then show ?thesis unfolding below_def by (intro psubset_card_mono) auto
qed

subsection \<open>The root of an item\<close>

inductive rooted :: "parents \<Rightarrow> int \<Rightarrow> int \<Rightarrow> bool" for d where
  here: "parent_of d x = x \<Longrightarrow> rooted d x x"
| up: "parent_of d x \<noteq> x \<Longrightarrow> rooted d (parent_of d x) r \<Longrightarrow> rooted d x r"

inductive_cases root_E: "rooted d x r"

lemma root_unique: "rooted d x r \<Longrightarrow> rooted d x s \<Longrightarrow> r = s"
  by (induction rule: rooted.induct) (auto elim: root_E)

lemma root_fix: "rooted d x r \<Longrightarrow> parent_of d r = r"
  by (induction rule: rooted.induct) auto

lemma root_self: "rooted d x r \<Longrightarrow> rooted d r r"
  by (blast intro: rooted.here root_fix)

lemma root_parent: "rooted d (parent_of d x) r \<longleftrightarrow> rooted d x r"
proof (cases "parent_of d x = x")
  case True then show ?thesis by simp
next
  case False then show ?thesis by (auto intro: rooted.up elim: root_E)
qed

lemma root_le: "rooted d x r \<Longrightarrow> forest d \<Longrightarrow> r \<le> x"
  by (induction rule: rooted.induct) (auto dest: forest_le intro: order_trans)

lemma root_item: "rooted d x r \<Longrightarrow> forest d \<Longrightarrow> x \<in> items d \<Longrightarrow> r \<in> items d"
  by (induction rule: rooted.induct) (auto dest: forest_item)

lemma root_outside: "x \<notin> items d \<Longrightarrow> rooted d x r \<longleftrightarrow> r = x"
  by (auto intro: rooted.here elim: root_E simp: parent_of_outside)

lemma root_exists:
  assumes "forest d"
  shows "\<exists>r. rooted d x r"
proof (induction "below d x" arbitrary: x rule: less_induct)
  case less
  show ?case
  proof (cases "parent_of d x = x \<or> x \<notin> items d")
    case True
    then have "parent_of d x = x" using parent_of_outside by blast
    then show ?thesis by (blast intro: rooted.here)
  next
    case False
    then have "below d (parent_of d x) < below d x" using below_less [OF assms] by blast
    then obtain r where "rooted d (parent_of d x) r" using less by blast
    then show ?thesis by (auto simp: root_parent)
  qed
qed

text \<open>
  Two tables in which every item has a root, with the same fixed points, one pointing inside the other's
  paths, agree.
\<close>

lemma root_transfer:
  assumes ex: "\<And>x. \<exists>r. rooted d x r" and ex': "\<And>x. \<exists>r. rooted d' x r"
    and fix_eq: "\<And>x. parent_of d x = x \<Longrightarrow> parent_of d' x = x"
    and path: "\<And>x r. rooted d x r \<Longrightarrow> rooted d (parent_of d' x) r"
    and prog: "\<And>x. parent_of d x \<noteq> x \<Longrightarrow> parent_of d' x \<noteq> x"
  shows "rooted d' x r \<longleftrightarrow> rooted d x r"
proof -
  have "rooted d x s" if "rooted d' x s" for s
    using that
  proof (induction rule: rooted.induct)
    case (here x)
    then show ?case using prog by (metis rooted.here)
  next
    case (up x r)
    obtain t where t: "rooted d x t" using ex by blast
    then have "t = r" using path up.IH root_unique by blast
    with t show ?case by simp
  qed
  moreover obtain s where "rooted d' x s" using ex' by blast
  ultimately show ?thesis using root_unique by blast
qed

subsection \<open>Path halving\<close>

lemma halve_forest:
  assumes "forest d" and "x \<in> items d"
  shows "forest (fst (halve (d, x)))" and "items (fst (halve (d, x))) = items d"
proof -
  have "parent_of d (parent_of d x) \<in> items d" using assms forest_item by blast
  moreover have "parent_of d (parent_of d x) \<le> x" using assms(1) forest_le order_trans by blast
  ultimately show "forest (fst (halve (d, x)))"
    using assms by (simp add: halve_def Let_def forest_link)
  show "items (fst (halve (d, x))) = items d"
    using assms(2) by (auto simp: halve_def Let_def)
qed

lemma halve_parent:
  "parent_of (fst (halve (d, x))) y =
     (if y = x then parent_of d (parent_of d x) else parent_of d y)"
  by (simp add: halve_def Let_def parent_of_update)

lemma halve_snd: "snd (halve (d, x)) = parent_of d (parent_of d x)"
  by (simp add: halve_def Let_def parent_of_update)

lemma halve_root:
  assumes "forest d" and "x \<in> items d"
  shows "rooted (fst (halve (d, x))) y r \<longleftrightarrow> rooted d y r"
proof (rule root_transfer [OF root_exists [OF assms(1)] root_exists [OF halve_forest(1) [OF assms]]])
  show "parent_of (fst (halve (d, x))) z = z" if "parent_of d z = z" for z
    using that by (metis halve_parent)
  show "rooted d (parent_of (fst (halve (d, x))) z) s" if "rooted d z s" for z s
    using that by (cases "z = x") (simp_all add: halve_parent root_parent)
  show "parent_of (fst (halve (d, x))) z \<noteq> z" if "parent_of d z \<noteq> z" for z
    using that forest_le [OF assms(1), of z] forest_le [OF assms(1), of "parent_of d z"]
    by (auto simp: halve_parent)
qed

text \<open>What holds while \<open>find_root\<close> walks up from \<open>x\<close>, and how far it still has to go.\<close>

definition halving :: "parents \<Rightarrow> int \<Rightarrow> parents \<times> int \<Rightarrow> bool" where
  "halving d x s \<longleftrightarrow> forest (fst s) \<and> items (fst s) = items d \<and> snd s \<in> items d \<and> rooted (fst s) = rooted d
     \<and> (\<forall>r. rooted d x r \<longrightarrow> rooted d (snd s) r)"

lemma halve_progress:
  assumes "halving d x s" and "snd s \<noteq> parent_of (fst s) (snd s)"
  shows "halving d x (halve s) \<and> below d (snd (halve s)) < below d (snd s)"
proof -
  obtain e y where s: "s = (e, y)" by (cases s)
  have e: "forest e" "items e = items d" "y \<in> items e" "rooted e = rooted d" "y \<noteq> parent_of e y"
    and xy: "\<forall>r. rooted d x r \<longrightarrow> rooted d y r"
    using assms by (auto simp: s halving_def)
  have "forest (fst (halve s))" "items (fst (halve s)) = items d"
    using halve_forest [of e y] e by (auto simp: s)
  moreover have "rooted (fst (halve s)) = rooted d"
    using halve_root [of e y] e by (auto simp: s fun_eq_iff)
  moreover have mem: "parent_of e y \<in> items e" "parent_of e (parent_of e y) \<in> items e"
    using e forest_item by blast+
  moreover have "\<forall>r. rooted d x r \<longrightarrow> rooted d (snd (halve s)) r"
    using xy by (metis e(4) fst_conv halve_snd root_parent s)
  moreover have "below e (parent_of e y) < below e y" using below_less [OF e(1) e(3)] e(5) by metis
  moreover have "below e (parent_of e (parent_of e y)) \<le> below e (parent_of e y)"
    using below_less [OF e(1) mem(1)] by (cases "parent_of e (parent_of e y) = parent_of e y") auto
  ultimately show ?thesis
    by (simp add: halving_def s halve_snd below_def e(2))
qed

lemma find_root_steps:
  assumes "forest d" and "x \<in> items d"
  shows "\<exists>k \<le> below d x. find_root d x = Some ((halve ^^ k) (d, x))"
proof -
  have "halving d x (d, x)" using assms by (simp add: halving_def)
  then have "\<exists>k \<le> below d (snd (d, x)). while_option (\<lambda>s. snd s \<noteq> parent_of (fst s) (snd s)) halve (d, x)
      = Some ((halve ^^ k) (d, x))"
    by (rule while_option_steps [where m = "\<lambda>s. below d (snd s)", rotated]) (rule halve_progress)
  then show ?thesis by (simp add: find_root_def case_prod_beta')
qed

text \<open>\<open>find_root\<close> returns, keeps every root, and what it returns is the item's root.\<close>

lemma find_root_correct:
  assumes "forest d" and "x \<in> items d"
  shows "\<exists>d' r. find_root d x = Some (d', r) \<and> forest d' \<and> items d' = items d
                \<and> rooted d' = rooted d \<and> rooted d x r"
proof -
  obtain e y where s: "find_root d x = Some (e, y)" using find_root_steps [OF assms] by fastforce
  have "halving d x (e, y)"
    by (rule while_option_rule [where P = "halving d x", OF _ s [unfolded find_root_def]])
      (use assms halve_progress [where d = d and x = x] in \<open>auto simp: halving_def\<close>)
  then have e: "forest e" "items e = items d" "rooted e = rooted d" and xy: "\<forall>r. rooted d x r \<longrightarrow> rooted d y r"
    by (auto simp: halving_def)
  have "parent_of e y = y" using while_option_stop [OF s [unfolded find_root_def]] by simp
  then have "rooted d y y" using rooted.here [of e y] by (simp add: e(3))
  moreover obtain t where "rooted d x t" using root_exists [OF assms(1)] by blast
  ultimately have "rooted d x y" using xy root_unique by blast
  then show ?thesis using s e by simp
qed

text \<open>
  C31. Finding a group ends: in a forest the path-halving walk from an item stops after at most as many steps
  as there are smaller items, at a fixed point of the parents, and it leaves every item under the root it had.
\<close>

theorem find_root_ends:
  assumes "forest d" and "x \<in> items d"
  shows "\<exists>k \<le> card {y \<in> items d. y < x}. case (halve ^^ k) (d, x) of (d', r) \<Rightarrow>
           find_root d x = Some (d', r) \<and> parent_of d' r = r \<and> rooted d' = rooted d \<and> rooted d x r"
proof -
  obtain k where k: "k \<le> below d x" "find_root d x = Some ((halve ^^ k) (d, x))"
    using find_root_steps [OF assms] by blast
  moreover obtain e y where e: "find_root d x = Some (e, y)" "rooted e = rooted d" "rooted d x y"
    using find_root_correct [OF assms] by blast
  moreover have "parent_of e y = y" using e(2,3) root_fix root_self by metis
  ultimately show ?thesis by (auto simp: below_def intro!: exI [of _ k])
qed

lemma find_root_ends_witness:
  "\<exists>k \<le> 2. find_root [(1, 1), (2, 1), (3, 2)] 3 = Some ((halve ^^ k) ([(1, 1), (2, 1), (3, 2)], 3))"
proof -
  let ?d = "[(1, 1), (2, 1), (3, 2)] :: parents"
  have "forest ?d" by (auto simp: forest_def parent_of_def items_def)
  moreover have "3 \<in> items ?d" by (simp add: items_def)
  moreover have "{y \<in> items ?d. y < 3} = {1, 2}" by (auto simp: items_def)
  ultimately show ?thesis
    using find_root_ends [of ?d 3] by (auto simp: numeral_2_eq_2)
qed

text \<open>The representative as a function, where it exists.\<close>

definition the_root :: "parents \<Rightarrow> int \<Rightarrow> int" where
  "the_root d x = (case find_root d x of Some (_, r) \<Rightarrow> r | None \<Rightarrow> x)"

lemma root_the_root: "forest d \<Longrightarrow> x \<in> items d \<Longrightarrow> rooted d x r \<longleftrightarrow> the_root d x = r"
  using find_root_correct [of d x] root_unique by (fastforce simp: the_root_def)

lemma the_root_cong: "rooted d = rooted d' \<Longrightarrow> forest d \<Longrightarrow> forest d' \<Longrightarrow>
    items d = items d' \<Longrightarrow> x \<in> items d \<Longrightarrow> the_root d x = the_root d' x"
  by (metis root_the_root)

section \<open>Connected components\<close>

text \<open>The equivalence that a set of edges generates on a set of items.\<close>

definition eqc :: "int set \<Rightarrow> (int \<times> int) set \<Rightarrow> (int \<times> int) set" where
  "eqc K E = {(x, y). x \<in> K \<and> y \<in> K \<and> (x, y) \<in> (E \<union> E\<inverse>)\<^sup>*}"

lemma eqc_refl: "x \<in> K \<Longrightarrow> (x, x) \<in> eqc K E"
  by (simp add: eqc_def)

lemma sym_rtrancl_conv: "sym ((E \<union> E\<inverse>)\<^sup>*)"
  by (rule sym_rtrancl) (auto simp: sym_def)

lemma eqc_sym: "(x, y) \<in> eqc K E \<Longrightarrow> (y, x) \<in> eqc K E"
  using sym_rtrancl_conv [of E, THEN symD] by (auto simp: eqc_def)

lemma eqc_trans: "(x, y) \<in> eqc K E \<Longrightarrow> (y, z) \<in> eqc K E \<Longrightarrow> (x, z) \<in> eqc K E"
  by (auto simp: eqc_def)

lemma eqc_edge: "(x, y) \<in> E \<Longrightarrow> x \<in> K \<Longrightarrow> y \<in> K \<Longrightarrow> (x, y) \<in> eqc K E"
  by (auto simp: eqc_def)

text \<open>Closing twice adds nothing: what lets a fold of unions be one closure.\<close>

lemma eqc_absorb:
  assumes "E \<subseteq> K \<times> K" and "K \<subseteq> K'"
  shows "eqc K' (eqc K E \<union> F) = eqc K' (E \<union> F)"
proof -
  have "(eqc K E \<union> F \<union> (eqc K E \<union> F)\<inverse>)\<^sup>* = (E \<union> F \<union> (E \<union> F)\<inverse>)\<^sup>*"
  proof (rule rtrancl_subset)
    show "E \<union> F \<union> (E \<union> F)\<inverse> \<subseteq> eqc K E \<union> F \<union> (eqc K E \<union> F)\<inverse>"
    proof -
      have "E \<subseteq> eqc K E" using assms(1) by (auto intro: eqc_edge)
      then show ?thesis by blast
    qed
    have "(E \<union> E\<inverse>)\<^sup>* \<subseteq> (E \<union> F \<union> (E \<union> F)\<inverse>)\<^sup>*" by (rule rtrancl_mono) auto
    then have "eqc K E \<subseteq> (E \<union> F \<union> (E \<union> F)\<inverse>)\<^sup>*" by (auto simp: eqc_def)
    moreover from this have "(eqc K E)\<inverse> \<subseteq> (E \<union> F \<union> (E \<union> F)\<inverse>)\<^sup>*"
      using eqc_sym by (auto simp: subset_iff)
    ultimately show "eqc K E \<union> F \<union> (eqc K E \<union> F)\<inverse> \<subseteq> (E \<union> F \<union> (E \<union> F)\<inverse>)\<^sup>*"
      by auto
  qed
  then show ?thesis by (simp add: eqc_def)
qed

lemma eqc_upto_Id: "R \<subseteq> S \<union> Id \<Longrightarrow> S \<subseteq> R \<Longrightarrow> eqc K (R \<union> F) = eqc K (S \<union> F)"
proof -
  assume "R \<subseteq> S \<union> Id" and "S \<subseteq> R"
  then have "(R \<union> F \<union> (R \<union> F)\<inverse>)\<^sup>* = (S \<union> F \<union> (S \<union> F)\<inverse>)\<^sup>*"
    by (intro rtrancl_subset) auto
  then show ?thesis by (simp add: eqc_def)
qed

text \<open>What a parent forest stands for: two items are connected when they share a root.\<close>

definition conn :: "parents \<Rightarrow> (int \<times> int) set" where
  "conn d = {(x, y). x \<in> items d \<and> y \<in> items d \<and> (\<exists>r. rooted d x r \<and> rooted d y r)}"

lemma conn_Nil [simp]: "conn [] = {}"
  by (simp add: conn_def items_def)

text \<open>Hanging one root under another: items of the hung tree get the other root.\<close>

lemma hang_root:
  assumes ex: "\<And>x. \<exists>r. rooted d x r" and ra: "parent_of d ra = ra" and rb: "parent_of d rb = rb" and ne: "ra \<noteq> rb"
  shows "rooted (AList.update ra rb d) x r \<longleftrightarrow> rooted d x r \<and> r \<noteq> ra \<or> rooted d x ra \<and> r = rb"
proof -
  let ?d = "AList.update ra rb d"
  have new: "rooted ?d rb rb" using rb ne by (intro rooted.here) (simp add: parent_of_update)
  have to: "rooted d x s \<Longrightarrow> rooted ?d x (if s = ra then rb else s)" for s
  proof (induction rule: rooted.induct)
    case (here x)
    then show ?case
    proof (cases "x = ra")
      case True
      have "rooted ?d (parent_of ?d ra) rb" using new by (simp add: parent_of_update)
      then show ?thesis using True by (simp add: root_parent)
    qed (simp add: rooted.here parent_of_update)
  next
    case (up x r)
    then have "x \<noteq> ra" using ra by auto
    with up show ?case by (metis parent_of_update root_parent)
  qed
  show ?thesis
  proof
    assume r: "rooted ?d x r"
    obtain s where s: "rooted d x s" using ex by blast
    with to have "r = (if s = ra then rb else s)" using r root_unique by blast
    with s show "rooted d x r \<and> r \<noteq> ra \<or> rooted d x ra \<and> r = rb" by auto
  qed (use to in fastforce)
qed

lemma link_root:
  assumes f: "forest d" and a: "rooted d a ra" and b: "rooted d b rb" and lt: "rb < ra"
  shows "rooted (AList.update ra rb d) x r \<longleftrightarrow> rooted d x r \<and> r \<noteq> ra \<or> rooted d x ra \<and> r = rb"
  using hang_root [OF root_exists [OF f] root_fix [OF a] root_fix [OF b]] lt by blast

text \<open>The union of two trees, whichever root is the smaller, is one step of the closure.\<close>

definition link_roots :: "int \<Rightarrow> int \<Rightarrow> parents \<Rightarrow> parents" where
  "link_roots ra rb d = (if ra = rb then d else AList.update (max ra rb) (min ra rb) d)"

lemma link_roots_forest:
  assumes "forest d" "ra \<in> items d" "rb \<in> items d"
  shows "forest (link_roots ra rb d)" and "items (link_roots ra rb d) = items d"
  using assms by (auto simp: link_roots_def max_def min_def intro: forest_link)

lemma link_roots_root:
  assumes f: "forest d" and a: "rooted d a ra" "a \<in> items d" and b: "rooted d b rb" "b \<in> items d"
  shows "rooted (link_roots ra rb d) x r \<longleftrightarrow>
    (if rooted d x ra \<or> rooted d x rb then r = min ra rb else rooted d x r)"
proof (cases ra rb rule: linorder_cases)
  case less
  then show ?thesis using link_root [OF f b(1) a(1) less] root_unique [of d x]
    by (auto simp: link_roots_def max_def min_def)
next
  case equal
  then show ?thesis using root_unique [of d x] by (auto simp: link_roots_def)
next
  case greater
  then show ?thesis using link_root [OF f a(1) b(1) greater] root_unique [of d x]
    by (auto simp: link_roots_def max_def min_def)
qed

text \<open>Whichever root the two trees keep, their union adds one edge to the relation.\<close>

lemma merged_conn:
  assumes ex: "\<And>x. \<exists>r. rooted d x r" and a: "rooted d a ra" "a \<in> items d" and b: "rooted d b rb" "b \<in> items d"
    and items: "items e = items d" and keep: "keep = ra \<or> keep = rb"
    and rt: "\<And>x r. rooted e x r \<longleftrightarrow> (if rooted d x ra \<or> rooted d x rb then r = keep else rooted d x r)"
  shows "conn e = eqc (items d) (conn d \<union> {(a, b)})"
proof -
  let ?E = "conn d \<union> {(a, b)}"
  have same: "(x, y) \<in> eqc (items d) ?E" if "x \<in> items d" "y \<in> items d" "rooted d x r" "rooted d y r" for x y r
    using that by (intro eqc_edge) (auto simp: conn_def)
  have "conn e \<subseteq> eqc (items d) ?E"
  proof (rule subrelI)
    fix x y assume "(x, y) \<in> conn e"
    then obtain r where x: "x \<in> items d" and y: "y \<in> items d" and "rooted e x r" "rooted e y r"
      by (auto simp: conn_def items)
    have ab: "(a, b) \<in> eqc (items d) ?E" using a b by (intro eqc_edge) auto
    obtain s t where st: "rooted d x s" "rooted d y t" using ex by blast
    have hang: "(z, a) \<in> eqc (items d) ?E" if "z \<in> items d" "rooted d z ra \<or> rooted d z rb" for z
      using that same [OF that(1) a(2) _ a(1)] same [OF that(1) b(2) _ b(1)] ab
      by (blast intro: eqc_trans eqc_sym)
    show "(x, y) \<in> eqc (items d) ?E"
    proof (cases "rooted d x ra \<or> rooted d x rb")
      case True
      then have "r = keep" using \<open>rooted e x r\<close> by (simp add: rt)
      then have "rooted d y ra \<or> rooted d y rb"
        using \<open>rooted e y r\<close> using keep by (auto simp: rt split: if_splits)
      with True hang x y show ?thesis by (blast intro: eqc_trans eqc_sym)
    next
      case False
      then have "rooted d x r" using \<open>rooted e x r\<close> by (simp add: rt)
      moreover from this False have "r \<noteq> ra" "r \<noteq> rb" by auto
      ultimately have "rooted d y r"
        using keep \<open>rooted e y r\<close> by (auto simp: rt split: if_splits)
      with \<open>rooted d x r\<close> x y same show ?thesis by blast
    qed
  qed
  moreover have edge: "(y, z) \<in> conn e" if "(y, z) \<in> ?E" for y z
  proof (cases "(y, z) = (a, b)")
    case True
    then have "rooted e y keep" "rooted e z keep" using a b by (auto simp: rt)
    then show ?thesis using True a b by (auto simp: conn_def items)
  next
    case False
    then have "(y, z) \<in> conn d" using that by blast
    then obtain r where r: "y \<in> items d" "z \<in> items d" "rooted d y r" "rooted d z r"
      by (auto simp: conn_def)
    let ?r = "if r = ra \<or> r = rb then keep else r"
    have "rooted d y s \<longleftrightarrow> s = r" "rooted d z s \<longleftrightarrow> s = r" for s
      using r(3,4) root_unique by blast+
    then have "rooted e y ?r" "rooted e z ?r" by (auto simp: rt)
    then show ?thesis using r by (auto simp: conn_def items)
  qed
  moreover have "eqc (items d) ?E \<subseteq> conn e"
  proof (rule subrelI)
    fix x y assume xy: "(x, y) \<in> eqc (items d) ?E"
    then have x: "x \<in> items d" by (simp add: eqc_def)
    from xy have "(x, y) \<in> (?E \<union> ?E\<inverse>)\<^sup>*" by (simp add: eqc_def)
    then show "(x, y) \<in> conn e"
    proof (induction rule: rtrancl_induct)
      case base
      have "\<exists>r. rooted e x r" using ex [of x] rt [of x] by (cases "rooted d x ra \<or> rooted d x rb") auto
      then show ?case using x by (auto simp: conn_def items)
    next
      case (step y z)
      have "(y, z) \<in> conn e \<or> (z, y) \<in> conn e" using step.hyps(2) edge by blast
      then have "(y, z) \<in> conn e" by (auto simp: conn_def)
      with step.IH show ?case by (auto simp: conn_def dest: root_unique)
    qed
  qed
  ultimately show ?thesis by blast
qed

lemma link_roots_conn:
  assumes f: "forest d" and a: "rooted d a ra" "a \<in> items d" and b: "rooted d b rb" "b \<in> items d"
  shows "conn (link_roots ra rb d) = eqc (items d) (conn d \<union> {(a, b)})"
proof (rule merged_conn [OF root_exists [OF f] a b])
  show "items (link_roots ra rb d) = items d" using link_roots_forest(2) [OF f] root_item a b f by blast
  show "min ra rb = ra \<or> min ra rb = rb" by (simp add: min_def)
qed (rule link_roots_root [OF f a b])

section \<open>The interface of a forest\<close>

text \<open>
  What a client may rely on of a \<open>find\<close>: on an admitted item it returns, it adds the item when
  it is new, it moves no rooted, and it answers the item's rooted.
\<close>

locale root_finder =
  fixes fnd :: "int \<Rightarrow> parents \<Rightarrow> (parents \<times> int) option"
    and admits :: "parents \<Rightarrow> int \<Rightarrow> bool"
  assumes find_ok: "forest d \<Longrightarrow> admits d x \<Longrightarrow>
      \<exists>d' r. fnd x d = Some (d', r) \<and> forest d' \<and> items d' = insert x (items d)
             \<and> rooted d' = rooted d \<and> rooted d' x r"
    and admits_items: "items d \<subseteq> items d' \<Longrightarrow> admits d x \<Longrightarrow> admits d' x"
    and admits_member: "x \<in> items d \<Longrightarrow> admits d x"

text \<open>What a client may rely on of a union: the relation grows by exactly the one edge.\<close>

locale edge_merging =
  fixes link :: "int \<times> int \<Rightarrow> 's \<Rightarrow> 's option"
    and carrier :: "'s \<Rightarrow> int set"
    and rel :: "'s \<Rightarrow> (int \<times> int) set"
    and good :: "'s \<Rightarrow> bool"
    and admits_edge :: "'s \<Rightarrow> int \<times> int \<Rightarrow> bool"
  assumes link_ok: "good s \<Longrightarrow> admits_edge s e \<Longrightarrow>
      \<exists>s'. link e s = Some s' \<and> good s' \<and> carrier s' = {fst e, snd e} \<union> carrier s
           \<and> rel s' = eqc (carrier s') (rel s \<union> {e})"
    and admits_grow: "carrier s \<subseteq> carrier s' \<Longrightarrow> admits_edge s e \<Longrightarrow> admits_edge s' e"
begin

lemma link_all_closure:
  assumes "good s" and "\<forall>e \<in> set es. admits_edge s e"
    and "rel s = eqc (carrier s) E" and "E \<subseteq> carrier s \<times> carrier s"
  shows "\<exists>s'. foldM link es s = Some s' \<and> good s'
              \<and> carrier s' = carrier s \<union> fst ` set es \<union> snd ` set es
              \<and> rel s' = eqc (carrier s') (E \<union> set es)"
  using assms
proof (induction es arbitrary: s E)
  case Nil
  then show ?case by simp
next
  case (Cons e es)
  obtain t where t: "link e s = Some t" "good t" "carrier t = {fst e, snd e} \<union> carrier s"
      "rel t = eqc (carrier t) (rel s \<union> {e})"
    using link_ok [OF Cons.prems(1), of e] Cons.prems(2) by auto
  have "rel t = eqc (carrier t) (E \<union> {e})"
    using t(3,4) Cons.prems(3,4) eqc_absorb [of E "carrier s" "carrier t" "{e}"] by auto
  moreover have "E \<union> {e} \<subseteq> carrier t \<times> carrier t"
    using Cons.prems(4) t(3) by (cases e) auto
  moreover have "\<forall>e' \<in> set es. admits_edge t e'"
    using Cons.prems(2) admits_grow [of s t] t(3) by auto
  ultimately have "\<exists>s'. foldM link es t = Some s' \<and> good s'
      \<and> carrier s' = carrier t \<union> fst ` set es \<union> snd ` set es
      \<and> rel s' = eqc (carrier s') ((E \<union> {e}) \<union> set es)"
    by (intro Cons.IH t(2))
  then obtain s' where s': "foldM link es t = Some s'" "good s'"
      "carrier s' = carrier t \<union> fst ` set es \<union> snd ` set es"
      "rel s' = eqc (carrier s') ((E \<union> {e}) \<union> set es)"
    by blast
  have "carrier s' = carrier s \<union> fst ` set (e # es) \<union> snd ` set (e # es)"
    using s'(3) t(3) by auto
  moreover have "(E \<union> {e}) \<union> set es = E \<union> set (e # es)" by auto
  ultimately show ?case using s' t(1) by auto
qed

end

text \<open>The union of two found roots: \<^verbatim>\<open>if ra != rb: parent[max(ra, rb)] = min(ra, rb)\<close>.\<close>

definition union_by ::
  "(int \<Rightarrow> parents \<Rightarrow> (parents \<times> int) option) \<Rightarrow> int \<times> int \<Rightarrow> parents \<Rightarrow> parents option" where
  "union_by fnd e d =
     Option.bind (fnd (fst e) d) (\<lambda>(d1, ra).
     Option.bind (fnd (snd e) d1) (\<lambda>(d2, rb). Some (link_roots ra rb d2)))"

text \<open>The loop that collects the groups: \<^verbatim>\<open>groups.setdefault(find(m), []).append(m)\<close>.\<close>

fun group_roots ::
  "(int \<Rightarrow> parents \<Rightarrow> (parents \<times> int) option) \<Rightarrow> int list \<Rightarrow> parents
   \<Rightarrow> (int, int list) dict \<Rightarrow> (int, int list) dict option" where
  "group_roots fnd [] d g = Some g"
| "group_roots fnd (m # ms) d g =
     Option.bind (fnd m d) (\<lambda>(d', r). group_roots fnd ms d' (dict_append r m g))"

context root_finder begin

lemma union_by_ok:
  assumes f: "forest d" and adm: "admits d (fst e)" "admits d (snd e)"
  shows "\<exists>d'. union_by fnd e d = Some d' \<and> forest d' \<and> items d' = {fst e, snd e} \<union> items d
              \<and> conn d' = eqc (items d') (conn d \<union> {e})"
proof -
  obtain d1 ra where 1: "fnd (fst e) d = Some (d1, ra)" "forest d1"
      "items d1 = insert (fst e) (items d)" "rooted d1 = rooted d" "rooted d1 (fst e) ra"
    using find_ok [OF f adm(1)] by blast
  have "admits d1 (snd e)" using adm(2) 1(3) admits_items by blast
  then obtain d2 rb where 2: "fnd (snd e) d1 = Some (d2, rb)" "forest d2"
      "items d2 = insert (snd e) (items d1)" "rooted d2 = rooted d1" "rooted d2 (snd e) rb"
    using find_ok [OF 1(2)] by blast
  have K: "items d2 = {fst e, snd e} \<union> items d" using 1(3) 2(3) by auto
  have in2: "fst e \<in> items d2" "snd e \<in> items d2" using K by auto
  have a: "rooted d2 (fst e) ra" using 1(5) 2(4) by simp
  have "conn d2 \<subseteq> conn d \<union> Id"
    using root_outside [of _ d] K root_le 1(4) 2(4)
    by (auto simp: conn_def) (metis root_outside root_item f root_unique)+
  moreover have "conn d \<subseteq> conn d2" using K 1(4) 2(4) by (auto simp: conn_def)
  ultimately have "eqc (items d2) (conn d2 \<union> {e}) = eqc (items d2) (conn d \<union> {e})"
    by (rule_tac eqc_upto_Id) auto
  moreover have "conn (link_roots ra rb d2) = eqc (items d2) (conn d2 \<union> {e})"
    using link_roots_conn [OF 2(2) a in2(1) 2(5) in2(2)] by simp
  moreover have "forest (link_roots ra rb d2)" "items (link_roots ra rb d2) = items d2"
    using link_roots_forest [OF 2(2)] root_item [OF a 2(2) in2(1)] root_item [OF 2(5) 2(2) in2(2)]
    by auto
  ultimately show ?thesis using 1(1) 2(1) K by (simp add: union_by_def)
qed

end

sublocale root_finder \<subseteq> edge_merging "union_by fnd" items conn forest
    "\<lambda>d e. admits d (fst e) \<and> admits d (snd e)"
  by unfold_locales (use union_by_ok admits_items in blast)+

text \<open>The grouping loop moves pointers, never roots: it is \<open>group_by\<close> of the representative.\<close>

context root_finder begin

lemma group_roots_ok:
  assumes "forest d" and "set ms \<subseteq> items d"
  shows "group_roots fnd ms d g = Some (fold (\<lambda>m. dict_append (the_root d m) m) ms g)"
  using assms
proof (induction ms arbitrary: d g)
  case Nil
  then show ?case by simp
next
  case (Cons m ms)
  then have m: "m \<in> items d" and ms: "set ms \<subseteq> items d" by auto
  obtain d' r where d': "fnd m d = Some (d', r)" "forest d'" "items d' = insert m (items d)"
      "rooted d' = rooted d" "rooted d' m r"
    using find_ok [OF Cons.prems(1) admits_member [OF m]] by blast
  have its: "items d' = items d" using m d'(3) by auto
  have r: "r = the_root d m" using root_the_root [OF Cons.prems(1) m] d'(4,5) by simp
  have "the_root d' x = the_root d x" if "x \<in> set ms" for x
    using that ms its d'(2,4) Cons.prems(1) by (intro the_root_cong) auto
  then have "fold (\<lambda>m. dict_append (the_root d' m) m) ms h
           = fold (\<lambda>m. dict_append (the_root d m) m) ms h" for h
    by (intro fold_cong) auto
  then show ?case using Cons.IH [of d'] d' its ms r by simp
qed

lemma group_roots_classes:
  assumes "forest d" and "set ms \<subseteq> items d"
  shows "group_roots fnd ms d [] = Some (group_by (the_root d) ms)"
  using group_roots_ok [OF assms] by (simp add: group_by_def)

end

lemma the_root_conn:
  assumes "forest d" and "x \<in> items d" and "y \<in> items d"
  shows "the_root d x = the_root d y \<longleftrightarrow> (x, y) \<in> conn d"
  using assms by (auto simp: conn_def root_the_root)

lemma the_root_le: "forest d \<Longrightarrow> x \<in> items d \<Longrightarrow> the_root d x \<le> x"
  using root_le root_the_root by blast

lemma the_root_item: "forest d \<Longrightarrow> x \<in> items d \<Longrightarrow> the_root d x \<in> items d"
  using root_item root_the_root by blast

lemma the_root_idem: "forest d \<Longrightarrow> x \<in> items d \<Longrightarrow> the_root d (the_root d x) = the_root d x"
  by (metis root_self root_the_root the_root_item)

lemma the_root_Min:
  assumes "forest d" and "x \<in> items d"
  shows "the_root d x = Min {y \<in> items d. (x, y) \<in> conn d}"
proof (rule sym, rule Min_eqI)
  show "the_root d x \<in> {y \<in> items d. (x, y) \<in> conn d}"
    using assms by (auto simp: the_root_item the_root_idem the_root_conn [symmetric])
  show "the_root d x \<le> y" if "y \<in> {y \<in> items d. (x, y) \<in> conn d}" for y
    using that assms the_root_le by (fastforce simp: the_root_conn [symmetric])
qed simp

text \<open>The groups of a dictionary by representative, in ascending key order, are a partition.\<close>

definition classes :: "parents \<Rightarrow> int list \<Rightarrow> int list list" where
  "classes d ms = map (sort \<circ> snd) (sort_key fst (group_by (the_root d) ms))"

lemma classes_mem:
  "c \<in> set (classes d ms) \<longleftrightarrow>
   (\<exists>k. c = sort (filter (\<lambda>x. the_root d x = k) ms) \<and> filter (\<lambda>x. the_root d x = k) ms \<noteq> [])"
proof
  assume "c \<in> set (classes d ms)"
  then obtain k g where "(k, g) \<in> set (group_by (the_root d) ms)" "c = sort g"
    by (auto simp: classes_def)
  then show "\<exists>k. c = sort (filter (\<lambda>x. the_root d x = k) ms) \<and> filter (\<lambda>x. the_root d x = k) ms \<noteq> []"
    using group_by_entry by metis
next
  assume "\<exists>k. c = sort (filter (\<lambda>x. the_root d x = k) ms) \<and> filter (\<lambda>x. the_root d x = k) ms \<noteq> []"
  then obtain k x where c: "c = sort (filter (\<lambda>x. the_root d x = k) ms)" "x \<in> set ms" "the_root d x = k"
    by (auto simp: filter_empty_conv)
  then have "(k, filter (\<lambda>x. the_root d x = k) ms) \<in> set (group_by (the_root d) ms)"
    using group_by_covers [of x ms "the_root d"] by simp
  then show "c \<in> set (classes d ms)" using c(1) by (force simp: classes_def)
qed

lemma classes_same:
  assumes "x \<in> set ms" and "y \<in> set ms"
  shows "(\<exists>c \<in> set (classes d ms). x \<in> set c \<and> y \<in> set c) \<longleftrightarrow> the_root d x = the_root d y"
proof
  assume "the_root d x = the_root d y"
  then show "\<exists>c \<in> set (classes d ms). x \<in> set c \<and> y \<in> set c"
    using assms
    by (intro bexI [of _ "sort (filter (\<lambda>z. the_root d z = the_root d x) ms)"])
      (auto simp: classes_mem filter_empty_conv)
qed (auto simp: classes_mem)

lemma classes_cover: "set (concat (classes d ms)) = set ms"
proof
  show "set ms \<subseteq> set (concat (classes d ms))"
  proof
    fix x assume "x \<in> set ms"
    then have "\<exists>c \<in> set (classes d ms). x \<in> set c" using classes_same [of x ms x d] by simp
    then show "x \<in> set (concat (classes d ms))" by simp
  qed
  have "set c \<subseteq> set ms" if c: "c \<in> set (classes d ms)" for c
  proof -
    obtain k where "c = sort (filter (\<lambda>x. the_root d x = k) ms)" using c classes_mem by blast
    then show ?thesis by auto
  qed
  then show "set (concat (classes d ms)) \<subseteq> set ms" by auto
qed

lemma classes_nonempty: "c \<in> set (classes d ms) \<Longrightarrow> c \<noteq> [] \<and> sorted c"
  by (auto simp: classes_mem)

lemma group_by_keys: "(k, g) \<in> set (group_by f xs) \<Longrightarrow> \<forall>x \<in> set g. f x = k"
  using group_by_entry(1) by fastforce

lemma distinct_group_concat:
  "distinct xs \<Longrightarrow> distinct (map fst gs) \<Longrightarrow>
   (\<And>k g. (k, g) \<in> set gs \<Longrightarrow> g = filter (\<lambda>x. f x = k) xs) \<Longrightarrow>
   distinct (concat (map (sort \<circ> snd) gs))"
proof (induction gs)
  case (Cons kg gs)
  obtain k g where kg: "kg = (k, g)" by (cases kg)
  have "distinct (concat (map (sort \<circ> snd) gs))" using Cons.prems by (intro Cons.IH) auto
  moreover have g: "g = filter (\<lambda>x. f x = k) xs" using Cons.prems(3) kg by simp
  moreover have "\<forall>(l, h) \<in> set gs. set g \<inter> set h = {}"
  proof clarify
    fix l h assume that: "(l, h) \<in> set gs"
    have "h = filter (\<lambda>x. f x = l) xs" using that Cons.prems(3) by simp
    moreover have "l \<noteq> k" using that Cons.prems(2) kg by (auto simp: rev_image_eqI)
    ultimately show "set g \<inter> set h = {}" using g by auto
  qed
  moreover have "distinct (sort g)" using Cons.prems(1) g by simp
  ultimately show ?case using kg by (fastforce simp: comp_def)
qed simp

lemma classes_distinct:
  assumes "distinct ms"
  shows "distinct (concat (classes d ms))"
  unfolding classes_def
proof (rule distinct_group_concat [OF assms, where f = "the_root d"])
  show "distinct (map fst (sort_key fst (group_by (the_root d) ms)))"
    using distinct_group_by [of "the_root d" ms]
    by (metis distinct_map distinct_sort mset_map mset_sort set_sort)
  show "g = filter (\<lambda>x. the_root d x = k) ms" if "(k, g) \<in> set (sort_key fst (group_by (the_root d) ms))" for k g
    using that group_by_entry(1) by fastforce
qed

text \<open>Each class is listed under its smallest member, its root, so the order is by first id.\<close>

lemma class_root:
  assumes "forest d" and "set ms = items d" and "(k, g) \<in> set (group_by (the_root d) ms)"
  shows "k \<in> set g \<and> (\<forall>x \<in> set g. k \<le> x)"
proof -
  have g: "g = filter (\<lambda>x. the_root d x = k) ms" and ne: "g \<noteq> []"
    using group_by_entry [OF assms(3)] by auto
  then obtain x where x: "x \<in> set ms" "the_root d x = k" by (auto simp: filter_empty_conv)
  then have "k \<in> set ms" "the_root d k = k"
    using assms(1,2) the_root_item the_root_idem by auto
  moreover have "k \<le> y" if "y \<in> set g" for y
    using that assms(1,2) the_root_le g by force
  ultimately show ?thesis using g by auto
qed

lemma hd_sort_least: "k \<in> set g \<Longrightarrow> \<forall>x \<in> set g. k \<le> x \<Longrightarrow> hd (sort g) = (k :: 'a::linorder)"
proof (cases "sort g")
  case (Cons y ys)
  assume "k \<in> set g" "\<forall>x \<in> set g. k \<le> x"
  moreover have "set g = insert y (set ys)" using Cons set_sort [of "\<lambda>x. x" g] by simp
  moreover have "\<forall>x \<in> set ys. y \<le> x" using sorted_sort [of g] Cons by simp
  ultimately show ?thesis using Cons by (auto intro: antisym)
qed auto

lemma classes_heads:
  assumes "forest d" and "set ms = items d"
  shows "map hd (classes d ms) = map fst (sort_key fst (group_by (the_root d) ms))"
proof -
  have "hd (sort (snd kg)) = fst kg" if "kg \<in> set (group_by (the_root d) ms)" for kg
    using that class_root [OF assms, of "fst kg" "snd kg"] hd_sort_least by auto
  then show ?thesis by (auto simp: classes_def)
qed

lemma classes_sorted:
  "forest d \<Longrightarrow> set ms = items d \<Longrightarrow> sorted (map hd (classes d ms))"
  by (simp add: classes_heads)

section \<open>Keys stay apart\<close>

lemma find_root_distinct:
  assumes "find_root d x = Some (d', r)" and "distinct (map fst d)"
  shows "distinct (map fst d')"
proof -
  have "distinct (map fst (fst (d', r)))"
    by (rule while_option_rule [where P = "\<lambda>s. distinct (map fst (fst s))",
          OF _ assms(1) [unfolded find_root_def]])
      (use assms(2) in \<open>auto simp: halve_def Let_def distinct_update\<close>)
  then show ?thesis by simp
qed

lemma union_by_distinct:
  assumes "\<And>x d d' r. fnd x d = Some (d', r) \<Longrightarrow> distinct (map fst d) \<Longrightarrow> distinct (map fst d')"
    and "union_by fnd e d = Some d'" and "distinct (map fst d)"
  shows "distinct (map fst d')"
proof -
  obtain d1 ra d2 rb where "fnd (fst e) d = Some (d1, ra)" "fnd (snd e) d1 = Some (d2, rb)"
      "d' = link_roots ra rb d2"
    using assms(2) by (auto simp: union_by_def split: bind_splits)
  then show ?thesis using assms(1,3) by (simp add: link_roots_def distinct_update)
qed

lemma link_all_distinct:
  assumes "\<And>x d d' r. fnd x d = Some (d', r) \<Longrightarrow> distinct (map fst d) \<Longrightarrow> distinct (map fst d')"
    and "foldM (union_by fnd) es d = Some d'" and "distinct (map fst d)"
  shows "distinct (map fst d')"
  by (rule foldM_inv [where P = "\<lambda>d. distinct (map fst d)", OF assms(2,3)])
    (rule union_by_distinct [where fnd = fnd], rule assms(1))

section \<open>Items that appear when they are looked up\<close>

text \<open>\<^verbatim>\<open>parent.setdefault(item, item)\<close>\<close>

definition setdefault :: "int \<Rightarrow> parents \<Rightarrow> parents" where
  "setdefault x d = (if map_of d x = None then AList.update x x d else d)"

lemma setdefault_items [simp]: "items (setdefault x d) = insert x (items d)"
  by (auto simp: setdefault_def items_update items_dom [of d] domIff)

lemma setdefault_parent [simp]: "parent_of (setdefault x d) = parent_of d"
  using parent_of_outside [of x d]
  by (auto simp: setdefault_def parent_of_update fun_eq_iff items_dom domIff)

lemma setdefault_forest: "forest d \<Longrightarrow> forest (setdefault x d)"
  using forest_add [of d x] by (auto simp: setdefault_def items_dom domIff)

lemma rooted_cong: "parent_of d' = parent_of d \<Longrightarrow> rooted d' = rooted d"
proof -
  assume p: "parent_of d' = parent_of d"
  have "rooted d' x r" if "rooted d x r" for x r
    using that by (induction rule: rooted.induct) (simp_all add: p rooted.here rooted.up)
  moreover have "rooted d x r" if "rooted d' x r" for x r
    using that
  proof (induction rule: rooted.induct)
    case (here x)
    then show ?case by (simp add: p rooted.here)
  next
    case (up x r)
    then show ?case by (simp add: p rooted.up)
  qed
  ultimately show ?thesis by blast
qed

lemma setdefault_rooted [simp]: "rooted (setdefault x d) = rooted d"
  by (rule rooted_cong) simp

lemma setdefault_distinct: "distinct (map fst d) \<Longrightarrow> distinct (map fst (setdefault x d))"
  by (simp add: setdefault_def distinct_update)

text \<open>A \<open>find\<close> that admits any item builds the components of any list of edges.\<close>

context root_finder begin

lemma linked_from_empty:
  assumes "\<And>d x. admits d x"
  shows "\<exists>d. foldM (union_by fnd) es [] = Some d \<and> forest d \<and> items d = fst ` set es \<union> snd ` set es
             \<and> conn d = eqc (items d) (set es)"
proof -
  have "\<exists>d. foldM (union_by fnd) es [] = Some d \<and> forest d
       \<and> items d = items [] \<union> fst ` set es \<union> snd ` set es \<and> conn d = eqc (items d) ({} \<union> set es)"
    by (rule link_all_closure) (use assms in \<open>simp_all add: conn_Nil eqc_def items_def\<close>)
  then show ?thesis by (simp add: items_def)
qed

end

text \<open>The groups as \<open>(representative, sorted members)\<close>, in ascending order.\<close>

definition groups_of :: "parents \<Rightarrow> (int, int list) dict" where
  "groups_of d = map (\<lambda>(k, g). (k, sort g)) (sort_key fst (group_by (the_root d) (map fst d)))"

lemma groups_of_snd: "map snd (groups_of d) = classes d (map fst d)"
  by (simp add: groups_of_def classes_def comp_def case_prod_unfold)

lemma groups_of_fst: "map fst (groups_of d) = map fst (sort_key fst (group_by (the_root d) (map fst d)))"
  by (simp add: groups_of_def comp_def case_prod_unfold)

lemma groups_of_mem:
  assumes "forest d" and "(k, ms) \<in> set (groups_of d)"
  shows "ms \<noteq> []" and "sorted ms" and "hd ms = k" and "set ms = {x \<in> items d. the_root d x = k}"
proof -
  obtain g where g: "(k, g) \<in> set (group_by (the_root d) (map fst d))" "ms = sort g"
    using assms(2) by (auto simp: groups_of_def)
  have cr: "k \<in> set g" "\<forall>x \<in> set g. k \<le> x"
    using class_root [OF assms(1) _ g(1)] by (auto simp: items_def)
  have "g = filter (\<lambda>x. the_root d x = k) (map fst d)" "g \<noteq> []" using group_by_entry [OF g(1)] by auto
  then show "ms \<noteq> []" and "sorted ms" and "set ms = {x \<in> items d. the_root d x = k}"
    by (auto simp: g(2) items_def)
  show "hd ms = k" using hd_sort_least [OF cr] by (simp add: g(2))
qed

lemma groups_of_keys_sorted: "sorted (map fst (groups_of d)) \<and> distinct (map fst (groups_of d))"
proof -
  have "mset (map fst (sort_key fst (group_by (the_root d) (map fst d))))
      = mset (map fst (group_by (the_root d) (map fst d)))" by simp
  then have "distinct (map fst (groups_of d))"
    using distinct_group_by [of "the_root d" "map fst d"] unfolding groups_of_fst
    by (metis mset_eq_imp_distinct_iff)
  then show ?thesis unfolding groups_of_fst by simp
qed

lemma groups_of_conn:
  assumes "forest d"
  shows "(\<exists>(k, ms) \<in> set (groups_of d). x \<in> set ms \<and> y \<in> set ms) \<longleftrightarrow> (x, y) \<in> conn d"
proof
  assume "\<exists>(k, ms) \<in> set (groups_of d). x \<in> set ms \<and> y \<in> set ms"
  then obtain k ms where "(k, ms) \<in> set (groups_of d)" "x \<in> set ms" "y \<in> set ms" by blast
  then show "(x, y) \<in> conn d"
    using groups_of_mem(4) [OF assms] the_root_conn [OF assms, of x y] by auto
next
  assume xy: "(x, y) \<in> conn d"
  then have in_d: "x \<in> items d" "y \<in> items d" by (auto simp: conn_def)
  then have "\<exists>c \<in> set (classes d (map fst d)). x \<in> set c \<and> y \<in> set c"
    using classes_same [of x "map fst d" y d] the_root_conn [OF assms in_d] xy by (simp add: items_def)
  then show "\<exists>(k, ms) \<in> set (groups_of d). x \<in> set ms \<and> y \<in> set ms"
    by (fastforce simp flip: groups_of_snd)
qed

end
