(* ===== verification/Repartition.thy ===== *)
theory Repartition
  imports Prelude Union_Find Complex_Main
begin

text \<open>
  \<open>autodedup/repartition.py\<close>: the connected components of the merge graph, and the cut of one
  component into groups that all satisfy the caller's invariants. The objective's floats are
  rationals (no rounding). The dictionaries \<open>home\<close> and \<open>cells\<close>, which every repair pass of the
  code updates in place, are the record \<open>cut\<close>, threaded through the passes.
\<close>

section \<open>Edges\<close>

record edge =
  elo :: int
  ehi :: int
  escore :: rat
  ecert :: bool

definition CERTIFICATE_WEIGHT :: rat where
  "CERTIFICATE_WEIGHT = 1000"

definition weight :: "edge \<Rightarrow> rat" where
  "weight e = (if ecert e then CERTIFICATE_WEIGHT else 0) + 1 + escore e"

definition rank :: "edge \<Rightarrow> int \<times> rat \<times> int \<times> int" where
  "rank e = (if ecert e then 0 else 1, - escore e, elo e, ehi e)"

text \<open>A rule's name, or \<open>None\<close> where the member set is acceptable; and the refused pairs.\<close>

type_synonym 'r invariants = "int list \<Rightarrow> 'r option"
type_synonym blockers = "int list \<Rightarrow> (int \<times> int) list"

section \<open>Components\<close>

text \<open>\<open>find\<close> inside \<open>components\<close>: a member the graph does not hold raises \<open>KeyError\<close>, \<open>None\<close> here.\<close>

definition comp_find :: "int \<Rightarrow> parents \<Rightarrow> (parents \<times> int) option" where
  "comp_find x d = (if map_of d x = None then None else find_root d x)"

definition comp_parents :: "int list \<Rightarrow> parents" where
  "comp_parents ms = fold (\<lambda>m. AList.update m m) ms []"

definition components :: "int list \<Rightarrow> edge list \<Rightarrow> int list list option" where
  "components ms es =
     Option.bind (foldM (\<lambda>e. union_by comp_find (elo e, ehi e)) es (comp_parents ms))
       (\<lambda>d. map_option (\<lambda>g. map (sort \<circ> snd) (sort_key fst g))
               (group_roots comp_find (map fst d) d []))"

section \<open>The state of a partition\<close>

record cut =
  home :: "int \<Rightarrow> nat"
  cells :: "int list list"

definition cell :: "cut \<Rightarrow> int \<Rightarrow> int list" where
  "cell st m = cells st ! home st m"

text \<open>\<^verbatim>\<open>for member in ms: home[member] = t\<close>\<close>

definition set_home :: "int list \<Rightarrow> nat \<Rightarrow> (int \<Rightarrow> nat) \<Rightarrow> int \<Rightarrow> nat" where
  "set_home ms t h = fold (\<lambda>m h. h(m := t)) ms h"

text \<open>\<^verbatim>\<open>{member: index for index, member in enumerate(sorted(members))}\<close>, one singleton each.\<close>

definition home_at :: "nat \<times> int \<Rightarrow> (int \<Rightarrow> nat) \<Rightarrow> int \<Rightarrow> nat" where
  "home_at p h = h(snd p := fst p)"

definition start_cut :: "int list \<Rightarrow> cut" where
  "start_cut ms =
     \<lparr>home = fold home_at (List.enumerate 0 (sort ms)) (\<lambda>_. 0),
      cells = map (\<lambda>m. [m]) (sort ms)\<rparr>"

definition move_all :: "nat \<Rightarrow> nat \<Rightarrow> cut \<Rightarrow> cut" where
  "move_all source target st =
     \<lparr>home = set_home (cells st ! source) target (home st),
      cells = (cells st)[target := sort (cells st ! target @ cells st ! source), source := []]\<rparr>"

text \<open>
  \<^verbatim>\<open>cells[current].remove(m); cells[target].append(m); cells[target].sort(); home[m] = target\<close>
\<close>

definition move_one :: "int \<Rightarrow> nat \<Rightarrow> cut \<Rightarrow> cut" where
  "move_one m target st =
     (let cs = (cells st)[home st m := remove1 m (cell st m)]
      in \<lparr>home = (home st)(m := target), cells = cs[target := sort (cs ! target @ [m])]\<rparr>)"

definition other :: "edge \<Rightarrow> int \<Rightarrow> int" where
  "other e m = (if elo e = m then ehi e else elo e)"

definition neighbours :: "edge list \<Rightarrow> int \<Rightarrow> edge list" where
  "neighbours ordered m =
     concat (map (\<lambda>e. (if elo e = m then [e] else []) @ (if ehi e = m then [e] else [])) ordered)"

section \<open>The greedy pass\<close>

definition greedy_edge :: "'r invariants \<Rightarrow> edge \<Rightarrow> cut \<Rightarrow> cut" where
  "greedy_edge invs e st =
     (let left = home st (elo e); right = home st (ehi e)
      in if left = right then st
         else if invs (sort (cells st ! left @ cells st ! right)) \<noteq> None then st
         else move_all (max left right) (min left right) st)"

section \<open>The single-member local search\<close>

definition gain :: "edge list \<Rightarrow> cut \<Rightarrow> int \<Rightarrow> nat \<Rightarrow> rat" where
  "gain nb st m target =
     sum_list (map (\<lambda>e. if home st (other e m) = home st m \<and> other e m \<noteq> m then - weight e
                        else if home st (other e m) = target then weight e else 0) nb)"

definition consider_target :: "'r invariants \<Rightarrow> edge list \<Rightarrow> cut \<Rightarrow> int \<Rightarrow> edge
    \<Rightarrow> rat \<times> nat option \<times> nat set \<Rightarrow> rat \<times> nat option \<times> nat set" where
  "consider_target invs nb st m e = (\<lambda>(best_gain, best_target, seen).
     let target = home st (other e m)
     in if target \<in> seen then (best_gain, best_target, seen)
        else if invs (sort (cells st ! target @ [m])) \<noteq> None
             then (best_gain, best_target, insert target seen)
        else if gain nb st m target > best_gain
             then (gain nb st m target, Some target, insert target seen)
        else (best_gain, best_target, insert target seen))"

definition best_move :: "'r invariants \<Rightarrow> edge list \<Rightarrow> cut \<Rightarrow> int \<Rightarrow> rat \<times> nat option \<times> nat set" where
  "best_move invs nb st m = fold (consider_target invs nb st m) nb (0, None, {home st m})"

definition search_member :: "'r invariants \<Rightarrow> edge list \<Rightarrow> int \<Rightarrow> cut \<times> bool \<Rightarrow> cut \<times> bool" where
  "search_member invs ordered m = (\<lambda>(st, moved).
     case best_move invs (neighbours ordered m) st m of
       (_, None, _) \<Rightarrow> (st, moved)
     | (_, Some target, _) \<Rightarrow> (move_one m target st, True))"

definition search :: "'r invariants \<Rightarrow> int list \<Rightarrow> edge list \<Rightarrow> cut \<Rightarrow> cut \<times> bool" where
  "search invs ms ordered st = fold (search_member invs ordered) (sort ms) (st, False)"

section \<open>The repair passes\<close>

definition move_gain :: "edge list \<Rightarrow> cut \<Rightarrow> int \<Rightarrow> nat \<Rightarrow> rat" where
  "move_gain nb st m target =
     sum_list (map (\<lambda>e. if other e m = m then 0
                        else if home st (other e m) = home st m then - weight e
                        else if home st (other e m) = target then weight e else 0) nb)"

definition only_facts_severed :: "edge list \<Rightarrow> blockers option \<Rightarrow> cut \<Rightarrow> int \<Rightarrow> bool" where
  "only_facts_severed nb blk st m =
     (case blk of
        None \<Rightarrow> False
      | Some b \<Rightarrow>
          let here = filter (\<lambda>x. x \<noteq> m) (cell st m); blocked = set (b (sort here @ [m]))
          in here \<noteq> [] \<and>
             (\<forall>e \<in> set nb. other e m = m \<or> home st (other e m) \<noteq> home st m
                \<or> (min m (other e m), max m (other e m)) \<in> blocked))"

definition try_back :: "'r invariants \<Rightarrow> (int \<Rightarrow> edge list) option \<Rightarrow> blockers option
    \<Rightarrow> cut \<Rightarrow> int set \<Rightarrow> int \<Rightarrow> nat \<Rightarrow> cut option" where
  "try_back invs weigh blk st touched m target =
     (if m \<in> touched then None
      else if home st m = target then None
      else if invs (sort (cells st ! target @ [m])) \<noteq> None then None
      else if (case weigh of
                 None \<Rightarrow> False
               | Some nbr \<Rightarrow> move_gain (nbr m) st m target < 0
                              \<and> \<not> only_facts_severed (nbr m) blk st m) then None
      else Some (move_one m target st))"

definition reconcile_edge :: "'r invariants \<Rightarrow> (int \<Rightarrow> edge list) option \<Rightarrow> blockers option
    \<Rightarrow> edge \<Rightarrow> cut \<times> int set \<times> bool \<Rightarrow> cut \<times> int set \<times> bool" where
  "reconcile_edge invs weigh blk e = (\<lambda>(st, touched, moved).
     let left = home st (elo e); right = home st (ehi e)
     in if left = right then (st, touched, moved)
        else case try_back invs weigh blk st touched (elo e) right of
               Some st' \<Rightarrow> (st', insert (elo e) touched, True)
             | None \<Rightarrow>
                 (case try_back invs weigh blk st touched (ehi e) left of
                    Some st' \<Rightarrow> (st', insert (ehi e) touched, True)
                  | None \<Rightarrow> (st, touched, moved)))"

definition reconcile :: "'r invariants \<Rightarrow> (int \<Rightarrow> edge list) option \<Rightarrow> blockers option
    \<Rightarrow> edge list \<Rightarrow> cut \<Rightarrow> cut \<times> bool" where
  "reconcile invs weigh blk ordered st =
     (let (st', _, moved) = fold (reconcile_edge invs weigh blk) ordered (st, {}, False)
      in (st', moved))"

definition rejoin_edge :: "'r invariants \<Rightarrow> edge \<Rightarrow> cut \<times> nat set \<times> bool
    \<Rightarrow> cut \<times> nat set \<times> bool" where
  "rejoin_edge invs e = (\<lambda>(st, touched, moved).
     let left = home st (elo e); right = home st (ehi e)
     in if left = right \<or> left \<in> touched \<or> right \<in> touched then (st, touched, moved)
        else let merged = sort (cells st ! left @ cells st ! right);
                 keeper = min left right; loser = max left right
             in if invs merged \<noteq> None then (st, touched, moved)
                else (\<lparr>home = set_home (cells st ! loser) keeper (home st),
                       cells = (cells st)[keeper := merged, loser := []]\<rparr>,
                      {keeper, loser} \<union> touched, True))"

definition rejoin :: "'r invariants \<Rightarrow> edge list \<Rightarrow> cut \<Rightarrow> cut \<times> bool" where
  "rejoin invs ordered st =
     (let (st', _, moved) = fold (rejoin_edge invs) ordered (st, {}, False) in (st', moved))"

section \<open>Shedding\<close>

definition blocked_pairs :: "(int \<times> int) list \<Rightarrow> (int \<times> int) set" where
  "blocked_pairs conflicts = set (map (\<lambda>(lo, hi). (min lo hi, max lo hi)) conflicts)"

definition weight_inside :: "(int \<Rightarrow> edge list) \<Rightarrow> int list \<Rightarrow> rat" where
  "weight_inside nbr ms =
     sum_list (map (\<lambda>m. sum_list (map (\<lambda>e. if other e m \<in> set ms \<and> other e m > m
                                              then weight e else 0) (nbr m))) (remdups ms))"

definition severs_factless :: "(int \<Rightarrow> edge list) \<Rightarrow> (int \<times> int) list \<Rightarrow> int list \<Rightarrow> int list
    \<Rightarrow> string \<Rightarrow> bool" where
  "severs_factless nbr conflicts cover kept mode =
     (let blocked = blocked_pairs conflicts;
          factless = (\<lambda>m. filter (\<lambda>e. (mode = ''certificate'' \<longrightarrow> ecert e)
                              \<and> other e m \<in> set kept
                              \<and> (min m (other e m), max m (other e m)) \<notin> blocked) (nbr m))
      in \<exists>m \<in> set cover.
           if mode \<noteq> ''core'' then factless m \<noteq> []
           else length (factless m) > card {p \<in> blocked. m = fst p \<or> m = snd p})"

definition dirty_members :: "(int \<Rightarrow> edge list) \<Rightarrow> (int \<times> int) set \<Rightarrow> int list \<Rightarrow> string \<Rightarrow> int set" where
  "dirty_members nbr blocked both mode =
     {m \<in> set both. \<exists>e \<in> set (nbr m). (mode = ''certificate'' \<longrightarrow> ecert e)
        \<and> other e m \<in> set both \<and> other e m \<noteq> m
        \<and> (min m (other e m), max m (other e m)) \<notin> blocked}"

definition degrees :: "int set \<Rightarrow> (int \<times> int) list \<Rightarrow> (int, nat) dict" where
  "degrees keep remaining =
     fold (\<lambda>m d. if m \<in> keep then d
                 else AList.update m (case map_of d m of None \<Rightarrow> 1 | Some n \<Rightarrow> n + 1) d)
       (concat (map (\<lambda>(lo, hi). [lo, hi]) remaining)) []"

definition pick :: "int set \<Rightarrow> int set \<Rightarrow> (int \<times> int) list \<Rightarrow> int" where
  "pick dirty keep remaining =
     (let d = degrees keep remaining
      in arg_min_list (\<lambda>m. (m \<in> dirty, - int (the (map_of d m)), m)) (map fst d))"

lemma degrees_keys: "fst ` set (degrees keep remaining) =
    {m. \<exists>(lo, hi) \<in> set remaining. m = lo \<or> m = hi} - keep"
proof -
  have "fst ` set (fold (\<lambda>m d. if m \<in> keep then d
          else AList.update m (case map_of d m of None \<Rightarrow> 1 | Some n \<Rightarrow> n + 1) d) xs d)
        = fst ` set d \<union> (set xs - keep)" for xs and d :: "(int, nat) dict"
    by (induction xs arbitrary: d) (auto simp: dom_update)
  then show ?thesis by (force simp: degrees_def)
qed

lemma pick_mem: "degrees keep remaining \<noteq> [] \<Longrightarrow>
    pick dirty keep remaining \<notin> keep \<and>
    (\<exists>(lo, hi) \<in> set remaining. pick dirty keep remaining = lo \<or> pick dirty keep remaining = hi)"
  using arg_min_list_mem [of "map fst (degrees keep remaining)"] degrees_keys [of keep remaining]
  by (fastforce simp: pick_def Let_def)

function (sequential) cover_loop :: "int set \<Rightarrow> int \<Rightarrow> int set \<Rightarrow> (int \<times> int) list \<Rightarrow> int list
    \<Rightarrow> int list option" where
  "cover_loop keep limit dirty remaining chosen =
     (if remaining = [] then Some (sort chosen)
      else if int (length chosen) \<ge> limit then None
      else if degrees keep remaining = [] then None
      else let p = pick dirty keep remaining
           in cover_loop keep limit dirty (filter (\<lambda>(lo, hi). lo \<noteq> p \<and> hi \<noteq> p) remaining)
                (chosen @ [p]))"
  by pat_completeness auto
termination
proof (relation "measure (\<lambda>(_, _, _, remaining, _). length remaining)", goal_cases)
  case (2 keep limit dirty remaining chosen p)
  then show ?case
    using pick_mem [of keep remaining dirty]
    by (auto intro!: length_filter_less split: prod.splits)
qed simp

declare cover_loop.simps [simp del]

definition cover_of :: "(int \<times> int) list \<Rightarrow> int set \<Rightarrow> int \<Rightarrow> int set \<Rightarrow> int list option" where
  "cover_of conflicts keep limit dirty = cover_loop keep limit dirty conflicts []"

definition shed_cells :: "int list \<Rightarrow> nat \<Rightarrow> nat \<Rightarrow> int list \<Rightarrow> cut \<Rightarrow> cut" where
  \<comment> \<open>the covered members become cells of their own, the kept ones the keeper's cell\<close>
  "shed_cells cover left right kept st =
     (let keeper = min left right; loser = max left right;
          st1 = fold (\<lambda>m st. \<lparr>home = (home st)(m := length (cells st)),
                              cells = cells st @ [[m]]\<rparr>) cover st
      in \<lparr>home = set_home kept keeper (home st1),
          cells = (cells st1)[keeper := kept, loser := []]\<rparr>)"

definition shed_edge :: "'r invariants \<Rightarrow> (int \<Rightarrow> edge list) \<Rightarrow> blockers \<Rightarrow> int \<Rightarrow> int \<Rightarrow> string
    \<Rightarrow> edge \<Rightarrow> cut \<times> nat set \<times> bool \<Rightarrow> cut \<times> nat set \<times> bool" where
  "shed_edge invs nbr blk shed_max max_union guard e = (\<lambda>(st, touched, moved).
     let left = home st (elo e); right = home st (ehi e)
     in if left = right \<or> left \<in> touched \<or> right \<in> touched then (st, touched, moved)
        else let both = sort (cells st ! left @ cells st ! right)
             in if int (length both) > max_union \<or> invs both = None then (st, touched, moved)
                else let keep = {elo e, ehi e}; conflicts = blk both
                     in if conflicts = [] \<or> (\<exists>(lo, hi) \<in> set conflicts. lo \<in> keep \<and> hi \<in> keep)
                        then (st, touched, moved)
                        else let dirty = (if guard \<noteq> ''off''
                                          then dirty_members nbr (blocked_pairs conflicts) both guard
                                          else {})
                             in case cover_of conflicts keep shed_max dirty of
                                  None \<Rightarrow> (st, touched, moved)
                                | Some cover \<Rightarrow>
                                    let kept = filter (\<lambda>m. m \<notin> set cover) both
                                    in if invs kept \<noteq> None then (st, touched, moved)
                                       else if guard \<noteq> ''off'' \<and>
                                               severs_factless nbr conflicts cover kept guard
                                            then (st, touched, moved)
                                       else if weight_inside nbr kept
                                                 \<le> weight_inside nbr (cells st ! left)
                                                   + weight_inside nbr (cells st ! right)
                                            then (st, touched, moved)
                                       else (shed_cells cover left right kept st,
                                             {left, right} \<union> touched, True))"

definition shed :: "'r invariants \<Rightarrow> (int \<Rightarrow> edge list) \<Rightarrow> blockers \<Rightarrow> int \<Rightarrow> int \<Rightarrow> string
    \<Rightarrow> edge list \<Rightarrow> cut \<Rightarrow> cut \<times> bool" where
  "shed invs nbr blk shed_max max_union guard ordered st =
     (let (st', _, moved) = fold (shed_edge invs nbr blk shed_max max_union guard) ordered (st, {}, False)
      in (st', moved))"

section \<open>The whole partition\<close>

record 'r partition_opts =
  max_rounds :: int
  keep_factless :: bool
  rejoin_cells :: bool
  rejoin_invariants :: "'r invariants option"
  shed_blockers :: "blockers option"
  shed_max :: int
  shed_max_union :: int
  outer_rounds :: int
  shed_factless_guard :: string
  reconcile_factless_first :: bool

definition repair :: "'r invariants \<Rightarrow> 'r partition_opts \<Rightarrow> int list \<Rightarrow> edge list
    \<Rightarrow> cut \<Rightarrow> cut \<times> bool" where
  "repair invs opts ms ordered st0 =
     (let n = nat (max_rounds opts);
          nbr = neighbours ordered;
          weigh = (if shed_blockers opts \<noteq> None then Some nbr else None);
          blocked_for = (if reconcile_factless_first opts then shed_blockers opts else None);
          recon = reconcile invs weigh blocked_for ordered;
          settle = (\<lambda>(st, moved). if moved \<and> keep_factless opts then (fst (recon st), moved)
                                  else (st, moved));
          (st1, t1) = rounds n (search invs ms ordered) st0;
          (st2, t2) = (if keep_factless opts then rounds n recon st1 else (st1, False));
          strict = (case rejoin_invariants opts of Some f \<Rightarrow> f | None \<Rightarrow> invs);
          (st3, t3) = (if rejoin_cells opts
                       then rounds n (\<lambda>st. settle (rejoin strict ordered st)) st2
                       else (st2, False));
          (st4, t4) = (case shed_blockers opts of
                         None \<Rightarrow> (st3, False)
                       | Some blk \<Rightarrow>
                           rounds n (\<lambda>st. settle (shed invs nbr blk (shed_max opts)
                               (shed_max_union opts) (shed_factless_guard opts) ordered st)) st3)
      in (st4, t1 \<or> t2 \<or> t3 \<or> t4))"

text \<open>
  \<open>partition\<close> reads \<open>home\<close> at both ends of every edge, so an edge to an unknown member raises
  \<open>KeyError\<close>: \<open>None\<close>.
\<close>

definition partition_cells :: "int list \<Rightarrow> edge list \<Rightarrow> 'r invariants \<Rightarrow> 'r partition_opts
    \<Rightarrow> int list list option" where
  "partition_cells ms es invs opts =
     (if \<exists>e \<in> set es. elo e \<notin> set ms \<or> ehi e \<notin> set ms then None
      else let ordered = sort_key rank es;
               st1 = fold (greedy_edge invs) ordered (start_cut ms);
               st2 = fst (rounds (nat (max 1 (outer_rounds opts))) (repair invs opts ms ordered) st1)
           in Some (map sort (filter (\<lambda>c. c \<noteq> []) (cells st2))))"

end
