(* ===== verification/Partition_Laws.thy ===== *)
theory Partition_Laws
  imports Repartition
begin

text \<open>
  What \<open>partition\<close> promises: the cells are a partition of the members, and every cell satisfies
  the caller's invariants as long as these are closed under taking members away
  (\<open>member_rules\<close>, the contract between \<open>repartition.py\<close> and the caller's closure
  \<open>invariants\<close>). One preservation lemma per pass, then the whole.
\<close>

section \<open>Well-formed states\<close>

text \<open>\<open>home\<close> and \<open>cells\<close> agree: each member lies in exactly the cell it is homed in.\<close>

definition wf_cut :: "int list \<Rightarrow> cut \<Rightarrow> bool" where
  "wf_cut ms st \<longleftrightarrow>
     (\<forall>m \<in> set ms. home st m < length (cells st) \<and> m \<in> set (cell st m)) \<and>
     (\<forall>i < length (cells st). distinct (cells st ! i) \<and>
        (\<forall>m \<in> set (cells st ! i). m \<in> set ms \<and> home st m = i))"

lemma wf_cutI:
  assumes "\<And>m. m \<in> set ms \<Longrightarrow> home st m < length (cells st) \<and> m \<in> set (cells st ! home st m)"
    and "\<And>i. i < length (cells st) \<Longrightarrow> distinct (cells st ! i)"
    and "\<And>i m. i < length (cells st) \<Longrightarrow> m \<in> set (cells st ! i) \<Longrightarrow> m \<in> set ms \<and> home st m = i"
  shows "wf_cut ms st"
  using assms by (auto simp: wf_cut_def cell_def)

lemma wf_home: "wf_cut ms st \<Longrightarrow> m \<in> set ms \<Longrightarrow> home st m < length (cells st)"
  by (simp add: wf_cut_def)

lemma wf_in_cell: "wf_cut ms st \<Longrightarrow> m \<in> set ms \<Longrightarrow> m \<in> set (cells st ! home st m)"
  by (simp add: wf_cut_def cell_def)

lemma wf_distinct: "wf_cut ms st \<Longrightarrow> i < length (cells st) \<Longrightarrow> distinct (cells st ! i)"
  by (simp add: wf_cut_def)

lemma wf_memD:
  "wf_cut ms st \<Longrightarrow> i < length (cells st) \<Longrightarrow> m \<in> set (cells st ! i) \<Longrightarrow> m \<in> set ms \<and> home st m = i"
  by (simp add: wf_cut_def)

lemma wf_disjoint:
  "wf_cut ms st \<Longrightarrow> i < length (cells st) \<Longrightarrow> j < length (cells st) \<Longrightarrow> i \<noteq> j \<Longrightarrow>
   set (cells st ! i) \<inter> set (cells st ! j) = {}"
  using wf_memD by blast

lemma wf_both_distinct:
  "wf_cut ms st \<Longrightarrow> i < length (cells st) \<Longrightarrow> j < length (cells st) \<Longrightarrow> i \<noteq> j \<Longrightarrow>
   distinct (sort (cells st ! i @ cells st ! j))"
  by (simp add: wf_distinct wf_disjoint)

lemma wf_plus_distinct:
  "wf_cut ms st \<Longrightarrow> m \<in> set ms \<Longrightarrow> i < length (cells st) \<Longrightarrow> i \<noteq> home st m \<Longrightarrow>
   distinct (sort (cells st ! i @ [m]))"
  using wf_memD [of ms st i m] by (auto simp: wf_distinct)

subsection \<open>The start\<close>

lemma home_at_apply: "home_at p h x = (if x = snd p then fst p else h x)"
  by (simp add: home_at_def)

lemma home_at_self: "home_at (n, x) h x = n"
  by (simp add: home_at_def)

lemma home_enumerate:
  "x \<notin> set xs \<Longrightarrow> fold home_at (List.enumerate n xs) h x = h x"
  by (induction xs arbitrary: n h) (auto simp: home_at_apply)

lemma home_enumerate_nth:
  "distinct xs \<Longrightarrow> i < length xs \<Longrightarrow> fold home_at (List.enumerate n xs) h (xs ! i) = n + i"
proof (induction xs arbitrary: n h i)
  case (Cons x xs)
  show ?case
  proof (cases i)
    case 0
    then show ?thesis using Cons.prems home_enumerate [of x xs "Suc n" "home_at (n, x) h"]
      by (simp add: home_at_self)
  next
    case (Suc j)
    then show ?thesis using Cons.prems Cons.IH [of j "Suc n"] by simp
  qed
qed simp

lemma wf_start: "distinct ms \<Longrightarrow> wf_cut ms (start_cut ms)"
proof (rule wf_cutI)
  assume d: "distinct ms"
  have nth: "home (start_cut ms) (sort ms ! i) = i" if "i < length ms" for i
    using that d home_enumerate_nth [of "sort ms" i 0 "\<lambda>_. 0"] by (simp add: start_cut_def)
  show "home (start_cut ms) m < length (cells (start_cut ms)) \<and>
        m \<in> set (cells (start_cut ms) ! home (start_cut ms) m)" if m: "m \<in> set ms" for m
  proof -
    obtain i where "i < length ms" "sort ms ! i = m"
      using m in_set_conv_nth [of m "sort ms"] by auto
    then show ?thesis using nth [of i] by (auto simp: start_cut_def)
  qed
  show "distinct (cells (start_cut ms) ! i)" if "i < length (cells (start_cut ms))" for i
    using that by (simp add: start_cut_def)
  show "m \<in> set ms \<and> home (start_cut ms) m = i"
    if "i < length (cells (start_cut ms))" "m \<in> set (cells (start_cut ms) ! i)" for i m
    using that nth [of i] nth_mem [of i "sort ms"] by (auto simp: start_cut_def)
qed

subsection \<open>Moves\<close>

lemma set_home_apply: "set_home ms t h x = (if x \<in> set ms then t else h x)"
  by (induction ms arbitrary: h) (auto simp: set_home_def)

lemma sort_append_commute: "sort (xs @ ys) = sort (ys @ xs)" for xs ys :: "'a::linorder list"
  by (rule properties_for_sort) simp_all

text \<open>The one shape behind \<open>move_all\<close>, \<open>rejoin\<close> and the last step of \<open>shed\<close>.\<close>

definition join_cells :: "nat \<Rightarrow> nat \<Rightarrow> cut \<Rightarrow> cut" where
  "join_cells keeper loser st =
     \<lparr>home = set_home (cells st ! loser) keeper (home st),
      cells = (cells st)[keeper := sort (cells st ! keeper @ cells st ! loser), loser := []]\<rparr>"

lemma move_all_join: "move_all source target st = join_cells target source st"
  by (simp add: move_all_def join_cells_def)

lemma wf_join:
  assumes wf: "wf_cut ms st" and k: "keeper < length (cells st)" and l: "loser < length (cells st)"
    and neq: "keeper \<noteq> loser"
  shows "wf_cut ms (join_cells keeper loser st)"
proof (rule wf_cutI)
  let ?st = "join_cells keeper loser st"
  have nth: "cells ?st ! i = (if i = loser then []
      else if i = keeper then sort (cells st ! keeper @ cells st ! loser) else cells st ! i)"
    if "i < length (cells st)" for i
    using that k l neq by (auto simp: join_cells_def nth_list_update)
  have len: "length (cells ?st) = length (cells st)" by (simp add: join_cells_def)
  have hm: "home ?st m = (if m \<in> set (cells st ! loser) then keeper else home st m)" for m
    by (simp add: join_cells_def set_home_apply)
  show "home ?st m < length (cells ?st) \<and> m \<in> set (cells ?st ! home ?st m)" if "m \<in> set ms" for m
    using that wf_home [OF wf that] wf_in_cell [OF wf that] k neq
    by (auto simp: hm len nth)
  show "distinct (cells ?st ! i)" if "i < length (cells ?st)" for i
    using that wf_both_distinct [OF wf k l neq] wf_distinct [OF wf]
    by (auto simp: len nth simp del: distinct_sort)
  show "m \<in> set ms \<and> home ?st m = i" if "i < length (cells ?st)" "m \<in> set (cells ?st ! i)" for i m
    using that wf_memD [OF wf] k l neq
    by (auto simp: len nth hm split: if_splits)
qed

lemma wf_move_one:
  assumes wf: "wf_cut ms st" and m: "m \<in> set ms" and t: "target < length (cells st)"
    and neq: "target \<noteq> home st m"
  shows "wf_cut ms (move_one m target st)"
proof (rule wf_cutI)
  let ?st = "move_one m target st" and ?h = "home st m"
  have h: "?h < length (cells st)" using wf_home [OF wf m] .
  have nth: "cells ?st ! i = (if i = target then sort (cells st ! target @ [m])
      else if i = ?h then remove1 m (cells st ! ?h) else cells st ! i)"
    if "i < length (cells st)" for i
    using that h t neq by (auto simp: move_one_def Let_def cell_def nth_list_update)
  have len: "length (cells ?st) = length (cells st)" by (simp add: move_one_def Let_def)
  have hm: "home ?st x = (if x = m then target else home st x)" for x
    by (simp add: move_one_def Let_def)
  show "home ?st x < length (cells ?st) \<and> x \<in> set (cells ?st ! home ?st x)" if "x \<in> set ms" for x
    using that wf_home [OF wf that] wf_in_cell [OF wf that] t
    by (auto simp: hm len nth)
  show "distinct (cells ?st ! i)" if "i < length (cells ?st)" for i
    using that wf_plus_distinct [OF wf m t neq] wf_distinct [OF wf]
    by (auto simp: len nth distinct_remove1 simp del: distinct_sort)
  show "x \<in> set ms \<and> home ?st x = i" if "i < length (cells ?st)" "x \<in> set (cells ?st ! i)" for i x
    using that wf_memD [OF wf] wf_distinct [OF wf h] m t neq
    by (auto simp: len nth hm set_remove1_eq split: if_splits)
qed

subsection \<open>Shedding\<close>

definition add_singles :: "int list \<Rightarrow> cut \<Rightarrow> cut" where
  "add_singles cover st =
     fold (\<lambda>m st. \<lparr>home = (home st)(m := length (cells st)), cells = cells st @ [[m]]\<rparr>) cover st"

lemma add_singles_cells: "cells (add_singles cover st) = cells st @ map (\<lambda>m. [m]) cover"
  by (induction cover arbitrary: st) (auto simp: add_singles_def)

lemma add_singles_home:
  "distinct cover \<Longrightarrow> x \<notin> set cover \<Longrightarrow> home (add_singles cover st) x = home st x"
  by (induction cover arbitrary: st) (auto simp: add_singles_def)

lemma add_singles_home_nth:
  "distinct cover \<Longrightarrow> i < length cover \<Longrightarrow>
   home (add_singles cover st) (cover ! i) = length (cells st) + i"
proof (induction cover arbitrary: st i)
  case (Cons c cover)
  then show ?case
    using add_singles_home [of cover c] Cons.IH
    by (cases i) (auto simp: add_singles_def)
qed simp

lemma wf_shed_cells:
  assumes wf: "wf_cut ms st" and l: "left < length (cells st)" and r: "right < length (cells st)"
    and neq: "left \<noteq> right" and d: "distinct cover"
    and cov: "set cover \<subseteq> set (cells st ! left) \<union> set (cells st ! right)"
    and kept: "kept = filter (\<lambda>m. m \<notin> set cover) (sort (cells st ! left @ cells st ! right))"
  shows "wf_cut ms (shed_cells cover left right kept st)"
proof (rule wf_cutI)
  let ?st = "shed_cells cover left right kept st" and ?n = "length (cells st)"
  let ?k = "min left right" and ?l = "max left right"
  have kl: "?k < ?n" "?l < ?n" "?k \<noteq> ?l" using l r neq by auto
  have cs: "cells ?st = (cells st @ map (\<lambda>m. [m]) cover)[?k := kept, ?l := []]"
    by (simp add: shed_cells_def Let_def flip: add_singles_def) (simp add: add_singles_cells)
  have len: "length (cells ?st) = ?n + length cover" by (simp add: cs)
  have nth: "cells ?st ! i = (if i = ?l then [] else if i = ?k then kept
      else if i < ?n then cells st ! i else [cover ! (i - ?n)])" if "i < ?n + length cover" for i
    using that kl by (auto simp: cs nth_list_update nth_append)
  have mem: "set kept = (set (cells st ! left) \<union> set (cells st ! right)) - set cover"
    by (auto simp: kept)
  have hm: "home ?st x = (if x \<in> set kept then ?k else home (add_singles cover st) x)" for x
    by (simp add: shed_cells_def Let_def set_home_apply flip: add_singles_def)
  have both: "x \<in> set ms \<and> (home st x = left \<or> home st x = right)"
    if "x \<in> set (cells st ! left) \<union> set (cells st ! right)" for x
    using that wf_memD [OF wf] l r by auto
  have away: "x \<notin> set (cells st ! left) \<union> set (cells st ! right)"
    if "home st x \<noteq> left" "home st x \<noteq> right" for x
    using that both by blast
  have singles: "home ?st (cover ! i) = ?n + i" if "i < length cover" for i
    using that add_singles_home_nth [OF d that] nth_mem [OF that] by (simp add: hm mem)
  show "home ?st x < length (cells ?st) \<and> x \<in> set (cells ?st ! home ?st x)" if x: "x \<in> set ms" for x
  proof (cases "x \<in> set cover")
    case True
    then obtain i where "i < length cover" "cover ! i = x" by (auto simp: in_set_conv_nth)
    then show ?thesis using singles kl by (auto simp: len nth)
  next
    case False
    then have "home (add_singles cover st) x = home st x" by (simp add: add_singles_home d)
    moreover have "x \<in> set kept" if "home st x = left \<or> home st x = right"
      using that False wf_in_cell [OF wf x] by (auto simp: mem)
    ultimately show ?thesis
      using wf_home [OF wf x] wf_in_cell [OF wf x] kl False
      by (auto simp: hm len nth min_def max_def split: if_splits)
  qed
  show "distinct (cells ?st ! i)" if "i < length (cells ?st)" for i
  proof -
    have "distinct kept"
      using wf_both_distinct [OF wf l r neq] unfolding kept by (rule distinct_filter)
    then show ?thesis using that wf_distinct [OF wf] by (simp add: len nth)
  qed
  show "x \<in> set ms \<and> home ?st x = i" if i: "i < length (cells ?st)" and x: "x \<in> set (cells ?st ! i)" for i x
  proof -
    consider "i = ?k" "x \<in> set kept" | "i < ?n" "i \<noteq> ?k" "i \<noteq> ?l" "x \<in> set (cells st ! i)"
      | j where "i = ?n + j" "j < length cover" "x = cover ! j"
      using i x by (auto simp: len nth split: if_splits)
        (metis add_diff_inverse_nat nat_add_left_cancel_less)
    then show ?thesis
    proof cases
      case 1
      then show ?thesis using both by (auto simp: hm mem)
    next
      case 2
      then have "x \<in> set ms" "home st x = i" using wf_memD [OF wf] by auto
      moreover from this 2 have "x \<notin> set (cells st ! left) \<union> set (cells st ! right)"
        by (intro away) (auto simp: min_def max_def split: if_splits)
      moreover from this have "x \<notin> set cover" using cov by blast
      ultimately show ?thesis by (simp add: hm mem add_singles_home d)
    next
      case 3
      then have "x \<in> set ms" using cov both nth_mem by blast
      with 3 singles show ?thesis by simp
    qed
  qed
qed

section \<open>The cover\<close>

lemma cover_loop_sound:
  "cover_loop keep limit dirty remaining chosen = Some c \<Longrightarrow> distinct chosen \<Longrightarrow>
   (\<And>lo hi. (lo, hi) \<in> set remaining \<Longrightarrow> lo \<notin> set chosen \<and> hi \<notin> set chosen) \<Longrightarrow>
   distinct c \<and> set chosen \<subseteq> set c \<and>
   set c - set chosen \<subseteq> {m. \<exists>(lo, hi) \<in> set remaining. m = lo \<or> m = hi} - keep \<and>
   (\<forall>(lo, hi) \<in> set remaining. lo \<in> set c \<or> hi \<in> set c)"
proof (induction keep limit dirty remaining chosen rule: cover_loop.induct)
  case (1 keep limit dirty remaining chosen)
  show ?case
  proof (cases "remaining = []")
    case True
    then have "c = sort chosen" using "1.prems"(1) by (simp add: cover_loop.simps)
    then show ?thesis using "1.prems"(2) True by simp
  next
    case False
    define p where "p = pick dirty keep remaining"
    define rest where "rest = filter (\<lambda>(lo, hi). lo \<noteq> p \<and> hi \<noteq> p) remaining"
    have nl: "\<not> int (length chosen) \<ge> limit" and nd: "degrees keep remaining \<noteq> []"
      and rec: "cover_loop keep limit dirty rest (chosen @ [p]) = Some c"
      using "1.prems"(1) False
      by (auto simp: cover_loop.simps [of keep limit dirty remaining] p_def rest_def Let_def
          split: if_splits)
    have pm: "p \<notin> keep" "\<exists>(lo, hi) \<in> set remaining. p = lo \<or> p = hi"
      using pick_mem [OF nd, of dirty] by (simp_all add: p_def)
    then have pc: "p \<notin> set chosen" using "1.prems"(3) by fastforce
    have "distinct c \<and> set (chosen @ [p]) \<subseteq> set c \<and>
        set c - set (chosen @ [p]) \<subseteq> {m. \<exists>(lo, hi) \<in> set rest. m = lo \<or> m = hi} - keep \<and>
        (\<forall>(lo, hi) \<in> set rest. lo \<in> set c \<or> hi \<in> set c)"
    proof (rule "1.IH" [OF False nl nd p_def, folded rest_def, OF rec])
      show "distinct (chosen @ [p])" using "1.prems"(2) pc by simp
      show "lo \<notin> set (chosen @ [p]) \<and> hi \<notin> set (chosen @ [p])" if "(lo, hi) \<in> set rest" for lo hi
        using that "1.prems"(3) by (auto simp: rest_def)
    qed
    then have r: "distinct c" "set chosen \<subseteq> set c" "p \<in> set c"
        "set c - set (chosen @ [p]) \<subseteq> {m. \<exists>(lo, hi) \<in> set rest. m = lo \<or> m = hi} - keep"
        "\<forall>(lo, hi) \<in> set rest. lo \<in> set c \<or> hi \<in> set c"
      by auto
    have "set c - set chosen \<subseteq> {m. \<exists>(lo, hi) \<in> set remaining. m = lo \<or> m = hi} - keep"
    proof
      fix m assume m: "m \<in> set c - set chosen"
      show "m \<in> {m. \<exists>(lo, hi) \<in> set remaining. m = lo \<or> m = hi} - keep"
      proof (cases "m = p")
        case False
        with m r(4) have "m \<in> {m. \<exists>(lo, hi) \<in> set rest. m = lo \<or> m = hi} - keep" by auto
        then show ?thesis by (auto simp: rest_def)
      qed (use pm in auto)
    qed
    moreover have "lo \<in> set c \<or> hi \<in> set c" if "(lo, hi) \<in> set remaining" for lo hi
      using that r(3,5) by (cases "lo = p \<or> hi = p") (auto simp: rest_def)
    ultimately show ?thesis using r(1,2) by auto
  qed
qed

lemma cover_of_sound:
  assumes "cover_of conflicts keep limit dirty = Some c"
  shows "distinct c" and "set c \<subseteq> {m. \<exists>(lo, hi) \<in> set conflicts. m = lo \<or> m = hi} - keep"
    and "\<forall>(lo, hi) \<in> set conflicts. lo \<in> set c \<or> hi \<in> set c"
  using cover_loop_sound [of keep limit dirty conflicts "[]" c] assms
  by (auto simp: cover_of_def)

section \<open>The contract of the caller's invariants\<close>

text \<open>
  \<open>partition\<close>'s docstring: \<^verbatim>\<open>every invariant here is monotone (a subset of a valid set is valid)\<close>;
  and a single member is always acceptable. Both are asked of the component's own members \<open>ms\<close>.
\<close>

locale member_rules =
  fixes invs :: "'r invariants"
    and ms :: "int list"
  assumes closed: "set xs \<subseteq> set ms \<Longrightarrow> invs xs = None \<Longrightarrow> set ys \<subseteq> set xs \<Longrightarrow> distinct ys \<Longrightarrow>
      invs ys = None"
    and single: "m \<in> set ms \<Longrightarrow> invs [m] = None"
    and empty_ok: "invs [] = None"

definition sound :: "'r invariants \<Rightarrow> int list \<Rightarrow> cut \<Rightarrow> bool" where
  "sound invs ms st \<longleftrightarrow> wf_cut ms st \<and> (\<forall>c \<in> set (cells st). invs c = None)"

definition edges_inside :: "int list \<Rightarrow> edge list \<Rightarrow> bool" where
  "edges_inside ms es \<longleftrightarrow> (\<forall>e \<in> set es. elo e \<in> set ms \<and> ehi e \<in> set ms)"

lemma sound_wf: "sound invs ms st \<Longrightarrow> wf_cut ms st"
  by (simp add: sound_def)

lemma sound_cell: "sound invs ms st \<Longrightarrow> i < length (cells st) \<Longrightarrow> invs (cells st ! i) = None"
  by (simp add: sound_def)

lemma set_update2_subset: "set (xs[i := a, j := b]) \<subseteq> insert a (insert b (set xs))"
  using set_update_subset_insert [of "xs[i := a]" j b] set_update_subset_insert [of xs i a] by blast

lemma neighbours_mem:
  "e \<in> set (neighbours ordered m) \<longleftrightarrow> e \<in> set ordered \<and> (elo e = m \<or> ehi e = m)"
  by (auto simp: neighbours_def)

lemma neighbours_other:
  "edges_inside ms ordered \<Longrightarrow> e \<in> set (neighbours ordered m) \<Longrightarrow> other e m \<in> set ms"
  by (auto simp: neighbours_mem edges_inside_def other_def)

text \<open>What the local search offers: a cell the member is not in, that can hold it, at a gain.\<close>

lemma best_move_spec:
  assumes "best_move invs nb st m = (g, Some target, seen)"
  shows "target \<noteq> home st m" and "invs (sort (cells st ! target @ [m])) = None"
    and "gain nb st m target > 0" and "\<exists>e \<in> set nb. target = home st (other e m)"
proof -
  let ?P = "\<lambda>(g, bt, seen). home st m \<in> seen \<and> g \<ge> 0 \<and> (case bt of None \<Rightarrow> True | Some t \<Rightarrow>
      t \<noteq> home st m \<and> invs (sort (cells st ! t @ [m])) = None \<and> gain nb st m t > 0 \<and>
      (\<exists>e \<in> set nb. t = home st (other e m)))"
  have "?P (best_move invs nb st m)"
    unfolding best_move_def
  proof (rule fold_inv)
    show "?P (consider_target invs nb st m e acc)" if "e \<in> set nb" "?P acc" for e acc
      using that by (auto simp: consider_target_def Let_def split: prod.splits option.splits)
  qed simp
  then show "target \<noteq> home st m" and "invs (sort (cells st ! target @ [m])) = None"
    and "gain nb st m target > 0" and "\<exists>e \<in> set nb. target = home st (other e m)"
    using assms by auto
qed

context member_rules begin

lemma start_sound: "distinct ms \<Longrightarrow> sound invs ms (start_cut ms)"
  using wf_start [of ms] by (auto simp: sound_def start_cut_def single)

lemma join_sound:
  assumes "sound invs ms st" and "keeper < length (cells st)" and "loser < length (cells st)"
    and "keeper \<noteq> loser" and "invs (sort (cells st ! keeper @ cells st ! loser)) = None"
  shows "sound invs ms (join_cells keeper loser st)"
proof -
  have "invs c = None" if "c \<in> set (cells (join_cells keeper loser st))" for c
    using that assms(1,5) empty_ok
      set_update2_subset [of "cells st" keeper "sort (cells st ! keeper @ cells st ! loser)" loser "[]"]
    by (auto simp: join_cells_def sound_def)
  then show ?thesis using wf_join assms sound_wf by (auto simp: sound_def)
qed

lemma move_one_sound:
  assumes s: "sound invs ms st" and m: "m \<in> set ms" and t: "target < length (cells st)"
    and neq: "target \<noteq> home st m" and ok: "invs (sort (cells st ! target @ [m])) = None"
  shows "sound invs ms (move_one m target st)"
proof -
  have h: "home st m < length (cells st)" using wf_home [OF sound_wf [OF s] m] .
  have "set (cells st ! home st m) \<subseteq> set ms" using wf_memD [OF sound_wf [OF s] h] by blast
  then have rem: "invs (remove1 m (cell st m)) = None"
    using closed [OF _ sound_cell [OF s h]] wf_distinct [OF sound_wf [OF s] h] set_remove1_subset
    by (simp add: cell_def)
  have "invs c = None" if "c \<in> set (cells (move_one m target st))" for c
  proof -
    have "c \<in> insert (sort (cells st ! target @ [m])) (insert (remove1 m (cell st m)) (set (cells st)))"
      using that neq set_update2_subset [of "cells st" "home st m" "remove1 m (cell st m)" target]
      by (force simp: move_one_def Let_def nth_list_update)
    then show ?thesis using s ok rem by (auto simp: sound_def)
  qed
  then show ?thesis using wf_move_one [OF sound_wf [OF s] m t neq] by (simp add: sound_def)
qed

lemma greedy_edge_sound:
  assumes s: "sound invs ms st" and e: "elo e \<in> set ms" "ehi e \<in> set ms"
  shows "sound invs ms (greedy_edge invs e st)"
proof (cases "home st (elo e) = home st (ehi e) \<or>
    invs (sort (cells st ! home st (elo e) @ cells st ! home st (ehi e))) \<noteq> None")
  case True
  then show ?thesis using s by (auto simp: greedy_edge_def Let_def)
next
  case False
  let ?l = "home st (elo e)" and ?r = "home st (ehi e)"
  have lr: "?l < length (cells st)" "?r < length (cells st)"
    using wf_home [OF sound_wf [OF s]] e by auto
  have "sound invs ms (join_cells (min ?l ?r) (max ?l ?r) st)"
    using False lr s sort_append_commute [of "cells st ! ?l" "cells st ! ?r"]
    by (intro join_sound) (auto simp: min_def max_def)
  then show ?thesis using False by (simp add: greedy_edge_def Let_def move_all_join)
qed

lemma greedy_sound:
  "edges_inside ms ordered \<Longrightarrow> sound invs ms st \<Longrightarrow> sound invs ms (fold (greedy_edge invs) ordered st)"
  by (rule fold_inv) (auto simp: edges_inside_def greedy_edge_sound)

lemma search_member_sound:
  assumes e: "edges_inside ms ordered" and m: "m \<in> set ms" and s: "sound invs ms (fst acc)"
  shows "sound invs ms (fst (search_member invs ordered m acc))"
proof -
  obtain st moved where acc: "acc = (st, moved)" by (cases acc)
  obtain g bt seen where b: "best_move invs (neighbours ordered m) st m = (g, bt, seen)"
    by (cases "best_move invs (neighbours ordered m) st m")
  show ?thesis
  proof (cases bt)
    case None
    then show ?thesis using s b by (simp add: search_member_def acc)
  next
    case (Some t)
    note bm = best_move_spec [OF b [unfolded Some]]
    obtain e' where e': "e' \<in> set (neighbours ordered m)" "t = home st (other e' m)" using bm(4) by blast
    have st: "sound invs ms st" using s acc by simp
    have t: "t < length (cells st)"
      using wf_home [OF sound_wf [OF st] neighbours_other [OF e e'(1)]] e'(2) by simp
    show ?thesis using move_one_sound [OF st m t bm(1,2)] b Some by (simp add: search_member_def acc)
  qed
qed

lemma search_sound:
  "edges_inside ms ordered \<Longrightarrow> sound invs ms st \<Longrightarrow> sound invs ms (fst (search invs ms ordered st))"
  unfolding search_def
  by (rule fold_inv [where P = "\<lambda>acc. sound invs ms (fst acc)"]) (auto simp: search_member_sound)

lemma try_back_sound:
  assumes s: "sound invs ms st" and m: "m \<in> set ms" and t: "target < length (cells st)"
    and "try_back invs weigh blk st touched m target = Some st'"
  shows "sound invs ms st'"
proof -
  have "target \<noteq> home st m" and "invs (sort (cells st ! target @ [m])) = None"
    and "st' = move_one m target st"
    using assms(4) by (auto simp: try_back_def split: if_splits)
  then show ?thesis using move_one_sound [OF s m t] by simp
qed

lemma reconcile_edge_sound:
  assumes s: "sound invs ms (fst acc)" and e: "elo e \<in> set ms" "ehi e \<in> set ms"
  shows "sound invs ms (fst (reconcile_edge invs weigh blk e acc))"
proof -
  obtain st touched moved where acc: "acc = (st, touched, moved)" by (cases acc)
  have st: "sound invs ms st" using s acc by simp
  have "home st (elo e) < length (cells st)" "home st (ehi e) < length (cells st)"
    using wf_home [OF sound_wf [OF st]] e by auto
  then show ?thesis
    using st try_back_sound [OF st] e
    by (auto simp: reconcile_edge_def acc Let_def split: option.splits)
qed

lemma reconcile_sound:
  assumes "edges_inside ms ordered" and "sound invs ms st"
  shows "sound invs ms (fst (reconcile invs weigh blk ordered st))"
proof -
  have "sound invs ms (fst (fold (reconcile_edge invs weigh blk) ordered (st, {}, False)))"
    using assms
    by (intro fold_inv [where P = "\<lambda>acc. sound invs ms (fst acc)"])
      (auto simp: edges_inside_def reconcile_edge_sound)
  then show ?thesis by (simp add: reconcile_def split_beta)
qed

lemma rejoin_edge_sound:
  assumes s: "sound invs ms (fst acc)" and e: "elo e \<in> set ms" "ehi e \<in> set ms"
    and strict: "\<And>xs. strict xs = None \<Longrightarrow> invs xs = None"
  shows "sound invs ms (fst (rejoin_edge strict e acc))"
proof -
  obtain st touched moved where acc: "acc = (st, touched, moved)" by (cases acc)
  have st: "sound invs ms st" using s acc by simp
  let ?l = "home st (elo e)" and ?r = "home st (ehi e)"
  let ?k = "min ?l ?r" and ?x = "max ?l ?r"
  have lr: "?l < length (cells st)" "?r < length (cells st)"
    using wf_home [OF sound_wf [OF st]] e by auto
  have merged: "sort (cells st ! ?l @ cells st ! ?r) = sort (cells st ! ?k @ cells st ! ?x)"
    using sort_append_commute by (auto simp: min_def max_def)
  show ?thesis
  proof (cases "?l = ?r \<or> ?l \<in> touched \<or> ?r \<in> touched
      \<or> strict (sort (cells st ! ?l @ cells st ! ?r)) \<noteq> None")
    case True
    then show ?thesis using st by (auto simp: rejoin_edge_def acc Let_def)
  next
    case False
    then have "sound invs ms (join_cells ?k ?x st)"
      using lr strict merged st by (intro join_sound) auto
    then show ?thesis using False merged by (auto simp: rejoin_edge_def acc Let_def join_cells_def)
  qed
qed

lemma rejoin_sound:
  assumes "edges_inside ms ordered" and "sound invs ms st"
    and "\<And>xs. strict xs = None \<Longrightarrow> invs xs = None"
  shows "sound invs ms (fst (rejoin strict ordered st))"
proof -
  have "sound invs ms (fst (fold (rejoin_edge strict) ordered (st, {}, False)))"
    using assms
    by (intro fold_inv [where P = "\<lambda>acc. sound invs ms (fst acc)"])
      (auto simp: edges_inside_def rejoin_edge_sound)
  then show ?thesis by (simp add: rejoin_def split_beta)
qed

end

context member_rules begin

lemma shed_edge_sound:
  assumes s: "sound invs ms (fst acc)" and e: "elo e \<in> set ms" "ehi e \<in> set ms"
    and blk: "\<And>xs. set xs \<subseteq> set ms \<Longrightarrow> set (blk xs) \<subseteq> set xs \<times> set xs"
  shows "sound invs ms (fst (shed_edge invs nbr blk mx mu guard e acc))"
proof -
  obtain st touched moved where acc: "acc = (st, touched, moved)" by (cases acc)
  have st: "sound invs ms st" using s acc by simp
  let ?l = "home st (elo e)" and ?r = "home st (ehi e)"
  have l: "?l < length (cells st)" and r: "?r < length (cells st)"
    using wf_home [OF sound_wf [OF st]] e by auto
  define both where "both = sort (cells st ! ?l @ cells st ! ?r)"
  have main: "sound invs ms (shed_cells cover ?l ?r (filter (\<lambda>m. m \<notin> set cover) both) st)"
    if neq: "?l \<noteq> ?r" and cov: "cover_of (blk both) {elo e, ehi e} mx d = Some cover"
      and ok: "invs (filter (\<lambda>m. m \<notin> set cover) both) = None" for cover d
  proof -
    let ?kept = "filter (\<lambda>m. m \<notin> set cover) both"
    have in_ms: "set (cells st ! ?l) \<subseteq> set ms" "set (cells st ! ?r) \<subseteq> set ms"
      using wf_memD [OF sound_wf [OF st] l] wf_memD [OF sound_wf [OF st] r] by blast+
    then have bms: "set both \<subseteq> set ms" by (simp add: both_def)
    have "set cover \<subseteq> set both"
    proof
      fix m assume "m \<in> set cover"
      then obtain lo hi where "(lo, hi) \<in> set (blk both)" "m = lo \<or> m = hi"
        using cover_of_sound(2) [OF cov] by blast
      then show "m \<in> set both" using blk [OF bms] by auto
    qed
    then have sub: "set cover \<subseteq> set (cells st ! ?l) \<union> set (cells st ! ?r)" by (simp add: both_def)
    have wf: "wf_cut ms (shed_cells cover ?l ?r ?kept st)"
      by (rule wf_shed_cells [OF sound_wf [OF st] l r neq cover_of_sound(1) [OF cov] sub])
        (simp add: both_def)
    have "set (cells (shed_cells cover ?l ?r ?kept st))
        \<subseteq> insert ?kept (insert [] (set (cells st) \<union> (\<lambda>m. [m]) ` set cover))"
      using set_update2_subset [of "cells (add_singles cover st)" "min ?l ?r" ?kept "max ?l ?r" "[]"]
      by (simp add: shed_cells_def Let_def flip: add_singles_def)
        (simp add: add_singles_cells)
    moreover have "invs [m] = None" if "m \<in> set cover" for m
      using that sub in_ms by (intro single) blast
    ultimately have "\<forall>c \<in> set (cells (shed_cells cover ?l ?r ?kept st)). invs c = None"
      using ok empty_ok st by (auto simp: sound_def)
    with wf show ?thesis by (simp add: sound_def)
  qed
  show ?thesis
    using st unfolding shed_edge_def acc Let_def prod.case both_def [symmetric]
    by (simp split: option.split) (blast intro: main)
qed

lemma shed_sound:
  assumes "edges_inside ms ordered" and "sound invs ms st"
    and "\<And>xs. set xs \<subseteq> set ms \<Longrightarrow> set (blk xs) \<subseteq> set xs \<times> set xs"
  shows "sound invs ms (fst (shed invs nbr blk mx mu guard ordered st))"
proof -
  have "sound invs ms (fst (fold (shed_edge invs nbr blk mx mu guard) ordered (st, {}, False)))"
    using assms
    by (intro fold_inv [where P = "\<lambda>acc. sound invs ms (fst acc)"])
      (auto simp: edges_inside_def shed_edge_sound)
  then show ?thesis by (simp add: shed_def split_beta)
qed

end

text \<open>The options a caller may pass: the rejoin rule implies the rule, blockers name members.\<close>

definition opts_ok :: "int list \<Rightarrow> 'r invariants \<Rightarrow> 'r partition_opts \<Rightarrow> bool" where
  "opts_ok ms invs opts \<longleftrightarrow>
     (\<forall>f. rejoin_invariants opts = Some f \<longrightarrow> (\<forall>xs. f xs = None \<longrightarrow> invs xs = None)) \<and>
     (\<forall>b. shed_blockers opts = Some b \<longrightarrow>
        (\<forall>xs. set xs \<subseteq> set ms \<longrightarrow> set (b xs) \<subseteq> set xs \<times> set xs))"

context member_rules begin

lemma repair_sound:
  assumes e: "edges_inside ms ordered" and s: "sound invs ms st" and o: "opts_ok ms invs opts"
  shows "sound invs ms (fst (repair invs opts ms ordered st))"
proof -
  let ?S = "sound invs ms"
  define weigh where "weigh = (if shed_blockers opts \<noteq> None then Some (neighbours ordered) else None)"
  define blk where "blk = (if reconcile_factless_first opts then shed_blockers opts else None)"
  define recon where "recon = reconcile invs weigh blk ordered"
  define settle where
    "settle = (\<lambda>(st, moved). if moved \<and> keep_factless opts then (fst (recon st), moved) else (st, moved))"
  define strict where "strict = (case rejoin_invariants opts of Some f \<Rightarrow> f | None \<Rightarrow> invs)"
  have rc: "?S (fst (recon t))" if "?S t" for t
    unfolding recon_def by (rule reconcile_sound [OF e that])
  have sett: "?S (fst (settle r))" if "?S (fst r)" for r :: "cut \<times> bool"
    using that rc by (cases r) (auto simp: settle_def)
  have st: "strict xs = None \<Longrightarrow> invs xs = None" for xs
    using o by (auto simp: strict_def opts_ok_def split: option.splits)
  define n where "n = nat (max_rounds opts)"
  define s1 where "s1 = rounds n (search invs ms ordered) st"
  define s2 where "s2 = (if keep_factless opts then rounds n recon (fst s1) else (fst s1, False))"
  define s3 where "s3 = (if rejoin_cells opts
      then rounds n (\<lambda>st. settle (rejoin strict ordered st)) (fst s2) else (fst s2, False))"
  define s4 where "s4 = (case shed_blockers opts of None \<Rightarrow> (fst s3, False) | Some blk \<Rightarrow>
      rounds n (\<lambda>st. settle (shed invs (neighbours ordered) blk (shed_max opts)
        (shed_max_union opts) (shed_factless_guard opts) ordered st)) (fst s3))"
  have 1: "?S (fst s1)" unfolding s1_def by (rule rounds_inv [where P = ?S, OF s search_sound [OF e]])
  have 2: "?S (fst s2)" using 1 rounds_inv [of ?S, OF 1 rc] by (simp add: s2_def)
  have "?S (fst (rounds n (\<lambda>st. settle (rejoin strict ordered st)) (fst s2)))"
    by (rule rounds_inv [where P = ?S, OF 2]) (intro sett rejoin_sound [OF e] st)
  with 2 have 3: "?S (fst s3)" by (simp add: s3_def)
  have 4: "?S (fst s4)"
  proof (cases "shed_blockers opts")
    case None
    then show ?thesis using 3 by (simp add: s4_def)
  next
    case (Some b)
    have b: "set (b xs) \<subseteq> set xs \<times> set xs" if "set xs \<subseteq> set ms" for xs
      using o Some that by (simp add: opts_ok_def)
    show ?thesis unfolding s4_def Some option.case
      by (rule rounds_inv [where P = ?S, OF 3]) (intro sett shed_sound [OF e _ b])
  qed
  have "fst (repair invs opts ms ordered st) = fst s4"
    unfolding repair_def Let_def s4_def s3_def s2_def s1_def n_def settle_def recon_def
      weigh_def blk_def strict_def
    by (simp add: split_beta split: option.splits)
  with 4 show ?thesis by simp
qed

lemma partition_cells_sound:
  assumes d: "distinct ms" and e: "edges_inside ms es" and o: "opts_ok ms invs opts"
  shows "\<exists>st. partition_cells ms es invs opts = Some (map sort (filter (\<lambda>c. c \<noteq> []) (cells st)))
              \<and> sound invs ms st"
proof -
  let ?ordered = "sort_key rank es"
  let ?st = "fst (rounds (nat (max 1 (outer_rounds opts))) (repair invs opts ms ?ordered)
               (fold (greedy_edge invs) ?ordered (start_cut ms)))"
  have e': "edges_inside ms ?ordered" using e by (simp add: edges_inside_def)
  have "sound invs ms ?st"
    by (rule rounds_inv [where P = "sound invs ms", OF greedy_sound [OF e' start_sound [OF d]]])
      (rule repair_sound [OF e' _ o])
  moreover have "partition_cells ms es invs opts = Some (map sort (filter (\<lambda>c. c \<noteq> []) (cells ?st)))"
    using e by (auto simp: partition_cells_def edges_inside_def Let_def)
  ultimately show ?thesis by blast
qed

end

text \<open>The cells of a well-formed state, as sorted lists, are a partition of the members.\<close>

definition is_partition :: "int list \<Rightarrow> int list list \<Rightarrow> bool" where
  "is_partition ms cs \<longleftrightarrow> distinct (concat cs) \<and> set (concat cs) = set ms \<and>
     (\<forall>c \<in> set cs. c \<noteq> [] \<and> sorted c)"

lemma distinct_concat_nth:
  assumes "\<And>i. i < length xs \<Longrightarrow> distinct (xs ! i)"
    and "\<And>i j. i < j \<Longrightarrow> j < length xs \<Longrightarrow> set (xs ! i) \<inter> set (xs ! j) = {}"
  shows "distinct (concat xs)"
  using assms
proof (induction xs)
  case (Cons x xs)
  have "distinct (concat xs)" using Cons.prems(1) [of "Suc _"] Cons.prems(2) [of "Suc _" "Suc _"]
    by (intro Cons.IH) auto
  moreover have "set x \<inter> set y = {}" if "y \<in> set xs" for y
    using that Cons.prems(2) [of 0 "Suc _"] by (auto simp: in_set_conv_nth)
  moreover have "distinct x" using Cons.prems(1) [of 0] by simp
  ultimately show ?case by auto
qed simp

lemma distinct_concat_sort:
  "distinct (concat cs) \<Longrightarrow> distinct (concat (map sort (filter P cs)))"
  by (induction cs) auto

lemma wf_is_partition:
  assumes wf: "wf_cut ms st"
  shows "is_partition ms (map sort (filter (\<lambda>c. c \<noteq> []) (cells st)))"
proof -
  have "distinct (concat (cells st))"
    using wf_distinct [OF wf] wf_disjoint [OF wf] by (intro distinct_concat_nth) auto
  then have "distinct (concat (map sort (filter (\<lambda>c. c \<noteq> []) (cells st))))"
    by (rule distinct_concat_sort)
  moreover have "set (concat (cells st)) = set ms"
  proof
    show "set (concat (cells st)) \<subseteq> set ms"
    proof
      fix m assume "m \<in> set (concat (cells st))"
      then obtain c where "c \<in> set (cells st)" "m \<in> set c" by auto
      then obtain i where "i < length (cells st)" "m \<in> set (cells st ! i)"
        by (auto simp: in_set_conv_nth [of c])
      then show "m \<in> set ms" using wf_memD [OF wf] by blast
    qed
    show "set ms \<subseteq> set (concat (cells st))"
    proof
      fix m assume m: "m \<in> set ms"
      then have "cells st ! home st m \<in> set (cells st)" using wf_home [OF wf] by simp
      then show "m \<in> set (concat (cells st))" using wf_in_cell [OF wf m] by auto
    qed
  qed
  moreover have "set (concat (map sort (filter (\<lambda>c. c \<noteq> []) (cells st)))) = set (concat (cells st))"
    by auto
  ultimately show ?thesis by (auto simp: is_partition_def)
qed

end
