(* ===== verification/Partition_Props.thy ===== *)
theory Partition_Props
  imports Partition_Laws
begin

text \<open>
  The properties of \<open>autodedup/repartition.py\<close>: \<open>components\<close> is the connected components of
  its edges, \<open>partition\<close> is sound and does not depend on the order of its edges, the local
  search only ever improves the objective, and the reconciliation stops where no fact is missing.
\<close>

section \<open>Components\<close>

interpretation comp: root_finder comp_find "\<lambda>d x. x \<in> items d"
proof
  fix d :: parents and x :: int
  assume "forest d" "x \<in> items d"
  then show "\<exists>d' r. comp_find x d = Some (d', r) \<and> forest d' \<and> items d' = insert x (items d)
      \<and> rooted d' = rooted d \<and> rooted d' x r"
    using find_root_correct [of d x] by (auto simp: comp_find_def items_dom domIff)
qed auto

lemma comp_parents_forest:
  "forest (comp_parents ms) \<and> items (comp_parents ms) = set ms \<and> (\<forall>x. parent_of (comp_parents ms) x = x)"
proof -
  have "(\<forall>x. parent_of (fold (\<lambda>m. AList.update m m) ms d) x = x)
      \<and> items (fold (\<lambda>m. AList.update m m) ms d) = items d \<union> set ms"
    if "\<forall>x. parent_of d x = x" for d
    using that by (induction ms arbitrary: d) (auto simp: parent_of_update)
  from this [of "[]"] show ?thesis by (simp add: comp_parents_def forest_def parent_of_def items_def)
qed

lemma comp_find_distinct:
  "comp_find x d = Some (d', r) \<Longrightarrow> distinct (map fst d) \<Longrightarrow> distinct (map fst d')"
  by (auto simp: comp_find_def intro: find_root_distinct split: if_splits)

lemma conn_comp_parents: "conn (comp_parents ms) = eqc (set ms) {}"
proof -
  have "rooted (comp_parents ms) x r \<longleftrightarrow> r = x" for x r
    using comp_parents_forest [of ms] by (metis rooted.here root_unique)
  then show ?thesis using comp_parents_forest [of ms] by (auto simp: conn_def eqc_def)
qed

definition edge_pairs :: "edge list \<Rightarrow> (int \<times> int) set" where
  "edge_pairs es = (\<lambda>e. (elo e, ehi e)) ` set es"

lemma components_classes:
  assumes "edges_inside ms es"
  shows "\<exists>d. components ms es = Some (classes d (map fst d)) \<and> forest d \<and> items d = set ms
             \<and> distinct (map fst d) \<and> conn d = eqc (set ms) (edge_pairs es)"
proof -
  let ?f = "\<lambda>e. (elo e, ehi e)"
  have ends: "fst ` set (map ?f es) \<subseteq> set ms" "snd ` set (map ?f es) \<subseteq> set ms"
    using assms by (auto simp: edges_inside_def)
  obtain d where d: "foldM (union_by comp_find) (map ?f es) (comp_parents ms) = Some d"
      "forest d" "items d = items (comp_parents ms) \<union> fst ` set (map ?f es) \<union> snd ` set (map ?f es)"
      "conn d = eqc (items d) ({} \<union> set (map ?f es))"
    using comp.link_all_closure [of "comp_parents ms" "map ?f es" "{}"] comp_parents_forest [of ms]
      conn_comp_parents [of ms] assms
    by (fastforce simp: edges_inside_def)
  have K: "items d = set ms" using d(3) ends comp_parents_forest [of ms] by blast
  have dist: "distinct (map fst d)"
  proof -
    have "distinct (map fst (comp_parents ms))"
      unfolding comp_parents_def
      by (rule fold_inv [where P = "\<lambda>d. distinct (map fst d)"]) (simp_all add: distinct_update)
    then show ?thesis
      by (intro link_all_distinct [where fnd = comp_find, OF _ d(1)]) (auto intro: comp_find_distinct)
  qed
  have "group_roots comp_find (map fst d) d [] = Some (group_by (the_root d) (map fst d))"
    using comp.group_roots_classes [OF d(2), of "map fst d"] by (simp add: items_def)
  then have "components ms es = Some (classes d (map fst d))"
    using d(1) by (simp add: components_def foldM_map classes_def)
  then show ?thesis using d(2,4) K dist by (auto simp: edge_pairs_def)
qed

text \<open>An edge to a member the dictionary does not hold raises \<open>KeyError\<close>.\<close>

lemma components_unknown:
  assumes "\<not> edges_inside ms es"
  shows "components ms es = None"
proof -
  have "foldM (\<lambda>e. union_by comp_find (elo e, ehi e)) es d = None"
    if "forest d" "items d = set ms" "\<not> edges_inside ms es" for d
    using that
  proof (induction es arbitrary: d)
    case Nil
    then show ?case by (simp add: edges_inside_def)
  next
    case (Cons e es)
    show ?case
    proof (cases "elo e \<in> items d \<and> ehi e \<in> items d")
      case True
      then obtain d' where d': "union_by comp_find (elo e, ehi e) d = Some d'" "forest d'"
          "items d' = {elo e, ehi e} \<union> items d"
        using comp.union_by_ok [OF Cons.prems(1), of "(elo e, ehi e)"] by auto
      have "items d' = set ms" using d'(3) True Cons.prems(2) by auto
      moreover have "\<not> edges_inside ms es"
        using Cons.prems(2,3) True by (auto simp: edges_inside_def)
      ultimately show ?thesis using Cons.IH d'(1,2) by simp
    next
      case False
      then have "union_by comp_find (elo e, ehi e) d = None"
      proof (cases "elo e \<in> items d")
        case True
        then obtain d1 r where "find_root d (elo e) = Some (d1, r)" "items d1 = items d"
          using find_root_correct [OF Cons.prems(1), of "elo e"] by blast
        with True False show ?thesis
          by (auto simp: union_by_def comp_find_def items_dom domIff)
      qed (simp add: union_by_def comp_find_def items_dom domIff)
      then show ?thesis by simp
    qed
  qed
  then show ?thesis using comp_parents_forest [of ms] assms by (simp add: components_def)
qed

lemma components_spec:
  "case components ms es of
     None \<Rightarrow> \<not> edges_inside ms es
   | Some cs \<Rightarrow> edges_inside ms es \<and> is_partition ms cs \<and> sorted (map hd cs) \<and>
       (\<forall>x y. (\<exists>c \<in> set cs. x \<in> set c \<and> y \<in> set c) \<longleftrightarrow> (x, y) \<in> eqc (set ms) (edge_pairs es))"
proof (cases "edges_inside ms es")
  case True
  then obtain d where d: "components ms es = Some (classes d (map fst d))" "forest d"
      "items d = set ms" "distinct (map fst d)" "conn d = eqc (set ms) (edge_pairs es)"
    using components_classes by blast
  have keys: "set (map fst d) = set ms" using d(3) by (simp add: items_def)
  have mem: "x \<in> set ms" if "c \<in> set (classes d (map fst d))" "x \<in> set c" for c x
    using that classes_cover [of d "map fst d"] keys by auto
  have "(\<exists>c \<in> set (classes d (map fst d)). x \<in> set c \<and> y \<in> set c) \<longleftrightarrow> (x, y) \<in> conn d" for x y
    using classes_same [of x "map fst d" y d] the_root_conn [OF d(2), of x y] mem keys d(3)
    by (auto simp: conn_def)
  moreover have "is_partition ms (classes d (map fst d))"
    using classes_distinct [OF d(4)] classes_cover classes_nonempty keys
    by (auto simp: is_partition_def simp del: map_map)
  moreover have "sorted (map hd (classes d (map fst d)))"
    using classes_sorted [OF d(2)] keys d(3) by simp
  ultimately show ?thesis using d(1,5) True by auto
qed (simp add: components_unknown)

text \<open>
  The components of the merge graph: unless an edge names an unknown member (a
  \<open>KeyError\<close>), the groups are a partition of the members, two members are in one group exactly
  when a path of edges joins them, and the groups are listed by their first id.
\<close>

theorem components_correct:
  "case components ms es of
     None \<Rightarrow> \<not> edges_inside ms es
   | Some cs \<Rightarrow> edges_inside ms es \<and> is_partition ms cs \<and> sorted (map hd cs) \<and>
       (\<forall>x y. (\<exists>c \<in> set cs. x \<in> set c \<and> y \<in> set c) \<longleftrightarrow> (x, y) \<in> eqc (set ms) (edge_pairs es))"
  by (rule components_spec)

section \<open>The partition\<close>

text \<open>
  A witness rule for what follows: a cell of at most two members, which is closed under taking
  members away.
\<close>

definition at_most_two :: "int list \<Rightarrow> string option" where
  "at_most_two ms = (if length ms \<le> 2 then None else Some ''max_cluster_size'')"

definition example_edges :: "edge list" where
  "example_edges = [\<lparr>elo = 1, ehi = 2, escore = 1/2, ecert = False\<rparr>,
                    \<lparr>elo = 2, ehi = 3, escore = 9/10, ecert = False\<rparr>]"

definition plain_opts :: "'r partition_opts" where
  "plain_opts = \<lparr>max_rounds = 4, keep_factless = False, rejoin_cells = False,
     rejoin_invariants = None, shed_blockers = None, shed_max = 1, shed_max_union = 64,
     outer_rounds = 1, shed_factless_guard = ''off'', reconcile_factless_first = False\<rparr>"

context member_rules begin

lemma partition_cells_spec:
  assumes "distinct ms" and "edges_inside ms es" and "opts_ok ms invs opts"
  shows "\<exists>cs. partition_cells ms es invs opts = Some cs \<and> is_partition ms cs
              \<and> (\<forall>c \<in> set cs. invs c = None)"
proof -
  obtain st where st: "partition_cells ms es invs opts = Some (map sort (filter (\<lambda>c. c \<noteq> []) (cells st)))"
      "sound invs ms st"
    using partition_cells_sound [OF assms] by blast
  have "invs (sort c) = None" if c: "c \<in> set (cells st)" for c
  proof -
    obtain i where "i < length (cells st)" "c = cells st ! i" using c by (metis in_set_conv_nth)
    then have "distinct c" "set c \<subseteq> set ms"
      using wf_distinct [OF sound_wf [OF st(2)]] wf_memD [OF sound_wf [OF st(2)]] by auto
    then show ?thesis
      using closed [of c "sort c"] c st(2) by (simp add: sound_def)
  qed
  then show ?thesis using st(1) wf_is_partition [OF sound_wf [OF st(2)]] by auto
qed

end

text \<open>
  C7. \<open>partition\<close> is sound: for distinct members, edges between members and invariants that are
  closed under taking members away and accept singletons, it returns a partition of the members
  into non-empty sorted groups, each of which satisfies the invariants; whatever repair passes
  the options switch on.
\<close>

theorem partition_sound:
  assumes "distinct ms" and "edges_inside ms es" and "opts_ok ms invs opts"
    and "\<And>xs ys. set xs \<subseteq> set ms \<Longrightarrow> invs xs = None \<Longrightarrow> set ys \<subseteq> set xs \<Longrightarrow> distinct ys \<Longrightarrow>
           invs ys = None"
    and "\<And>m. m \<in> set ms \<Longrightarrow> invs [m] = None" and "invs [] = None"
  shows "\<exists>cs. partition_cells ms es invs opts = Some cs \<and> is_partition ms cs
              \<and> (\<forall>c \<in> set cs. invs c = None)"
  by (rule member_rules.partition_cells_spec [OF _ assms(1-3)]) (use assms(4-6) in unfold_locales)

theorem partition_sound_witness:
  "\<exists>cs. partition_cells [3, 1, 2] example_edges at_most_two plain_opts = Some cs
        \<and> is_partition [3, 1, 2] cs \<and> (\<forall>c \<in> set cs. at_most_two c = None)"
proof (rule partition_sound)
  show "at_most_two ys = None" if "at_most_two xs = None" "set ys \<subseteq> set xs" "distinct ys" for xs ys
    using that card_mono [of "set xs" "set ys"] distinct_card [of ys] card_length [of xs]
    by (auto simp: at_most_two_def split: if_splits)
qed (auto simp: example_edges_def edges_inside_def opts_ok_def plain_opts_def at_most_two_def)


section \<open>Order independence\<close>

lemma rank_inj: "inj_on rank S"
proof (rule inj_onI)
  fix e f assume "rank e = rank f"
  then show "e = f" by (cases e; cases f) (auto simp: rank_def split: if_splits)
qed

text \<open>The edges enter only sorted, and the rank tells them apart.\<close>

lemma partition_cells_sorted:
  "partition_cells ms es invs opts = partition_cells (sort ms) (sort_key rank es) invs opts"
proof -
  have srt: "sort (sort ms) = sort ms" by (simp add: sorted_sort_id)
  then have "start_cut (sort ms) = start_cut ms" by (simp add: start_cut_def)
  moreover have "search invs (sort ms) = search invs ms" using srt by (simp add: search_def fun_eq_iff)
  then have "repair invs opts (sort ms) = repair invs opts ms" by (simp add: repair_def [abs_def])
  moreover have "sort_key rank (sort_key rank es) = sort_key rank es"
    by (rule sort_key_mset_inj [OF _ rank_inj]) simp
  ultimately show ?thesis by (simp add: partition_cells_def)
qed

text \<open>
  The partition is a function of the SET of members and edges, never of the order the
  caller held them in.
\<close>

theorem partition_order_independent:
  assumes "mset ms = mset ms'" and "mset es = mset es'"
  shows "partition_cells ms es invs opts = partition_cells ms' es' invs opts"
proof -
  have "sort ms = sort ms'" using assms(1) by (metis properties_for_sort mset_sort sorted_sort)
  moreover have "sort_key rank es = sort_key rank es'"
    by (rule sort_key_mset_inj [OF assms(2) rank_inj])
  ultimately show ?thesis
    by (metis partition_cells_sorted)
qed

theorem partition_order_witness:
  "partition_cells [3, 1, 2] (rev example_edges) at_most_two plain_opts
     = partition_cells [1, 2, 3] example_edges at_most_two plain_opts"
  by (rule partition_order_independent) (simp_all add: add_mset_commute)

section \<open>The local search\<close>

text \<open>The objective: the weight of the edges that end up inside a cell.\<close>

definition objective :: "edge list \<Rightarrow> cut \<Rightarrow> rat" where
  "objective es st = sum_list (map (\<lambda>e. if home st (elo e) = home st (ehi e) \<and> elo e \<noteq> ehi e
                                       then weight e else 0) es)"

lemma gain_step:
  assumes "target \<noteq> home st m"
  shows "objective [e] (move_one m target st) - objective [e] st = gain (neighbours [e] m) st m target"
  using assms
  by (cases "elo e = m"; cases "ehi e = m")
    (simp_all add: objective_def gain_def neighbours_def move_one_def Let_def other_def)

lemma objective_Cons: "objective (e # es) st = objective [e] st + objective es st"
  by (simp add: objective_def)

lemma gain_append: "gain (xs @ ys) st m t = gain xs st m t + gain ys st m t"
  by (simp add: gain_def)

lemma neighbours_Cons: "neighbours (e # es) m = neighbours [e] m @ neighbours es m"
  by (simp add: neighbours_def)

text \<open>\<open>gain\<close> computes from the member's own edges what the move does to the whole objective.\<close>

lemma objective_move:
  assumes "target \<noteq> home st m"
  shows "objective es (move_one m target st) = objective es st + gain (neighbours es m) st m target"
proof (induction es)
  case (Cons e es)
  then show ?case
    using gain_step [OF assms, of e] objective_Cons [of e es] gain_append neighbours_Cons [of e es m]
    by simp
qed (simp add: objective_def gain_def neighbours_def)

lemma search_member_improves:
  assumes "search_member invs ordered m (st, moved) = (st', moved')"
  shows "(st', moved') = (st, moved) \<or> moved' \<and> objective ordered st < objective ordered st'"
proof -
  obtain g bt seen where b: "best_move invs (neighbours ordered m) st m = (g, bt, seen)"
    by (cases "best_move invs (neighbours ordered m) st m")
  show ?thesis
  proof (cases bt)
    case None
    then show ?thesis using assms b by (simp add: search_member_def)
  next
    case (Some t)
    then have "st' = move_one m t st" "moved'" using assms b by (simp_all add: search_member_def)
    then show ?thesis
      using best_move_spec(1,3) [OF b [unfolded Some]] objective_move [of t st m ordered] by simp
  qed
qed

text \<open>
  The local search only ever accepts a strict improvement: a sweep that reports a move has
  raised the objective, one that reports none has left the partition as it was.
\<close>

theorem search_improves:
  "case search invs ms ordered st of (st', moved) \<Rightarrow>
     if moved then objective ordered st < objective ordered st' else st' = st"
proof -
  let ?P = "\<lambda>(st', moved). if moved then objective ordered st < objective ordered st' else st' = st"
  have "?P (search invs ms ordered st)"
    unfolding search_def
  proof (rule fold_inv)
    fix m acc assume P: "?P acc"
    obtain s moved s' moved' where acc: "acc = (s, moved)"
        and r: "search_member invs ordered m (s, moved) = (s', moved')"
      by (cases acc, cases "search_member invs ordered m acc") auto
    show "?P (search_member invs ordered m acc)"
      using P search_member_improves [OF r] r by (auto simp: acc split: if_splits)
  qed simp
  then show ?thesis by simp
qed

section \<open>The reconciliation\<close>

lemma reconcile_unmoved:
  "fold (reconcile_edge invs weigh blk) es (st, touched, moved) = (st', touched', False) \<Longrightarrow>
   st' = st \<and> \<not> moved \<and> (\<forall>e \<in> set es. home st (elo e) \<noteq> home st (ehi e) \<longrightarrow>
     try_back invs weigh blk st touched (elo e) (home st (ehi e)) = None \<and>
     try_back invs weigh blk st touched (ehi e) (home st (elo e)) = None)"
proof (induction es arbitrary: st touched moved)
  case (Cons e es)
  obtain s1 t1 m1 where r: "reconcile_edge invs weigh blk e (st, touched, moved) = (s1, t1, m1)"
    by (cases "reconcile_edge invs weigh blk e (st, touched, moved)")
  have ih: "st' = s1" "\<not> m1" "\<forall>e \<in> set es. home s1 (elo e) \<noteq> home s1 (ehi e) \<longrightarrow>
     try_back invs weigh blk s1 t1 (elo e) (home s1 (ehi e)) = None \<and>
     try_back invs weigh blk s1 t1 (ehi e) (home s1 (elo e)) = None"
    using Cons.IH [of s1 t1 m1] Cons.prems r by simp_all
  have "s1 = st \<and> t1 = touched \<and> \<not> moved \<and> (home st (elo e) \<noteq> home st (ehi e) \<longrightarrow>
     try_back invs weigh blk st touched (elo e) (home st (ehi e)) = None \<and>
     try_back invs weigh blk st touched (ehi e) (home st (elo e)) = None)"
    using r ih(2) by (auto simp: reconcile_edge_def Let_def split: if_splits option.splits)
  then show ?case using ih by simp
qed simp

text \<open>
  No fact, no separation: when a reconciliation without weighing reports that nothing
  moved, the partition is unchanged and every merge edge still cut is one whose two single
  moves the invariants both refuse.
\<close>

theorem reconcile_fixpoint:
  assumes "reconcile invs None blk ordered st = (st', False)"
  shows "st' = st \<and> (\<forall>e \<in> set ordered. home st (elo e) \<noteq> home st (ehi e) \<longrightarrow>
    invs (sort (cell st (ehi e) @ [elo e])) \<noteq> None \<and> invs (sort (cell st (elo e) @ [ehi e])) \<noteq> None)"
proof -
  obtain touched where "fold (reconcile_edge invs None blk) ordered (st, {}, False) = (st', touched, False)"
    using assms by (auto simp: reconcile_def split: prod.splits)
  from reconcile_unmoved [OF this] show ?thesis
    by (auto simp: try_back_def cell_def split: if_splits)
qed

definition example_cut :: cut where
  "example_cut = \<lparr>home = (\<lambda>m. if m = 3 then 1 else 0), cells = [[1, 2], [3, 4]]\<rparr>"

theorem reconcile_fixpoint_witness:
  "reconcile at_most_two None None example_edges example_cut = (example_cut, False) \<and>
   list_all (\<lambda>e. home example_cut (elo e) = home example_cut (ehi e) \<or>
      at_most_two (sort (cell example_cut (ehi e) @ [elo e])) \<noteq> None \<and>
      at_most_two (sort (cell example_cut (elo e) @ [ehi e])) \<noteq> None) example_edges"
proof -
  have "reconcile at_most_two None None example_edges example_cut = (example_cut, False)"
    by (simp add: reconcile_def reconcile_edge_def try_back_def at_most_two_def example_cut_def
        example_edges_def)
  then show ?thesis using reconcile_fixpoint unfolding list_all_iff by blast
qed

section \<open>The cover\<close>

lemma cover_loop_length:
  "cover_loop keep limit dirty remaining chosen = Some c \<Longrightarrow>
   length chosen = 0 \<or> int (length chosen) \<le> limit \<Longrightarrow> length c = 0 \<or> int (length c) \<le> limit"
proof (induction keep limit dirty remaining chosen rule: cover_loop.induct)
  case (1 keep limit dirty remaining chosen)
  show ?case
  proof (cases "remaining = []")
    case True
    then have "c = sort chosen" using "1.prems"(1) by (simp add: cover_loop.simps)
    then show ?thesis using "1.prems"(2) by (auto simp only: length_sort)
  next
    case False
    then show ?thesis
      using "1.prems" "1.IH" [OF False _ _ refl]
      by (auto simp: cover_loop.simps [of keep limit dirty remaining] Let_def split: if_splits)
  qed
qed

text \<open>
  The cover a shed takes: it clears every conflict, names no end of the cut edge, nobody
  that is not in a conflict, and at most \<open>limit\<close> members.
\<close>

theorem cover_correct:
  assumes "cover_of conflicts keep limit dirty = Some c"
  shows "(\<forall>(lo, hi) \<in> set conflicts. lo \<in> set c \<or> hi \<in> set c) \<and> set c \<inter> keep = {} \<and>
    (\<forall>m \<in> set c. \<exists>(lo, hi) \<in> set conflicts. m = lo \<or> m = hi) \<and>
    distinct c \<and> (c = [] \<or> int (length c) \<le> limit)"
  using cover_of_sound [OF assms] cover_loop_length [of keep limit dirty conflicts "[]" c] assms
  by (auto simp: cover_of_def)

theorem cover_correct_witness:
  "\<exists>c. (\<forall>(lo, hi) \<in> set [(1, 2), (3, 2 :: int)]. lo \<in> set c \<or> hi \<in> set c) \<and> set c \<inter> {1, 3} = {} \<and>
    (\<forall>m \<in> set c. \<exists>(lo, hi) \<in> set [(1, 2), (3, 2)]. m = lo \<or> m = hi) \<and>
    distinct c \<and> (c = [] \<or> int (length c) \<le> 1)"
proof -
  have "cover_of [(1, 2), (3, 2)] {1, 3} 1 {} = Some [2]"
    by (simp add: cover_of_def cover_loop.simps degrees_def pick_def)
  then show ?thesis using cover_correct by blast
qed

end
