(* ===== verification/Categories.thy ===== *)
theory Categories
  imports Prelude
begin

text \<open>
  Rule 15 of the merge: which categories two adverts of one property may carry
  (\<open>toolkit/room_taxonomy.py\<close>: \<open>category_main_compatible\<close>; \<open>toolkit/property_identity.py\<close>:
  \<open>category_clash\<close>), and the sides \<open>autodedup/category_splits.py\<close> lays a mixed property out in.
  A \<open>None\<close> of the code is \<open>None\<close> here: an unknown value, never a conflict.
\<close>

definition CROSS_TYPE_OK :: "string set set" where
  "CROSS_TYPE_OK = {{''dum'', ''komercni''}, {''pozemek'', ''dum''}, {''pozemek'', ''komercni''},
                    {''byt'', ''komercni''}}"

definition category_main_compatible :: "string option \<Rightarrow> string option \<Rightarrow> bool" where
  "category_main_compatible a b =
     (case (a, b) of (Some x, Some y) \<Rightarrow> x = y \<or> {x, y} \<in> CROSS_TYPE_OK | _ \<Rightarrow> True)"

datatype clash_field = Category_type | Category_main

type_synonym categories = "string option \<times> string option"

definition category_clash ::
  "categories \<Rightarrow> categories \<Rightarrow> (clash_field \<times> string option \<times> string option) option" where
  "category_clash a b =
     (if fst a \<noteq> None \<and> fst b \<noteq> None \<and> fst a \<noteq> fst b then Some (Category_type, fst a, fst b)
      else if \<not> category_main_compatible (snd a) (snd b) then Some (Category_main, snd a, snd b)
      else None)"

lemma category_main_compatible_refl [simp]: "category_main_compatible a a"
  by (auto simp: category_main_compatible_def split: option.splits)

lemma category_main_compatible_sym: "category_main_compatible a b = category_main_compatible b a"
  by (auto simp: category_main_compatible_def insert_commute split: option.splits)

lemma category_clash_refl [simp]: "category_clash a a = None"
  by (simp add: category_clash_def)

lemma category_clash_sym: "category_clash a b = None \<longleftrightarrow> category_clash b a = None"
  by (auto simp: category_clash_def category_main_compatible_sym)

text \<open>
  The rule is a set of pairs, not an equivalence: it is reflexive and symmetric, a commercial
  unit may join a flat and a house, the flat and the house never.
\<close>

theorem categories_not_equivalence:
  "(\<forall>a. category_clash a a = None) \<and> (\<forall>a b. category_clash a b = None \<longleftrightarrow> category_clash b a = None) \<and>
   category_clash (t, Some ''byt'') (t, Some ''komercni'') = None \<and>
   category_clash (t, Some ''komercni'') (t, Some ''dum'') = None \<and>
   category_clash (t, Some ''byt'') (t, Some ''dum'')
     = Some (Category_main, Some ''byt'', Some ''dum'')"
  using category_clash_sym
  by (auto simp: category_clash_def category_main_compatible_def CROSS_TYPE_OK_def doubleton_eq_iff)

section \<open>Sides\<close>

record ad =
  ad_id :: int
  ad_type :: "string option"
  ad_main :: "string option"
  ad_contentless :: bool
  ad_origin :: "int option"

record side =
  side_ads :: "int list"
  side_riders :: "int list"
  side_kept :: bool

text \<open>
  The record an index sighting leaves: no price, area, layout or text. The white space test
  \<^verbatim>\<open>not (description or "").strip()\<close> reads the blanks of \<open>is_blank\<close>.
\<close>

definition is_blank :: "char \<Rightarrow> bool" where
  "is_blank c \<longleftrightarrow> c \<in> {CHR '' '', CHR 0x09, CHR 0x0A, CHR 0x0B, CHR 0x0C, CHR 0x0D,
                      CHR 0x1C, CHR 0x1D, CHR 0x1E, CHR 0x1F, CHR 0x85, CHR 0xA0}"

definition contentless :: "'a option \<Rightarrow> 'b option \<Rightarrow> string option \<Rightarrow> string option \<Rightarrow> bool" where
  "contentless price area disposition description \<longleftrightarrow>
     price = None \<and> area = None \<and> disposition = None
     \<and> (case description of None \<Rightarrow> True | Some t \<Rightarrow> list_all is_blank t)"

definition rides :: "ad \<Rightarrow> bool" where
  "rides a \<longleftrightarrow> ad_contentless a \<or> ad_type a = None \<or> ad_main a = None"

definition MAIN_ORDER :: "string list" where
  "MAIN_ORDER = [''byt'', ''dum'', ''komercni'', ''pozemek'', ''ostatni'']"

definition ad_clash :: "ad \<Rightarrow> ad \<Rightarrow> (clash_field \<times> string option \<times> string option) option" where
  "ad_clash a b = category_clash (ad_type a, ad_main a) (ad_type b, ad_main b)"

fun index_of :: "'a \<Rightarrow> 'a list \<Rightarrow> nat" where
  "index_of x [] = 0"
| "index_of x (y # ys) = (if x = y then 0 else Suc (index_of x ys))"

definition str_of :: "string option \<Rightarrow> string" where
  "str_of x = (case x of None \<Rightarrow> ''None'' | Some s \<Rightarrow> s)"

text \<open>An unknown category ranks after the listed ones: \<open>index_of\<close> is then the list's length.\<close>

definition walk_key :: "ad \<Rightarrow> string \<times> nat \<times> string \<times> int" where
  "walk_key a = (str_of (ad_type a), index_of (str_of (ad_main a)) MAIN_ORDER,
                 str_of (ad_main a), ad_id a)"

text \<open>One advert joins the first side it clashes with no member of, else it opens one.\<close>

definition place_ad :: "ad \<Rightarrow> ad list list \<Rightarrow> ad list list" where
  "place_ad = first_fit (\<lambda>a s. \<forall>b \<in> set s. ad_clash a b = None)"

definition walked_sides :: "ad list \<Rightarrow> ad list list" where
  "walked_sides ads = fold place_ad (sort_key walk_key (filter (\<lambda>a. \<not> rides a) ads)) []"

definition kept_index :: "int set \<Rightarrow> int list list \<Rightarrow> nat" where
  "kept_index own order =
     arg_min_list (\<lambda>i. (- int (card (own \<inter> set (order ! i))), i)) [0..<length order]"

definition holds :: "int option \<Rightarrow> int list \<Rightarrow> bool" where
  "holds canonical ids = (case canonical of None \<Rightarrow> False | Some c \<Rightarrow> c \<in> set ids)"

definition side_order :: "ad list \<Rightarrow> int option \<Rightarrow> int list list" where
  "side_order ads canonical =
     sort_key (\<lambda>ids. (\<not> holds canonical ids, hd ids)) (map (\<lambda>s. sort (map ad_id s)) (walked_sides ads))"

definition sides :: "ad list \<Rightarrow> int option \<Rightarrow> side list" where
  "sides ads canonical =
     (let order = side_order ads canonical;
          riders = sort (map ad_id (filter rides ads));
          own = ad_id ` {a \<in> set ads. ad_origin a = None};
          kept = kept_index own order
      in if order = []
         then (if riders = [] then []
               else [\<lparr>side_ads = [], side_riders = riders, side_kept = True\<rparr>])
         else sort_key (\<lambda>s. \<not> holds canonical (side_ads s @ side_riders s))
                (map (\<lambda>(i, ids). \<lparr>side_ads = ids,
                          side_riders = (if i = kept then riders else []), side_kept = (i = kept)\<rparr>)
                  (List.enumerate 0 order)))"

text \<open>A side never holds two adverts that clash.\<close>

definition no_clash :: "ad list \<Rightarrow> bool" where
  "no_clash s \<longleftrightarrow> (\<forall>a \<in> set s. \<forall>b \<in> set s. ad_clash a b = None)"

lemma place_ad_no_clash: "\<forall>s \<in> set ss. no_clash s \<Longrightarrow> \<forall>s \<in> set (place_ad a ss). no_clash s"
  unfolding place_ad_def
  by (rule first_fit_all) (auto simp: no_clash_def ad_clash_def intro: category_clash_sym [THEN iffD1])

lemma place_ad_nonempty: "\<forall>s \<in> set ss. s \<noteq> [] \<Longrightarrow> \<forall>s \<in> set (place_ad a ss). s \<noteq> []"
  unfolding place_ad_def by (rule first_fit_all) auto

lemma walked_sides_no_clash: "s \<in> set (walked_sides ads) \<Longrightarrow> no_clash s"
proof -
  have "\<forall>s \<in> set (walked_sides ads). no_clash s"
    unfolding walked_sides_def
    by (rule fold_inv [where P = "\<lambda>ss. \<forall>s \<in> set ss. no_clash s"])
      (simp, blast dest: place_ad_no_clash)
  then show "s \<in> set (walked_sides ads) \<Longrightarrow> no_clash s" by blast
qed

lemma walked_sides_mset: "mset (concat (walked_sides ads)) = mset (filter (\<lambda>a. \<not> rides a) ads)"
  by (simp add: walked_sides_def place_ad_def first_fit_fold_mset)

lemma mset_concat_map_sort:
  "mset (concat (map (\<lambda>s. sort (map f s)) xss)) = image_mset f (mset (concat xss))"
  by (induction xss) auto

lemma mset_concat_perm: "mset xss = mset yss \<Longrightarrow> mset (concat xss) = mset (concat yss)"
  by (metis mset_concat mset_map sum_mset_sum_list)

lemma side_order_mset:
  "mset (concat (side_order ads canonical)) = image_mset ad_id (mset (filter (\<lambda>a. \<not> rides a) ads))"
proof -
  have "mset (side_order ads canonical) = mset (map (\<lambda>s. sort (map ad_id s)) (walked_sides ads))"
    by (simp add: side_order_def)
  then have "mset (concat (side_order ads canonical))
      = mset (concat (map (\<lambda>s. sort (map ad_id s)) (walked_sides ads)))"
    by (rule mset_concat_perm)
  then show ?thesis by (simp add: mset_concat_map_sort walked_sides_mset del: mset_filter)
qed

lemma kept_index_less: "order \<noteq> [] \<Longrightarrow> kept_index own order < length order"
  using arg_min_list_mem [of "[0..<length order]"] by (fastforce simp: kept_index_def)

text \<open>The rows of the answer, before they are ordered.\<close>

lemma rows_mset:
  "k < n + length xs \<Longrightarrow> n \<le> k \<Longrightarrow>
   mset (concat (map (\<lambda>(i, ids). ids @ (if i = k then r else [])) (List.enumerate n xs)))
     = mset (concat xs) + mset r"
proof (induction xs arbitrary: n)
  case (Cons x xs)
  have tail: "concat (map (\<lambda>(i, ids). ids @ (if i = k then r else [])) (List.enumerate m xs)) = concat xs"
    if "k < m" for m
    using that by (induction xs arbitrary: m) auto
  show ?case
  proof (cases "n = k")
    case True
    then show ?thesis using tail [of "Suc n"] by simp
  next
    case False
    then show ?thesis using Cons.IH [of "Suc n"] Cons.prems by simp
  qed
qed simp

lemma kept_rows:
  "k < n + length xs \<Longrightarrow> n \<le> k \<Longrightarrow>
   length (filter (\<lambda>(i, ids). i = k) (List.enumerate n xs)) = 1"
proof (induction xs arbitrary: n)
  case (Cons x xs)
  have "length (filter (\<lambda>(i, ids). i = k) (List.enumerate m xs)) = 0" if "k < m" for m
    using that by (induction xs arbitrary: m) auto
  then show ?case using Cons by (cases "n = k") auto
qed simp

text \<open>What \<open>sides\<close> returns when there is a side: its rows, stably ordered.\<close>

definition side_rows :: "nat \<Rightarrow> int list \<Rightarrow> int list list \<Rightarrow> side list" where
  "side_rows kept riders order =
     map (\<lambda>(i, ids). \<lparr>side_ads = ids, side_riders = (if i = kept then riders else []),
                      side_kept = (i = kept)\<rparr>) (List.enumerate 0 order)"

lemma sides_rows:
  assumes "side_order ads canonical \<noteq> []"
  obtains kept where "kept < length (side_order ads canonical)"
    and "sides ads canonical = sort_key (\<lambda>s. \<not> holds canonical (side_ads s @ side_riders s))
           (side_rows kept (sort (map ad_id (filter rides ads))) (side_order ads canonical))"
proof (rule that)
  let ?own = "ad_id ` {a \<in> set ads. ad_origin a = None}"
  show "kept_index ?own (side_order ads canonical) < length (side_order ads canonical)"
    by (rule kept_index_less [OF assms])
  show "sides ads canonical = sort_key (\<lambda>s. \<not> holds canonical (side_ads s @ side_riders s))
      (side_rows (kept_index ?own (side_order ads canonical))
         (sort (map ad_id (filter rides ads))) (side_order ads canonical))"
    using assms by (simp only: sides_def Let_def side_rows_def if_False)
qed

lemma side_rows_ads: "map side_ads (side_rows kept r order) = order"
  by (simp add: side_rows_def comp_def case_prod_unfold)

lemma sides_mset:
  "mset (concat (map (\<lambda>s. side_ads s @ side_riders s) (sides ads canonical))) = mset (map ad_id ads)"
proof (cases "side_order ads canonical = []")
  case True
  then have "mset (filter (\<lambda>a. \<not> rides a) ads) = {#}" using side_order_mset [of ads canonical] by simp
  then have "filter rides ads = ads" by (auto simp: filter_id_conv filter_empty_conv)
  then show ?thesis using True by (auto simp: sides_def Let_def)
next
  case False
  let ?order = "side_order ads canonical" and ?r = "sort (map ad_id (filter rides ads))"
  obtain k where k: "k < length ?order" "sides ads canonical =
      sort_key (\<lambda>s. \<not> holds canonical (side_ads s @ side_riders s)) (side_rows k ?r ?order)"
    using sides_rows [OF False] by blast
  have "mset (concat (map (\<lambda>s. side_ads s @ side_riders s) (sides ads canonical)))
      = mset (concat (map (\<lambda>s. side_ads s @ side_riders s) (side_rows k ?r ?order)))"
    by (rule mset_concat_perm) (simp add: k(2))
  also have "map (\<lambda>s. side_ads s @ side_riders s) (side_rows k ?r ?order)
      = map (\<lambda>(i, ids). ids @ (if i = k then ?r else [])) (List.enumerate 0 ?order)"
    by (simp add: side_rows_def comp_def case_prod_unfold)
  also have "mset (concat \<dots>) = mset (concat ?order) + mset ?r" using k(1) by (intro rows_mset) auto
  also have "\<dots> = image_mset ad_id (mset (filter (\<lambda>a. \<not> rides a) ads) + mset (filter rides ads))"
    by (simp add: side_order_mset del: mset_filter)
  also have "mset (filter (\<lambda>a. \<not> rides a) ads) + mset (filter rides ads) = mset ads"
    by (metis add.commute mset_filter multiset_partition)
  finally show ?thesis by simp
qed

lemma length_filter_sort_key: "length (filter P (sort_key f xs)) = length (filter P xs)"
  by (metis mset_filter mset_sort size_mset)

lemma sides_one_kept: "ads \<noteq> [] \<Longrightarrow> length (filter side_kept (sides ads canonical)) = 1"
proof (cases "side_order ads canonical = []")
  case True
  assume "ads \<noteq> []"
  moreover have "mset (filter (\<lambda>a. \<not> rides a) ads) = {#}"
    using True side_order_mset [of ads canonical] by simp
  then have "filter rides ads = ads" by (auto simp: filter_id_conv filter_empty_conv)
  ultimately show ?thesis using True by (simp add: sides_def Let_def)
next
  case False
  then obtain k r where k: "k < length (side_order ads canonical)" "sides ads canonical =
      sort_key (\<lambda>s. \<not> holds canonical (side_ads s @ side_riders s)) (side_rows k r (side_order ads canonical))"
    using sides_rows by blast
  have "length (filter side_kept (side_rows k r (side_order ads canonical))) = 1"
    using kept_rows [of k 0 "side_order ads canonical"] k(1)
    by (simp add: side_rows_def filter_map comp_def case_prod_unfold)
  then show ?thesis by (simp add: k(2) length_filter_sort_key)
qed

lemma sides_compatible:
  assumes "distinct (map ad_id ads)" and "s \<in> set (sides ads canonical)"
    and "a \<in> set ads" "b \<in> set ads" "ad_id a \<in> set (side_ads s)" "ad_id b \<in> set (side_ads s)"
  shows "ad_clash a b = None"
proof (cases "side_order ads canonical = []")
  case True
  then show ?thesis using assms(2,5) by (auto simp: sides_def Let_def split: if_splits)
next
  case False
  then obtain k r where "sides ads canonical =
      sort_key (\<lambda>s. \<not> holds canonical (side_ads s @ side_riders s)) (side_rows k r (side_order ads canonical))"
    using sides_rows by blast
  then have "side_ads s \<in> set (map side_ads (side_rows k r (side_order ads canonical)))"
    using assms(2) by simp
  then have "side_ads s \<in> set (side_order ads canonical)" by (simp only: side_rows_ads)
  then obtain w where w: "w \<in> set (walked_sides ads)" "side_ads s = sort (map ad_id w)"
    by (auto simp: side_order_def)
  have sub: "set w \<subseteq> set ads"
    using w(1) arg_cong [OF walked_sides_mset [of ads], of set_mset] by auto
  have "x \<in> set w" if x: "x \<in> set ads" "ad_id x \<in> set (side_ads s)" for x
  proof -
    obtain y where "y \<in> set w" "ad_id y = ad_id x" using x(2) w(2) by auto
    then show ?thesis using sub assms(1) x(1) by (metis distinct_map inj_onD subsetD)
  qed
  then show ?thesis using assms(3-6) walked_sides_no_clash [OF w(1)] by (auto simp: no_clash_def)
qed

text \<open>
  The sides of a mixed property: every advert is on exactly one side, as one of its adverts
  or as a rider; two adverts of one side never clash under rule 15, and exactly one side is kept.
\<close>

theorem sides_correct:
  assumes "distinct (map ad_id ads)" and "ads \<noteq> []"
  shows "mset (concat (map (\<lambda>s. side_ads s @ side_riders s) (sides ads canonical))) = mset (map ad_id ads) \<and>
    (\<forall>s \<in> set (sides ads canonical). \<forall>a \<in> set ads. \<forall>b \<in> set ads.
       ad_id a \<in> set (side_ads s) \<longrightarrow> ad_id b \<in> set (side_ads s) \<longrightarrow> ad_clash a b = None) \<and>
    length (filter side_kept (sides ads canonical)) = 1"
  using sides_mset sides_compatible [OF assms(1)] sides_one_kept [OF assms(2)] by blast

definition mixed_ads :: "ad list" where
  "mixed_ads =
    [\<lparr>ad_id = 7, ad_type = Some ''prodej'', ad_main = Some ''dum'', ad_contentless = False, ad_origin = None\<rparr>,
     \<lparr>ad_id = 4, ad_type = Some ''prodej'', ad_main = Some ''byt'', ad_contentless = False, ad_origin = Some 3\<rparr>,
     \<lparr>ad_id = 5, ad_type = Some ''prodej'', ad_main = Some ''komercni'', ad_contentless = False, ad_origin = None\<rparr>,
     \<lparr>ad_id = 6, ad_type = None, ad_main = None, ad_contentless = True, ad_origin = None\<rparr>]"

theorem sides_correct_witness:
  "mset (concat (map (\<lambda>s. side_ads s @ side_riders s) (sides mixed_ads (Some 4)))) = mset (map ad_id mixed_ads) \<and>
    list_all (\<lambda>s. \<forall>a \<in> set mixed_ads. \<forall>b \<in> set mixed_ads.
       ad_id a \<in> set (side_ads s) \<longrightarrow> ad_id b \<in> set (side_ads s) \<longrightarrow> ad_clash a b = None)
      (sides mixed_ads (Some 4)) \<and>
    length (filter side_kept (sides mixed_ads (Some 4))) = 1"
  unfolding list_all_iff by (rule sides_correct) (simp_all add: mixed_ads_def)

end
