(* ===== verification/Floor_Convention.thy ===== *)
theory Floor_Convention
  imports Prelude Complex_Main
begin

text \<open>
  \<open>autodedup/floor_convention.py\<close>: which floor gap between two portals is vocabulary. The
  readings of a camp table, and \<open>measure_camps\<close>, the fit of the table from anchor observations.
  A camp table is a dictionary (the code's \<open>None\<close> and the empty table are both \<open>[]\<close>, as
  \<^verbatim>\<open>if not camps\<close> reads them alike); floors and offsets are Python ints.
\<close>

type_synonym camp_table = "(string, int) dict"

section \<open>The readings\<close>

definition camp_offset :: "camp_table \<Rightarrow> string option \<Rightarrow> string option \<Rightarrow> int option" where
  "camp_offset camps a b =
     (case (a, b) of
        (Some x, Some y) \<Rightarrow>
          (case (map_of camps x, map_of camps y) of
             (Some la, Some lb) \<Rightarrow> Some (la - lb)
           | _ \<Rightarrow> None)
      | _ \<Rightarrow> None)"

definition floor_gap ::
  "camp_table \<Rightarrow> string option \<Rightarrow> int option \<Rightarrow> string option \<Rightarrow> int option \<Rightarrow> int option" where
  "floor_gap camps a floor_a b floor_b =
     (case (floor_a, floor_b) of
        (Some fa, Some fb) \<Rightarrow>
          Some ((fa - fb) - (case camp_offset camps a b of None \<Rightarrow> 0 | Some off \<Rightarrow> off))
      | _ \<Rightarrow> None)"

definition convention_known :: "camp_table \<Rightarrow> string option \<Rightarrow> string option \<Rightarrow> bool" where
  "convention_known camps a b \<longleftrightarrow> (if a \<noteq> None \<and> a = b then True else camp_offset camps a b \<noteq> None)"

definition same_camp :: "camp_table \<Rightarrow> string option \<Rightarrow> string option \<Rightarrow> bool" where
  "same_camp camps a b \<longleftrightarrow>
     (if a = None \<or> b = None then False else if a = b then True else camp_offset camps a b = Some 0)"

definition convention_ambiguous :: "camp_table \<Rightarrow> string option \<Rightarrow> string option \<Rightarrow> bool" where
  "convention_ambiguous camps a b \<longleftrightarrow>
     (if a = None \<or> b = None \<or> a = b then False else camp_offset camps a b = None)"

definition joint_convention_shift ::
  "camp_table \<Rightarrow> string option \<Rightarrow> int option \<Rightarrow> int option
     \<Rightarrow> string option \<Rightarrow> int option \<Rightarrow> int option \<Rightarrow> bool" where
  "joint_convention_shift camps a floor_a total_a b floor_b total_b \<longleftrightarrow>
     (case (floor_a, floor_b, total_a, total_b) of
        (Some fa, Some fb, Some ta, Some tb) \<Rightarrow>
          if a \<noteq> None \<and> a = b then False
          else if fa - fb = 0 \<or> fa - fb \<noteq> ta - tb then False
          else (case camp_offset camps a b of
                  Some off \<Rightarrow> fa - fb = off
                | None \<Rightarrow> \<bar>fa - fb\<bar> = 1)
      | _ \<Rightarrow> False)"

definition total_convention_shift ::
  "camp_table \<Rightarrow> string option \<Rightarrow> int option \<Rightarrow> int option
     \<Rightarrow> string option \<Rightarrow> int option \<Rightarrow> int option \<Rightarrow> bool" where
  "total_convention_shift camps a floor_a total_a b floor_b total_b \<longleftrightarrow>
     (case (total_a, total_b) of
        (Some ta, Some tb) \<Rightarrow>
          (case camp_offset camps a b of
             None \<Rightarrow> False
           | Some off \<Rightarrow>
               if off = 0 then False
               else if ta - tb \<noteq> off then False
               else (case (floor_a, floor_b) of
                       (Some fa, Some fb) \<Rightarrow> fa - fb \<in> {0, off}
                     | _ \<Rightarrow> True))
      | _ \<Rightarrow> False)"

lemma camp_offset_sym: "camp_offset camps b a = map_option uminus (camp_offset camps a b)"
  by (auto simp: camp_offset_def split: option.splits)

text \<open>
  Every reading treats the two adverts alike: the gap changes sign with the sides and each
  yes/no question has one answer for both orders.
\<close>

theorem readings_symmetric:
  "floor_gap camps b fb a fa = map_option uminus (floor_gap camps a fa b fb) \<and>
   (convention_known camps a b \<longleftrightarrow> convention_known camps b a) \<and>
   (same_camp camps a b \<longleftrightarrow> same_camp camps b a) \<and>
   (convention_ambiguous camps a b \<longleftrightarrow> convention_ambiguous camps b a) \<and>
   (joint_convention_shift camps a fa ta b fb tb \<longleftrightarrow> joint_convention_shift camps b fb tb a fa ta) \<and>
   (total_convention_shift camps a fa ta b fb tb \<longleftrightarrow> total_convention_shift camps b fb tb a fa ta)"
proof (intro conjI)
  show "floor_gap camps b fb a fa = map_option uminus (floor_gap camps a fa b fb)"
    using camp_offset_sym [of camps b a] by (auto simp: floor_gap_def split: option.splits)
  show "joint_convention_shift camps a fa ta b fb tb \<longleftrightarrow> joint_convention_shift camps b fb tb a fa ta"
    using camp_offset_sym [of camps b a]
    by (cases fa; cases fb; cases ta; cases tb; cases "camp_offset camps a b")
      (auto simp: joint_convention_shift_def)
  show "total_convention_shift camps a fa ta b fb tb \<longleftrightarrow> total_convention_shift camps b fb tb a fa ta"
    using camp_offset_sym [of camps b a]
    by (cases ta; cases tb; cases "camp_offset camps a b"; cases fa; cases fb)
      (auto simp: total_convention_shift_def)
qed (use camp_offset_sym [of camps b a] in
      \<open>auto simp: convention_known_def same_camp_def convention_ambiguous_def\<close>)

section \<open>The fit\<close>

record anchor =
  source_a :: string
  floor_a :: int
  source_b :: string
  floor_b :: int

type_synonym counter = "(int, nat) dict"
type_synonym tally = "(string \<times> string, counter) dict"
type_synonym adjacency = "(string, (string \<times> int) list) dict"

definition bump :: "int \<Rightarrow> counter \<Rightarrow> counter" where
  "bump k c = AList.update k (case map_of c k of None \<Rightarrow> 1 | Some n \<Rightarrow> n + 1) c"

definition count_anchor :: "anchor \<Rightarrow> tally \<Rightarrow> tally" where
  "count_anchor an t =
     (if source_a an = source_b an then t
      else let (key, off) = (if source_a an < source_b an
                             then ((source_a an, source_b an), floor_a an - floor_b an)
                             else ((source_b an, source_a an), floor_b an - floor_a an))
           in AList.update key (bump off (case map_of t key of None \<Rightarrow> [] | Some c \<Rightarrow> c)) t)"

definition tallies_of :: "anchor list \<Rightarrow> tally" where
  "tallies_of anchors = fold count_anchor anchors []"

text \<open>
  The winning offset: the most frequent, the smaller on a tie of the count, and the first in
  ascending order when a gap and its negative tie.
\<close>

definition winner :: "counter \<Rightarrow> int \<times> nat" where
  "winner c = arg_min_list (\<lambda>(off, n). (- int n, \<bar>off\<bar>)) (sort_key fst c)"

record evidence =
  ev_sources :: "string \<times> string"
  ev_n :: nat
  ev_offset :: int
  ev_share :: rat
  ev_histogram :: "(int \<times> nat) list"
  ev_used :: bool

definition evidence_of :: "nat \<Rightarrow> rat \<Rightarrow> (string \<times> string) \<times> counter \<Rightarrow> evidence" where
  "evidence_of min_observations min_majority = (\<lambda>(key, c).
     let total = sum_list (map snd c); (off, hits) = winner c;
         share = (if total = 0 then 0 else of_nat hits / of_nat total)
     in \<lparr>ev_sources = key, ev_n = total, ev_offset = off, ev_share = share,
         ev_histogram = sort_key fst c,
         ev_used = (total \<ge> min_observations \<and> share \<ge> min_majority \<and> \<bar>off\<bar> \<le> 1)\<rparr>)"

definition add_constraint :: "(string \<times> string) \<times> int \<Rightarrow> adjacency \<Rightarrow> adjacency" where
  "add_constraint = (\<lambda>((left, right), off) adj.
     dict_append right (left, - off) (dict_append left (right, off) adj))"

definition adjacency_of :: "((string \<times> string) \<times> int) list \<Rightarrow> adjacency" where
  "adjacency_of constraints = fold add_constraint constraints []"

definition edges_of :: "adjacency \<Rightarrow> string \<Rightarrow> (string \<times> int) list" where
  "edges_of adj s = (case map_of adj s of None \<Rightarrow> [] | Some es \<Rightarrow> es)"

text \<open>The breadth-first propagation: levels, the queue and the contradicted sources.\<close>

type_synonym bfs = "(string, int) dict \<times> string list \<times> string set"

definition visit :: "string \<Rightarrow> string \<times> int \<Rightarrow> bfs \<Rightarrow> bfs" where
  "visit source = (\<lambda>(other, off) (levels, queue, conflicted).
     let want = the (map_of levels source) - off
     in case map_of levels other of
          Some l \<Rightarrow> (levels, queue, if l \<noteq> want then insert other conflicted else conflicted)
        | None \<Rightarrow> (AList.update other want levels, queue @ [other], conflicted))"

definition targets :: "adjacency \<Rightarrow> string set" where
  "targets adj = fst ` set (concat (map snd adj))"

text \<open>What is left to discover, counted twice so that each discovery pays for its visit.\<close>

definition bfs_left :: "adjacency \<Rightarrow> bfs \<Rightarrow> nat" where
  "bfs_left adj = (\<lambda>(levels, queue, _). 2 * card (targets adj - dom (map_of levels)) + length queue)"

lemma finite_targets [simp]: "finite (targets adj)"
  by (simp add: targets_def)

lemma edges_of_targets: "(t, off) \<in> set (edges_of adj s) \<Longrightarrow> t \<in> targets adj"
proof -
  assume t: "(t, off) \<in> set (edges_of adj s)"
  then obtain es where "map_of adj s = Some es" "(t, off) \<in> set es"
    by (cases "map_of adj s") (simp_all add: edges_of_def)
  then show ?thesis unfolding targets_def by (auto dest!: map_of_SomeD intro!: rev_image_eqI [of "(t, off)"])
qed

lemma visit_left: "fst e \<in> targets adj \<Longrightarrow> bfs_left adj (visit s e st) \<le> bfs_left adj st"
proof -
  assume e: "fst e \<in> targets adj"
  obtain t off where te: "e = (t, off)" by (cases e)
  obtain lv q c where st: "st = (lv, q, c)" by (cases st)
  show ?thesis
  proof (cases "map_of lv t")
    case None
    then have "t \<in> targets adj - dom (map_of lv)" using e te by auto
    then have "card (targets adj - dom (map_of lv) - {t}) < card (targets adj - dom (map_of lv))"
      by (intro card_Diff1_less) auto
    moreover have "targets adj - dom (map_of (AList.update t w lv)) = targets adj - dom (map_of lv) - {t}" for w
      by (auto simp: update_conv')
    ultimately show ?thesis using None by (simp add: visit_def st te bfs_left_def Let_def)
  qed (simp add: visit_def st te bfs_left_def Let_def)
qed

lemma visits_left:
  "(\<And>e. e \<in> set es \<Longrightarrow> fst e \<in> targets adj) \<Longrightarrow> bfs_left adj (fold (visit s) es st) \<le> bfs_left adj st"
  by (rule fold_inv [where P = "\<lambda>x. bfs_left adj x \<le> bfs_left adj st"])
    (simp, blast intro: order_trans visit_left)

function bfs_run :: "adjacency \<Rightarrow> bfs \<Rightarrow> bfs" where
  "bfs_run adj (levels, [], conflicted) = (levels, [], conflicted)"
| "bfs_run adj (levels, source # queue, conflicted) =
     bfs_run adj (fold (visit source) (sort (edges_of adj source)) (levels, queue, conflicted))"
  by pat_completeness auto
termination
proof (relation "measure (\<lambda>(adj, st). bfs_left adj st)", goal_cases)
  case (2 adj levels source queue conflicted)
  have "bfs_left adj (fold (visit source) (sort (edges_of adj source)) (levels, queue, conflicted))
      \<le> bfs_left adj (levels, queue, conflicted)"
    by (rule visits_left) (use edges_of_targets in force)
  then show ?case by (simp add: bfs_left_def)
qed simp

datatype drop_reason = Spans_more_than_two_levels | Contradicts_its_component | No_pair_cleared_the_bar

type_synonym fit = "camp_table \<times> (string, drop_reason) dict \<times> string set"

text \<open>
  One component's answer. \<open>span\<close> is the code's set difference of level VALUES:
  \<^verbatim>\<open>sorted(set(levels.values()) - {levels[source] for source in conflicted})\<close>.
\<close>

definition span_of :: "(string, int) dict \<Rightarrow> string set \<Rightarrow> int list" where
  "span_of levels conflicted =
     sorted_list_of_set (snd ` set levels - (\<lambda>s. the (map_of levels s)) ` conflicted)"

definition place_component :: "(string, int) dict \<Rightarrow> string set
    \<Rightarrow> camp_table \<times> (string, drop_reason) dict \<Rightarrow> camp_table \<times> (string, drop_reason) dict" where
  "place_component levels conflicted = (\<lambda>(camps, dropped).
     let span = span_of levels conflicted
     in if length span > 2
        then (camps, fold (\<lambda>(s, _). AList.update s Spans_more_than_two_levels) levels dropped)
        else let floor_level = (if span = [] then 0 else hd span)
             in fold (\<lambda>(s, level) (camps, dropped).
                  if s \<in> conflicted then (camps, AList.update s Contradicts_its_component dropped)
                  else (AList.update s (level - floor_level) camps, dropped))
                (sort levels) (camps, dropped))"

definition fit_root :: "adjacency \<Rightarrow> string \<Rightarrow> fit \<Rightarrow> fit" where
  "fit_root adj r = (\<lambda>(camps, dropped, seen).
     if r \<in> seen then (camps, dropped, seen)
     else let (levels, _, conflicted) = bfs_run adj ([(r, 1)], [r], {});
              (camps', dropped') = place_component levels conflicted (camps, dropped)
          in (camps', dropped', fst ` set levels \<union> seen))"

definition roots_of :: "adjacency \<Rightarrow> string list" where
  "roots_of adj = map fst (sort_key (\<lambda>(s, n). (- int n, s)) (map (\<lambda>(s, es). (s, length es)) adj))"

definition used_constraints :: "evidence list \<Rightarrow> ((string \<times> string) \<times> int) list" where
  "used_constraints rows = map (\<lambda>r. (ev_sources r, ev_offset r)) (filter ev_used rows)"

definition tallies_sources :: "tally \<Rightarrow> string set" where
  "tallies_sources t = (\<Union>(a, b) \<in> fst ` set t. {a, b})"

definition measure_camps :: "anchor list \<Rightarrow> nat \<Rightarrow> rat
    \<Rightarrow> camp_table \<times> (string, drop_reason) dict \<times> evidence list" where
  "measure_camps anchors min_observations min_majority =
     (let t = tallies_of anchors;
          rows = map (evidence_of min_observations min_majority) (sort_key fst t);
          adj = adjacency_of (used_constraints rows);
          (camps, dropped, _) = fold (fit_root adj) (roots_of adj) ([], [], {});
          rest = sorted_list_of_set (tallies_sources t - fst ` set camps - fst ` set dropped);
          dropped' = fold (\<lambda>s. AList.update s No_pair_cleared_the_bar) rest dropped
      in (sort camps, sort_key fst dropped', rows))"

definition MIN_OBSERVATIONS :: nat where
  "MIN_OBSERVATIONS = 15"

definition MIN_MAJORITY :: rat where
  "MIN_MAJORITY = 4 / 5"

section \<open>What the fit promises\<close>

subsection \<open>The adjacency\<close>

lemma map_of_edges: "edges_of (dict_append k v adj) s = edges_of adj s @ (if s = k then [v] else [])"
  by (auto simp: edges_of_def map_of_dict_append split: option.splits)

lemma adjacency_fold:
  "(t, off) \<in> set (edges_of (fold add_constraint cs adj) s) \<longleftrightarrow>
     (t, off) \<in> set (edges_of adj s) \<or> ((s, t), off) \<in> set cs \<or> ((t, s), - off) \<in> set cs"
proof (induction cs arbitrary: adj)
  case (Cons c cs)
  obtain l r o' where c: "c = ((l, r), o')" by (cases c) auto
  show ?case using Cons.IH [of "add_constraint c adj"]
    by (auto simp: add_constraint_def c map_of_edges)
qed simp

lemma adjacency_edges:
  "(t, off) \<in> set (edges_of (adjacency_of cs) s) \<longleftrightarrow> ((s, t), off) \<in> set cs \<or> ((t, s), - off) \<in> set cs"
  by (simp add: adjacency_of_def adjacency_fold) (simp add: edges_of_def)

lemma adjacency_sym:
  "(t, off) \<in> set (edges_of (adjacency_of cs) s) \<longleftrightarrow> (s, - off) \<in> set (edges_of (adjacency_of cs) t)"
  by (auto simp: adjacency_edges)

subsection \<open>The propagation\<close>

text \<open>What the visit of one source's edges leaves: levels only grow, every edge is read.\<close>

lemma visit_step:
  assumes "visit s e (lv, q, c) = (lv', q', c')"
  shows "c \<subseteq> c'" and "map_of lv k = Some l \<Longrightarrow> map_of lv' k = Some l"
    and "dom (map_of lv') = insert (fst e) (dom (map_of lv))"
    and "\<exists>l. map_of lv' (fst e) = Some l \<and> (l = the (map_of lv s) - snd e \<or> fst e \<in> c')"
    and "set q' = set q \<union> (dom (map_of lv') - dom (map_of lv))"
    and "distinct (map fst lv) \<Longrightarrow> distinct (map fst lv')"
    and "distinct q \<Longrightarrow> set q \<subseteq> dom (map_of lv) \<Longrightarrow> distinct q'"
    and "c \<subseteq> dom (map_of lv) \<Longrightarrow> c' \<subseteq> dom (map_of lv')"
  using assms
  by (auto simp: visit_def update_conv' distinct_update Let_def split: prod.splits option.splits if_splits)

lemma visits_step:
  assumes "fold (visit s) es (lv, q, c) = (lv', q', c')" and "map_of lv s = Some ls"
  shows "c \<subseteq> c' \<and> (\<forall>k l. map_of lv k = Some l \<longrightarrow> map_of lv' k = Some l)
    \<and> dom (map_of lv') = dom (map_of lv) \<union> fst ` set es
    \<and> (\<forall>(t, off) \<in> set es. \<exists>l. map_of lv' t = Some l \<and> (l = ls - off \<or> t \<in> c'))
    \<and> set q' = set q \<union> (dom (map_of lv') - dom (map_of lv))
    \<and> (distinct (map fst lv) \<longrightarrow> distinct (map fst lv'))
    \<and> (distinct q \<longrightarrow> set q \<subseteq> dom (map_of lv) \<longrightarrow> distinct q')
    \<and> (c \<subseteq> dom (map_of lv) \<longrightarrow> c' \<subseteq> dom (map_of lv'))"
  using assms
proof (induction es arbitrary: lv q c)
  case (Cons e es)
  obtain lv1 q1 c1 where v: "visit s e (lv, q, c) = (lv1, q1, c1)" by (cases "visit s e (lv, q, c)")
  note v1 = visit_step [OF v]
  have ls1: "map_of lv1 s = Some ls" using v1(2) Cons.prems(2) .
  have big: "c1 \<subseteq> c' \<and> (\<forall>k l. map_of lv1 k = Some l \<longrightarrow> map_of lv' k = Some l)
    \<and> dom (map_of lv') = dom (map_of lv1) \<union> fst ` set es
    \<and> (\<forall>(t, off) \<in> set es. \<exists>l. map_of lv' t = Some l \<and> (l = ls - off \<or> t \<in> c'))
    \<and> set q' = set q1 \<union> (dom (map_of lv') - dom (map_of lv1))
    \<and> (distinct (map fst lv1) \<longrightarrow> distinct (map fst lv'))
    \<and> (distinct q1 \<longrightarrow> set q1 \<subseteq> dom (map_of lv1) \<longrightarrow> distinct q')
    \<and> (c1 \<subseteq> dom (map_of lv1) \<longrightarrow> c' \<subseteq> dom (map_of lv'))"
    by (rule Cons.IH [OF _ ls1]) (use Cons.prems(1) v in simp)
  note ih = big [THEN conjunct1] big [THEN conjunct2, THEN conjunct1]
    big [THEN conjunct2, THEN conjunct2, THEN conjunct1]
  note ih' = big [THEN conjunct2, THEN conjunct2, THEN conjunct2]
  note ih'' = ih' [THEN conjunct2, THEN conjunct2]
  obtain t off where e: "e = (t, off)" by (cases e)
  obtain l where l: "map_of lv1 t = Some l" "l = ls - off \<or> t \<in> c1"
    using v1(4) Cons.prems(2) e by auto
  have q1: "distinct q \<longrightarrow> set q \<subseteq> dom (map_of lv) \<longrightarrow> distinct q1 \<and> set q1 \<subseteq> dom (map_of lv1)"
    using v1(7) v1(5) v1(3) by auto
  show ?case
  proof (intro conjI)
    show "c \<subseteq> c'" using v1(1) ih(1) by blast
    show "\<forall>k l. map_of lv k = Some l \<longrightarrow> map_of lv' k = Some l" using v1(2) ih(2) by blast
    show "dom (map_of lv') = dom (map_of lv) \<union> fst ` set (e # es)" using v1(3) ih(3) by auto
    have "\<exists>l. map_of lv' t = Some l \<and> (l = ls - off \<or> t \<in> c')" using l ih(1,2) by blast
    then show "\<forall>(t, off) \<in> set (e # es). \<exists>l. map_of lv' t = Some l \<and> (l = ls - off \<or> t \<in> c')"
      using ih' [THEN conjunct1] e by simp
    show "set q' = set q \<union> (dom (map_of lv') - dom (map_of lv))"
    proof -
      have "dom (map_of lv) \<subseteq> dom (map_of lv1)" using v1(3) by auto
      moreover have "dom (map_of lv1) \<subseteq> dom (map_of lv')" using ih(3) by auto
      ultimately show ?thesis unfolding ih' [THEN conjunct2, THEN conjunct1] v1(5) by blast
    qed
    show "distinct (map fst lv) \<longrightarrow> distinct (map fst lv')" using v1(6) ih'' [THEN conjunct1] by blast
    show "distinct q \<longrightarrow> set q \<subseteq> dom (map_of lv) \<longrightarrow> distinct q'"
      using q1 ih'' [THEN conjunct2, THEN conjunct1] by blast
    show "c \<subseteq> dom (map_of lv) \<longrightarrow> c' \<subseteq> dom (map_of lv')"
      using v1(8) ih'' [THEN conjunct2, THEN conjunct2] by blast
  qed
qed auto

text \<open>
  The invariant of the propagation: every level outside the queue has had its edges read, so
  that each holds on the levels or has its far end contradicted.
\<close>

definition bfs_ok :: "adjacency \<Rightarrow> bfs \<Rightarrow> bool" where
  "bfs_ok adj = (\<lambda>(lv, q, c).
     distinct (map fst lv) \<and> distinct q \<and> set q \<subseteq> dom (map_of lv) \<and> c \<subseteq> dom (map_of lv) \<and>
     (\<forall>s ls t off. map_of lv s = Some ls \<longrightarrow> s \<notin> set q \<longrightarrow> (t, off) \<in> set (edges_of adj s) \<longrightarrow>
        (\<exists>l. map_of lv t = Some l \<and> (l = ls - off \<or> t \<in> c))))"

lemma bfs_ok_step:
  assumes ok: "bfs_ok adj (lv, s # q, c)"
    and f: "fold (visit s) (sort (edges_of adj s)) (lv, q, c) = (lv', q', c')"
  shows "bfs_ok adj (lv', q', c')"
proof -
  have prem: "distinct (map fst lv)" "distinct q" "s \<notin> set q" "set q \<subseteq> dom (map_of lv)"
      "c \<subseteq> dom (map_of lv)"
    and read: "\<And>r lr t off. map_of lv r = Some lr \<Longrightarrow> r \<noteq> s \<Longrightarrow> r \<notin> set q \<Longrightarrow>
        (t, off) \<in> set (edges_of adj r) \<Longrightarrow> \<exists>l. map_of lv t = Some l \<and> (l = lr - off \<or> t \<in> c)"
    using ok by (auto simp: bfs_ok_def)
  obtain ls where ls: "map_of lv s = Some ls" using ok by (auto simp: bfs_ok_def)
  note st = visits_step [OF f ls]
  have keep: "map_of lv' k = Some l" if "map_of lv k = Some l" for k l using st that by blast
  have "\<exists>l. map_of lv' t = Some l \<and> (l = lr - off \<or> t \<in> c')"
    if r: "map_of lv' r = Some lr" "r \<notin> set q'" "(t, off) \<in> set (edges_of adj r)" for r lr t off
  proof -
    have "r \<in> dom (map_of lv)" using st r(1,2) by blast
    then obtain l0 where "map_of lv r = Some l0" by auto
    then have lr: "map_of lv r = Some lr" using keep r(1) by fastforce
    show ?thesis
    proof (cases "r = s")
      case True
      then have "lr = ls" using lr ls by simp
      then show ?thesis using st r(3) True by fastforce
    next
      case False
      have "r \<notin> set q" using st r(2) by blast
      then obtain l where "map_of lv t = Some l" "l = lr - off \<or> t \<in> c"
        using read [OF lr False _ r(3)] by blast
      then show ?thesis using keep st by blast
    qed
  qed
  then show ?thesis using st prem by (auto simp: bfs_ok_def)
qed

lemma bfs_run_ok:
  assumes "bfs_ok adj st" and "bfs_run adj st = (lv', q', c')"
  shows "q' = [] \<and> bfs_ok adj (lv', [], c') \<and> dom (map_of (fst st)) \<subseteq> dom (map_of lv')"
  using assms
proof (induction adj st arbitrary: lv' q' c' rule: bfs_run.induct)
  case (1 adj levels conflicted)
  then show ?case by simp
next
  case (2 adj levels source queue conflicted)
  obtain lv1 q1 c1 where f:
    "fold (visit source) (sort (edges_of adj source)) (levels, queue, conflicted) = (lv1, q1, c1)"
    by (cases "fold (visit source) (sort (edges_of adj source)) (levels, queue, conflicted)")
  obtain ls where "map_of levels source = Some ls" using "2.prems"(1) by (auto simp: bfs_ok_def)
  then have "dom (map_of levels) \<subseteq> dom (map_of lv1)" using visits_step [OF f] by blast
  moreover have "q' = [] \<and> bfs_ok adj (lv', [], c') \<and> dom (map_of lv1) \<subseteq> dom (map_of lv')"
    using "2.IH" bfs_ok_step [OF "2.prems"(1) f] "2.prems"(2) by (simp add: f)
  ultimately show ?case by auto
qed

text \<open>What the propagation never enters stays outside.\<close>

lemma bfs_run_outside:
  assumes "\<And>s t off. s \<notin> S \<Longrightarrow> (t, off) \<in> set (edges_of adj s) \<Longrightarrow> t \<notin> S"
    and "dom (map_of (fst st)) \<inter> S = {}" and "set (fst (snd st)) \<subseteq> dom (map_of (fst st))"
    and "bfs_run adj st = (lv', q', c')"
  shows "dom (map_of lv') \<inter> S = {}"
  using assms
proof (induction adj st arbitrary: lv' q' c' rule: bfs_run.induct)
  case (1 adj levels conflicted)
  then show ?case by simp
next
  case (2 adj levels source queue conflicted)
  obtain lv1 q1 c1 where f:
    "fold (visit source) (sort (edges_of adj source)) (levels, queue, conflicted) = (lv1, q1, c1)"
    by (cases "fold (visit source) (sort (edges_of adj source)) (levels, queue, conflicted)")
  have src: "source \<in> dom (map_of levels)" using "2.prems"(3) by simp
  then obtain ls where "map_of levels source = Some ls" by auto
  note st = visits_step [OF f this]
  have "source \<notin> S" using src "2.prems"(2) by auto
  then have "fst ` set (sort (edges_of adj source)) \<inter> S = {}" using "2.prems"(1) by auto
  then have "dom (map_of lv1) \<inter> S = {}" using st "2.prems"(2) by auto
  moreover have "set q1 \<subseteq> dom (map_of lv1)" using st "2.prems"(3) by auto
  ultimately show ?case using "2.IH" [of lv' q' c'] "2.prems"(1,4) by (simp add: f)
qed

subsection \<open>The placement\<close>

lemma place_fold:
  assumes "distinct (map fst ls)"
    and "fold (\<lambda>(s, level) (camps, dropped).
           if s \<in> C then (camps, AList.update s Contradicts_its_component dropped)
           else (AList.update s (level - f) camps, dropped)) ls (camps, dropped) = (camps', dropped')"
  shows "map_of camps' s = (case map_of ls s of
           Some l \<Rightarrow> if s \<in> C then map_of camps s else Some (l - f) | None \<Rightarrow> map_of camps s)
       \<and> (distinct (map fst camps) \<longrightarrow> distinct (map fst camps'))"
  using assms
proof (induction ls arbitrary: camps dropped)
  case (Cons p ls)
  obtain k l where p: "p = (k, l)" by (cases p)
  have k: "k \<notin> fst ` set ls" using Cons.prems(1) p by simp
  then have none: "map_of ls k = None" by (simp add: map_of_eq_None_iff)
  show ?case
  proof (cases "k \<in> C")
    case True
    then show ?thesis
      using Cons.IH [of camps "AList.update k Contradicts_its_component dropped"] Cons.prems none p
      by (auto split: option.splits)
  next
    case False
    then show ?thesis
      using Cons.IH [of "AList.update k (l - f) camps" dropped] Cons.prems none p
      by (auto simp: update_conv' distinct_update split: option.splits)
  qed
qed simp

lemma map_of_sort: "distinct (map fst d) \<Longrightarrow> map_of (sort d) = map_of (d :: ('k::linorder \<times> 'v::linorder) list)"
proof -
  assume "distinct (map fst d)"
  moreover have "mset (map fst (sort d)) = mset (map fst d)" by simp
  ultimately have "distinct (map fst (sort d))" by (metis mset_eq_imp_distinct_iff)
  with \<open>distinct (map fst d)\<close> show ?thesis by (intro map_of_inject_set [THEN iffD2]) simp_all
qed

lemma distinct_keys_sort:
  "distinct (map fst (sort d)) = distinct (map fst (d :: ('k::linorder \<times> 'v::linorder) list))"
proof -
  have "mset (map fst (sort d)) = mset (map fst d)" by simp
  then show ?thesis by (rule mset_eq_imp_distinct_iff)
qed

lemma place_component_spec:
  assumes "distinct (map fst lv)" and "place_component lv C (camps, dropped) = (camps', dropped')"
  shows "\<exists>f. (\<forall>s. map_of camps' s = map_of camps s \<or>
            (\<exists>l. map_of lv s = Some l \<and> s \<notin> C \<and> map_of camps' s = Some (l - f)))
       \<and> (distinct (map fst camps) \<longrightarrow> distinct (map fst camps'))"
proof (cases "length (span_of lv C) > 2")
  case True
  then show ?thesis using assms(2) by (auto simp: place_component_def Let_def)
next
  case False
  define f where "f = (if span_of lv C = [] then 0 else hd (span_of lv C))"
  have "fold (\<lambda>(s, level) (camps, dropped).
           if s \<in> C then (camps, AList.update s Contradicts_its_component dropped)
           else (AList.update s (level - f) camps, dropped)) (sort lv) (camps, dropped) = (camps', dropped')"
    using assms(2) False unfolding place_component_def Let_def f_def by simp
  then have "map_of camps' s = (case map_of lv s of
           Some l \<Rightarrow> if s \<in> C then map_of camps s else Some (l - f) | None \<Rightarrow> map_of camps s)
       \<and> (distinct (map fst camps) \<longrightarrow> distinct (map fst camps'))" for s
    using place_fold [of "sort lv"] assms(1) map_of_sort [OF assms(1)]
    by (simp add: distinct_keys_sort)
  then have at: "map_of camps' s = (case map_of lv s of
           Some l \<Rightarrow> if s \<in> C then map_of camps s else Some (l - f) | None \<Rightarrow> map_of camps s)"
      and d: "distinct (map fst camps) \<longrightarrow> distinct (map fst camps')" for s
    by blast+
  have "map_of camps' s = map_of camps s \<or>
      (\<exists>l. map_of lv s = Some l \<and> s \<notin> C \<and> map_of camps' s = Some (l - f))" for s
    using at [of s] by (cases "map_of lv s") auto
  with d show ?thesis by blast
qed

text \<open>The invariant of the roots' loop: the camps placed so far satisfy every edge between them.\<close>

definition fit_ok :: "adjacency \<Rightarrow> fit \<Rightarrow> bool" where
  "fit_ok adj = (\<lambda>(camps, _, seen).
     distinct (map fst camps) \<and> dom (map_of camps) \<subseteq> seen \<and>
     (\<forall>s t off. s \<in> seen \<longrightarrow> (t, off) \<in> set (edges_of adj s) \<longrightarrow> t \<in> seen) \<and>
     (\<forall>s t off a b. (t, off) \<in> set (edges_of adj s) \<longrightarrow> map_of camps s = Some a \<longrightarrow>
        map_of camps t = Some b \<longrightarrow> a - b = off))"

lemma fit_root_ok:
  assumes sym: "\<And>s t off. (t, off) \<in> set (edges_of adj s) \<Longrightarrow> (s, - off) \<in> set (edges_of adj t)"
    and ok: "fit_ok adj st"
  shows "fit_ok adj (fit_root adj r st)"
proof -
  obtain camps dropped seen where st: "st = (camps, dropped, seen)" by (cases st)
  show ?thesis
  proof (cases "r \<in> seen")
    case True
    then show ?thesis using ok by (simp add: fit_root_def st)
  next
    case False
    obtain lv q C where run: "bfs_run adj ([(r, 1)], [r], {}) = (lv, q, C)"
      by (cases "bfs_run adj ([(r, 1)], [r], {})")
    obtain camps' dropped' where pl: "place_component lv C (camps, dropped) = (camps', dropped')"
      by (cases "place_component lv C (camps, dropped)")
    have "bfs_ok adj ([(r, 1)], [r], {})" by (simp add: bfs_ok_def)
    then have bo: "bfs_ok adj (lv, [], C)" using bfs_run_ok [OF _ run] by blast
    have closed: "t \<in> seen" if "s \<in> seen" "(t, off) \<in> set (edges_of adj s)" for s t off
      using ok that unfolding fit_ok_def st prod.case by blast
    have "t \<notin> seen" if "s \<notin> seen" "(t, off) \<in> set (edges_of adj s)" for s t off
      using that closed sym by blast
    then have out: "dom (map_of lv) \<inter> seen = {}"
      by (rule bfs_run_outside [OF _ _ _ run]) (use False in auto)
    have lv_edge: "\<exists>l. map_of lv t = Some l \<and> (l = ls - off \<or> t \<in> C)"
      if "map_of lv s = Some ls" "(t, off) \<in> set (edges_of adj s)" for s ls t off
      using bo that by (auto simp: bfs_ok_def)
    obtain f where at: "\<And>s. map_of camps' s = map_of camps s \<or>
            (\<exists>l. map_of lv s = Some l \<and> s \<notin> C \<and> map_of camps' s = Some (l - f))"
        and d: "distinct (map fst camps) \<longrightarrow> distinct (map fst camps')"
      using place_component_spec [OF _ pl] bo by (auto simp: bfs_ok_def)
    have old: "s \<in> seen" if "map_of camps s = Some a" for s a using ok that by (auto simp: fit_ok_def st)
    have edge: "a - b = off" if e: "(t, off) \<in> set (edges_of adj s)"
        and a: "map_of camps' s = Some a" and b: "map_of camps' t = Some b" for s t off a b
    proof (cases "map_of lv s")
      case None
      then have "map_of camps s = Some a" using at [of s] a by simp
      moreover from this have "t \<in> seen" using old closed e by blast
      then have "map_of lv t = None" using out by auto
      then have "map_of camps t = Some b" using at [of t] b by simp
      ultimately show ?thesis using ok e by (auto simp: fit_ok_def st)
    next
      case (Some ls)
      then obtain lt where lt: "map_of lv t = Some lt" "lt = ls - off \<or> t \<in> C" using lv_edge e by blast
      have "s \<notin> seen" "t \<notin> seen" using out Some lt by auto
      then have "map_of camps s = None" "map_of camps t = None" using old by fastforce+
      then have "a = ls - f" "b = lt - f" "t \<notin> C" using at [of s] at [of t] a b Some lt by auto
      then show ?thesis using lt(2) by simp
    qed
    have "dom (map_of camps') \<subseteq> fst ` set lv \<union> seen"
    proof
      fix s assume "s \<in> dom (map_of camps')"
      then have "s \<in> dom (map_of camps) \<or> s \<in> dom (map_of lv)" using at [of s] by auto
      then show "s \<in> fst ` set lv \<union> seen" using old by (auto simp flip: dom_map_of_conv_image_fst)
    qed
    moreover have "t \<in> fst ` set lv \<union> seen"
      if "s \<in> fst ` set lv \<union> seen" "(t, off) \<in> set (edges_of adj s)" for s t off
    proof (cases "s \<in> seen")
      case False
      then have "s \<in> dom (map_of lv)" using that(1) by (simp add: dom_map_of_conv_image_fst)
      then obtain ls where "map_of lv s = Some ls" by auto
      then have "t \<in> dom (map_of lv)" using lv_edge [OF _ that(2)] by blast
      then show ?thesis by (simp add: dom_map_of_conv_image_fst)
    qed (use closed that in blast)
    moreover have "distinct (map fst camps')" using d ok by (simp add: fit_ok_def st)
    ultimately have "fit_ok adj (camps', dropped', fst ` set lv \<union> seen)"
      using edge unfolding fit_ok_def prod.case by blast
    then show ?thesis using False by (simp add: fit_root_def st run pl del: bfs_run.simps)
  qed
qed

text \<open>
  The fitted table is consistent with its evidence: between two sources it places, the
  difference of their camps is the offset of every source pair that cleared the bar.
\<close>

theorem measure_camps_consistent:
  "case measure_camps anchors min_observations min_majority of (camps, dropped, rows) \<Rightarrow>
     list_all (\<lambda>r. camp_offset camps (Some (fst (ev_sources r))) (Some (snd (ev_sources r)))
         \<in> {None, Some (ev_offset r)}) (filter ev_used rows)"
proof -
  define rows where "rows = map (evidence_of min_observations min_majority) (sort_key fst (tallies_of anchors))"
  define adj where "adj = adjacency_of (used_constraints rows)"
  obtain camps dropped seen where fit: "fold (fit_root adj) (roots_of adj) ([], [], {}) = (camps, dropped, seen)"
    by (cases "fold (fit_root adj) (roots_of adj) ([], [], {})")
  have "fit_ok adj (fold (fit_root adj) (roots_of adj) ([], [], {}))"
    by (rule fold_inv [where P = "fit_ok adj"])
      (simp add: fit_ok_def, intro fit_root_ok, simp_all add: adj_def flip: adjacency_sym)
  then have ok: "fit_ok adj (camps, dropped, seen)" by (simp add: fit)
  have so: "map_of (sort camps) = map_of camps" using ok by (intro map_of_sort) (simp add: fit_ok_def)
  have "camp_offset (sort camps) (Some (fst (ev_sources r))) (Some (snd (ev_sources r)))
      \<in> {None, Some (ev_offset r)}" if "r \<in> set rows" "ev_used r" for r
  proof -
    obtain a b where ab: "ev_sources r = (a, b)" by (cases "ev_sources r")
    have "((a, b), ev_offset r) \<in> set (used_constraints rows)"
      using that ab by (force simp: used_constraints_def)
    then have "(b, ev_offset r) \<in> set (edges_of adj a)" by (simp add: adj_def adjacency_edges)
    then have "x - y = ev_offset r" if "map_of camps a = Some x" "map_of camps b = Some y" for x y
      using ok that by (auto simp: fit_ok_def)
    then show ?thesis by (auto simp: camp_offset_def ab so split: option.splits)
  qed
  then show ?thesis
    using fit by (simp add: measure_camps_def list_all_iff flip: rows_def adj_def) 
qed

text \<open>
  Five sources, one used offset each: the flats of \<open>a\<close> read one floor above those of
  \<open>b\<close>, \<open>d\<close> and \<open>f\<close>, those of \<open>f\<close> one above \<open>c\<close>, and \<open>b\<close> one above \<open>d\<close>, which contradicts both.
\<close>

definition three_level_anchors :: "anchor list" where
  "three_level_anchors = concat (map (\<lambda>(a, b, off).
     replicate 15 \<lparr>source_a = a, floor_a = off, source_b = b, floor_b = 0\<rparr>)
     [(''a'', ''b'', 1), (''a'', ''d'', 1), (''b'', ''d'', 1), (''a'', ''f'', 1), (''f'', ''c'', 1)])"

text \<open>
  The span test reads level values, not sources: a contradicted source takes the level of
  an uncontradicted one out of the span, and a component of three levels is placed, with a camp
  of 2 that is neither of the two conventions.
\<close>

theorem three_levels_placed:
  "fst (measure_camps three_level_anchors MIN_OBSERVATIONS MIN_MAJORITY)
     = [(''a'', 2), (''c'', 0), (''f'', 1)]"
  by code_simp

end
