(* ===== verification/D43.thy ===== *)
theory D43
  imports Prelude Complex_Main
begin

text \<open>
  \<open>autodedup/d43.py\<close>: the relation \<open>ClusterRelation\<close>, which asks of two adverts whether a stated
  fact separates them, and remembers the answer. The readers of the two bodies
  (\<open>distinguishing_facts\<close>, \<open>price_conflict\<close> and the overlap clocks of
  \<open>autodedup/indistinguishable.py\<close> and \<open>autodedup/demonstrate.py\<close>) are the fields of a
  \<open>fact_reader\<close>: the relation only calls them. The memo, a dictionary two relations may share, is
  passed and returned.
\<close>

datatype d43_mode = CLUSTER | PROMOTE

record d43_settings =
  d43_cluster_invariant :: bool
  demonstrate_cluster_price :: bool
  demonstrate_cluster_price_honest_clock :: bool
  d43_cluster_price_kc_house_number :: bool

text \<open>The callers' functions: \<open>'l\<close> is an advert, \<open>'f\<close> a pair's feature row.\<close>

record ('l, 'f) fact_reader =
  distinguishing_facts :: "'l \<Rightarrow> 'l \<Rightarrow> 'f option \<Rightarrow> d43_mode \<Rightarrow> string list"
  price_paths_agree :: "'l \<Rightarrow> 'l \<Rightarrow> bool"
  honest_overlap_days :: "'l \<Rightarrow> 'l \<Rightarrow> rat option"
  overlap_days :: "'l \<Rightarrow> 'l \<Rightarrow> rat option"
  price_conflict :: "'l \<Rightarrow> 'l \<Rightarrow> bool \<Rightarrow> rat option \<Rightarrow> bool"
  kc_house_number_price_excuse :: "'l \<Rightarrow> 'l \<Rightarrow> string option \<Rightarrow> bool"
  printed_areas_prevail :: "'l \<Rightarrow> 'l \<Rightarrow> bool"

record ('l, 'f) relation =
  rel_listings :: "int \<Rightarrow> 'l option"
  rel_feats :: "int \<times> int \<Rightarrow> 'f option"
  rel_settings :: d43_settings
  rel_mode :: d43_mode
  rel_closure_of :: "int \<Rightarrow> int option"
  rel_certificates :: "int \<times> int \<Rightarrow> string option"

type_synonym memo = "int \<times> int \<Rightarrow> bool option"

text \<open>The same relation with the must-link closures exempt; it goes on with the same memo.\<close>

definition bound :: "(int \<Rightarrow> int option) \<Rightarrow> ('l, 'f) relation \<Rightarrow> ('l, 'f) relation" where
  "bound closure rel = rel\<lparr>rel_closure_of := closure\<rparr>"

text \<open>The relation at promotion's bar; it starts with a memo of its own.\<close>

definition strict :: "('l, 'f) relation \<Rightarrow> ('l, 'f) relation" where
  "strict rel = rel\<lparr>rel_mode := PROMOTE\<rparr>"

definition empty_memo :: memo where
  "empty_memo = (\<lambda>_. None)"

text \<open>The branch of \<open>ok\<close> that reads the two bodies.\<close>

definition verdict :: "('l, 'f) fact_reader \<Rightarrow> ('l, 'f) relation \<Rightarrow> int \<times> int \<Rightarrow> 'l \<Rightarrow> 'l \<Rightarrow> bool" where
  "verdict rd rel key a b =
     (let cfg = rel_settings rel;
          hit = (distinguishing_facts rd a b (rel_feats rel key) (rel_mode rel) = [])
      in if hit \<and> demonstrate_cluster_price cfg
         then let overlap = (if demonstrate_cluster_price_honest_clock cfg
                             then honest_overlap_days rd a b else overlap_days rd a b);
                  hit' = (\<not> price_conflict rd a b (price_paths_agree rd a b) overlap)
              in if \<not> hit' \<and> d43_cluster_price_kc_house_number cfg
                    \<and> kc_house_number_price_excuse rd a b (rel_certificates rel key)
                 then True else hit'
         else hit)"

text \<open>One call of \<open>ok\<close>: the answer, and the memo as it leaves it.\<close>

definition ok_step :: "('l, 'f) fact_reader \<Rightarrow> ('l, 'f) relation \<Rightarrow> int \<Rightarrow> int \<Rightarrow> memo \<Rightarrow> bool \<times> memo" where
  "ok_step rd rel left right memo =
     (let key = pair_key left right
      in if rel_closure_of rel left \<noteq> None \<and> rel_closure_of rel left = rel_closure_of rel right
         then (True, memo)
         else case memo key of
                Some hit \<Rightarrow> (hit, memo)
              | None \<Rightarrow>
                  (case (rel_listings rel (fst key), rel_listings rel (snd key)) of
                     (Some a, Some b) \<Rightarrow>
                       let hit = verdict rd rel key a b in (hit, memo(key \<mapsto> hit))
                   | _ \<Rightarrow> (True, memo)))"

fun violating_loop :: "('l, 'f) fact_reader \<Rightarrow> ('l, 'f) relation \<Rightarrow> (int \<times> int) list \<Rightarrow> memo
    \<Rightarrow> (int \<times> int) option \<times> memo" where
  "violating_loop rd rel [] memo = (None, memo)"
| "violating_loop rd rel (p # ps) memo =
     (let (hit, memo') = ok_step rd rel (fst p) (snd p) memo
      in if \<not> hit then (Some p, memo') else violating_loop rd rel ps memo')"

definition violating_pair_step :: "('l, 'f) fact_reader \<Rightarrow> ('l, 'f) relation \<Rightarrow> int list \<Rightarrow> memo
    \<Rightarrow> (int \<times> int) option \<times> memo" where
  "violating_pair_step rd rel ids memo = violating_loop rd rel (pairs_of (sort ids)) memo"

definition consistent_step :: "('l, 'f) fact_reader \<Rightarrow> ('l, 'f) relation \<Rightarrow> int list \<Rightarrow> memo
    \<Rightarrow> bool \<times> memo" where
  "consistent_step rd rel ids memo =
     (let (p, memo') = violating_pair_step rd rel ids memo in (p = None, memo'))"

definition relation_for :: "d43_settings \<Rightarrow> (int \<Rightarrow> 'l option) \<Rightarrow> (int \<times> int \<Rightarrow> 'f option)
    \<Rightarrow> (int \<times> int \<Rightarrow> string option) \<Rightarrow> ('l, 'f) relation option" where
  "relation_for cfg listings feats certificates =
     (if \<not> d43_cluster_invariant cfg then None
      else Some \<lparr>rel_listings = listings, rel_feats = feats, rel_settings = cfg,
                 rel_mode = CLUSTER, rel_closure_of = (\<lambda>_. None), rel_certificates = certificates\<rparr>)"

section \<open>The relation without its memo\<close>

definition rel_ok :: "('l, 'f) fact_reader \<Rightarrow> ('l, 'f) relation \<Rightarrow> int \<Rightarrow> int \<Rightarrow> bool" where
  "rel_ok rd rel left right = fst (ok_step rd rel left right empty_memo)"

definition violating_pair :: "('l, 'f) fact_reader \<Rightarrow> ('l, 'f) relation \<Rightarrow> int list \<Rightarrow> (int \<times> int) option" where
  "violating_pair rd rel ids = fst (violating_pair_step rd rel ids empty_memo)"

text \<open>A memo of a relation: it holds nothing but what the bodies say.\<close>

definition memo_of :: "('l, 'f) fact_reader \<Rightarrow> ('l, 'f) relation \<Rightarrow> memo \<Rightarrow> bool" where
  "memo_of rd rel memo \<longleftrightarrow> (\<forall>key hit. memo key = Some hit \<longrightarrow>
     (\<exists>a b. rel_listings rel (fst key) = Some a \<and> rel_listings rel (snd key) = Some b
            \<and> hit = verdict rd rel key a b))"

lemma memo_of_empty [simp]: "memo_of rd rel empty_memo"
  by (simp add: memo_of_def empty_memo_def)

lemma memo_ofD: "memo_of rd rel memo \<Longrightarrow> memo key = Some hit \<Longrightarrow>
    \<exists>a b. rel_listings rel (fst key) = Some a \<and> rel_listings rel (snd key) = Some b
          \<and> hit = verdict rd rel key a b"
  unfolding memo_of_def by blast

lemma memo_of_update:
  "memo_of rd rel memo \<Longrightarrow> rel_listings rel (fst key) = Some a \<Longrightarrow> rel_listings rel (snd key) = Some b \<Longrightarrow>
   memo_of rd rel (memo(key \<mapsto> verdict rd rel key a b))"
  by (auto simp: memo_of_def)

lemma ok_step_memo:
  assumes "memo_of rd rel memo"
  shows "fst (ok_step rd rel l r memo) = rel_ok rd rel l r \<and> memo_of rd rel (snd (ok_step rd rel l r memo))"
proof (cases "memo (pair_key l r)")
  case None
  then show ?thesis using assms
    by (auto simp: ok_step_def rel_ok_def Let_def empty_memo_def memo_of_update split: option.split)
next
  case (Some hit)
  then obtain a b where "rel_listings rel (fst (pair_key l r)) = Some a"
      "rel_listings rel (snd (pair_key l r)) = Some b" "hit = verdict rd rel (pair_key l r) a b"
    using memo_ofD [OF assms] by blast
  then show ?thesis using assms Some by (auto simp: ok_step_def rel_ok_def Let_def empty_memo_def)
qed

lemma rel_ok_sym: "rel_ok rd rel l r = rel_ok rd rel r l"
  by (auto simp: rel_ok_def ok_step_def Let_def pair_key_sym empty_memo_def split: option.splits)

lemma violating_loop_memo:
  "memo_of rd rel memo \<Longrightarrow>
   fst (violating_loop rd rel ps memo) = find (\<lambda>p. \<not> rel_ok rd rel (fst p) (snd p)) ps
   \<and> memo_of rd rel (snd (violating_loop rd rel ps memo))"
proof (induction ps arbitrary: memo)
  case (Cons p ps)
  then show ?case using ok_step_memo [OF Cons.prems, of "fst p" "snd p"]
    by (auto simp: split_beta)
qed simp

lemma violating_pair_find:
  "violating_pair rd rel ids = find (\<lambda>p. \<not> rel_ok rd rel (fst p) (snd p)) (pairs_of (sort ids))"
  by (simp add: violating_pair_def violating_pair_step_def violating_loop_memo)

lemma violating_pair_None:
  "violating_pair rd rel ids = None \<longleftrightarrow> (\<forall>(a, b) \<in> set (pairs_of (sort ids)). rel_ok rd rel a b)"
  by (auto simp: violating_pair_find find_None_iff split: prod.splits)

text \<open>A set no fact separates has no subset a fact separates.\<close>

lemma violating_pair_subset:
  assumes "violating_pair rd rel xs = None" and "set ys \<subseteq> set xs" and "distinct ys"
  shows "violating_pair rd rel ys = None"
proof -
  have "\<forall>(a, b) \<in> set (pairs_of (sort ys)). rel_ok rd rel a b"
    by (rule pairs_of_subset_sym [where xs = "sort xs"])
      (use assms rel_ok_sym in \<open>simp_all add: violating_pair_None\<close>)
  then show ?thesis by (simp add: violating_pair_None)
qed

lemma memo_of_bound: "memo_of rd rel memo \<longleftrightarrow> memo_of rd (bound closure rel) memo"
  by (simp add: memo_of_def bound_def verdict_def)

text \<open>
  The memo is invisible: whatever calls filled it, on the relation itself or on one bound
  to other closures that shares it, the relation answers what it answers afresh; a member set's
  answer is the first pair, in id order, that a stated fact separates.
\<close>

theorem memo_invisible:
  assumes "memo_of rd (bound closure rel) memo"
  shows "fst (ok_step rd rel l r memo) = rel_ok rd rel l r \<and>
    memo_of rd (bound closure' rel) (snd (ok_step rd rel l r memo)) \<and>
    fst (violating_pair_step rd rel ids memo)
      = find (\<lambda>p. \<not> rel_ok rd rel (fst p) (snd p)) (pairs_of (sort ids)) \<and>
    memo_of rd (bound closure' rel) (snd (violating_pair_step rd rel ids memo))"
proof -
  have m: "memo_of rd rel memo" using assms memo_of_bound by blast
  show ?thesis
    using ok_step_memo [OF m] violating_loop_memo [OF m] memo_of_bound
    by (simp add: violating_pair_step_def) blast
qed

text \<open>A reader over adverts that are their price: a gap above ten is a fact.\<close>

definition price_reader :: "(int, unit) fact_reader" where
  "price_reader = \<lparr>distinguishing_facts = (\<lambda>a b _ mode.
       if \<bar>a - b\<bar> > (case mode of CLUSTER \<Rightarrow> 10 | PROMOTE \<Rightarrow> 5) then [''price''] else []),
     price_paths_agree = (\<lambda>_ _. True), honest_overlap_days = (\<lambda>_ _. None),
     overlap_days = (\<lambda>_ _. None), price_conflict = (\<lambda>_ _ _ _. False),
     kc_house_number_price_excuse = (\<lambda>_ _ _. False), printed_areas_prevail = (=)\<rparr>"

definition price_relation :: "(int, unit) relation" where
  "price_relation = \<lparr>rel_listings = (\<lambda>i. if i < 10 then Some (8 * i) else None),
     rel_feats = (\<lambda>_. None),
     rel_settings = \<lparr>d43_cluster_invariant = True, demonstrate_cluster_price = False,
       demonstrate_cluster_price_honest_clock = False, d43_cluster_price_kc_house_number = False\<rparr>,
     rel_mode = CLUSTER, rel_closure_of = (\<lambda>_. None), rel_certificates = (\<lambda>_. None)\<rparr>"

theorem memo_invisible_witness:
  "fst (ok_step price_reader price_relation 1 2 (snd (ok_step price_reader price_relation 2 1 empty_memo)))
     = rel_ok price_reader price_relation 1 2 \<and>
   fst (violating_pair_step price_reader price_relation [3, 1, 2] empty_memo) = Some (1, 3)"
proof -
  have "memo_of price_reader price_relation (snd (ok_step price_reader price_relation 2 1 empty_memo))"
    using ok_step_memo [OF memo_of_empty] by blast
  then have "fst (ok_step price_reader price_relation 1 2
      (snd (ok_step price_reader price_relation 2 1 empty_memo))) = rel_ok price_reader price_relation 1 2"
    using memo_invisible memo_of_bound by blast
  moreover have "fst (violating_pair_step price_reader price_relation [3, 1, 2] empty_memo) = Some (1, 3)"
    by (simp add: violating_pair_step_def insort_key_def ok_step_def pair_key_def verdict_def
        price_reader_def price_relation_def empty_memo_def)
  ultimately show ?thesis by blast
qed

end
