(* ===== verification/Guards.thy ===== *)
theory Guards
  imports Categories D43 Partition_Props
begin

text \<open>
  \<open>autodedup/guards.py\<close>: the hard guards of a pair and the invariants of a merged member set.
  A guard returns the name of the rule it broke; a missing value is never a mismatch. A side is
  the fields a guard reads of a \<open>Fingerprint\<close>; areas and the settings' shares are rationals.
\<close>

record fingerprint =
  fp_id :: int
  fp_type :: "string option"
  fp_main :: "string option"
  fp_area :: "rat option"
  fp_disposition :: "string option"
  fp_floor :: "int option"

record guard_settings =
  area_reject_pct :: rat
  area_band_pct :: rat
  cluster_area_spread :: rat
  max_cluster_size :: int
  unit_designator_veto :: bool
  cluster_floor_spread :: bool
  cluster_disposition :: bool
  d43_printed_area_prevails :: bool

text \<open>The checks of \<open>Settings.__post_init__\<close> (\<open>autodedup/settings.py\<close>) on these fields.\<close>

definition guard_settings_ok :: "guard_settings \<Rightarrow> bool" where
  "guard_settings_ok cfg \<longleftrightarrow>
     0 \<le> area_band_pct cfg \<and> area_band_pct cfg \<le> area_reject_pct cfg \<and>
     2 \<le> max_cluster_size cfg \<and> 0 < cluster_area_spread cfg"

definition default_guard_settings :: guard_settings where
  "default_guard_settings = \<lparr>area_reject_pct = 8/100, area_band_pct = 3/100,
     cluster_area_spread = 8/100, max_cluster_size = 8, unit_designator_veto = True,
     cluster_floor_spread = True, cluster_disposition = True, d43_printed_area_prevails = False\<rparr>"

definition LAND_CATEGORY :: string where "LAND_CATEGORY = ''pozemek''"
definition FLAT_CATEGORY :: string where "FLAT_CATEGORY = ''byt''"

section \<open>A pair\<close>

datatype relation_word = Unknown | Reject | Band | Support

definition area_rel_diff :: "rat option \<Rightarrow> rat option \<Rightarrow> rat option" where
  "area_rel_diff a b =
     (case (a, b) of
        (Some x, Some y) \<Rightarrow> if x \<le> 0 \<or> y \<le> 0 then None else Some (\<bar>x - y\<bar> / max x y)
      | _ \<Rightarrow> None)"

definition area_relation :: "guard_settings \<Rightarrow> rat option \<Rightarrow> rat option \<Rightarrow> relation_word" where
  "area_relation cfg a b =
     (case area_rel_diff a b of
        None \<Rightarrow> Unknown
      | Some diff \<Rightarrow>
          if diff > area_reject_pct cfg then Reject
          else if diff > area_band_pct cfg then Band
          else Support)"

datatype guard_rule = Deal_type | Category | Area | Disposition | Floor

definition pair_veto :: "guard_settings \<Rightarrow> fingerprint \<Rightarrow> fingerprint \<Rightarrow> guard_rule option" where
  "pair_veto cfg a b =
     (if fp_type a \<noteq> None \<and> fp_type b \<noteq> None \<and> fp_type a \<noteq> fp_type b then Some Deal_type
      else if \<not> category_main_compatible (fp_main a) (fp_main b) then Some Category
      else if area_relation cfg (fp_area a) (fp_area b) = Reject then Some Area
      else let is_land = (fp_main a = Some LAND_CATEGORY \<or> fp_main b = Some LAND_CATEGORY)
           in if \<not> is_land \<and> fp_disposition a \<noteq> None \<and> fp_disposition b \<noteq> None
                 \<and> fp_disposition a \<noteq> fp_disposition b then Some Disposition
              else if fp_main a = Some FLAT_CATEGORY \<and> fp_main b = Some FLAT_CATEGORY
                   \<and> (case (fp_floor a, fp_floor b) of
                        (Some fa, Some fb) \<Rightarrow> \<bar>fa - fb\<bar> \<ge> 2 | _ \<Rightarrow> False)
                   then Some Floor
              else None)"

definition floor_relation :: "fingerprint \<Rightarrow> fingerprint \<Rightarrow> relation_word" where
  "floor_relation a b =
     (if fp_main a \<noteq> Some FLAT_CATEGORY \<or> fp_main b \<noteq> Some FLAT_CATEGORY then Unknown
      else case (fp_floor a, fp_floor b) of
             (Some fa, Some fb) \<Rightarrow>
               if \<bar>fa - fb\<bar> \<ge> 2 then Reject else if \<bar>fa - fb\<bar> = 1 then Band else Support
           | _ \<Rightarrow> Unknown)"

text \<open>
  E61. The readers of the texts, \<open>unit_designators\<close> and \<open>address_block_key\<close>
  (\<open>autodedup/text_facts.py\<close>), are arguments.
\<close>

definition unit_designator_conflict ::
  "('l \<Rightarrow> string set) \<Rightarrow> ('l \<Rightarrow> string option) \<Rightarrow> guard_settings option \<Rightarrow> 'l \<Rightarrow> 'l
     \<Rightarrow> (string \<times> string) option" where
  "unit_designator_conflict designators block_key cfg a b =
     (if (case cfg of None \<Rightarrow> False | Some c \<Rightarrow> \<not> unit_designator_veto c) then None
      else let left = designators a; right = designators b
           in if card left \<noteq> 1 \<or> card right \<noteq> 1 \<or> left = right then None
              else if block_key a \<noteq> block_key b then None
              else Some (the_elem left, the_elem right))"

lemma area_rel_diff_sym: "area_rel_diff a b = area_rel_diff b a"
  by (auto simp: area_rel_diff_def abs_minus_commute max.commute split: option.splits)

lemma area_relation_sym: "area_relation cfg a b = area_relation cfg b a"
  by (simp add: area_relation_def area_rel_diff_sym)

lemma floor_far_sym:
  "(case (x, y) of (Some fa, Some fb) \<Rightarrow> \<bar>fa - fb\<bar> \<ge> 2 | _ \<Rightarrow> False)
     = (case (y, x) of (Some fa, Some fb) \<Rightarrow> \<bar>fa - fb\<bar> \<ge> (2 :: int) | _ \<Rightarrow> False)"
  by (auto simp: abs_minus_commute split: option.splits)

text \<open>
  A guard reads a pair, not an order: swapping the sides names the same rule, an advert
  never vetoes itself, and the area shortfall is symmetric and lies in [0, 1).
\<close>

theorem pair_veto_symmetric:
  "pair_veto cfg a b = pair_veto cfg b a \<and> floor_relation a b = floor_relation b a \<and>
   area_rel_diff x y = area_rel_diff y x \<and>
   (case area_rel_diff x y of None \<Rightarrow> True | Some d \<Rightarrow> 0 \<le> d \<and> d < 1)"
proof (intro conjI)
  show "pair_veto cfg a b = pair_veto cfg b a"
    unfolding pair_veto_def category_main_compatible_sym [of "fp_main a"]
      area_relation_sym [of cfg "fp_area a"] floor_far_sym [of "fp_floor a"]
    by (auto simp: Let_def)
  show "floor_relation a b = floor_relation b a"
    by (auto simp: floor_relation_def abs_minus_commute split: option.splits)
  show "area_rel_diff x y = area_rel_diff y x" by (rule area_rel_diff_sym)
  show "case area_rel_diff x y of None \<Rightarrow> True | Some d \<Rightarrow> 0 \<le> d \<and> d < 1"
    by (auto simp: area_rel_diff_def max_def split: option.splits)
qed

section \<open>A member set\<close>

definition same_closure :: "int \<Rightarrow> int \<Rightarrow> (int \<Rightarrow> int option) \<Rightarrow> bool" where
  "same_closure left right closure \<longleftrightarrow> closure left \<noteq> None \<and> closure left = closure right"

lemma same_closure_sym: "same_closure i j closure = same_closure j i closure"
  unfolding same_closure_def by metis

text \<open>
  \<open>_apart\<close>: where no two values share a closure only the extreme pair is read, else every pair
  of two closures.
\<close>

definition closure_keys :: "(int \<Rightarrow> int option) \<Rightarrow> (int \<times> 'v) list \<Rightarrow> int list" where
  "closure_keys closure vals =
     map (\<lambda>p. the (closure (fst p))) (filter (\<lambda>p. closure (fst p) \<noteq> None) vals)"

definition apart :: "(int \<times> 'v::linorder) list \<Rightarrow> (int \<Rightarrow> int option) \<Rightarrow> ('v \<Rightarrow> 'v \<Rightarrow> bool) \<Rightarrow> bool" where
  "apart vals closure far =
     (if vals = [] then False
      else let keys = closure_keys closure vals
           in if length keys = card (set keys)
              then far (Min (snd ` set vals)) (Max (snd ` set vals))
              else \<exists>(p, q) \<in> set (pairs_of vals).
                     \<not> same_closure (fst p) (fst q) closure \<and> far (snd p) (snd q))"

text \<open>The vals the members state of a field, and the vals with their adverts.\<close>

definition known :: "(fingerprint \<Rightarrow> 'v option) \<Rightarrow> fingerprint list \<Rightarrow> 'v set" where
  "known f ms = the ` f ` set (filter (\<lambda>m. f m \<noteq> None) ms)"

definition stated :: "(fingerprint \<Rightarrow> 'v option) \<Rightarrow> fingerprint list \<Rightarrow> (int \<times> 'v) list" where
  "stated f ms = map (\<lambda>m. (fp_id m, the (f m))) (filter (\<lambda>m. f m \<noteq> None) ms)"

definition sized :: "fingerprint list \<Rightarrow> (int \<times> rat) list" where
  "sized ms = filter (\<lambda>p. snd p > 0) (stated fp_area ms)"

definition area_far :: "rat \<Rightarrow> rat \<Rightarrow> rat \<Rightarrow> bool" where
  "area_far spread lo hi \<longleftrightarrow> \<bar>hi - lo\<bar> / max lo hi > spread"

definition spread_is_printed_one :: "('l, 'f) fact_reader \<Rightarrow> fingerprint list \<Rightarrow> guard_settings
    \<Rightarrow> ('l, 'f) relation \<Rightarrow> (int \<Rightarrow> int option) \<Rightarrow> bool" where
  "spread_is_printed_one rd ms cfg rel closure \<longleftrightarrow>
     (\<forall>(p, q) \<in> set (pairs_of (sized ms)).
        \<bar>snd p - snd q\<bar> / max (snd p) (snd q) \<le> cluster_area_spread cfg \<or>
        same_closure (fst p) (fst q) closure \<or>
        (case (rel_listings rel (fst p), rel_listings rel (fst q)) of
           (Some a, Some b) \<Rightarrow> printed_areas_prevail rd a b
         | _ \<Rightarrow> False))"

datatype cluster_rule = Size | Category_type_rule | Compat_class | Area_spread
  | Disposition_rule | Floor_spread | Must_not_link | D43_distinguishable

definition flat_floor :: "fingerprint \<Rightarrow> int option" where
  "flat_floor m = (if fp_main m = Some FLAT_CATEGORY then fp_floor m else None)"

definition cluster_invariants_ok :: "('l, 'f) fact_reader \<Rightarrow> fingerprint list \<Rightarrow> guard_settings
    \<Rightarrow> (int \<times> int) set \<Rightarrow> ('l, 'f) relation option \<Rightarrow> (int \<Rightarrow> int option) \<Rightarrow> cluster_rule option" where
  "cluster_invariants_ok rd ms cfg must_not_link rel closure =
     (if int (length ms) > max_cluster_size cfg then Some Size
      else if card (known fp_type ms) > 1 then Some Category_type_rule
      else if \<exists>(a, b) \<in> set (pairs_of (sorted_list_of_set (known fp_main ms))).
                \<not> category_main_compatible (Some a) (Some b) then Some Compat_class
      else if apart (sized ms) closure (area_far (cluster_area_spread cfg))
              \<and> \<not> (d43_printed_area_prevails cfg
                    \<and> (case rel of None \<Rightarrow> False
                        | Some r \<Rightarrow> spread_is_printed_one rd ms cfg r closure))
           then Some Area_spread
      else if cluster_disposition cfg \<and> Some LAND_CATEGORY \<notin> fp_main ` set ms
              \<and> apart (stated fp_disposition ms) closure (\<noteq>) then Some Disposition_rule
      else if cluster_floor_spread cfg \<and> apart (stated flat_floor ms) closure (\<noteq>)
           then Some Floor_spread
      else if \<exists>(a, b) \<in> set (pairs_of (map fp_id ms)). pair_key a b \<in> must_not_link
           then Some Must_not_link
      else if (case rel of None \<Rightarrow> False
               | Some r \<Rightarrow> violating_pair rd r (map fp_id ms) \<noteq> None)
           then Some D43_distinguishable
      else None)"

subsection \<open>The extreme pair decides\<close>

text \<open>
  What the shortcut of \<open>_apart\<close> needs of a test: it is irreflexive and symmetric, and a pair
  further out is as far apart. \<open>good\<close> is the range of values the test is read on.
\<close>

definition far_pair :: "('v \<Rightarrow> 'v \<Rightarrow> bool) \<Rightarrow> (int \<times> 'v) list \<Rightarrow> (int \<Rightarrow> int option) \<Rightarrow> bool" where
  "far_pair far vals closure \<longleftrightarrow>
     (\<exists>(p, q) \<in> set (pairs_of vals). \<not> same_closure (fst p) (fst q) closure \<and> far (snd p) (snd q))"

locale extreme_test =
  fixes far :: "'v::linorder \<Rightarrow> 'v \<Rightarrow> bool"
    and good :: "'v \<Rightarrow> bool"
  assumes near_self: "good v \<Longrightarrow> \<not> far v v"
    and far_sym: "far v w \<longleftrightarrow> far w v"
    and far_out: "good m \<Longrightarrow> good M \<Longrightarrow> m \<le> v \<Longrightarrow> v \<le> w \<Longrightarrow> w \<le> M \<Longrightarrow> far v w \<Longrightarrow> far m M"

lemma closures_apart:
  "distinct (closure_keys closure vals) \<Longrightarrow>
   (p, q) \<in> set (pairs_of vals) \<Longrightarrow> \<not> same_closure (fst p) (fst q) closure"
proof (induction vals)
  case (Cons x xs)
  have "\<not> same_closure (fst x) (fst q) closure" if "q \<in> set xs"
  proof
    assume "same_closure (fst x) (fst q) closure"
    then obtain k where k: "closure (fst x) = Some k" "closure (fst q) = Some k"
      unfolding same_closure_def by (metis not_None_eq)
    then have "k \<in> set (closure_keys closure xs)" using that by (force simp: closure_keys_def)
    then show False using Cons.prems(1) k(1) by (simp add: closure_keys_def)
  qed
  moreover have "distinct (closure_keys closure xs)"
    using Cons.prems(1) by (auto simp: closure_keys_def split: if_splits)
  ultimately show ?case using Cons by auto
qed simp

context extreme_test begin

lemma apart_pairwise:
  assumes "\<forall>p \<in> set vals. good (snd p)"
  shows "apart vals closure far \<longleftrightarrow> far_pair far vals closure"
proof (cases "vals = [] \<or> \<not> distinct (closure_keys closure vals)")
  case True
  then have "vals = [] \<or> length (closure_keys closure vals) \<noteq> card (set (closure_keys closure vals))"
    using card_distinct by metis
  then show ?thesis by (auto simp: apart_def far_pair_def Let_def)
next
  case False
  let ?V = "snd ` set vals"
  have V: "finite ?V" "?V \<noteq> {}" using False by auto
  have d: "distinct (closure_keys closure vals)"
    using False by blast
  have same: "\<not> same_closure (fst p) (fst q) closure" if "(p, q) \<in> set (pairs_of vals)" for p q
    using closures_apart [OF d that] .
  have "far (Min ?V) (Max ?V) \<longleftrightarrow> far_pair far vals closure"
  proof
    assume far: "far (Min ?V) (Max ?V)"
    obtain p q where p: "p \<in> set vals" "snd p = Min ?V" and q: "q \<in> set vals" "snd q = Max ?V"
      using Min_in [OF V] Max_in [OF V] by auto
    have "p \<noteq> q" using far p q near_self assms by auto
    then have "(p, q) \<in> set (pairs_of vals) \<or> (q, p) \<in> set (pairs_of vals)"
      using p q by (intro pairs_of_cases)
    then show "far_pair far vals closure"
    proof
      assume pq: "(p, q) \<in> set (pairs_of vals)"
      then show ?thesis unfolding far_pair_def
        by (intro bexI [OF _ pq]) (use far p(2) q(2) same [OF pq] in \<open>simp add: case_prod_unfold\<close>)
    next
      assume qp: "(q, p) \<in> set (pairs_of vals)"
      then show ?thesis unfolding far_pair_def
        by (intro bexI [OF _ qp])
          (use far p(2) q(2) same [OF qp] far_sym [of "snd q"] in \<open>simp add: case_prod_unfold\<close>)
    qed
  next
    assume "far_pair far vals closure"
    then obtain i v j w where vw: "((i, v), (j, w)) \<in> set (pairs_of vals)" "far v w"
      unfolding far_pair_def by fastforce
    then have "v \<in> ?V" "w \<in> ?V" using pairs_of_memD [OF vw(1)] by force+
    moreover have "good (Min ?V)" "good (Max ?V)" using Min_in [OF V] Max_in [OF V] assms by auto
    ultimately show "far (Min ?V) (Max ?V)"
      using vw(2) far_sym V(1) far_out [of "Min ?V" "Max ?V" v w] far_out [of "Min ?V" "Max ?V" w v]
      by (cases "v \<le> w") auto
  qed
  moreover have "length (closure_keys closure vals) = card (set (closure_keys closure vals))"
    using distinct_card [OF d] by simp
  ultimately show ?thesis using False by (simp add: apart_def Let_def)
qed

lemma apart_subset:
  assumes "\<forall>p \<in> set xs. good (snd p)" and "set ys \<subseteq> set xs" and "distinct ys"
    and "\<not> apart xs closure far"
  shows "\<not> apart ys closure far"
proof -
  have "\<forall>(p, q) \<in> set (pairs_of ys). same_closure (fst p) (fst q) closure \<or> \<not> far (snd p) (snd q)"
  proof (rule pairs_of_subset_sym [OF assms(2,3)])
    show "(same_closure (fst p) (fst q) closure \<or> \<not> far (snd p) (snd q))
        = (same_closure (fst q) (fst p) closure \<or> \<not> far (snd q) (snd p))" for p q
      using far_sym [of "snd p" "snd q"] same_closure_sym [of "fst p" "fst q" closure] by simp
    show "\<forall>(p, q) \<in> set (pairs_of xs). same_closure (fst p) (fst q) closure \<or> \<not> far (snd p) (snd q)"
      using assms(1,4) by (auto simp: apart_pairwise far_pair_def)
  qed
  moreover have "\<forall>p \<in> set ys. good (snd p)" using assms(1,2) by blast
  ultimately show ?thesis by (auto simp: apart_pairwise far_pair_def)
qed

end

interpretation differ: extreme_test "(\<noteq>) :: 'v::linorder \<Rightarrow> 'v \<Rightarrow> bool" "\<lambda>_. True"
  by unfold_locales auto

lemma area_far_out:
  assumes "0 < m" "m \<le> v" "v \<le> w" "w \<le> M"
  shows "\<bar>w - v\<bar> / max v w \<le> \<bar>M - m\<bar> / max m (M :: rat)"
proof -
  have "0 < v" "0 < w" "0 < M" using assms by linarith+
  have "(w - v) / w = 1 - v / w" using \<open>0 < w\<close> by (simp add: diff_divide_distrib)
  also have "\<dots> \<le> 1 - m / M"
  proof -
    have "m / M \<le> m / w" using assms \<open>0 < w\<close> by (simp add: frac_le)
    also have "\<dots> \<le> v / w" using assms \<open>0 < w\<close> by (simp add: divide_right_mono)
    finally show ?thesis by simp
  qed
  also have "1 - m / M = (M - m) / M" using \<open>0 < M\<close> by (simp add: diff_divide_distrib)
  finally show ?thesis using assms by (simp add: max_def)
qed

interpretation areas: extreme_test "area_far (max 0 spread)" "\<lambda>v. 0 < v" for spread
proof
  show "\<not> area_far (max 0 spread) v v" for v by (simp add: area_far_def)
  show "area_far (max 0 spread) v w \<longleftrightarrow> area_far (max 0 spread) w v" for v w
    by (simp add: area_far_def abs_minus_commute max.commute)
  show "area_far (max 0 spread) m M"
    if "0 < m" "m \<le> v" "v \<le> w" "w \<le> M" "area_far (max 0 spread) v w" for m M v w
    using that area_far_out [OF that(1-4)] by (auto simp: area_far_def)
qed


text \<open>
  The shortcut of \<open>_apart\<close> is the pair-by-pair rule: for the area spread (with a
  non-negative spread and positive areas) and for the plain inequalities, reading the extreme
  pair alone finds two values of different closures that are far apart exactly when there are
  two.
\<close>

theorem apart_is_pairwise:
  assumes "0 \<le> spread" and "\<forall>p \<in> set sizes. 0 < snd p"
  shows "apart sizes closure (area_far spread)
      = (\<exists>(p, q) \<in> set (pairs_of sizes). \<not> same_closure (fst p) (fst q) closure \<and>
           area_far spread (snd p) (snd q)) \<and>
    apart (vals :: (int \<times> string) list) closure (\<noteq>)
      = (\<exists>(p, q) \<in> set (pairs_of vals). \<not> same_closure (fst p) (fst q) closure \<and> snd p \<noteq> snd q)"
  using areas.apart_pairwise [of sizes closure spread] differ.apart_pairwise [of vals closure] assms
  by (simp add: far_pair_def max_def)

theorem apart_is_pairwise_witness:
  "apart [(1, 50), (2, 52), (3, 60 :: rat)] (\<lambda>_. None) (area_far (8/100))
      = (\<exists>(p, q) \<in> set (pairs_of [(1, 50), (2, 52), (3, 60)]).
           \<not> same_closure (fst p) (fst q) (\<lambda>_. None) \<and> area_far (8/100) (snd p) (snd q)) \<and>
    apart [(1, ''2+kk''), (2, ''3+1'')] (\<lambda>i. if i < 3 then Some 1 else None) (\<noteq>) = False"
proof
  show "apart [(1, 50), (2, 52), (3, 60 :: rat)] (\<lambda>_. None) (area_far (8/100))
      = (\<exists>(p, q) \<in> set (pairs_of [(1, 50), (2, 52), (3, 60)]).
           \<not> same_closure (fst p) (fst q) (\<lambda>_. None) \<and> area_far (8/100) (snd p) (snd q))"
    using apart_is_pairwise [of "8/100" "[(1, 50), (2, 52), (3, 60)]" "\<lambda>_. None"] by simp
  show "apart [(1, ''2+kk''), (2, ''3+1'')] (\<lambda>i. if i < 3 then Some 1 else None) (\<noteq>) = False"
    by (simp add: apart_def closure_keys_def same_closure_def)
qed

subsection \<open>Taking members away\<close>

lemma known_subset: "set ys \<subseteq> set xs \<Longrightarrow> known f ys \<subseteq> known f xs"
  by (auto simp: known_def)

lemma finite_known [simp]: "finite (known f ms)"
  by (simp add: known_def)

lemma stated_subset: "set ys \<subseteq> set xs \<Longrightarrow> set (stated f ys) \<subseteq> set (stated f xs)"
  by (auto simp: stated_def)

lemma stated_distinct: "distinct (map fp_id ms) \<Longrightarrow> distinct (stated f ms)"
  by (auto simp: stated_def distinct_map inj_on_def)

lemma sized_subset: "set ys \<subseteq> set xs \<Longrightarrow> set (sized ys) \<subseteq> set (sized xs)"
  using stated_subset [of ys xs fp_area] by (auto simp: sized_def)

lemma sized_distinct: "distinct (map fp_id ms) \<Longrightarrow> distinct (sized ms)"
  by (simp add: sized_def stated_distinct)

lemma card_le_one_iff: "finite A \<Longrightarrow> card A \<le> 1 \<longleftrightarrow> (\<forall>a \<in> A. \<forall>b \<in> A. a = b)"
  by (simp add: card_le_Suc0_iff_eq)

lemma compatible_pairs:
  "(\<exists>(a, b) \<in> set (pairs_of (sorted_list_of_set A)). \<not> category_main_compatible (Some a) (Some b))
     = (\<exists>a \<in> A. \<exists>b \<in> A. \<not> category_main_compatible (Some a) (Some b))" if "finite A" for A
proof
  assume "\<exists>a \<in> A. \<exists>b \<in> A. \<not> category_main_compatible (Some a) (Some b)"
  then obtain a b where ab: "a \<in> A" "b \<in> A" "\<not> category_main_compatible (Some a) (Some b)" by blast
  then have "a \<noteq> b" by auto
  then have "(a, b) \<in> set (pairs_of (sorted_list_of_set A)) \<or> (b, a) \<in> set (pairs_of (sorted_list_of_set A))"
    using ab that by (intro pairs_of_cases) auto
  then show "\<exists>(a, b) \<in> set (pairs_of (sorted_list_of_set A)). \<not> category_main_compatible (Some a) (Some b)"
    using ab(3) category_main_compatible_sym by fastforce
next
  assume "\<exists>(a, b) \<in> set (pairs_of (sorted_list_of_set A)). \<not> category_main_compatible (Some a) (Some b)"
  then show "\<exists>a \<in> A. \<exists>b \<in> A. \<not> category_main_compatible (Some a) (Some b)"
    using that by (force dest!: pairs_of_memD)
qed

text \<open>The invariants as one conjunction, limb by limb.\<close>

definition spread_ok :: "('l, 'f) fact_reader \<Rightarrow> fingerprint list \<Rightarrow> guard_settings
    \<Rightarrow> ('l, 'f) relation option \<Rightarrow> (int \<Rightarrow> int option) \<Rightarrow> bool" where
  "spread_ok rd ms cfg rel closure \<longleftrightarrow>
     \<not> apart (sized ms) closure (area_far (cluster_area_spread cfg)) \<or>
     d43_printed_area_prevails cfg \<and> (case rel of None \<Rightarrow> False | Some r \<Rightarrow> spread_is_printed_one rd ms cfg r closure)"

lemma invariants_None:
  "cluster_invariants_ok rd ms cfg mnl rel closure = None \<longleftrightarrow>
     int (length ms) \<le> max_cluster_size cfg \<and>
     (\<forall>a \<in> known fp_type ms. \<forall>b \<in> known fp_type ms. a = b) \<and>
     (\<forall>a \<in> known fp_main ms. \<forall>b \<in> known fp_main ms. category_main_compatible (Some a) (Some b)) \<and>
     spread_ok rd ms cfg rel closure \<and>
     (cluster_disposition cfg \<longrightarrow> Some LAND_CATEGORY \<in> fp_main ` set ms
        \<or> \<not> apart (stated fp_disposition ms) closure (\<noteq>)) \<and>
     (cluster_floor_spread cfg \<longrightarrow> \<not> apart (stated flat_floor ms) closure (\<noteq>)) \<and>
     (\<forall>(a, b) \<in> set (pairs_of (map fp_id ms)). pair_key a b \<notin> mnl) \<and>
     (case rel of None \<Rightarrow> True | Some r \<Rightarrow> violating_pair rd r (map fp_id ms) = None)"
proof -
  have types: "\<not> 1 < card (known fp_type ms) \<longleftrightarrow>
      (\<forall>a \<in> known fp_type ms. \<forall>b \<in> known fp_type ms. a = b)"
    using card_le_one_iff [of "known fp_type ms"] by (simp add: not_less)
  show ?thesis
    unfolding cluster_invariants_ok_def compatible_pairs [OF finite_known] spread_ok_def types [symmetric]
    by (cases rel) (simp_all add: not_less case_prod_unfold del: not_None_eq, (blast | fastforce)+)
qed

text \<open>The printed-area excuse must not depend on which advert is read first.\<close>

definition printed_symmetric :: "('l, 'f) fact_reader \<Rightarrow> bool" where
  "printed_symmetric rd \<longleftrightarrow> (\<forall>a b. printed_areas_prevail rd a b = printed_areas_prevail rd b a)"

lemma spread_is_printed_subset:
  assumes "printed_symmetric rd" and "set ys \<subseteq> set xs" and "distinct (map fp_id ys)"
    and "spread_is_printed_one rd xs cfg rel closure"
  shows "spread_is_printed_one rd ys cfg rel closure"
proof -
  let ?P = "\<lambda>p q. \<bar>snd p - snd q\<bar> / max (snd p) (snd q) \<le> cluster_area_spread cfg \<or>
      same_closure (fst p) (fst q) closure \<or>
      (case (rel_listings rel (fst p), rel_listings rel (fst q)) of
         (Some a, Some b) \<Rightarrow> printed_areas_prevail rd a b | _ \<Rightarrow> False)"
  have "\<forall>(p, q) \<in> set (pairs_of (sized ys)). ?P p q"
  proof (rule pairs_of_subset_sym [OF sized_subset [OF assms(2)] sized_distinct [OF assms(3)]])
    show "?P p q = ?P q p" for p q
      using assms(1) same_closure_sym [of "fst p" "fst q" closure]
      by (auto simp: printed_symmetric_def abs_minus_commute max.commute split: option.splits)
    show "\<forall>(p, q) \<in> set (pairs_of (sized xs)). ?P p q"
      using assms(4) unfolding spread_is_printed_one_def .
  qed
  then show ?thesis unfolding spread_is_printed_one_def .
qed

lemma spread_ok_subset:
  assumes "0 < cluster_area_spread cfg" and "printed_symmetric rd"
    and "set ys \<subseteq> set xs" and "distinct (map fp_id ys)" and "spread_ok rd xs cfg rel closure"
  shows "spread_ok rd ys cfg rel closure"
proof -
  have "\<not> apart (sized ys) closure (area_far (cluster_area_spread cfg))"
    if "\<not> apart (sized xs) closure (area_far (cluster_area_spread cfg))"
    using areas.apart_subset [of "sized xs" "sized ys" closure "cluster_area_spread cfg"]
      sized_subset [OF assms(3)] sized_distinct [OF assms(4)] assms(1) that
    by (simp add: max_def sized_def)
  then show ?thesis
    using assms(5) spread_is_printed_subset [OF assms(2-4)]
    by (auto simp: spread_ok_def split: option.splits)
qed

lemma pairs_of_ids_subset:
  assumes "set ys \<subseteq> set xs" and "distinct (map fp_id ys)"
    and "\<forall>(a, b) \<in> set (pairs_of (map fp_id xs)). pair_key a b \<notin> mnl"
  shows "\<forall>(a, b) \<in> set (pairs_of (map fp_id ys)). pair_key a b \<notin> mnl"
proof (rule pairs_of_subset_sym [OF _ assms(2) _ assms(3)])
  show "set (map fp_id ys) \<subseteq> set (map fp_id xs)" using assms(1) by auto
qed (simp add: pair_key_sym)

lemma apart_stated_subset:
  assumes "set ys \<subseteq> set xs" and "distinct (map fp_id ys)"
    and "\<not> apart (stated f xs) closure (\<noteq>)"
  shows "\<not> apart (stated f ys) closure (\<noteq>)"
  by (rule differ.apart_subset [OF _ stated_subset [OF assms(1)] stated_distinct [OF assms(2)] assms(3)])
    simp

text \<open>
  A member set the invariants accept stays acceptable when members leave it, as long as the
  layout limb is off (or no member was land to begin with).
\<close>

lemma invariants_closed:
  assumes cfg: "guard_settings_ok cfg" and sym: "printed_symmetric rd"
    and land: "\<not> cluster_disposition cfg \<or> Some LAND_CATEGORY \<notin> fp_main ` set xs
      \<or> Some LAND_CATEGORY \<in> fp_main ` set ys"
    and sub: "set ys \<subseteq> set xs" and d: "distinct (map fp_id ys)"
    and ok: "cluster_invariants_ok rd xs cfg mnl rel closure = None"
  shows "cluster_invariants_ok rd ys cfg mnl rel closure = None"
proof -
  note xs = ok [unfolded invariants_None]
  have "distinct ys" using d by (simp add: distinct_map)
  then have "length ys \<le> length xs"
    using card_mono [OF _ sub] card_length [of xs] distinct_card [of ys] by simp
  then have 1: "int (length ys) \<le> max_cluster_size cfg" using xs by linarith
  have 2: "\<forall>a \<in> known fp_type ys. \<forall>b \<in> known fp_type ys. a = b"
    using xs known_subset [OF sub, of fp_type] by blast
  have 3: "\<forall>a \<in> known fp_main ys. \<forall>b \<in> known fp_main ys. category_main_compatible (Some a) (Some b)"
    using xs known_subset [OF sub, of fp_main] by blast
  have 4: "spread_ok rd ys cfg rel closure"
    using spread_ok_subset [OF _ sym sub d] cfg xs by (simp add: guard_settings_ok_def)
  note 5 = apart_stated_subset [OF sub d, of _ closure]
  have 6: "\<forall>(a, b) \<in> set (pairs_of (map fp_id ys)). pair_key a b \<notin> mnl"
    using pairs_of_ids_subset [OF sub d] xs by blast
  have 7: "violating_pair rd r (map fp_id ys) = None" if "rel = Some r" for r
    using violating_pair_subset [of rd r "map fp_id xs" "map fp_id ys"] sub d xs that by auto
  have 8: "cluster_disposition cfg \<longrightarrow> Some LAND_CATEGORY \<in> fp_main ` set ys
      \<or> \<not> apart (stated fp_disposition ys) closure (\<noteq>)"
    using xs land 5 [of fp_disposition] by blast
  show ?thesis
    unfolding invariants_None using 1 2 3 4 5 [of flat_floor] 6 7 8 xs
    by (simp split: option.split)
qed

text \<open>The order of the members does not matter.\<close>

lemma invariants_perm:
  assumes "guard_settings_ok cfg" and "printed_symmetric rd" and "set ys = set xs"
    and "distinct (map fp_id ys)" and "cluster_invariants_ok rd xs cfg mnl rel closure = None"
  shows "cluster_invariants_ok rd ys cfg mnl rel closure = None"
  by (rule invariants_closed [OF assms(1,2) _ _ assms(4,5)]) (use assms(3) in auto)

text \<open>
  The invariants of a member set are closed under taking members away, with the layout
  limb off: what the partition relies on.
\<close>

theorem invariants_monotone:
  assumes "guard_settings_ok cfg" and "printed_symmetric rd" and "\<not> cluster_disposition cfg"
    and "set ys \<subseteq> set xs" and "distinct (map fp_id ys)"
    and "cluster_invariants_ok rd xs cfg mnl rel closure = None"
  shows "cluster_invariants_ok rd ys cfg mnl rel closure = None"
  using invariants_closed [OF assms(1,2) _ assms(4-6)] assms(3) by blast

definition side_of :: "int \<Rightarrow> string \<Rightarrow> string option \<Rightarrow> fingerprint" where
  "side_of i main disposition = \<lparr>fp_id = i, fp_type = Some ''prodej'', fp_main = Some main,
     fp_area = Some 120, fp_disposition = disposition, fp_floor = None\<rparr>"

definition house_and_land :: "fingerprint list" where
  "house_and_land = [side_of 1 ''dum'' (Some ''4+1''), side_of 2 ''dum'' (Some ''5+1''),
                     side_of 3 ''pozemek'' None]"

lemma price_reader_printed: "printed_symmetric price_reader"
  by (auto simp: printed_symmetric_def price_reader_def)

theorem invariants_monotone_witness:
  "cluster_invariants_ok price_reader (take 2 house_and_land)
     (default_guard_settings\<lparr>cluster_disposition := False\<rparr>) {} None (\<lambda>_. None) = None"
proof (rule invariants_monotone [where xs = house_and_land])
  show "guard_settings_ok (default_guard_settings\<lparr>cluster_disposition := False\<rparr>)"
    by (simp add: guard_settings_ok_def default_guard_settings_def)
  show "cluster_invariants_ok price_reader house_and_land
     (default_guard_settings\<lparr>cluster_disposition := False\<rparr>) {} None (\<lambda>_. None) = None"
    by code_simp
qed (simp_all add: house_and_land_def side_of_def price_reader_printed)

text \<open>
  With the layout limb on (the default) the invariants are not closed: a plot of land
  switches the limb off for the set it is in, so two houses of different layouts are acceptable
  with it and unacceptable once it leaves.
\<close>

theorem invariants_not_monotone:
  "cluster_invariants_ok price_reader house_and_land default_guard_settings {} None (\<lambda>_. None) = None \<and>
   cluster_invariants_ok price_reader (take 2 house_and_land) default_guard_settings {} None (\<lambda>_. None)
     = Some Disposition_rule"
  by code_simp

end
