(* ===== verification/Cluster.thy ===== *)
theory Cluster
  imports Guards
begin

text \<open>
  \<open>autodedup/cluster.py\<close>: merge decisions to validated clusters. Two passes share their guards:
  the constrained union-find (\<open>_UnionFind\<close>, with recorded bridges re-offered once) and the
  repartition of the contracted merge graph. A dictionary is an association list; the union-find
  object is the record \<open>uf\<close>, threaded through the calls that mutate it; \<open>None\<close> of a pass is a
  \<open>KeyError\<close> (or a \<open>find\<close> that would not return), which the lemmas show never happens.
\<close>

datatype conflict_reason = Broken cluster_rule | Repartition_cut | Bridge_score | Redundant

datatype node_rule = Guard cluster_rule | D43_strict

record decision =
  d_lo :: int
  d_hi :: int
  d_score :: rat
  d_certificate :: "string option"
  d_zone :: string
  d_families :: "string list"

record cluster_settings =
  cs_guard :: guard_settings
  bridge_apply :: bool
  bridge_min_score :: rat
  repartition :: bool
  repartition_max_rounds :: int
  repartition_keep_factless :: bool
  repartition_rejoin_cells :: bool
  repartition_shed_blockers :: bool
  repartition_shed_max :: int
  repartition_shed_max_union :: int
  repartition_outer_rounds :: int
  repartition_shed_factless_guard :: string
  repartition_reconcile_factless_first :: bool

text \<open>A truthy string: there, and not empty.\<close>

definition truthy :: "string option \<Rightarrow> bool" where
  "truthy c = (case c of None \<Rightarrow> False | Some s \<Rightarrow> s \<noteq> [])"

definition edge_rank :: "decision \<Rightarrow> nat \<times> rat \<times> int \<times> int" where
  "edge_rank d = (if truthy (d_certificate d) then 0 else 1, - d_score d, d_lo d, d_hi d)"

section \<open>The union-find\<close>

record uf =
  parent :: parents
  groups :: "(int, int list) dict"

definition empty_uf :: uf where
  "empty_uf = \<lparr>parent = [], groups = []\<rparr>"

text \<open>\<^verbatim>\<open>if item not in self.parent: self.parent[item] = item; self.groups[item] = [item]\<close>\<close>

definition uf_admit :: "int \<Rightarrow> uf \<Rightarrow> uf" where
  "uf_admit x s =
     (if map_of (parent s) x = None
      then \<lparr>parent = AList.update x x (parent s), groups = AList.update x [x] (groups s)\<rparr>
      else s)"

text \<open>The walk of \<open>find\<close> on a known item, with its last assignment \<^verbatim>\<open>parent[item] = root\<close>.\<close>

definition uf_walk :: "int \<Rightarrow> parents \<Rightarrow> (parents \<times> int) option" where
  "uf_walk x d = map_option (\<lambda>(d', r). (AList.update x r d', r)) (find_root d (parent_of d x))"

definition uf_find :: "int \<Rightarrow> uf \<Rightarrow> (uf \<times> int) option" where
  "uf_find x s =
     (let s' = uf_admit x s
      in map_option (\<lambda>(d, r). (s'\<lparr>parent := d\<rparr>, r)) (uf_walk x (parent s')))"

definition uf_add :: "int \<Rightarrow> uf \<Rightarrow> (uf \<times> int) option" where
  "uf_add x s = uf_find x (uf_admit x s)"

definition uf_members :: "uf \<Rightarrow> int \<Rightarrow> int list" where
  "uf_members s r = sort (case map_of (groups s) r of None \<Rightarrow> [] | Some ms \<Rightarrow> ms)"

definition uf_union :: "int \<Rightarrow> int \<Rightarrow> uf \<Rightarrow> (uf \<times> int) option" where
  "uf_union left right s =
     Option.bind (uf_find left s) (\<lambda>(s1, a).
     Option.bind (uf_find right s1) (\<lambda>(s2, b).
       if a = b then Some (s2, a)
       else let keeper = min a b; loser = max a b
            in case (map_of (groups s2) keeper, map_of (groups s2) loser) of
                 (Some ks, Some ls) \<Rightarrow>
                   Some (\<lparr>parent = AList.update loser keeper (parent s2),
                          groups = AList.update keeper (ks @ ls) (AList.delete loser (groups s2))\<rparr>, keeper)
               | _ \<Rightarrow> None))"

section \<open>The must-link closures\<close>

text \<open>\<open>find\<close> of \<open>must_link_closures\<close>: \<^verbatim>\<open>root = parent.setdefault(item, item)\<close>, then the walk.\<close>

definition closure_find :: "int \<Rightarrow> parents \<Rightarrow> (parents \<times> int) option" where
  "closure_find x d = (let d' = setdefault x d in find_root d' (parent_of d' x))"

definition links :: "(int \<Rightarrow> bool) \<Rightarrow> (int \<times> int) list \<Rightarrow> (int \<times> int) list" where
  "links readable must_link = filter (\<lambda>(lo, hi). lo \<noteq> hi \<and> readable lo \<and> readable hi) (sort must_link)"

definition must_link_closures :: "(int \<Rightarrow> bool) \<Rightarrow> (int \<times> int) list \<Rightarrow> (int, int list) dict option" where
  "must_link_closures readable must_link =
     Option.bind (foldM (union_by closure_find) (links readable must_link) []) (\<lambda>d.
     map_option (\<lambda>out. filter (\<lambda>(_, ms). length ms > 1)
                         (map (\<lambda>(k, g). (k, sort g)) (sort_key fst out)))
       (group_roots closure_find (map fst d) d []))"

text \<open>\<^verbatim>\<open>{member: key for key, members in closures.items() for member in members}\<close>\<close>

definition closure_map :: "(int, int list) dict \<Rightarrow> int \<Rightarrow> int option" where
  "closure_map closures =
     map_of (fold (\<lambda>(m, k). AList.update m k)
       (concat (map (\<lambda>(k, ms). map (\<lambda>m. (m, k)) ms) closures)) [])"

record dissolved_closure =
  dc_lo :: int
  dc_hi :: int
  dc_invariant :: cluster_rule
  dc_members :: "int list"
  dc_must_link :: "(int \<times> int) list"

definition fps_of :: "(int \<Rightarrow> fingerprint option) \<Rightarrow> int list \<Rightarrow> fingerprint list" where
  "fps_of fps ms = map (\<lambda>m. the (fps m)) (filter (\<lambda>m. fps m \<noteq> None) ms)"

definition judge_closure :: "('l, 'f) fact_reader \<Rightarrow> (int \<Rightarrow> fingerprint option) \<Rightarrow> guard_settings
    \<Rightarrow> (int \<times> int) set \<Rightarrow> int \<times> int list \<Rightarrow> cluster_rule option" where
  "judge_closure rd fps cfg must_not_link = (\<lambda>(key, ms).
     cluster_invariants_ok rd (fps_of fps ms) cfg must_not_link None
       (\<lambda>m. if m \<in> set ms then Some key else None))"

definition valid_closures :: "('l, 'f) fact_reader \<Rightarrow> (int \<Rightarrow> fingerprint option) \<Rightarrow> guard_settings
    \<Rightarrow> (int \<times> int) set \<Rightarrow> (int \<times> int) list
    \<Rightarrow> ((int, int list) dict \<times> dissolved_closure list) option" where
  "valid_closures rd fps cfg must_not_link must_link =
     map_option (\<lambda>closures.
       (filter (\<lambda>c. judge_closure rd fps cfg must_not_link c = None) closures,
        map (\<lambda>(key, ms). \<lparr>dc_lo = hd ms, dc_hi = last ms,
               dc_invariant = the (judge_closure rd fps cfg must_not_link (key, ms)), dc_members = ms,
               dc_must_link = filter (\<lambda>(lo, hi). lo \<noteq> hi \<and> lo \<in> set ms \<and> hi \<in> set ms) (sort must_link)\<rparr>)
          (filter (\<lambda>c. judge_closure rd fps cfg must_not_link c \<noteq> None) closures)))
       (must_link_closures (\<lambda>m. fps m \<noteq> None) must_link)"

section \<open>Conflicts\<close>

record conflict =
  c_lo :: int
  c_hi :: int
  c_score :: rat
  c_certificate :: "string option"
  c_invariant :: conflict_reason
  c_members :: "int list"
  c_families :: "string list"
  c_pair :: "(int \<times> int) option"

definition refusing_pair :: "('l, 'f) fact_reader \<Rightarrow> conflict_reason \<Rightarrow> ('l, 'f) relation option
    \<Rightarrow> int list \<Rightarrow> (int \<times> int) option" where
  "refusing_pair rd reason rel ms =
     (if reason \<noteq> Broken D43_distinguishable then None
      else case rel of None \<Rightarrow> None | Some r \<Rightarrow> violating_pair rd r ms)"

definition conflict_row :: "('l, 'f) fact_reader \<Rightarrow> ('l, 'f) relation option \<Rightarrow> decision
    \<Rightarrow> conflict_reason \<Rightarrow> int list \<Rightarrow> int list \<Rightarrow> conflict" where
  "conflict_row rd rel d reason ms read =
     \<lparr>c_lo = d_lo d, c_hi = d_hi d, c_score = d_score d, c_certificate = d_certificate d,
      c_invariant = reason, c_members = ms, c_families = sort (d_families d),
      c_pair = refusing_pair rd reason rel read\<rparr>"

section \<open>Bridges\<close>

record bridge =
  b_lo :: int
  b_hi :: int
  b_score :: rat
  b_certificate :: "string option"
  b_families :: "string list"
  b_left_cluster :: int
  b_right_cluster :: int
  b_left_members :: "int list"
  b_right_members :: "int list"
  b_applied :: bool
  b_invariant :: "conflict_reason option"

definition bridge_rank :: "bridge \<Rightarrow> nat \<times> rat \<times> int \<times> int" where
  "bridge_rank b = (if truthy (b_certificate b) then 0 else 1, - b_score b, b_lo b, b_hi b)"

text \<open>One bridge re-offered: the union-find, the rows so far with this one updated.\<close>

definition apply_bridge :: "('l, 'f) fact_reader \<Rightarrow> (int \<Rightarrow> fingerprint option) \<Rightarrow> cluster_settings
    \<Rightarrow> (int \<times> int) set \<Rightarrow> ('l, 'f) relation option \<Rightarrow> (int \<Rightarrow> int option)
    \<Rightarrow> bridge \<Rightarrow> uf \<times> bridge list \<Rightarrow> (uf \<times> bridge list) option" where
  "apply_bridge rd fps cfg mnl rel closure b = (\<lambda>(s, rows).
     if \<not> (truthy (b_certificate b) \<or> b_score b \<ge> bridge_min_score cfg)
     then Some (s, rows @ [b\<lparr>b_invariant := Some Bridge_score\<rparr>])
     else Option.bind (uf_find (b_lo b) s) (\<lambda>(s1, root_lo).
          Option.bind (uf_find (b_hi b) s1) (\<lambda>(s2, root_hi).
            if root_lo = root_hi then Some (s2, rows @ [b\<lparr>b_invariant := Some Redundant\<rparr>])
            else case cluster_invariants_ok rd
                        (fps_of fps (uf_members s2 root_lo @ uf_members s2 root_hi))
                        (cs_guard cfg) mnl rel closure of
                   Some rule \<Rightarrow> Some (s2, rows @ [b\<lparr>b_invariant := Some (Broken rule)\<rparr>])
                 | None \<Rightarrow> map_option (\<lambda>(s3, _). (s3, rows @ [b\<lparr>b_applied := True\<rparr>]))
                             (uf_union root_lo root_hi s2))))"

text \<open>
  The rows come back in \<open>bridge_rank\<close>'s order, the order \<open>cluster_pairs\<close> recorded them in.
\<close>

definition apply_bridges :: "('l, 'f) fact_reader \<Rightarrow> (int \<Rightarrow> fingerprint option) \<Rightarrow> cluster_settings
    \<Rightarrow> (int \<times> int) set \<Rightarrow> ('l, 'f) relation option \<Rightarrow> (int \<Rightarrow> int option)
    \<Rightarrow> bridge list \<Rightarrow> uf \<Rightarrow> (uf \<times> bridge list) option" where
  "apply_bridges rd fps cfg mnl rel closure bridges s =
     (if \<not> bridge_apply cfg then Some (s, bridges)
      else foldM (apply_bridge rd fps cfg mnl rel closure) (sort_key bridge_rank bridges) (s, []))"

section \<open>The repartition\<close>

definition node :: "(int, int list) dict \<Rightarrow> int \<Rightarrow> int" where
  "node closures i = (case closure_map closures i of None \<Rightarrow> i | Some k \<Rightarrow> k)"

definition expand :: "(int, int list) dict \<Rightarrow> int list \<Rightarrow> int list" where
  "expand closures ns =
     sort (concat (map (\<lambda>n. case map_of closures n of None \<Rightarrow> [n] | Some ms \<Rightarrow> ms) ns))"

definition contract :: "(int, int list) dict \<Rightarrow> decision list \<Rightarrow> decision list" where
  "contract closures es =
     concat (map (\<lambda>d. let left = node closures (d_lo d); right = node closures (d_hi d)
                       in if left = right then []
                          else if (left, right) \<noteq> (d_lo d, d_hi d)
                               then [d\<lparr>d_lo := min left right, d_hi := max left right\<rparr>]
                               else [d]) es)"

definition node_invariants :: "('l, 'f) fact_reader \<Rightarrow> (int \<Rightarrow> fingerprint option) \<Rightarrow> guard_settings
    \<Rightarrow> (int \<times> int) set \<Rightarrow> ('l, 'f) relation option \<Rightarrow> (int, int list) dict
    \<Rightarrow> int list \<Rightarrow> node_rule option" where
  "node_invariants rd fps cfg mnl rel closures ns =
     map_option Guard (cluster_invariants_ok rd (fps_of fps (expand closures ns)) cfg mnl rel
                         (closure_map closures))"

definition node_blockers :: "('l, 'f) fact_reader \<Rightarrow> (int \<times> int) set \<Rightarrow> ('l, 'f) relation option
    \<Rightarrow> (int, int list) dict \<Rightarrow> int list \<Rightarrow> (int \<times> int) list" where
  "node_blockers rd mnl rel closures ns =
     sort (remdups (map (\<lambda>(left, right). let a = node closures left; b = node closures right
                                          in (min a b, max a b))
       (filter (\<lambda>(left, right). node closures left \<noteq> node closures right \<and>
            ((left, right) \<in> mnl \<or> (case rel of None \<Rightarrow> False | Some r \<Rightarrow> \<not> rel_ok rd r left right)))
          (pairs_of (expand closures ns)))))"

definition node_strict :: "('l, 'f) fact_reader \<Rightarrow> (int \<Rightarrow> fingerprint option) \<Rightarrow> cluster_settings
    \<Rightarrow> (int \<times> int) set \<Rightarrow> ('l, 'f) relation option \<Rightarrow> (int, int list) dict
    \<Rightarrow> int list \<Rightarrow> node_rule option" where
  "node_strict rd fps cfg mnl rel closures ns =
     (case node_invariants rd fps (cs_guard cfg) mnl rel closures ns of
        Some broken \<Rightarrow> Some broken
      | None \<Rightarrow>
          (case (if repartition_rejoin_cells cfg then rel else None) of
             None \<Rightarrow> None
           | Some r \<Rightarrow> if violating_pair rd (strict r) (expand closures ns) \<noteq> None
                       then Some D43_strict else None))"

definition graph_edge :: "decision \<Rightarrow> edge" where
  "graph_edge d = \<lparr>elo = d_lo d, ehi = d_hi d, escore = d_score d,
                   ecert = (d_certificate d \<noteq> None)\<rparr>"

definition partition_settings :: "('l, 'f) fact_reader \<Rightarrow> (int \<Rightarrow> fingerprint option)
    \<Rightarrow> cluster_settings \<Rightarrow> (int \<times> int) set \<Rightarrow> ('l, 'f) relation option \<Rightarrow> (int, int list) dict
    \<Rightarrow> node_rule partition_opts" where
  "partition_settings rd fps cfg mnl rel closures =
     \<lparr>max_rounds = repartition_max_rounds cfg,
      keep_factless = repartition_keep_factless cfg,
      rejoin_cells = repartition_rejoin_cells cfg,
      rejoin_invariants = Some (node_strict rd fps cfg mnl rel closures),
      shed_blockers = (if repartition_shed_blockers cfg
                       then Some (node_blockers rd mnl rel closures) else None),
      shed_max = repartition_shed_max cfg,
      shed_max_union = repartition_shed_max_union cfg,
      outer_rounds = repartition_outer_rounds cfg,
      shed_factless_guard = repartition_shed_factless_guard cfg,
      reconcile_factless_first = repartition_reconcile_factless_first cfg\<rparr>"

text \<open>One component: whole when its members hold together, else cut. Counts the cut ones.\<close>

definition cut_component :: "('l, 'f) fact_reader \<Rightarrow> (int \<Rightarrow> fingerprint option)
    \<Rightarrow> cluster_settings \<Rightarrow> (int \<times> int) set \<Rightarrow> ('l, 'f) relation option \<Rightarrow> (int, int list) dict
    \<Rightarrow> edge list \<Rightarrow> int list \<Rightarrow> (int, int list) dict \<times> nat \<Rightarrow> ((int, int list) dict \<times> nat) option" where
  "cut_component rd fps cfg mnl rel closures graph component = (\<lambda>(grouped, n_cut).
     let invs = node_invariants rd fps (cs_guard cfg) mnl rel closures;
         place = fold (\<lambda>c g. AList.update (Min (set (expand closures c))) (expand closures c) g)
     in if invs component = None then Some (place [component] grouped, n_cut)
        else map_option (\<lambda>cs. (place cs grouped, n_cut + 1))
               (partition_cells component
                  (filter (\<lambda>e. elo e \<in> set component \<and> ehi e \<in> set component) graph)
                  invs (partition_settings rd fps cfg mnl rel closures)))"

definition repartition_clusters :: "('l, 'f) fact_reader \<Rightarrow> decision list
    \<Rightarrow> (int \<Rightarrow> fingerprint option) \<Rightarrow> cluster_settings \<Rightarrow> (int \<times> int) set
    \<Rightarrow> ('l, 'f) relation option \<Rightarrow> (int, int list) dict
    \<Rightarrow> ((int, int list) dict \<times> conflict list \<times> nat) option" where
  "repartition_clusters rd es fps cfg mnl rel closures =
     (let contracted = contract closures es;
          graph = map graph_edge contracted;
          touched = concat (map (\<lambda>d. [d_lo d, d_hi d]) contracted);
          nodes = sorted_list_of_set (set touched \<union> set (filter (\<lambda>k. k \<notin> set touched) (map fst closures)))
      in Option.bind (components nodes graph) (\<lambda>cs.
         map_option (\<lambda>(grouped, n_cut).
           let membership = closure_map grouped;
               held = (\<lambda>i. case membership i of None \<Rightarrow> [i]
                         | Some k \<Rightarrow> (case map_of grouped k of None \<Rightarrow> [i] | Some ms \<Rightarrow> ms));
               refused = filter (\<lambda>d. membership (d_lo d) \<noteq> membership (d_hi d)) es
           in (grouped,
               map (\<lambda>d. let ms = sorted_list_of_set (set (held (d_lo d)) \<union> set (held (d_hi d)));
                            reason = (case cluster_invariants_ok rd (fps_of fps ms) (cs_guard cfg) mnl rel
                                              (closure_map closures) of
                                        Some rule \<Rightarrow> Broken rule | None \<Rightarrow> Repartition_cut)
                        in conflict_row rd rel d reason ms ms) refused,
               n_cut))
         (foldM (cut_component rd fps cfg mnl rel closures graph) cs ([], 0))))"

section \<open>The constrained union-find\<close>

record pass =
  p_uf :: uf
  p_conflicts :: "conflict list"
  p_bridges :: "bridge list"
  p_accepted :: nat
  p_redundant :: nat

definition bridge_row :: "decision \<Rightarrow> int \<Rightarrow> int \<Rightarrow> int list \<Rightarrow> int list \<Rightarrow> bridge" where
  "bridge_row d root_lo root_hi left right =
     \<lparr>b_lo = d_lo d, b_hi = d_hi d, b_score = d_score d, b_certificate = d_certificate d,
      b_families = sort (d_families d), b_left_cluster = root_lo, b_right_cluster = root_hi,
      b_left_members = left, b_right_members = right, b_applied = False, b_invariant = None\<rparr>"

definition offer_edge :: "('l, 'f) fact_reader \<Rightarrow> (int \<Rightarrow> fingerprint option) \<Rightarrow> guard_settings
    \<Rightarrow> (int \<times> int) set \<Rightarrow> ('l, 'f) relation option \<Rightarrow> (int \<Rightarrow> int option)
    \<Rightarrow> decision \<Rightarrow> pass \<Rightarrow> pass option" where
  "offer_edge rd fps cfg mnl rel closure d p =
     Option.bind (uf_find (d_lo d) (p_uf p)) (\<lambda>(s1, root_lo).
     Option.bind (uf_find (d_hi d) s1) (\<lambda>(s2, root_hi).
       let left = uf_members s2 root_lo; right = uf_members s2 root_hi; p2 = p\<lparr>p_uf := s2\<rparr>
       in if root_lo = root_hi
          then Some (p2\<lparr>p_accepted := p_accepted p + 1, p_redundant := p_redundant p + 1\<rparr>)
          else if length left > 1 \<and> length right > 1
          then Some (p2\<lparr>p_bridges := p_bridges p @ [bridge_row d root_lo root_hi left right]\<rparr>)
          else case cluster_invariants_ok rd (fps_of fps (left @ right)) cfg mnl rel closure of
                 Some rule \<Rightarrow>
                   Some (p2\<lparr>p_conflicts := p_conflicts p
                     @ [conflict_row rd rel d (Broken rule) (sort (left @ right)) (left @ right)]\<rparr>)
               | None \<Rightarrow>
                   map_option (\<lambda>(s3, _). p2\<lparr>p_uf := s3, p_accepted := p_accepted p + 1\<rparr>)
                     (uf_union root_lo root_hi s2)))"

section \<open>The whole clustering\<close>

record cluster_stats =
  n_merge_edges :: nat
  n_edges_applied :: int
  n_edges_redundant :: nat
  n_edges_refused :: nat
  n_bridges_applied :: nat
  n_bridges_refused :: nat
  n_components_repartitioned :: nat
  n_must_not_link :: nat
  n_clusters :: nat
  n_clustered_listings :: nat
  size_histogram :: "(nat \<times> nat) list"
  max_size :: nat
  mean_size :: rat
  conflicts_by_invariant :: "(string \<times> nat) list"
  n_must_link :: "(nat \<times> nat) option"

definition rule_name :: "cluster_rule \<Rightarrow> string" where
  "rule_name r = (case r of Size \<Rightarrow> ''size'' | Category_type_rule \<Rightarrow> ''category_type''
     | Compat_class \<Rightarrow> ''compat_class'' | Area_spread \<Rightarrow> ''area_spread''
     | Disposition_rule \<Rightarrow> ''disposition'' | Floor_spread \<Rightarrow> ''floor_spread''
     | Must_not_link \<Rightarrow> ''must_not_link'' | D43_distinguishable \<Rightarrow> ''d43_distinguishable'')"

definition reason_name :: "conflict_reason \<Rightarrow> string" where
  "reason_name r = (case r of Broken rule \<Rightarrow> rule_name rule | Repartition_cut \<Rightarrow> ''repartition''
     | Bridge_score \<Rightarrow> ''bridge_score'' | Redundant \<Rightarrow> ''redundant'')"

text \<open>\<^verbatim>\<open>for x in xs: d[x] = d.get(x, 0) + 1\<close>, then sorted by key.\<close>

definition histogram :: "'k::linorder list \<Rightarrow> ('k \<times> nat) list" where
  "histogram xs = sort_key fst (fold (\<lambda>x d. AList.update x
      (case map_of d x of None \<Rightarrow> 1 | Some n \<Rightarrow> n + 1) d) xs [])"

definition stats_of :: "(int, int list) dict \<Rightarrow> conflict list \<Rightarrow> (int \<times> int) set \<Rightarrow> nat \<Rightarrow> int \<Rightarrow> nat
    \<Rightarrow> nat \<Rightarrow> nat \<Rightarrow> nat \<Rightarrow> (nat \<times> nat) option \<Rightarrow> cluster_stats" where
  "stats_of clusters conflicts mnl merge applied redundant bridged unbridged n_cut linked =
     (let sizes = map (length \<circ> snd) clusters
      in \<lparr>n_merge_edges = merge, n_edges_applied = applied, n_edges_redundant = redundant,
          n_edges_refused = length conflicts, n_bridges_applied = bridged,
          n_bridges_refused = unbridged, n_components_repartitioned = n_cut,
          n_must_not_link = card mnl, n_clusters = length clusters,
          n_clustered_listings = sum_list sizes, size_histogram = histogram sizes,
          max_size = (if sizes = [] then 0 else Max (set sizes)),
          mean_size = (if sizes = [] then 0 else of_nat (sum_list sizes) / of_nat (length sizes)),
          conflicts_by_invariant = histogram (map (reason_name \<circ> c_invariant) conflicts),
          n_must_link = linked\<rparr>)"

record cluster_result =
  r_clusters :: "(int, int list) dict"
  r_conflicts :: "conflict list"
  r_stats :: cluster_stats
  r_bridges :: "bridge list"
  r_dissolved :: "dissolved_closure list"

definition cluster_of :: "cluster_result \<Rightarrow> int \<Rightarrow> int option" where
  "cluster_of res i = map_option fst (find (\<lambda>(_, ms). i \<in> set ms) (r_clusters res))"

definition multi :: "(int, int list) dict \<Rightarrow> (int, int list) dict" where
  "multi grouped = filter (\<lambda>(_, ms). length ms > 1) (sort_key fst grouped)"

definition link_closure :: "int list \<Rightarrow> uf \<Rightarrow> uf option" where
  "link_closure ms s = foldM (\<lambda>m s. map_option fst (uf_union (hd ms) m s)) ms s"

definition union_find_pass :: "('l, 'f) fact_reader \<Rightarrow> (int \<Rightarrow> fingerprint option)
    \<Rightarrow> cluster_settings \<Rightarrow> (int \<times> int) set \<Rightarrow> ('l, 'f) relation option
    \<Rightarrow> (int, int list) dict \<Rightarrow> decision list \<Rightarrow> (pass \<times> bridge list) option" where
  "union_find_pass rd fps cfg mnl rel closures es =
     Option.bind (foldM (\<lambda>d s. Option.bind (uf_add (d_lo d) s) (\<lambda>(s1, _).
                               map_option fst (uf_add (d_hi d) s1))) es empty_uf) (\<lambda>s1.
     Option.bind (foldM link_closure (map snd closures) s1) (\<lambda>s2.
     Option.bind (foldM (offer_edge rd fps (cs_guard cfg) mnl rel (closure_map closures)) es
                    \<lparr>p_uf = s2, p_conflicts = [], p_bridges = [], p_accepted = 0, p_redundant = 0\<rparr>) (\<lambda>p.
     map_option (\<lambda>(s3, rows). (p\<lparr>p_uf := s3\<rparr>, rows))
       (apply_bridges rd fps cfg mnl rel (closure_map closures) (p_bridges p) (p_uf p)))))"

text \<open>
  The first lines of \<open>cluster_pairs\<close>: the closures, the vetoes that bind outside them, and the
  relation bound to them.
\<close>

record ('l, 'f) inputs =
  i_closures :: "(int, int list) dict"
  i_dissolved :: "dissolved_closure list"
  i_must_not_link :: "(int \<times> int) set"
  i_relation :: "('l, 'f) relation option"

definition cluster_inputs :: "('l, 'f) fact_reader \<Rightarrow> (int \<Rightarrow> fingerprint option)
    \<Rightarrow> cluster_settings \<Rightarrow> (int \<times> int) set \<Rightarrow> ('l, 'f) relation option \<Rightarrow> (int \<times> int) list
    \<Rightarrow> (int \<times> int) set \<Rightarrow> ('l, 'f) inputs option" where
  "cluster_inputs rd fps cfg operator_mnl relation must_link machine_vetoes =
     map_option (\<lambda>(closures, dissolved).
       let closure = closure_map closures
       in \<lparr>i_closures = closures, i_dissolved = dissolved,
           i_must_not_link = operator_mnl \<union>
             Set.filter (\<lambda>p. closure (fst p) = None \<or> closure (fst p) \<noteq> closure (snd p)) machine_vetoes,
           i_relation = (case relation of None \<Rightarrow> None
             | Some r \<Rightarrow> if closures = [] then Some r else Some (bound closure r))\<rparr>)
     (if must_link = [] then Some ([], [])
      else valid_closures rd fps (cs_guard cfg) operator_mnl must_link)"

definition merge_edges :: "decision list \<Rightarrow> decision list" where
  "merge_edges decisions = sort_key edge_rank (filter (\<lambda>d. d_zone d = ''merge'') decisions)"

definition cluster_pairs :: "('l, 'f) fact_reader \<Rightarrow> decision list \<Rightarrow> (int \<Rightarrow> fingerprint option)
    \<Rightarrow> cluster_settings \<Rightarrow> (int \<times> int) set \<Rightarrow> ('l, 'f) relation option \<Rightarrow> (int \<times> int) list
    \<Rightarrow> (int \<times> int) set \<Rightarrow> cluster_result option" where
  "cluster_pairs rd decisions fps cfg operator_mnl relation must_link machine_vetoes =
     Option.bind (cluster_inputs rd fps cfg operator_mnl relation must_link machine_vetoes) (\<lambda>inp.
     let closures = i_closures inp; mnl = i_must_not_link inp; rel = i_relation inp;
         linked = (if must_link = [] then None else Some (length must_link, length closures));
         es = merge_edges decisions
     in if repartition cfg
        then map_option (\<lambda>(grouped, conflicts, n_cut).
               let clusters = multi grouped
               in \<lparr>r_clusters = clusters, r_conflicts = conflicts,
                   r_stats = stats_of clusters conflicts mnl (length es)
                     (int (length es) - int (length conflicts)) 0 0 0 n_cut linked,
                   r_bridges = [], r_dissolved = i_dissolved inp\<rparr>)
             (repartition_clusters rd es fps cfg mnl rel closures)
        else map_option (\<lambda>(p, rows).
               let clusters = multi (map (\<lambda>(k, ms). (k, sort ms)) (groups (p_uf p)));
                   applied = length (filter b_applied rows)
               in \<lparr>r_clusters = clusters, r_conflicts = p_conflicts p,
                   r_stats = stats_of clusters (p_conflicts p) mnl (length es)
                     (int (p_accepted p) - int (p_redundant p)) (p_redundant p)
                     applied (length rows - applied) 0 linked,
                   r_bridges = rows, r_dissolved = i_dissolved inp\<rparr>)
             (union_find_pass rd fps cfg mnl rel closures es))"

end
