(* ===== verification/Cluster_Laws.thy ===== *)
theory Cluster_Laws
  imports Cluster
begin

text \<open>
  What \<open>autodedup/cluster.py\<close> promises: the must-link closures are the connected components of
  the rulings, the union-find object keeps its two dictionaries in step, every cluster either
  pass returns satisfies the invariants, and the answer does not depend on the order of the
  decisions.
\<close>

section \<open>The must-link closures\<close>

text \<open>A walk that starts at the parent finds the item's root.\<close>

lemma find_from_parent:
  assumes "forest d" and "x \<in> items d"
  shows "\<exists>d' r. find_root d (parent_of d x) = Some (d', r) \<and> forest d' \<and> items d' = items d
                \<and> rooted d' = rooted d \<and> rooted d x r"
  using find_root_correct [OF assms(1) forest_item [OF assms]] by (auto simp: root_parent)

interpretation closure: root_finder closure_find "\<lambda>_ _. True"
proof
  fix d :: parents and x :: int
  assume f: "forest d"
  let ?d = "setdefault x d"
  have "forest ?d" "x \<in> items ?d" using setdefault_forest [OF f] by simp_all
  then obtain d' r where "find_root ?d (parent_of ?d x) = Some (d', r)" "forest d'"
      "items d' = items ?d" "rooted d' = rooted ?d" "rooted ?d x r"
    using find_from_parent by blast
  then show "\<exists>d' r. closure_find x d = Some (d', r) \<and> forest d' \<and> items d' = insert x (items d)
      \<and> rooted d' = rooted d \<and> rooted d' x r"
    by (simp add: closure_find_def)
qed auto

lemma closure_find_distinct:
  "closure_find x d = Some (d', r) \<Longrightarrow> distinct (map fst d) \<Longrightarrow> distinct (map fst d')"
  unfolding closure_find_def Let_def by (blast intro: find_root_distinct setdefault_distinct)

definition link_ends :: "(int \<times> int) list \<Rightarrow> int set" where
  "link_ends es = fst ` set es \<union> snd ` set es"

lemma must_link_forest:
  "\<exists>d. must_link_closures readable ml = Some (filter (\<lambda>(_, ms). length ms > 1) (groups_of d))
     \<and> forest d \<and> distinct (map fst d) \<and> items d = link_ends (links readable ml)
     \<and> conn d = eqc (link_ends (links readable ml)) (set (links readable ml))"
proof -
  let ?es = "links readable ml"
  obtain d where d: "foldM (union_by closure_find) ?es [] = Some d" "forest d"
      "items d = fst ` set ?es \<union> snd ` set ?es" "conn d = eqc (items d) (set ?es)"
    using closure.linked_from_empty [of ?es] by auto
  have dist: "distinct (map fst d)"
    by (rule link_all_distinct [where fnd = closure_find, OF _ d(1)]) (auto intro: closure_find_distinct)
  have "group_roots closure_find (map fst d) d [] = Some (group_by (the_root d) (map fst d))"
    using closure.group_roots_classes [OF d(2), of "map fst d"] by (simp add: items_def)
  then have "must_link_closures readable ml = Some (filter (\<lambda>(_, ms). length ms > 1) (groups_of d))"
    by (simp add: must_link_closures_def d(1) groups_of_def)
  then show ?thesis using d dist by (auto simp: link_ends_def)
qed

text \<open>No item of the forest is alone: each stands in a link with another.\<close>

lemma link_group_big:
  assumes f: "forest d" and d: "distinct (map fst d)"
    and conn: "conn d = eqc (link_ends es) (set es)" "items d = link_ends es"
    and ne: "\<forall>(a, b) \<in> set es. a \<noteq> b" and g: "(k, ms) \<in> set (groups_of d)"
  shows "length ms > 1"
proof -
  note m = groups_of_mem [OF f g]
  obtain x where x: "x \<in> set ms" using m(1) by (cases ms) auto
  then have "x \<in> link_ends es" using m(4) conn(2) by auto
  then obtain a b where ab: "(a, b) \<in> set es" "x = a \<or> x = b" by (auto simp: link_ends_def)
  then have neq: "a \<noteq> b" using ne by auto
  have "a \<in> link_ends es" "b \<in> link_ends es" using ab(1) by (force simp: link_ends_def)+
  then have "(a, b) \<in> conn d" using ab(1) unfolding conn(1) by (intro eqc_edge)
  then have "the_root d a = the_root d b"
    using the_root_conn [OF f] conn(2) \<open>a \<in> link_ends es\<close> \<open>b \<in> link_ends es\<close> by blast
  then have "a \<in> set ms" "b \<in> set ms"
    using x m(4) ab(2) conn(2) \<open>a \<in> link_ends es\<close> \<open>b \<in> link_ends es\<close> by auto
  then have "{a, b} \<subseteq> set ms" by simp
  then have "card {a, b} \<le> card (set ms)" by (intro card_mono) auto
  then show ?thesis using neq card_length [of ms] by simp
qed

text \<open>
  C36. The must-link closures are the connected components of the readable rulings: two adverts
  are in one closure exactly when a path of rulings joins them, each closure has at least two
  adverts and is keyed by its smallest, and the keys ascend.
\<close>

theorem must_link_closures_correct:
  "\<exists>cs. must_link_closures readable ml = Some cs \<and> sorted (map fst cs) \<and> distinct (map fst cs) \<and>
    list_all (\<lambda>(k, ms). sorted ms \<and> hd ms = k \<and> 1 < length ms) cs \<and>
    (\<forall>x y. (\<exists>(k, ms) \<in> set cs. x \<in> set ms \<and> y \<in> set ms)
       \<longleftrightarrow> (x, y) \<in> eqc (link_ends (links readable ml)) (set (links readable ml)))"
proof -
  obtain d where d: "must_link_closures readable ml = Some (filter (\<lambda>(_, ms). length ms > 1) (groups_of d))"
      "forest d" "distinct (map fst d)" "items d = link_ends (links readable ml)"
      "conn d = eqc (link_ends (links readable ml)) (set (links readable ml))"
    using must_link_forest by blast
  have "\<forall>(a, b) \<in> set (links readable ml). a \<noteq> b" by (auto simp: links_def)
  then have big: "length ms > 1" if "(k, ms) \<in> set (groups_of d)" for k ms
    using link_group_big [OF d(2,3,5,4) _ that] by blast
  then have all: "filter (\<lambda>(_, ms). length ms > 1) (groups_of d) = groups_of d"
    by (auto simp: filter_id_conv)
  show ?thesis
    using d(1) groups_of_keys_sorted [of d] groups_of_mem(2,3) [OF d(2)] big groups_of_conn [OF d(2)]
    unfolding all d(5) by (auto simp: list_all_iff)
qed

section \<open>The union-find object\<close>

text \<open>The walk of \<open>find\<close> on the parents alone.\<close>

definition uf_locate :: "int \<Rightarrow> parents \<Rightarrow> (parents \<times> int) option" where
  "uf_locate x d = uf_walk x (setdefault x d)"

lemma uf_find_locate:
  "uf_find x s = map_option (\<lambda>(d, r). (\<lparr>parent = d, groups = groups (uf_admit x s)\<rparr>, r))
                   (uf_locate x (parent s))"
  by (cases s) (simp add: uf_find_def uf_locate_def uf_admit_def setdefault_def Let_def)

lemma point_to_root:
  assumes f: "forest d" and x: "x \<in> items d" and r: "rooted d x r"
  shows "forest (AList.update x r d)" and "items (AList.update x r d) = items d"
    and "rooted (AList.update x r d) = rooted d"
proof -
  show f': "forest (AList.update x r d)"
    using f x root_item [OF r f x] root_le [OF r f] by (intro forest_link)
  show "items (AList.update x r d) = items d" using x by auto
  have "rooted (AList.update x r d) y s \<longleftrightarrow> rooted d y s" for y s
  proof (rule root_transfer [OF root_exists [OF f] root_exists [OF f']])
    show "parent_of (AList.update x r d) z = z" if "parent_of d z = z" for z
      using that r root_unique rooted.here by (metis parent_of_update)
    show "rooted d (parent_of (AList.update x r d) z) t" if "rooted d z t" for z t
      using that r root_self root_unique by (metis parent_of_update root_parent)
    show "parent_of (AList.update x r d) z \<noteq> z" if "parent_of d z \<noteq> z" for z
      using that r root_fix by (metis parent_of_update)
  qed
  then show "rooted (AList.update x r d) = rooted d" by blast
qed

interpretation uf: root_finder uf_locate "\<lambda>_ _. True"
proof
  fix d :: parents and x :: int
  assume f: "forest d"
  let ?d = "setdefault x d"
  have "forest ?d" "x \<in> items ?d" using setdefault_forest [OF f] by simp_all
  then obtain d' r where w: "find_root ?d (parent_of ?d x) = Some (d', r)" "forest d'"
      "items d' = items ?d" "rooted d' = rooted ?d" "rooted ?d x r"
    using find_from_parent by blast
  then have "x \<in> items d'" "rooted d' x r" by simp_all
  from point_to_root [OF w(2) this] w
  show "\<exists>d' r. uf_locate x d = Some (d', r) \<and> forest d' \<and> items d' = insert x (items d)
      \<and> rooted d' = rooted d \<and> rooted d' x r"
    by (simp add: uf_locate_def uf_walk_def)
qed auto

text \<open>The two dictionaries in step: a group per root, holding the items of that root.\<close>

definition uf_ok :: "uf \<Rightarrow> bool" where
  "uf_ok s \<longleftrightarrow> forest (parent s) \<and> distinct (map fst (groups s)) \<and>
     (\<forall>r. (map_of (groups s) r \<noteq> None) \<longleftrightarrow> (r \<in> items (parent s) \<and> rooted (parent s) r r)) \<and>
     (\<forall>r ms. map_of (groups s) r = Some ms \<longrightarrow>
        distinct ms \<and> set ms = {x \<in> items (parent s). rooted (parent s) x r})"

lemma uf_ok_empty: "uf_ok empty_uf"
  by (simp add: uf_ok_def empty_uf_def items_def)

lemma uf_okD:
  assumes "uf_ok s"
  shows "forest (parent s)" and "distinct (map fst (groups s))"
    and "map_of (groups s) r \<noteq> None \<longleftrightarrow> r \<in> items (parent s) \<and> rooted (parent s) r r"
    and "map_of (groups s) r = Some ms \<Longrightarrow> distinct ms"
    and "map_of (groups s) r = Some ms \<Longrightarrow> set ms = {x \<in> items (parent s). rooted (parent s) x r}"
  using assms unfolding uf_ok_def by blast+

lemma uf_okI:
  assumes "forest (parent s)" and "distinct (map fst (groups s))"
    and "\<And>r. map_of (groups s) r \<noteq> None \<longleftrightarrow> r \<in> items (parent s) \<and> rooted (parent s) r r"
    and "\<And>r ms. map_of (groups s) r = Some ms \<Longrightarrow>
           distinct ms \<and> set ms = {x \<in> items (parent s). rooted (parent s) x r}"
  shows "uf_ok s"
  using assms unfolding uf_ok_def by blast

lemma uf_admit_ok:
  assumes ok: "uf_ok s"
  shows "uf_ok (uf_admit x s)" and "items (parent (uf_admit x s)) = insert x (items (parent s))"
    and "rooted (parent (uf_admit x s)) = rooted (parent s)"
proof -
  have p: "parent (uf_admit x s) = setdefault x (parent s)"
    by (auto simp: uf_admit_def setdefault_def)
  show "items (parent (uf_admit x s)) = insert x (items (parent s))"
    and rt: "rooted (parent (uf_admit x s)) = rooted (parent s)"
    by (simp_all add: p)
  show "uf_ok (uf_admit x s)"
  proof (cases "x \<in> items (parent s)")
    case True
    then show ?thesis using ok by (auto simp: uf_admit_def items_dom)
  next
    case False
    then have g: "groups (uf_admit x s) = AList.update x [x] (groups s)"
      by (simp add: uf_admit_def items_dom domIff)
    have self: "rooted (parent s) x r \<longleftrightarrow> r = x" for r using root_outside [OF False] .
    show ?thesis
    proof (rule uf_okI)
      show "forest (parent (uf_admit x s))"
        unfolding p using uf_okD(1) [OF ok] by (rule setdefault_forest)
      show "distinct (map fst (groups (uf_admit x s)))"
        unfolding g using uf_okD(2) [OF ok] by (rule distinct_update)
      show "map_of (groups (uf_admit x s)) r \<noteq> None \<longleftrightarrow>
          r \<in> items (parent (uf_admit x s)) \<and> rooted (parent (uf_admit x s)) r r" for r
        using uf_okD(3) [OF ok, of r] self unfolding rt g by (simp add: p update_conv')
      show "distinct ms \<and> set ms = {y \<in> items (parent (uf_admit x s)). rooted (parent (uf_admit x s)) y r}"
        if m: "map_of (groups (uf_admit x s)) r = Some ms" for r ms
      proof (cases "r = x")
        case True
        then have "ms = [x]" using m by (simp add: g update_conv')
        moreover have "\<not> rooted (parent s) y x" if "y \<in> items (parent s)" for y
          using that False root_item uf_okD(1) [OF ok] by blast
        ultimately show ?thesis using self True unfolding rt by (auto simp: p)
      next
        case r: False
        then have "map_of (groups s) r = Some ms" using m by (simp add: g update_conv')
        then have "distinct ms" "set ms = {y \<in> items (parent s). rooted (parent s) y r}"
          using uf_okD(4,5) [OF ok] by blast+
        moreover have "\<not> rooted (parent s) x r" using self [of r] r by blast
        ultimately show ?thesis unfolding rt by (auto simp: p)
      qed
    qed
  qed
qed

text \<open>\<open>find\<close> moves pointers only: the groups stay, the item's root comes back.\<close>

lemma uf_find_ok:
  assumes ok: "uf_ok s"
  shows "\<exists>s' r. uf_find x s = Some (s', r) \<and> uf_ok s' \<and> items (parent s') = insert x (items (parent s))
       \<and> rooted (parent s') = rooted (parent s) \<and> rooted (parent s') x r
       \<and> groups s' = groups (uf_admit x s)"
proof -
  let ?s = "uf_admit x s"
  note a = uf_admit_ok [OF ok, of x]
  obtain d r where d: "uf_locate x (parent s) = Some (d, r)" "forest d"
      "items d = insert x (items (parent s))" "rooted d = rooted (parent s)" "rooted d x r"
    using uf.find_ok [OF uf_okD(1) [OF ok], of x] by blast
  define s' where "s' = \<lparr>parent = d, groups = groups ?s\<rparr>"
  have s': "parent s' = d" "groups s' = groups ?s" by (simp_all add: s'_def)
  have "uf_ok s'"
  proof (rule uf_okI)
    show "forest (parent s')" "distinct (map fst (groups s'))"
      unfolding s' using d(2) uf_okD(2) [OF a(1)] by blast+
    show "map_of (groups s') r \<noteq> None \<longleftrightarrow> r \<in> items (parent s') \<and> rooted (parent s') r r" for r
      unfolding s' d(3,4) using uf_okD(3) [OF a(1), of r] unfolding a(2,3) .
    show "distinct ms \<and> set ms = {y \<in> items (parent s'). rooted (parent s') y r}"
      if "map_of (groups s') r = Some ms" for r ms
      using uf_okD(4,5) [OF a(1), of r ms] that unfolding s' d(3,4) a(2,3) by blast
  qed
  moreover have "uf_find x s = Some (s', r)" by (simp add: uf_find_locate d(1) s'_def)
  ultimately show ?thesis using d s' by blast
qed

lemma uf_admit_known: "x \<in> items (parent s) \<Longrightarrow> uf_admit x s = s"
  by (auto simp: uf_admit_def items_dom)

lemma uf_add_ok:
  assumes ok: "uf_ok s"
  shows "\<exists>s' r. uf_add x s = Some (s', r) \<and> uf_ok s' \<and> items (parent s') = insert x (items (parent s))
       \<and> conn (parent s') = conn (parent s) \<union> {(x, x)} \<and> groups s' = groups (uf_admit x s)"
proof -
  note a = uf_admit_ok [OF ok, of x]
  have "x \<in> items (parent (uf_admit x s))" using a(2) by simp
  then have "uf_admit x (uf_admit x s) = uf_admit x s" by (rule uf_admit_known)
  then obtain s' r where s': "uf_add x s = Some (s', r)" "uf_ok s'"
      "items (parent s') = insert x (items (parent s))" "rooted (parent s') = rooted (parent s)"
      "groups s' = groups (uf_admit x s)"
    using uf_find_ok [OF a(1), of x] a(2,3) by (auto simp: uf_add_def)
  have "conn (parent s') = conn (parent s) \<union> {(x, x)}"
  proof (cases "x \<in> items (parent s)")
    case True
    obtain t where "rooted (parent s) x t" using root_exists [OF uf_okD(1) [OF ok]] by blast
    then show ?thesis using s'(3,4) True by (auto simp: conn_def)
  next
    case False
    have "rooted (parent s) x t \<longleftrightarrow> t = x" for t by (rule root_outside [OF False])
    moreover have "\<not> rooted (parent s) y x" if "y \<in> items (parent s)" for y
      using that False root_item uf_okD(1) [OF ok] by blast
    ultimately show ?thesis using s'(3,4) by (auto simp: conn_def)
  qed
  then show ?thesis using s' by blast
qed

text \<open>A union, from where its two finds have left the object: the groups of the roots become one.\<close>

lemma uf_union_core:
  assumes 1: "uf_find x s = Some (s1, a)" and 2: "uf_find y s1 = Some (s2, b)"
    and ok: "uf_ok s2" and its2: "x \<in> items (parent s2)" "y \<in> items (parent s2)"
    and rts: "rooted (parent s2) x a" "rooted (parent s2) y b"
  obtains s' where "uf_union x y s = Some (s', min a b)" and "uf_ok s'"
    and "items (parent s') = items (parent s2)"
    and "conn (parent s') = eqc (items (parent s2)) (conn (parent s2) \<union> {(x, y)})"
    and "a = b \<Longrightarrow> groups s' = groups s2"
    and "a \<noteq> b \<Longrightarrow> \<exists>ks ls. map_of (groups s2) (min a b) = Some ks \<and> map_of (groups s2) (max a b) = Some ls
           \<and> groups s' = AList.update (min a b) (ks @ ls) (AList.delete (max a b) (groups s2))"
proof -
  note f = uf_okD(1) [OF ok]
  note ab = rts its2
  have lc: "conn (link_roots a b (parent s2)) = eqc (items (parent s2)) (conn (parent s2) \<union> {(x, y)})"
    using link_roots_conn [OF f ab(1,3,2,4)] .
  have ra: "a \<in> items (parent s2)" "b \<in> items (parent s2)"
    using root_item [OF ab(1) f ab(3)] root_item [OF ab(2) f ab(4)] .
  show ?thesis
  proof (cases "a = b")
    case True
    then have u: "uf_union x y s = Some (s2, min a b)" using 1 2 by (simp add: uf_union_def)
    have "link_roots a b (parent s2) = parent s2" using True by (simp add: link_roots_def)
    then show ?thesis using that [OF u ok] lc True by simp
  next
    case False
    define k l where "k = min a b" and "l = max a b"
    have kl_ab: "k = a \<and> l = b \<or> k = b \<and> l = a" by (auto simp: k_def l_def min_def max_def)
    have roots: "rooted (parent s2) a a" "rooted (parent s2) b b" using root_self ab(1,2) by blast+
    have kl: "k \<in> items (parent s2)" "l \<in> items (parent s2)" "rooted (parent s2) k k"
        "rooted (parent s2) l l" "k \<noteq> l"
      using ra roots False kl_ab by auto
    obtain ks ls where gs: "map_of (groups s2) k = Some ks" "map_of (groups s2) l = Some ls"
      using uf_okD(3) [OF ok, of k] uf_okD(3) [OF ok, of l] kl by blast
    define s' where "s' = \<lparr>parent = link_roots a b (parent s2),
        groups = AList.update k (ks @ ls) (AList.delete l (groups s2))\<rparr>"
    have u: "uf_union x y s = Some (s', k)"
      using 1 2 False gs
      by (simp add: uf_union_def s'_def link_roots_def Let_def flip: k_def l_def)
    have its: "items (parent s') = items (parent s2)"
      using link_roots_forest(2) [OF f ra] by (simp add: s'_def)
    have rt: "rooted (parent s') z r \<longleftrightarrow>
        (if rooted (parent s2) z k \<or> rooted (parent s2) z l then r = k else rooted (parent s2) z r)" for z r
      using link_roots_root [OF f ab(1,3,2,4)] kl_ab by (auto simp: s'_def k_def)
    have gm: "map_of (groups s') r =
        (if r = k then Some (ks @ ls) else if r = l then None else map_of (groups s2) r)" for r
      using kl(5) by (simp add: s'_def update_conv' delete_conv')
    have "uf_ok s'"
    proof (rule uf_okI)
      show "forest (parent s')" using link_roots_forest(1) [OF f ra] by (simp add: s'_def)
      show "distinct (map fst (groups s'))"
        using uf_okD(2) [OF ok] by (simp add: s'_def distinct_update distinct_delete)
      show "map_of (groups s') r \<noteq> None \<longleftrightarrow> r \<in> items (parent s') \<and> rooted (parent s') r r" for r
      proof (cases "r = k \<or> r = l")
        case True
        then show ?thesis using rt [of r r] kl gm [of r] its by auto
      next
        case r: False
        then have "rooted (parent s') r r \<longleftrightarrow> rooted (parent s2) r r"
          using rt [of r r] root_unique [of "parent s2" r r]
          by (cases "rooted (parent s2) r k \<or> rooted (parent s2) r l") auto
        then show ?thesis using gm [of r] uf_okD(3) [OF ok, of r] its r by simp
      qed
      show "distinct ms \<and> set ms = {z \<in> items (parent s'). rooted (parent s') z r}"
        if m: "map_of (groups s') r = Some ms" for r ms
      proof -
        have K: "set ks = {z \<in> items (parent s2). rooted (parent s2) z k}"
            "set ls = {z \<in> items (parent s2). rooted (parent s2) z l}" "distinct ks" "distinct ls"
          using uf_okD(4,5) [OF ok gs(1)] uf_okD(4,5) [OF ok gs(2)] by blast+
        show ?thesis
        proof (cases "r = k")
          case True
          then have "ms = ks @ ls" using m gm by simp
          moreover have "set ks \<inter> set ls = {}" using K(1,2) kl(5) root_unique by blast
          moreover have "rooted (parent s') z k \<longleftrightarrow> rooted (parent s2) z k \<or> rooted (parent s2) z l" for z
            using rt [of z k] by simp
          ultimately show ?thesis using K its True by auto
        next
          case r: False
          then have ms: "r \<noteq> l" "map_of (groups s2) r = Some ms" using m gm by (auto split: if_splits)
          have "rooted (parent s') z r \<longleftrightarrow> rooted (parent s2) z r" for z
            using rt [of z r] r ms(1) root_unique [of "parent s2" z] by auto
          then show ?thesis using uf_okD(4,5) [OF ok ms(2)] its by simp
        qed
      qed
    qed
    moreover have "\<exists>ks ls. map_of (groups s2) k = Some ks \<and> map_of (groups s2) l = Some ls
        \<and> groups s' = AList.update k (ks @ ls) (AList.delete l (groups s2))"
      using gs by (simp add: s'_def)
    ultimately show ?thesis
      using that [of s'] u its lc False unfolding k_def l_def s'_def by simp
  qed
qed

text \<open>Any two items may be joined: the object is an edge-merging one.\<close>

lemma conn_admit:
  assumes "forest d" and "rooted d' = rooted d" and "items d' = insert x (items d)"
  shows "conn d' = conn d \<union> {(x, x)}"
proof -
  obtain t where t: "rooted d x t" using root_exists [OF assms(1)] by blast
  have out: "x \<in> items d" if "y \<in> items d" "rooted d x r" "rooted d y r" for y r
    using that root_outside [of x d r] root_item [OF that(3) assms(1)] by blast
  have "(p, q) \<in> conn d' \<longleftrightarrow> (p, q) \<in> conn d \<or> p = x \<and> q = x" for p q
    using t out unfolding conn_def assms(2,3) by blast
  then show ?thesis by auto
qed

lemma uf_union_conn:
  assumes ok: "uf_ok s"
  shows "\<exists>s'. map_option fst (uf_union x y s) = Some s' \<and> uf_ok s'
     \<and> items (parent s') = {x, y} \<union> items (parent s)
     \<and> conn (parent s') = eqc (items (parent s')) (conn (parent s) \<union> {(x, y)})"
proof -
  obtain s1 a where 1: "uf_find x s = Some (s1, a)" "uf_ok s1" "items (parent s1) = insert x (items (parent s))"
      "rooted (parent s1) = rooted (parent s)" "rooted (parent s1) x a"
    using uf_find_ok [OF ok, of x] by blast
  obtain s2 b where 2: "uf_find y s1 = Some (s2, b)" "uf_ok s2" "items (parent s2) = insert y (items (parent s1))"
      "rooted (parent s2) = rooted (parent s1)" "rooted (parent s2) y b"
    using uf_find_ok [OF 1(2), of y] by blast
  have xy: "x \<in> items (parent s2)" "y \<in> items (parent s2)" "rooted (parent s2) x a"
    using 1(3,5) 2(3,4) by simp_all
  obtain s' where s':
      "uf_union x y s = Some (s', min a b)" "uf_ok s'" "items (parent s') = items (parent s2)"
      "conn (parent s') = eqc (items (parent s2)) (conn (parent s2) \<union> {(x, y)})"
    by (rule uf_union_core [OF 1(1) 2(1,2) xy 2(5)]) (rule that, assumption+)
  have c2: "conn (parent s2) = conn (parent s) \<union> {(x, x)} \<union> {(y, y)}"
    using conn_admit [OF uf_okD(1) [OF 1(2)] 2(4,3)] conn_admit [OF uf_okD(1) [OF ok] 1(4,3)] by simp
  have "eqc (items (parent s2)) (conn (parent s2) \<union> {(x, y)})
      = eqc (items (parent s2)) (conn (parent s) \<union> {(x, y)})"
    unfolding c2 by (rule eqc_upto_Id) blast+
  then show ?thesis using s' 1(3) 2(3) by auto
qed

interpretation uf_link: edge_merging "\<lambda>e s. map_option fst (uf_union (fst e) (snd e) s)"
    "\<lambda>s. items (parent s)" "\<lambda>s. conn (parent s)" uf_ok "\<lambda>_ _. True"
  by unfold_locales (use uf_union_conn in auto)

section \<open>Every group of two or more is valid\<close>

text \<open>The fingerprints are keyed by their own ids.\<close>

definition fps_keyed :: "(int \<Rightarrow> fingerprint option) \<Rightarrow> bool" where
  "fps_keyed fps \<longleftrightarrow> (\<forall>m fp. fps m = Some fp \<longrightarrow> fp_id fp = m)"

lemma fps_of_ids: "fps_keyed fps \<Longrightarrow> map fp_id (fps_of fps ms) = filter (\<lambda>m. fps m \<noteq> None) ms"
  by (induction ms) (auto simp: fps_of_def fps_keyed_def)

lemma fps_of_distinct: "fps_keyed fps \<Longrightarrow> distinct ms \<Longrightarrow> distinct (map fp_id (fps_of fps ms))"
  by (simp add: fps_of_ids)

lemma fps_of_set: "set (fps_of fps ms) = {fp. \<exists>m \<in> set ms. fps m = Some fp}"
  by (force simp: fps_of_def)

type_synonym ('l, 'f) rules =
  "('l, 'f) fact_reader \<times> (int \<Rightarrow> fingerprint option) \<times> guard_settings \<times> (int \<times> int) set
   \<times> ('l, 'f) relation option \<times> (int \<Rightarrow> int option)"

text \<open>A member set the rules in force accept.\<close>

definition holds_together :: "('l, 'f) rules \<Rightarrow> int list \<Rightarrow> bool" where
  "holds_together = (\<lambda>(rd, fps, cfg, mnl, rel, closure) ms.
     cluster_invariants_ok rd (fps_of fps ms) cfg mnl rel closure = None)"

definition rules_ok :: "('l, 'f) rules \<Rightarrow> bool" where
  "rules_ok = (\<lambda>(rd, fps, cfg, mnl, rel, closure).
     guard_settings_ok cfg \<and> printed_symmetric rd \<and> fps_keyed fps)"

lemma holds_together_perm:
  assumes "rules_ok R" and "holds_together R xs" and "set ys = set xs" and "distinct ys"
  shows "holds_together R ys"
proof -
  obtain rd fps cfg mnl rel closure where R: "R = (rd, fps, cfg, mnl, rel, closure)" by (cases R) auto
  have k: "guard_settings_ok cfg" "printed_symmetric rd" "fps_keyed fps"
    using assms(1) by (auto simp: rules_ok_def R)
  have "cluster_invariants_ok rd (fps_of fps ys) cfg mnl rel closure = None"
    by (rule invariants_perm [OF k(1,2) _ fps_of_distinct [OF k(3) assms(4)], where xs = "fps_of fps xs"])
      (use assms(2,3) in \<open>simp_all add: holds_together_def R fps_of_set\<close>)
  then show ?thesis by (simp add: holds_together_def R)
qed

definition valid_groups :: "('l, 'f) rules \<Rightarrow> uf \<Rightarrow> bool" where
  "valid_groups R s \<longleftrightarrow>
     (\<forall>r ms. map_of (groups s) r = Some ms \<longrightarrow> 1 < length ms \<longrightarrow> holds_together R ms)"

lemma valid_groupsD:
  "valid_groups R s \<Longrightarrow> map_of (groups s) r = Some ms \<Longrightarrow> 1 < length ms \<Longrightarrow> holds_together R ms"
  unfolding valid_groups_def by blast

lemma valid_groups_admit: "valid_groups R s \<Longrightarrow> groups s' = groups (uf_admit x s) \<Longrightarrow> valid_groups R s'"
  by (auto simp: valid_groups_def uf_admit_def update_conv' split: if_splits)

lemma uf_find_valid:
  assumes "uf_ok s" and "valid_groups R s"
  obtains s' r where "uf_find x s = Some (s', r)" and "uf_ok s'" and "valid_groups R s'"
    and "items (parent s') = insert x (items (parent s))" and "rooted (parent s') = rooted (parent s)"
    and "rooted (parent s') x r"
  using uf_find_ok [OF assms(1), of x] valid_groups_admit [OF assms(2)] by blast

lemma root_group:
  assumes "uf_ok s" and "x \<in> items (parent s)" and "rooted (parent s) x r"
  obtains ms where "map_of (groups s) r = Some ms" and "distinct ms" and "x \<in> set ms"
    and "set ms = {y \<in> items (parent s). rooted (parent s) y r}"
    and "uf_members s r = sort ms"
proof -
  have "r \<in> items (parent s)" "rooted (parent s) r r"
    using root_item [OF assms(3) uf_okD(1) [OF assms(1)] assms(2)] root_self [OF assms(3)] .
  then obtain ms where ms: "map_of (groups s) r = Some ms" using uf_okD(3) [OF assms(1), of r] by blast
  then show ?thesis
    using that [OF ms] uf_okD(4,5) [OF assms(1) ms] assms(2,3) by (simp add: uf_members_def)
qed

text \<open>Joining two groups whose members hold together keeps every group valid.\<close>

lemma uf_union_valid:
  assumes R: "rules_ok R" and ok: "uf_ok s" and v: "valid_groups R s"
    and a: "a \<in> items (parent s)" "rooted (parent s) a a"
    and b: "b \<in> items (parent s)" "rooted (parent s) b b" and neq: "a \<noteq> b"
    and h: "holds_together R (uf_members s a @ uf_members s b)"
  shows "\<exists>s' k. uf_union a b s = Some (s', k) \<and> uf_ok s' \<and> valid_groups R s'"
proof -
  obtain s1 a' where 1: "uf_find a s = Some (s1, a')" "uf_ok s1" "items (parent s1) = items (parent s)"
      "rooted (parent s1) = rooted (parent s)" "rooted (parent s1) a a'" "groups s1 = groups s"
    using uf_find_ok [OF ok, of a] unfolding insert_absorb [OF a(1)] uf_admit_known [OF a(1)] by blast
  have b1: "b \<in> items (parent s1)" using b(1) 1(3) by simp
  obtain s2 b' where 2: "uf_find b s1 = Some (s2, b')" "uf_ok s2" "items (parent s2) = items (parent s1)"
      "rooted (parent s2) = rooted (parent s1)" "rooted (parent s2) b b'" "groups s2 = groups s1"
    using uf_find_ok [OF 1(2), of b] unfolding insert_absorb [OF b1] uf_admit_known [OF b1] by blast
  have ab': "a' = a" "b' = b" using 1(4,5) 2(4,5) a(2) b(2) root_unique by simp_all
  have in2: "a \<in> items (parent s2)" "b \<in> items (parent s2)" "rooted (parent s2) a a" "rooted (parent s2) b b"
    using 1 2 a b by simp_all
  obtain s' ks ls where s': "uf_union a b s = Some (s', min a b)" "uf_ok s'"
      "map_of (groups s2) (min a b) = Some ks" "map_of (groups s2) (max a b) = Some ls"
      "groups s' = AList.update (min a b) (ks @ ls) (AList.delete (max a b) (groups s2))"
  proof (rule uf_union_core [OF 1(1) 2(1) 2(2) in2(1,2)])
    show "rooted (parent s2) a a'" "rooted (parent s2) b b'" using in2 ab' by simp_all
  next
    fix t
    assume "uf_union a b s = Some (t, min a' b')" "uf_ok t"
      "a' \<noteq> b' \<Longrightarrow> \<exists>ks ls. map_of (groups s2) (min a' b') = Some ks \<and> map_of (groups s2) (max a' b') = Some ls
           \<and> groups t = AList.update (min a' b') (ks @ ls) (AList.delete (max a' b') (groups s2))"
    then show thesis using that neq ab' by blast
  qed
  have "valid_groups R s'"
    unfolding valid_groups_def
  proof (intro allI impI)
    fix r ms assume m: "map_of (groups s') r = Some ms" "1 < length ms"
    have gm: "map_of (groups s') r = (if r = min a b then Some (ks @ ls) else if r = max a b then None
        else map_of (groups s) r)"
      using neq by (simp add: s'(5) update_conv' delete_conv' 1(6) 2(6) min_def max_def)
    show "holds_together R ms"
    proof (cases "r = min a b")
      case True
      then have ms: "ms = ks @ ls" using m gm by simp
      have gs: "map_of (groups s) (min a b) = Some ks" "map_of (groups s) (max a b) = Some ls"
        using s'(3,4) by (simp_all add: 1(6) 2(6))
      have "set (uf_members s a @ uf_members s b) = set ms"
        using gs ms neq by (auto simp: uf_members_def min_def max_def split: if_splits)
      moreover have "distinct ms"
      proof -
        have "map_of (groups s') (min a b) = Some ms" using m True by simp
        then show ?thesis by (rule uf_okD(4) [OF s'(2)])
      qed
      ultimately show ?thesis using holds_together_perm [OF R h] by simp
    next
      case False
      then have "map_of (groups s) r = Some ms" using m gm by (auto split: if_splits)
      then show ?thesis using valid_groupsD [OF v] m(2) by blast
    qed
  qed
  then show ?thesis using s'(1,2) by blast
qed

text \<open>What one step of a pass must keep: the object in step, every group valid.\<close>

definition uf_good :: "('l, 'f) rules \<Rightarrow> uf \<Rightarrow> bool" where
  "uf_good R s \<longleftrightarrow> uf_ok s \<and> valid_groups R s"

lemma two_finds:
  assumes "uf_good R s"
  obtains s1 a s2 b where "uf_find x s = Some (s1, a)" and "uf_find y s1 = Some (s2, b)"
    and "uf_good R s2" and "a \<in> items (parent s2)" and "rooted (parent s2) a a"
    and "b \<in> items (parent s2)" and "rooted (parent s2) b b"
proof -
  obtain s1 a where 1: "uf_find x s = Some (s1, a)" "uf_ok s1" "valid_groups R s1"
      "items (parent s1) = insert x (items (parent s))" "rooted (parent s1) x a"
    using uf_find_valid [of s R x] assms unfolding uf_good_def by blast
  obtain s2 b where 2: "uf_find y s1 = Some (s2, b)" "uf_ok s2" "valid_groups R s2"
      "items (parent s2) = insert y (items (parent s1))" "rooted (parent s2) = rooted (parent s1)"
      "rooted (parent s2) y b"
    using uf_find_valid [OF 1(2,3), of y] by blast
  have "rooted (parent s2) x a" "x \<in> items (parent s2)" "y \<in> items (parent s2)" using 1(4,5) 2(4,5) by simp_all
  then show ?thesis
    using that [OF 1(1) 2(1)] 2(2,3,6) root_item [OF _ uf_okD(1) [OF 2(2)]] root_self
    unfolding uf_good_def by blast
qed

lemma offer_edge_good:
  assumes R: "rules_ok (rd, fps, cfg, mnl, rel, closure)"
    and good: "uf_good (rd, fps, cfg, mnl, rel, closure) (p_uf p)"
  shows "\<exists>p'. offer_edge rd fps cfg mnl rel closure d p = Some p'
              \<and> uf_good (rd, fps, cfg, mnl, rel, closure) (p_uf p')"
proof -
  let ?R = "(rd, fps, cfg, mnl, rel, closure)"
  obtain s1 a s2 b where f: "uf_find (d_lo d) (p_uf p) = Some (s1, a)" "uf_find (d_hi d) s1 = Some (s2, b)"
      "uf_good ?R s2" "a \<in> items (parent s2)" "rooted (parent s2) a a" "b \<in> items (parent s2)"
      "rooted (parent s2) b b"
    by (rule two_finds [OF good]) (rule that, assumption+)
  have g: "uf_ok s2" "valid_groups ?R s2" using f(3) by (simp_all add: uf_good_def)
  show ?thesis
  proof (cases "cluster_invariants_ok rd (fps_of fps (uf_members s2 a @ uf_members s2 b)) cfg mnl rel closure = None
      \<and> a \<noteq> b")
    case True
    then obtain s3 k where "uf_union a b s2 = Some (s3, k)" "uf_ok s3" "valid_groups ?R s3"
      using uf_union_valid [OF R g f(4,5,6,7)] by (auto simp: holds_together_def)
    then show ?thesis using f True by (simp add: offer_edge_def Let_def uf_good_def)
  next
    case False
    then show ?thesis using f by (auto simp: offer_edge_def Let_def split: option.split)
  qed
qed

lemma apply_bridge_good:
  assumes R: "rules_ok (rd, fps, cs_guard cfg, mnl, rel, closure)"
    and good: "uf_good (rd, fps, cs_guard cfg, mnl, rel, closure) (fst p)"
  shows "\<exists>p'. apply_bridge rd fps cfg mnl rel closure b p = Some p'
              \<and> uf_good (rd, fps, cs_guard cfg, mnl, rel, closure) (fst p')"
proof -
  let ?R = "(rd, fps, cs_guard cfg, mnl, rel, closure)"
  obtain s rows where p: "p = (s, rows)" by (cases p)
  obtain s1 x s2 y where f: "uf_find (b_lo b) s = Some (s1, x)" "uf_find (b_hi b) s1 = Some (s2, y)"
      "uf_good ?R s2" "x \<in> items (parent s2)" "rooted (parent s2) x x" "y \<in> items (parent s2)"
      "rooted (parent s2) y y"
    by (rule two_finds [OF good [unfolded p fst_conv]]) (rule that, assumption+)
  have g: "uf_ok s2" "valid_groups ?R s2" using f(3) by (simp_all add: uf_good_def)
  show ?thesis
  proof (cases "cluster_invariants_ok rd (fps_of fps (uf_members s2 x @ uf_members s2 y)) (cs_guard cfg)
      mnl rel closure = None \<and> x \<noteq> y")
    case True
    then obtain s3 k where "uf_union x y s2 = Some (s3, k)" "uf_ok s3" "valid_groups ?R s3"
      using uf_union_valid [OF R g f(4,5,6,7)] by (auto simp: holds_together_def)
    then show ?thesis using f True good by (simp add: apply_bridge_def p uf_good_def)
  next
    case False
    then show ?thesis using f good by (auto simp: apply_bridge_def p split: option.split)
  qed
qed

lemma foldM_total:
  "P s \<Longrightarrow> (\<And>x u. x \<in> set xs \<Longrightarrow> P u \<Longrightarrow> \<exists>v. f x u = Some v \<and> P v) \<Longrightarrow> \<exists>t. foldM f xs s = Some t \<and> P t"
  by (induction xs arbitrary: s) fastforce+

lemma apply_bridges_good:
  assumes R: "rules_ok (rd, fps, cs_guard cfg, mnl, rel, closure)"
    and good: "uf_good (rd, fps, cs_guard cfg, mnl, rel, closure) s"
  shows "\<exists>p'. apply_bridges rd fps cfg mnl rel closure bridges s = Some p'
              \<and> uf_good (rd, fps, cs_guard cfg, mnl, rel, closure) (fst p')"
proof (cases "bridge_apply cfg")
  case True
  have "\<exists>p'. foldM (apply_bridge rd fps cfg mnl rel closure) (sort_key bridge_rank bridges) (s, []) = Some p'
              \<and> uf_good (rd, fps, cs_guard cfg, mnl, rel, closure) (fst p')"
    by (rule foldM_total) (use good apply_bridge_good [OF R] in auto)
  then show ?thesis using True by (simp add: apply_bridges_def)
qed (use good in \<open>simp add: apply_bridges_def\<close>)

subsection \<open>The closures enter as groups\<close>

text \<open>Disjoint closures, each keyed by its first member.\<close>

definition closures_ok :: "(int, int list) dict \<Rightarrow> bool" where
  "closures_ok closures \<longleftrightarrow> distinct (concat (map snd closures)) \<and>
     (\<forall>(k, ms) \<in> set closures. 1 < length ms \<and> sorted ms \<and> hd ms = k)"

lemma map_of_updates:
  "map_of (fold (\<lambda>(m, k). AList.update m k) ps d) x =
     (case map_of (rev ps) x of Some v \<Rightarrow> Some v | None \<Rightarrow> map_of d x)"
proof (induction ps arbitrary: d)
  case (Cons p ps)
  obtain m k where p: "p = (m, k)" by (cases p)
  show ?case unfolding p by (simp add: Cons.IH update_conv' map_add_def split: option.split)
qed simp

lemma closure_map_eq:
  assumes "distinct (concat (map snd closures))"
  shows "closure_map closures m = Some k \<longleftrightarrow> (\<exists>ms. (k, ms) \<in> set closures \<and> m \<in> set ms)"
proof -
  let ?ps = "concat (map (\<lambda>(k, ms). map (\<lambda>m. (m, k)) ms) closures)"
  have "map fst ?ps = concat (map snd closures)"
    by (induction closures) (auto simp: comp_def)
  then have d: "distinct (map fst (rev ?ps))" using assms by (simp flip: rev_map)
  have "closure_map closures m = map_of (rev ?ps) m"
    by (simp add: closure_map_def map_of_updates split: option.split)
  also have "\<dots> = Some k \<longleftrightarrow> (m, k) \<in> set ?ps" using map_of_eq_Some_iff [OF d] by simp
  also have "\<dots> \<longleftrightarrow> (\<exists>ms. (k, ms) \<in> set closures \<and> m \<in> set ms)" by auto
  finally show ?thesis .
qed

definition star :: "int list \<Rightarrow> (int \<times> int) list" where
  "star ms = map (Pair (hd ms)) ms"

lemma link_closure_star: "link_closure ms s = foldM (\<lambda>e s. map_option fst (uf_union (fst e) (snd e) s)) (star ms) s"
  by (simp add: link_closure_def star_def foldM_map)

lemma star_edges: "(a, b) \<in> set (star ms) \<Longrightarrow> a \<in> set ms \<and> b \<in> set ms"
  by (cases ms) (auto simp: star_def)

lemma star_eqc:
  assumes "distinct (concat cs)"
    and "(x, y) \<in> eqc K (set (concat (map star cs)))"
  shows "x = y \<or> (\<exists>c \<in> set cs. x \<in> set c \<and> y \<in> set c)"
proof -
  let ?E = "set (concat (map star cs))"
  let ?S = "{(x, y). x = y \<or> (\<exists>c \<in> set cs. x \<in> set c \<and> y \<in> set c)}"
  have uniq: "c = c'" if "c \<in> set cs" "c' \<in> set cs" "z \<in> set c" "z \<in> set c'" for c c' z
    using distinct_concat_unique [OF assms(1) that] .
  have edges: "?E \<union> ?E\<inverse> \<subseteq> ?S" using star_edges by fastforce
  have trans: "(u, w) \<in> ?S" if "(u, v) \<in> ?S" "(v, w) \<in> ?S" for u v w
    using that uniq by blast
  have "(x, y) \<in> (?E \<union> ?E\<inverse>)\<^sup>*" using assms(2) by (simp add: eqc_def)
  then have "(x, y) \<in> ?S"
  proof (induction rule: rtrancl_induct)
    case (step y z)
    have "(y, z) \<in> ?S" by (rule subsetD [OF edges step.hyps(2)])
    then show ?case by (rule trans [OF step.IH])
  qed simp
  then show ?thesis by simp
qed

text \<open>
  The adds leave singletons, and the closures are linked star by star: afterwards a group of two
  or more is exactly a closure.
\<close>

lemma adds_ok:
  "\<exists>s. foldM (\<lambda>d s. Option.bind (uf_add (d_lo d) s) (\<lambda>(s1, _). map_option fst (uf_add (d_hi d) s1))) es empty_uf
     = Some s \<and> uf_ok s \<and> conn (parent s) \<subseteq> Id"
proof -
  have "\<exists>s. foldM (\<lambda>d s. Option.bind (uf_add (d_lo d) s) (\<lambda>(s1, _). map_option fst (uf_add (d_hi d) s1))) es empty_uf
     = Some s \<and> (uf_ok s \<and> conn (parent s) \<subseteq> Id)"
  proof (rule foldM_total)
    show "uf_ok empty_uf \<and> conn (parent empty_uf) \<subseteq> Id"
      using uf_ok_empty by (simp add: empty_uf_def)
  next
    fix d and u :: uf
    assume u: "uf_ok u \<and> conn (parent u) \<subseteq> Id"
    then obtain s1 r where 1: "uf_add (d_lo d) u = Some (s1, r)" "uf_ok s1"
        "conn (parent s1) = conn (parent u) \<union> {(d_lo d, d_lo d)}"
      using uf_add_ok [of u "d_lo d"] by blast
    obtain s2 r where "uf_add (d_hi d) s1 = Some (s2, r)" "uf_ok s2"
        "conn (parent s2) = conn (parent s1) \<union> {(d_hi d, d_hi d)}"
      using uf_add_ok [OF 1(2), of "d_hi d"] by blast
    with 1 u show "\<exists>v. Option.bind (uf_add (d_lo d) u) (\<lambda>(s1, _). map_option fst (uf_add (d_hi d) s1)) = Some v
        \<and> (uf_ok v \<and> conn (parent v) \<subseteq> Id)"
      by auto
  qed
  then show ?thesis by blast
qed

lemma closures_linked:
  assumes ok: "uf_ok s" and id: "conn (parent s) \<subseteq> Id" and cl: "closures_ok closures"
  shows "\<exists>s'. foldM link_closure (map snd closures) s = Some s' \<and> uf_ok s' \<and>
    (\<forall>r ms. map_of (groups s') r = Some ms \<longrightarrow> 1 < length ms \<longrightarrow>
       (\<exists>k c. (k, c) \<in> set closures \<and> set c = set ms \<and> distinct c))"
proof -
  let ?cs = "map snd closures"
  let ?edges = "concat (map star ?cs)"
  have dist: "distinct (concat ?cs)" using cl by (simp add: closures_ok_def)
  have "conn (parent s) = eqc (items (parent s)) {}"
  proof -
    have "(x, x) \<in> conn (parent s)" if "x \<in> items (parent s)" for x
      using that root_exists [OF uf_okD(1) [OF ok], of x] by (auto simp: conn_def)
    then show ?thesis using id by (auto simp: eqc_def conn_def)
  qed
  then obtain s' where s': "foldM (\<lambda>e s. map_option fst (uf_union (fst e) (snd e) s)) ?edges s = Some s'"
      "uf_ok s'" "items (parent s') = items (parent s) \<union> fst ` set ?edges \<union> snd ` set ?edges"
      "conn (parent s') = eqc (items (parent s')) ({} \<union> set ?edges)"
    using uf_link.link_all_closure [OF ok, of ?edges "{}"] by auto
  have link: "foldM link_closure ?cs s = Some s'"
    using s'(1) foldM_concat [of "\<lambda>e s. map_option fst (uf_union (fst e) (snd e) s)" "map star ?cs" s, symmetric]
    by (simp add: link_closure_star [abs_def] foldM_map comp_def)
  have grp: "\<exists>k c. (k, c) \<in> set closures \<and> set c = set ms \<and> distinct c"
    if m: "map_of (groups s') r = Some ms" "1 < length ms" for r ms
  proof -
    have d: "distinct ms" and g: "set ms = {x \<in> items (parent s'). rooted (parent s') x r}"
      using uf_okD(4,5) [OF s'(2) m(1)] .
    obtain x y where xy: "x \<in> set ms" "y \<in> set ms" "x \<noteq> y"
      using m(2) d by (cases ms; cases "tl ms") auto
    have conn_eq: "conn (parent s') = eqc (items (parent s')) (set ?edges)" using s'(4) by simp
    have conn: "(u, v) \<in> conn (parent s')" if "u \<in> set ms" "v \<in> set ms" for u v
      using that g by (auto simp: conn_def)
    have same: "u = v \<or> (\<exists>c \<in> set ?cs. u \<in> set c \<and> v \<in> set c)" if "u \<in> set ms" "v \<in> set ms" for u v
      using star_eqc [OF dist] conn [OF that] unfolding conn_eq by blast
    obtain c where c: "c \<in> set ?cs" "x \<in> set c" "y \<in> set c" using same [OF xy(1,2)] xy(3) by blast
    have "z \<in> set c" if "z \<in> set ms" for z
      using same [OF xy(1) that] c distinct_concat_unique [OF dist] by blast
    moreover have "z \<in> set ms" if z: "z \<in> set c" for z
    proof -
      have hd: "hd c \<in> set c" using z by (cases c) auto
      have e: "(hd c, w) \<in> set ?edges" if "w \<in> set c" for w
        using that c(1) by (force simp: star_def)
      have i: "w \<in> items (parent s')" if "w \<in> set c" for w using e [OF that] s'(3) by force
      have to_hd: "\<exists>t. rooted (parent s') (hd c) t \<and> rooted (parent s') w t" if "w \<in> set c" for w
      proof -
        have "(hd c, w) \<in> conn (parent s')" unfolding conn_eq using e i hd that by (intro eqc_edge)
        then show ?thesis by (auto simp: conn_def)
      qed
      have "rooted (parent s') x r" using xy(1) g by blast
      then have "rooted (parent s') (hd c) r" using to_hd [OF c(2)] root_unique by blast
      then have "rooted (parent s') z r" using to_hd [OF z] root_unique by blast
      then show ?thesis using g i [OF z] by simp
    qed
    ultimately have "set c = set ms" by blast
    moreover have "distinct c" using distinct_concat_member [OF dist c(1)] .
    moreover obtain k where "(k, c) \<in> set closures" using c(1) by auto
    ultimately show ?thesis by blast
  qed
  show ?thesis
    using link s'(2) grp by blast
qed

subsection \<open>A closure the rulings keep is acceptable to every later test\<close>

lemma distinct_concat_filter:
  "distinct (concat (map snd xs)) \<Longrightarrow> distinct (concat (map snd (filter P xs)))"
  by (induction xs) auto

lemma must_link_closures_ok:
  assumes "must_link_closures readable ml = Some cs"
  shows "closures_ok cs"
proof -
  obtain d where d: "must_link_closures readable ml = Some (filter (\<lambda>(_, ms). length ms > 1) (groups_of d))"
      "forest d" "distinct (map fst d)"
    using must_link_forest by blast
  then have cs: "cs = filter (\<lambda>(_, ms). length ms > 1) (groups_of d)" using assms by simp
  have "distinct (concat (map snd (groups_of d)))"
    unfolding groups_of_snd by (rule classes_distinct [OF d(3)])
  then show ?thesis
    using groups_of_mem(2,3) [OF d(2)] distinct_concat_filter unfolding cs closures_ok_def by auto
qed

lemma closures_ok_filter: "closures_ok cs \<Longrightarrow> closures_ok (filter P cs)"
  using distinct_concat_filter by (auto simp: closures_ok_def)

text \<open>One closure's values are never apart.\<close>

lemma one_closure_no_far_pair:
  assumes "\<forall>p \<in> set vals. closure (fst p) = Some k"
  shows "\<not> far_pair far vals closure"
proof -
  have "same_closure (fst p) (fst q) closure" if "(p, q) \<in> set (pairs_of vals)" for p q
    using pairs_of_memD [OF that] assms by (simp add: same_closure_def)
  then show ?thesis by (auto simp: far_pair_def)
qed

lemma stated_ids: "p \<in> set (stated f ms) \<Longrightarrow> fst p \<in> fp_id ` set ms"
  by (auto simp: stated_def)

lemma closure_valid:
  assumes cfg: "guard_settings_ok cfg" and keyed: "fps_keyed fps"
    and judged: "judge_closure rd fps cfg op_mnl (k, c) = None"
    and cl: "\<forall>m \<in> set c. closure m = Some k"
    and mnl: "\<forall>(a, b) \<in> mnl - op_mnl. closure a = None \<or> closure a \<noteq> closure b"
    and rel: "case rel of None \<Rightarrow> True | Some r \<Rightarrow> rel_closure_of r = closure"
  shows "holds_together (rd, fps, cfg, mnl, rel, closure) c"
proof -
  let ?ms = "fps_of fps c"
  have ids: "fp_id ` set ?ms \<subseteq> set c" using keyed by (auto simp: fps_of_set fps_keyed_def)
  note j = judged [unfolded judge_closure_def prod.case invariants_None]
  have st: "\<forall>p \<in> set (stated f ?ms). closure (fst p) = Some k" for f :: "fingerprint \<Rightarrow> string option"
    using stated_ids [of _ f ?ms] ids cl by blast
  have fl: "\<forall>p \<in> set (stated flat_floor ?ms). closure (fst p) = Some k"
    using stated_ids [of _ flat_floor ?ms] ids cl by blast
  have sz: "\<forall>p \<in> set (sized ?ms). closure (fst p) = Some k"
  proof
    fix p assume "p \<in> set (sized ?ms)"
    then have "p \<in> set (stated fp_area ?ms)" by (simp add: sized_def)
    then show "closure (fst p) = Some k" using stated_ids [of p fp_area ?ms] ids cl by blast
  qed
  have "\<not> apart (sized ?ms) closure (area_far (cluster_area_spread cfg))"
    using areas.apart_pairwise [of "sized ?ms" closure "cluster_area_spread cfg"]
      one_closure_no_far_pair [OF sz] cfg
    by (simp add: guard_settings_ok_def max_def sized_def)
  then have spread: "spread_ok rd ?ms cfg rel closure" by (simp add: spread_ok_def)
  have dis: "\<not> apart (stated fp_disposition ?ms) closure (\<noteq>)"
    using differ.apart_pairwise one_closure_no_far_pair [OF st] by blast
  have flo: "\<not> apart (stated flat_floor ?ms) closure (\<noteq>)"
    using differ.apart_pairwise one_closure_no_far_pair [OF fl] by blast
  have "pair_key a b \<notin> mnl" if ab: "(a, b) \<in> set (pairs_of (map fp_id ?ms))" for a b
  proof
    assume m: "pair_key a b \<in> mnl"
    have "pair_key a b \<notin> op_mnl" using j ab by blast
    then have "(fst (pair_key a b), snd (pair_key a b)) \<in> mnl - op_mnl" using m by simp
    then have "closure (fst (pair_key a b)) = None
        \<or> closure (fst (pair_key a b)) \<noteq> closure (snd (pair_key a b))"
      using mnl by blast
    moreover have "a \<in> set c" "b \<in> set c" using pairs_of_memD [OF ab] ids by auto
    ultimately show False using cl by (auto simp: pair_key_def split: if_splits)
  qed
  moreover have "violating_pair rd r (map fp_id ?ms) = None" if r: "rel = Some r" for r
  proof -
    have "rel_ok rd r a b" if ab: "(a, b) \<in> set (pairs_of (sort (map fp_id ?ms)))" for a b
    proof -
      have "a \<in> set c" "b \<in> set c" using pairs_of_memD [OF ab] ids by auto
      then show ?thesis using cl rel r by (simp add: rel_ok_def ok_step_def Let_def)
    qed
    then show ?thesis by (auto simp: violating_pair_None)
  qed
  ultimately show ?thesis
    unfolding holds_together_def prod.case invariants_None
    using j spread dis flo by (auto split: option.split)
qed

lemma valid_closures_kept:
  assumes cfg: "guard_settings_ok cfg" and keyed: "fps_keyed fps"
  shows "\<exists>kept dissolved. valid_closures rd fps cfg op_mnl ml = Some (kept, dissolved)
    \<and> closures_ok kept \<and> (\<forall>c \<in> set kept. judge_closure rd fps cfg op_mnl c = None)"
proof -
  obtain cs where cs: "must_link_closures (\<lambda>m. fps m \<noteq> None) ml = Some cs"
    using must_link_forest by blast
  then have "closures_ok cs" by (rule must_link_closures_ok)
  then have "closures_ok (filter (\<lambda>c. judge_closure rd fps cfg op_mnl c = None) cs)"
    by (rule closures_ok_filter)
  then show ?thesis using cs by (simp add: valid_closures_def)
qed

text \<open>The rules a call of \<open>cluster_pairs\<close> works under.\<close>

definition rules_in :: "('l, 'f) fact_reader \<Rightarrow> (int \<Rightarrow> fingerprint option) \<Rightarrow> cluster_settings
    \<Rightarrow> ('l, 'f) inputs \<Rightarrow> ('l, 'f) rules" where
  "rules_in rd fps cfg inp =
     (rd, fps, cs_guard cfg, i_must_not_link inp, i_relation inp, closure_map (i_closures inp))"

lemma cluster_inputs_total:
  assumes cfg: "guard_settings_ok (cs_guard cfg)" and keyed: "fps_keyed fps"
  shows "\<exists>inp. cluster_inputs rd fps cfg op_mnl relation ml vetoes = Some inp
    \<and> closures_ok (i_closures inp)
    \<and> (\<forall>(k, c) \<in> set (i_closures inp). holds_together (rules_in rd fps cfg inp) c)"
proof (cases "ml = []")
  case True
  then show ?thesis by (simp add: cluster_inputs_def closures_ok_def Let_def)
next
  case False
  obtain kept dissolved where v: "valid_closures rd fps (cs_guard cfg) op_mnl ml = Some (kept, dissolved)"
      "closures_ok kept" "\<forall>c \<in> set kept. judge_closure rd fps (cs_guard cfg) op_mnl c = None"
    using valid_closures_kept [OF cfg keyed] by blast
  obtain inp where inp: "cluster_inputs rd fps cfg op_mnl relation ml vetoes = Some inp"
      "i_closures inp = kept"
      "i_must_not_link inp = op_mnl \<union> Set.filter (\<lambda>p. closure_map kept (fst p) = None \<or>
             closure_map kept (fst p) \<noteq> closure_map kept (snd p)) vetoes"
      "i_relation inp = (case relation of None \<Rightarrow> None
             | Some r \<Rightarrow> if kept = [] then Some r else Some (bound (closure_map kept) r))"
    using False v(1) by (simp add: cluster_inputs_def Let_def)
  have "holds_together (rules_in rd fps cfg inp) c" if kc: "(k, c) \<in> set kept" for k c
    unfolding rules_in_def inp(2)
  proof (rule closure_valid [OF cfg keyed])
    show "judge_closure rd fps (cs_guard cfg) op_mnl (k, c) = None" using v(3) kc by blast
    show "\<forall>m \<in> set c. closure_map kept m = Some k"
      using closure_map_eq [of kept] v(2) kc by (auto simp: closures_ok_def)
    show "\<forall>(a, b) \<in> i_must_not_link inp - op_mnl.
        closure_map kept a = None \<or> closure_map kept a \<noteq> closure_map kept b"
      by (auto simp: inp(3))
    show "case i_relation inp of None \<Rightarrow> True | Some r \<Rightarrow> rel_closure_of r = closure_map kept"
      using kc by (auto simp: inp(4) bound_def split: option.splits if_splits)
  qed
  then show ?thesis using inp(1,2) v(2) by auto
qed

lemma union_find_pass_valid:
  assumes R: "rules_ok (rd, fps, cs_guard cfg, mnl, rel, closure_map closures)"
    and cl: "closures_ok closures"
    and held: "\<forall>(k, c) \<in> set closures.
      holds_together (rd, fps, cs_guard cfg, mnl, rel, closure_map closures) c"
  shows "\<exists>p rows. union_find_pass rd fps cfg mnl rel closures es = Some (p, rows)
    \<and> uf_good (rd, fps, cs_guard cfg, mnl, rel, closure_map closures) (p_uf p)"
proof -
  let ?R = "(rd, fps, cs_guard cfg, mnl, rel, closure_map closures)"
  obtain s1 where s1: "foldM (\<lambda>d s. Option.bind (uf_add (d_lo d) s) (\<lambda>(s1, _).
        map_option fst (uf_add (d_hi d) s1))) es empty_uf = Some s1" "uf_ok s1" "conn (parent s1) \<subseteq> Id"
    using adds_ok by blast
  obtain s2 where s2: "foldM link_closure (map snd closures) s1 = Some s2" "uf_ok s2"
      "\<forall>r ms. map_of (groups s2) r = Some ms \<longrightarrow> 1 < length ms \<longrightarrow>
         (\<exists>k c. (k, c) \<in> set closures \<and> set c = set ms \<and> distinct c)"
    using closures_linked [OF s1(2,3) cl] by blast
  have "valid_groups ?R s2"
    unfolding valid_groups_def
  proof (intro allI impI)
    fix r ms assume m: "map_of (groups s2) r = Some ms" "1 < length ms"
    then obtain k c where c: "(k, c) \<in> set closures" "set c = set ms" using s2(3) by blast
    then have "holds_together ?R c" using held by blast
    moreover have "distinct ms" by (rule uf_okD(4) [OF s2(2) m(1)])
    ultimately show "holds_together ?R ms" using holds_together_perm [OF R] c(2) by simp
  qed
  then have good2: "uf_good ?R s2" using s2(2) by (simp add: uf_good_def)
  let ?p0 = "\<lparr>p_uf = s2, p_conflicts = [], p_bridges = [], p_accepted = 0, p_redundant = 0\<rparr>"
  have "\<exists>p. foldM (offer_edge rd fps (cs_guard cfg) mnl rel (closure_map closures)) es ?p0 = Some p
      \<and> uf_good ?R (p_uf p)"
    by (rule foldM_total) (use good2 offer_edge_good [OF R] in simp_all)
  then obtain p where p: "foldM (offer_edge rd fps (cs_guard cfg) mnl rel (closure_map closures)) es ?p0 = Some p"
      "uf_good ?R (p_uf p)"
    by blast
  obtain s3 rows where "apply_bridges rd fps cfg mnl rel (closure_map closures) (p_bridges p) (p_uf p)
      = Some (s3, rows)" "uf_good ?R s3"
    using apply_bridges_good [OF R p(2), of "p_bridges p"] by auto
  then show ?thesis using s1(1) s2(1) p(1) by (auto simp: union_find_pass_def)
qed

text \<open>The clusters read off a good object.\<close>

lemma multi_mem: "(k, ms) \<in> set (multi g) \<longleftrightarrow> (k, ms) \<in> set g \<and> 1 < length ms"
  by (auto simp: multi_def)

lemma clusters_of_uf:
  assumes R: "rules_ok R" and good: "uf_good R s"
    and cs: "cs = multi (map (\<lambda>(k, ms). (k, sort ms)) (groups s))"
  shows "\<forall>(k, ms) \<in> set cs. 1 < length ms \<and> sorted ms \<and> hd ms = k \<and> holds_together R ms"
    and "distinct (concat (map snd cs))" and "sorted (map fst cs)"
proof -
  have ok: "uf_ok s" and v: "valid_groups R s" using good by (simp_all add: uf_good_def)
  have grp: "1 < length ms \<and> sorted ms \<and> hd ms = k \<and> distinct ms \<and> holds_together R ms
      \<and> set ms = {x \<in> items (parent s). rooted (parent s) x k}"
    if m: "(k, ms) \<in> set cs" for k ms
  proof -
    obtain gs where gs: "(k, gs) \<in> set (groups s)" "ms = sort gs" "1 < length ms"
      using m by (auto simp: cs multi_mem)
    have g: "map_of (groups s) k = Some gs" using gs(1) uf_okD(2) [OF ok] by simp
    have set: "set gs = {x \<in> items (parent s). rooted (parent s) x k}" by (rule uf_okD(5) [OF ok g])
    have "map_of (groups s) k \<noteq> None" using g by simp
    then have "k \<in> set gs" using uf_okD(3) [OF ok, of k] set by blast
    moreover have "\<forall>x \<in> set gs. k \<le> x" using set root_le uf_okD(1) [OF ok] by blast
    ultimately have "hd ms = k" using hd_sort_least gs(2) by metis
    moreover have "holds_together R ms"
      using holds_together_perm [OF R valid_groupsD [OF v g]] gs(2,3) uf_okD(4) [OF ok g] by simp
    ultimately show ?thesis using gs set uf_okD(4) [OF ok g] by simp
  qed
  then show "\<forall>(k, ms) \<in> set cs. 1 < length ms \<and> sorted ms \<and> hd ms = k \<and> holds_together R ms"
    by blast
  have keys: "distinct (map fst cs) \<and> sorted (map fst cs)"
  proof -
    let ?g = "map (\<lambda>(k, ms). (k, sort ms)) (groups s)"
    have "distinct (map fst ?g)" using uf_okD(2) [OF ok] by (simp add: comp_def case_prod_unfold)
    moreover have "distinct (map fst (sort_key fst g)) = distinct (map fst g)" for g :: "(int, int list) dict"
    proof -
      have "mset (map fst (sort_key fst g)) = mset (map fst g)" by simp
      then show ?thesis by (rule mset_eq_imp_distinct_iff)
    qed
    ultimately have "distinct (map fst (sort_key fst ?g))" by blast
    then show ?thesis
      unfolding cs multi_def using sorted_filter [of fst "sort_key fst ?g"]
      by (simp add: distinct_map_filter)
  qed
  then show "sorted (map fst cs)" by blast
  show "distinct (concat (map snd cs))"
  proof (rule distinct_concat)
    have "inj_on snd (set cs)"
    proof (rule inj_onI)
      fix p q assume pq: "p \<in> set cs" "q \<in> set cs" "snd p = snd q"
      have "hd (snd x) = fst x" if "x \<in> set cs" for x using grp [of "fst x" "snd x"] that by simp
      from this [OF pq(1)] this [OF pq(2)] show "p = q" using pq(3) by (simp add: prod_eq_iff)
    qed
    moreover have "distinct cs" using keys by (simp add: distinct_map)
    ultimately show "distinct (map snd cs)" by (simp add: distinct_map)
    show "distinct ys" if "ys \<in> set (map snd cs)" for ys using that grp by auto
    show "set ys \<inter> set zs = {}" if yz: "ys \<in> set (map snd cs)" "zs \<in> set (map snd cs)" "ys \<noteq> zs" for ys zs
    proof -
      obtain k l where kl: "(k, ys) \<in> set cs" "(l, zs) \<in> set cs" using yz by auto
      then have "k \<noteq> l" using yz(3) keys eq_key_imp_eq_value by metis
      then show ?thesis using grp [OF kl(1)] grp [OF kl(2)] root_unique by blast
    qed
  qed
qed

text \<open>
  C10. The constrained union-find: with the settings' own checks, \<open>cluster_pairs\<close> returns, and
  every cluster it returns has at least two adverts, is sorted and keyed by its smallest, and
  satisfies every invariant under the closures, vetoes and relation in force; no advert is in
  two clusters.
\<close>

theorem union_find_clusters_valid:
  assumes "guard_settings_ok (cs_guard cfg)" and "printed_symmetric rd" and "fps_keyed fps"
    and "\<not> repartition cfg"
  shows "\<exists>inp res. cluster_inputs rd fps cfg mnl relation must_link vetoes = Some inp \<and>
    cluster_pairs rd decisions fps cfg mnl relation must_link vetoes = Some res \<and>
    distinct (concat (map snd (r_clusters res))) \<and> sorted (map fst (r_clusters res)) \<and>
    (\<forall>(k, ms) \<in> set (r_clusters res). 1 < length ms \<and> sorted ms \<and> hd ms = k \<and>
       holds_together (rules_in rd fps cfg inp) ms)"
proof -
  obtain inp where inp: "cluster_inputs rd fps cfg mnl relation must_link vetoes = Some inp"
      "closures_ok (i_closures inp)"
      "\<forall>(k, c) \<in> set (i_closures inp). holds_together (rules_in rd fps cfg inp) c"
    using cluster_inputs_total [OF assms(1,3)] by blast
  have R: "rules_ok (rules_in rd fps cfg inp)" using assms(1-3) by (simp add: rules_ok_def rules_in_def)
  obtain p rows where p: "union_find_pass rd fps cfg (i_must_not_link inp) (i_relation inp)
        (i_closures inp) (merge_edges decisions) = Some (p, rows)"
      "uf_good (rules_in rd fps cfg inp) (p_uf p)"
    using union_find_pass_valid [OF R [unfolded rules_in_def] inp(2)] inp(3) unfolding rules_in_def by blast
  obtain res where res: "cluster_pairs rd decisions fps cfg mnl relation must_link vetoes = Some res"
      "r_clusters res = multi (map (\<lambda>(k, ms). (k, sort ms)) (groups (p_uf p)))"
    using assms(4) p(1) by (simp add: cluster_pairs_def inp(1) Let_def)
  show ?thesis
    using inp(1) res clusters_of_uf [OF R p(2) res(2)] by blast
qed

text \<open>Three flats: two alike and one of another size, the like ones joined by a strong edge.\<close>

definition flat :: "int \<Rightarrow> rat \<Rightarrow> fingerprint" where
  "flat i area = \<lparr>fp_id = i, fp_type = Some ''prodej'', fp_main = Some ''byt'', fp_area = Some area,
     fp_disposition = Some ''2+kk'', fp_floor = Some 3\<rparr>"

definition flats :: "int \<Rightarrow> fingerprint option" where
  "flats i = (if i = 1 then Some (flat 1 50) else if i = 2 then Some (flat 2 51)
     else if i = 3 then Some (flat 3 70) else None)"

definition merge :: "int \<Rightarrow> int \<Rightarrow> rat \<Rightarrow> decision" where
  "merge lo hi score = \<lparr>d_lo = lo, d_hi = hi, d_score = score, d_certificate = None,
     d_zone = ''merge'', d_families = [''geo'']\<rparr>"

definition plain_settings :: cluster_settings where
  "plain_settings = \<lparr>cs_guard = default_guard_settings, bridge_apply = False, bridge_min_score = 999/1000,
     repartition = False, repartition_max_rounds = 4, repartition_keep_factless = False,
     repartition_rejoin_cells = False, repartition_shed_blockers = False, repartition_shed_max = 1,
     repartition_shed_max_union = 64, repartition_outer_rounds = 1,
     repartition_shed_factless_guard = ''off'', repartition_reconcile_factless_first = False\<rparr>"

theorem union_find_clusters_witness:
  "\<exists>inp res. cluster_inputs price_reader flats plain_settings {} None [] {} = Some inp \<and>
    cluster_pairs price_reader [merge 2 3 (9/10), merge 1 2 (95/100)] flats plain_settings {} None [] {} = Some res \<and>
    distinct (concat (map snd (r_clusters res))) \<and> sorted (map fst (r_clusters res)) \<and>
    (\<forall>(k, ms) \<in> set (r_clusters res). 1 < length ms \<and> sorted ms \<and> hd ms = k \<and>
       holds_together (rules_in price_reader flats plain_settings inp) ms)"
proof (rule union_find_clusters_valid)
  show "guard_settings_ok (cs_guard plain_settings)"
    by (simp add: plain_settings_def guard_settings_ok_def default_guard_settings_def)
  show "fps_keyed flats" by (auto simp: fps_keyed_def flats_def flat_def split: if_splits)
qed (simp_all add: price_reader_printed plain_settings_def)

lemma flats_clustered:
  "map_option r_clusters
     (cluster_pairs price_reader [merge 2 3 (9/10), merge 1 2 (95/100)] flats plain_settings {} None [] {})
     = Some [(1, [1, 2])]"
  by code_simp

section \<open>A function of the edge set\<close>

lemma edge_rank_inj: "inj_on (\<lambda>d. (d_lo d, d_hi d)) A \<Longrightarrow> inj_on edge_rank A"
  by (auto simp: inj_on_def edge_rank_def)

text \<open>
  The clustering is a function of the SET of decisions: in whatever order the caller holds
  them, with one decision per pair the result is the same, conflicts and statistics included.
\<close>

theorem cluster_pairs_order_independent:
  assumes "mset ds = mset ds'" and "inj_on (\<lambda>d. (d_lo d, d_hi d)) (set ds)"
  shows "cluster_pairs rd ds fps cfg mnl relation must_link vetoes
       = cluster_pairs rd ds' fps cfg mnl relation must_link vetoes"
proof -
  have "merge_edges ds = merge_edges ds'"
    unfolding merge_edges_def
  proof (rule sort_key_mset_inj)
    show "mset (filter (\<lambda>d. d_zone d = ''merge'') ds) = mset (filter (\<lambda>d. d_zone d = ''merge'') ds')"
      using assms(1) by simp
    show "inj_on edge_rank (set (filter (\<lambda>d. d_zone d = ''merge'') ds))"
      using edge_rank_inj [OF assms(2)] by (auto intro: inj_on_subset)
  qed
  then show ?thesis by (simp add: cluster_pairs_def)
qed

theorem cluster_pairs_order_witness:
  "cluster_pairs price_reader [merge 2 3 (9/10), merge 1 2 (95/100)] flats plain_settings {} None [] {}
     = cluster_pairs price_reader [merge 1 2 (95/100), merge 2 3 (9/10)] flats plain_settings {} None [] {}"
  by (rule cluster_pairs_order_independent) (simp_all add: add_mset_commute merge_def)

end
