(* ===== verification/Cluster_Repartition.thy ===== *)
theory Cluster_Repartition
  imports Cluster_Laws
begin

text \<open>
  The repartition pass of \<open>autodedup/cluster.py\<close>: the caller's \<open>invariants\<close> closure, read on the
  nodes of the contracted graph, meets the contract \<open>partition\<close> asks of it (\<open>member_rules\<close>), so
  every cluster of the pass satisfies the guards and no operator closure is ever split.
\<close>

section \<open>Nodes\<close>

text \<open>A node of the contracted graph: a closure's key, or an advert no closure holds.\<close>

definition is_node :: "(int, int list) dict \<Rightarrow> int \<Rightarrow> bool" where
  "is_node closures n \<longleftrightarrow> n \<in> fst ` set closures \<or> closure_map closures n = None"

definition block :: "(int, int list) dict \<Rightarrow> int \<Rightarrow> int list" where
  "block closures n = (case map_of closures n of None \<Rightarrow> [n] | Some ms \<Rightarrow> ms)"

lemma expand_block: "expand closures ns = sort (concat (map (block closures) ns))"
  by (simp add: expand_def block_def [abs_def])

lemma set_expand: "set (expand closures ns) = (\<Union>n \<in> set ns. set (block closures n))"
  by (simp add: expand_block)

lemma closures_disjoint: "closures_ok closures \<Longrightarrow> distinct (concat (map snd closures))"
  by (simp add: closures_ok_def)

lemma closure_key_unique:
  assumes ok: "closures_ok closures" and "(k, ms) \<in> set closures" and "(k, ms') \<in> set closures"
  shows "ms = ms'"
proof -
  have "k \<in> set ms" "k \<in> set ms'"
    using ok assms(2,3) by (cases ms; cases ms'; fastforce simp: closures_ok_def)+
  then show ?thesis
    using distinct_concat_unique [OF closures_disjoint [OF ok], of ms ms' k] assms(2,3) by force
qed

lemma block_closure: "closures_ok closures \<Longrightarrow> (k, ms) \<in> set closures \<Longrightarrow> block closures k = ms"
proof -
  assume ok: "closures_ok closures" and m: "(k, ms) \<in> set closures"
  obtain ms' where ms': "map_of closures k = Some ms'"
    using m by (meson weak_map_of_SomeI)
  then have "ms' = ms" using closure_key_unique [OF ok map_of_SomeD [OF ms'] m] by simp
  then show ?thesis by (simp add: block_def ms')
qed

lemma block_single: "n \<notin> fst ` set closures \<Longrightarrow> block closures n = [n]"
  by (simp add: block_def map_of_eq_None_iff [symmetric] split: option.split)

lemma node_key:
  assumes "closures_ok closures" and "closure_map closures m = Some k"
  shows "k \<in> fst ` set closures" and "node closures m = k"
  using closure_map_eq [OF closures_disjoint [OF assms(1)], of m k] assms(2)
  by (auto simp: node_def rev_image_eqI)

lemma node_is_node:
  assumes ok: "closures_ok closures"
  shows "is_node closures (node closures i)"
proof (cases "closure_map closures i")
  case (Some k)
  then show ?thesis using node_key [OF ok Some] by (simp add: is_node_def)
qed (simp add: node_def is_node_def)

text \<open>The members of a node's block are exactly the adverts the contraction sends to it.\<close>

lemma node_block:
  assumes ok: "closures_ok closures" and n: "is_node closures n"
  shows "m \<in> set (block closures n) \<longleftrightarrow> node closures m = n"
proof (cases "n \<in> fst ` set closures")
  case True
  then obtain ms where ms: "(n, ms) \<in> set closures" by auto
  have key: "n \<in> set ms" using ok ms by (cases ms) (fastforce simp: closures_ok_def)+
  note cm = closure_map_eq [OF closures_disjoint [OF ok]]
  have "m \<in> set ms \<longleftrightarrow> closure_map closures m = Some n"
    using cm [of m n] ms closure_key_unique [OF ok] by blast
  moreover have "closure_map closures n = Some n" using cm [of n n] ms key by blast
  ultimately show ?thesis
    using block_closure [OF ok ms] by (auto simp: node_def split: option.splits)
next
  case False
  then have "closure_map closures n = None" using n by (simp add: is_node_def)
  moreover have "node closures m \<in> fst ` set closures" if "closure_map closures m \<noteq> None"
    using that node_key [OF ok] by blast
  ultimately show ?thesis
    using block_single [OF False] False by (auto simp: node_def split: option.splits)
qed

lemma block_distinct:
  assumes ok: "closures_ok closures"
  shows "distinct (block closures n) \<and> block closures n \<noteq> []"
proof (cases "n \<in> fst ` set closures")
  case True
  then obtain ms where ms: "(n, ms) \<in> set closures" by auto
  have "distinct ms"
    by (rule distinct_concat_member [OF closures_disjoint [OF ok]]) (use ms in force)
  moreover have "ms \<noteq> []" using ok ms by (fastforce simp: closures_ok_def)
  ultimately show ?thesis by (simp add: block_closure [OF ok ms])
qed (simp add: block_single)

lemma expand_node:
  assumes "closures_ok closures" and "\<forall>n \<in> set ns. is_node closures n"
  shows "m \<in> set (expand closures ns) \<longleftrightarrow> node closures m \<in> set ns"
proof -
  have "m \<in> set (expand closures ns) \<longleftrightarrow> (\<exists>n \<in> set ns. node closures m = n)"
    unfolding set_expand using node_block [OF assms(1)] assms(2) by blast
  then show ?thesis by blast
qed

lemma expand_distinct:
  assumes ok: "closures_ok closures" and "\<forall>n \<in> set ns. is_node closures n" and "distinct ns"
  shows "distinct (expand closures ns)"
proof -
  have "distinct (concat (map (block closures) ns))"
    using assms(2,3)
  proof (induction ns)
    case (Cons n ns)
    have "m \<notin> set (block closures x)" if "m \<in> set (block closures n)" "x \<in> set ns" for m x
    proof
      assume "m \<in> set (block closures x)"
      then have "node closures m = x" using node_block [OF ok] that(2) Cons.prems(1) by simp
      moreover have "node closures m = n" using node_block [OF ok] that(1) Cons.prems(1) by simp
      ultimately show False using that(2) Cons.prems(2) by simp
    qed
    then show ?case using Cons block_distinct [OF ok, of n] by auto
  qed simp
  then show ?thesis by (simp add: expand_block)
qed

section \<open>The contract of \<open>partition\<close>\<close>

text \<open>Where the layout limb cannot be switched off by a member: it is off, or no advert is land.\<close>

definition layout_steady :: "guard_settings \<Rightarrow> (int \<Rightarrow> fingerprint option) \<Rightarrow> bool" where
  "layout_steady cfg fps \<longleftrightarrow>
     \<not> cluster_disposition cfg \<or> (\<forall>m fp. fps m = Some fp \<longrightarrow> fp_main fp \<noteq> Some LAND_CATEGORY)"

lemma holds_together_subset:
  assumes R: "rules_ok (rd, fps, cfg, mnl, rel, closure)" and off: "layout_steady cfg fps"
    and h: "holds_together (rd, fps, cfg, mnl, rel, closure) xs" and sub: "set ys \<subseteq> set xs"
    and d: "distinct ys"
  shows "holds_together (rd, fps, cfg, mnl, rel, closure) ys"
proof -
  have k: "guard_settings_ok cfg" "printed_symmetric rd" "fps_keyed fps"
    using R by (simp_all add: rules_ok_def)
  have land: "\<not> cluster_disposition cfg \<or> Some LAND_CATEGORY \<notin> fp_main ` set (fps_of fps xs)
      \<or> Some LAND_CATEGORY \<in> fp_main ` set (fps_of fps ys)"
    using off by (auto simp: layout_steady_def fps_of_set) metis
  have "cluster_invariants_ok rd (fps_of fps ys) cfg mnl rel closure = None"
    by (rule invariants_closed [OF k(1,2) land _ fps_of_distinct [OF k(3) d]])
      (use h sub in \<open>auto simp: holds_together_def fps_of_set\<close>)
  then show ?thesis by (simp add: holds_together_def)
qed

lemma short_apart:
  assumes "length vals \<le> 1" and "\<And>v. v \<in> snd ` set vals \<Longrightarrow> \<not> far v v"
  shows "\<not> apart vals closure far"
proof (cases vals)
  case (Cons p ps)
  then have "vals = [p]" using assms(1) by simp
  then show ?thesis using assms(2) [of "snd p"] by (cases "closure (fst p)") (auto simp: apart_def closure_keys_def)
qed (simp add: apart_def)

lemma lone_member_ok:
  assumes cfg: "guard_settings_ok cfg" and short: "length ms \<le> 1"
  shows "cluster_invariants_ok rd ms cfg mnl rel closure = None"
proof -
  have all_eq: "a = b" if "a \<in> set ms" "b \<in> set ms" for a b
    using that short by (cases ms) auto
  have len: "length (stated f ms) \<le> 1" for f :: "fingerprint \<Rightarrow> 'v option"
    using order_trans [OF length_filter_le short] by (simp add: stated_def del: not_None_eq)
  have "length (sized ms) \<le> 1"
    unfolding sized_def by (rule order_trans [OF length_filter_le len])
  then have "\<not> apart (sized ms) closure (area_far (cluster_area_spread cfg))"
    by (rule short_apart) (use cfg in \<open>simp add: area_far_def guard_settings_ok_def\<close>)
  then have spread: "spread_ok rd ms cfg rel closure" by (simp add: spread_ok_def)
  have st: "\<not> apart (stated f ms) closure (\<noteq>)" for f :: "fingerprint \<Rightarrow> 'w::linorder option"
    by (rule short_apart [OF len]) simp
  have pairs: "pairs_of xs = []" if "length xs \<le> 1" for xs :: "int list"
    using that by (cases xs) auto
  have one: "a = b" if "a \<in> known f ms" "b \<in> known f ms" for a b and f :: "fingerprint \<Rightarrow> string option"
    using that all_eq by (auto simp: known_def)
  have ids: "pairs_of (map fp_id ms) = []" "pairs_of (sort (map fp_id ms)) = []"
    using short by (simp_all add: pairs)
  have size: "int (length ms) \<le> max_cluster_size cfg" using short cfg by (simp add: guard_settings_ok_def)
  have rel_ok: "case rel of None \<Rightarrow> True | Some r \<Rightarrow> violating_pair rd r (map fp_id ms) = None"
    by (simp add: violating_pair_None ids(2) split: option.split)
  have mains: "\<forall>a \<in> known fp_main ms. \<forall>b \<in> known fp_main ms. category_main_compatible (Some a) (Some b)"
    using one [of _ fp_main] by (metis category_main_compatible_refl)
  show ?thesis
    unfolding invariants_None ids(1)
    using spread st [of fp_disposition] st [of flat_floor] size rel_ok mains one [of _ fp_type] by simp
qed

text \<open>One call of \<open>_repartition_clusters\<close>: its rules, its closures.\<close>

definition pass_ok :: "('l, 'f) rules \<Rightarrow> (int, int list) dict \<Rightarrow> bool" where
  "pass_ok R closures \<longleftrightarrow> rules_ok R \<and> closures_ok closures \<and>
     (\<forall>(k, c) \<in> set closures. holds_together R c) \<and>
     (case R of (rd, fps, cfg, mnl, rel, closure) \<Rightarrow>
        closure = closure_map closures \<and> layout_steady cfg fps)"

lemma node_invariants_None:
  "node_invariants rd fps cfg mnl rel closures ns = None \<longleftrightarrow>
   holds_together (rd, fps, cfg, mnl, rel, closure_map closures) (expand closures ns)"
  by (simp add: node_invariants_def holds_together_def)

lemma node_rules:
  assumes ok: "pass_ok (rd, fps, cfg, mnl, rel, closure_map closures) closures"
    and ns: "\<forall>n \<in> set c. is_node closures n"
  shows "member_rules (node_invariants rd fps cfg mnl rel closures) c"
proof
  let ?R = "(rd, fps, cfg, mnl, rel, closure_map closures)"
  have R: "rules_ok ?R" "closures_ok closures" "layout_steady cfg fps"
    using ok by (simp_all add: pass_ok_def)
  show "node_invariants rd fps cfg mnl rel closures ys = None"
    if xs: "set xs \<subseteq> set c" "node_invariants rd fps cfg mnl rel closures xs = None"
      and ys: "set ys \<subseteq> set xs" "distinct ys" for xs ys
    unfolding node_invariants_None
  proof (rule holds_together_subset [OF R(1,3)])
    show "holds_together ?R (expand closures xs)" using xs(2) by (simp add: node_invariants_None)
    show "set (expand closures ys) \<subseteq> set (expand closures xs)" using ys(1) by (auto simp: set_expand)
    show "distinct (expand closures ys)"
      using ns xs(1) ys by (intro expand_distinct [OF R(2)]) auto
  qed
  have settings: "guard_settings_ok cfg" using R(1) by (simp add: rules_ok_def)
  show "node_invariants rd fps cfg mnl rel closures [] = None"
    by (simp add: node_invariants_None holds_together_def expand_def fps_of_def lone_member_ok [OF settings])
  show "node_invariants rd fps cfg mnl rel closures [n] = None" if "n \<in> set c" for n
  proof (cases "n \<in> fst ` set closures")
    case True
    then obtain ms where ms: "(n, ms) \<in> set closures" by auto
    then have "sorted ms" "holds_together ?R ms" using ok by (auto simp: pass_ok_def closures_ok_def)
    then show ?thesis
      by (simp add: node_invariants_None expand_block block_closure [OF R(2) ms] sorted_sort_id)
  next
    case False
    have "length (fps_of fps [n]) \<le> 1" by (simp add: fps_of_def)
    then show ?thesis
      using lone_member_ok [OF settings]
      by (simp add: node_invariants_None holds_together_def expand_block block_single [OF False])
  qed
qed

text \<open>
  The invariants of a pass as one function: where the pass's rules or the nodes of the component
  are not in order nothing is asked, so that the contract of \<open>partition\<close> holds of it for every
  argument.
\<close>

definition guarded_invariants ::
  "('l, 'f) fact_reader \<Rightarrow> (int \<Rightarrow> fingerprint option) \<Rightarrow> guard_settings \<Rightarrow> (int \<times> int) set \<Rightarrow>
   ('l, 'f) relation option \<Rightarrow> (int, int list) dict \<Rightarrow> int list \<Rightarrow> node_rule invariants" where
  "guarded_invariants rd fps cfg mnl rel closures c =
     (if pass_ok (rd, fps, cfg, mnl, rel, closure_map closures) closures \<and> (\<forall>n \<in> set c. is_node closures n)
      then node_invariants rd fps cfg mnl rel closures else (\<lambda>_. None))"

interpretation node: member_rules "guarded_invariants rd fps cfg mnl rel closures c" c
  for rd fps cfg mnl rel closures c
proof (cases "pass_ok (rd, fps, cfg, mnl, rel, closure_map closures) closures \<and>
    (\<forall>n \<in> set c. is_node closures n)")
  case True
  then show "member_rules (guarded_invariants rd fps cfg mnl rel closures c) c"
    by (auto simp: guarded_invariants_def intro!: node_rules)
next
  case False
  then have "guarded_invariants rd fps cfg mnl rel closures c = (\<lambda>_. None)"
    by (auto simp: guarded_invariants_def)
  then show "member_rules (guarded_invariants rd fps cfg mnl rel closures c) c"
    by unfold_locales simp_all
qed

lemma node_opts:
  assumes ok: "closures_ok closures" and ns: "\<forall>n \<in> set c. is_node closures n"
  shows "opts_ok c (node_invariants rd fps (cs_guard cfg) mnl rel closures)
           (partition_settings rd fps cfg mnl rel closures)"
proof -
  have "node_invariants rd fps (cs_guard cfg) mnl rel closures xs = None"
    if "node_strict rd fps cfg mnl rel closures xs = None" for xs
    using that by (simp add: node_strict_def split: option.splits)
  moreover have "set (node_blockers rd mnl rel closures xs) \<subseteq> set xs \<times> set xs"
    if xs: "set xs \<subseteq> set c" for xs
  proof -
    have "node closures l \<in> set xs" "node closures r \<in> set xs"
      if "(l, r) \<in> set (pairs_of (expand closures xs))" for l r
      using pairs_of_memD [OF that] expand_node [OF ok, of xs] ns xs by blast+
    then show ?thesis by (auto simp: node_blockers_def Let_def min_def max_def)
  qed
  ultimately show ?thesis by (auto simp: opts_ok_def partition_settings_def)
qed

section \<open>The cells of the components\<close>

definition place_cells :: "(int, int list) dict \<Rightarrow> int list list \<Rightarrow> (int, int list) dict \<Rightarrow> (int, int list) dict" where
  "place_cells closures cs g =
     fold (\<lambda>c g. AList.update (Min (set (expand closures c))) (expand closures c) g) cs g"

text \<open>A list of cells cut out of nodes: disjoint, non-empty, each acceptable.\<close>

definition good_cells :: "('l, 'f) rules \<Rightarrow> (int, int list) dict \<Rightarrow> int list list \<Rightarrow> bool" where
  "good_cells R closures cs \<longleftrightarrow> distinct (concat cs) \<and>
     (\<forall>c \<in> set cs. c \<noteq> [] \<and> (\<forall>n \<in> set c. is_node closures n) \<and> holds_together R (expand closures c))"

lemma cut_component_good:
  assumes ok: "pass_ok (rd, fps, cs_guard cfg, mnl, rel, closure_map closures) closures"
    and ns: "\<forall>n \<in> set c. is_node closures n" and d: "distinct c" "c \<noteq> []"
  shows "\<exists>cs n'. cut_component rd fps cfg mnl rel closures graph c (g, n) = Some (place_cells closures cs g, n')
     \<and> good_cells (rd, fps, cs_guard cfg, mnl, rel, closure_map closures) closures cs
     \<and> set (concat cs) = set c"
proof (cases "node_invariants rd fps (cs_guard cfg) mnl rel closures c = None")
  case True
  then have "cut_component rd fps cfg mnl rel closures graph c (g, n) = Some (place_cells closures [c] g, n)"
    by (simp add: cut_component_def place_cells_def)
  moreover have "good_cells (rd, fps, cs_guard cfg, mnl, rel, closure_map closures) closures [c]"
    using True ns d by (simp add: good_cells_def node_invariants_None)
  ultimately show ?thesis by fastforce
next
  case False
  let ?invs = "node_invariants rd fps (cs_guard cfg) mnl rel closures"
  have cl: "closures_ok closures" using ok by (simp add: pass_ok_def)
  let ?local = "filter (\<lambda>e. elo e \<in> set c \<and> ehi e \<in> set c) graph"
  have guard: "guarded_invariants rd fps (cs_guard cfg) mnl rel closures c = ?invs"
    using ok ns by (simp add: guarded_invariants_def)
  have "edges_inside c ?local" by (simp add: edges_inside_def)
  then obtain cs where cs: "partition_cells c ?local ?invs (partition_settings rd fps cfg mnl rel closures) = Some cs"
      "is_partition c cs" "\<forall>x \<in> set cs. ?invs x = None"
    using node.partition_cells_spec [of c ?local rd fps "cs_guard cfg" mnl rel closures
        "partition_settings rd fps cfg mnl rel closures"] d(1) guard
      node_opts [OF cl ns, where rd = rd and fps = fps and cfg = cfg and mnl = mnl and rel = rel] by auto
  have "cut_component rd fps cfg mnl rel closures graph c (g, n) = Some (place_cells closures cs g, n + 1)"
    using False cs(1) by (simp add: cut_component_def place_cells_def Let_def)
  moreover have "good_cells (rd, fps, cs_guard cfg, mnl, rel, closure_map closures) closures cs"
    using cs(2,3) ns by (auto simp: good_cells_def is_partition_def node_invariants_None)
  ultimately show ?thesis using cs(2) by (auto simp: is_partition_def)
qed

lemma cut_components_good:
  assumes ok: "pass_ok (rd, fps, cs_guard cfg, mnl, rel, closure_map closures) closures"
  shows "\<forall>c \<in> set comps. (\<forall>n \<in> set c. is_node closures n) \<and> c \<noteq> [] \<Longrightarrow> distinct (concat comps) \<Longrightarrow>
   \<exists>cs n'. foldM (cut_component rd fps cfg mnl rel closures graph) comps (g, n) = Some (place_cells closures cs g, n')
     \<and> good_cells (rd, fps, cs_guard cfg, mnl, rel, closure_map closures) closures cs
     \<and> set (concat cs) = set (concat comps)"
proof (induction comps arbitrary: g n)
  case Nil
  show ?case by (rule exI [of _ "[]"]) (simp add: place_cells_def good_cells_def)
next
  case (Cons c comps)
  obtain cs1 n1 where 1: "cut_component rd fps cfg mnl rel closures graph c (g, n) = Some (place_cells closures cs1 g, n1)"
      "good_cells (rd, fps, cs_guard cfg, mnl, rel, closure_map closures) closures cs1" "set (concat cs1) = set c"
    using cut_component_good [OF ok, of c graph g n] Cons.prems by auto
  obtain cs2 n2 where 2: "foldM (cut_component rd fps cfg mnl rel closures graph) comps (place_cells closures cs1 g, n1)
        = Some (place_cells closures cs2 (place_cells closures cs1 g), n2)"
      "good_cells (rd, fps, cs_guard cfg, mnl, rel, closure_map closures) closures cs2"
      "set (concat cs2) = set (concat comps)"
    using Cons.IH [of "place_cells closures cs1 g" n1] Cons.prems by auto
  have "set (concat cs1) \<inter> set (concat cs2) = {}" unfolding 1(3) 2(3) using Cons.prems(2) by simp
  then have "good_cells (rd, fps, cs_guard cfg, mnl, rel, closure_map closures) closures (cs1 @ cs2)"
    using 1(2) 2(2) by (auto simp: good_cells_def)
  moreover have "foldM (cut_component rd fps cfg mnl rel closures graph) (c # comps) (g, n)
      = Some (place_cells closures (cs1 @ cs2) g, n2)"
    using 1(1) 2(1) by (simp add: place_cells_def)
  moreover have "set (concat (cs1 @ cs2)) = set (concat (c # comps))" using 1(3) 2(3) by simp
  ultimately show ?case by blast
qed

lemma distinct_cells: "distinct (concat cs) \<Longrightarrow> \<forall>c \<in> set cs. c \<noteq> [] \<Longrightarrow> distinct cs"
proof (induction cs)
  case (Cons c cs)
  have "c \<notin> set cs"
  proof
    assume "c \<in> set cs"
    then have "set c \<subseteq> set (concat cs)" by auto
    moreover have "set c \<inter> set (concat cs) = {}" using Cons.prems(1) by simp
    ultimately have "set c = {}" by (metis inf.absorb1)
    then show False using Cons.prems(2) by simp
  qed
  then show ?case using Cons by simp
qed simp

text \<open>The dictionary the cells are placed in.\<close>

lemma place_cells_entries:
  assumes cl: "closures_ok closures" and good: "good_cells R closures cs"
  shows "(k, ms) \<in> set (place_cells closures cs []) \<longleftrightarrow>
      (\<exists>c \<in> set cs. ms = expand closures c \<and> k = Min (set ms))"
    and "distinct (map fst (place_cells closures cs []))"
proof -
  let ?ps = "map (\<lambda>c. (Min (set (expand closures c)), expand closures c)) cs"
  have pl: "place_cells closures cs [] = fold (\<lambda>(m, k). AList.update m k) ?ps []"
    by (simp add: place_cells_def fold_map comp_def)
  have "distinct (map fst (fold (\<lambda>(m, k). AList.update m k) ?ps []))"
    by (rule fold_inv [where P = "\<lambda>d. distinct (map fst d)"]) (auto simp: distinct_update)
  then show d: "distinct (map fst (place_cells closures cs []))" by (simp add: pl)
  have nodes: "\<forall>n \<in> set c. is_node closures n" "c \<noteq> []" if "c \<in> set cs" for c
    using good that by (auto simp: good_cells_def)
  have mem: "Min (set (expand closures c)) \<in> set (expand closures c)" if "c \<in> set cs" for c
  proof -
    have "expand closures c \<noteq> []"
      using nodes(2) [OF that] block_distinct [OF cl] by (cases c) (auto simp: expand_block)
    then show ?thesis by (intro Min_in) auto
  qed
  have inj: "c = c'" if c: "c \<in> set cs" "c' \<in> set cs"
      "Min (set (expand closures c)) = Min (set (expand closures c'))" for c c'
  proof -
    let ?m = "Min (set (expand closures c))"
    have "?m \<in> set (expand closures c)" "?m \<in> set (expand closures c')" using mem c by simp_all metis
    then have "node closures ?m \<in> set c" "node closures ?m \<in> set c'"
      using expand_node [OF cl nodes(1)] c(1,2) by blast+
    then show ?thesis using distinct_concat_unique [OF _ c(1,2)] good by (auto simp: good_cells_def)
  qed
  have "distinct cs"
  proof -
    have "distinct (concat cs)" "\<forall>c \<in> set cs. c \<noteq> []" using good by (auto simp: good_cells_def)
    then show ?thesis by (rule distinct_cells)
  qed
  then have dk: "distinct (map fst (rev ?ps))"
    using inj by (auto simp: distinct_map inj_on_def comp_def)
  have "map_of (place_cells closures cs []) k = map_of (rev ?ps) k"
    unfolding pl by (simp add: map_of_updates split: option.split)
  then have "(k, ms) \<in> set (place_cells closures cs []) \<longleftrightarrow> (k, ms) \<in> set (rev ?ps)"
    by (simp only: map_of_eq_Some_iff [OF d, symmetric] map_of_eq_Some_iff [OF dk, symmetric])
  also have "\<dots> \<longleftrightarrow> (\<exists>c \<in> set cs. (k, ms) = (Min (set (expand closures c)), expand closures c))"
    by (unfold set_rev set_map image_iff, rule refl)
  also have "\<dots> \<longleftrightarrow> (\<exists>c \<in> set cs. ms = expand closures c \<and> k = Min (set ms))"
    by (rule bex_cong [OF refl]) auto
  finally show "(k, ms) \<in> set (place_cells closures cs []) \<longleftrightarrow>
      (\<exists>c \<in> set cs. ms = expand closures c \<and> k = Min (set ms))"
.
qed

section \<open>The pass\<close>

lemma contract_nodes:
  assumes cl: "closures_ok closures" and "d \<in> set (contract closures es)"
  shows "is_node closures (d_lo d) \<and> is_node closures (d_hi d)"
proof -
  obtain e where e: "e \<in> set es" "node closures (d_lo e) \<noteq> node closures (d_hi e)"
      "d = (if (node closures (d_lo e), node closures (d_hi e)) \<noteq> (d_lo e, d_hi e)
            then e\<lparr>d_lo := min (node closures (d_lo e)) (node closures (d_hi e)),
                   d_hi := max (node closures (d_lo e)) (node closures (d_hi e))\<rparr> else e)"
    using assms(2) by (auto simp: contract_def Let_def split: if_splits)
  have n: "is_node closures (node closures i)" for i by (rule node_is_node [OF cl])
  show ?thesis
  proof (cases "(node closures (d_lo e), node closures (d_hi e)) \<noteq> (d_lo e, d_hi e)")
    case True
    then show ?thesis using e(3) n by (auto simp: min_def max_def)
  next
    case False
    then have "d = e" "node closures (d_lo e) = d_lo e" "node closures (d_hi e) = d_hi e" using e(3) by simp_all
    then show ?thesis using n [of "d_lo e"] n [of "d_hi e"] by simp
  qed
qed

lemma repartition_valid:
  assumes ok: "pass_ok (rd, fps, cs_guard cfg, mnl, rel, closure_map closures) closures"
  shows "\<exists>grouped conflicts n_cut. repartition_clusters rd es fps cfg mnl rel closures = Some (grouped, conflicts, n_cut)
    \<and> distinct (map fst grouped)
    \<and> (\<forall>(k, ms) \<in> set grouped. sorted ms \<and> distinct ms \<and> hd ms = k
         \<and> holds_together (rd, fps, cs_guard cfg, mnl, rel, closure_map closures) ms)
    \<and> (\<forall>p \<in> set grouped. \<forall>q \<in> set grouped. p \<noteq> q \<longrightarrow> set (snd p) \<inter> set (snd q) = {})
    \<and> (\<forall>(k, c) \<in> set closures. \<exists>(l, ms) \<in> set grouped. set c \<subseteq> set ms)"
proof -
  let ?R = "(rd, fps, cs_guard cfg, mnl, rel, closure_map closures)"
  have cl: "closures_ok closures" using ok by (simp add: pass_ok_def)
  let ?con = "contract closures es"
  let ?graph = "map graph_edge ?con"
  let ?touched = "concat (map (\<lambda>d. [d_lo d, d_hi d]) ?con)"
  let ?N = "set ?touched \<union> set (filter (\<lambda>k. k \<notin> set ?touched) (map fst closures))"
  let ?nodes = "sorted_list_of_set ?N"
  have nodes: "set ?nodes = ?N" by simp
  have is_nodes: "is_node closures n" if n: "n \<in> ?N" for n
  proof (cases "n \<in> set ?touched")
    case True
    then obtain d where "d \<in> set ?con" "n = d_lo d \<or> n = d_hi d" by auto
    then show ?thesis using contract_nodes [OF cl] by metis
  next
    case False
    then have "n \<in> fst ` set closures" using n by auto
    then show ?thesis by (simp add: is_node_def)
  qed
  have inside: "edges_inside ?nodes ?graph"
    by (force simp: edges_inside_def graph_edge_def)
  obtain comps where comps: "components ?nodes ?graph = Some comps" "is_partition ?nodes comps"
    using components_spec [of ?nodes ?graph] inside by (auto split: option.splits)
  have cc: "set (concat comps) = ?N" "distinct (concat comps)" "\<forall>c \<in> set comps. c \<noteq> []"
    using comps(2) nodes by (auto simp: is_partition_def)
  have "\<forall>c \<in> set comps. (\<forall>n \<in> set c. is_node closures n) \<and> c \<noteq> []"
  proof
    fix c assume c: "c \<in> set comps"
    then have "set c \<subseteq> ?N" using cc(1) by auto
    then show "(\<forall>n \<in> set c. is_node closures n) \<and> c \<noteq> []" using is_nodes cc(3) c by blast
  qed
  then obtain cs n_cut where cs: "foldM (cut_component rd fps cfg mnl rel closures ?graph) comps ([], 0)
        = Some (place_cells closures cs [], n_cut)" "good_cells ?R closures cs" "set (concat cs) = ?N"
    using cut_components_good [OF ok _ cc(2), of ?graph "[]" 0] cc(1) by auto
  let ?g = "place_cells closures cs []"
  note entries = place_cells_entries [OF cl cs(2)]
  have run: "\<exists>conflicts. repartition_clusters rd es fps cfg mnl rel closures = Some (?g, conflicts, n_cut)"
    using comps(1) cs(1) by (simp add: repartition_clusters_def Let_def)
  have cell: "(\<forall>n \<in> set c. is_node closures n) \<and> c \<noteq> [] \<and> distinct c \<and> holds_together ?R (expand closures c)"
    if "c \<in> set cs" for c
    using cs(2) that distinct_concat_member by (auto simp: good_cells_def)
  have one: "sorted ms \<and> distinct ms \<and> hd ms = k \<and> holds_together ?R ms" if m: "(k, ms) \<in> set ?g" for k ms
  proof -
    obtain c where c: "c \<in> set cs" "ms = expand closures c" "k = Min (set ms)" using m entries(1) by blast
    have ne: "ms \<noteq> []" using cell [OF c(1)] block_distinct [OF cl] c(2) by (cases c) (auto simp: expand_block)
    have "sorted ms" by (simp add: c(2) expand_block)
    moreover from this have "hd ms = k" using ne c(3) by (cases ms) (auto intro!: Min_eqI [symmetric])
    moreover have "distinct ms" unfolding c(2) using cell [OF c(1)] by (intro expand_distinct [OF cl]) auto
    ultimately show ?thesis using cell [OF c(1)] c(2) by simp
  qed
  have apart: "set (snd p) \<inter> set (snd q) = {}" if pq: "p \<in> set ?g" "q \<in> set ?g" "p \<noteq> q" for p q
  proof -
    obtain c where c: "c \<in> set cs" "snd p = expand closures c" "fst p = Min (set (snd p))"
      using pq(1) entries(1) [of "fst p" "snd p"] by auto
    obtain e where e: "e \<in> set cs" "snd q = expand closures e" "fst q = Min (set (snd q))"
      using pq(2) entries(1) [of "fst q" "snd q"] by auto
    have "c \<noteq> e" using pq(3) c e by (metis prod_eqI)
    then have "set c \<inter> set e = {}"
      using distinct_concat_unique [of cs c e] cs(2) c(1) e(1) by (auto simp: good_cells_def)
    then show ?thesis using expand_node [OF cl, of c] expand_node [OF cl, of e] cell c e by auto
  qed
  have whole: "\<exists>(l, ms) \<in> set ?g. set c \<subseteq> set ms" if kc: "(k, c) \<in> set closures" for k c
  proof -
    have "k \<in> ?N" using kc by force
    then obtain x where x: "x \<in> set cs" "k \<in> set x" using cs(3) by auto
    have "set c \<subseteq> set (expand closures x)"
      using block_closure [OF cl kc] x(2) by (auto simp: set_expand)
    moreover have "(Min (set (expand closures x)), expand closures x) \<in> set ?g" using entries(1) x(1) by blast
    ultimately show ?thesis by blast
  qed
  show ?thesis using run entries(2) one apart whole by blast
qed

text \<open>
  C9. The repartition: with the settings' own checks, and the layout limb off or no advert of land (a plot
  of land switches that limb off for the set it is in), \<open>cluster_pairs\<close> returns; every cluster is sorted, keyed by its smallest advert, disjoint from the others and
  satisfies every invariant under the closures, vetoes and relation in force; and no must-link
  closure in force is ever split.
\<close>

theorem repartition_clusters_valid:
  assumes "guard_settings_ok (cs_guard cfg)" and "printed_symmetric rd" and "fps_keyed fps"
    and "repartition cfg" and "layout_steady (cs_guard cfg) fps"
  shows "\<exists>inp res. cluster_inputs rd fps cfg mnl relation must_link vetoes = Some inp \<and>
    cluster_pairs rd decisions fps cfg mnl relation must_link vetoes = Some res \<and>
    (\<forall>(k, ms) \<in> set (r_clusters res). 1 < length ms \<and> sorted ms \<and> hd ms = k \<and>
       holds_together (rules_in rd fps cfg inp) ms) \<and>
    (\<forall>p \<in> set (r_clusters res). \<forall>q \<in> set (r_clusters res). p \<noteq> q \<longrightarrow> set (snd p) \<inter> set (snd q) = {}) \<and>
    (\<forall>(k, c) \<in> set (i_closures inp). \<exists>(l, ms) \<in> set (r_clusters res). set c \<subseteq> set ms)"
proof -
  obtain inp where inp: "cluster_inputs rd fps cfg mnl relation must_link vetoes = Some inp"
      "closures_ok (i_closures inp)"
      "\<forall>(k, c) \<in> set (i_closures inp). holds_together (rules_in rd fps cfg inp) c"
    using cluster_inputs_total [OF assms(1,3)] by blast
  have ok: "pass_ok (rules_in rd fps cfg inp) (i_closures inp)"
    using assms inp(2,3) by (simp add: pass_ok_def rules_ok_def rules_in_def)
  from repartition_valid [OF ok [unfolded rules_in_def], of "merge_edges decisions"]
  obtain g conflicts n_cut where g:
      "repartition_clusters rd (merge_edges decisions) fps cfg (i_must_not_link inp) (i_relation inp)
         (i_closures inp) = Some (g, conflicts, n_cut)"
      "\<forall>(k, ms) \<in> set g. sorted ms \<and> distinct ms \<and> hd ms = k \<and> holds_together (rules_in rd fps cfg inp) ms"
      "\<forall>p \<in> set g. \<forall>q \<in> set g. p \<noteq> q \<longrightarrow> set (snd p) \<inter> set (snd q) = {}"
      "\<forall>(k, c) \<in> set (i_closures inp). \<exists>(l, ms) \<in> set g. set c \<subseteq> set ms"
    unfolding rules_in_def by blast
  obtain res where res: "cluster_pairs rd decisions fps cfg mnl relation must_link vetoes = Some res"
      "r_clusters res = multi g"
    using assms(4) g(1) by (simp add: cluster_pairs_def inp(1) Let_def)
  have sub: "set (multi g) \<subseteq> set g" using multi_mem by auto
  have "\<exists>(l, ms) \<in> set (multi g). set c \<subseteq> set ms" if kc: "(k, c) \<in> set (i_closures inp)" for k c
  proof -
    obtain l ms where lm: "(l, ms) \<in> set g" "set c \<subseteq> set ms" using g(4) kc by blast
    have "1 < length c" "distinct c"
      using inp(2) kc distinct_concat_member [of "map snd (i_closures inp)" c]
      by (force simp: closures_ok_def)+
    then have "1 < card (set c)" by (simp add: distinct_card)
    also have "\<dots> \<le> card (set ms)" using lm(2) by (intro card_mono) auto
    also have "\<dots> \<le> length ms" by (rule card_length)
    finally show ?thesis using lm multi_mem by blast
  qed
  then have 4: "\<forall>(k, c) \<in> set (i_closures inp). \<exists>(l, ms) \<in> set (r_clusters res). set c \<subseteq> set ms"
    unfolding res(2) by blast
  have 2: "\<forall>(k, ms) \<in> set (r_clusters res). 1 < length ms \<and> sorted ms \<and> hd ms = k \<and>
       holds_together (rules_in rd fps cfg inp) ms"
    unfolding res(2) using g(2) multi_mem by blast
  have 3: "\<forall>p \<in> set (r_clusters res). \<forall>q \<in> set (r_clusters res). p \<noteq> q \<longrightarrow> set (snd p) \<inter> set (snd q) = {}"
    unfolding res(2) using g(3) sub by blast
  show ?thesis using inp(1) res(1) 2 3 4 by blast
qed

definition repartition_settings :: cluster_settings where
  "repartition_settings = plain_settings\<lparr>repartition := True, cs_guard := default_guard_settings\<rparr>"

theorem repartition_clusters_witness:
  "\<exists>inp res. cluster_inputs price_reader flats repartition_settings {} None [(1, 2)] {} = Some inp \<and>
    cluster_pairs price_reader [merge 2 3 (9/10)] flats repartition_settings {} None [(1, 2)] {} = Some res \<and>
    (\<forall>(k, ms) \<in> set (r_clusters res). 1 < length ms \<and> sorted ms \<and> hd ms = k \<and>
       holds_together (rules_in price_reader flats repartition_settings inp) ms) \<and>
    (\<forall>p \<in> set (r_clusters res). \<forall>q \<in> set (r_clusters res). p \<noteq> q \<longrightarrow> set (snd p) \<inter> set (snd q) = {}) \<and>
    (\<forall>(k, c) \<in> set (i_closures inp). \<exists>(l, ms) \<in> set (r_clusters res). set c \<subseteq> set ms)"
proof (rule repartition_clusters_valid)
  show "guard_settings_ok (cs_guard repartition_settings)"
    by (simp add: repartition_settings_def guard_settings_ok_def default_guard_settings_def)
  show "fps_keyed flats" by (auto simp: fps_keyed_def flats_def flat_def split: if_splits)
  show "layout_steady (cs_guard repartition_settings) flats"
    by (auto simp: layout_steady_def flats_def flat_def LAND_CATEGORY_def split: if_splits)
qed (simp_all add: price_reader_printed repartition_settings_def)

text \<open>
  Without that condition the clusters need not be valid. With the default settings a plot of land holds two
  houses of different layouts together, the local search then moves the plot to a group its edges weigh more
  to, and the two houses are left as one cluster, which the invariants refuse.
\<close>

definition yard :: "int \<Rightarrow> fingerprint option" where
  "yard i = (if i = 1 then Some (side_of 1 ''pozemek'' None) else if i = 2 then Some (side_of 2 ''dum'' (Some ''4+1''))
     else if i = 3 then Some (side_of 3 ''dum'' (Some ''5+1''))
     else if i \<in> {4, 5, 6} then Some (side_of i ''dum'' None) else None)"

definition yard_edges :: "decision list" where
  "yard_edges = [merge 1 2 (95/100), merge 1 3 (94/100), merge 4 5 (93/100), merge 5 6 (92/100),
     merge 1 4 (8/10), merge 1 5 (8/10), merge 1 6 (8/10)]"

theorem repartition_land_leaves:
  "map_option r_clusters (cluster_pairs price_reader yard_edges yard repartition_settings {(2, 4), (3, 4)} None [] {})
     = Some [(1, [1, 4, 5, 6]), (2, [2, 3])]
   \<and> cluster_invariants_ok price_reader [side_of 2 ''dum'' (Some ''4+1''), side_of 3 ''dum'' (Some ''5+1'')]
       (cs_guard repartition_settings) {(2, 4), (3, 4)} None (\<lambda>_. None) = Some Disposition_rule"
  by code_simp

end
