(* ===== verification/Rulings.thy ===== *)
theory Rulings
  imports Prelude
begin

text \<open>
  The operator's word on adverts: the ruling writer of \<^verbatim>\<open>toolkit/property_identity.py\<close>
  (\<open>record_ruling\<close>, \<open>record_rulings\<close>) with the statements of \<^verbatim>\<open>autodedup/ui_sql.py\<close> it runs,
  and the two readers a merge uses (\<open>negative_sets\<close>, \<open>negatives_across\<close>, over
  \<open>newest_pair_rulings\<close> of \<^verbatim>\<open>toolkit/property_split.py\<close>).

  \<open>autodedup.verdicts\<close> is two logs, oldest row first, so that the newest row of a pair (the
  statements' \<^verbatim>\<open>ORDER BY decided_at DESC, id DESC\<close>) is the last one; the rows' ids and times are
  not kept. A row written from a bare veto is dated by the veto, which no row of that pair
  precedes. \<open>autodedup.must_not_link\<close> is a dictionary on the pair. The \<^verbatim>\<open>restated\<close> limb of the append
  serves a uniqueness constraint the store has dropped (migration 574): the append never conflicts.
\<close>

record ruling =
  rl_pair :: "int \<times> int"
  rl_word :: string
  rl_note :: "string option"
  rl_reasons :: "string list"
  rl_by :: string

record set_ruling =
  sr_key :: int
  sr_gen :: "string option"
  sr_ids :: "int list"
  sr_word :: string
  sr_note :: "string option"
  sr_reasons :: "string list"
  sr_by :: string

record veto =
  veto_source :: string
  veto_reason :: string

record verdicts =
  pair_log :: "ruling list"
  set_log :: "set_ruling list"
  vetoes :: "(int \<times> int, veto) dict"

definition NEGATIVE_VERDICTS :: "string list" where
  "NEGATIVE_VERDICTS = [''different'', ''same_building_different_unit'', ''same_project_different_unit'']"

definition VERDICT_VALUES :: "string list" where
  "VERDICT_VALUES = ''same'' # NEGATIVE_VERDICTS @ [''unsure'']"

definition negative :: "string \<Rightarrow> bool" where
  "negative w \<longleftrightarrow> w \<in> set NEGATIVE_VERDICTS"

section \<open>The newest word\<close>

definition last_such :: "('a \<Rightarrow> bool) \<Rightarrow> 'a list \<Rightarrow> 'a option" where
  "last_such P xs = List.find P (rev xs)"

lemma last_such_Nil [simp]: "last_such P [] = None"
  by (simp add: last_such_def)

lemma last_such_append [simp]:
  "last_such P (xs @ ys) = (case last_such P ys of None \<Rightarrow> last_such P xs | Some y \<Rightarrow> Some y)"
proof -
  have "List.find P (as @ bs) = (case List.find P as of None \<Rightarrow> List.find P bs | Some y \<Rightarrow> Some y)" for as bs
    by (induction as) auto
  then show ?thesis unfolding last_such_def by simp
qed

lemma last_such_single [simp]: "last_such P [x] = (if P x then Some x else None)"
  by (simp add: last_such_def)

lemma last_such_None: "last_such P xs = None \<longleftrightarrow> (\<forall>x \<in> set xs. \<not> P x)"
  by (auto simp: last_such_def find_None_iff)

lemma last_such_SomeD: "last_such P xs = Some x \<Longrightarrow> x \<in> set xs \<and> P x"
  unfolding last_such_def find_Some_iff by (metis nth_mem set_rev)

definition newest :: "verdicts \<Rightarrow> int \<times> int \<Rightarrow> ruling option" where
  "newest vs p = last_such (\<lambda>r. rl_pair r = p) (pair_log vs)"

definition newest_word :: "verdicts \<Rightarrow> int \<times> int \<Rightarrow> string option" where
  "newest_word vs p = map_option rl_word (newest vs p)"

section \<open>The writer\<close>

text \<open>\<^verbatim>\<open>VERDICT_PAIR_FROM_VETO_SQL\<close>: a bare operator veto becomes the ruling it is.\<close>

definition from_veto :: "int \<times> int \<Rightarrow> verdicts \<Rightarrow> verdicts" where
  "from_veto p vs = (case map_of (vetoes vs) p of
       None \<Rightarrow> vs
     | Some m \<Rightarrow>
         if veto_source m = ''operator'' \<and> newest vs p = None
         then vs\<lparr>pair_log := pair_log vs @ [\<lparr>rl_pair = p, rl_word = ''different'',
                   rl_note = Some (veto_reason m), rl_reasons = [], rl_by = veto_source m\<rparr>]\<rparr>
         else vs)"

text \<open>\<^verbatim>\<open>VERDICT_PAIR_APPEND_SQL\<close>: a row only when the word, the note or the reasons change.\<close>

definition repeats :: "ruling option \<Rightarrow> ruling \<Rightarrow> bool" where
  "repeats old r = (case old of None \<Rightarrow> False
     | Some n \<Rightarrow> rl_word n = rl_word r \<and> rl_note n = rl_note r \<and> rl_reasons n = rl_reasons r)"

definition append_pair :: "ruling \<Rightarrow> verdicts \<Rightarrow> verdicts" where
  "append_pair r vs = (if repeats (newest vs (rl_pair r)) r then vs
                       else vs\<lparr>pair_log := pair_log vs @ [r]\<rparr>)"

text \<open>\<^verbatim>\<open>veto_reason or note or f"operator: {verdict}"\<close>: an empty string falls through.\<close>

fun first_text :: "string option list \<Rightarrow> string \<Rightarrow> string" where
  "first_text [] d = d"
| "first_text (Some (c # s) # ts) d = c # s"
| "first_text (_ # ts) d = first_text ts d"

definition upsert_veto :: "int \<times> int \<Rightarrow> string \<Rightarrow> verdicts \<Rightarrow> verdicts" where
  "upsert_veto p reason vs =
     vs\<lparr>vetoes := AList.update p \<lparr>veto_source = ''operator'', veto_reason = reason\<rparr> (vetoes vs)\<rparr>"

definition retract_veto :: "int \<times> int \<Rightarrow> verdicts \<Rightarrow> verdicts" where
  "retract_veto p vs =
     vs\<lparr>vetoes := filter (\<lambda>(q, m). \<not> (q = p \<and> veto_source m = ''operator'')) (vetoes vs)\<rparr>"

definition record_ruling :: "ruling \<Rightarrow> string option \<Rightarrow> verdicts \<Rightarrow> ruling option \<times> verdicts" where
  "record_ruling r reason vs =
     (let said = append_pair r (from_veto (rl_pair r) vs);
          stored = newest said (rl_pair r)
      in (stored,
          if negative (rl_word r)
          then upsert_veto (rl_pair r) (first_text [reason, rl_note r] (''operator: '' @ rl_word r)) said
          else retract_veto (rl_pair r) said))"

text \<open>\<open>record_rulings\<close>: \<open>None\<close> is the \<^verbatim>\<open>ValueError\<close> of a word outside the vocabulary.\<close>

definition rule_pair :: "string \<Rightarrow> string option \<Rightarrow> string list \<Rightarrow> string \<Rightarrow> int \<times> int \<Rightarrow> ruling" where
  "rule_pair w n rs b p = \<lparr>rl_pair = p, rl_word = w, rl_note = n, rl_reasons = rs, rl_by = b\<rparr>"

definition rule_each :: "string \<Rightarrow> string option \<Rightarrow> string list \<Rightarrow> string \<Rightarrow> (int \<times> int) list \<Rightarrow> verdicts \<Rightarrow> verdicts" where
  "rule_each w n rs b ps vs = fold (\<lambda>p vs. snd (record_ruling (rule_pair w n rs b p) None vs)) ps vs"

definition record_rulings :: "(int \<times> int) set \<Rightarrow> string \<Rightarrow> string \<Rightarrow> string option \<Rightarrow> string list
    \<Rightarrow> verdicts \<Rightarrow> (nat \<times> verdicts) option" where
  "record_rulings pairs w b n rs vs =
     (if w \<notin> set VERDICT_VALUES then None
      else let ordered = sorted_list_of_set pairs
           in Some (length ordered, rule_each w n rs b ordered vs))"

text \<open>\<^verbatim>\<open>VERDICT_CLUSTER_APPEND_SQL\<close>, keyed by the cluster and its pass.\<close>

definition gen_text :: "string option \<Rightarrow> string" where
  "gen_text g = (case g of None \<Rightarrow> [] | Some s \<Rightarrow> s)"

definition append_set :: "set_ruling \<Rightarrow> verdicts \<Rightarrow> verdicts" where
  "append_set r vs =
     (case last_such (\<lambda>x. sr_key x = sr_key r \<and> gen_text (sr_gen x) = gen_text (sr_gen r)) (set_log vs) of
        Some n \<Rightarrow>
          if sr_word n = sr_word r \<and> sr_note n = sr_note r \<and> sr_reasons n = sr_reasons r \<and> sr_ids n = sr_ids r
          then vs else vs\<lparr>set_log := set_log vs @ [r]\<rparr>
      | None \<Rightarrow> vs\<lparr>set_log := set_log vs @ [r]\<rparr>)"

section \<open>What a merge takes back\<close>

definition member_set :: "set_ruling \<Rightarrow> int list" where
  "member_set r = sorted_list_of_set (set (sr_ids r))"

text \<open>
  \<open>negative_sets\<close>: among the set rulings inside these adverts, the newest row of each set, kept
  when its word is negative.
\<close>

definition negative_sets :: "verdicts \<Rightarrow> int list \<Rightarrow> (int \<times> string option \<times> int list) list" where
  "negative_sets vs ids =
     (if card (set ids) < 2 then []
      else let inside = filter (\<lambda>r. set (sr_ids r) \<subseteq> set ids) (set_log vs);
               newest_of = (\<lambda>k. the (last_such (\<lambda>r. member_set r = k) inside))
           in map (\<lambda>k. (sr_key (newest_of k), sr_gen (newest_of k), k))
                (filter (\<lambda>k. negative (sr_word (newest_of k)))
                  (sort (remdups (map member_set inside)))))"

text \<open>\<open>newest_pair_rulings\<close>: the newest row of every pair inside the adverts.\<close>

definition newest_pair_rulings :: "verdicts \<Rightarrow> int list \<Rightarrow> (int \<times> int, ruling) dict" where
  "newest_pair_rulings vs ids =
     (if card (set ids) < 2 then []
      else let inside = filter (\<lambda>r. fst (rl_pair r) \<in> set ids \<and> snd (rl_pair r) \<in> set ids) (pair_log vs)
           in map (\<lambda>p. (p, the (newest vs p))) (remdups (map rl_pair (rev inside))))"

definition negatives_across :: "verdicts \<Rightarrow> (int, int) dict
    \<Rightarrow> (int \<times> int) list \<times> (int \<times> string option \<times> int list) list" where
  "negatives_across vs member =
     (if length member < 2 then ([], [])
      else let ids = map fst member;
               side = (\<lambda>i. the (map_of member i))
           in (map fst (filter (\<lambda>(p, v). negative (rl_word v) \<and> side (fst p) \<noteq> side (snd p))
                          (newest_pair_rulings vs ids)),
               filter (\<lambda>(_, _, ms). 2 \<le> card (side ` set ms)) (negative_sets vs ids)))"

section \<open>Facts\<close>

lemma newest_from_veto:
  "newest (from_veto p vs) q = (if q = p \<and> newest vs p = None then newest (from_veto p vs) p else newest vs q)"
  by (auto simp: from_veto_def newest_def split: option.splits)

lemma from_veto_vetoes [simp]: "vetoes (from_veto p vs) = vetoes vs"
  by (auto simp: from_veto_def split: option.split)

lemma from_veto_sets [simp]: "set_log (from_veto p vs) = set_log vs"
  by (auto simp: from_veto_def split: option.split)

lemma from_veto_log: "\<exists>rows. pair_log (from_veto p vs) = pair_log vs @ rows \<and> (\<forall>r \<in> set rows. rl_pair r = p)"
  by (auto simp: from_veto_def split: option.split)

lemma append_pair_newest:
  "newest (append_pair r vs) q = (if q = rl_pair r \<and> \<not> repeats (newest vs q) r then Some r else newest vs q)"
  by (auto simp: append_pair_def newest_def)

lemma append_pair_vetoes [simp]: "vetoes (append_pair r vs) = vetoes vs"
  and append_pair_sets [simp]: "set_log (append_pair r vs) = set_log vs"
  by (auto simp: append_pair_def)

lemma append_pair_log: "\<exists>rows. pair_log (append_pair r vs) = pair_log vs @ rows \<and> (\<forall>x \<in> set rows. rl_pair x = rl_pair r)"
  by (auto simp: append_pair_def)

lemma veto_edits [simp]:
  "pair_log (upsert_veto p s vs) = pair_log vs" "set_log (upsert_veto p s vs) = set_log vs"
  "pair_log (retract_veto p vs) = pair_log vs" "set_log (retract_veto p vs) = set_log vs"
  "newest (upsert_veto p s vs) q = newest vs q" "newest (retract_veto p vs) q = newest vs q"
  by (simp_all add: upsert_veto_def retract_veto_def newest_def)

lemma map_of_upsert [simp]:
  "map_of (vetoes (upsert_veto p s vs)) q =
     (if q = p then Some \<lparr>veto_source = ''operator'', veto_reason = s\<rparr> else map_of (vetoes vs) q)"
  by (simp add: upsert_veto_def update_conv)

lemma map_of_retract:
  "distinct (map fst (vetoes vs)) \<Longrightarrow> map_of (vetoes (retract_veto p vs)) q =
     (case map_of (vetoes vs) q of None \<Rightarrow> None
      | Some m \<Rightarrow> if q = p \<and> veto_source m = ''operator'' then None else Some m)"
  by (auto simp: retract_veto_def map_of_filter_keys split: option.split)

lemma distinct_retract: "distinct (map fst d) \<Longrightarrow> distinct (map fst (filter P d))"
  by (simp add: distinct_map_filter)

text \<open>
  The store is in step when the vetoes have one row per pair and an operator's veto stands only on
  a pair whose newest word is negative or that has none.
\<close>

definition in_step :: "verdicts \<Rightarrow> bool" where
  "in_step vs \<longleftrightarrow> distinct (map fst (vetoes vs)) \<and>
     list_all (\<lambda>(p, m). veto_source m \<noteq> ''operator''
        \<or> (case newest_word vs p of None \<Rightarrow> True | Some w \<Rightarrow> negative w)) (vetoes vs)"

lemma in_stepD:
  assumes "in_step vs" "map_of (vetoes vs) p = Some m" "veto_source m = ''operator''" "newest_word vs p = Some w"
  shows "negative w"
  using assms by (force simp: in_step_def list_all_iff dest: map_of_SomeD split: option.splits)

lemma in_stepI:
  assumes "distinct (map fst (vetoes vs))"
    and "\<And>p m w. map_of (vetoes vs) p = Some m \<Longrightarrow> veto_source m = ''operator'' \<Longrightarrow> newest_word vs p = Some w \<Longrightarrow> negative w"
  shows "in_step vs"
  using assms by (fastforce simp: in_step_def list_all_iff split: option.split)

lemma record_ruling_newest:
  "newest (snd (record_ruling r reason vs)) q =
     (if q = rl_pair r then fst (record_ruling r reason vs) else newest vs q)"
  using newest_from_veto [of "rl_pair r" vs q]
  by (simp add: record_ruling_def Let_def append_pair_newest)

lemma record_ruling_word: "map_option rl_word (fst (record_ruling r reason vs)) = Some (rl_word r)"
  by (auto simp: record_ruling_def Let_def append_pair_newest repeats_def split: option.splits)

lemma record_ruling_vetoes:
  assumes "distinct (map fst (vetoes vs))"
  shows "map_of (vetoes (snd (record_ruling r reason vs))) q =
     (if q \<noteq> rl_pair r then map_of (vetoes vs) q
      else if negative (rl_word r)
      then Some \<lparr>veto_source = ''operator'',
                 veto_reason = first_text [reason, rl_note r] (''operator: '' @ rl_word r)\<rparr>
      else (case map_of (vetoes vs) q of None \<Rightarrow> None
            | Some m \<Rightarrow> if veto_source m = ''operator'' then None else Some m))"
  using assms by (auto simp: record_ruling_def Let_def map_of_retract split: option.split)

lemma record_ruling_distinct:
  "distinct (map fst (vetoes vs)) \<Longrightarrow> distinct (map fst (vetoes (snd (record_ruling r reason vs))))"
  by (simp add: record_ruling_def Let_def upsert_veto_def retract_veto_def distinct_update distinct_retract)

lemma record_ruling_sets: "set_log (snd (record_ruling r reason vs)) = set_log vs"
  by (simp add: record_ruling_def Let_def)

lemma record_ruling_log:
  "\<exists>rows. pair_log (snd (record_ruling r reason vs)) = pair_log vs @ rows \<and> (\<forall>x \<in> set rows. rl_pair x = rl_pair r)"
proof -
  obtain a where a: "pair_log (from_veto (rl_pair r) vs) = pair_log vs @ a" "\<forall>x \<in> set a. rl_pair x = rl_pair r"
    using from_veto_log by blast
  obtain b where b: "pair_log (append_pair r (from_veto (rl_pair r) vs)) = pair_log (from_veto (rl_pair r) vs) @ b"
      "\<forall>x \<in> set b. rl_pair x = rl_pair r"
    using append_pair_log by blast
  show ?thesis using a b by (intro exI [of _ "a @ b"]) (auto simp: record_ruling_def Let_def)
qed

lemma record_ruling_in_step:
  assumes "in_step vs"
  shows "in_step (snd (record_ruling r reason vs))"
proof (rule in_stepI)
  have d: "distinct (map fst (vetoes vs))" using assms by (simp add: in_step_def)
  then show "distinct (map fst (vetoes (snd (record_ruling r reason vs))))" by (rule record_ruling_distinct)
  fix p m w
  assume m: "map_of (vetoes (snd (record_ruling r reason vs))) p = Some m" "veto_source m = ''operator''"
    and w: "newest_word (snd (record_ruling r reason vs)) p = Some w"
  show "negative w"
  proof (cases "p = rl_pair r")
    case True
    then have "w = rl_word r" using w by (simp add: newest_word_def record_ruling_newest record_ruling_word)
    then show ?thesis
      using m True by (auto simp: record_ruling_vetoes [OF d] split: if_splits option.splits)
  next
    case False
    then show ?thesis
      using in_stepD [OF assms, of p m w] m w by (simp add: record_ruling_vetoes [OF d] newest_word_def record_ruling_newest)
  qed
qed

definition operator_veto :: "verdicts \<Rightarrow> int \<times> int \<Rightarrow> bool" where
  "operator_veto vs p = (case map_of (vetoes vs) p of None \<Rightarrow> False | Some m \<Rightarrow> veto_source m = ''operator'')"

lemma record_ruling_operator:
  assumes "in_step vs"
  shows "operator_veto (snd (record_ruling r reason vs)) q =
     (if q = rl_pair r then negative (rl_word r) else operator_veto vs q)"
proof -
  have d: "distinct (map fst (vetoes vs))" using assms by (simp add: in_step_def)
  show ?thesis by (auto simp: operator_veto_def record_ruling_vetoes [OF d] split: option.split)
qed

lemma rule_all_step:
  "in_step vs \<Longrightarrow> in_step (rule_each w n rs b ps vs)
     \<and> (\<forall>q. newest_word (rule_each w n rs b ps vs) q = (if q \<in> set ps then Some w else newest_word vs q))
     \<and> (\<forall>q. operator_veto (rule_each w n rs b ps vs) q = (if q \<in> set ps then negative w else operator_veto vs q))
     \<and> set_log (rule_each w n rs b ps vs) = set_log vs
     \<and> (\<exists>rows. pair_log (rule_each w n rs b ps vs) = pair_log vs @ rows \<and> (\<forall>x \<in> set rows. rl_pair x \<in> set ps))"
proof (induction ps arbitrary: vs)
  case (Cons p ps)
  let ?vs = "snd (record_ruling (rule_pair w n rs b p) None vs)"
  have st: "rule_each w n rs b (p # ps) vs = rule_each w n rs b ps ?vs" by (simp add: rule_each_def)
  have i: "in_step ?vs" using Cons.prems by (rule record_ruling_in_step)
  have nw: "newest_word ?vs q = (if q = p then Some w else newest_word vs q)" for q
    using record_ruling_word [of "rule_pair w n rs b p" None vs]
    by (simp add: newest_word_def record_ruling_newest rule_pair_def)
  have ov: "operator_veto ?vs q = (if q = p then negative w else operator_veto vs q)" for q
    using record_ruling_operator [OF Cons.prems] by (simp add: rule_pair_def)
  obtain a where a: "pair_log ?vs = pair_log vs @ a" "\<forall>x \<in> set a. rl_pair x = p"
    using record_ruling_log [of "rule_pair w n rs b p" None vs] by (auto simp: rule_pair_def)
  note IH = Cons.IH [OF i]
  obtain c where c: "pair_log (rule_each w n rs b ps ?vs) = pair_log ?vs @ c" "\<forall>x \<in> set c. rl_pair x \<in> set ps"
    using IH by blast
  have log: "\<exists>rows. pair_log (rule_each w n rs b ps ?vs) = pair_log vs @ rows \<and> (\<forall>x \<in> set rows. rl_pair x \<in> set (p # ps))"
    using a c by (intro exI [of _ "a @ c"]) auto
  show ?case unfolding st
    using IH log by (auto simp: nw ov record_ruling_sets)
qed (simp add: rule_each_def)

lemmas rule_all = rule_all_step [THEN conjunct1]
  rule_all_step [THEN conjunct2, THEN conjunct1, rule_format]
  rule_all_step [THEN conjunct2, THEN conjunct2, THEN conjunct1, rule_format]
  rule_all_step [THEN conjunct2, THEN conjunct2, THEN conjunct2, THEN conjunct1]
  rule_all_step [THEN conjunct2, THEN conjunct2, THEN conjunct2, THEN conjunct2]

lemma append_set_pairs [simp]:
  "pair_log (append_set r vs) = pair_log vs" "vetoes (append_set r vs) = vetoes vs"
  by (auto simp: append_set_def split: option.split)

lemma newest_append_set [simp]: "newest_word (append_set r vs) q = newest_word vs q"
  by (simp add: newest_word_def newest_def)

lemma operator_append_set [simp]: "operator_veto (append_set r vs) q = operator_veto vs q"
  by (simp add: operator_veto_def)

lemma in_step_append_set [simp]: "in_step (append_set r vs) = in_step vs"
  by (simp add: in_step_def)

text \<open>The pairs a merge takes back, on lists of distinct adverts: read straight off the newest words.\<close>

lemma filter_tabulated:
  "x \<in> set (map fst (filter (\<lambda>(p, v). P p v) (map (\<lambda>p. (p, f p)) (remdups L)))) \<longleftrightarrow> x \<in> set L \<and> P x (f x)"
  by (auto simp: image_iff)

lemma negatives_across_pairs:
  assumes "distinct (map fst member)"
  shows "set (fst (negatives_across vs member)) =
    {(a, b). a \<in> fst ` set member \<and> b \<in> fst ` set member \<and> map_of member a \<noteq> map_of member b
       \<and> (case newest_word vs (a, b) of None \<Rightarrow> False | Some w \<Rightarrow> negative w)}"
proof (cases "length member < 2")
  case True
  then have "member = [] \<or> (\<exists>x. member = [x])" by (cases member) (auto simp: length_Suc_conv less_Suc_eq)
  then show ?thesis using True by (auto simp: negatives_across_def)
next
  case False
  have card: "\<not> card (set (map fst member)) < 2" using False distinct_card [OF assms] by simp
  have side: "the (map_of member a) = the (map_of member b) \<longleftrightarrow> map_of member a = map_of member b"
    if "a \<in> fst ` set member" "b \<in> fst ` set member" for a b
  proof -
    have "map_of member a \<noteq> None" "map_of member b \<noteq> None" using that by (simp_all add: map_of_eq_None_iff)
    then show ?thesis by force
  qed
  have new: "(a, b) \<in> rl_pair ` set (filter (\<lambda>r. fst (rl_pair r) \<in> set (map fst member) \<and> snd (rl_pair r) \<in> set (map fst member)) (pair_log vs))
       \<longleftrightarrow> a \<in> fst ` set member \<and> b \<in> fst ` set member \<and> newest vs (a, b) \<noteq> None" for a b
  proof -
    have "newest vs (a, b) \<noteq> None \<longleftrightarrow> (\<exists>r \<in> set (pair_log vs). rl_pair r = (a, b))"
      by (simp only: newest_def last_such_None) blast
    moreover have im: "(a, b) \<in> rl_pair ` {r \<in> S. P (rl_pair r)} \<longleftrightarrow> P (a, b) \<and> (\<exists>r \<in> S. rl_pair r = (a, b))" for S P
      by (auto simp: image_iff) (metis+)?
    ultimately show ?thesis
      using im [of "set (pair_log vs)" "\<lambda>p. fst p \<in> fst ` set member \<and> snd p \<in> fst ` set member"]
      by (simp add: conj_assoc)
  qed
  have "(a, b) \<in> set (fst (negatives_across vs member)) \<longleftrightarrow>
      (a, b) \<in> rl_pair ` set (filter (\<lambda>r. fst (rl_pair r) \<in> set (map fst member) \<and> snd (rl_pair r) \<in> set (map fst member)) (pair_log vs))
       \<and> negative (rl_word (the (newest vs (a, b)))) \<and> the (map_of member a) \<noteq> the (map_of member b)" for a b
    using False card
    by (simp only: negatives_across_def newest_pair_rulings_def Let_def set_map [symmetric] if_False
          fst_conv snd_conv filter_tabulated set_rev rev_filter [symmetric] rev_map [symmetric])
  then have pair: "(a, b) \<in> set (fst (negatives_across vs member)) \<longleftrightarrow>
      (a \<in> fst ` set member \<and> b \<in> fst ` set member \<and> newest vs (a, b) \<noteq> None)
       \<and> negative (rl_word (the (newest vs (a, b)))) \<and> the (map_of member a) \<noteq> the (map_of member b)" for a b
    by (simp only: new)
  show ?thesis
  proof (rule set_eqI)
    fix x show "x \<in> set (fst (negatives_across vs member)) \<longleftrightarrow>
      x \<in> {(a, b). a \<in> fst ` set member \<and> b \<in> fst ` set member \<and> map_of member a \<noteq> map_of member b
       \<and> (case newest_word vs (a, b) of None \<Rightarrow> False | Some w \<Rightarrow> negative w)}"
    proof (cases x)
      case (Pair a b)
      show ?thesis
        using side [of a b] unfolding Pair pair mem_Collect_eq prod.case newest_word_def
        by (cases "newest vs (a, b)") auto
    qed
  qed
qed

text \<open>
  C40. The ruling writer, from a store in step: it refuses exactly a word outside the vocabulary;
  otherwise it counts the pairs, every named pair's newest word is the one given and every other
  pair's is untouched, the operator's must-not-link stands on a named pair exactly when the word is
  negative and elsewhere as before, no row is ever rewritten (the log only grows, with rows on the
  named pairs), set rulings are untouched, and the store stays in step.
\<close>

theorem record_rulings_correct:
  assumes "in_step vs" and "finite pairs"
  shows "case record_rulings pairs w b n rs vs of
      None \<Rightarrow> w \<notin> set VERDICT_VALUES
    | Some (k, vs') \<Rightarrow> w \<in> set VERDICT_VALUES \<and> k = card pairs \<and> in_step vs'
        \<and> newest_word vs' q = (if q \<in> pairs then Some w else newest_word vs q)
        \<and> operator_veto vs' q = (if q \<in> pairs then negative w else operator_veto vs q)
        \<and> (\<exists>rows. pair_log vs' = pair_log vs @ rows \<and> rl_pair ` set rows \<subseteq> pairs)
        \<and> set_log vs' = set_log vs"
proof -
  let ?ps = "sorted_list_of_set pairs"
  note all = rule_all [OF assms(1), where ps = ?ps and w = w and n = n and rs = rs and b = b]
  have "\<exists>rows. pair_log (rule_each w n rs b ?ps vs)
      = pair_log vs @ rows \<and> rl_pair ` set rows \<subseteq> pairs"
    using all(5) assms(2) by auto
  then show ?thesis
    using all(1) all(2) [of q] all(3) [of q] all(4) assms(2)
    by (simp add: record_rulings_def Let_def)
qed

definition some_verdicts :: verdicts where
  "some_verdicts = \<lparr>pair_log = [\<lparr>rl_pair = (1, 2), rl_word = ''same'', rl_note = None, rl_reasons = [], rl_by = ''op''\<rparr>],
     set_log = [], vetoes = [((3, 4), \<lparr>veto_source = ''guard'', veto_reason = ''floor''\<rparr>)]\<rparr>"

theorem record_rulings_witness:
  "case record_rulings {(1, 2), (3, 4)} ''different'' ''op'' None [] some_verdicts of
      None \<Rightarrow> ''different'' \<notin> set VERDICT_VALUES
    | Some (k, vs') \<Rightarrow> ''different'' \<in> set VERDICT_VALUES \<and> k = card {(1 :: int, 2 :: int), (3, 4)} \<and> in_step vs'
        \<and> newest_word vs' (3, 4) = (if (3, 4) \<in> {(1 :: int, 2 :: int), (3, 4)} then Some ''different'' else newest_word some_verdicts (3, 4))
        \<and> operator_veto vs' (3, 4) = (if (3, 4) \<in> {(1 :: int, 2 :: int), (3, 4)} then negative ''different'' else operator_veto some_verdicts (3, 4))
        \<and> (\<exists>rows. pair_log vs' = pair_log some_verdicts @ rows \<and> rl_pair ` set rows \<subseteq> {(1, 2), (3, 4)})
        \<and> set_log vs' = set_log some_verdicts"
proof (rule record_rulings_correct)
  show "in_step some_verdicts" by code_simp
qed simp

end
