(* ===== verification/Property_Store.thy ===== *)
theory Property_Store
  imports Complex_Main Categories Rulings
begin

text \<open>
  The tables the two writers of \<^verbatim>\<open>toolkit/property_identity.py\<close> work on: \<open>properties\<close>,
  \<open>listings\<close> (the adverts, each on at most one property) and the merge ledger
  \<open>property_merge_events\<close>, with the readers both writers share.

  A table is the list of its rows with their keys, so that an \<^verbatim>\<open>UPDATE ... WHERE\<close> is a map over the
  rows and a \<^verbatim>\<open>SELECT ... WHERE\<close> a filter. Times are seconds. The columns that are written but
  never read here (\<open>merged_at\<close>, \<open>undone_at\<close> beside \<open>undone_by\<close>, the markers and the confidence) are
  left out. \<open>calls\<close> records, in order, the calls that reach other tables: the carriers of
  \<^verbatim>\<open>toolkit/property_carriers.py\<close>, and \<open>properties_changed\<close>, whose roll-up of the columns kept
  here is modelled while the broker book and the Browse rows it also writes are not.

  What the writers take from outside is the record \<open>database\<close>: \<^verbatim>\<open>uuid.uuid4()\<close>, its n-th draw; the
  transaction's \<^verbatim>\<open>now()\<close>; and the advert of rank one in the canonical order over a property's adverts
  (the SQL function \<^verbatim>\<open>property_canonical_listings\<close> of the migrations).
\<close>

datatype status = Active | Merged_away

record property =
  p_status :: status
  p_merged :: "int option"
  p_first :: "int option"
  p_settled :: "int option"
  p_live :: bool
  p_repr :: "int option"

record advert =
  l_type :: "string option"
  l_main :: "string option"
  l_price :: "rat option"
  l_area :: "rat option"
  l_layout :: "string option"
  l_text :: "string option"
  l_home :: "int option"
  l_live :: bool
  l_seen :: int

record event =
  ev_id :: int
  ev_group :: string
  ev_survivor :: int
  ev_retired :: int
  ev_advert :: int
  ev_prev :: int
  ev_reason :: string
  ev_source :: string
  ev_undone :: "string option"

datatype call =
    Carried int int string string
  | Routed int "(int \<times> int) list"
  | Refreshed "int list"

record store =
  props :: "(int, property) dict"
  advs :: "(int, advert) dict"
  ledger :: "event list"
  rulings :: verdicts
  next_event :: int
  next_prop :: int
  drawn :: nat
  calls :: "call list"

record database =
  e_uuid :: "nat \<Rightarrow> string"
  e_now :: int
  e_canonical :: "(int, advert) dict \<Rightarrow> int"

datatype merge_error =
    Too_few
  | No_decider
  | Not_active "int list" "int list"
  | Category_clash "clash_field \<times> string option \<times> string option" "int \<times> int" "int \<times> int"
  | Bad_letters string "int list"
  | Not_found int
  | One_property_only
  | Bad_word

section \<open>Rows\<close>

definition sorted_ids :: "int list \<Rightarrow> int list" where
  "sorted_ids xs = sort (remdups xs)"

lemma set_sorted_ids [simp]: "set (sorted_ids xs) = set xs"
  and distinct_sorted_ids [simp]: "distinct (sorted_ids xs)"
  by (simp_all add: sorted_ids_def)

definition home_of :: "store \<Rightarrow> int \<Rightarrow> int option" where
  "home_of st a = Option.bind (map_of (advs st) a) l_home"

definition on_property :: "store \<Rightarrow> int \<Rightarrow> int list" where
  "on_property st p = map fst (filter (\<lambda>(a, v). l_home v = Some p) (advs st))"

text \<open>\<open>adverts_on\<close>: each property's adverts, ascending.\<close>

definition adverts_on :: "store \<Rightarrow> int list \<Rightarrow> (int, int list) dict" where
  "adverts_on st ids = map (\<lambda>p. (p, sort (on_property st p))) (sorted_ids ids)"

text \<open>The live ledger rows of an advert, oldest first (\<^verbatim>\<open>_LIVE_MOVES_SQL\<close>).\<close>

definition live_moves :: "store \<Rightarrow> int \<Rightarrow> event list" where
  "live_moves st a = filter (\<lambda>e. ev_advert e = a \<and> ev_undone e = None) (ledger st)"

text \<open>
  \<open>_CONTENTLESS\<close>: the statement's \<^verbatim>\<open>CASE\<close>. Its class \<^verbatim>\<open>[[:space:]]\<close> holds the six ASCII blanks;
  unlike Python's \<^verbatim>\<open>strip\<close> (\<open>is_blank\<close>) it leaves out the separators 0x1C to 0x1F.
\<close>

definition sql_space :: "char \<Rightarrow> bool" where
  "sql_space c \<longleftrightarrow> c \<in> {CHR '' '', CHR 0x09, CHR 0x0A, CHR 0x0B, CHR 0x0C, CHR 0x0D}"

definition ad_blank :: "advert \<Rightarrow> bool" where
  "ad_blank v \<longleftrightarrow> l_price v = None \<and> l_area v = None \<and> l_layout v = None
     \<and> list_all sql_space (case l_text v of None \<Rightarrow> [] | Some t \<Rightarrow> t)"

definition cats :: "advert \<Rightarrow> categories" where
  "cats v = (l_type v, l_main v)"

section \<open>The roll-up\<close>

text \<open>
  \<open>properties_changed\<close> of \<^verbatim>\<open>scripts/recompute_property_stats.py\<close>, the last step of both writers: a
  property that holds adverts takes its first sighting, its activity and its canonical advert from
  them (the columns of \<^verbatim>\<open>_RECOMPUTE_BATCH_SQL\<close> kept here); one that holds none keeps its row.
\<close>

definition roll_up :: "database \<Rightarrow> (int, advert) dict \<Rightarrow> int \<Rightarrow> property \<Rightarrow> property" where
  "roll_up db ads p v =
     (let kids = filter (\<lambda>(_, a). l_home a = Some p) ads
      in if kids = [] then v
         else v\<lparr>p_first := Some (Min (set (map (l_seen \<circ> snd) kids))),
                p_live := list_ex (l_live \<circ> snd) kids, p_repr := Some (e_canonical db kids)\<rparr>)"

definition properties_changed :: "database \<Rightarrow> int list \<Rightarrow> store \<Rightarrow> store" where
  "properties_changed db ids st =
     (if ids = [] then st
      else st\<lparr>props := map (\<lambda>(p, v). (p, if p \<in> set ids then roll_up db (advs st) p v else v)) (props st),
              calls := calls st @ [Refreshed ids]\<rparr>)"

lemma roll_up_keeps [simp]:
  "p_status (roll_up db ads p v) = p_status v" "p_merged (roll_up db ads p v) = p_merged v"
  "p_settled (roll_up db ads p v) = p_settled v"
  by (simp_all add: roll_up_def Let_def)

lemma roll_up_childless: "\<forall>(a, v) \<in> set ads. l_home v \<noteq> Some p \<Longrightarrow> roll_up db ads p r = r"
  by (auto simp: roll_up_def filter_empty_conv Let_def)

lemma properties_changed_keeps [simp]:
  "advs (properties_changed db ids st) = advs st" "ledger (properties_changed db ids st) = ledger st"
  "rulings (properties_changed db ids st) = rulings st"
  "next_event (properties_changed db ids st) = next_event st"
  "next_prop (properties_changed db ids st) = next_prop st" "drawn (properties_changed db ids st) = drawn st"
  "map fst (props (properties_changed db ids st)) = map fst (props st)"
  "home_of (properties_changed db ids st) = home_of st"
  "live_moves (properties_changed db ids st) = live_moves st"
  by (auto simp: properties_changed_def home_of_def live_moves_def fun_eq_iff)

lemma properties_changed_map_of:
  "map_of (props (properties_changed db ids st)) p =
     map_option (\<lambda>v. if p \<in> set ids then roll_up db (advs st) p v else v) (map_of (props st) p)"
proof -
  have "map_of (map (\<lambda>(q, v). (q, f q v)) d) p = map_option (f p) (map_of d p)" for f :: "int \<Rightarrow> property \<Rightarrow> property" and d
    by (induction d) auto
  from this [of "\<lambda>q v. if q \<in> set ids then roll_up db (advs st) q v else v" "props st"]
  show ?thesis by (cases "map_of (props st) p") (auto simp: properties_changed_def)
qed

section \<open>Following a merged-away property\<close>

text \<open>
  \<^verbatim>\<open>_RESOLVE_SURVIVORS_SQL\<close>: the recursive query steps from a row that is not active to its
  \<open>merged_into\<close> while its depth is below 20, and answers the active row of the chain.
\<close>

fun chase :: "nat \<Rightarrow> store \<Rightarrow> int \<Rightarrow> int option" where
  "chase n st p =
     (case map_of (props st) p of
        None \<Rightarrow> None
      | Some r \<Rightarrow>
          if p_status r = Active then Some p
          else (case n of
                  0 \<Rightarrow> None
                | Suc m \<Rightarrow> (case p_merged r of None \<Rightarrow> None | Some q \<Rightarrow> chase m st q)))"

declare chase.simps [simp del]

definition resolve_active_property_id :: "store \<Rightarrow> int \<Rightarrow> int option" where
  "resolve_active_property_id st p = chase 20 st p"

definition resolve_active_property_ids :: "store \<Rightarrow> int list \<Rightarrow> (int, int) dict" where
  "resolve_active_property_ids st ids =
     [(p, q). p \<leftarrow> sorted_ids ids, q \<leftarrow> (case chase 20 st p of None \<Rightarrow> [] | Some q \<Rightarrow> [q])]"

text \<open>\<^verbatim>\<open>_CANONICAL_ADVERTS_SQL\<close>: the advert a property's card shows, while still its child.\<close>

definition canonical_of :: "store \<Rightarrow> int \<Rightarrow> int option" where
  "canonical_of st p =
     (case Option.bind (map_of (props st) p) p_repr of
        None \<Rightarrow> None
      | Some a \<Rightarrow> if home_of st a = Some p then Some a else None)"

definition canonical_advert :: "store \<Rightarrow> int \<Rightarrow> int option" where
  "canonical_advert st p = Option.bind (resolve_active_property_id st p) (canonical_of st)"

definition canonical_ids :: "store \<Rightarrow> int list \<Rightarrow> int list" where
  "canonical_ids st ps = sorted_ids (List.map_filter (canonical_of st) ps)"

definition canonical_pairs :: "store \<Rightarrow> int list \<Rightarrow> (int \<times> int) set" where
  "canonical_pairs st ps = set (pairs_of (canonical_ids st ps))"

lemma chase_active: "chase n st p = Some q \<Longrightarrow> \<exists>r. map_of (props st) q = Some r \<and> p_status r = Active"
proof (induction n arbitrary: p)
  case 0
  then show ?case by (subst (asm) chase.simps) (auto split: option.splits if_splits)
next
  case (Suc n)
  then show ?case by (subst (asm) chase.simps) (auto split: option.splits if_splits)
qed

lemma chase_self: "map_of (props st) p = Some r \<Longrightarrow> p_status r = Active \<Longrightarrow> chase n st p = Some p"
  by (subst chase.simps) simp

lemma chase_more: "chase n st p = Some q \<Longrightarrow> n \<le> m \<Longrightarrow> chase m st p = Some q"
proof (induction n arbitrary: p m)
  case 0
  then show ?case by (subst chase.simps, subst (asm) chase.simps) (auto split: option.splits if_splits)
next
  case (Suc n)
  then obtain k where "m = Suc k" by (cases m) auto
  then show ?case using Suc by (subst chase.simps, subst (asm) (2) chase.simps) (auto split: option.splits if_splits)
qed

end
