(* ===== verification/Property_Merge.thy ===== *)
theory Property_Merge
  imports Property_Store
begin

text \<open>
  The merge writer of \<^verbatim>\<open>toolkit/property_identity.py\<close>: \<open>merge_property_set\<close> joins an active set
  into its oldest record under one gate, and \<open>merge_letters\<close> makes an operator's statement (a
  letter per property) true. A transaction that raises leaves the store as it was: an error is a
  value, and carries no store.
\<close>

section \<open>The oldest record\<close>

text \<open>\<open>survivor_of\<close>: \<^verbatim>\<open>min\<close> under \<^verbatim>\<open>(first_seen is None, first_seen or 0, pid)\<close>.\<close>

definition age_key :: "int \<times> int option \<Rightarrow> bool \<times> int \<times> int" where
  "age_key r = (snd r = None, (case snd r of None \<Rightarrow> 0 | Some t \<Rightarrow> t), fst r)"

definition survivor_of :: "(int, int option) dict \<Rightarrow> int" where
  "survivor_of first_seen = fst (arg_min_list age_key first_seen)"

section \<open>The gate\<close>

definition locked_rows :: "store \<Rightarrow> int list \<Rightarrow> (int, property) dict" where
  "locked_rows st ids = filter (\<lambda>(p, _). p \<in> set ids) (props st)"

definition gate_set :: "(int, property) dict \<Rightarrow> int list \<Rightarrow> merge_error option" where
  "gate_set rows ids =
     (let missing = filter (\<lambda>p. map_of rows p = None) ids;
          inactive = filter (\<lambda>p. case map_of rows p of None \<Rightarrow> False | Some r \<Rightarrow> p_status r \<noteq> Active) ids
      in if missing \<noteq> [] \<or> inactive \<noteq> [] then Some (Not_active missing inactive) else None)"

type_synonym gate_row = "int \<times> categories \<times> int"

text \<open>\<open>_SET_ADS_SQL\<close>: per member and categories of its contentful adverts, the lowest such advert.\<close>

definition contentful_rows :: "store \<Rightarrow> int list \<Rightarrow> gate_row list" where
  "contentful_rows st ids =
     List.map_filter (\<lambda>(a, v). case l_home v of
         None \<Rightarrow> None
       | Some p \<Rightarrow> if p \<in> set ids \<and> \<not> ad_blank v then Some (p, cats v, a) else None) (advs st)"

definition set_ads :: "store \<Rightarrow> int list \<Rightarrow> gate_row list" where
  "set_ads st ids =
     (let rows = contentful_rows st ids
      in sort_key (\<lambda>(p, c, a). (p, a))
           (map (\<lambda>(p, c). (p, c, Min (set (map (snd \<circ> snd) (filter (\<lambda>r. fst r = p \<and> fst (snd r) = c) rows)))))
             (remdups (map (\<lambda>(p, c, a). (p, c)) rows))))"

text \<open>
  \<open>first_clash\<close>: a clash between two members counts unless some member already holds the two
  categories together.
\<close>

definition held_together :: "('m \<times> categories \<times> int) list \<Rightarrow> categories \<Rightarrow> categories \<Rightarrow> bool" where
  "held_together ads c d \<longleftrightarrow>
     (\<exists>a \<in> set ads. \<exists>b \<in> set ads. fst a = fst b \<and> {fst (snd a), fst (snd b)} = {c, d})"

definition new_clash :: "('m \<times> categories \<times> int) list \<Rightarrow> 'm \<times> categories \<times> int \<Rightarrow> 'm \<times> categories \<times> int \<Rightarrow>
    ((clash_field \<times> string option \<times> string option) \<times> ('m \<times> 'm) \<times> (int \<times> int)) option" where
  "new_clash ads a b =
     (if fst a \<noteq> fst b \<and> \<not> held_together ads (fst (snd a)) (fst (snd b))
      then map_option (\<lambda>clash. (clash, (fst a, fst b), (snd (snd a), snd (snd b))))
             (category_clash (fst (snd a)) (fst (snd b)))
      else None)"

fun first_some :: "('a \<Rightarrow> 'b option) \<Rightarrow> 'a list \<Rightarrow> 'b option" where
  "first_some f [] = None"
| "first_some f (x # xs) = (case f x of None \<Rightarrow> first_some f xs | Some y \<Rightarrow> Some y)"

definition first_clash :: "('m \<times> categories \<times> int) list \<Rightarrow>
    ((clash_field \<times> string option \<times> string option) \<times> ('m \<times> 'm) \<times> (int \<times> int)) option" where
  "first_clash ads = first_some (\<lambda>(a, b). new_clash ads a b) (pairs_of ads)"

definition gate_ads :: "store \<Rightarrow> int list \<Rightarrow> merge_error option" where
  "gate_ads st ids = map_option (\<lambda>(clash, members, ads). Category_clash clash members ads)
                       (first_clash (set_ads st ids))"

section \<open>One retired property into the survivor\<close>

definition ledger_rows :: "string \<Rightarrow> string \<Rightarrow> string \<Rightarrow> int \<Rightarrow> int \<Rightarrow> store \<Rightarrow> event list" where
  "ledger_rows grp reason source survivor retired st =
     map (\<lambda>(i, a). \<lparr>ev_id = next_event st + int i, ev_group = grp, ev_survivor = survivor,
                    ev_retired = retired, ev_advert = a, ev_prev = retired, ev_reason = reason,
                    ev_source = source, ev_undone = None\<rparr>)
       (List.enumerate 0 (on_property st retired))"

definition repoint :: "int \<Rightarrow> int \<Rightarrow> (int, advert) dict \<Rightarrow> (int, advert) dict" where
  "repoint survivor retired = update_rows (\<lambda>_ v. l_home v = Some retired) (\<lambda>v. v\<lparr>l_home := Some survivor\<rparr>)"

text \<open>The publication cap of \<^verbatim>\<open>toolkit/publication.py\<close>, six hours.\<close>

definition CAP :: int where
  "CAP = 6 * 60 * 60"

text \<open>
  \<open>_CARRY_SETTLED_SQL\<close>: a settled retired property's stamp passes to a survivor not yet settled,
  only when it publishes the survivor before its own cap would.
\<close>

definition carry_settled :: "int \<Rightarrow> int \<Rightarrow> (int, property) dict \<Rightarrow> (int, property) dict" where
  "carry_settled survivor retired ps =
     (case Option.bind (map_of ps retired) p_settled of
        None \<Rightarrow> ps
      | Some t \<Rightarrow> update_rows (\<lambda>k s. k = survivor \<and> p_settled s = None
                      \<and> (case p_first s of None \<Rightarrow> False | Some f \<Rightarrow> t < f + CAP))
                    (\<lambda>s. s\<lparr>p_settled := Some t\<rparr>) ps)"

definition retire :: "int \<Rightarrow> int \<Rightarrow> (int, property) dict \<Rightarrow> (int, property) dict" where
  "retire survivor retired =
     update_rows (\<lambda>k _. k = retired)
       (\<lambda>p. p\<lparr>p_status := Merged_away, p_merged := Some survivor, p_live := False\<rparr>)"

definition merge_pair :: "string \<Rightarrow> string \<Rightarrow> string \<Rightarrow> int \<Rightarrow> int \<Rightarrow> store \<Rightarrow> nat \<times> store" where
  "merge_pair grp reason source survivor retired st =
     (let rows = ledger_rows grp reason source survivor retired st
      in (length rows,
          st\<lparr>ledger := ledger st @ rows, next_event := next_event st + int (length rows),
             advs := repoint survivor retired (advs st),
             calls := calls st @ [Carried survivor retired grp source],
             props := retire survivor retired (carry_settled survivor retired (props st))\<rparr>))"

section \<open>The set\<close>

text \<open>
  \<open>merge_rulings\<close>: an operator's merge rules "same" over the canonical pairs and every negative
  between two members, read before anything moves.
\<close>

definition members_of :: "store \<Rightarrow> int list \<Rightarrow> (int, int) dict" where
  "members_of st ids = concat (map (\<lambda>(p, as). map (\<lambda>a. (a, p)) as) (adverts_on st ids))"

definition merge_rulings :: "store \<Rightarrow> int list
    \<Rightarrow> (int \<times> int) set \<times> (int \<times> string option \<times> int list) list \<times> nat" where
  "merge_rulings st ids =
     (let (pairs, sets) = negatives_across (rulings st) (members_of st ids)
      in (canonical_pairs st ids \<union> set pairs, sets, card (set pairs) + length sets))"

record merge_data =
  m_group :: string
  m_survivor :: int
  m_retired :: "int list"
  m_moved :: nat
  m_ruled :: nat
  m_taken_back :: nat

definition given :: "string option \<Rightarrow> bool" where
  "given s = (case s of None \<Rightarrow> False | Some t \<Rightarrow> t \<noteq> [])"

definition draw_group :: "database \<Rightarrow> string option \<Rightarrow> store \<Rightarrow> string \<times> store" where
  "draw_group db g st =
     (if given g then (the g, st) else (e_uuid db (drawn st), st\<lparr>drawn := drawn st + 1\<rparr>))"

definition merge_all :: "string \<Rightarrow> string \<Rightarrow> string \<Rightarrow> int \<Rightarrow> int list \<Rightarrow> store \<Rightarrow> nat \<times> store" where
  "merge_all grp reason source survivor retired st =
     fold (\<lambda>r (n, st). case merge_pair grp reason source survivor r st of (k, st') \<Rightarrow> (n + k, st'))
       retired (0, st)"

definition rule_same :: "string \<Rightarrow> string \<Rightarrow> (int \<times> int) set \<Rightarrow> (int \<times> string option \<times> int list) list
    \<Rightarrow> verdicts \<Rightarrow> (nat \<times> verdicts) option" where
  "rule_same grp decided_by pairs sets vs =
     (case (if pairs = {} then Some (0, vs)
            else record_rulings pairs ''same'' decided_by (Some (''operator merge '' @ grp)) [] vs) of
        None \<Rightarrow> None
      | Some (n, vs') \<Rightarrow>
          Some (n, fold (\<lambda>(key, gen, ms). append_set \<lparr>sr_key = key, sr_gen = gen, sr_ids = ms,
                      sr_word = ''same'', sr_note = Some (''operator merge '' @ grp), sr_reasons = [],
                      sr_by = decided_by\<rparr>) sets vs'))"

definition decider :: "string option \<Rightarrow> string" where
  "decider d = (case d of None \<Rightarrow> ''None'' | Some s \<Rightarrow> s)"

definition merge_property_set :: "database \<Rightarrow> int list \<Rightarrow> string \<Rightarrow> string \<Rightarrow> string option
    \<Rightarrow> string option \<Rightarrow> store \<Rightarrow> merge_error + (merge_data \<times> store)" where
  "merge_property_set db property_ids source reason merge_group_id decided_by st =
     (let ids = sorted_ids property_ids
      in if length ids < 2 then Inl Too_few
         else if source = ''operator'' \<and> \<not> given decided_by then Inl No_decider
         else let (grp, st) = draw_group db merge_group_id st;
                  rows = locked_rows st ids
              in (case gate_set rows ids of Some e \<Rightarrow> Inl e | None \<Rightarrow>
                 (case gate_ads st ids of Some e \<Rightarrow> Inl e | None \<Rightarrow>
                   let survivor = survivor_of (map (\<lambda>p. (p, p_first (the (map_of rows p)))) ids);
                       retired = filter (\<lambda>p. p \<noteq> survivor) ids;
                       (pairs, sets, taken_back) =
                         (if source = ''operator'' then merge_rulings st ids else ({}, [], 0));
                       (moved, st) = merge_all grp reason source survivor retired st
                   in (case rule_same grp (decider decided_by) pairs sets (rulings st) of
                         None \<Rightarrow> Inl Bad_word
                       | Some (ruled, vs) \<Rightarrow>
                           Inr (\<lparr>m_group = grp, m_survivor = survivor, m_retired = retired,
                                 m_moved = moved, m_ruled = ruled, m_taken_back = taken_back\<rparr>,
                                properties_changed db (survivor # retired) (st\<lparr>rulings := vs\<rparr>))))))"

section \<open>Letters\<close>

definition LETTERS :: "string list" where
  "LETTERS = map (\<lambda>c. [c]) ''ABCDEFGHIJKLMNOPQRSTUVWXYZ''"

fun split_on :: "char \<Rightarrow> string \<Rightarrow> string list" where
  "split_on c [] = [[]]"
| "split_on c (x # xs) =
     (if x = c then [] # split_on c xs
      else (case split_on c xs of [] \<Rightarrow> [[x]] | t # ts \<Rightarrow> (x # t) # ts))"

definition strip :: "string \<Rightarrow> string" where
  "strip t = rev (dropWhile is_blank (rev (dropWhile is_blank t)))"

definition before_sep :: "char \<Rightarrow> string \<Rightarrow> string" where
  "before_sep c t = takeWhile (\<lambda>x. x \<noteq> c) t"

definition after_sep :: "char \<Rightarrow> string \<Rightarrow> string" where
  "after_sep c t = drop 1 (dropWhile (\<lambda>x. x \<noteq> c) t)"

definition DIGITS :: string where
  "DIGITS = ''0123456789''"

definition is_number :: "string \<Rightarrow> bool" where
  "is_number t \<longleftrightarrow> t \<noteq> [] \<and> list_all (\<lambda>c. c \<in> set DIGITS) t"

definition number_of :: "string \<Rightarrow> int" where
  "number_of t = fold (\<lambda>c n. 10 * n + int (index_of c DIGITS)) t 0"

fun take_tokens :: "string list \<Rightarrow> (int, string) dict \<Rightarrow> merge_error + (int, string) dict" where
  "take_tokens [] out = Inr out"
| "take_tokens (t # ts) out =
     (let key = before_sep CHR '':'' t; letter = after_sep CHR '':'' t
      in if \<not> is_number key then Inl (Bad_letters ''letters are id:LETTER tokens, for example 94020:A'' [])
         else if map_of out (number_of key) \<noteq> None
         then Inl (Bad_letters ''an id is named twice'' [number_of key])
         else take_tokens ts (AList.update (number_of key) letter out))"

definition letter_tokens :: "string \<Rightarrow> merge_error + (int, string) dict" where
  "letter_tokens raw = take_tokens (map strip (split_on CHR '','' raw)) []"

text \<open>\<open>letter_sets\<close>: the ids of each letter, ascending, in the order of each letter's lowest id.\<close>

definition letter_sets :: "(int, string) dict \<Rightarrow> merge_error + (string \<times> int list) list" where
  "letter_sets letters =
     (case filter (\<lambda>(_, l). l \<notin> set LETTERS) letters of
        (k, _) # _ \<Rightarrow> Inl (Bad_letters ''a letter must be A-Z'' [k])
      | [] \<Rightarrow> Inr (sort_key (hd \<circ> snd)
                 (map (\<lambda>(l, ks). (l, sort ks))
                   (fold (\<lambda>(k, l). dict_append l k) letters []))))"

fun merge_each :: "database \<Rightarrow> string \<Rightarrow> string option \<Rightarrow> (string \<times> int list) list \<Rightarrow> store
    \<Rightarrow> merge_error + ((string \<times> merge_data) list \<times> store)" where
  "merge_each db reason decided_by [] st = Inr ([], st)"
| "merge_each db reason decided_by ((letter, ids) # sets) st =
     (case merge_property_set db ids ''operator'' reason None decided_by st of
        Inl e \<Rightarrow> Inl e
      | Inr (data, st') \<Rightarrow>
          (case merge_each db reason decided_by sets st' of
             Inl e \<Rightarrow> Inl e
           | Inr (merged, st'') \<Rightarrow> Inr ((letter, data) # merged, st'')))"

definition merge_letters :: "database \<Rightarrow> (int, string) dict \<Rightarrow> string \<Rightarrow> string option \<Rightarrow> store
    \<Rightarrow> merge_error + ((string \<times> merge_data) list \<times> store)" where
  "merge_letters db letters reason decided_by st =
     (case letter_sets letters of
        Inl e \<Rightarrow> Inl e
      | Inr sets \<Rightarrow> merge_each db reason decided_by (filter (\<lambda>(_, ids). 2 \<le> length ids) sets) st)"

definition merge_preview :: "(int, string) dict \<Rightarrow> store \<Rightarrow> merge_error + (string \<times> int list \<times> nat) list" where
  "merge_preview letters st =
     (case letter_sets letters of
        Inl e \<Rightarrow> Inl e
      | Inr sets \<Rightarrow> Inr (map (\<lambda>(l, ids). (l, ids, snd (snd (merge_rulings st ids))))
                          (filter (\<lambda>(_, ids). 2 \<le> length ids) sets)))"

end
