(* ===== verification/Property_Merge_Laws.thy ===== *)
theory Property_Merge_Laws
  imports Property_Merge
begin

text \<open>
  What a merge does to the tables: where every advert ends, what each property becomes, which
  ledger rows are written, what rule 15 and the operator's word guarantee afterwards.
\<close>

section \<open>One pair\<close>

lemma home_of_repoint:
  "Option.bind (map_of (repoint s r (advs st)) a) l_home =
     (if home_of st a = Some r then Some s else home_of st a)"
  by (cases "map_of (advs st) a") (auto simp: repoint_def home_of_def)

lemma retire_map_of [simp]:
  "map_of (retire s r ps) p =
     (if p = r then map_option (\<lambda>p. p\<lparr>p_status := Merged_away, p_merged := Some s, p_live := False\<rparr>) (map_of ps p)
      else map_of ps p)"
  by (cases "map_of ps p") (auto simp: retire_def)

text \<open>A property's visibility (\<^verbatim>\<open>visible_since_sql\<close>) never moves later on a merge.\<close>

definition visible_since :: "property \<Rightarrow> int option" where
  "visible_since v = (case p_settled v of Some t \<Rightarrow> Some t | None \<Rightarrow> map_option (\<lambda>f. f + CAP) (p_first v))"

definition no_later :: "property \<Rightarrow> int option \<Rightarrow> bool" where
  "no_later v x \<longleftrightarrow> x = p_settled v \<or>
     (p_settled v = None \<and> (case (x, p_first v) of (Some t, Some f) \<Rightarrow> t < f + CAP | _ \<Rightarrow> False))"

lemma no_later_trans: "no_later v x \<Longrightarrow> no_later (v\<lparr>p_settled := x\<rparr>) y \<Longrightarrow> no_later v y"
  by (auto simp: no_later_def split: option.splits)

lemma no_later_visible:
  "no_later v x \<Longrightarrow> visible_since (v\<lparr>p_settled := x\<rparr>) = visible_since v \<or>
     (\<exists>t u. visible_since (v\<lparr>p_settled := x\<rparr>) = Some t \<and> visible_since v = Some u \<and> t < u)"
  by (auto simp: no_later_def visible_since_def split: option.splits)

lemma carry_settled_map_of:
  "\<exists>g. (\<forall>v. no_later v (g v)) \<and> (\<forall>p. map_of (carry_settled s r ps) p =
     (if p = s then map_option (\<lambda>v. v\<lparr>p_settled := g v\<rparr>) (map_of ps p) else map_of ps p))"
proof (cases "Option.bind (map_of ps r) p_settled")
  case None
  then show ?thesis
    by (intro exI [of _ p_settled]) (auto simp: no_later_def carry_settled_def map_option_idI [symmetric] option.map_ident)
next
  case (Some t)
  let ?c = "\<lambda>v. p_settled v = None \<and> (case p_first v of None \<Rightarrow> False | Some f \<Rightarrow> t < f + CAP)"
  show ?thesis
    by (intro exI [of _ "\<lambda>v. if ?c v then Some t else p_settled v"] conjI allI)
       (auto simp: no_later_def carry_settled_def Some map_option_case split: option.splits)
qed

lemma carry_settled_keys [simp]: "map fst (carry_settled s r ps) = map fst ps"
  by (simp add: carry_settled_def split: option.split)

lemma retire_keys [simp]: "map fst (retire s r ps) = map fst ps"
  by (simp add: retire_def)

lemma repoint_keys [simp]: "map fst (repoint s r d) = map fst d"
  by (simp add: repoint_def)

lemma on_property_iff:
  "distinct (map fst (advs st)) \<Longrightarrow> a \<in> set (on_property st p) \<longleftrightarrow> home_of st a = Some p"
  by (auto simp: on_property_def home_of_def bind_eq_Some_conv image_iff split: prod.split)
     (metis (no_types, lifting) fst_conv map_of_SomeD, metis (mono_tags, lifting) map_of_SomeD case_prodI fst_conv mem_Collect_eq)?

section \<open>The whole set\<close>

definition moved_home :: "int \<Rightarrow> int set \<Rightarrow> int option \<Rightarrow> int option" where
  "moved_home s R h = (case h of None \<Rightarrow> None | Some p \<Rightarrow> Some (if p \<in> R then s else p))"

definition retired_into :: "int \<Rightarrow> property \<Rightarrow> property" where
  "retired_into s p = p\<lparr>p_status := Merged_away, p_merged := Some s, p_live := False\<rparr>"

definition merge_event :: "string \<Rightarrow> string \<Rightarrow> string \<Rightarrow> int \<Rightarrow> int \<Rightarrow> int \<Rightarrow> event" where
  "merge_event g reason source s r a =
     \<lparr>ev_id = 0, ev_group = g, ev_survivor = s, ev_retired = r, ev_advert = a, ev_prev = r,
      ev_reason = reason, ev_source = source, ev_undone = None\<rparr>"

definition unnumbered :: "event list \<Rightarrow> event list" where
  "unnumbered = map (\<lambda>e. e\<lparr>ev_id := 0\<rparr>)"

definition rows_of :: "int \<Rightarrow> event list \<Rightarrow> event list" where
  "rows_of a = filter (\<lambda>e. ev_advert e = a)"

lemma rows_of_append [simp]: "rows_of a (xs @ ys) = rows_of a xs @ rows_of a ys"
  by (simp add: rows_of_def)

lemma unnumbered_append [simp]: "unnumbered (xs @ ys) = unnumbered xs @ unnumbered ys"
  by (simp add: unnumbered_def)

definition merged_by :: "string \<Rightarrow> string \<Rightarrow> string \<Rightarrow> int \<Rightarrow> int list \<Rightarrow> store \<Rightarrow> nat \<Rightarrow> store \<Rightarrow> bool" where
  "merged_by g reason source s rs st n st' \<longleftrightarrow>
     map fst (advs st') = map fst (advs st) \<and> map fst (props st') = map fst (props st)
   \<and> (\<forall>a. map_of (advs st') a =
          map_option (\<lambda>v. v\<lparr>l_home := moved_home s (set rs) (l_home v)\<rparr>) (map_of (advs st) a))
   \<and> (\<exists>f. (\<forall>v. no_later v (f v)) \<and> (\<forall>p. map_of (props st') p =
          map_option (\<lambda>v. if p \<in> set rs then retired_into s v else if p = s then v\<lparr>p_settled := f v\<rparr> else v)
            (map_of (props st) p)))
   \<and> (\<exists>rows. ledger st' = ledger st @ rows \<and> n = length rows
        \<and> next_event st' = next_event st + int (length rows)
        \<and> map ev_id rows = map (\<lambda>i. next_event st + int i) [0..<length rows]
        \<and> (\<forall>a. unnumbered (rows_of a rows) =
              (case home_of st a of
                 None \<Rightarrow> []
               | Some p \<Rightarrow> if p \<in> set rs then [merge_event g reason source s p a] else [])))
   \<and> rulings st' = rulings st \<and> next_prop st' = next_prop st \<and> drawn st' = drawn st
   \<and> calls st' = calls st @ map (\<lambda>r. Carried s r g source) rs"

lemma enumerate_rows:
  "distinct xs \<Longrightarrow> unnumbered (rows_of a (map (\<lambda>(i, a). \<lparr>ev_id = k + int i, ev_group = g, ev_survivor = s,
       ev_retired = r, ev_advert = a, ev_prev = r, ev_reason = reason, ev_source = source,
       ev_undone = None\<rparr>) (List.enumerate m xs)))
   = (if a \<in> set xs then [merge_event g reason source s r a] else [])"
proof (induction xs arbitrary: m)
  case (Cons x xs)
  then show ?case by (cases "x = a") (auto simp: unnumbered_def rows_of_def merge_event_def)
qed (simp add: unnumbered_def rows_of_def)

lemma repoint_map_of:
  "map_of (repoint s r d) a = map_option (\<lambda>v. v\<lparr>l_home := moved_home s {r} (l_home v)\<rparr>) (map_of d a)"
  by (cases "map_of d a") (auto simp: repoint_def moved_home_def split: option.split)

lemma merge_pair_merged:
  assumes "distinct (map fst (advs st))" and "s \<noteq> r"
    and "merge_pair g reason source s r st = (n, st')"
  shows "merged_by g reason source s [r] st n st'"
proof -
  let ?rows = "ledger_rows g reason source s r st"
  obtain f where f: "\<forall>v. no_later v (f v)" "\<forall>p. map_of (carry_settled s r (props st)) p =
     (if p = s then map_option (\<lambda>v. v\<lparr>p_settled := f v\<rparr>) (map_of (props st) p) else map_of (props st) p)"
    using carry_settled_map_of by blast
  have d: "distinct (on_property st r)"
    using assms(1) by (simp add: on_property_def distinct_map_filter)
  have rows: "unnumbered (rows_of a ?rows) = (if a \<in> set (on_property st r) then [merge_event g reason source s r a] else [])" for a
    unfolding ledger_rows_def by (rule enumerate_rows [OF d])
  have ids: "map ev_id ?rows = map (\<lambda>i. next_event st + int i) [0..<length ?rows]"
    by (rule nth_equalityI) (simp_all add: ledger_rows_def split_def enumerate_eq_zip)
  have st': "st' = st\<lparr>ledger := ledger st @ ?rows, next_event := next_event st + int (length ?rows),
             advs := repoint s r (advs st), calls := calls st @ [Carried s r g source],
             props := retire s r (carry_settled s r (props st))\<rparr>" "n = length ?rows"
    using assms(3) by (auto simp: merge_pair_def Let_def)
  have ps: "\<exists>f. (\<forall>v. no_later v (f v)) \<and> (\<forall>p. map_of (props st') p =
          map_option (\<lambda>v. if p \<in> set [r] then retired_into s v else if p = s then v\<lparr>p_settled := f v\<rparr> else v)
            (map_of (props st) p))"
    using f assms(2) by (intro exI [of _ f] conjI allI) (auto simp: st' retired_into_def option.map_comp comp_def map_option_case split: option.splits)
  have lg: "\<exists>rows. ledger st' = ledger st @ rows \<and> n = length rows
        \<and> next_event st' = next_event st + int (length rows)
        \<and> map ev_id rows = map (\<lambda>i. next_event st + int i) [0..<length rows]
        \<and> (\<forall>a. unnumbered (rows_of a rows) =
              (case home_of st a of None \<Rightarrow> []
               | Some p \<Rightarrow> if p \<in> set [r] then [merge_event g reason source s p a] else []))"
    using rows ids on_property_iff [OF assms(1)]
    by (intro exI [of _ ?rows]) (auto simp: st' split: option.splits)
  show ?thesis
    unfolding merged_by_def using ps lg
    by (simp add: st' repoint_map_of)
qed

lemma merged_trans:
  assumes a: "merged_by g reason source s [r] st n st1" and b: "merged_by g reason source s rs st1 m st2"
    and rs: "s \<noteq> r" "s \<notin> set rs" "r \<notin> set rs"
  shows "merged_by g reason source s (r # rs) st (n + m) st2"
proof -
  note A = a [unfolded merged_by_def]
  note B = b [unfolded merged_by_def]
  have home1: "home_of st1 a = moved_home s {r} (home_of st a)" for a
    using A by (cases "map_of (advs st) a") (auto simp: home_of_def moved_home_def)
  have adv: "map_of (advs st2) a =
      map_option (\<lambda>v. v\<lparr>l_home := moved_home s (set (r # rs)) (l_home v)\<rparr>) (map_of (advs st) a)" for a
  proof -
    have "moved_home s (set rs) (moved_home s {r} h) = moved_home s (set (r # rs)) h" for h
      using rs by (auto simp: moved_home_def split: option.split)
    then show ?thesis using A B by (simp add: option.map_comp comp_def)
  qed
  obtain f1 where l1: "\<And>v. no_later v (f1 v)" and f1: "\<And>p. map_of (props st1) p =
          map_option (\<lambda>v. if p \<in> set [r] then retired_into s v else if p = s then v\<lparr>p_settled := f1 v\<rparr> else v)
            (map_of (props st) p)" using A by blast
  obtain f2 where l2: "\<And>v. no_later v (f2 v)" and f2: "\<And>p. map_of (props st2) p =
          map_option (\<lambda>v. if p \<in> set rs then retired_into s v else if p = s then v\<lparr>p_settled := f2 v\<rparr> else v)
            (map_of (props st1) p)" using B by blast
  have ps: "map_of (props st2) p =
     map_option (\<lambda>v. if p \<in> set (r # rs) then retired_into s v
         else if p = s then v\<lparr>p_settled := f2 (v\<lparr>p_settled := f1 v\<rparr>)\<rparr> else v) (map_of (props st) p)" for p
    using rs by (cases "map_of (props st) p") (auto simp: f2 f1)
  obtain ra where ra: "ledger st1 = ledger st @ ra" "n = length ra" "next_event st1 = next_event st + int (length ra)"
      "map ev_id ra = map (\<lambda>i. next_event st + int i) [0..<length ra]"
      "\<And>a. unnumbered (rows_of a ra) = (case home_of st a of None \<Rightarrow> []
               | Some p \<Rightarrow> if p \<in> set [r] then [merge_event g reason source s p a] else [])"
    using A by blast
  obtain rb where rb: "ledger st2 = ledger st1 @ rb" "m = length rb" "next_event st2 = next_event st1 + int (length rb)"
      "map ev_id rb = map (\<lambda>i. next_event st1 + int i) [0..<length rb]"
      "\<And>a. unnumbered (rows_of a rb) = (case home_of st1 a of None \<Rightarrow> []
               | Some p \<Rightarrow> if p \<in> set rs then [merge_event g reason source s p a] else [])"
    using B by blast
  have ids: "map ev_id (ra @ rb) = map (\<lambda>i. next_event st + int i) [0..<length (ra @ rb)]"
  proof -
    have "map (\<lambda>i. next_event st + int i) [0..<length (ra @ rb)]
        = map (\<lambda>i. next_event st + int i) [0..<length ra]
          @ map (\<lambda>i. next_event st + int (i + length ra)) [0..<length rb]"
      by (rule nth_equalityI) (auto simp: nth_append)
    then show ?thesis using ra(3,4) rb(4) by (simp add: algebra_simps)
  qed
  have rows: "unnumbered (rows_of a (ra @ rb)) = (case home_of st a of None \<Rightarrow> []
               | Some p \<Rightarrow> if p \<in> set (r # rs) then [merge_event g reason source s p a] else [])" for a
    using rs by (auto simp: ra(5) rb(5) home1 moved_home_def split: option.splits)
  show ?thesis
    unfolding merged_by_def
  proof (intro conjI)
    show "\<exists>f. (\<forall>v. no_later v (f v)) \<and> (\<forall>p. map_of (props st2) p = map_option (\<lambda>v. if p \<in> set (r # rs) then retired_into s v
         else if p = s then v\<lparr>p_settled := f v\<rparr> else v) (map_of (props st) p))"
      by (rule exI [of _ "\<lambda>v. f2 (v\<lparr>p_settled := f1 v\<rparr>)"]) (use ps no_later_trans [OF l1 l2] in blast)
    show "\<exists>rows. ledger st2 = ledger st @ rows \<and> n + m = length rows
        \<and> next_event st2 = next_event st + int (length rows)
        \<and> map ev_id rows = map (\<lambda>i. next_event st + int i) [0..<length rows]
        \<and> (\<forall>a. unnumbered (rows_of a rows) = (case home_of st a of None \<Rightarrow> []
               | Some p \<Rightarrow> if p \<in> set (r # rs) then [merge_event g reason source s p a] else []))"
      using ra rb ids rows by (intro exI [of _ "ra @ rb"]) simp
  qed (use A B adv in simp_all)
qed

lemma merge_all_merged:
  assumes "distinct (map fst (advs st))" and "s \<notin> set rs" and "distinct rs"
    and "merge_all g reason source s rs st = (n, st')"
  shows "merged_by g reason source s rs st n st'"
proof -
  have acc: "fold (\<lambda>r (n, st). case merge_pair g reason source s r st of (k, st') \<Rightarrow> (n + k, st')) rs (k, st)
      = (let (n, st') = merge_all g reason source s rs st in (k + n, st'))" for k rs st
  proof (induction rs arbitrary: k st)
    case (Cons r rs)
    obtain k1 st1 where p: "merge_pair g reason source s r st = (k1, st1)" by (cases "merge_pair g reason source s r st") auto
    show ?case using Cons.IH [of "k + k1" st1] Cons.IH [of k1 st1]
      by (simp add: merge_all_def p split: prod.splits)
  qed (simp add: merge_all_def)
  show ?thesis using assms
  proof (induction rs arbitrary: st n)
    case Nil
    then have "n = 0" "st' = st" by (auto simp: merge_all_def)
    moreover have "moved_home s {} h = h" for h by (simp add: moved_home_def split: option.split)
    moreover have "map_of (props st) p =
        map_option (\<lambda>v. if p = s then v\<lparr>p_settled := p_settled v\<rparr> else v) (map_of (props st) p)" for p
      by (cases "map_of (props st) p") auto
    ultimately show ?case
      by (auto simp: merged_by_def no_later_def option.map_ident rows_of_def unnumbered_def split: option.split
          intro!: exI [of _ p_settled])
  next
    case (Cons r rs)
    obtain k st1 where p: "merge_pair g reason source s r st = (k, st1)" by (cases "merge_pair g reason source s r st") auto
    have a: "merged_by g reason source s [r] st k st1"
      using merge_pair_merged [OF Cons.prems(1) _ p] Cons.prems(2) by simp
    then have d: "distinct (map fst (advs st1))" using Cons.prems(1) by (simp add: merged_by_def)
    obtain m where m: "merge_all g reason source s rs st1 = (m, st')" "n = k + m"
      using Cons.prems(4) acc [of rs k st1] by (auto simp: merge_all_def p split: prod.splits)
    have "merged_by g reason source s rs st1 m st'"
      using Cons.IH [OF d _ _ m(1)] Cons.prems(2,3) by simp
    then show ?case using merged_trans [OF a] Cons.prems(2,3) m(2) by simp
  qed
qed

section \<open>The gate's reading\<close>

definition keyed :: "store \<Rightarrow> bool" where
  "keyed st \<longleftrightarrow> distinct (map fst (advs st)) \<and> distinct (map fst (props st))"

lemma home_ofI: "keyed st \<Longrightarrow> (a, v) \<in> set (advs st) \<Longrightarrow> home_of st a = l_home v"
  by (simp add: keyed_def home_of_def)

lemma contentful_rows_iff:
  assumes "keyed st"
  shows "(p, c, a) \<in> set (contentful_rows st ids) \<longleftrightarrow>
     (\<exists>v. map_of (advs st) a = Some v \<and> l_home v = Some p \<and> p \<in> set ids \<and> \<not> ad_blank v \<and> c = cats v)"
proof -
  have "(p, c, a) \<in> set (contentful_rows st ids) \<longleftrightarrow>
     (\<exists>v. (a, v) \<in> set (advs st) \<and> l_home v = Some p \<and> p \<in> set ids \<and> \<not> ad_blank v \<and> c = cats v)"
    by (force simp: contentful_rows_def List.map_filter_def split: option.splits if_splits)
  then show ?thesis using assms by (simp add: keyed_def map_of_eq_Some_iff)
qed

lemma set_ads_member:
  assumes "(p, c, a) \<in> set (set_ads st ids)"
  shows "(p, c, a) \<in> set (contentful_rows st ids)"
proof -
  let ?rows = "contentful_rows st ids"
  let ?as = "map (snd \<circ> snd) (filter (\<lambda>r. fst r = p \<and> fst (snd r) = c) ?rows)"
  have "\<exists>b. (p, c, b) \<in> set ?rows" and a: "a = Min (set ?as)"
    using assms by (auto simp: set_ads_def Let_def)
  then obtain b where x: "(p, c, b) \<in> set ?rows" by blast
  have "?as \<noteq> []" using x by (force simp: filter_empty_conv)
  then have "a \<in> set ?as"
    unfolding a by (intro Min_in) (simp_all only: List.finite_set set_empty not_False_eq_True)
  then obtain r where "r \<in> set ?rows" "fst r = p" "fst (snd r) = c" "snd (snd r) = a" by auto
  then show ?thesis by (metis prod.collapse)
qed

lemma set_ads_covers:
  assumes "(p, c, a) \<in> set (contentful_rows st ids)"
  shows "\<exists>b. (p, c, b) \<in> set (set_ads st ids)"
  using assms by (force simp: set_ads_def Let_def)

lemma first_some_None: "first_some f xs = None \<longleftrightarrow> (\<forall>x \<in> set xs. f x = None)"
  by (induction xs) (auto split: option.splits)

lemma first_some_SomeD: "first_some f xs = Some y \<Longrightarrow> \<exists>x \<in> set xs. f x = Some y"
  by (induction xs) (auto split: option.splits)

lemma held_together_sym: "held_together ads c d = held_together ads d c"
  by (simp add: held_together_def insert_commute)

lemma no_first_clash:
  assumes "first_clash ads = None" "(p, c, a) \<in> set ads" "(q, d, b) \<in> set ads" "p \<noteq> q"
  shows "held_together ads c d \<or> category_clash c d = None"
proof -
  have none: "new_clash ads x y = None" if "(x, y) \<in> set (pairs_of ads)" for x y
    using assms(1) that by (force simp: first_clash_def first_some_None)
  have "((p, c, a), (q, d, b)) \<in> set (pairs_of ads) \<or> ((q, d, b), (p, c, a)) \<in> set (pairs_of ads)"
    using pairs_of_cases [OF assms(2,3)] assms(4) by blast
  then show ?thesis
    using none assms(4) held_together_sym [of ads c d] category_clash_sym [of c d]
    by (auto simp: new_clash_def split: if_splits dest!: none)
qed

lemma first_clash_SomeD:
  assumes "first_clash ads = Some (clash, (p, q), (a, b))"
  shows "\<exists>c d. (p, c, a) \<in> set ads \<and> (q, d, b) \<in> set ads \<and> p \<noteq> q
     \<and> \<not> held_together ads c d \<and> category_clash c d = Some clash"
proof -
  obtain x y where xy: "(x, y) \<in> set (pairs_of ads)" "new_clash ads x y = Some (clash, (p, q), (a, b))"
    using assms first_some_SomeD unfolding first_clash_def by fastforce
  then show ?thesis
    using pairs_of_memD [OF xy(1)] by (cases x; cases y) (auto simp: new_clash_def split: if_splits)
qed

section \<open>A merge that goes through\<close>

lemma draw_group_store:
  "draw_group db g st = (grp, st1) \<Longrightarrow> \<exists>n. st1 = st\<lparr>drawn := n\<rparr>"
  by (auto simp: draw_group_def split: if_splits intro: exI [of _ "drawn st"])

lemma drawn_canonical [simp]: "canonical_of (st\<lparr>drawn := n\<rparr>) = canonical_of st"
  by (auto simp: canonical_of_def home_of_def fun_eq_iff split: option.split)

lemma drawn_reads [simp]:
  "locked_rows (st\<lparr>drawn := n\<rparr>) ids = locked_rows st ids"
  "gate_ads (st\<lparr>drawn := n\<rparr>) ids = gate_ads st ids"
  "merge_rulings (st\<lparr>drawn := n\<rparr>) ids = merge_rulings st ids"
  "home_of (st\<lparr>drawn := n\<rparr>) = home_of st"
  by (auto simp: locked_rows_def gate_ads_def set_ads_def contentful_rows_def merge_rulings_def
      members_of_def adverts_on_def on_property_def canonical_pairs_def canonical_ids_def
      home_of_def fun_eq_iff)

definition oldest :: "store \<Rightarrow> int list \<Rightarrow> int" where
  "oldest st ids = survivor_of (map (\<lambda>p. (p, p_first (the (map_of (props st) p)))) ids)"

definition rulings_of_merge :: "string \<Rightarrow> store \<Rightarrow> int list
    \<Rightarrow> (int \<times> int) set \<times> (int \<times> string option \<times> int list) list \<times> nat" where
  "rulings_of_merge source st ids = (if source = ''operator'' then merge_rulings st ids else ({}, [], 0))"

lemma gate_set_None:
  "gate_set (locked_rows st ids) ids = None \<Longrightarrow> keyed st \<Longrightarrow> p \<in> set ids \<Longrightarrow>
    \<exists>r. map_of (props st) p = Some r \<and> map_of (locked_rows st ids) p = Some r \<and> p_status r = Active"
proof -
  assume g: "gate_set (locked_rows st ids) ids = None" and k: "keyed st" and p: "p \<in> set ids"
  have m: "map_of (locked_rows st ids) p = map_of (props st) p"
  proof -
    have "map_of (filter (\<lambda>(q, v). q \<in> set ids) (props st)) p =
        (case map_of (props st) p of None \<Rightarrow> None | Some v \<Rightarrow> if p \<in> set ids then Some v else None)"
      using k unfolding keyed_def by (intro map_of_filter_keys) blast
    then show ?thesis using p by (simp add: locked_rows_def split: option.split)
  qed
  from g p have "map_of (locked_rows st ids) p \<noteq> None"
    and "case map_of (locked_rows st ids) p of None \<Rightarrow> True | Some r \<Rightarrow> p_status r = Active"
    by (auto simp: gate_set_def Let_def filter_empty_conv split: if_splits option.splits)
  then show ?thesis using m by auto
qed

lemma survivor_of_mem: "ids \<noteq> [] \<Longrightarrow> survivor_of (map (\<lambda>p. (p, f p)) ids) \<in> set ids"
  using arg_min_list_in [of "map (\<lambda>p. (p, f p)) ids" age_key] by (auto simp: survivor_of_def)

lemma merge_set_Inr:
  assumes k: "keyed st" and m: "merge_property_set db pids source reason gid who st = Inr (d, st')"
  defines "ids \<equiv> sorted_ids pids"
  obtains drw st2 vs where
    "2 \<le> length ids" "source = ''operator'' \<Longrightarrow> given who"
    "gate_set (locked_rows st ids) ids = None" "gate_ads st ids = None"
    "m_survivor d = oldest st ids" "m_survivor d \<in> set ids"
    "m_retired d = filter (\<lambda>p. p \<noteq> m_survivor d) ids"
    "merged_by (m_group d) reason source (m_survivor d) (m_retired d) (st\<lparr>drawn := drw\<rparr>) (m_moved d) st2"
    "rule_same (m_group d) (decider who) (fst (rulings_of_merge source st ids))
        (fst (snd (rulings_of_merge source st ids))) (rulings st) = Some (m_ruled d, vs)"
    "m_taken_back d = snd (snd (rulings_of_merge source st ids))"
    "st' = properties_changed db (m_survivor d # m_retired d) (st2\<lparr>rulings := vs\<rparr>)"
proof -
  obtain grp st1 where dg: "draw_group db gid st = (grp, st1)" by fastforce
  obtain drw where st1: "st1 = st\<lparr>drawn := drw\<rparr>" using draw_group_store [OF dg] by blast
  let ?s = "survivor_of (map (\<lambda>p. (p, p_first (the (map_of (locked_rows st ids) p)))) ids)"
  let ?rs = "filter (\<lambda>p. p \<noteq> ?s) ids"
  obtain n st2 where ma: "merge_all grp reason source ?s ?rs st1 = (n, st2)" by fastforce
  obtain pairs sets tb where rm: "rulings_of_merge source st ids = (pairs, sets, tb)"
    by (cases "rulings_of_merge source st ids") auto
  have len: "2 \<le> length ids" and op: "source = ''operator'' \<Longrightarrow> given who"
    using m by (auto simp: merge_property_set_def ids_def Let_def split: if_splits)
  have gs: "gate_set (locked_rows st ids) ids = None"
    using m len op by (auto simp: merge_property_set_def dg st1 Let_def ids_def [symmetric] split: if_splits option.splits)
  have ga: "gate_ads st ids = None"
    using m len op gs by (auto simp: merge_property_set_def dg st1 Let_def ids_def [symmetric] split: if_splits option.splits)
  have d0: "distinct (map fst (advs st1))" using k by (simp add: st1 keyed_def)
  have ne: "ids \<noteq> []" using len by auto
  have merged: "merged_by grp reason source ?s ?rs st1 n st2"
    using merge_all_merged [OF d0 _ _ ma] by (simp add: ids_def)
  have r2: "rulings st2 = rulings st" using merged by (simp add: merged_by_def st1)
  obtain ruled vs where rs: "rule_same grp (decider who) pairs sets (rulings st2) = Some (ruled, vs)"
      and d: "d = \<lparr>m_group = grp, m_survivor = ?s, m_retired = ?rs, m_moved = n, m_ruled = ruled, m_taken_back = tb\<rparr>"
      and st': "st' = properties_changed db (?s # ?rs) (st2\<lparr>rulings := vs\<rparr>)"
    using m len op gs ga rm ma
    by (auto simp: merge_property_set_def dg st1 Let_def ids_def [symmetric] rulings_of_merge_def
        split: if_splits option.splits)
  have old: "?s = oldest st ids"
  proof -
    have "map (\<lambda>p. (p, p_first (the (map_of (locked_rows st ids) p)))) ids = map (\<lambda>p. (p, p_first (the (map_of (props st) p)))) ids"
      using gate_set_None [OF gs k] by fastforce
    then show ?thesis unfolding oldest_def by (rule arg_cong)
  qed
  have mem: "oldest st ids \<in> set ids"
    unfolding oldest_def by (rule survivor_of_mem [OF ne])
  show ?thesis
    by (rule that [of drw st2 vs])
       (use len op gs ga old mem merged rs rm st' in \<open>simp_all add: d st1 r2\<close>)
qed

section \<open>The claims\<close>

definition contentful_on :: "store \<Rightarrow> int \<Rightarrow> int \<Rightarrow> bool" where
  "contentful_on st p a \<longleftrightarrow>
     (case map_of (advs st) a of None \<Rightarrow> False | Some v \<Rightarrow> l_home v = Some p \<and> \<not> ad_blank v)"

definition cats_of :: "store \<Rightarrow> int \<Rightarrow> categories" where
  "cats_of st a = cats (the (map_of (advs st) a))"

lemma contentful_rows_contentful:
  "keyed st \<Longrightarrow> (p, c, a) \<in> set (contentful_rows st ids) \<longleftrightarrow> p \<in> set ids \<and> contentful_on st p a \<and> c = cats_of st a"
  by (auto simp: contentful_rows_iff contentful_on_def cats_of_def split: option.split)

lemma oldest_age:
  fixes st :: store and pids :: "int list"
  defines "age \<equiv> \<lambda>p. age_key (p, p_first (the (map_of (props st) p)))"
  assumes "2 \<le> length (sorted_ids pids)" "oldest st (sorted_ids pids) \<in> set pids"
  shows "age (oldest st (sorted_ids pids)) = Min (age ` set pids)"
proof -
  let ?s = "oldest st (sorted_ids pids)"
  let ?rows = "map (\<lambda>p. (p, p_first (the (map_of (props st) p)))) (sorted_ids pids)"
  have ne: "?rows \<noteq> []" using assms(2) by auto
  have least: "age_key (arg_min_list age_key ?rows) \<le> age_key y" if "y \<in> set ?rows" for y
    using arg_min_list_le [OF that] .
  have "arg_min_list age_key ?rows \<in> set ?rows" using arg_min_list_mem [OF ne] .
  then have "arg_min_list age_key ?rows = (?s, p_first (the (map_of (props st) ?s)))"
    by (auto simp: oldest_def survivor_of_def)
  then have "age ?s \<le> age p" if "p \<in> set pids" for p
    using least [of "(p, p_first (the (map_of (props st) p)))"] that by (auto simp: age_def)
  then show ?thesis using assms(3) by (intro Min_eqI [symmetric]) auto
qed

lemma moved_off:
  assumes k: "keyed st" and m: "merged_by g reason source s rs (st\<lparr>drawn := i\<rparr>) n st2"
    and "s \<notin> set rs" "r \<in> set rs" "(a, w) \<in> set (advs st2)"
  shows "l_home w \<noteq> Some r"
proof -
  have "map fst (advs st2) = map fst (advs st)" and
    a: "map_of (advs st2) a = map_option (\<lambda>v. v\<lparr>l_home := moved_home s (set rs) (l_home v)\<rparr>) (map_of (advs st) a)"
    using m by (simp_all add: merged_by_def)
  then have "distinct (map fst (advs st2))" using k by (simp add: keyed_def)
  then have "map_of (advs st2) a = Some w" using assms(5) by simp
  then obtain z where "w = z\<lparr>l_home := moved_home s (set rs) (l_home z)\<rparr>" using a by auto
  then show ?thesis using assms(3,4) by (auto simp: moved_home_def split: option.splits if_splits)
qed

lemma merged_rows:
  assumes k: "keyed st" and m: "merged_by g reason source s rs (st\<lparr>drawn := i\<rparr>) n st2" and sn: "s \<notin> set rs"
    and v: "map_of (props st) s = Some v"
  shows "\<exists>t. no_later v t \<and> map_of (props (properties_changed db (s # rs) (st2\<lparr>rulings := vs\<rparr>))) p =
      (if p \<in> set rs then map_option (retired_into s) (map_of (props st) p)
       else if p = s then map_option (\<lambda>v. roll_up db (advs st2) s (v\<lparr>p_settled := t\<rparr>)) (map_of (props st) p)
       else map_of (props st) p)"
proof -
  obtain f where f: "\<And>v. no_later v (f v)" "\<And>p. map_of (props st2) p =
          map_option (\<lambda>v. if p \<in> set rs then retired_into s v else if p = s then v\<lparr>p_settled := f v\<rparr> else v)
            (map_of (props st) p)"
    using m by (auto simp: merged_by_def)
  have left: "l_home w \<noteq> Some r" if "r \<in> set rs" "(a, w) \<in> set (advs st2)" for r a w
    by (rule moved_off [OF k m sn that])
  have gone: "roll_up db (advs st2) r y = y" if "r \<in> set rs" for r y
    using left [OF that] by (intro roll_up_childless) blast
  show ?thesis
    using f(1) v sn by (intro exI [of _ "f v"]) (auto simp: properties_changed_map_of f(2) gone option.map_comp comp_def option.map_ident)
qed

text \<open>
  What rule 15 refuses: the contentful adverts \<open>a\<close> and \<open>b\<close> of two members carry categories it
  separates, and no member already holds contentful adverts of those two categories together.
\<close>

definition held_before :: "store \<Rightarrow> int set \<Rightarrow> categories \<Rightarrow> categories \<Rightarrow> bool" where
  "held_before st S c d \<longleftrightarrow>
     (\<exists>r \<in> S. \<exists>a b. contentful_on st r a \<and> contentful_on st r b \<and> {cats_of st a, cats_of st b} = {c, d})"

definition newly_mixes :: "store \<Rightarrow> int set \<Rightarrow> int \<Rightarrow> int \<Rightarrow> bool" where
  "newly_mixes st S a b \<longleftrightarrow>
     (\<exists>p \<in> S. \<exists>q \<in> S. p \<noteq> q \<and> contentful_on st p a \<and> contentful_on st q b)
   \<and> category_clash (cats_of st a) (cats_of st b) \<noteq> None
   \<and> \<not> held_before st S (cats_of st a) (cats_of st b)"

definition unfit :: "store \<Rightarrow> int set \<Rightarrow> int set" where
  "unfit st S = {p \<in> S. case map_of (props st) p of None \<Rightarrow> True | Some r \<Rightarrow> p_status r \<noteq> Active}"

lemma held_together_before:
  assumes "keyed st"
  shows "held_together (set_ads st ids) c d \<longleftrightarrow> held_before st (set ids) c d"
proof
  assume "held_together (set_ads st ids) c d"
  then obtain x y where xy: "x \<in> set (set_ads st ids)" "y \<in> set (set_ads st ids)" "fst x = fst y"
      "{fst (snd x), fst (snd y)} = {c, d}"
    unfolding held_together_def by blast
  obtain r e u where x: "x = (r, e, u)" by (cases x) auto
  obtain f v where y: "y = (r, f, v)" using xy(3) x by (cases y) auto
  have "r \<in> set ids \<and> contentful_on st r u \<and> e = cats_of st u" "contentful_on st r v \<and> f = cats_of st v"
    using set_ads_member xy(1,2) contentful_rows_contentful [OF assms] unfolding x y by blast+
  then show "held_before st (set ids) c d" using xy(4) x y unfolding held_before_def by auto
next
  assume "held_before st (set ids) c d"
  then obtain r a b where r: "r \<in> set ids" "contentful_on st r a" "contentful_on st r b"
      "{cats_of st a, cats_of st b} = {c, d}"
    unfolding held_before_def by blast
  obtain u where u: "(r, cats_of st a, u) \<in> set (set_ads st ids)"
    using set_ads_covers r contentful_rows_contentful [OF assms] by blast
  obtain v where v: "(r, cats_of st b, v) \<in> set (set_ads st ids)"
    using set_ads_covers r contentful_rows_contentful [OF assms] by blast
  show "held_together (set_ads st ids) c d"
    unfolding held_together_def by (rule bexI [OF _ u], rule bexI [OF _ v]) (simp add: r(4))
qed

lemma gate_ads_None:
  assumes k: "keyed st" and g: "gate_ads st ids = None"
  shows "\<not> newly_mixes st (set ids) a b"
proof
  assume "newly_mixes st (set ids) a b"
  then obtain p q where p: "p \<in> set ids" "contentful_on st p a" and q: "q \<in> set ids" "contentful_on st q b"
      and ne: "p \<noteq> q" and c: "category_clash (cats_of st a) (cats_of st b) \<noteq> None"
      and h: "\<not> held_before st (set ids) (cats_of st a) (cats_of st b)"
    unfolding newly_mixes_def by blast
  obtain u where u: "(p, cats_of st a, u) \<in> set (set_ads st ids)"
    using set_ads_covers p contentful_rows_contentful [OF k] by blast
  obtain v where v: "(q, cats_of st b, v) \<in> set (set_ads st ids)"
    using set_ads_covers q contentful_rows_contentful [OF k] by blast
  have "first_clash (set_ads st ids) = None" using g by (simp add: gate_ads_def)
  from no_first_clash [OF this u v ne] c h show False
    unfolding held_together_before [OF k] by simp
qed

lemma gate_ads_Some:
  assumes k: "keyed st" and g: "gate_ads st ids = Some e"
  shows "\<exists>clash p q a b. e = Category_clash clash (p, q) (a, b)
     \<and> p \<noteq> q \<and> {p, q} \<subseteq> set ids \<and> contentful_on st p a \<and> contentful_on st q b
     \<and> category_clash (cats_of st a) (cats_of st b) = Some clash \<and> newly_mixes st (set ids) a b"
proof -
  obtain clash p q a b where fc: "first_clash (set_ads st ids) = Some (clash, (p, q), (a, b))"
      and e: "e = Category_clash clash (p, q) (a, b)"
    using g by (auto simp: gate_ads_def)
  obtain c d where cd: "(p, c, a) \<in> set (set_ads st ids)" "(q, d, b) \<in> set (set_ads st ids)" "p \<noteq> q"
      "\<not> held_together (set_ads st ids) c d" "category_clash c d = Some clash"
    using first_clash_SomeD [OF fc] by blast
  have a: "p \<in> set ids" "contentful_on st p a" "c = cats_of st a"
    using set_ads_member [OF cd(1)] contentful_rows_contentful [OF k] by blast+
  have b: "q \<in> set ids" "contentful_on st q b" "d = cats_of st b"
    using set_ads_member [OF cd(2)] contentful_rows_contentful [OF k] by blast+
  have "newly_mixes st (set ids) a b"
    unfolding newly_mixes_def
  proof (intro conjI)
    show "\<exists>p \<in> set ids. \<exists>q \<in> set ids. p \<noteq> q \<and> contentful_on st p a \<and> contentful_on st q b"
      using cd(3) a(1,2) b(1,2) by blast
    show "category_clash (cats_of st a) (cats_of st b) \<noteq> None" using cd(5) a(3) b(3) by simp
    show "\<not> held_before st (set ids) (cats_of st a) (cats_of st b)"
      using cd(4) a(3) b(3) unfolding held_together_before [OF k] by simp
  qed
  moreover have "category_clash (cats_of st a) (cats_of st b) = Some clash" using cd(5) a(3) b(3) by simp
  moreover have "{p, q} \<subseteq> set ids" using a(1) b(1) by simp
  ultimately show ?thesis using e cd(3) a(2) b(2) by blast
qed

lemma merge_refusals:
  assumes k: "keyed st" and m: "merge_property_set db pids source reason gid who st = Inl e"
  shows "if card (set pids) < 2 then e = Too_few
    else if source = ''operator'' \<and> \<not> given who then e = No_decider
    else if unfit st (set pids) \<noteq> {} then
      (case e of
         Not_active missing inactive \<Rightarrow>
           set missing = {p \<in> set pids. map_of (props st) p = None} \<and> set inactive = unfit st (set pids) - set missing
       | _ \<Rightarrow> False)
    else
      (case e of
         Category_clash clash (p, q) (a, b) \<Rightarrow>
           p \<noteq> q \<and> {p, q} \<subseteq> set pids \<and> contentful_on st p a \<and> contentful_on st q b
           \<and> category_clash (cats_of st a) (cats_of st b) = Some clash \<and> newly_mixes st (set pids) a b
       | _ \<Rightarrow> False)"
proof -
  let ?ids = "sorted_ids pids"
  let ?rows = "locked_rows st ?ids"
  let ?ms = "filter (\<lambda>p. map_of ?rows p = None) ?ids"
  let ?is = "filter (\<lambda>p. case map_of ?rows p of None \<Rightarrow> False | Some r \<Rightarrow> p_status r \<noteq> Active) ?ids"
  obtain grp st1 where dg: "draw_group db gid st = (grp, st1)" by fastforce
  obtain drw where st1: "st1 = st\<lparr>drawn := drw\<rparr>" using draw_group_store [OF dg] by blast
  have len: "length ?ids = card (set pids)" by (simp add: sorted_ids_def length_remdups_card_conv)
  have rows: "map_of ?rows p = (if p \<in> set pids then map_of (props st) p else None)" for p
  proof -
    have "map_of (filter (\<lambda>(q, v). q \<in> set ?ids) (props st)) p =
        (case map_of (props st) p of None \<Rightarrow> None | Some v \<Rightarrow> if p \<in> set ?ids then Some v else None)"
      using k unfolding keyed_def by (intro map_of_filter_keys) blast
    then show ?thesis by (simp add: locked_rows_def split: option.split)
  qed
  have ms: "set ?ms = {p \<in> set pids. map_of (props st) p = None}" by (auto simp: rows)
  have idle: "set ?is = unfit st (set pids) - set ?ms" by (auto simp: rows unfit_def split: option.splits)
  have none: "gate_set ?rows ?ids = None \<longleftrightarrow> unfit st (set pids) = {}"
  proof -
    have "gate_set ?rows ?ids = None \<longleftrightarrow> set ?ms = {} \<and> set ?is = {}"
      by (simp only: gate_set_def Let_def set_empty) auto
    also have "\<dots> \<longleftrightarrow> unfit st (set pids) = {}"
      unfolding ms idle by (auto simp: unfit_def split: option.splits)
    finally show ?thesis .
  qed
  have same: "rule_same g b P S vs = None \<Longrightarrow> False" for g b P S vs
    by (auto simp: rule_same_def record_rulings_def VERDICT_VALUES_def Let_def split: option.splits if_splits prod.splits)
  consider (few) "length ?ids < 2" "e = Too_few"
    | (who) "\<not> length ?ids < 2" "source = ''operator'' \<and> \<not> given who" "e = No_decider"
    | (set) "\<not> length ?ids < 2" "\<not> (source = ''operator'' \<and> \<not> given who)" "gate_set ?rows ?ids = Some e"
    | (ads) "\<not> length ?ids < 2" "\<not> (source = ''operator'' \<and> \<not> given who)" "gate_set ?rows ?ids = None" "gate_ads st ?ids = Some e"
    using m by (auto simp: merge_property_set_def dg st1 Let_def split: if_splits option.splits prod.splits dest: same)
  then show ?thesis
  proof cases
    case set
    have e: "e = Not_active ?ms ?is" using set(3) by (auto simp: gate_set_def Let_def split: if_splits)
    have "unfit st (set pids) \<noteq> {}" using set(3) none by auto
    then show ?thesis using set(1,2) ms idle by (simp only: len e merge_error.case if_False if_True simp_thms)
  next
    case ads
    have "unfit st (set pids) = {}" using ads(3) none by blast
    then show ?thesis using ads(1,2) gate_ads_Some [OF k ads(4)] by (auto simp: len)
  qed (simp_all add: len)
qed

lemma merge_accepts:
  assumes k: "keyed st" and m: "merge_property_set db pids source reason gid who st = Inr (d, st')"
  shows "\<not> card (set pids) < 2" "\<not> (source = ''operator'' \<and> \<not> given who)"
    "unfit st (set pids) = {}" "\<not> newly_mixes st (set pids) a b"
proof -
  have f: "2 \<le> length (sorted_ids pids) \<and> (source = ''operator'' \<longrightarrow> given who)
      \<and> gate_set (locked_rows st (sorted_ids pids)) (sorted_ids pids) = None \<and> gate_ads st (sorted_ids pids) = None"
    by (rule merge_set_Inr [OF k m]) blast
  show "\<not> card (set pids) < 2" using f by (simp add: sorted_ids_def length_remdups_card_conv)
  show "\<not> (source = ''operator'' \<and> \<not> given who)" using f by blast
  show "unfit st (set pids) = {}"
    using gate_set_None [OF _ k, of "sorted_ids pids"] f by (auto simp: unfit_def split: option.splits) (metis option.sel option.distinct(1))+
  show "\<not> newly_mixes st (set pids) a b"
    using gate_ads_None [OF k, of "sorted_ids pids"] f by simp
qed

text \<open>
  C1. \<open>merge_property_set\<close> on tables with one row per key. It refuses exactly a set of fewer than two
  properties, an operator's merge that names nobody, a set with a missing or inactive member (all of
  them listed), and one that would newly put contentful adverts of categories rule 15 separates on
  one property (two such adverts named), in that order of precedence. Otherwise the survivor is the
  oldest member; every advert of a member is on the survivor and every other advert where it was;
  every other member is retired into the survivor, still holding its own columns, the survivor's row
  gets at most an earlier publication stamp and the roll-up of the adverts it now holds, and no
  property outside the set changes; and the ledger gains exactly one live row per moved advert, which
  names the property it left.
\<close>

theorem merge_property_set_correct:
  assumes "keyed st"
  shows "case merge_property_set db pids source reason gid who st of
      Inl e \<Rightarrow>
        (if card (set pids) < 2 then e = Too_few
         else if source = ''operator'' \<and> \<not> given who then e = No_decider
         else if unfit st (set pids) \<noteq> {} then
           (case e of
              Not_active missing inactive \<Rightarrow>
                set missing = {p \<in> set pids. map_of (props st) p = None} \<and> set inactive = unfit st (set pids) - set missing
            | _ \<Rightarrow> False)
         else
           (case e of
              Category_clash clash (p, q) (a, b) \<Rightarrow>
                p \<noteq> q \<and> {p, q} \<subseteq> set pids \<and> contentful_on st p a \<and> contentful_on st q b
                \<and> category_clash (cats_of st a) (cats_of st b) = Some clash \<and> newly_mixes st (set pids) a b
            | _ \<Rightarrow> False))
    | Inr (d, st') \<Rightarrow>
        2 \<le> card (set pids) \<and> \<not> (source = ''operator'' \<and> \<not> given who)
        \<and> unfit st (set pids) = {} \<and> \<not> newly_mixes st (set pids) x y
        \<and> (let s = m_survivor d; age = (\<lambda>p. age_key (p, p_first (the (map_of (props st) p))))
           in s \<in> set pids \<and> age s = Min (age ` set pids) \<and> set (m_retired d) = set pids - {s}
            \<and> home_of st' a = moved_home s (set pids - {s}) (home_of st a)
            \<and> (\<exists>t. map_of (props st') p =
                 (if p \<in> set pids - {s} then map_option (retired_into s) (map_of (props st) p)
                  else if p = s then map_option (\<lambda>v. roll_up db (advs st') s (v\<lparr>p_settled := t\<rparr>)) (map_of (props st) p)
                  else map_of (props st) p)
                 \<and> (case map_of (props st) s of None \<Rightarrow> False | Some v \<Rightarrow> no_later v t))
            \<and> (\<exists>rows. ledger st' = ledger st @ rows \<and> length rows = m_moved d
                 \<and> unnumbered (rows_of a rows) =
                     (case home_of st a of None \<Rightarrow> []
                      | Some q \<Rightarrow> if q \<in> set pids - {s} then [merge_event (m_group d) reason source s q a] else [])))"
proof (cases "merge_property_set db pids source reason gid who st")
  case (Inl e)
  then show ?thesis using merge_refusals [OF assms Inl] by simp
next
  case (Inr ds)
  obtain d st' where ds: "ds = (d, st')" by (cases ds)
  let ?s = "m_survivor d"
  let ?age = "\<lambda>p. age_key (p, p_first (the (map_of (props st) p)))"
  obtain drw st2 vs where f: "2 \<le> length (sorted_ids pids)" "?s = oldest st (sorted_ids pids)"
      "?s \<in> set (sorted_ids pids)" "m_retired d = filter (\<lambda>p. p \<noteq> ?s) (sorted_ids pids)"
      "merged_by (m_group d) reason source ?s (m_retired d) (st\<lparr>drawn := drw\<rparr>) (m_moved d) st2"
      "st' = properties_changed db (?s # m_retired d) (st2\<lparr>rulings := vs\<rparr>)"
    using merge_set_Inr [OF assms Inr [unfolded ds]] by metis
  note ok = merge_accepts [OF assms Inr [unfolded ds]]
  have R: "set (m_retired d) = set pids - {?s}" by (auto simp: f(4))
  have s: "?s \<in> set pids" using f(3) by simp
  note M = f(5) [unfolded merged_by_def R]
  have age: "?age ?s = Min (?age ` set pids)"
    using oldest_age [of pids st] f(1,2) s by simp
  have home: "home_of st' a = moved_home ?s (set pids - {?s}) (home_of st a)"
    using M by (cases "map_of (advs st) a") (auto simp: f(6) home_of_def moved_home_def)
  obtain v where v: "map_of (props st) ?s = Some v"
    using ok(3) s by (auto simp: unfit_def split: option.splits)
  obtain t where t: "no_later v t" "map_of (props st') p =
      (if p \<in> set pids - {?s} then map_option (retired_into ?s) (map_of (props st) p)
       else if p = ?s then map_option (\<lambda>v. roll_up db (advs st') ?s (v\<lparr>p_settled := t\<rparr>)) (map_of (props st) p)
       else map_of (props st) p)"
    using merged_rows [OF assms f(5) _ v, of db vs p] unfolding R f(6) by auto
  obtain rows where rows: "ledger st2 = ledger st @ rows" "m_moved d = length rows"
      "unnumbered (rows_of a rows) = (case home_of st a of None \<Rightarrow> []
           | Some q \<Rightarrow> if q \<in> set pids - {?s} then [merge_event (m_group d) reason source ?s q a] else [])"
    using M by auto
  show ?thesis
    unfolding Inr ds sum.case prod.case Let_def
    using ok(1) by (intro conjI ok s age R home exI [of _ t] exI [of _ rows]) (use t v in \<open>simp_all add: f(6) rows\<close>)
qed

lemma merged_contentful:
  assumes "merged_by g reason source s rs st n st'" "s \<notin> set rs"
  shows "contentful_on st' p a \<longleftrightarrow>
      (\<exists>q. contentful_on st q a \<and> (if q \<in> set rs then p = s else p = q))"
    and "map_of (advs st) a \<noteq> None \<Longrightarrow> cats_of st' a = cats_of st a"
proof -
  have m: "map_of (advs st') a = map_option (\<lambda>v. v\<lparr>l_home := moved_home s (set rs) (l_home v)\<rparr>) (map_of (advs st) a)"
    using assms(1) by (simp add: merged_by_def)
  show "contentful_on st' p a \<longleftrightarrow> (\<exists>q. contentful_on st q a \<and> (if q \<in> set rs then p = s else p = q))"
    by (cases "map_of (advs st) a")
       (auto simp: contentful_on_def m moved_home_def ad_blank_def split: option.splits)
  show "map_of (advs st) a \<noteq> None \<Longrightarrow> cats_of st' a = cats_of st a"
    by (auto simp: cats_of_def m cats_def)
qed

lemma gate_ads_sound:
  assumes k: "keyed st" and g: "gate_ads st ids = None"
    and a: "contentful_on st p a" "p \<in> set ids" and b: "contentful_on st q b" "q \<in> set ids"
    and clash: "category_clash (cats_of st a) (cats_of st b) \<noteq> None"
  shows "\<exists>r \<in> set ids. \<exists>a' b'. contentful_on st r a' \<and> contentful_on st r b'
    \<and> {cats_of st a', cats_of st b'} = {cats_of st a, cats_of st b}"
proof (cases "p = q")
  case True
  then show ?thesis using a b by blast
next
  case False
  let ?ads = "set_ads st ids"
  have none: "first_clash ?ads = None" using g by (simp add: gate_ads_def)
  obtain a1 where a1: "(p, cats_of st a, a1) \<in> set ?ads"
    using set_ads_covers a contentful_rows_contentful [OF k] by blast
  obtain b1 where b1: "(q, cats_of st b, b1) \<in> set ?ads"
    using set_ads_covers b contentful_rows_contentful [OF k] by blast
  have "held_together ?ads (cats_of st a) (cats_of st b)"
    using no_first_clash [OF none a1 b1 False] clash by blast
  then obtain x y where xy: "x \<in> set ?ads" "y \<in> set ?ads" "fst x = fst y"
      "{fst (snd x), fst (snd y)} = {cats_of st a, cats_of st b}"
    unfolding held_together_def by blast
  obtain r c u where x: "x = (r, c, u)" by (cases x) auto
  obtain d v where y: "y = (r, d, v)" using xy(3) x by (cases y) auto
  have "r \<in> set ids \<and> contentful_on st r u \<and> c = cats_of st u" "contentful_on st r v \<and> d = cats_of st v"
    using set_ads_member xy(1,2) contentful_rows_contentful [OF k] unfolding x y by blast+
  then show ?thesis using xy(4) x y by auto
qed

text \<open>
  C15. Rule 15 is never newly violated: when two contentful adverts of the survivor carry categories
  the rule separates, one property of the set already held, before the merge, contentful adverts of
  those two categories together.
\<close>

theorem merge_never_newly_mixes:
  assumes "keyed st"
  shows "case merge_property_set db pids source reason gid who st of
      Inl e \<Rightarrow> True
    | Inr (d, st') \<Rightarrow>
        if contentful_on st' (m_survivor d) a \<and> contentful_on st' (m_survivor d) b
           \<and> category_clash (cats_of st' a) (cats_of st' b) \<noteq> None
        then \<exists>r \<in> set pids. \<exists>a' b'. contentful_on st r a' \<and> contentful_on st r b'
               \<and> {cats_of st a', cats_of st b'} = {cats_of st' a, cats_of st' b}
        else True"
proof (cases "merge_property_set db pids source reason gid who st")
  case (Inr ds)
  obtain d st' where ds: "ds = (d, st')" by (cases ds)
  let ?s = "m_survivor d" let ?ids = "sorted_ids pids"
  obtain drw st2 vs where f: "gate_ads st ?ids = None" "?s \<in> set ?ids" "m_retired d = filter (\<lambda>p. p \<noteq> ?s) ?ids"
      "merged_by (m_group d) reason source ?s (m_retired d) (st\<lparr>drawn := drw\<rparr>) (m_moved d) st2"
      "st' = properties_changed db (?s # m_retired d) (st2\<lparr>rulings := vs\<rparr>)"
    using merge_set_Inr [OF assms Inr [unfolded ds]] by metis
  have eq: "contentful_on (st\<lparr>drawn := drw\<rparr>) = contentful_on st" "cats_of (st\<lparr>drawn := drw\<rparr>) = cats_of st"
      "contentful_on st' = contentful_on st2" "cats_of st' = cats_of st2"
    by (simp_all add: contentful_on_def cats_of_def fun_eq_iff f(5))
  have sn: "?s \<notin> set (m_retired d)" by (simp add: f(3))
  have on: "\<exists>q \<in> set ?ids. contentful_on st q x \<and> cats_of st' x = cats_of st x" if c: "contentful_on st' ?s x" for x
  proof -
    obtain q where q: "contentful_on st q x" "if q \<in> set (m_retired d) then ?s = ?s else ?s = q"
      using merged_contentful(1) [OF f(4) sn, of ?s x] c unfolding eq by blast
    have "q \<in> set ?ids" using q(2) f(2,3) by (auto split: if_splits)
    moreover have "map_of (advs (st\<lparr>drawn := drw\<rparr>)) x \<noteq> None" using q(1) by (auto simp: contentful_on_def split: option.splits)
    ultimately show ?thesis using q(1) merged_contentful(2) [OF f(4) sn, of x] by (auto simp: eq)
  qed
  have "\<exists>r \<in> set pids. \<exists>a' b'. contentful_on st r a' \<and> contentful_on st r b'
               \<and> {cats_of st a', cats_of st b'} = {cats_of st' a, cats_of st' b}"
    if h: "contentful_on st' ?s a" "contentful_on st' ?s b" "category_clash (cats_of st' a) (cats_of st' b) \<noteq> None"
  proof -
    obtain p q where p: "p \<in> set ?ids" "contentful_on st p a" "cats_of st' a = cats_of st a"
      and q: "q \<in> set ?ids" "contentful_on st q b" "cats_of st' b = cats_of st b"
      using on h(1,2) by blast
    show ?thesis
      using gate_ads_sound [OF assms f(1) p(2,1) q(2,1)] h(3) p(3) q(3) by simp
  qed
  then show ?thesis by (simp add: Inr ds)
qed simp

section \<open>The operator's word\<close>

lemma append_sets_fold:
  "newest_word (fold (\<lambda>(key, gen, ms). append_set (f key gen ms)) sets vs) q = newest_word vs q \<and>
   operator_veto (fold (\<lambda>(key, gen, ms). append_set (f key gen ms)) sets vs) q = operator_veto vs q \<and>
   in_step (fold (\<lambda>(key, gen, ms). append_set (f key gen ms)) sets vs) = in_step vs"
  by (induction sets arbitrary: vs) (simp_all add: split_def)

lemma rule_same_words:
  assumes "rule_same g b pairs sets vs = Some (n, vs')" "in_step vs" "finite pairs"
  shows "in_step vs'" and "newest_word vs' q = (if q \<in> pairs then Some ''same'' else newest_word vs q)"
    and "operator_veto vs' q = (if q \<in> pairs then False else operator_veto vs q)" and "n = card pairs"
proof -
  obtain vs1 where 1: "(if pairs = {} then Some (0, vs)
        else record_rulings pairs ''same'' b (Some (''operator merge '' @ g)) [] vs) = Some (n, vs1)"
      and v: "vs' = fold (\<lambda>(key, gen, ms). append_set \<lparr>sr_key = key, sr_gen = gen, sr_ids = ms,
                      sr_word = ''same'', sr_note = Some (''operator merge '' @ g), sr_reasons = [],
                      sr_by = b\<rparr>) sets vs1"
    using assms(1) unfolding rule_same_def
    by (cases "if pairs = {} then Some (0, vs)
        else record_rulings pairs ''same'' b (Some (''operator merge '' @ g)) [] vs") fastforce+
  have "in_step vs1 \<and> newest_word vs1 q = (if q \<in> pairs then Some ''same'' else newest_word vs q)
      \<and> operator_veto vs1 q = (if q \<in> pairs then False else operator_veto vs q) \<and> n = card pairs"
  proof (cases "pairs = {}")
    case True
    then show ?thesis using 1 assms(2) by simp
  next
    case False
    then have vs1: "vs1 = rule_each ''same'' (Some (''operator merge '' @ g)) [] b (sorted_list_of_set pairs) vs" "n = card pairs"
      using 1 by (auto simp: record_rulings_def Let_def split: if_splits)
    show ?thesis using vs1(2) assms(3) rule_all(1,2,3) [OF assms(2)] unfolding vs1(1)
      by (simp add: negative_def NEGATIVE_VERDICTS_def)
  qed
  note this [THEN conjunct1] this [THEN conjunct2, THEN conjunct1]
    this [THEN conjunct2, THEN conjunct2, THEN conjunct1] this [THEN conjunct2, THEN conjunct2, THEN conjunct2]
  then show "in_step vs'" "newest_word vs' q = (if q \<in> pairs then Some ''same'' else newest_word vs q)"
    "operator_veto vs' q = (if q \<in> pairs then False else operator_veto vs q)" "n = card pairs"
    unfolding v by (simp_all only: append_sets_fold)
qed

lemma members_of_iff:
  assumes "keyed st"
  shows "(a, p) \<in> set (members_of st ids) \<longleftrightarrow> p \<in> set ids \<and> home_of st a = Some p"
  using on_property_iff [of st a p] assms by (auto simp: members_of_def adverts_on_def keyed_def)

lemma members_of_distinct:
  assumes "keyed st"
  shows "distinct (map fst (members_of st ids))"
proof -
  have d: "distinct (on_property st p)" for p
    using assms by (simp add: on_property_def keyed_def distinct_map_filter)
  have "map fst (members_of st ids) = concat (map (\<lambda>p. sort (on_property st p)) (sorted_ids ids))"
    by (simp add: members_of_def adverts_on_def map_concat comp_def)
  moreover have "distinct (concat (map (\<lambda>p. sort (on_property st p)) xs))" if "distinct xs" for xs
    using that on_property_iff assms by (induction xs) (auto simp: d keyed_def)
  ultimately show ?thesis by simp
qed

text \<open>
  What an operator's merge rules "same", in the words of its contract: the ordered pairs of the
  members' canonical adverts, and the pairs of two members' adverts whose newest word is negative.
\<close>

definition merge_speaks_on :: "store \<Rightarrow> int set \<Rightarrow> (int \<times> int) set" where
  "merge_speaks_on st S =
     {(a, b). a < b \<and> (\<exists>p \<in> S. canonical_of st p = Some a) \<and> (\<exists>q \<in> S. canonical_of st q = Some b)}
   \<union> {(a, b). \<exists>p \<in> S. \<exists>q \<in> S. p \<noteq> q \<and> home_of st a = Some p \<and> home_of st b = Some q
        \<and> (case newest_word (rulings st) (a, b) of None \<Rightarrow> False | Some w \<Rightarrow> negative w)}"

lemma pairs_of_sorted:
  "sorted xs \<Longrightarrow> distinct xs \<Longrightarrow> set (pairs_of xs) = {(a, b). a \<in> set xs \<and> b \<in> set xs \<and> a < (b :: int)}"
proof (induction xs)
  case (Cons x xs)
  then have "\<forall>y \<in> set xs. x < y" by (auto simp: order_le_less)
  then show ?case using Cons by (auto simp: order_less_asym)
qed simp

lemma canonical_pairs_iff:
  "canonical_pairs st ids =
     {(a, b). a < b \<and> (\<exists>p \<in> set ids. canonical_of st p = Some a) \<and> (\<exists>q \<in> set ids. canonical_of st q = Some b)}"
proof -
  have "set (canonical_ids st ids) = {a. \<exists>p \<in> set ids. canonical_of st p = Some a}"
    by (auto simp: canonical_ids_def List.map_filter_def split: option.splits) force
  moreover have "sorted (canonical_ids st ids)" "distinct (canonical_ids st ids)"
    by (simp_all add: canonical_ids_def sorted_ids_def)
  ultimately show ?thesis by (auto simp: canonical_pairs_def pairs_of_sorted)
qed

lemma members_keys:
  assumes "keyed st"
  shows "a \<in> fst ` set (members_of st ids) \<longleftrightarrow> (\<exists>p \<in> set ids. home_of st a = Some p)"
  using members_of_iff [OF assms, of a _ ids] by force

lemma merge_rulings_spec:
  assumes "keyed st"
  shows "fst (merge_rulings st ids) = merge_speaks_on st (set ids)"
proof -
  have home: "map_of (members_of st ids) a = home_of st a" if "\<exists>p \<in> set ids. home_of st a = Some p" for a
    using that members_of_iff [OF assms, of a _ ids] members_of_distinct [OF assms, of ids] by auto
  have "set (fst (negatives_across (rulings st) (members_of st ids)))
      = {(a, b). \<exists>p \<in> set ids. \<exists>q \<in> set ids. p \<noteq> q \<and> home_of st a = Some p \<and> home_of st b = Some q
        \<and> (case newest_word (rulings st) (a, b) of None \<Rightarrow> False | Some w \<Rightarrow> negative w)}"
    unfolding negatives_across_pairs [OF members_of_distinct [OF assms]] members_keys [OF assms]
    using home by (auto 0 3)
  then show ?thesis
    by (simp add: merge_rulings_def merge_speaks_on_def canonical_pairs_iff split_def Let_def)
qed

lemma merge_speaks_finite: "keyed st \<Longrightarrow> finite (merge_speaks_on st (set ids))"
  by (simp add: merge_rulings_spec [symmetric] merge_rulings_def canonical_pairs_def split_def Let_def)

text \<open>
  C16. An operator's merge is a ruling: afterwards the newest word on every pair of the members'
  canonical adverts, and on every pair of two members' adverts whose newest word was negative, is
  "same" and carries no operator veto, every other pair's word and veto are untouched, so no negative
  word stands between two members; and the count of rulings written is the number of those pairs.
\<close>

theorem operator_merge_rules_same:
  assumes "keyed st" and "in_step (rulings st)"
  shows "case merge_property_set db pids ''operator'' reason gid who st of
      Inl e \<Rightarrow> True
    | Inr (d, st') \<Rightarrow>
        let same = {(a, b). a < b \<and> (\<exists>p \<in> set pids. canonical_of st p = Some a) \<and> (\<exists>q \<in> set pids. canonical_of st q = Some b)}
          \<union> {(a, b). \<exists>p \<in> set pids. \<exists>q \<in> set pids. p \<noteq> q \<and> home_of st a = Some p \<and> home_of st b = Some q
               \<and> (case newest_word (rulings st) (a, b) of None \<Rightarrow> False | Some w \<Rightarrow> negative w)}
        in in_step (rulings st') \<and> m_ruled d = card same
         \<and> newest_word (rulings st') (a, b) = (if (a, b) \<in> same then Some ''same'' else newest_word (rulings st) (a, b))
         \<and> operator_veto (rulings st') (a, b) = (if (a, b) \<in> same then False else operator_veto (rulings st) (a, b))
         \<and> (case (home_of st a, home_of st b) of
              (Some p, Some q) \<Rightarrow>
                if p \<in> set pids \<and> q \<in> set pids \<and> p \<noteq> q
                then (case newest_word (rulings st') (a, b) of None \<Rightarrow> True | Some w \<Rightarrow> \<not> negative w)
                else True
            | _ \<Rightarrow> True)"
proof (cases "merge_property_set db pids ''operator'' reason gid who st")
  case (Inr ds)
  obtain d st' where ds: "ds = (d, st')" by (cases ds)
  let ?ids = "sorted_ids pids" let ?same = "merge_speaks_on st (set pids)"
  have spec: "fst (merge_rulings st ?ids) = ?same" by (simp add: merge_rulings_spec [OF assms(1)])
  obtain vs where f: "rule_same (m_group d) (decider who) ?same (fst (snd (merge_rulings st ?ids))) (rulings st) = Some (m_ruled d, vs)"
      "rulings st' = vs"
  proof (rule merge_set_Inr [OF assms(1) Inr [unfolded ds]])
    fix drw st2 vs
    assume "rule_same (m_group d) (decider who) (fst (rulings_of_merge ''operator'' st ?ids))
        (fst (snd (rulings_of_merge ''operator'' st ?ids))) (rulings st) = Some (m_ruled d, vs)"
      "st' = properties_changed db (m_survivor d # m_retired d) (st2\<lparr>rulings := vs\<rparr>)"
    then show thesis by (intro that [of vs]) (simp_all add: rulings_of_merge_def spec)
  qed
  have fin: "finite ?same" using merge_speaks_finite [OF assms(1), of pids] by simp
  note w = rule_same_words [OF f(1) assms(2) fin]
  have no: "\<not> negative w" if "newest_word vs (a, b) = Some w" "home_of st a = Some p" "home_of st b = Some q"
      "p \<in> set pids" "q \<in> set pids" "p \<noteq> q" for w p q
  proof (cases "(a, b) \<in> ?same")
    case True
    then have "w = ''same''" using w(2) that(1) by simp
    then show ?thesis by (simp add: negative_def NEGATIVE_VERDICTS_def)
  next
    case False
    then have "newest_word (rulings st) (a, b) = Some w" using w(2) that(1) by simp
    then show ?thesis using False that(2-) by (auto simp: merge_speaks_on_def)
  qed
  have neg: "case (home_of st a, home_of st b) of
              (Some p, Some q) \<Rightarrow>
                if p \<in> set pids \<and> q \<in> set pids \<and> p \<noteq> q
                then (case newest_word vs (a, b) of None \<Rightarrow> True | Some w \<Rightarrow> \<not> negative w)
                else True
            | _ \<Rightarrow> True"
    using no by (auto split: option.split)
  show ?thesis
    unfolding Inr ds sum.case prod.case Let_def f(2) merge_speaks_on_def [symmetric]
    by (intro conjI neg [unfolded prod.case] w)
qed simp

section \<open>An example\<close>

text \<open>Two records of one flat, a land record and a retired one, with five adverts.\<close>

definition plain_property :: "int option \<Rightarrow> property" where
  "plain_property first = \<lparr>p_status = Active, p_merged = None, p_first = first, p_settled = None,
     p_live = True, p_repr = None\<rparr>"

definition plain_advert :: "string \<Rightarrow> string \<Rightarrow> int \<Rightarrow> advert" where
  "plain_advert kind main home = \<lparr>l_type = Some kind, l_main = Some main, l_price = Some 5000000,
     l_area = Some 60, l_layout = None, l_text = None, l_home = Some home, l_live = True, l_seen = 100\<rparr>"

definition small_store :: store where
  "small_store = \<lparr>props = [(1, plain_property (Some 200)), (2, plain_property (Some 100)), (3, plain_property None),
       (4, (plain_property None)\<lparr>p_status := Merged_away, p_merged := Some 1\<rparr>)],
     advs = [(11, plain_advert ''prodej'' ''byt'' 1), (12, plain_advert ''prodej'' ''byt'' 1),
             (21, plain_advert ''prodej'' ''byt'' 2), (22, plain_advert ''prodej'' ''byt'' 2),
             (31, plain_advert ''prodej'' ''dum'' 3)],
     ledger = [], rulings = \<lparr>pair_log = [\<lparr>rl_pair = (11, 21), rl_word = ''different'', rl_note = None,
        rl_reasons = [], rl_by = ''op''\<rparr>], set_log = [], vetoes = []\<rparr>,
     next_event = 1, next_prop = 5, drawn = 0, calls = []\<rparr>"

text \<open>The same tables with the adverts the cards of the first two properties show.\<close>

definition shown_store :: store where
  "shown_store = small_store\<lparr>props := map (\<lambda>(p, v). (p, v\<lparr>p_repr :=
     if p = 1 then Some 12 else if p = 2 then Some 22 else None\<rparr>)) (props small_store)\<rparr>"

definition draws :: database where
  "draws = \<lparr>e_uuid = \<lambda>n. replicate (n + 1) CHR ''g'', e_now = 900, e_canonical = \<lambda>kids. Min (set (map fst kids))\<rparr>"

lemma small_store_keyed: "keyed small_store"
  by code_simp

theorem merge_property_set_witness:
  "newly_mixes small_store (set [1, 3]) 11 31
   \<and> (case merge_property_set draws [1, 3] ''auto'' ''rule'' None None small_store of
        Inl (Category_clash _ (p, q) _) \<Rightarrow> {p, q} \<subseteq> set [1, 3] \<and> p \<noteq> q | _ \<Rightarrow> False)
   \<and> (case merge_property_set draws [2, 1] ''operator'' ''manual'' None (Some ''op'') small_store of
        Inl e \<Rightarrow> False
      | Inr (d, st') \<Rightarrow> m_survivor d = 2 \<and> m_moved d = 2
          \<and> home_of st' 11 = moved_home (m_survivor d) ({2, 1} - {m_survivor d}) (home_of small_store 11))"
proof -
  have k: "keyed small_store" by code_simp
  have mix: "contentful_on small_store 1 11" "contentful_on small_store 3 31"
      "category_clash (cats_of small_store 11) (cats_of small_store 31) \<noteq> None"
      "\<forall>r \<in> set [1, 3]. \<forall>a \<in> set (map fst (advs small_store)). \<forall>b \<in> set (map fst (advs small_store)).
         \<not> (contentful_on small_store r a \<and> contentful_on small_store r b
            \<and> {cats_of small_store a, cats_of small_store b} = {cats_of small_store 11, cats_of small_store 31})"
    by code_simp+
  have known: "a \<in> set (map fst (advs small_store))" if "contentful_on small_store r a" for r a
    using that by (auto simp: contentful_on_def split: option.splits dest!: map_of_SomeD) force
  have not_held: "\<not> held_before small_store (set [1, 3]) (cats_of small_store 11) (cats_of small_store 31)"
    unfolding held_before_def using mix(4) known by blast
  have m: "newly_mixes small_store (set [1, 3]) 11 31"
    unfolding newly_mixes_def using mix(1-3) not_held
    by (intro conjI bexI [of _ 1] bexI [of _ 3]) simp_all
  have fit: "unfit small_store (set [1, 3]) = {}" by code_simp
  have refused: "case merge_property_set draws [1, 3] ''auto'' ''rule'' None None small_store of
        Inl (Category_clash _ (p, q) _) \<Rightarrow> {p, q} \<subseteq> set [1, 3] \<and> p \<noteq> q | _ \<Rightarrow> False"
    using merge_property_set_correct [OF k, where db = draws and pids = "[1, 3]" and source = "''auto''"
        and reason = "''rule''" and gid = None and who = None and x = 11 and y = 31] m fit
    by (auto simp: Let_def split: sum.splits prod.splits merge_error.splits)
  have r: "case merge_property_set draws [2, 1] ''operator'' ''manual'' None (Some ''op'') small_store of
     Inl e \<Rightarrow> False | Inr (d, st') \<Rightarrow> m_survivor d = 2 \<and> m_moved d = 2" by code_simp
  show ?thesis
    using merge_property_set_correct [OF k, where db = draws and pids = "[2, 1]" and source = "''operator''"
        and reason = "''manual''" and gid = None and who = "Some ''op''" and a = 11 and p = 1] r m refused
    by (auto simp: Let_def split: sum.splits prod.splits)
qed

theorem merge_never_newly_mixes_witness:
  "case merge_property_set draws [1, 2] ''auto'' ''rule'' None None small_store of
     Inl e \<Rightarrow> False
   | Inr (d, st') \<Rightarrow>
       if contentful_on st' (m_survivor d) 11 \<and> contentful_on st' (m_survivor d) 21
          \<and> category_clash (cats_of st' 11) (cats_of st' 21) \<noteq> None
       then \<exists>r \<in> set [1, 2]. \<exists>a' b'. contentful_on small_store r a' \<and> contentful_on small_store r b'
               \<and> {cats_of small_store a', cats_of small_store b'} = {cats_of st' 11, cats_of st' 21}
       else True"
proof -
  have k: "keyed small_store" by code_simp
  have r: "case merge_property_set draws [1, 2] ''auto'' ''rule'' None None small_store of
     Inl e \<Rightarrow> False | Inr (d, st') \<Rightarrow> True" by code_simp
  show ?thesis
    using merge_never_newly_mixes [OF k, where db = draws and pids = "[1, 2]" and source = "''auto''"
        and reason = "''rule''" and gid = None and who = None and a = 11 and b = 21] r
    by (cases "merge_property_set draws [1, 2] ''auto'' ''rule'' None None small_store") simp_all
qed

theorem operator_merge_rules_same_witness:
  "case merge_property_set draws [1, 2] ''operator'' ''manual'' None (Some ''op'') shown_store of
     Inl e \<Rightarrow> False
   | Inr (d, st') \<Rightarrow> newest_word (rulings st') (12, 22) = Some ''same'' \<and> newest_word (rulings shown_store) (12, 22) = None"
proof -
  have k: "keyed shown_store" "in_step (rulings shown_store)" by code_simp+
  have c: "canonical_of shown_store 1 = Some 12" "canonical_of shown_store 2 = Some 22"
      "newest_word (rulings shown_store) (12, 22) = None" by code_simp+
  have r: "case merge_property_set draws [1, 2] ''operator'' ''manual'' None (Some ''op'') shown_store of
     Inl e \<Rightarrow> False | Inr (d, st') \<Rightarrow> True" by code_simp
  show ?thesis
    using operator_merge_rules_same [OF k, where db = draws and pids = "[1, 2]"
        and reason = "''manual''" and gid = None and who = "Some ''op''" and a = 12 and b = 22] r c
    by (cases "merge_property_set draws [1, 2] ''operator'' ''manual'' None (Some ''op'') shown_store")
       (auto simp: Let_def)
qed

end
