(* ===== verification/Property_Detach.thy ===== *)
theory Property_Detach
  imports Property_Merge_Laws
begin

text \<open>
  The detach writer of \<^verbatim>\<open>toolkit/property_identity.py\<close>: \<open>detach_listings\<close> takes a set of adverts
  off their properties, each back to where the merge ledger says it came from or to a new record
  (\<open>_born\<close>); \<open>detach_outcomes\<close> is its dry run and \<open>letter_landings\<close> reads where a split's letters
  land. A plan is read before the rows are locked and read again per advert, as in the code; one
  transaction runs at a time, so the second reading sees the call's own earlier adverts.
\<close>

datatype outcome =
    Not_merged | Last_native | Split_native | Split_new | Moved_on | Moved_since | On_origin
  | Detached | Origin_moved_on

definition MOVED :: "outcome set" where
  "MOVED = {Detached, Split_native, Split_new}"

type_synonym plan = "outcome \<times> event list \<times> int option"

section \<open>The plan\<close>

definition detach_plan :: "int option \<Rightarrow> event list \<Rightarrow> string option \<Rightarrow> nat \<times> nat \<Rightarrow> plan" where
  "detach_plan current moves gid sz =
     (if moves = [] then
        (if gid \<noteq> None \<or> fst sz < 2 then (Not_merged, [], current)
         else if snd sz < 2 then (Last_native, [], current)
         else (Split_native, [], None))
      else if gid \<noteq> None \<and> ev_group (last moves) \<noteq> the gid then
        (if \<exists>m \<in> set moves. ev_group m = the gid then (Moved_on, [], current) else (Not_merged, [], current))
      else
        let undo = (if gid \<noteq> None then [last moves] else moves);
            target = Some (ev_prev (hd undo))
        in if current \<noteq> Some (ev_survivor (last moves)) then (Moved_since, [], current)
           else if target = current then (On_origin, [], current)
           else (Detached, undo, target))"

text \<open>\<open>_origin_gone\<close>: the origin was retired since by another merge that still stands.\<close>

definition state_of :: "store \<Rightarrow> int \<Rightarrow> (status \<times> int option) option" where
  "state_of st p = map_option (\<lambda>r. (p_status r, p_merged r)) (map_of (props st) p)"

definition origin_gone :: "(status \<times> int option) option \<Rightarrow> event list \<Rightarrow> bool" where
  "origin_gone state undo =
     (case state of None \<Rightarrow> True
      | Some (s, into) \<Rightarrow> s \<noteq> Active \<and> into \<noteq> Some (ev_survivor (hd undo)))"

text \<open>\<^verbatim>\<open>_SIZES_SQL\<close>: a property's adverts, and its own among them, which no standing merge moved there.\<close>

definition sizes :: "store \<Rightarrow> int option \<Rightarrow> nat \<times> nat" where
  "sizes st place =
     (case place of None \<Rightarrow> (0, 0)
      | Some p \<Rightarrow> (length (on_property st p), length (filter (\<lambda>a. live_moves st a = []) (on_property st p))))"

definition plan_of :: "store \<Rightarrow> string option \<Rightarrow> int \<Rightarrow> (int option \<times> plan) option" where
  "plan_of st gid a =
     (case map_of (advs st) a of
        None \<Rightarrow> None
      | Some v \<Rightarrow>
          let moves = live_moves st a;
              sz = (if gid = None \<and> moves = [] then sizes st (l_home v) else (0, 0))
          in Some (l_home v, detach_plan (l_home v) moves gid sz))"

definition plan_detaches :: "store \<Rightarrow> int list \<Rightarrow> string option \<Rightarrow> (int, int option \<times> plan) dict" where
  "plan_detaches st ids gid =
     List.map_filter (\<lambda>a. map_option (Pair a) (plan_of st gid a)) ids"

definition detach_outcomes :: "store \<Rightarrow> int list \<Rightarrow> string option \<Rightarrow> (int, outcome) dict" where
  "detach_outcomes st ids gid =
     map (\<lambda>(a, place, out, undo, target).
            (a, if out = Detached \<and> origin_gone (Option.bind target (state_of st)) undo
                then Origin_moved_on else out))
       (plan_detaches st (sorted_ids ids) gid)"

section \<open>The statements\<close>

text \<open>\<^verbatim>\<open>_MOVE_ADVERT_SQL\<close>: the compare-and-set every advert move is.\<close>

definition place_on :: "int \<Rightarrow> int option \<Rightarrow> store \<Rightarrow> store" where
  "place_on a to st = st\<lparr>advs := update_rows (\<lambda>k _. k = a) (\<lambda>v. v\<lparr>l_home := to\<rparr>) (advs st)\<rparr>"

definition move_advert :: "int option \<Rightarrow> int \<Rightarrow> int \<Rightarrow> store \<Rightarrow> store option" where
  "move_advert to a from_property st =
     (if home_of st a = Some from_property then Some (place_on a to st) else None)"

definition undo_rows :: "string \<Rightarrow> int list \<Rightarrow> store \<Rightarrow> store" where
  "undo_rows by_whom ids st =
     st\<lparr>ledger := map (\<lambda>e. if ev_id e \<in> set ids \<and> ev_undone e = None
                            then e\<lparr>ev_undone := Some by_whom\<rparr> else e) (ledger st)\<rparr>"

definition reactivate :: "int \<Rightarrow> store \<Rightarrow> bool \<times> store" where
  "reactivate pid st =
     ((case map_of (props st) pid of None \<Rightarrow> False | Some r \<Rightarrow> p_status r = Merged_away),
      st\<lparr>props := update_rows (\<lambda>k r. k = pid \<and> p_status r = Merged_away)
           (\<lambda>r. r\<lparr>p_status := Active, p_merged := None,
                  p_live := (\<exists>(_, v) \<in> set (advs st). l_home v = Some pid \<and> l_live v)\<rparr>) (props st)\<rparr>)"

text \<open>
  \<open>create_singleton_properties\<close> for one unlinked advert: a bare row naming it, first seen \<^verbatim>\<open>now()\<close> by
  the column's default until the roll-up.
\<close>

definition create_singleton :: "database \<Rightarrow> int \<Rightarrow> store \<Rightarrow> int \<times> store" where
  "create_singleton db a st =
     (let born = next_prop st;
          live = (case map_of (advs st) a of None \<Rightarrow> False | Some v \<Rightarrow> l_live v)
      in (born, place_on a (Some born)
            (st\<lparr>props := props st @ [(born, \<lparr>p_status = Active, p_merged = None, p_first = Some (e_now db),
                   p_settled = None, p_live = live, p_repr = Some a\<rparr>)],
                next_prop := born + 1\<rparr>)))"

definition birth_row :: "string \<Rightarrow> int \<Rightarrow> int \<Rightarrow> int \<Rightarrow> string \<Rightarrow> string \<Rightarrow> store \<Rightarrow> event \<times> store" where
  "birth_row grp left born a reason by_whom st =
     (let e = \<lparr>ev_id = next_event st, ev_group = grp, ev_survivor = left, ev_retired = born,
               ev_advert = a, ev_prev = born, ev_reason = reason, ev_source = ''operator'',
               ev_undone = Some by_whom\<rparr>
      in (e, st\<lparr>ledger := ledger st @ [e], next_event := next_event st + 1\<rparr>))"

section \<open>One advert\<close>

definition born :: "database \<Rightarrow> int \<Rightarrow> int \<Rightarrow> string \<Rightarrow> bool \<Rightarrow> store \<Rightarrow> plan \<times> store" where
  "born db a current by_whom named st =
     (case plan_of st None a of
        None \<Rightarrow> ((Moved_since, [], Some current), st)
      | Some (place, out, _, _) \<Rightarrow>
          if place \<noteq> Some current then ((Moved_since, [], Some current), st)
          else if \<not> named \<and> out \<noteq> Split_native
          then ((if out \<in> {Not_merged, Last_native} then out else Moved_since, [], Some current), st)
          else
            let live = live_moves st a
            in (case move_advert None a current st of
                  None \<Rightarrow> ((Moved_since, [], Some current), st)
                | Some st1 \<Rightarrow>
                    let st2 = (if live = [] then st1 else undo_rows by_whom (map ev_id live) st1);
                        (pid, st3) = create_singleton db a st2;
                        (e, st4) = birth_row (e_uuid db (drawn st3)) current pid a
                          (if live = [] then ''ingest_grouping'' else ''split_new'') by_whom
                          (st3\<lparr>drawn := drawn st3 + 1\<rparr>)
                    in ((if live = [] then Split_native else Split_new, live @ [e], Some pid), st4)))"

record detached =
  d_advert :: int
  d_outcome :: outcome
  d_left :: "int option"
  d_target :: "int option"
  d_undo :: "event list"
  d_reactivated :: bool

definition go_home :: "int \<Rightarrow> int \<Rightarrow> int \<Rightarrow> event list \<Rightarrow> store \<Rightarrow> plan \<times> store" where
  "go_home a current target undo st =
     (if origin_gone (state_of st target) undo then ((Origin_moved_on, [], Some current), st)
      else (case move_advert (Some target) a current st of
              None \<Rightarrow> ((Moved_since, [], Some current), st)
            | Some st1 \<Rightarrow> ((Detached, undo, Some target), st1)))"

definition detach_one :: "database \<Rightarrow> int \<Rightarrow> int option \<Rightarrow> string \<Rightarrow> string option \<Rightarrow> bool \<Rightarrow> store
    \<Rightarrow> merge_error + (detached \<times> store)" where
  "detach_one db a planned by_whom gid new st =
     (case plan_of st gid a of
        None \<Rightarrow> Inl (Not_found a)
      | Some (here, plan0) \<Rightarrow>
          let (current, plan1) = (if here \<noteq> planned then (planned, (Moved_since, [], planned)) else (here, plan0));
              (plan2, st1) =
                (case (current, plan1) of
                   (Some c, (out, undo, target)) \<Rightarrow>
                     if new \<or> out = Split_native then born db a c by_whom new st
                     else if out = Detached then go_home a c (the target) undo st
                     else (plan1, st)
                 | _ \<Rightarrow> (plan1, st));
              (out, undo, target) = plan2;
              (reactivated, st2) =
                (if out = Detached then reactivate (the target) (undo_rows by_whom (map ev_id undo) st1)
                 else (False, st1))
          in Inr (\<lparr>d_advert = a, d_outcome = out, d_left = current, d_target = target, d_undo = undo,
                   d_reactivated = reactivated\<rparr>, st2))"

section \<open>The set\<close>

fun first_each :: "'a list \<Rightarrow> 'a list" where
  "first_each [] = []"
| "first_each (x # xs) = x # filter (\<lambda>y. y \<noteq> x) (first_each xs)"

text \<open>
  What each property left would give up: per property, the advert's target, \<open>None\<close> for a record not
  yet born. The locks of \<open>_lock_set\<close> read the states the origins have before anything moves.
\<close>

definition leaving :: "store \<Rightarrow> int set \<Rightarrow> int \<times> int option \<times> plan \<Rightarrow> (int \<times> int \<times> int option) option" where
  "leaving st new = (\<lambda>(a, place, out, undo, target).
     case place of None \<Rightarrow> None
     | Some p \<Rightarrow>
         if a \<in> new \<or> out = Split_native then Some (p, a, None)
         else if out = Detached \<and> \<not> origin_gone (Option.bind target (state_of st)) undo then Some (p, a, target)
         else None)"

definition lefts :: "store \<Rightarrow> int set \<Rightarrow> (int, int option \<times> plan) dict \<Rightarrow> (int, (int \<times> int option) list) dict" where
  "lefts st new plans =
     fold (\<lambda>(p, a, t). dict_append p (a, t)) (List.map_filter (leaving st new) plans) []"

fun detach_each :: "database \<Rightarrow> (int, int option \<times> plan) dict \<Rightarrow> string \<Rightarrow> string option \<Rightarrow> int set
    \<Rightarrow> int list \<Rightarrow> store \<Rightarrow> merge_error + (detached list \<times> store)" where
  "detach_each db plans by_whom gid new [] st = Inr ([], st)"
| "detach_each db plans by_whom gid new (a # as) st =
     (case detach_one db a (Option.bind (map_of plans a) fst) by_whom gid (a \<in> new) st of
        Inl e \<Rightarrow> Inl e
      | Inr (d, st1) \<Rightarrow>
          (case detach_each db plans by_whom gid new as st1 of
             Inl e \<Rightarrow> Inl e
           | Inr (ds, st2) \<Rightarrow> Inr (d # ds, st2)))"

definition detach_listings :: "database \<Rightarrow> int list \<Rightarrow> string \<Rightarrow> string option \<Rightarrow> int list \<Rightarrow> bool \<Rightarrow> store
    \<Rightarrow> merge_error + (detached list \<times> store)" where
  "detach_listings db listing_ids by_whom gid new curation st =
     (let ids = first_each listing_ids
      in if ids = [] then Inr ([], st)
         else
           let plans = plan_detaches st ids gid;
               missing = filter (\<lambda>a. map_of plans a = None) ids
           in if missing \<noteq> [] then Inl (Not_found (hd missing))
              else
                let left = lefts st (set new) plans
                in if curation \<and> 1 < length left then Inl One_property_only
                   else
                     (case detach_each db plans by_whom gid (set new) ids st of
                        Inl e \<Rightarrow> Inl e
                      | Inr (answers, st1) \<Rightarrow>
                          let moved = filter (\<lambda>d. d_outcome d \<in> MOVED) answers;
                              landed = map (\<lambda>d. (d_advert d, the (d_target d))) moved
                          in Inr (answers,
                               properties_changed db (concat (map (\<lambda>d. [the (d_left d), the (d_target d)]) moved))
                                 (st1\<lparr>calls := calls st1 @ map (\<lambda>(p, _). Routed p landed) (sort_key fst left)\<rparr>))))"

section \<open>Where a split's letters land\<close>

record landings =
  land_staying :: string
  land_origin :: "(int, int) dict"
  land_new :: "int set"

definition count_in :: "'a \<Rightarrow> 'a list \<Rightarrow> nat" where
  "count_in x xs = length (filter (\<lambda>y. y = x) xs)"

definition most_common :: "string list \<Rightarrow> string" where
  "most_common ls = arg_min_list (\<lambda>l. (- int (count_in l ls), l)) ls"

definition staying_letter :: "store \<Rightarrow> int \<Rightarrow> (int, string) dict \<Rightarrow> string" where
  "staying_letter st record_id letters =
     (let ads = sorted_ids (map fst letters);
          letter = (\<lambda>a. the (map_of letters a));
          own = map letter (filter (\<lambda>a. live_moves st a = []) ads)
      in if own \<noteq> [] then most_common own
         else (case filter (\<lambda>a. canonical_of st record_id = Some a) ads of
                 a # _ \<Rightarrow> letter a
               | [] \<Rightarrow> Min (set (map snd letters))))"

text \<open>The origin a leaving advert would go back to: merged away since, and resolving to the record.\<close>

definition fit_origin :: "store \<Rightarrow> int \<Rightarrow> int \<Rightarrow> int option" where
  "fit_origin st record_id a =
     (let moves = live_moves st a
      in if moves = [] then None
         else let o_id = ev_prev (hd moves)
              in if ev_survivor (last moves) = record_id \<and> o_id \<noteq> record_id
                    \<and> (case state_of st o_id of Some (s, _) \<Rightarrow> s = Merged_away | None \<Rightarrow> False)
                    \<and> \<not> origin_gone (state_of st o_id) moves
                    \<and> resolve_active_property_id st o_id = Some record_id
                 then Some o_id else None)"

definition letter_landings :: "store \<Rightarrow> int \<Rightarrow> (int, string) dict \<Rightarrow> landings" where
  "letter_landings st record_id letters =
     (let letter = (\<lambda>a. the (map_of letters a));
          staying = staying_letter st record_id letters;
          leaving = filter (\<lambda>a. letter a \<noteq> staying) (sorted_ids (map fst letters));
          fit = List.map_filter (\<lambda>a. map_option (Pair a) (fit_origin st record_id a)) leaving;
          taker = (\<lambda>o_id. most_common (map (letter \<circ> fst) (filter (\<lambda>(_, x). x = o_id) fit)));
          origin = filter (\<lambda>(a, o_id). taker o_id = letter a) fit
      in \<lparr>land_staying = staying, land_origin = origin,
          land_new = set (filter (\<lambda>a. a \<notin> fst ` set origin) leaving)\<rparr>)"

end
