(* ===== verification/Property_Detach_Laws.thy ===== *)
theory Property_Detach_Laws
  imports Property_Detach
begin

text \<open>
  What a detach does to the tables: the invariant the merge ledger keeps under every writer, and
  the round trip of a merge and its undo.
\<close>

section \<open>The statements\<close>

lemma live_moves_ledger: "ledger s = ledger t \<Longrightarrow> live_moves s a = live_moves t a"
  by (simp add: live_moves_def)

lemma live_moves_undo:
  "live_moves (undo_rows w ids s) a = filter (\<lambda>e. ev_id e \<notin> set ids) (live_moves s a)"
proof -
  have "filter (\<lambda>e. ev_advert e = a \<and> ev_undone e = None)
      (map (\<lambda>e. if ev_id e \<in> set ids \<and> ev_undone e = None then e\<lparr>ev_undone := Some w\<rparr> else e) es)
    = filter (\<lambda>e. ev_id e \<notin> set ids) (filter (\<lambda>e. ev_advert e = a \<and> ev_undone e = None) es)" for es
    by (induction es) auto
  then show ?thesis by (simp add: live_moves_def undo_rows_def)
qed

lemma undo_rows_simps [simp]:
  "advs (undo_rows w ids s) = advs s" "props (undo_rows w ids s) = props s"
  "next_event (undo_rows w ids s) = next_event s" "next_prop (undo_rows w ids s) = next_prop s"
  "home_of (undo_rows w ids s) = home_of s" "drawn (undo_rows w ids s) = drawn s"
  "map ev_id (ledger (undo_rows w ids s)) = map ev_id (ledger s)"
  by (auto simp: undo_rows_def home_of_def fun_eq_iff image_iff)

lemma place_on_simps [simp]:
  "ledger (place_on a to s) = ledger s" "props (place_on a to s) = props s"
  "next_event (place_on a to s) = next_event s" "next_prop (place_on a to s) = next_prop s"
  "map fst (advs (place_on a to s)) = map fst (advs s)" "drawn (place_on a to s) = drawn s"
  "live_moves (place_on a to s) = live_moves s"
  by (simp_all add: place_on_def live_moves_def fun_eq_iff)

lemma place_on_map_of [simp]:
  "map_of (advs (place_on a to s)) b =
     (if b = a then map_option (\<lambda>v. v\<lparr>l_home := to\<rparr>) (map_of (advs s) b) else map_of (advs s) b)"
  by (cases "map_of (advs s) b") (auto simp: place_on_def)

lemma home_of_place_on:
  "home_of (place_on a to s) b = (if b = a \<and> map_of (advs s) a \<noteq> None then to else home_of s b)"
  by (cases "map_of (advs s) b") (auto simp: home_of_def)

lemma reactivate_simps [simp]:
  "ledger (snd (reactivate r s)) = ledger s" "advs (snd (reactivate r s)) = advs s"
  "next_event (snd (reactivate r s)) = next_event s" "next_prop (snd (reactivate r s)) = next_prop s"
  "map fst (props (snd (reactivate r s))) = map fst (props s)" "drawn (snd (reactivate r s)) = drawn s"
  "live_moves (snd (reactivate r s)) = live_moves s" "home_of (snd (reactivate r s)) = home_of s"
  by (simp_all add: reactivate_def live_moves_def home_of_def fun_eq_iff)

lemma state_of_reactivate:
  "state_of (snd (reactivate r s)) p =
     (if p = r then map_option (\<lambda>x. if fst x = Merged_away then (Active, None) else x) (state_of s p)
      else state_of s p)"
  by (cases "map_of (props s) p") (auto simp: state_of_def reactivate_def)

lemma state_of_props: "props s = props t \<Longrightarrow> state_of s p = state_of t p"
  by (simp add: state_of_def)

lemma properties_changed_state [simp]: "state_of (properties_changed db ids st) p = state_of st p"
  by (cases "map_of (props st) p") (auto simp: state_of_def properties_changed_map_of)

section \<open>What one advert's step can be\<close>

definition sent_home :: "int \<Rightarrow> int \<Rightarrow> event list \<Rightarrow> string \<Rightarrow> store \<Rightarrow> store" where
  "sent_home a r us w s = snd (reactivate r (undo_rows w (map ev_id us) (place_on a (Some r) s)))"

definition unlinked :: "int \<Rightarrow> string \<Rightarrow> store \<Rightarrow> store" where
  "unlinked a w s = (if live_moves s a = [] then place_on a None s
     else undo_rows w (map ev_id (live_moves s a)) (place_on a None s))"

definition given_birth :: "database \<Rightarrow> int \<Rightarrow> int \<Rightarrow> string \<Rightarrow> store \<Rightarrow> store" where
  "given_birth db a c w s =
     (let s3 = snd (create_singleton db a (unlinked a w s))
      in snd (birth_row (e_uuid db (drawn s3)) c (next_prop s) a
           (if live_moves s a = [] then ''ingest_grouping'' else ''split_new'') w (s3\<lparr>drawn := drawn s3 + 1\<rparr>)))"

lemma born_cases:
  assumes "born db a c w named s = ((out, us, t), s')"
  shows "(s' = s \<and> out \<notin> MOVED \<and> us = [] \<and> t = Some c)
    \<or> (home_of s a = Some c \<and> s' = given_birth db a c w s \<and> out \<noteq> Detached \<and> out \<in> MOVED
        \<and> t = Some (next_prop s))"
proof -
  have np: "next_prop (unlinked a w s) = next_prop s" by (simp add: unlinked_def)
  show ?thesis
    using assms
    by (auto simp: born_def given_birth_def unlinked_def MOVED_def move_advert_def Let_def create_singleton_def
        birth_row_def split: option.splits prod.splits if_splits)
qed

lemma detach_one_cases:
  assumes "detach_one db a planned w gid new s = Inr (d, s')"
  shows "(s' = s \<and> d_outcome d \<notin> MOVED)
    \<or> (\<exists>c r us. plan_of s gid a = Some (Some c, Detached, us, Some r) \<and> planned = Some c
         \<and> \<not> origin_gone (state_of s r) us \<and> home_of s a = Some c \<and> s' = sent_home a r us w s
         \<and> d_outcome d = Detached \<and> d_left d = Some c \<and> d_target d = Some r \<and> d_undo d = us)
    \<or> (\<exists>c. home_of s a = Some c \<and> s' = given_birth db a c w s)"
proof -
  obtain here out us t where p: "plan_of s gid a = Some (here, out, us, t)"
    using assms by (auto simp: detach_one_def split: option.splits)
  have det: "\<exists>r. t = Some r" if "out = Detached"
    using p that by (auto simp: plan_of_def detach_plan_def Let_def split: option.splits if_splits)
  show ?thesis
  proof (cases "here = planned")
    case False
    show ?thesis
    proof (cases planned)
      case None
      then show ?thesis using assms False p by (auto simp: detach_one_def MOVED_def split: prod.splits)
    next
      case (Some c)
      show ?thesis
      proof (cases new)
        case True
        then obtain o2 us2 t2 s1 where b: "born db a c w True s = ((o2, us2, t2), s1)" by (metis prod.exhaust)
        from born_cases [OF b] show ?thesis
          using assms False p True Some b by (auto simp: detach_one_def MOVED_def split: prod.splits if_splits)
      qed (use assms False p Some in \<open>auto simp: detach_one_def MOVED_def split: prod.splits\<close>)
    qed
  next
    case True
    show ?thesis
    proof (cases here)
      case None
      then have "out \<noteq> Detached \<and> out \<notin> MOVED"
        using p by (auto simp: plan_of_def detach_plan_def sizes_def MOVED_def Let_def split: option.splits if_splits)
      then show ?thesis using assms p None True by (auto simp: detach_one_def split: prod.splits)
    next
      case (Some c)
      show ?thesis
      proof (cases "new \<or> out = Split_native")
        case b: True
        obtain o2 us2 t2 s1 where r: "born db a c w new s = ((o2, us2, t2), s1)" by (metis prod.exhaust)
        from born_cases [OF r] show ?thesis
          using assms p True Some b r by (auto simp: detach_one_def MOVED_def split: prod.splits if_splits)
      next
        case nb: False
        show ?thesis
        proof (cases "out = Detached")
          case det': True
          then obtain r where r: "t = Some r" using det by blast
          show ?thesis
            using assms p True Some nb det' r
            by (auto simp: detach_one_def go_home_def move_advert_def sent_home_def MOVED_def
                split: prod.splits if_splits option.splits)
        next
          case nd: False
          have "out \<notin> MOVED"
            using p nd nb by (auto simp: plan_of_def detach_plan_def MOVED_def Let_def split: option.splits if_splits)
          then show ?thesis using assms p True Some nb nd by (auto simp: detach_one_def split: prod.splits)
        qed
      qed
    qed
  qed
qed

section \<open>The invariant of the tables\<close>

fun chained :: "event list \<Rightarrow> bool" where
  "chained (e # f # es) = (ev_survivor e = ev_prev f \<and> chained (f # es))"
| "chained _ = True"

definition lands :: "int option \<Rightarrow> event list \<Rightarrow> bool" where
  "lands h es \<longleftrightarrow> es = [] \<or> h = Some (ev_survivor (last es))"

definition home_active :: "store \<Rightarrow> int option \<Rightarrow> bool" where
  "home_active st h = (case h of None \<Rightarrow> True | Some p \<Rightarrow> (case state_of st p of None \<Rightarrow> False | Some (s, _) \<Rightarrow> s = Active))"

text \<open>
  One row per key, fresh ids ahead of every used one, no advert on a retired or unknown property,
  and per advert a ledger whose live rows form a chain that ends where the advert sits.
\<close>

definition ids_fresh :: "store \<Rightarrow> bool" where
  "ids_fresh st \<longleftrightarrow> (\<forall>p \<in> fst ` set (props st). p < next_prop st) \<and> distinct (map ev_id (ledger st))
     \<and> (\<forall>i \<in> set (map ev_id (ledger st)). i < next_event st)"

definition advert_ok :: "store \<Rightarrow> int \<Rightarrow> bool" where
  "advert_ok st a \<longleftrightarrow> home_active st (home_of st a) \<and> chained (live_moves st a)
     \<and> lands (home_of st a) (live_moves st a)"

definition store_ok :: "store \<Rightarrow> bool" where
  "store_ok st \<longleftrightarrow> keyed st \<and> ids_fresh st \<and> list_all (\<lambda>(a, v). advert_ok st a) (advs st)"

lemma store_ok_advert: "store_ok st \<Longrightarrow> map_of (advs st) a \<noteq> None \<Longrightarrow> advert_ok st a"
  by (auto simp: store_ok_def list_all_iff dest!: map_of_SomeD)

lemma store_okI:
  assumes "keyed st" "ids_fresh st" "\<And>a. map_of (advs st) a \<noteq> None \<Longrightarrow> advert_ok st a"
  shows "store_ok st"
  using assms by (auto simp: store_ok_def list_all_iff keyed_def)

lemma chained_append1: "chained (es @ [e]) \<longleftrightarrow> chained es \<and> (es = [] \<or> ev_survivor (last es) = ev_prev e)"
  by (induction es rule: chained.induct) auto

lemma chained_butlast: "chained es \<Longrightarrow> chained (butlast es)"
  by (cases es rule: rev_cases) (auto simp: chained_append1)

lemma chained_last:
  "chained es \<Longrightarrow> butlast es \<noteq> [] \<Longrightarrow> ev_survivor (last (butlast es)) = ev_prev (last es)"
  by (cases es rule: rev_cases) (auto simp: chained_append1)

lemma live_moves_distinct: "distinct (map ev_id (ledger s)) \<Longrightarrow> distinct (map ev_id (live_moves s a))"
  by (simp add: live_moves_def distinct_map_filter)

lemma live_moves_other:
  assumes "distinct (map ev_id (ledger s))" "set us \<subseteq> set (live_moves s a)" "b \<noteq> a"
  shows "filter (\<lambda>e. ev_id e \<notin> set (map ev_id us)) (live_moves s b) = live_moves s b"
proof (rule filter_True, rule ballI)
  fix e assume e: "e \<in> set (live_moves s b)"
  show "ev_id e \<notin> set (map ev_id us)"
  proof
    assume "ev_id e \<in> set (map ev_id us)"
    then obtain f where f: "f \<in> set us" "ev_id f = ev_id e" by auto
    then have "f \<in> set (ledger s)" "ev_advert f = a" "e \<in> set (ledger s)" "ev_advert e = b"
      using assms(2) e by (auto simp: live_moves_def)
    then have "e = f" using assms(1) f(2) by (metis distinct_map inj_onD)
    then show False using \<open>ev_advert f = a\<close> \<open>ev_advert e = b\<close> assms(3) by simp
  qed
qed

lemma live_moves_all_undone: "filter (\<lambda>e. ev_id e \<notin> set (map ev_id (live_moves s a))) (live_moves s a) = []"
  by (auto simp: filter_empty_conv)

lemma live_moves_last_undone:
  assumes "distinct (map ev_id (ledger s))" "live_moves s a \<noteq> []"
  shows "filter (\<lambda>e. ev_id e \<notin> set (map ev_id [last (live_moves s a)])) (live_moves s a) = butlast (live_moves s a)"
proof -
  obtain es e where es: "live_moves s a = es @ [e]" using assms(2) by (cases "live_moves s a" rule: rev_cases) auto
  have "ev_id e \<notin> set (map ev_id es)" using live_moves_distinct [OF assms(1), of a] es by auto
  then have "\<forall>x \<in> set es. ev_id x \<noteq> ev_id e" by (metis imageI set_map)
  then show ?thesis using es by (auto simp: filter_id_conv)
qed

text \<open>What a plan to go home says.\<close>

lemma plan_Detached:
  assumes "plan_of s gid a = Some (Some c, Detached, us, Some r)"
  shows "home_of s a = Some c" and "map_of (advs s) a \<noteq> None" and "live_moves s a \<noteq> []"
    and "us = (if gid = None then live_moves s a else [last (live_moves s a)])"
    and "r = ev_prev (hd us)" and "c = ev_survivor (last (live_moves s a))" and "r \<noteq> c"
  using assms
  by (auto simp: plan_of_def detach_plan_def home_of_def Let_def split: option.splits if_splits)

lemma sent_home_moves:
  assumes "distinct (map ev_id (ledger s))" "plan_of s gid a = Some (Some c, Detached, us, Some r)"
  shows "live_moves (sent_home a r us w s) b =
    (if b = a then (if gid = None then [] else butlast (live_moves s a)) else live_moves s b)"
proof -
  note p = plan_Detached [OF assms(2)]
  have sub: "set us \<subseteq> set (live_moves s a)" using p(3,4) by auto
  have "live_moves (sent_home a r us w s) b = filter (\<lambda>e. ev_id e \<notin> set (map ev_id us)) (live_moves s b)"
    by (simp add: sent_home_def live_moves_undo del: set_map)
  then show ?thesis
    using live_moves_other [OF assms(1) sub, of b] live_moves_all_undone [of s a]
      live_moves_last_undone [OF assms(1) p(3)] p(4) by (auto split: if_splits)
qed

lemma sent_home_home:
  "map_of (advs s) a \<noteq> None \<Longrightarrow> home_of (sent_home a r us w s) b = (if b = a then Some r else home_of s b)"
  by (simp add: sent_home_def home_of_place_on)

lemma sent_home_state:
  "state_of (sent_home a r us w s) p =
     (if p = r then map_option (\<lambda>x. if fst x = Merged_away then (Active, None) else x) (state_of s p)
      else state_of s p)"
  by (simp add: sent_home_def state_of_reactivate state_of_props [of "undo_rows w (map ev_id us) (place_on a (Some r) s)" s])

lemma sent_home_known: "map_of (advs (sent_home a r us w s)) b = None \<longleftrightarrow> map_of (advs s) b = None"
  by (simp add: sent_home_def)

lemma sent_home_ids:
  "keyed s \<Longrightarrow> keyed (sent_home a r us w s)" "ids_fresh s \<Longrightarrow> ids_fresh (sent_home a r us w s)"
  "map ev_id (ledger (sent_home a r us w s)) = map ev_id (ledger s)"
proof -
  have k: "map fst (advs (sent_home a r us w s)) = map fst (advs s)" "map fst (props (sent_home a r us w s)) = map fst (props s)"
    and l: "map ev_id (ledger (sent_home a r us w s)) = map ev_id (ledger s)"
    and n: "next_prop (sent_home a r us w s) = next_prop s" "next_event (sent_home a r us w s) = next_event s"
    by (simp_all add: sent_home_def)
  from k(2) have p: "fst ` set (props (sent_home a r us w s)) = fst ` set (props s)" by (metis set_map)
  show "keyed s \<Longrightarrow> keyed (sent_home a r us w s)" using k by (simp add: keyed_def)
  show "ids_fresh s \<Longrightarrow> ids_fresh (sent_home a r us w s)" unfolding ids_fresh_def p l n by simp
  show "map ev_id (ledger (sent_home a r us w s)) = map ev_id (ledger s)" by (rule l)
qed

lemma sent_home_ok:
  assumes ok: "store_ok s" and p: "plan_of s gid a = Some (Some c, Detached, us, Some r)"
    and gone: "\<not> origin_gone (state_of s r) us"
  shows "store_ok (sent_home a r us w s)"
proof (rule store_okI)
  note pl = plan_Detached [OF p]
  have d: "distinct (map ev_id (ledger s))" using ok by (simp add: store_ok_def ids_fresh_def)
  show "keyed (sent_home a r us w s)" "ids_fresh (sent_home a r us w s)"
    using ok sent_home_ids by (auto simp: store_ok_def)
  fix b assume b: "map_of (advs (sent_home a r us w s)) b \<noteq> None"
  then have bs: "map_of (advs s) b \<noteq> None" by (simp add: sent_home_known)
  note okb = store_ok_advert [OF ok bs, unfolded advert_ok_def]
  have act: "\<exists>x. state_of (sent_home a r us w s) r = Some (Active, x)"
  proof -
    obtain y where y: "state_of s r = Some y" using gone by (cases "state_of s r") (auto simp: origin_gone_def)
    have "fst y = Merged_away \<or> fst y = Active" by (cases "fst y") auto
    then show ?thesis using y by (cases y) (auto simp: sent_home_state)
  qed
  show "advert_ok (sent_home a r us w s) b"
  proof (cases "b = a")
    case True
    have ch: "chained (live_moves s a)" using okb True by simp
    have "lands (Some r) (if gid = None then [] else butlast (live_moves s a))"
    proof (cases "gid = None \<or> butlast (live_moves s a) = []")
      case False
      then show ?thesis using chained_last [OF ch] pl(4,5) by (auto simp: lands_def)
    qed (auto simp: lands_def)
    then show ?thesis
      using True act chained_butlast [OF ch]
      by (auto simp: advert_ok_def sent_home_moves [OF d p] sent_home_home [OF pl(2)] home_active_def)
  next
    case False
    have "home_active (sent_home a r us w s) (home_of s b)"
    proof (cases "home_of s b")
      case (Some q)
      then have "\<exists>x. state_of s q = Some (Active, x)" using okb by (auto simp: home_active_def split: option.splits)
      then show ?thesis using Some by (auto simp: home_active_def sent_home_state)
    qed (simp add: home_active_def)
    then show ?thesis
      using False okb by (simp add: advert_ok_def sent_home_moves [OF d p] sent_home_home [OF pl(2)])
  qed
qed

section \<open>Births and merges keep it\<close>

lemma unlinked_simps:
  "props (unlinked a w s) = props s" "next_prop (unlinked a w s) = next_prop s"
  "next_event (unlinked a w s) = next_event s" "map ev_id (ledger (unlinked a w s)) = map ev_id (ledger s)"
  "map fst (advs (unlinked a w s)) = map fst (advs s)" "drawn (unlinked a w s) = drawn s"
  "map_of (advs (unlinked a w s)) b = map_of (advs (place_on a None s)) b"
  by (simp_all add: unlinked_def)

lemma unlinked_moves:
  assumes "distinct (map ev_id (ledger s))"
  shows "live_moves (unlinked a w s) b = (if b = a then [] else live_moves s b)"
  using live_moves_other [OF assms subset_refl, of b a] live_moves_all_undone [of s a]
  by (auto simp: unlinked_def live_moves_undo simp del: set_map)

lemma birth_fields:
  fixes db a c w s
  defines "s' \<equiv> given_birth db a c w s"
  shows "map fst (advs s') = map fst (advs s)" "map fst (props s') = map fst (props s) @ [next_prop s]"
    "next_prop s' = next_prop s + 1" "next_event s' = next_event s + 1"
    "map ev_id (ledger s') = map ev_id (ledger s) @ [next_event s]"
    "live_moves s' b = live_moves (unlinked a w s) b"
    "map_of (advs s) a \<noteq> None \<Longrightarrow> home_of s' b = (if b = a then Some (next_prop s) else home_of s b)"
    "next_prop s \<notin> fst ` set (props s) \<Longrightarrow>
       state_of s' p = (if p = next_prop s then Some (Active, None) else state_of s p)"
proof -
  let ?u = "unlinked a w s"
  obtain live where cs: "create_singleton db a ?u = (next_prop s, place_on a (Some (next_prop s))
      (?u\<lparr>props := props s @ [(next_prop s, \<lparr>p_status = Active, p_merged = None, p_first = Some (e_now db),
         p_settled = None, p_live = live, p_repr = Some a\<rparr>)], next_prop := next_prop s + 1\<rparr>))"
    by (simp add: create_singleton_def unlinked_simps Let_def)
  define s3 where "s3 = place_on a (Some (next_prop s))
      (?u\<lparr>props := props s @ [(next_prop s, \<lparr>p_status = Active, p_merged = None, p_first = Some (e_now db),
         p_settled = None, p_live = live, p_repr = Some a\<rparr>)], next_prop := next_prop s + 1\<rparr>)"
  obtain e where e: "s' = s3\<lparr>drawn := drawn s3 + 1, ledger := ledger s3 @ [e], next_event := next_event s3 + 1\<rparr>"
      "ev_id e = next_event s3" "ev_undone e = Some w"
    by (simp add: s'_def given_birth_def cs s3_def [symmetric] birth_row_def Let_def)
  have l3: "ledger s3 = ledger ?u" "next_event s3 = next_event s" "props s3 = props s @ [(next_prop s, \<lparr>p_status = Active, p_merged = None, p_first = Some (e_now db),
         p_settled = None, p_live = live, p_repr = Some a\<rparr>)]" "next_prop s3 = next_prop s + 1"
    by (simp_all add: s3_def unlinked_simps)
  show "map fst (advs s') = map fst (advs s)" by (simp add: e s3_def unlinked_simps)
  show "map fst (props s') = map fst (props s) @ [next_prop s]" by (simp add: e l3)
  show "next_prop s' = next_prop s + 1" "next_event s' = next_event s + 1" by (simp_all add: e l3)
  show "map ev_id (ledger s') = map ev_id (ledger s) @ [next_event s]" using e(2) by (simp add: e(1) l3 unlinked_simps)
  show "live_moves s' b = live_moves ?u b" using e(3) by (simp add: e(1) live_moves_def l3)
  show "home_of s' b = (if b = a then Some (next_prop s) else home_of s b)" if k: "map_of (advs s) a \<noteq> None"
  proof -
    have "home_of s' b = home_of s3 b" by (simp add: e(1) home_of_def)
    also have "\<dots> = (if b = a then Some (next_prop s) else home_of s b)"
      using k by (cases "map_of (advs s) b") (auto simp: s3_def home_of_def unlinked_simps)
    finally show ?thesis .
  qed
  show "state_of s' p = (if p = next_prop s then Some (Active, None) else state_of s p)"
    if "next_prop s \<notin> fst ` set (props s)"
    using that by (auto simp: e(1) state_of_def l3 map_add_def map_of_eq_None_iff [symmetric] split: option.split)
qed

lemma birth_ok:
  assumes ok: "store_ok s" and h: "home_of s a = Some c"
  shows "store_ok (given_birth db a c w s)"
proof (rule store_okI)
  let ?s = "given_birth db a c w s"
  note f = birth_fields [where db = db and a = a and c = c and w = w and s = s]
  have np: "next_prop s \<notin> fst ` set (props s)" using ok by (force simp: store_ok_def ids_fresh_def)
  have ne: "next_event s \<notin> set (map ev_id (ledger s))" using ok by (force simp: store_ok_def ids_fresh_def)
  have ka: "map_of (advs s) a \<noteq> None" using h by (cases "map_of (advs s) a") (auto simp: home_of_def)
  have d: "distinct (map ev_id (ledger s))" using ok by (simp add: store_ok_def ids_fresh_def)
  show "keyed ?s" using ok np f(1,2) by (simp add: store_ok_def keyed_def)
  show "ids_fresh ?s"
  proof -
    have "fst ` set (props ?s) = insert (next_prop s) (fst ` set (props s))"
      using arg_cong [OF f(2), of set] by (simp only: set_map set_append list.set) auto
    then show ?thesis using ok ne f(3,4,5) unfolding store_ok_def ids_fresh_def
      by (auto simp only: f(5) set_append list.set distinct_append) (force+)
  qed
  fix b assume b: "map_of (advs ?s) b \<noteq> None"
  then have bs: "map_of (advs s) b \<noteq> None"
    using f(1) by (metis map_of_eq_None_iff set_map)
  note okb = store_ok_advert [OF ok bs, unfolded advert_ok_def]
  show "advert_ok ?s b"
  proof (cases "b = a")
    case True
    then show ?thesis
      by (simp add: advert_ok_def f(6) unlinked_moves [OF d] f(7) [OF ka] home_active_def f(8) [OF np] lands_def)
  next
    case False
    have "home_active ?s (home_of s b)"
      using okb by (auto simp: home_active_def f(8) [OF np] split: option.splits)
    then show ?thesis using False okb
      by (simp add: advert_ok_def f(6) unlinked_moves [OF d] f(7) [OF ka])
  qed
qed

lemma detach_one_ok:
  "store_ok s \<Longrightarrow> detach_one db a planned w gid new s = Inr (d, s') \<Longrightarrow> store_ok s'"
  using detach_one_cases [of db a planned w gid new s d s'] sent_home_ok birth_ok by metis

lemma detach_each_ok:
  "store_ok s \<Longrightarrow> detach_each db plans w gid new ids s = Inr (ds, s') \<Longrightarrow> store_ok s'"
proof (induction ids arbitrary: s ds)
  case (Cons a ids)
  obtain d s1 ds2 where 1: "detach_one db a (Option.bind (map_of plans a) fst) w gid (a \<in> new) s = Inr (d, s1)"
    and 2: "detach_each db plans w gid new ids s1 = Inr (ds2, s')"
    using Cons.prems(2) by (auto split: sum.splits prod.splits)
  show ?case by (rule Cons.IH [OF detach_one_ok [OF Cons.prems(1) 1] 2])
qed simp

lemma store_ok_calls [simp]: "store_ok (s\<lparr>calls := cs\<rparr>) = store_ok s" "store_ok (s\<lparr>drawn := n\<rparr>) = store_ok s"
  "store_ok (s\<lparr>rulings := vs\<rparr>) = store_ok s"
  by (simp_all add: store_ok_def keyed_def ids_fresh_def advert_ok_def home_of_def live_moves_def state_of_def home_active_def cong: option.case_cong)

lemma keyed_changed [simp]: "keyed (properties_changed db us s) = keyed s"
  by (simp add: keyed_def)

lemma ids_fresh_changed [simp]: "ids_fresh (properties_changed db us s) = ids_fresh s"
proof -
  have "fst ` set (props (properties_changed db us s)) = fst ` set (props s)"
    by (metis properties_changed_keeps(7) set_map)
  then show ?thesis by (simp add: ids_fresh_def)
qed

lemma store_ok_changed [simp]: "store_ok (properties_changed db us s) = store_ok s"
  by (simp add: store_ok_def advert_ok_def home_active_def cong: option.case_cong)

lemma detach_listings_ok:
  assumes "store_ok s" "detach_listings db ids w gid new curation s = Inr (ds, s')"
  shows "store_ok s'"
proof (cases "first_each ids = []")
  case False
  then obtain s1 us cs where "detach_each db (plan_detaches s (first_each ids) gid) w gid (set new) (first_each ids) s = Inr (ds, s1)"
      and s': "s' = properties_changed db us (s1\<lparr>calls := cs\<rparr>)"
    using assms(2) by (auto simp: detach_listings_def Let_def split: if_splits sum.splits prod.splits)
  then show ?thesis using detach_each_ok [OF assms(1)] by simp
qed (use assms in \<open>simp add: detach_listings_def\<close>)

lemma merged_moves:
  assumes "merged_by g reason source s rs st n st'"
  shows "\<exists>es. live_moves st' a = live_moves st a @ es \<and>
     (case home_of st a of
        Some p \<Rightarrow> if p \<in> set rs
                 then \<exists>e. es = [e] \<and> ev_group e = g \<and> ev_survivor e = s \<and> ev_prev e = p \<and> next_event st \<le> ev_id e
                 else es = []
      | None \<Rightarrow> es = [])"
proof -
  obtain rows where rows: "ledger st' = ledger st @ rows"
      "map ev_id rows = map (\<lambda>i. next_event st + int i) [0..<length rows]"
      "unnumbered (rows_of a rows) = (case home_of st a of None \<Rightarrow> []
               | Some p \<Rightarrow> if p \<in> set rs then [merge_event g reason source s p a] else [])"
    using assms unfolding merged_by_def by blast
  have live: "live_moves st' a = live_moves st a @ filter (\<lambda>e. ev_undone e = None) (rows_of a rows)"
    by (simp add: live_moves_def rows(1) rows_of_def)
  show ?thesis
  proof (cases "\<exists>p. home_of st a = Some p \<and> p \<in> set rs")
    case True
    then obtain p where p: "home_of st a = Some p" "p \<in> set rs" by blast
    then have "unnumbered (rows_of a rows) = [merge_event g reason source s p a]" using rows(3) by simp
    then obtain e where e: "rows_of a rows = [e]" "e\<lparr>ev_id := 0\<rparr> = merge_event g reason source s p a"
      by (auto simp: unnumbered_def)
    have fs: "ev_group e = g" "ev_survivor e = s" "ev_prev e = p" "ev_undone e = None"
      using arg_cong [OF e(2), of ev_group] arg_cong [OF e(2), of ev_survivor] arg_cong [OF e(2), of ev_prev]
        arg_cong [OF e(2), of ev_undone] by (simp_all add: merge_event_def)
    have "e \<in> set (rows_of a rows)" by (simp add: e(1))
    then have "e \<in> set rows" by (simp add: rows_of_def)
    then have "ev_id e \<in> set (map ev_id rows)" by simp
    then have "next_event st \<le> ev_id e" unfolding rows(2) by auto
    then show ?thesis using live e(1) fs p by simp
  next
    case False
    then have "rows_of a rows = []" using rows(3) by (auto simp: unnumbered_def split: option.splits if_splits)
    then show ?thesis using live False by (auto split: option.split)
  qed
qed

lemma merged_home:
  "merged_by g reason source s rs st n st' \<Longrightarrow> home_of st' a = moved_home s (set rs) (home_of st a)"
  by (cases "map_of (advs st) a") (auto simp: merged_by_def home_of_def moved_home_def)

lemma merged_known: "merged_by g reason source s rs st n st' \<Longrightarrow> map_of (advs st') a = None \<longleftrightarrow> map_of (advs st) a = None"
  by (simp add: merged_by_def)

lemma merged_state:
  assumes "merged_by g reason source s rs st n st'"
  shows "state_of st' p = (if p \<in> set rs then map_option (\<lambda>_. (Merged_away, Some s)) (state_of st p) else state_of st p)"
proof -
  obtain f where f: "map_of (props st') p =
          map_option (\<lambda>v. if p \<in> set rs then retired_into s v else if p = s then v\<lparr>p_settled := f v\<rparr> else v)
            (map_of (props st) p)" using assms unfolding merged_by_def by blast
  show ?thesis by (cases "map_of (props st) p") (auto simp: state_of_def f retired_into_def)
qed

lemma merged_ids:
  assumes m: "merged_by g reason source s rs st n st'" and ok: "ids_fresh st"
  shows "ids_fresh st'"
proof -
  obtain rows where rows: "ledger st' = ledger st @ rows" "next_event st' = next_event st + int (length rows)"
      "map ev_id rows = map (\<lambda>i. next_event st + int i) [0..<length rows]"
    using m unfolding merged_by_def by blast
  have k: "map fst (props st') = map fst (props st)" "next_prop st' = next_prop st" using m by (simp_all add: merged_by_def)
  have ps: "fst ` set (props st') = fst ` set (props st)" using arg_cong [OF k(1), of set] by simp
  have d: "distinct (map (\<lambda>i. next_event st + int i) [0..<length rows])" by (simp add: distinct_map inj_on_def)
  show ?thesis
    using ok d unfolding ids_fresh_def ps k rows map_append rows(3) by (auto simp del: set_map) force+
qed

lemma merged_ok:
  assumes m: "merged_by g reason source s rs st n st'" and ok: "store_ok st" and s: "s \<notin> set rs"
    and act: "\<exists>x. state_of st s = Some (Active, x)"
  shows "store_ok st'"
proof (rule store_okI)
  show "keyed st'" using m ok by (simp add: merged_by_def store_ok_def keyed_def)
  show "ids_fresh st'" using merged_ids [OF m] ok by (simp add: store_ok_def)
  fix a assume "map_of (advs st') a \<noteq> None"
  then have "map_of (advs st) a \<noteq> None" using merged_known [OF m] by simp
  note oka = store_ok_advert [OF ok this, unfolded advert_ok_def]
  obtain es where es: "live_moves st' a = live_moves st a @ es"
     "case home_of st a of
        Some p \<Rightarrow> if p \<in> set rs
                 then \<exists>e. es = [e] \<and> ev_group e = g \<and> ev_survivor e = s \<and> ev_prev e = p \<and> next_event st \<le> ev_id e
                 else es = []
      | None \<Rightarrow> es = []" using merged_moves [OF m] by blast
  show "advert_ok st' a"
  proof (cases "\<exists>p. home_of st a = Some p \<and> p \<in> set rs")
    case True
    then obtain p e where p: "home_of st a = Some p" "p \<in> set rs" "es = [e]" "ev_survivor e = s" "ev_prev e = p"
      using es(2) by auto
    have "lands (Some p) (live_moves st a)" using oka p(1) by simp
    then show ?thesis
      using oka p es(1) act s
      by (auto simp: advert_ok_def merged_home [OF m] moved_home_def chained_append1 lands_def home_active_def merged_state [OF m])
  next
    case False
    then have "es = []" "home_of st' a = home_of st a" using es(2) by (auto simp: merged_home [OF m] moved_home_def split: option.splits)
    moreover have "home_active st' (home_of st a)"
      using oka False by (auto simp: home_active_def merged_state [OF m] split: option.splits)
    ultimately show ?thesis using oka es(1) by (simp add: advert_ok_def)
  qed
qed

lemma merge_property_set_ok:
  assumes ok: "store_ok st" and m: "merge_property_set db pids source reason gid who st = Inr (d, st')"
  shows "store_ok st'"
proof -
  have k: "keyed st" using ok by (simp add: store_ok_def)
  obtain drw st2 vs where f: "gate_set (locked_rows st (sorted_ids pids)) (sorted_ids pids) = None"
      "m_survivor d \<in> set (sorted_ids pids)" "m_retired d = filter (\<lambda>p. p \<noteq> m_survivor d) (sorted_ids pids)"
      "merged_by (m_group d) reason source (m_survivor d) (m_retired d) (st\<lparr>drawn := drw\<rparr>) (m_moved d) st2"
      "st' = properties_changed db (m_survivor d # m_retired d) (st2\<lparr>rulings := vs\<rparr>)"
    using merge_set_Inr [OF k m] by metis
  have "\<exists>x. state_of (st\<lparr>drawn := drw\<rparr>) (m_survivor d) = Some (Active, x)"
    using gate_set_None [OF f(1) k f(2)] by (auto simp: state_of_def)
  then have "store_ok st2" using merged_ok [OF f(4)] ok f(3) by simp
  then show ?thesis by (simp add: f(5))
qed

lemma merge_each_ok:
  "store_ok st \<Longrightarrow> merge_each db reason who sets st = Inr (ds, st') \<Longrightarrow> store_ok st'"
proof (induction sets arbitrary: st ds)
  case (Cons x sets)
  obtain l ids where x: "x = (l, ids)" by (cases x)
  obtain d s1 ds2 where 1: "merge_property_set db ids ''operator'' reason None who st = Inr (d, s1)"
    and 2: "merge_each db reason who sets s1 = Inr (ds2, st')"
    using Cons.prems(2) by (auto simp: x split: sum.splits prod.splits)
  show ?case by (rule Cons.IH [OF merge_property_set_ok [OF Cons.prems(1) 1] 2])
qed simp

section \<open>The writers as steps\<close>

inductive store_step :: "store \<Rightarrow> store \<Rightarrow> bool" where
  merge: "merge_property_set db pids source reason gid who st = Inr (d, st') \<Longrightarrow> store_step st st'"
| letters: "merge_letters db ls reason who st = Inr (ds, st') \<Longrightarrow> store_step st st'"
| detach: "detach_listings db ids who gid new curation st = Inr (rs, st') \<Longrightarrow> store_step st st'"

inductive reaches :: "store \<Rightarrow> store \<Rightarrow> bool" for st where
  here: "reaches st st"
| next_step: "reaches st s \<Longrightarrow> store_step s t \<Longrightarrow> reaches st t"

lemma store_step_ok: "store_step st st' \<Longrightarrow> store_ok st \<Longrightarrow> store_ok st'"
proof (induction rule: store_step.induct)
  case (letters db ls reason who st ds st')
  then show ?case using merge_each_ok by (auto simp: merge_letters_def split: sum.splits)
qed (blast intro: merge_property_set_ok detach_listings_ok)+

lemma reaches_ok: "reaches st st' \<Longrightarrow> store_ok st \<Longrightarrow> store_ok st'"
  by (induction rule: reaches.induct) (auto intro: store_step_ok)

section \<open>Merge, then detach\<close>

text \<open>
  The tables part way through the undo of one merge: \<open>D\<close> the adverts already sent home.
\<close>

definition part_undone :: "int \<Rightarrow> int set \<Rightarrow> store \<Rightarrow> store \<Rightarrow> int set \<Rightarrow> store \<Rightarrow> bool" where
  "part_undone sv R st stm D s \<longleftrightarrow>
     (\<forall>a. map_of (advs s) a = None \<longleftrightarrow> map_of (advs st) a = None)
   \<and> distinct (map ev_id (ledger s))
   \<and> (\<forall>a. home_of s a = (if a \<in> D then home_of st a else home_of stm a))
   \<and> (\<forall>a. live_moves s a = (if a \<in> D then live_moves st a else live_moves stm a))
   \<and> (\<forall>p. state_of s p =
        (if p \<in> R then (if \<exists>a \<in> D. home_of st a = Some p then Some (Active, None) else Some (Merged_away, Some sv))
         else state_of st p))"

lemma undo_one:
  assumes m: "merged_by g reason source sv rs st n stm" and sv: "sv \<notin> set rs"
    and part: "part_undone sv (set rs) st stm D s" and a: "a \<notin> D" "home_of st a = Some r" "r \<in> set rs"
    and new: "\<not> new"
  shows "\<exists>s'. detach_one db a (Some sv) w (Some g) new s
      = Inr (\<lparr>d_advert = a, d_outcome = Detached, d_left = Some sv, d_target = Some r,
              d_undo = [last (live_moves stm a)], d_reactivated = (state_of s r = Some (Merged_away, Some sv))\<rparr>, s')
    \<and> part_undone sv (set rs) st stm (insert a D) s'"
proof -
  note P = part [unfolded part_undone_def]
  obtain e where e: "live_moves stm a = live_moves st a @ [e]" "ev_group e = g" "ev_survivor e = sv" "ev_prev e = r"
    using merged_moves [OF m, of a] a(2,3) by auto
  have home: "home_of s a = Some sv" using P a merged_home [OF m] by (simp add: moved_home_def)
  have known: "map_of (advs s) a \<noteq> None" using home by (cases "map_of (advs s) a") (auto simp: home_of_def)
  have moves: "live_moves s a = live_moves st a @ [e]" using P a(1) e(1) by simp
  have ne: "sv \<noteq> r" using sv a(3) by blast
  have plan: "plan_of s (Some g) a = Some (Some sv, Detached, [e], Some r)"
  proof -
    obtain v where v: "map_of (advs s) a = Some v" "l_home v = Some sv" using home known by (auto simp: home_of_def)
    show ?thesis using e(2-4) ne by (simp add: plan_of_def v moves detach_plan_def Let_def)
  qed
  have st_r: "state_of s r = Some (Active, None) \<or> state_of s r = Some (Merged_away, Some sv)" using P a(3) by auto
  then have gone: "\<not> origin_gone (state_of s r) [e]" using e(3) by (auto simp: origin_gone_def)
  let ?s = "sent_home a r [e] w s"
  have mv: "move_advert (Some r) a sv s = Some (place_on a (Some r) s)" by (simp add: move_advert_def home)
  have flag: "fst (reactivate r (undo_rows w (map ev_id [e]) (place_on a (Some r) s))) = (state_of s r = Some (Merged_away, Some sv))"
    using st_r by (cases "map_of (props s) r") (auto simp: reactivate_def state_of_def)
  have run: "detach_one db a (Some sv) w (Some g) new s
      = Inr (\<lparr>d_advert = a, d_outcome = Detached, d_left = Some sv, d_target = Some r,
              d_undo = [e], d_reactivated = (state_of s r = Some (Merged_away, Some sv))\<rparr>, ?s)"
    using new gone mv flag by (simp add: detach_one_def plan go_home_def sent_home_def split_def)
  have d: "distinct (map ev_id (ledger s))" using P by blast
  have st': "state_of ?s p = (if p \<in> set rs then (if \<exists>a \<in> insert a D. home_of st a = Some p then Some (Active, None) else Some (Merged_away, Some sv))
         else state_of st p)" for p
    using P a(2,3) st_r by (auto simp: sent_home_state)
  have mv': "live_moves ?s b = (if b \<in> insert a D then live_moves st b else live_moves stm b)" for b
    using P a(1) sent_home_moves [OF d plan, of w b] moves by auto
  have "part_undone sv (set rs) st stm (insert a D) ?s"
    unfolding part_undone_def
    using P a sent_home_known sent_home_ids(3) [of a r "[e]" w s] sent_home_home [OF known] mv' st' by simp
  then show ?thesis using run e(1) by auto
qed

lemma undo_each:
  assumes m: "merged_by g reason source sv rs st n stm" and sv: "sv \<notin> set rs"
  shows "part_undone sv (set rs) st stm D s \<Longrightarrow> distinct ids \<Longrightarrow> set ids \<inter> D = {} \<Longrightarrow>
     (\<And>a. a \<in> set ids \<Longrightarrow> \<exists>r \<in> set rs. home_of st a = Some r) \<Longrightarrow>
     (\<And>a. a \<in> set ids \<Longrightarrow> Option.bind (map_of plans a) fst = Some sv) \<Longrightarrow>
     \<exists>ds s'. detach_each db plans w (Some g) {} ids s = Inr (ds, s')
        \<and> part_undone sv (set rs) st stm (D \<union> set ids) s'
        \<and> map d_advert ds = ids \<and> (\<forall>d \<in> set ds. d_outcome d = Detached)"
proof (induction ids arbitrary: D s)
  case (Cons a ids)
  obtain r where r: "r \<in> set rs" "home_of st a = Some r" using Cons.prems(4) [of a] by auto
  obtain d s1 where 1: "detach_one db a (Some sv) w (Some g) False s = Inr (d, s1)"
      "part_undone sv (set rs) st stm (insert a D) s1" "d_advert d = a" "d_outcome d = Detached"
    using undo_one [OF m sv Cons.prems(1) _ r(2,1), of False db w] Cons.prems(3) by auto
  obtain ds s' where 2: "detach_each db plans w (Some g) {} ids s1 = Inr (ds, s')"
      "part_undone sv (set rs) st stm (insert a D \<union> set ids) s'" "map d_advert ds = ids" "\<forall>d \<in> set ds. d_outcome d = Detached"
    using Cons.IH [OF 1(2)] Cons.prems by auto
  show ?case using 1 2 Cons.prems(5) [of a] by auto
qed simp

lemma first_each_id: "distinct xs \<Longrightarrow> first_each xs = xs"
  by (induction xs) (auto simp: filter_id_conv)

lemma plan_detaches_map_of:
  "distinct ids \<Longrightarrow> map_of (plan_detaches st ids gid) a = (if a \<in> set ids then plan_of st gid a else None)"
proof (induction ids)
  case (Cons x ids)
  then show ?case
    by (cases "plan_of st gid x") (auto simp: plan_detaches_def List.map_filter_def split: if_splits)
qed (simp add: plan_detaches_def List.map_filter_def)

lemma part_undone_changed:
  "part_undone sv R st stm D (properties_changed db us s) = part_undone sv R st stm D s"
  by (simp add: part_undone_def)

lemma part_undone_cong:
  "props s = props t \<Longrightarrow> advs s = advs t \<Longrightarrow> ledger s = ledger t \<Longrightarrow>
   part_undone sv R st stm D s = part_undone sv R st stm D t"
  by (simp add: part_undone_def home_of_def live_moves_def state_of_def)

text \<open>
  C2. The undo of a merge. From tables in order, merge a set under a group the ledger does not
  know, then detach exactly the adverts it moved, in any order and by whomever, naming the group:
  every one of them is answered \<open>Detached\<close>, every advert sits where it sat before the merge, its
  standing ledger rows are the ones it had, and every property has the status it had, a retired one
  coming back with its first advert (one that held none stays retired into the survivor).
\<close>

theorem merge_then_detach:
  assumes "store_ok st" and "given gid" and "\<forall>e \<in> set (ledger st). ev_group e \<noteq> the gid"
    and "merge_property_set db pids source reason gid who st = Inr (d, stm)"
    and "distinct ids" and "ids \<noteq> []"
    and "set ids = {a. \<exists>r \<in> set (m_retired d). home_of st a = Some r}"
  shows "\<exists>ds s'. detach_listings db ids by_whom gid [] False stm = Inr (ds, s')
    \<and> map d_advert ds = ids \<and> (\<forall>x \<in> set ds. d_outcome x = Detached)
    \<and> (\<forall>a. home_of s' a = home_of st a \<and> live_moves s' a = live_moves st a)
    \<and> (\<forall>p. state_of s' p =
         (if p \<in> set (m_retired d)
          then (if \<exists>a. home_of st a = Some p then Some (Active, None) else Some (Merged_away, Some (m_survivor d)))
          else state_of st p))"
proof -
  have k: "keyed st" using assms(1) by (simp add: store_ok_def)
  have okm: "store_ok stm" by (rule merge_property_set_ok [OF assms(1,4)])
  let ?sv = "m_survivor d" let ?rs = "m_retired d"
  obtain drw st2 vs where f: "gate_set (locked_rows st (sorted_ids pids)) (sorted_ids pids) = None"
      "?sv \<in> set (sorted_ids pids)" "?rs = filter (\<lambda>p. p \<noteq> ?sv) (sorted_ids pids)"
      "merged_by (m_group d) reason source ?sv ?rs (st\<lparr>drawn := drw\<rparr>) (m_moved d) st2"
      "stm = properties_changed db (?sv # ?rs) (st2\<lparr>rulings := vs\<rparr>)"
    using merge_set_Inr [OF k assms(4)] by metis
  have g: "m_group d = the gid"
    using assms(2,4) by (auto simp: merge_property_set_def draw_group_def Let_def split: if_splits option.splits prod.splits)
  let ?st = "st\<lparr>drawn := drw\<rparr>"
  have eq: "home_of ?st = home_of st" "live_moves ?st = live_moves st" "state_of ?st = state_of st" "advs ?st = advs st"
    by (simp_all add: home_of_def live_moves_def state_of_def fun_eq_iff)
  have eqm: "home_of stm = home_of st2" "live_moves stm = live_moves st2" "state_of stm = state_of st2" "advs stm = advs st2" "ledger stm = ledger st2"
    by (auto simp: f(5) fun_eq_iff) (simp_all add: home_of_def live_moves_def state_of_def)
  have sv: "?sv \<notin> set ?rs" by (simp add: f(3))
  have pr: "state_of stm p = (if p \<in> set ?rs then Some (Merged_away, Some ?sv) else state_of st p)" for p
  proof (cases "p \<in> set ?rs")
    case True
    then have "p \<in> set (sorted_ids pids)" by (simp add: f(3))
    from gate_set_None [OF f(1) k this] obtain y where "map_of (props st) p = Some y" by blast
    then have "\<exists>y. state_of st p = Some y" by (simp add: state_of_def)
    then show ?thesis using True by (auto simp: eqm merged_state [OF f(4)] eq)
  qed (simp add: eqm merged_state [OF f(4)] eq)
  have start: "part_undone ?sv (set ?rs) ?st stm {} stm"
    unfolding part_undone_def eq using okm pr merged_known [OF f(4)]
    by (auto simp: eqm eq store_ok_def ids_fresh_def)
  have m': "merged_by (m_group d) reason source ?sv ?rs ?st (m_moved d) st2" by (rule f(4))
  have homes: "\<exists>r \<in> set ?rs. home_of ?st a = Some r" if "a \<in> set ids" for a using that assms(7) eq by auto
  have planned: "Option.bind (map_of (plan_detaches stm ids gid) a) fst = Some ?sv" if "a \<in> set ids" for a
  proof -
    have "home_of stm a = Some ?sv"
      using homes [OF that] merged_home [OF f(4), of a] by (auto simp: eqm moved_home_def)
    then obtain v where "map_of (advs stm) a = Some v" "l_home v = Some ?sv"
      by (cases "map_of (advs stm) a") (auto simp: home_of_def)
    then show ?thesis using that assms(5) by (simp add: plan_detaches_map_of plan_of_def Let_def)
  qed
  have start2: "part_undone ?sv (set ?rs) ?st st2 {} stm"
    using start by (simp add: part_undone_def eqm)
  obtain ds s1 where run: "detach_each db (plan_detaches stm ids gid) by_whom gid {} ids stm = Inr (ds, s1)"
      "part_undone ?sv (set ?rs) ?st st2 (set ids) s1" "map d_advert ds = ids" "\<forall>x \<in> set ds. d_outcome x = Detached"
    using undo_each [OF m' sv start2 assms(5), of "plan_detaches stm ids gid" db by_whom] homes planned
      g assms(2) by (cases gid) (auto simp: given_def)
  have none: "filter (\<lambda>a. map_of (plan_detaches stm ids gid) a = None) ids = []"
  proof -
    have "map_of (plan_detaches stm ids gid) a \<noteq> None" if "a \<in> set ids" for a
      using planned [OF that] by (cases "map_of (plan_detaches stm ids gid) a") auto
    then show ?thesis by (auto simp: filter_empty_conv)
  qed
  obtain us cs where out: "detach_listings db ids by_whom gid [] False stm = Inr (ds, properties_changed db us (s1\<lparr>calls := cs\<rparr>))"
    using run(1) none assms(6) by (simp add: detach_listings_def first_each_id [OF assms(5)] Let_def)
  let ?s = "properties_changed db us (s1\<lparr>calls := cs\<rparr>)"
  have "part_undone ?sv (set ?rs) ?st st2 (set ids) ?s"
    using run(2) part_undone_cong [of "s1\<lparr>calls := cs\<rparr>" s1] by (simp add: part_undone_changed)
  note P = this [unfolded part_undone_def eq]
  have still: "home_of st2 a = home_of st a" "live_moves st2 a = live_moves st a" if "a \<notin> set ids" for a
    using that assms(7) merged_home [OF f(4), of a] merged_moves [OF f(4), of a]
    by (auto simp: eq moved_home_def split: option.splits)
  have "home_of ?s a = home_of st a \<and> live_moves ?s a = live_moves st a" for a
    using P still [of a] by (cases "a \<in> set ids") auto
  moreover have "state_of ?s p = (if p \<in> set ?rs
          then (if \<exists>a. home_of st a = Some p then Some (Active, None) else Some (Merged_away, Some ?sv))
          else state_of st p)" for p
  proof -
    have "(\<exists>a \<in> set ids. home_of st a = Some p) \<longleftrightarrow> (\<exists>a. home_of st a = Some p)" if "p \<in> set ?rs"
      using that assms(7) by auto
    then show ?thesis using P by auto
  qed
  ultimately show ?thesis using out run(3,4) by blast
qed

definition merged_example :: "merge_error + (merge_data \<times> store)" where
  "merged_example = merge_property_set draws [1, 2] ''operator'' ''manual'' (Some ''m1'') (Some ''op'') small_store"

theorem merge_then_detach_witness:
  "\<exists>d stm ds s'. merged_example = Inr (d, stm)
    \<and> detach_listings draws [12, 11] ''op'' (Some ''m1'') [] False stm = Inr (ds, s')
    \<and> home_of stm 11 = Some 2 \<and> home_of s' 11 = Some 1
    \<and> state_of stm 1 = Some (Merged_away, Some 2) \<and> state_of s' 1 = Some (Active, None)"
proof -
  have ok: "store_ok small_store" by code_simp
  have fresh: "\<forall>e \<in> set (ledger small_store). ev_group e \<noteq> the (Some ''m1'')" by (simp add: small_store_def)
  have "case merged_example of Inl e \<Rightarrow> False
      | Inr (d, stm) \<Rightarrow> m_retired d = [1] \<and> home_of stm 11 = Some 2 \<and> state_of stm 1 = Some (Merged_away, Some 2)
          \<and> m_survivor d = 2" by code_simp
  then obtain d stm where m: "merged_example = Inr (d, stm)" "m_retired d = [1]" "home_of stm 11 = Some 2"
      "state_of stm 1 = Some (Merged_away, Some 2)" by (auto split: sum.splits)
  have ids: "set [12, 11] = {a. \<exists>r \<in> set (m_retired d). home_of small_store a = Some r}"
    by (auto simp: m(2) home_of_def small_store_def plain_advert_def split: if_splits)
  have h: "home_of small_store 11 = Some 1" by code_simp
  have side: "given (Some ''m1'')" "distinct [12 :: int, 11]" "[12 :: int, 11] \<noteq> []" by (simp_all add: given_def)
  obtain ds s' where u: "detach_listings draws [12, 11] ''op'' (Some ''m1'') [] False stm = Inr (ds, s')"
      "\<forall>a. home_of s' a = home_of small_store a \<and> live_moves s' a = live_moves small_store a"
      "\<forall>p. state_of s' p = (if p \<in> set (m_retired d)
          then (if \<exists>a. home_of small_store a = Some p then Some (Active, None) else Some (Merged_away, Some (m_survivor d)))
          else state_of small_store p)"
    using merge_then_detach [OF ok side(1) fresh m(1) [unfolded merged_example_def] side(2,3) ids, where by_whom = "''op''"]
    by blast
  have "home_of s' 11 = Some 1" using u(2) h by simp
  moreover have "state_of s' 1 = Some (Active, None)" using u(3) [rule_format, of 1] m(2) h by auto
  ultimately show ?thesis using m u(1) by blast
qed

text \<open>
  C3. The invariant of the tables, kept by every writer in every order: from tables in order, after
  any run of merges, lettered merges and detaches, they are in order: ids stay fresh, no advert is
  on a retired property (an advert's property resolves to itself), and each advert's standing ledger
  rows are a chain of moves that ends where the advert sits.
\<close>

theorem writers_keep_tables:
  assumes "store_ok st" and "reaches st st'"
  shows "store_ok st' \<and> (if map_of (advs st') a = None then True else
      (case home_of st' a of None \<Rightarrow> True | Some p \<Rightarrow> resolve_active_property_id st' p = Some p)
      \<and> chained (live_moves st' a) \<and> lands (home_of st' a) (live_moves st' a))"
proof -
  have ok: "store_ok st'" by (rule reaches_ok [OF assms(2,1)])
  have "resolve_active_property_id st' p = Some p" if "home_active st' (Some p)" for p
    using that chase_self [of st' p] by (auto simp: home_active_def state_of_def resolve_active_property_id_def split: option.splits)
  then show ?thesis using ok store_ok_advert [OF ok, of a] by (auto simp: advert_ok_def split: option.split)
qed

theorem writers_keep_tables_witness:
  "\<exists>st'. reaches small_store st' \<and> store_ok st' \<and> home_of st' 11 = Some 2 \<and> resolve_active_property_id st' 2 = Some 2
     \<and> live_moves st' 11 \<noteq> []"
proof -
  have ok: "store_ok small_store" by code_simp
  have "case merged_example of Inl e \<Rightarrow> False
      | Inr (d, stm) \<Rightarrow> home_of stm 11 = Some 2 \<and> live_moves stm 11 \<noteq> []" by code_simp
  then obtain d stm where m: "merged_example = Inr (d, stm)" "home_of stm 11 = Some 2" "live_moves stm 11 \<noteq> []"
    by (auto split: sum.splits)
  have r: "reaches small_store stm"
    by (rule next_step [OF here]) (rule merge [OF m(1) [unfolded merged_example_def]])
  have known: "map_of (advs stm) 11 \<noteq> None" using m(2) by (cases "map_of (advs stm) 11") (auto simp: home_of_def)
  from writers_keep_tables [OF ok r, of 11] show ?thesis using r m known by auto
qed

section \<open>The dry run\<close>

text \<open>
  A bulk undo's dry run tells the truth: the outcome \<open>detach_outcomes\<close> reads for an advert,
  writing nothing, is the outcome \<open>detach_listings\<close> then answers for it; an unknown advert is the
  one \<open>detach_listings\<close> refuses.
\<close>

theorem dry_run_agrees:
  "case detach_listings db [a] who gid [] False st of
     Inl e \<Rightarrow> e = Not_found a \<and> detach_outcomes st [a] gid = []
   | Inr (ds, st') \<Rightarrow> detach_outcomes st [a] gid = map (\<lambda>d. (d_advert d, d_outcome d)) ds"
proof (cases "plan_of st gid a")
  case None
  then show ?thesis
    by (simp add: detach_listings_def detach_outcomes_def plan_detaches_def sorted_ids_def List.map_filter_def Let_def)
next
  case (Some p)
  obtain here out us t where p: "p = (here, out, us, t)" by (cases p)
  have dry: "detach_outcomes st [a] gid = [(a, if out = Detached \<and> origin_gone (Option.bind t (state_of st)) us then Origin_moved_on else out)]"
    using Some p by (simp add: detach_outcomes_def plan_detaches_def sorted_ids_def List.map_filter_def)
  have plans: "plan_detaches st [a] gid = [(a, here, out, us, t)]"
    using Some p by (simp add: plan_detaches_def List.map_filter_def)
  have here: "home_of st a = here" using Some p by (auto simp: plan_of_def home_of_def Let_def split: option.splits)
  have native: "gid = None \<and> live_moves st a = [] \<and> here \<noteq> None" if "out = Split_native"
    using Some p that by (auto simp: plan_of_def detach_plan_def sizes_def Let_def split: option.splits if_splits)
  have det: "\<exists>c r. here = Some c \<and> t = Some r" if "out = Detached"
    using Some p that by (auto simp: plan_of_def detach_plan_def Let_def split: option.splits if_splits)
  have "\<exists>d s'. detach_one db a here who gid False st = Inr (d, s') \<and> d_advert d = a
      \<and> d_outcome d = (if out = Detached \<and> origin_gone (Option.bind t (state_of st)) us then Origin_moved_on else out)"
  proof (cases here)
    case None
    then show ?thesis using Some p native det by (auto simp: detach_one_def split: prod.split)
  next
    case c: (Some c)
    show ?thesis
    proof (cases "out = Split_native")
      case True
      have "\<exists>us t s'. born db a c who False st = ((Split_native, us, t), s')"
        using native [OF True] Some p c here True
        by (simp add: born_def move_advert_def Let_def split: prod.split)
      then obtain us2 t2 s' where "born db a c who False st = ((Split_native, us2, t2), s')" by blast
      then show ?thesis using Some p c True by (simp add: detach_one_def)
    next
      case nb: False
      show ?thesis
      proof (cases "out = Detached")
        case True
        then obtain r where r: "t = Some r" using det by blast
        show ?thesis using Some p c True r here
          by (simp add: detach_one_def go_home_def move_advert_def split: prod.split)
      qed (use Some p c nb in \<open>simp add: detach_one_def\<close>)
    qed
  qed
  then obtain d s' where "detach_one db a here who gid False st = Inr (d, s')" "d_advert d = a"
      "d_outcome d = (if out = Detached \<and> origin_gone (Option.bind t (state_of st)) us then Origin_moved_on else out)" by blast
  then show ?thesis by (simp add: detach_listings_def plans dry Let_def)
qed

end
