(* ===== verification/Letters.thy ===== *)
theory Letters
  imports Property_Merge_Laws
begin

text \<open>
  The letters statement on the wire and its reading: \<open>letter_tokens\<close> inverts the format its
  documentation gives (\<^verbatim>\<open>94020:A,140903:A,94492:B\<close>), and \<open>letter_sets\<close> groups the ids by letter.
\<close>

section \<open>Numbers and tokens\<close>

fun digits :: "nat \<Rightarrow> string" where
  "digits n = (if n < 10 then [DIGITS ! n] else digits (n div 10) @ [DIGITS ! (n mod 10)])"

declare digits.simps [simp del]

definition token :: "int \<times> string \<Rightarrow> string" where
  "token t = digits (nat (fst t)) @ [CHR '':''] @ snd t"

fun join :: "char \<Rightarrow> string list \<Rightarrow> string" where
  "join c [] = []"
| "join c [t] = t"
| "join c (t # ts) = t @ c # join c ts"

definition wire :: "(int, string) dict \<Rightarrow> string" where
  "wire letters = join CHR '','' (map token letters)"

lemma digit_index: "k < 10 \<Longrightarrow> index_of (DIGITS ! k) DIGITS = k \<and> DIGITS ! k \<in> set DIGITS"
proof -
  have "list_all (\<lambda>k. index_of (DIGITS ! k) DIGITS = k \<and> DIGITS ! k \<in> set DIGITS) [0..<10]" by code_simp
  then show "k < 10 \<Longrightarrow> ?thesis" by (simp add: list_all_iff)
qed

lemma digits_number: "is_number (digits n) \<and> number_of (digits n) = int n"
proof (induction n rule: digits.induct)
  case (1 n)
  show ?case
  proof (cases "n < 10")
    case True
    then show ?thesis using digit_index [OF True] by (simp add: digits.simps [of n] is_number_def number_of_def)
  next
    case False
    have m: "n mod 10 < 10" by simp
    have "10 * int (n div 10) + int (n mod 10) = int n" by presburger
    then show ?thesis using 1 [OF False] False digit_index [OF m]
      by (simp add: digits.simps [of n] is_number_def number_of_def)
  qed
qed

lemma digits_ne: "digits n \<noteq> []"
  by (subst digits.simps) simp

lemma digits_chars: "c \<in> set (digits n) \<Longrightarrow> c \<in> set DIGITS"
  using digits_number [of n] by (auto simp: is_number_def list_all_iff)

lemma not_digit: "CHR '':'' \<notin> set DIGITS" "CHR '','' \<notin> set DIGITS" "c \<in> set DIGITS \<Longrightarrow> \<not> is_blank c"
  by (auto simp: DIGITS_def is_blank_def)

lemma letter_chars: "l \<in> set LETTERS \<Longrightarrow> \<exists>c. l = [c] \<and> c \<noteq> CHR '','' \<and> \<not> is_blank c"
proof -
  have "list_all (\<lambda>l. length l = 1 \<and> hd l \<noteq> CHR '','' \<and> \<not> is_blank (hd l)) LETTERS" by code_simp
  then show "l \<in> set LETTERS \<Longrightarrow> ?thesis" by (auto simp: list_all_iff length_Suc_conv)
qed

lemma before_token: "before_sep CHR '':'' (token t) = digits (nat (fst t))"
  using digits_chars not_digit(1) by (auto simp: before_sep_def token_def takeWhile_append)

lemma after_token: "after_sep CHR '':'' (token t) = snd t"
proof -
  have "dropWhile (\<lambda>x. x \<noteq> CHR '':'') (digits (nat (fst t)) @ [CHR '':''] @ snd t) = [CHR '':''] @ snd t"
    using digits_chars not_digit(1) by (subst dropWhile_append2) auto
  then show ?thesis by (simp add: after_sep_def token_def)
qed

lemma strip_token:
  assumes "snd t \<in> set LETTERS"
  shows "strip (token t) = token t"
proof -
  obtain c where c: "snd t = [c]" "\<not> is_blank c" using letter_chars [OF assms] by blast
  obtain d ds where d: "digits (nat (fst t)) = d # ds" using digits_ne by (cases "digits (nat (fst t))") auto
  have "\<not> is_blank d" using digits_chars [of d "nat (fst t)"] not_digit(3) d by simp
  then show ?thesis using c by (simp add: strip_def token_def d)
qed

lemma split_on_plain: "c \<notin> set t \<Longrightarrow> split_on c t = [t]"
  by (induction t) auto

lemma split_on_cons: "c \<notin> set t \<Longrightarrow> split_on c (t @ c # rest) = t # split_on c rest"
  by (induction t) auto

lemma split_join: "ts \<noteq> [] \<Longrightarrow> \<forall>t \<in> set ts. c \<notin> set t \<Longrightarrow> split_on c (join c ts) = ts"
  by (induction c ts rule: join.induct) (simp_all add: split_on_plain split_on_cons)

lemma token_no_comma: "snd t \<in> set LETTERS \<Longrightarrow> CHR '','' \<notin> set (token t)"
  using digits_chars not_digit(2) letter_chars by (fastforce simp: token_def)

lemma take_wire:
  "distinct (map fst (out @ letters)) \<Longrightarrow> \<forall>t \<in> set letters. 0 \<le> fst t \<Longrightarrow>
   take_tokens (map token letters) out = Inr (out @ letters)"
proof (induction letters arbitrary: out)
  case (Cons t letters)
  have n: "is_number (digits (nat (fst t)))" "number_of (digits (nat (fst t))) = fst t"
    using digits_number [of "nat (fst t)"] Cons.prems(2) by simp_all
  have new: "fst t \<notin> fst ` set out" using Cons.prems(1) by auto
  then have "AList.update (fst t) (snd t) out = out @ [t]" by (induction out) auto
  then show ?case
    using Cons.IH [of "out @ [t]"] Cons.prems n new
    by (simp add: before_token after_token Let_def map_of_eq_None_iff)
qed simp

text \<open>
  The codec of a letters statement: a statement over distinct ids, written in the wire format,
  is read back as it was.
\<close>

theorem letter_tokens_wire:
  assumes "letters \<noteq> []" and "distinct (map fst letters)"
    and "list_all (\<lambda>(k, l). 0 \<le> k \<and> l \<in> set LETTERS) letters"
  shows "letter_tokens (wire letters) = Inr letters"
proof -
  have l: "\<forall>t \<in> set letters. 0 \<le> fst t \<and> snd t \<in> set LETTERS" using assms(3) by (auto simp: list_all_iff)
  have "split_on CHR '','' (wire letters) = map token letters"
    using assms(1) l token_no_comma unfolding wire_def by (intro split_join) auto
  moreover have "map strip (map token letters) = map token letters" using l strip_token by simp
  moreover have "take_tokens (map token letters) [] = Inr letters"
    using take_wire [of "[]" letters] assms(2) l by simp
  ultimately show ?thesis unfolding letter_tokens_def by (simp only:)
qed

theorem letter_tokens_wire_witness:
  "letter_tokens ''7:A,12:A,30:B'' = Inr [(7, ''A''), (12, ''A''), (30, ''B'')]"
proof -
  have "wire [(7, ''A''), (12, ''A''), (30, ''B'')] = ''7:A,12:A,30:B''" by code_simp
  moreover have "letter_tokens (wire [(7, ''A''), (12, ''A''), (30, ''B'')])
     = Inr [(7, ''A''), (12, ''A''), (30, ''B'')]"
    by (rule letter_tokens_wire) (simp_all add: LETTERS_def)
  ultimately show ?thesis by simp
qed

section \<open>The groups\<close>

lemma map_of_letter_fold:
  "map_of (fold (\<lambda>(k, l). dict_append l k) xs d) m =
     (case (map_of d m, map fst (filter (\<lambda>x. snd x = m) xs)) of
        (None, []) \<Rightarrow> None
      | (None, ys) \<Rightarrow> Some ys
      | (Some zs, ys) \<Rightarrow> Some (zs @ ys))"
proof (induction xs arbitrary: d)
  case (Cons x xs)
  obtain k l where x: "x = (k, l)" by (cases x)
  show ?case
    by (cases "l = m"; cases "map_of d m"; cases "map fst (filter (\<lambda>x. snd x = m) xs)")
       (simp_all add: x Cons.IH map_of_dict_append)
qed (simp split: option.split)

lemma distinct_letter_fold:
  "distinct (map fst d) \<Longrightarrow> distinct (map fst (fold (\<lambda>(k, l). dict_append l k) xs d))"
  by (induction xs arbitrary: d) (auto simp: distinct_dict_append)

text \<open>
  \<open>letter_sets\<close> refuses exactly a statement with a letter outside A-Z, naming an id that carries
  one; otherwise each letter used has one entry, which holds its ids ascending, and the entries are
  ordered by their lowest id.
\<close>

theorem letter_sets_correct:
  assumes "distinct (map fst letters)"
  shows "case letter_sets letters of
      Inl e \<Rightarrow> (\<exists>(k, l) \<in> set letters. l \<notin> set LETTERS \<and> e = Bad_letters ''a letter must be A-Z'' [k])
    | Inr sets \<Rightarrow> list_all (\<lambda>(k, l). l \<in> set LETTERS) letters \<and> distinct (map fst sets)
        \<and> sorted (map (hd \<circ> snd) sets)
        \<and> ((l, ks) \<in> set sets) = (ks \<noteq> [] \<and> ks = sorted_list_of_set {k. (k, l) \<in> set letters})"
proof (cases "filter (\<lambda>(_, l). l \<notin> set LETTERS) letters")
  case (Cons x xs)
  have "x \<in> set (filter (\<lambda>(_, l). l \<notin> set LETTERS) letters)" unfolding Cons by simp
  then have x: "x \<in> set letters" "snd x \<notin> set LETTERS" by auto
  have "letter_sets letters = Inl (Bad_letters ''a letter must be A-Z'' [fst x])"
    unfolding letter_sets_def Cons by (cases x) simp
  then show ?thesis using x by force
next
  case Nil
  let ?d = "fold (\<lambda>(k, l). dict_append l k) letters []"
  let ?e = "map (\<lambda>(l, ks). (l, sort ks)) ?d"
  have run: "letter_sets letters = Inr (sort_key (hd \<circ> snd) ?e)" by (simp add: letter_sets_def Nil)
  have ke: "map fst ?e = map fst ?d" by (simp add: comp_def split_def)
  have d: "distinct (map fst ?d)" by (rule distinct_letter_fold) simp
  have "mset (map fst (sort_key (hd \<circ> snd) ?e)) = mset (map fst ?e)" by (simp only: mset_map mset_sort)
  then have dk: "distinct (map fst (sort_key (hd \<circ> snd) ?e))"
    using d ke by (metis mset_eq_imp_distinct_iff)
  have grp: "map fst (filter (\<lambda>x. snd x = l) letters) = ys \<Longrightarrow> sort ys = sorted_list_of_set {k. (k, l) \<in> set letters}" for ys
  proof -
    assume ys: "map fst (filter (\<lambda>x. snd x = l) letters) = ys"
    have "distinct ys" using assms ys by (auto simp: distinct_map_filter)
    moreover have "set ys = {k. (k, l) \<in> set letters}" using ys by force
    ultimately show ?thesis by (metis sorted_list_of_set_sort_remdups distinct_remdups_id)
  qed
  have "(l, ks) \<in> set (sort_key (hd \<circ> snd) ?e) \<longleftrightarrow> (\<exists>ys. map_of ?d l = Some ys \<and> ks = sort ys)"
    using d by (auto simp: map_of_eq_Some_iff image_iff split: prod.splits)
  also have "\<dots> \<longleftrightarrow> ks \<noteq> [] \<and> ks = sorted_list_of_set {k. (k, l) \<in> set letters}"
  proof -
    have "map_of ?d l = (case map fst (filter (\<lambda>x. snd x = l) letters) of [] \<Rightarrow> None | ys \<Rightarrow> Some ys)"
      by (simp add: map_of_letter_fold split: list.split)
    then show ?thesis using grp by (cases "map fst (filter (\<lambda>x. snd x = l) letters)") auto
  qed
  finally show ?thesis using Nil dk by (auto simp: run filter_empty_conv list_all_iff)
qed

theorem letter_sets_witness:
  "case letter_sets [(7, ''B''), (3, ''A''), (1, ''B'')] of
      Inl e \<Rightarrow> False
    | Inr sets \<Rightarrow> sets = [(''B'', [1, 7]), (''A'', [3])] \<and>
        ((''B'', [1, 7]) \<in> set sets) = ([1, 7] \<noteq> ([] :: int list) \<and> [1, 7] = sorted_list_of_set {k. (k, ''B'') \<in> set [(7, ''B''), (3, ''A''), (1 :: int, ''B'')]})"
proof -
  have r: "letter_sets [(7, ''B''), (3, ''A''), (1, ''B'')] = Inr [(''B'', [1, 7]), (''A'', [3])]" by code_simp
  have "distinct (map fst [(7 :: int, ''B''), (3, ''A''), (1, ''B'')])" by simp
  from letter_sets_correct [OF this, of "''B''" "[1, 7]"] show ?thesis by (simp only: r sum.case)
qed

end
