(* ===== verification/Job_Lease.thy ===== *)
theory Job_Lease
  imports Complex_Main Prelude
begin

text \<open>
  \<^verbatim>\<open>scraper/job_lease.py\<close>: the lease rows of \<open>scheduled_jobs\<close> and the runs of \<open>job_runs\<close>. Each call
  is one transaction, so a function of the tables and of the moment it runs at; a call that raises or
  loses its race leaves them as they were. Times are seconds on one clock, rational because the
  database's are finer than a second. A holder reads the same clock locally: \<open>sent_at\<close> is its reading
  before the statement was sent, so never later than the moment the statement runs.

  A table row is kept under its key. Columns no call here reads (\<open>argv\<close>, the memory and cpu
  declarations, the log tail of a run) are left out, as are the worker heartbeats (\<open>beat\<close>,
  \<open>forget\<close>, \<open>forget_replaced\<close>) and the listing \<open>rows\<close>.
\<close>

record job_row =
  jr_runner :: string
  jr_registry :: "rat option"
  jr_retired :: "rat option"
  jr_due :: "rat option"
  jr_cadence :: int
  jr_offset :: "int option"
  jr_timeout :: "int option"
  jr_resource :: "string option"
  jr_paused :: "rat option"
  jr_pause_note :: "string option"
  jr_paused_by :: "string option"
  jr_requested :: "rat option"
  jr_req_args :: "string list option"
  jr_req_by :: "string option"
  jr_holder :: "string option"
  jr_expires :: "rat option"
  jr_started :: "rat option"
  jr_success :: "rat option"
  jr_outcome :: "string option"
  jr_error :: "string option"
  jr_fails :: nat

record run =
  rn_id :: int
  rn_job :: string
  rn_holder :: string
  rn_version :: "string option"
  rn_resource :: "string option"
  rn_args :: "string list option"
  rn_by :: "string option"
  rn_started :: rat
  rn_ended :: "rat option"
  rn_outcome :: "string option"
  rn_exit :: "int option"

record jobs =
  job_rows :: "(string, job_row) dict"
  job_runs :: "run list"
  next_run :: int

record hold =
  h_job :: string
  h_holder :: string
  h_ttl :: int
  h_fence :: rat

record lease = hold +
  le_run :: int
  le_args :: "string list option"
  le_by :: "string option"
  le_due_slot :: bool

definition TTL_S :: int where "TTL_S = 180"
definition FENCE_MARGIN_S :: int where "FENCE_MARGIN_S = 30"
definition MORE_REMAINS_S :: int where "MORE_REMAINS_S = 60"
definition BACKOFF_BASE_S :: int where "BACKOFF_BASE_S = 60"
definition REJOIN_AFTER_S :: int where "REJOIN_AFTER_S = 3600"

definition RELEASE_OUTCOMES :: "string list" where
  "RELEASE_OUTCOMES = [''ok'', ''failed'', ''cancelled'', ''skipped'', ''timeout'', ''interrupted'']"

definition NOT_FAILURES :: "string list" where
  "NOT_FAILURES = [''cancelled'', ''skipped'', ''interrupted'']"

definition DUE_KINDS :: "string list" where
  "DUE_KINDS = [''slot'', ''now'', ''more'', ''backoff'', ''retry'', ''own_hour'']"

section \<open>Conditions on a row\<close>

definition past :: "rat \<Rightarrow> rat option \<Rightarrow> bool" where
  "past t x = (case x of None \<Rightarrow> False | Some u \<Rightarrow> u \<le> t)"

definition free :: "rat \<Rightarrow> job_row \<Rightarrow> bool" where
  "free t j \<longleftrightarrow> jr_holder j = None \<or> (case jr_expires j of None \<Rightarrow> True | Some e \<Rightarrow> e < t)"

definition unpaused :: "rat \<Rightarrow> job_row \<Rightarrow> bool" where
  "unpaused t j \<longleftrightarrow> (case jr_paused j of None \<Rightarrow> True | Some u \<Rightarrow> u \<le> t)"

definition due_now :: "rat \<Rightarrow> job_row \<Rightarrow> bool" where
  "due_now t j \<longleftrightarrow> past t (jr_due j) \<and> unpaused t j"

text \<open>A live lease: somebody's, and not past its expiry.\<close>

definition live :: "rat \<Rightarrow> job_row \<Rightarrow> bool" where
  "live t j \<longleftrightarrow> jr_holder j \<noteq> None \<and> (case jr_expires j of None \<Rightarrow> False | Some e \<Rightarrow> t \<le> e)"

definition held_by :: "rat \<Rightarrow> string \<Rightarrow> job_row \<Rightarrow> bool" where
  "held_by t holder j \<longleftrightarrow> jr_holder j = Some holder \<and> (case jr_expires j of None \<Rightarrow> False | Some e \<Rightarrow> t \<le> e)"

definition open_run :: "run \<Rightarrow> bool" where
  "open_run r \<longleftrightarrow> rn_ended r = None"

section \<open>Slots\<close>

definition offset_of :: "job_row \<Rightarrow> int" where
  "offset_of j = (case jr_offset j of None \<Rightarrow> 0 | Some o_s \<Rightarrow> o_s)"

text \<open>\<open>_NEXT_SLOT_SQL\<close>: the next slot strictly after \<open>t\<close> on the grid anchored at the epoch.\<close>

definition next_slot :: "rat \<Rightarrow> job_row \<Rightarrow> rat" where
  "next_slot t j = of_int ((\<lfloor>(t - of_int (offset_of j)) / of_int (jr_cadence j)\<rfloor> + 1) * jr_cadence j + offset_of j)"

text \<open>\<open>_DAY_SLOT_SQL\<close>: the same on a whole-day grid at the job's own time of day.\<close>

definition day_slot :: "rat \<Rightarrow> job_row \<Rightarrow> rat" where
  "day_slot t j = (let o_s = offset_of j mod 86400
                   in of_int ((\<lfloor>(t - of_int o_s) / 86400\<rfloor> + 1) * 86400 + o_s))"

definition backoff_s :: "job_row \<Rightarrow> int" where
  "backoff_s j = BACKOFF_BASE_S * 2 ^ min (jr_fails j) 20"

definition backoff :: "rat \<Rightarrow> job_row \<Rightarrow> rat" where
  "backoff t j = min (t + of_int (min (backoff_s j) (jr_cadence j))) (next_slot t j)"

definition retry :: "rat \<Rightarrow> job_row \<Rightarrow> rat" where
  "retry t j = min (t + of_int (min (max (case jr_timeout j of None \<Rightarrow> BACKOFF_BASE_S | Some s \<Rightarrow> s) (backoff_s j)) (jr_cadence j)))
                 (next_slot t j)"

section \<open>Claim\<close>

definition sibling_busy :: "rat \<Rightarrow> jobs \<Rightarrow> string \<Rightarrow> job_row \<Rightarrow> bool" where
  "sibling_busy t db name j \<longleftrightarrow> jr_resource j \<noteq> None \<and>
     (\<exists>(n, s) \<in> set (job_rows db). n \<noteq> name \<and> jr_resource s = jr_resource j \<and> live t s)"

definition claimable :: "rat \<Rightarrow> jobs \<Rightarrow> string \<Rightarrow> job_row \<Rightarrow> bool" where
  "claimable t db name j \<longleftrightarrow> jr_retired j = None \<and> (due_now t j \<or> past t (jr_requested j)) \<and> free t j
     \<and> \<not> sibling_busy t db name j"

definition take :: "rat \<Rightarrow> string \<Rightarrow> int \<Rightarrow> job_row \<Rightarrow> job_row" where
  "take t holder ttl j = j\<lparr>jr_holder := Some holder, jr_expires := Some (t + of_int ttl),
     jr_started := Some t, jr_outcome := Some ''running''\<rparr>"

text \<open>
  \<open>_CLOSE_LOST_SQL\<close>: an open run on the job, or one on its resource whose own row does not hold it
  live, is lost; its job counts a failure, and a sibling gives up the lease it no longer holds.
\<close>

definition run_held :: "rat \<Rightarrow> jobs \<Rightarrow> run \<Rightarrow> bool" where
  "run_held t db r = (case map_of (job_rows db) (rn_job r) of None \<Rightarrow> False | Some s \<Rightarrow> held_by t (rn_holder r) s)"

definition lost_run :: "rat \<Rightarrow> jobs \<Rightarrow> string \<Rightarrow> string option \<Rightarrow> run \<Rightarrow> bool" where
  "lost_run t db name res r \<longleftrightarrow> open_run r \<and> map_of (job_rows db) (rn_job r) \<noteq> None \<and>
     (rn_job r = name \<or> (res \<noteq> None \<and> rn_resource r = res \<and> \<not> run_held t db r))"

definition end_run :: "rat \<Rightarrow> string \<Rightarrow> run \<Rightarrow> run" where
  "end_run t outcome r = r\<lparr>rn_ended := Some t, rn_outcome := Some outcome\<rparr>"

definition close_lost :: "rat \<Rightarrow> string \<Rightarrow> string option \<Rightarrow> jobs \<Rightarrow> jobs" where
  "close_lost t name res db =
     (let lost = filter (lost_run t db name res) (job_runs db)
      in db\<lparr>job_runs := map (\<lambda>r. if lost_run t db name res r then end_run t ''lost'' r else r) (job_runs db),
            job_rows := map (\<lambda>(n, j). (n, if n \<notin> rn_job ` set lost then j
                else if n = name then j\<lparr>jr_fails := jr_fails j + 1\<rparr>
                else j\<lparr>jr_fails := jr_fails j + 1, jr_outcome := Some ''lost'', jr_holder := None, jr_expires := None\<rparr>))
              (job_rows db)\<rparr>)"

text \<open>\<open>_OPEN_RUN_SQL\<close> under the two unique indexes; \<open>None\<close> is their violation.\<close>

definition open_new :: "run \<Rightarrow> jobs \<Rightarrow> jobs option" where
  "open_new r db =
     (if \<exists>x \<in> set (job_runs db). open_run x \<and> (rn_job x = rn_job r \<or> (rn_resource r \<noteq> None \<and> rn_resource x = rn_resource r))
      then None
      else Some (db\<lparr>job_runs := job_runs db @ [r], next_run := next_run db + 1\<rparr>))"

definition fence_after :: "rat \<Rightarrow> int \<Rightarrow> rat" where
  "fence_after sent_at ttl = sent_at + of_int ttl - of_int FENCE_MARGIN_S"

definition claim :: "rat \<Rightarrow> rat \<Rightarrow> string \<Rightarrow> string \<Rightarrow> int \<Rightarrow> string option \<Rightarrow> jobs \<Rightarrow> lease option \<times> jobs" where
  "claim sent_at t name holder ttl version db =
     (case map_of (job_rows db) name of
        None \<Rightarrow> (None, db)
      | Some j \<Rightarrow>
          if \<not> claimable t db name j then (None, db)
          else
            let requested = past t (jr_requested j);
                args = (if requested then jr_req_args j else None);
                asked_by = (if requested then jr_req_by j else None);
                db1 = db\<lparr>job_rows := update_rows (\<lambda>n _. n = name) (take t holder ttl) (job_rows db)\<rparr>;
                db2 = close_lost t name (jr_resource j) db1;
                r = \<lparr>rn_id = next_run db2, rn_job = name, rn_holder = holder, rn_version = version,
                     rn_resource = jr_resource j, rn_args = args, rn_by = asked_by, rn_started = t,
                     rn_ended = None, rn_outcome = None, rn_exit = None\<rparr>
            in (case open_new r db2 of
                  None \<Rightarrow> (None, db)
                | Some db3 \<Rightarrow>
                    (Some \<lparr>h_job = name, h_holder = holder, h_ttl = ttl, h_fence = fence_after sent_at ttl,
                           le_run = rn_id r, le_args = args, le_by = asked_by, le_due_slot = due_now t j\<rparr>,
                     if requested
                     then db3\<lparr>job_rows := update_rows (\<lambda>n _. n = name)
                            (\<lambda>j. j\<lparr>jr_requested := None, jr_req_args := None, jr_req_by := None\<rparr>) (job_rows db3)\<rparr>
                     else db3)))"

section \<open>Renew, fence, release\<close>

definition fenced :: "rat \<Rightarrow> 'a hold_scheme \<Rightarrow> bool" where
  "fenced t h \<longleftrightarrow> h_fence h \<le> t"

definition row_held :: "rat \<Rightarrow> jobs \<Rightarrow> 'a hold_scheme \<Rightarrow> bool" where
  "row_held t db h = (case map_of (job_rows db) (h_job h) of None \<Rightarrow> False | Some j \<Rightarrow> held_by t (h_holder h) j)"

definition renew :: "rat \<Rightarrow> rat \<Rightarrow> 'a hold_scheme \<Rightarrow> jobs \<Rightarrow> bool \<times> 'a hold_scheme \<times> jobs" where
  "renew sent_at t h db =
     (if row_held t db h
      then (True, h\<lparr>h_fence := fence_after sent_at (h_ttl h)\<rparr>,
            db\<lparr>job_rows := update_rows (\<lambda>n _. n = h_job h) (\<lambda>j. j\<lparr>jr_expires := Some (t + of_int (h_ttl h))\<rparr>) (job_rows db)\<rparr>)
      else (False, h, db))"

text \<open>\<open>fence\<close>: \<open>False\<close> is \<open>LeaseLost\<close>, and the holder's transaction rolls back.\<close>

definition fence :: "rat \<Rightarrow> 'a hold_scheme \<Rightarrow> jobs \<Rightarrow> bool" where
  "fence t h db = (case map_of (job_rows db) (h_job h) of None \<Rightarrow> False
     | Some j \<Rightarrow> jr_holder j = Some (h_holder h) \<and> (case jr_expires j of None \<Rightarrow> False | Some e \<Rightarrow> t < e))"

text \<open>\<open>_release_params\<close>: the due kind, \<open>None\<close> for its two \<^verbatim>\<open>ValueError\<close>s.\<close>

definition due_kind :: "string \<Rightarrow> string option \<Rightarrow> string option" where
  "due_kind outcome due =
     (let k = (case due of Some (c # s) \<Rightarrow> c # s | _ \<Rightarrow> if outcome = ''interrupted'' then ''now'' else ''slot'')
      in if outcome \<notin> set RELEASE_OUTCOMES \<or> k \<notin> set DUE_KINDS then None else Some k)"

definition released_due :: "rat \<Rightarrow> string \<Rightarrow> bool \<Rightarrow> bool \<Rightarrow> job_row \<Rightarrow> rat option" where
  "released_due t kind requested due_slot j =
     (case jr_due j of
        None \<Rightarrow> None
      | Some d \<Rightarrow> Some (
          if requested \<and> \<not> due_slot
          then (if kind = ''more'' then min d (t + of_int MORE_REMAINS_S) else d)
          else if kind = ''now'' then t
          else if kind = ''more'' then t + of_int MORE_REMAINS_S
          else if kind = ''backoff'' then backoff t j
          else if kind = ''retry'' then retry t j
          else if kind = ''own_hour'' then min (day_slot t j) (next_slot t j)
          else next_slot t j))"

definition released_row :: "rat \<Rightarrow> string \<Rightarrow> string option \<Rightarrow> string \<Rightarrow> bool \<Rightarrow> bool \<Rightarrow> job_row \<Rightarrow> job_row" where
  "released_row t outcome error kind requested due_slot j =
     j\<lparr>jr_holder := None, jr_expires := None, jr_outcome := Some outcome, jr_error := error,
       jr_success := (if outcome = ''ok'' then Some t else jr_success j),
       jr_fails := (if outcome = ''ok'' then 0 else if outcome \<in> set NOT_FAILURES then jr_fails j else jr_fails j + 1),
       jr_due := released_due t kind requested due_slot j\<rparr>"

definition still_holder :: "jobs \<Rightarrow> 'a hold_scheme \<Rightarrow> bool" where
  "still_holder db h = (case map_of (job_rows db) (h_job h) of None \<Rightarrow> False | Some j \<Rightarrow> jr_holder j = Some (h_holder h))"

text \<open>\<^verbatim>\<open>error[:500] if error else None\<close>\<close>

definition cut_error :: "string option \<Rightarrow> string option" where
  "cut_error e = (case e of None \<Rightarrow> None | Some s \<Rightarrow> if s = [] then None else Some (List.take 500 s))"

definition release :: "rat \<Rightarrow> lease \<Rightarrow> string \<Rightarrow> string option \<Rightarrow> string option \<Rightarrow> int option \<Rightarrow> jobs
    \<Rightarrow> (bool \<times> jobs) option" where
  "release t le outcome due error code db =
     (case due_kind outcome due of
        None \<Rightarrow> None
      | Some kind \<Rightarrow>
          if \<not> still_holder db le then Some (False, db)
          else Some (True, db\<lparr>
            job_rows := update_rows (\<lambda>n _. n = h_job le)
                          (released_row t outcome (cut_error error) kind (le_by le \<noteq> None) (le_due_slot le)) (job_rows db),
            job_runs := map (\<lambda>r. if rn_id r = le_run le \<and> open_run r
                                 then (end_run t outcome r)\<lparr>rn_exit := code\<rparr> else r) (job_runs db)\<rparr>))"

section \<open>Lanes\<close>

definition lane_row :: "int \<Rightarrow> string \<Rightarrow> job_row" where
  "lane_row cadence runner = \<lparr>jr_runner = runner, jr_registry = None, jr_retired = None, jr_due = None,
     jr_cadence = cadence, jr_offset = None, jr_timeout = None, jr_resource = None, jr_paused = None,
     jr_pause_note = None, jr_paused_by = None, jr_requested = None, jr_req_args = None, jr_req_by = None,
     jr_holder = None, jr_expires = None, jr_started = None, jr_success = None, jr_outcome = None,
     jr_error = None, jr_fails = 0\<rparr>"

text \<open>\<open>held\<close> on entry: the lane's row is born when it has none, then taken when it is free.\<close>

definition held_enter :: "rat \<Rightarrow> rat \<Rightarrow> string \<Rightarrow> int \<Rightarrow> string \<Rightarrow> int \<Rightarrow> string \<Rightarrow> jobs \<Rightarrow> hold option \<times> jobs" where
  "held_enter sent_at t name cadence runner ttl holder db =
     (let db1 = (if map_of (job_rows db) name = None
                 then db\<lparr>job_rows := job_rows db @ [(name, lane_row cadence runner)]\<rparr> else db);
          j = the (map_of (job_rows db1) name)
      in if jr_retired j = None \<and> unpaused t j \<and> free t j
         then (Some \<lparr>h_job = name, h_holder = holder, h_ttl = ttl, h_fence = fence_after sent_at ttl\<rparr>,
               db1\<lparr>job_rows := update_rows (\<lambda>n _. n = name) (take t holder ttl) (job_rows db1)\<rparr>)
         else (None, db1))"

text \<open>\<open>_release_hold\<close>: a lane's release touches no run.\<close>

definition release_hold :: "rat \<Rightarrow> 'a hold_scheme \<Rightarrow> string \<Rightarrow> string option \<Rightarrow> jobs \<Rightarrow> (bool \<times> jobs) option" where
  "release_hold t h outcome error db =
     (case due_kind outcome None of
        None \<Rightarrow> None
      | Some kind \<Rightarrow>
          if \<not> still_holder db h then Some (False, db)
          else Some (True, db\<lparr>job_rows := update_rows (\<lambda>n _. n = h_job h)
            (released_row t outcome (cut_error error) kind False False) (job_rows db)\<rparr>))"

section \<open>The registry\<close>

record job_spec =
  js_name :: string
  js_every :: int
  js_offset :: int
  js_timeout :: int
  js_resource :: "string option"

definition first_slot :: "rat \<Rightarrow> job_spec \<Rightarrow> rat" where
  "first_slot t s = of_int (\<lceil>(t + of_int (js_timeout s) - of_int (js_offset s)) / of_int (js_every s)\<rceil> * js_every s + js_offset s)"

text \<open>The table's \<^verbatim>\<open>CHECK\<close> on a declaration; a row it refuses is skipped, and named.\<close>

definition spec_ok :: "job_spec \<Rightarrow> bool" where
  "spec_ok s \<longleftrightarrow> js_every s \<noteq> 0 \<and> 0 \<le> js_offset s \<and> 0 < js_timeout s"

definition registered_row :: "rat \<Rightarrow> string \<Rightarrow> job_spec \<Rightarrow> job_row option \<Rightarrow> job_row" where
  "registered_row t runner s old =
     (case old of
        None \<Rightarrow> (lane_row (js_every s) runner)\<lparr>jr_registry := Some t, jr_due := Some (first_slot t s),
                 jr_offset := Some (js_offset s), jr_timeout := Some (js_timeout s), jr_resource := js_resource s\<rparr>
      | Some j \<Rightarrow>
          let rejoin = past (t - of_int REJOIN_AFTER_S) (jr_retired j)
          in j\<lparr>jr_cadence := js_every s, jr_offset := Some (js_offset s), jr_timeout := Some (js_timeout s),
               jr_resource := js_resource s, jr_runner := runner, jr_retired := None,
               jr_registry := (if jr_registry j = None \<or> rejoin then Some t else jr_registry j),
               jr_due := (if jr_registry j = None \<or> jr_due j = None \<or> rejoin then Some (first_slot t s) else jr_due j)\<rparr>)"

record registered =
  reg_inserted :: "string list"
  reg_adopted :: "string list"
  reg_unretired :: "string list"
  reg_skipped :: "string list"

definition register_one :: "rat \<Rightarrow> string \<Rightarrow> job_spec \<Rightarrow> registered \<times> jobs \<Rightarrow> registered \<times> jobs" where
  "register_one t runner s = (\<lambda>(out, db).
     let n = js_name s; old = map_of (job_rows db) n
     in if \<not> spec_ok s then (out\<lparr>reg_skipped := reg_skipped out @ [n]\<rparr>, db)
        else (case old of
                None \<Rightarrow> out\<lparr>reg_inserted := reg_inserted out @ [n]\<rparr>
              | Some j \<Rightarrow> if jr_registry j = None then out\<lparr>reg_adopted := reg_adopted out @ [n]\<rparr>
                          else if jr_retired j \<noteq> None then out\<lparr>reg_unretired := reg_unretired out @ [n]\<rparr>
                          else out,
              db\<lparr>job_rows := AList.update n (registered_row t runner s old) (job_rows db)\<rparr>))"

definition register :: "rat \<Rightarrow> string \<Rightarrow> job_spec list \<Rightarrow> jobs \<Rightarrow> registered \<times> jobs" where
  "register t runner entries db =
     fold (register_one t runner) entries
       (\<lparr>reg_inserted = [], reg_adopted = [], reg_unretired = [], reg_skipped = []\<rparr>, db)"

definition retirable :: "string \<Rightarrow> string list \<Rightarrow> string \<Rightarrow> job_row \<Rightarrow> bool" where
  "retirable runner names n j \<longleftrightarrow> jr_registry j \<noteq> None \<and> jr_runner j = runner \<and> jr_retired j = None \<and> n \<notin> set names"

definition retire_jobs :: "rat \<Rightarrow> string \<Rightarrow> string list \<Rightarrow> jobs \<Rightarrow> string list \<times> jobs" where
  "retire_jobs t runner names db =
     (map fst (filter (\<lambda>(n, j). retirable runner names n j) (job_rows db)),
      db\<lparr>job_rows := update_rows (retirable runner names) (\<lambda>j. j\<lparr>jr_retired := Some t\<rparr>) (job_rows db)\<rparr>)"

section \<open>Lost runs, due jobs, requests\<close>

definition lapsed :: "rat \<Rightarrow> string \<Rightarrow> jobs \<Rightarrow> run \<Rightarrow> bool" where
  "lapsed t runner db r \<longleftrightarrow> open_run r \<and>
     (case map_of (job_rows db) (rn_job r) of None \<Rightarrow> False
      | Some j \<Rightarrow> jr_runner j = runner \<and> jr_registry j \<noteq> None \<and> \<not> held_by t (rn_holder r) j)"

text \<open>The job's latest closed run, by id, was lost too.\<close>

definition lost_again :: "jobs \<Rightarrow> string \<Rightarrow> bool" where
  "lost_again db n =
     (case rev (sort_key rn_id (filter (\<lambda>r. rn_job r = n \<and> \<not> open_run r) (job_runs db))) of
        [] \<Rightarrow> False | r # _ \<Rightarrow> rn_outcome r = Some ''lost'')"

definition reaped_row :: "rat \<Rightarrow> string list \<Rightarrow> string list \<Rightarrow> jobs \<Rightarrow> run \<Rightarrow> string \<Rightarrow> job_row \<Rightarrow> job_row" where
  "reaped_row t names on_hour db r n j =
     j\<lparr>jr_fails := jr_fails j + 1, jr_outcome := Some ''lost'',
       jr_holder := (if jr_holder j = Some (rn_holder r) then None else jr_holder j),
       jr_expires := (if jr_holder j = Some (rn_holder r) then None else jr_expires j),
       jr_due := (case jr_due j of None \<Rightarrow> None | Some d \<Rightarrow> Some (
           if n \<notin> set names then d
           else if n \<in> set on_hour then min (day_slot t j) (next_slot t j)
           else if lost_again db n then backoff t j else t))\<rparr>"

definition reap_lost :: "rat \<Rightarrow> string list \<Rightarrow> string list \<Rightarrow> string \<Rightarrow> jobs \<Rightarrow> string list \<times> jobs" where
  "reap_lost t names on_hour runner db =
     (let lost = filter (lapsed t runner db) (job_runs db)
      in (map rn_job lost,
          db\<lparr>job_runs := map (\<lambda>r. if lapsed t runner db r then end_run t ''lost'' r else r) (job_runs db),
             job_rows := map (\<lambda>(n, j). (n, case filter (\<lambda>r. rn_job r = n) lost of [] \<Rightarrow> j
                 | r # _ \<Rightarrow> reaped_row t names on_hour db r n j)) (job_rows db)\<rparr>))"

definition earliest :: "rat option \<Rightarrow> rat option \<Rightarrow> rat" where
  "earliest a b = (case (a, b) of (None, None) \<Rightarrow> 0 | (Some x, None) \<Rightarrow> x | (None, Some y) \<Rightarrow> y | (Some x, Some y) \<Rightarrow> min x y)"

definition is_due :: "rat \<Rightarrow> string list \<Rightarrow> string \<Rightarrow> jobs \<Rightarrow> string \<Rightarrow> job_row \<Rightarrow> bool" where
  "is_due t names runner db n j \<longleftrightarrow> n \<in> set names \<and> jr_runner j = runner \<and> jr_registry j \<noteq> None
     \<and> jr_retired j = None \<and> free t j \<and> (due_now t j \<or> past t (jr_requested j))
     \<and> \<not> (\<exists>r \<in> set (job_runs db). open_run r \<and> (rn_job r = n \<or> (jr_resource j \<noteq> None \<and> rn_resource r = jr_resource j)))"

definition due_jobs :: "rat \<Rightarrow> string list \<Rightarrow> string \<Rightarrow> jobs \<Rightarrow> string list" where
  "due_jobs t names runner db =
     map fst (sort_key (\<lambda>(n, j). (earliest (if unpaused t j then jr_due j else None) (jr_requested j), n))
       (filter (\<lambda>(n, j). is_due t names runner db n j) (job_rows db)))"

datatype refusal = No_row | Not_ours string | Retired | Waiting "string option" "rat option"

definition request :: "rat \<Rightarrow> string \<Rightarrow> string list \<Rightarrow> string \<Rightarrow> string \<Rightarrow> jobs \<Rightarrow> refusal option \<times> jobs" where
  "request t name args asked_by runner db =
     (case map_of (job_rows db) name of
        None \<Rightarrow> (Some No_row, db)
      | Some j \<Rightarrow>
          if jr_runner j = runner \<and> jr_registry j \<noteq> None \<and> jr_retired j = None \<and> jr_requested j = None
          then (None, db\<lparr>job_rows := update_rows (\<lambda>n _. n = name)
                 (\<lambda>j. j\<lparr>jr_requested := Some t, jr_req_args := (if args = [] then None else Some args),
                        jr_req_by := Some asked_by\<rparr>) (job_rows db)\<rparr>)
          else (Some (if jr_runner j \<noteq> runner \<or> jr_registry j = None then Not_ours (jr_runner j)
                      else if jr_retired j \<noteq> None then Retired
                      else Waiting (jr_req_by j) (jr_requested j)), db))"

definition pause :: "rat \<Rightarrow> string \<Rightarrow> rat option \<Rightarrow> string \<Rightarrow> string \<Rightarrow> jobs \<Rightarrow> bool \<times> jobs" where
  "pause t name until note asked_by db =
     (map_of (job_rows db) name \<noteq> None,
      db\<lparr>job_rows := update_rows (\<lambda>n _. n = name)
        (\<lambda>j. j\<lparr>jr_paused := Some (case until of None \<Rightarrow> t | Some u \<Rightarrow> u), jr_pause_note := Some note,
               jr_paused_by := Some asked_by\<rparr>) (job_rows db)\<rparr>)"

definition prune_runs :: "rat \<Rightarrow> int \<Rightarrow> jobs \<Rightarrow> nat \<times> jobs" where
  "prune_runs t days db =
     (let old = (\<lambda>r. case rn_ended r of None \<Rightarrow> False | Some e \<Rightarrow> e < t - of_int (days * 86400))
      in (length (filter old (job_runs db)), db\<lparr>job_runs := filter (\<lambda>r. \<not> old r) (job_runs db)\<rparr>))"

end
