(* ===== verification/Job_Lease_Laws.thy ===== *)
theory Job_Lease_Laws
  imports Job_Lease
begin

text \<open>
  What the leases promise: the tables and the holders' own objects as one system whose steps are the
  calls, its invariant, the exclusion of two unfenced holders, and the bounds of a schedule.
\<close>

section \<open>The lease of a row\<close>

definition lease_of :: "jobs \<Rightarrow> string \<Rightarrow> (string option \<times> rat option) option" where
  "lease_of db n = map_option (\<lambda>j. (jr_holder j, jr_expires j)) (map_of (job_rows db) n)"

lemma map_of_map_rows: "map_of (map (\<lambda>(n, j). (n, f n j)) d) k = map_option (f k) (map_of d k)"
  by (induction d) auto

lemma lease_of_update_rows:
  assumes "\<And>j. (jr_holder (f j), jr_expires (f j)) = (jr_holder j, jr_expires j)"
  shows "lease_of (db\<lparr>job_rows := update_rows P f (job_rows db)\<rparr>) n = lease_of db n"
  using assms by (cases "map_of (job_rows db) n") (auto simp: lease_of_def)

text \<open>A table row stands behind a hold until past the hold's fence.\<close>

definition backed :: "jobs \<Rightarrow> 'a hold_scheme \<Rightarrow> bool" where
  "backed db h \<longleftrightarrow> (\<exists>e. lease_of db (h_job h) = Some (Some (h_holder h), Some e) \<and> h_fence h + of_int FENCE_MARGIN_S \<le> e)"

lemma backed_cong: "lease_of db' (h_job h) = lease_of db (h_job h) \<Longrightarrow> backed db' h = backed db h"
  by (simp add: backed_def)

lemma backed_not_free:
  assumes "backed db h" "t < h_fence h" "map_of (job_rows db) (h_job h) = Some j"
  shows "\<not> free t j" "held_by t (h_holder h) j"
  using assms by (auto simp: backed_def lease_of_def free_def held_by_def FENCE_MARGIN_S_def)

section \<open>Runs\<close>

definition open_jobs :: "run list \<Rightarrow> string list" where
  "open_jobs rs = map rn_job (filter open_run rs)"

definition open_resources :: "run list \<Rightarrow> string list" where
  "open_resources rs = List.map_filter rn_resource (filter open_run rs)"

definition runs_ok :: "jobs \<Rightarrow> bool" where
  "runs_ok db \<longleftrightarrow> distinct (map rn_id (job_runs db)) \<and> (\<forall>r \<in> set (job_runs db). rn_id r < next_run db)
     \<and> distinct (open_jobs (job_runs db)) \<and> distinct (open_resources (job_runs db))"



lemma closed_open:
  "(\<And>r. \<not> open_run (f r)) \<Longrightarrow> filter open_run (map (\<lambda>r. if P r then f r else r) rs) = filter (\<lambda>r. open_run r \<and> \<not> P r) rs"
  by (induction rs) auto

lemma open_jobs_filter: "distinct (map g (filter open_run rs)) \<Longrightarrow> distinct (map g (filter (\<lambda>r. open_run r \<and> Q r) rs))"
  by (induction rs) (auto split: if_splits)

lemma open_resources_filter:
  "distinct (open_resources rs) \<Longrightarrow> distinct (List.map_filter rn_resource (filter (\<lambda>r. open_run r \<and> Q r) rs))"
  unfolding open_resources_def
  by (metis (no_types, lifting) distinct_map_filter_opt filter_cong filter_filter)

lemma runs_ok_closed:
  assumes "runs_ok db" and f: "\<And>r. rn_id (f r) = rn_id r \<and> \<not> open_run (f r)"
    and "job_runs db' = map (\<lambda>r. if P r then f r else r) (job_runs db)" "next_run db' = next_run db"
  shows "runs_ok db'"
proof -
  have "map rn_id (job_runs db') = map rn_id (job_runs db)" using assms by simp
  then have "distinct (map rn_id (job_runs db'))" using assms(1) by (simp only: runs_ok_def)
  moreover have "\<forall>r \<in> set (job_runs db'). rn_id r < next_run db'" using assms by (auto simp: runs_ok_def)
  moreover have "distinct (open_jobs (job_runs db'))"
    using assms by (simp add: open_jobs_def closed_open open_jobs_filter runs_ok_def)
  moreover have "distinct (open_resources (job_runs db'))"
    using assms open_resources_filter [of "job_runs db" "\<lambda>r. \<not> P r"]
    by (simp add: open_resources_def closed_open runs_ok_def)
  ultimately show ?thesis unfolding runs_ok_def by blast
qed

lemma runs_ok_pruned:
  assumes "runs_ok db" "job_runs db' = filter Q (job_runs db)" "next_run db' = next_run db"
  shows "runs_ok db'"
proof -
  have "distinct (open_jobs (filter Q (job_runs db)))"
    using assms(1) open_jobs_filter [of rn_job "job_runs db" Q]
    by (simp add: open_jobs_def runs_ok_def conj_commute)
  moreover have "distinct (open_resources (filter Q (job_runs db)))"
    using assms(1) open_resources_filter [of "job_runs db" Q]
    by (simp add: open_resources_def runs_ok_def conj_commute)
  ultimately show ?thesis using assms by (auto simp: runs_ok_def distinct_map_filter)
qed

lemma runs_ok_opened:
  assumes "runs_ok db" "open_new r db = Some db'" "rn_id r = next_run db" "open_run r"
  shows "runs_ok db'"
proof -
  have eq: "job_runs db' = job_runs db @ [r]" "next_run db' = next_run db + 1"
    using assms(2) by (auto simp: open_new_def split: if_splits)
  have no: "\<And>x. x \<in> set (job_runs db) \<Longrightarrow> open_run x \<Longrightarrow> rn_job x \<noteq> rn_job r"
    and nr: "\<And>x. x \<in> set (job_runs db) \<Longrightarrow> open_run x \<Longrightarrow> rn_resource r \<noteq> None \<Longrightarrow> rn_resource x \<noteq> rn_resource r"
    using assms(2) by (auto simp: open_new_def split: if_splits)
  have "distinct (open_jobs (job_runs db'))"
  proof -
    have "rn_job r \<notin> set (open_jobs (job_runs db))" using no by (fastforce simp: open_jobs_def)
    then show ?thesis using assms by (simp add: eq open_jobs_def runs_ok_def)
  qed
  moreover have "distinct (open_resources (job_runs db'))"
  proof (cases "rn_resource r")
    case None
    then show ?thesis using assms by (simp add: eq open_resources_def runs_ok_def List.map_filter_def)
  next
    case (Some x)
    then have "x \<notin> set (open_resources (job_runs db))"
      using nr by (auto simp: open_resources_def set_map_filter)
    then show ?thesis using assms Some by (simp add: eq open_resources_def runs_ok_def List.map_filter_def)
  qed
  moreover have "distinct (map rn_id (job_runs db'))" using assms by (auto simp: eq runs_ok_def)
  ultimately show ?thesis using assms by (auto simp: eq runs_ok_def less_le_trans)
qed

lemma open_resources_inj:
  "runs_ok db \<Longrightarrow> r \<in> set (job_runs db) \<Longrightarrow> r' \<in> set (job_runs db) \<Longrightarrow> open_run r \<Longrightarrow> open_run r' \<Longrightarrow>
     rn_resource r = rn_resource r' \<Longrightarrow> rn_resource r \<noteq> None \<Longrightarrow> r = r'"
  using map_filter_inj [of rn_resource "filter open_run (job_runs db)" r r'] by (auto simp: runs_ok_def open_resources_def)

lemma open_jobs_inj:
  "runs_ok db \<Longrightarrow> r \<in> set (job_runs db) \<Longrightarrow> r' \<in> set (job_runs db) \<Longrightarrow> open_run r \<Longrightarrow> open_run r' \<Longrightarrow>
     rn_job r = rn_job r' \<Longrightarrow> r = r'"
  by (auto simp: runs_ok_def open_jobs_def distinct_map inj_on_def)

section \<open>What a claim leaves\<close>

text \<open>The rows a claim takes the lease from: a sibling whose run on the resource it closed as lost.\<close>

definition cleared :: "rat \<Rightarrow> jobs \<Rightarrow> string \<Rightarrow> string option \<Rightarrow> string \<Rightarrow> bool" where
  "cleared t db name res n \<longleftrightarrow> n \<noteq> name \<and> (\<exists>r \<in> set (job_runs db). rn_job r = n \<and> lost_run t db name res r)"

lemma close_lost_lease:
  "lease_of (close_lost t name res db) n = (if cleared t db name res n then map_option (\<lambda>_. (None, None)) (lease_of db n) else lease_of db n)"
  unfolding lease_of_def close_lost_def Let_def cleared_def
  by (simp add: map_of_map_rows option.map_comp comp_def) (auto intro!: option.map_cong0)

lemma close_lost_runs [simp]:
  "job_runs (close_lost t name res db) = map (\<lambda>r. if lost_run t db name res r then end_run t ''lost'' r else r) (job_runs db)"
  "next_run (close_lost t name res db) = next_run db"
  by (simp_all add: close_lost_def Let_def)

lemma end_run_simps [simp]: "rn_id (end_run t oc r) = rn_id r" "rn_job (end_run t oc r) = rn_job r"
  "\<not> open_run (end_run t oc r)" "rn_holder (end_run t oc r) = rn_holder r" "rn_resource (end_run t oc r) = rn_resource r"
  by (auto simp: end_run_def open_run_def)

lemma close_lost_runs_ok: "runs_ok db \<Longrightarrow> runs_ok (close_lost t name res db)"
  by (rule runs_ok_closed [where f = "end_run t ''lost''" and P = "lost_run t db name res"]) auto

text \<open>The table with the row taken, before runs are looked at.\<close>

definition taken :: "rat \<Rightarrow> string \<Rightarrow> string \<Rightarrow> int \<Rightarrow> jobs \<Rightarrow> jobs" where
  "taken t name holder ttl db = db\<lparr>job_rows := update_rows (\<lambda>n _. n = name) (take t holder ttl) (job_rows db)\<rparr>"

lemma taken_lease:
  "lease_of (taken t name holder ttl db) n =
     (if n = name then map_option (\<lambda>_. (Some holder, Some (t + of_int ttl))) (lease_of db n) else lease_of db n)"
  by (auto simp: lease_of_def taken_def take_def option.map_comp comp_def)

lemma claimE:
  assumes "claim sent t name holder ttl v db = (Some l, db')"
  obtains j r db2 db3 where
    "map_of (job_rows db) name = Some j" "claimable t db name j"
    "db2 = close_lost t name (jr_resource j) (taken t name holder ttl db)"
    "open_new r db2 = Some db3" "open_run r" "rn_id r = next_run db" "rn_job r = name" "rn_holder r = holder"
    "rn_resource r = jr_resource j" "job_runs db3 = job_runs db2 @ [r]" "next_run db3 = next_run db + 1"
    "rn_args r = (if past t (jr_requested j) then jr_req_args j else None)" "rn_started r = t"
    "l = \<lparr>h_job = name, h_holder = holder, h_ttl = ttl, h_fence = fence_after sent ttl, le_run = next_run db,
          le_args = (if past t (jr_requested j) then jr_req_args j else None),
          le_by = (if past t (jr_requested j) then jr_req_by j else None), le_due_slot = due_now t j\<rparr>"
    "db' = db3\<lparr>job_rows := update_rows (\<lambda>n _. n = name \<and> past t (jr_requested j))
                 (\<lambda>j. j\<lparr>jr_requested := None, jr_req_args := None, jr_req_by := None\<rparr>) (job_rows db2)\<rparr>"
proof -
  obtain j where j: "map_of (job_rows db) name = Some j"
    using assms by (auto simp: claim_def split: option.splits)
  have cl: "claimable t db name j" using assms j by (auto simp: claim_def split: if_splits)
  let ?db2 = "close_lost t name (jr_resource j) (taken t name holder ttl db)"
  let ?q = "past t (jr_requested j)"
  let ?r = "\<lparr>rn_id = next_run ?db2, rn_job = name, rn_holder = holder, rn_version = v, rn_resource = jr_resource j,
     rn_args = (if ?q then jr_req_args j else None), rn_by = (if ?q then jr_req_by j else None), rn_started = t,
     rn_ended = None, rn_outcome = None, rn_exit = None\<rparr>"
  obtain db3 where o: "open_new ?r ?db2 = Some db3"
    using assms j cl by (cases "open_new ?r ?db2") (auto simp: claim_def Let_def taken_def)
  have o3: "job_runs db3 = job_runs ?db2 @ [?r]" "next_run db3 = next_run db + 1" "job_rows db3 = job_rows ?db2"
    using o by (auto simp: open_new_def taken_def split: if_splits)
  have n: "next_run ?db2 = next_run db" by (simp add: taken_def)
  have id: "update_rows (\<lambda>n _. False) f d = d" for f and d :: "(string, job_row) dict"
    by (rule update_rows_none) simp
  have r: "(Some l, db') = (Some \<lparr>h_job = name, h_holder = holder, h_ttl = ttl, h_fence = fence_after sent ttl, le_run = next_run db,
          le_args = (if ?q then jr_req_args j else None), le_by = (if ?q then jr_req_by j else None), le_due_slot = due_now t j\<rparr>,
      if ?q then db3\<lparr>job_rows := update_rows (\<lambda>n _. n = name)
            (\<lambda>j. j\<lparr>jr_requested := None, jr_req_args := None, jr_req_by := None\<rparr>) (job_rows db3)\<rparr> else db3)"
    using assms j cl o by (simp add: claim_def Let_def taken_def)
  show thesis
    by (rule that [OF j cl refl o]) (use r o3 n in \<open>auto simp: open_run_def id\<close>)
qed

lemma claim_refused: "claim sent t name holder ttl v db = (None, db') \<Longrightarrow> db' = db"
  by (auto simp: claim_def Let_def split: option.splits if_splits)

lemma claim_lease:
  assumes "claim sent t name holder ttl v db = (Some l, db')"
  shows "lease_of db' n = (if n = name then Some (Some holder, Some (t + of_int ttl))
           else if cleared t (taken t name holder ttl db) name (jr_resource (the (map_of (job_rows db) name))) n
           then map_option (\<lambda>_. (None, None)) (lease_of db n) else lease_of db n)"
  using assms
proof (rule claimE, goal_cases)
  case (1 j r db2 db3)
  have "lease_of db' n = lease_of db2 n"
    unfolding 1(15) lease_of_def by (auto simp: option.map_comp comp_def intro!: option.map_cong0)
  moreover have "lease_of db n \<noteq> None" if "n = name" using 1(1) that by (simp add: lease_of_def)
  moreover have "\<not> cleared t db1 n res n" for db1 res by (simp add: cleared_def)
  ultimately show ?case using 1(1) by (auto simp: 1(3) close_lost_lease taken_lease)
qed

section \<open>Slots\<close>

lemma grid_next:
  fixes t :: rat
  assumes "0 < c"
  shows "t < of_int ((\<lfloor>(t - of_int o_s) / of_int c\<rfloor> + 1) * c + o_s)"
    "of_int ((\<lfloor>(t - of_int o_s) / of_int c\<rfloor> + 1) * c + o_s) \<le> t + of_int c"
proof -
  let ?k = "\<lfloor>(t - of_int o_s) / of_int c\<rfloor>"
  have c: "(0::rat) < of_int c" using assms by simp
  have "of_int ?k * of_int c \<le> t - of_int o_s" "t - of_int o_s < (of_int ?k + 1) * of_int c"
    using c floor_correct [of "(t - of_int o_s) / of_int c"]
    by (simp_all add: pos_le_divide_eq [symmetric] pos_divide_less_eq [symmetric])
  then show "t < of_int ((?k + 1) * c + o_s)" "of_int ((?k + 1) * c + o_s) \<le> t + of_int c"
    by (simp_all add: algebra_simps)
qed

lemma next_slot_bounds: "0 < jr_cadence j \<Longrightarrow> t < next_slot t j \<and> next_slot t j \<le> t + of_int (jr_cadence j)"
  using grid_next by (simp add: next_slot_def)

lemma next_slot_grid: "\<exists>k. next_slot t j = of_int (k * jr_cadence j + offset_of j)"
  unfolding next_slot_def by blast

lemma day_slot_after: "t < day_slot t j"
  using grid_next(1) [where c = 86400] by (simp add: day_slot_def Let_def)

lemma backoff_s_pos: "0 < backoff_s j"
  by (simp add: backoff_s_def BACKOFF_BASE_S_def)

lemma backoff_bounds:
  assumes "0 < jr_cadence j"
  shows "t < backoff t j" "backoff t j \<le> next_slot t j" "backoff t j \<le> t + of_int (backoff_s j)"
  using assms next_slot_bounds [of j t] backoff_s_pos [of j] by (auto simp: backoff_def min_def)

lemma retry_bounds:
  assumes "0 < jr_cadence j"
  shows "t < retry t j" "retry t j \<le> next_slot t j"
  using assms next_slot_bounds [of j t] backoff_s_pos [of j] by (auto simp: retry_def min_def max_def)

lemma released_due_bounds:
  assumes "0 < jr_cadence j" "jr_due j = Some d" "kind \<in> set DUE_KINDS" "\<not> (rq \<and> \<not> ds)"
  shows "\<exists>d'. released_due t kind rq ds j = Some d' \<and> t \<le> d' \<and> (kind \<noteq> ''now'' \<longrightarrow> t < d')
      \<and> (if kind = ''more'' then d' = t + of_int MORE_REMAINS_S else d' \<le> next_slot t j)
      \<and> (kind = ''backoff'' \<longrightarrow> d' \<le> t + of_int (backoff_s j))"
  using assms next_slot_bounds [OF assms(1), of t] backoff_bounds [OF assms(1), of t] retry_bounds [OF assms(1), of t]
    day_slot_after [of t j]
  by (auto simp: released_due_def DUE_KINDS_def MORE_REMAINS_S_def min_def)

section \<open>When the run opens\<close>

lemma open_new_iff:
  "(\<exists>db'. open_new r db = Some db') \<longleftrightarrow>
     \<not> (\<exists>x \<in> set (job_runs db). open_run x \<and> (rn_job x = rn_job r \<or> (rn_resource r \<noteq> None \<and> rn_resource x = rn_resource r)))"
  by (auto simp: open_new_def)

lemma claim_result:
  assumes "map_of (job_rows db) name = Some j" "claimable t db name j"
  shows "(\<exists>l db'. claim sent t name holder ttl v db = (Some l, db')) \<longleftrightarrow>
     \<not> (\<exists>x \<in> set (job_runs (close_lost t name (jr_resource j) (taken t name holder ttl db))). open_run x
          \<and> (rn_job x = name \<or> (jr_resource j \<noteq> None \<and> rn_resource x = jr_resource j)))"
  using assms by (simp add: claim_def Let_def taken_def [symmetric] open_new_def split: option.splits)

lemma take_row: "map_of (job_rows db) name = Some j \<Longrightarrow> map_of (job_rows (taken t name holder ttl db)) name = Some (take t holder ttl j)"
  by (simp add: taken_def)

end
