(* ===== verification/Job_Lease_System.thy ===== *)
theory Job_Lease_System
  imports Job_Lease_Laws
begin

text \<open>
  The runner's tables and the holders of \<^verbatim>\<open>scraper/job_lease.py\<close> as one system: any holder may make
  any call at any moment, in any order, or die and never release. \<open>lanes\<close> names the rows \<open>held\<close> takes:
  no scheduled job has such a name. A process claims a job only when it is not still running it (the
  runner's own table of running jobs), and a hold whose release was answered is not used again.
\<close>

record job_sys =
  sy_now :: rat
  sy_db :: jobs
  sy_leases :: "lease list"
  sy_holds :: "hold list"

definition boot :: "rat \<Rightarrow> job_sys" where
  "boot t = \<lparr>sy_now = t, sy_db = \<lparr>job_rows = [], job_runs = [], next_run = 1\<rparr>, sy_leases = [], sy_holds = []\<rparr>"

definition hold_key :: "'a hold_scheme \<Rightarrow> string \<times> string" where
  "hold_key h = (h_job h, h_holder h)"

abbreviation set_db :: "job_sys \<Rightarrow> jobs \<Rightarrow> job_sys" where
  "set_db s db \<equiv> s\<lparr>sy_db := db\<rparr>"

inductive job_step :: "string set \<Rightarrow> job_sys \<Rightarrow> job_sys \<Rightarrow> bool" for lanes :: "string set" where
  tick: "sy_now s \<le> t \<Longrightarrow> job_step lanes s (s\<lparr>sy_now := t\<rparr>)"
| claimed: "name \<notin> lanes \<Longrightarrow> (name, holder) \<notin> hold_key ` set (sy_leases s) \<Longrightarrow> sent \<le> sy_now s \<Longrightarrow>
    claim sent (sy_now s) name holder ttl v (sy_db s) = (Some l, db') \<Longrightarrow>
    job_step lanes s (set_db s db'\<lparr>sy_leases := sy_leases s @ [l]\<rparr>)"
| refused: "claim sent (sy_now s) name holder ttl v (sy_db s) = (None, db') \<Longrightarrow> job_step lanes s (set_db s db')"
| renewed: "l \<in> set (sy_leases s) \<Longrightarrow> sent \<le> sy_now s \<Longrightarrow> renew sent (sy_now s) l (sy_db s) = (b, l', db') \<Longrightarrow>
    job_step lanes s (set_db s db'\<lparr>sy_leases := map (\<lambda>x. if x = l then l' else x) (sy_leases s)\<rparr>)"
| released: "l \<in> set (sy_leases s) \<Longrightarrow> release (sy_now s) l outcome due error code (sy_db s) = Some (b, db') \<Longrightarrow>
    job_step lanes s (set_db s db'\<lparr>sy_leases := removeAll l (sy_leases s)\<rparr>)"
| died: "job_step lanes s (s\<lparr>sy_leases := removeAll l (sy_leases s)\<rparr>)"
| entered: "name \<in> lanes \<Longrightarrow> (name, holder) \<notin> hold_key ` set (sy_holds s) \<Longrightarrow> sent \<le> sy_now s \<Longrightarrow>
    held_enter sent (sy_now s) name cadence runner ttl holder (sy_db s) = (Some h, db') \<Longrightarrow>
    job_step lanes s (set_db s db'\<lparr>sy_holds := sy_holds s @ [h]\<rparr>)"
| busy: "held_enter sent (sy_now s) name cadence runner ttl holder (sy_db s) = (None, db') \<Longrightarrow>
    job_step lanes s (set_db s db')"
| lane_renewed: "h \<in> set (sy_holds s) \<Longrightarrow> sent \<le> sy_now s \<Longrightarrow> renew sent (sy_now s) h (sy_db s) = (b, h', db') \<Longrightarrow>
    job_step lanes s (set_db s db'\<lparr>sy_holds := map (\<lambda>x. if x = h then h' else x) (sy_holds s)\<rparr>)"
| lane_released: "h \<in> set (sy_holds s) \<Longrightarrow> release_hold (sy_now s) h outcome error (sy_db s) = Some (b, db') \<Longrightarrow>
    job_step lanes s (set_db s db'\<lparr>sy_holds := removeAll h (sy_holds s)\<rparr>)"
| lane_died: "job_step lanes s (s\<lparr>sy_holds := removeAll h (sy_holds s)\<rparr>)"
| registers: "job_step lanes s (set_db s (snd (register (sy_now s) runner entries (sy_db s))))"
| retires: "job_step lanes s (set_db s (snd (retire_jobs (sy_now s) runner names (sy_db s))))"
| reaps: "job_step lanes s (set_db s (snd (reap_lost (sy_now s) names on_hour runner (sy_db s))))"
| requests: "job_step lanes s (set_db s (snd (request (sy_now s) name args asked_by runner (sy_db s))))"
| pauses: "job_step lanes s (set_db s (snd (pause (sy_now s) name until note asked_by (sy_db s))))"
| prunes: "job_step lanes s (set_db s (snd (prune_runs (sy_now s) days (sy_db s))))"

inductive job_reaches :: "string set \<Rightarrow> job_sys \<Rightarrow> bool" for lanes :: "string set" where
  booted: "job_reaches lanes (boot t)"
| stepped: "job_reaches lanes s \<Longrightarrow> job_step lanes s s' \<Longrightarrow> job_reaches lanes s'"

section \<open>The invariant\<close>

definition holds_backed :: "rat \<Rightarrow> jobs \<Rightarrow> 'a hold_scheme list \<Rightarrow> bool" where
  "holds_backed t db hs \<longleftrightarrow> distinct (map hold_key hs) \<and> (\<forall>h \<in> set hs. fenced t h \<or> backed db h)"

text \<open>An open run belongs to a scheduled job, and whoever holds its row opened it.\<close>

definition run_rowed :: "string set \<Rightarrow> jobs \<Rightarrow> run \<Rightarrow> bool" where
  "run_rowed lanes db r \<longleftrightarrow> rn_job r \<notin> lanes \<and>
     (\<exists>h e. lease_of db (rn_job r) = Some (h, e) \<and> (h = None \<or> h = Some (rn_holder r)))"

definition has_run :: "jobs \<Rightarrow> lease \<Rightarrow> bool" where
  "has_run db l \<longleftrightarrow> (\<exists>r \<in> set (job_runs db). open_run r \<and> rn_id r = le_run l \<and> rn_job r = h_job l \<and> rn_holder r = h_holder l)"

definition sys_ok :: "string set \<Rightarrow> job_sys \<Rightarrow> bool" where
  "sys_ok lanes s \<longleftrightarrow>
     runs_ok (sy_db s)
     \<and> holds_backed (sy_now s) (sy_db s) (sy_leases s) \<and> holds_backed (sy_now s) (sy_db s) (sy_holds s)
     \<and> (\<forall>l \<in> set (sy_leases s). h_job l \<notin> lanes \<and> le_run l < next_run (sy_db s) \<and> (row_held (sy_now s) (sy_db s) l \<longrightarrow> has_run (sy_db s) l))
     \<and> distinct (map le_run (sy_leases s))
     \<and> (\<forall>h \<in> set (sy_holds s). h_job h \<in> lanes)
     \<and> (\<forall>r \<in> set (job_runs (sy_db s)). open_run r \<longrightarrow> run_rowed lanes (sy_db s) r)"

lemma sys_okI:
  assumes "runs_ok (sy_db s)"
    "distinct (map hold_key (sy_leases s))" "distinct (map hold_key (sy_holds s))" "distinct (map le_run (sy_leases s))"
    "\<And>l. l \<in> set (sy_leases s) \<Longrightarrow> h_job l \<notin> lanes \<and> le_run l < next_run (sy_db s)"
    "\<And>l. l \<in> set (sy_leases s) \<Longrightarrow> sy_now s < h_fence l \<Longrightarrow> backed (sy_db s) l"
    "\<And>l. l \<in> set (sy_leases s) \<Longrightarrow> row_held (sy_now s) (sy_db s) l \<Longrightarrow> has_run (sy_db s) l"
    "\<And>h. h \<in> set (sy_holds s) \<Longrightarrow> h_job h \<in> lanes"
    "\<And>h. h \<in> set (sy_holds s) \<Longrightarrow> sy_now s < h_fence h \<Longrightarrow> backed (sy_db s) h"
    "\<And>r. r \<in> set (job_runs (sy_db s)) \<Longrightarrow> open_run r \<Longrightarrow> run_rowed lanes (sy_db s) r"
  shows "sys_ok lanes s"
  using assms unfolding sys_ok_def holds_backed_def fenced_def by (meson not_le)

lemma sys_okD:
  assumes "sys_ok lanes s"
  shows "runs_ok (sy_db s)"
    "distinct (map hold_key (sy_leases s))" "distinct (map hold_key (sy_holds s))" "distinct (map le_run (sy_leases s))"
    "\<And>l. l \<in> set (sy_leases s) \<Longrightarrow> h_job l \<notin> lanes \<and> le_run l < next_run (sy_db s)"
    "\<And>l. l \<in> set (sy_leases s) \<Longrightarrow> sy_now s < h_fence l \<Longrightarrow> backed (sy_db s) l"
    "\<And>l. l \<in> set (sy_leases s) \<Longrightarrow> row_held (sy_now s) (sy_db s) l \<Longrightarrow> has_run (sy_db s) l"
    "\<And>h. h \<in> set (sy_holds s) \<Longrightarrow> h_job h \<in> lanes"
    "\<And>h. h \<in> set (sy_holds s) \<Longrightarrow> sy_now s < h_fence h \<Longrightarrow> backed (sy_db s) h"
    "\<And>r. r \<in> set (job_runs (sy_db s)) \<Longrightarrow> open_run r \<Longrightarrow> run_rowed lanes (sy_db s) r"
  using assms unfolding sys_ok_def holds_backed_def fenced_def by (meson not_le)+

lemma backed_mono:
  "backed db h \<Longrightarrow> (\<And>n. lease_of db n \<noteq> None \<Longrightarrow> lease_of db' n = lease_of db n) \<Longrightarrow> backed db' h"
  by (fastforce simp: backed_def)

lemma row_held_lease:
  "row_held t db h \<longleftrightarrow> (\<exists>e. lease_of db (h_job h) = Some (Some (h_holder h), Some e) \<and> t \<le> e)"
  by (auto simp: row_held_def lease_of_def held_by_def split: option.splits)

lemma backed_held: "backed db h \<Longrightarrow> t < h_fence h \<Longrightarrow> row_held t db h"
  by (auto simp: backed_def row_held_lease FENCE_MARGIN_S_def)

lemma row_held_cong: "lease_of db' (h_job h) = lease_of db (h_job h) \<Longrightarrow> row_held t db' h = row_held t db h"
  by (simp add: row_held_lease)

text \<open>A call that changes no lease and closes no run keeps the invariant: most of the registry's.\<close>

lemma sys_ok_frame:
  assumes ok: "sys_ok lanes s"
    and run: "job_runs db = filter Q (job_runs (sy_db s))" and Q: "\<And>r. open_run r \<Longrightarrow> Q r"
    and nx: "next_run db = next_run (sy_db s)"
    and ls: "\<And>n. lease_of db n = lease_of (sy_db s) n \<or> lease_of (sy_db s) n = None \<and> lease_of db n = Some (None, None)"
  shows "sys_ok lanes (set_db s db)"
proof -
  have ls': "\<And>n. lease_of (sy_db s) n \<noteq> None \<Longrightarrow> lease_of db n = lease_of (sy_db s) n" using ls by fastforce
  note bk = backed_mono [OF _ ls']
  have hr: "has_run db l" if "has_run (sy_db s) l" for l
    using that Q by (auto simp: has_run_def run)
  have rh: "row_held t (sy_db s) l" if "row_held t db l" for t and l :: lease
    using that ls [of "h_job l"] by (auto simp: row_held_lease)
  have rr: "run_rowed lanes db r" if "run_rowed lanes (sy_db s) r" for r
    using that ls' [of "rn_job r"] by (auto simp: run_rowed_def)
  note D = sys_okD [OF ok]
  show ?thesis
  proof (rule sys_okI, goal_cases)
    case 1 then show ?case using runs_ok_pruned [OF D(1) run nx] by simp
  qed (use D hr rh rr in \<open>auto simp: run nx intro!: bk\<close>)
qed

lemma sys_ok_subset:
  assumes "sys_ok lanes s"
  shows "sys_ok lanes (s\<lparr>sy_leases := filter P (sy_leases s)\<rparr>)" "sys_ok lanes (s\<lparr>sy_holds := filter P' (sy_holds s)\<rparr>)"
  using assms unfolding sys_ok_def holds_backed_def by (auto simp: distinct_map_filter)

section \<open>The calls of the registry\<close>

lemma register_one_frame:
  "job_runs (snd (register_one t runner e (out, db))) = job_runs db
   \<and> next_run (snd (register_one t runner e (out, db))) = next_run db
   \<and> (lease_of (snd (register_one t runner e (out, db))) n = lease_of db n
      \<or> lease_of db n = None \<and> lease_of (snd (register_one t runner e (out, db))) n = Some (None, None))"
  by (auto simp: register_one_def Let_def lease_of_def update_conv registered_row_def lane_row_def split: option.splits)

lemma register_frame:
  "job_runs (snd (register t runner es db)) = job_runs db
   \<and> next_run (snd (register t runner es db)) = next_run db
   \<and> (lease_of (snd (register t runner es db)) n = lease_of db n
      \<or> lease_of db n = None \<and> lease_of (snd (register t runner es db)) n = Some (None, None))"
proof -
  have "job_runs (snd (fold (register_one t runner) es (out, db))) = job_runs db
      \<and> next_run (snd (fold (register_one t runner) es (out, db))) = next_run db
      \<and> (lease_of (snd (fold (register_one t runner) es (out, db))) n = lease_of db n
         \<or> lease_of db n = None \<and> lease_of (snd (fold (register_one t runner) es (out, db))) n = Some (None, None))" for out
  proof (induction es arbitrary: out db)
    case (Cons e es)
    obtain o' db1 where o: "register_one t runner e (out, db) = (o', db1)" by fastforce
    show ?case using register_one_frame [of t runner e out db n] Cons [of o' db1] by (auto simp: o)
  qed simp
  then show ?thesis by (simp add: register_def)
qed

lemma register_ok: "sys_ok lanes s \<Longrightarrow> sys_ok lanes (set_db s (snd (register t runner es (sy_db s))))"
  by (rule sys_ok_frame [where Q = "\<lambda>_. True"]) (use register_frame in auto)

lemma retire_ok: "sys_ok lanes s \<Longrightarrow> sys_ok lanes (set_db s (snd (retire_jobs t runner names (sy_db s))))"
  by (rule sys_ok_frame [where Q = "\<lambda>_. True"]) (auto simp: retire_jobs_def lease_of_update_rows)

lemma request_ok: "sys_ok lanes s \<Longrightarrow> sys_ok lanes (set_db s (snd (request t name args asked_by runner (sy_db s))))"
  by (rule sys_ok_frame [where Q = "\<lambda>_. True"])
    (auto simp: request_def lease_of_update_rows split: option.splits)

lemma pause_ok: "sys_ok lanes s \<Longrightarrow> sys_ok lanes (set_db s (snd (pause t name until note asked_by (sy_db s))))"
  by (rule sys_ok_frame [where Q = "\<lambda>_. True"]) (auto simp: pause_def lease_of_update_rows)

lemma prune_ok: "sys_ok lanes s \<Longrightarrow> sys_ok lanes (set_db s (snd (prune_runs t days (sy_db s))))"
  by (rule sys_ok_frame [where Q = "\<lambda>r. \<not> (case rn_ended r of None \<Rightarrow> False | Some e \<Rightarrow> e < t - of_int (days * 86400))"])
    (auto simp: prune_runs_def Let_def lease_of_def open_run_def)

section \<open>The calls that take a lease\<close>

lemma taken_row_other: "n \<noteq> name \<Longrightarrow> map_of (job_rows (taken t name holder ttl db)) n = map_of (job_rows db) n"
  by (cases "map_of (job_rows db) n") (simp_all add: taken_def)

lemma taken_runs [simp]: "job_runs (taken t name holder ttl db) = job_runs db" "next_run (taken t name holder ttl db) = next_run db"
  by (simp_all add: taken_def)

text \<open>A run whose holder is live is not lost to another job's claim.\<close>

lemma live_run_kept:
  assumes "row_held t db h" "h_job h \<noteq> name" "rn_job r = h_job h" "open_run r \<Longrightarrow> run_rowed lanes db r"
  shows "\<not> lost_run t (taken t name holder ttl db) name res r"
proof
  assume lost: "lost_run t (taken t name holder ttl db) name res r"
  obtain j where j: "map_of (job_rows db) (h_job h) = Some j" "held_by t (h_holder h) j" "jr_holder j = Some (h_holder h)"
    using assms(1) by (auto simp: row_held_def held_by_def split: option.splits)
  have "rn_holder r = h_holder h"
    using lost assms(3,4) j by (auto simp: lost_run_def run_rowed_def lease_of_def)
  then have "run_held t (taken t name holder ttl db) r"
    using j assms(2,3) by (simp add: run_held_def taken_row_other)
  then show False using lost assms(2,3) by (simp add: lost_run_def)
qed

lemma claim_keeps_held:
  assumes c: "claim sent t name holder ttl v db = (Some l, db')"
    and held: "row_held t db h" and rr: "\<And>r. r \<in> set (job_runs db) \<Longrightarrow> open_run r \<Longrightarrow> run_rowed lanes db r"
  shows "h_job h \<noteq> name" "lease_of db' (h_job h) = lease_of db (h_job h)"
proof -
  obtain j where "map_of (job_rows db) name = Some j" "free t j"
    by (rule claimE [OF c]) (simp add: claimable_def)
  then show n: "h_job h \<noteq> name"
    using held by (auto simp: row_held_def held_by_def free_def split: option.splits)
  have "\<not> cleared t (taken t name holder ttl db) name (jr_resource (the (map_of (job_rows db) name))) (h_job h)"
    using live_run_kept [OF held n] rr by (force simp: cleared_def)
  then show "lease_of db' (h_job h) = lease_of db (h_job h)" using n by (simp add: claim_lease [OF c])
qed

lemma claim_gains_nothing:
  assumes c: "claim sent t name holder ttl v db = (Some l, db')" and "row_held t db' h" "hold_key h \<noteq> (name, holder)"
  shows "row_held t db h"
  using assms(2,3) by (auto simp: row_held_lease claim_lease [OF c] hold_key_def split: if_splits)

lemma claim_ok:
  assumes ok: "sys_ok lanes s" and n: "name \<notin> lanes" "(name, holder) \<notin> hold_key ` set (sy_leases s)" "sent \<le> sy_now s"
    and c: "claim sent (sy_now s) name holder ttl v (sy_db s) = (Some l, db')"
  shows "sys_ok lanes (set_db s db'\<lparr>sy_leases := sy_leases s @ [l]\<rparr>)"
proof -
  note D = sys_okD [OF ok]
  let ?t = "sy_now s" and ?db = "sy_db s"
  obtain j r db2 db3 where e: "map_of (job_rows ?db) name = Some j"
    "db2 = close_lost ?t name (jr_resource j) (taken ?t name holder ttl ?db)"
    "open_new r db2 = Some db3" "open_run r" "rn_id r = next_run ?db" "rn_job r = name" "rn_holder r = holder"
    "job_runs db3 = job_runs db2 @ [r]" "next_run db3 = next_run ?db + 1"
    "l = \<lparr>h_job = name, h_holder = holder, h_ttl = ttl, h_fence = fence_after sent ttl, le_run = next_run ?db,
       le_args = le_args l, le_by = le_by l, le_due_slot = le_due_slot l\<rparr>"
    "job_runs db' = job_runs db3" "next_run db' = next_run db3"
    by (rule claimE [OF c]) auto
  have l: "h_job l = name" "h_holder l = holder" "le_run l = next_run ?db" "h_fence l = fence_after sent ttl"
    by (subst e(10), simp)+
  have runs: "job_runs db' = map (\<lambda>x. if lost_run ?t (taken ?t name holder ttl ?db) name (jr_resource j) x
      then end_run ?t ''lost'' x else x) (job_runs ?db) @ [r]"
    by (simp add: e)
  note kept = claim_keeps_held [OF c _ D(10)]
  have new: "backed db' l"
    using n(3) by (simp add: backed_def l claim_lease [OF c] fence_after_def)
  have new_run: "has_run db' l"
    unfolding has_run_def by (rule bexI [of _ r]) (use e(4-7) in \<open>auto simp: l runs\<close>)
  have rk: "runs_ok db'"
  proof -
    have "runs_ok db2" unfolding e(2) by (rule close_lost_runs_ok) (use D(1) in \<open>simp add: runs_ok_def\<close>)
    then have "runs_ok db3" by (rule runs_ok_opened [OF _ e(3)]) (simp_all add: e)
    then show ?thesis using e(11,12) by (simp add: runs_ok_def)
  qed
  have bk: "backed db' x" if "backed ?db x" "?t < h_fence x" for x :: "'a hold_scheme"
    using backed_cong [OF kept(2) [OF backed_held]] that by blast
  have hr: "has_run db' x" if x: "x \<in> set (sy_leases s)" "row_held ?t db' x" for x
  proof -
    have old: "row_held ?t ?db x"
      using claim_gains_nothing [OF c x(2)] x(1) n(2) by (metis imageI)
    obtain y where y: "y \<in> set (job_runs ?db)" "open_run y" "rn_id y = le_run x" "rn_job y = h_job x" "rn_holder y = h_holder x"
      using D(7) [OF x(1) old] by (auto simp: has_run_def)
    have "\<not> lost_run ?t (taken ?t name holder ttl ?db) name (jr_resource j) y"
      using live_run_kept [OF old kept(1) [OF old] y(4) D(10) [OF y(1)]] by simp
    then show ?thesis using y by (fastforce simp: has_run_def runs)
  qed
  have rr: "run_rowed lanes db' y" if y: "y \<in> set (job_runs db')" "open_run y" for y
  proof (cases "y = r")
    case True
    then show ?thesis by (simp add: run_rowed_def e n claim_lease [OF c])
  next
    case False
    then have y': "y \<in> set (job_runs ?db)" "\<not> lost_run ?t (taken ?t name holder ttl ?db) name (jr_resource j) y"
      using y by (auto simp: runs split: if_splits)
    note R = D(10) [OF y'(1) y(2)]
    have "rn_job y \<noteq> name"
      using y'(2) y(2) e(1) by (auto simp: lost_run_def taken_def)
    then show ?thesis using R by (auto simp: run_rowed_def claim_lease [OF c])
  qed
  show ?thesis
  proof (rule sys_okI, goal_cases)
    case 2 then show ?case using D(2) n(2) by (simp add: hold_key_def l)
  next
    case 4
    have "next_run ?db \<notin> le_run ` set (sy_leases s)" using D(5) by force
    then show ?case using D(4) by (simp add: l(3))
  next
    case (5 x)
    have nx: "next_run db' = next_run ?db + 1" by (simp add: e)
    from 5 consider "x \<in> set (sy_leases s)" | "x = l" by auto
    then show ?case
    proof cases
      case 1 then show ?thesis using D(5) [of x] by (simp add: nx)
    qed (simp add: nx l n(1))
  next
    case (6 x)
    then show ?case using bk [of x] D(6) [of x] new by auto
  next
    case (7 x)
    then show ?case using hr [of x] new_run by auto
  next
    case (9 h)
    then show ?case using backed_cong [OF kept(2) [OF backed_held]] D(9) [of h] by auto
  qed (use D rk rr in auto)
qed

lemma key_inj: "distinct (map f xs) \<Longrightarrow> x \<in> set xs \<Longrightarrow> y \<in> set xs \<Longrightarrow> x \<noteq> y \<Longrightarrow> f x \<noteq> f y"
  by (auto simp: distinct_map inj_on_def)

lemma distinct_map_upd:
  "distinct (map f xs) \<Longrightarrow> (\<And>x. x \<in> set xs \<Longrightarrow> f (g x) = f x) \<Longrightarrow> distinct (map f (map g xs))"
  by (simp add: comp_def cong: map_cong)

section \<open>The calls that give leases up\<close>

lemma run_rowed_cong:
  "run_rowed lanes db r \<Longrightarrow> map_option fst (lease_of db' (rn_job r)) = map_option fst (lease_of db (rn_job r)) \<Longrightarrow> run_rowed lanes db' r"
  by (auto simp: run_rowed_def)

lemma run_rowed_freed: "run_rowed lanes db r \<Longrightarrow> lease_of db' (rn_job r) = Some (None, None) \<Longrightarrow> run_rowed lanes db' r"
  by (auto simp: run_rowed_def)

text \<open>Leases given up, and runs closed, none of them of a holder that is still live.\<close>

lemma sys_ok_shrink:
  assumes ok: "sys_ok lanes s"
    and f: "\<And>r. rn_id (f r) = rn_id r \<and> \<not> open_run (f r)"
    and run: "job_runs db = map (\<lambda>r. if C r then f r else r) (job_runs (sy_db s))" and nx: "next_run db = next_run (sy_db s)"
    and ls: "\<And>n. lease_of db n = lease_of (sy_db s) n \<or> lease_of db n = Some (None, None)"
    and keep: "\<And>x. x \<in> set (sy_leases s) \<Longrightarrow> P x \<Longrightarrow> row_held (sy_now s) (sy_db s) x \<Longrightarrow> lease_of db (h_job x) = lease_of (sy_db s) (h_job x)"
    and keep': "\<And>x. x \<in> set (sy_holds s) \<Longrightarrow> P' x \<Longrightarrow> row_held (sy_now s) (sy_db s) x \<Longrightarrow> lease_of db (h_job x) = lease_of (sy_db s) (h_job x)"
    and runs: "\<And>x r. x \<in> set (sy_leases s) \<Longrightarrow> P x \<Longrightarrow> row_held (sy_now s) (sy_db s) x \<Longrightarrow> rn_id r = le_run x \<Longrightarrow>
      rn_job r = h_job x \<Longrightarrow> rn_holder r = h_holder x \<Longrightarrow> \<not> C r"
  shows "sys_ok lanes (set_db s db\<lparr>sy_leases := filter P (sy_leases s), sy_holds := filter P' (sy_holds s)\<rparr>)"
proof -
  note D = sys_okD [OF ok]
  have rh: "row_held t (sy_db s) l" if "row_held t db l" for t and l :: lease
    using that ls [of "h_job l"] by (auto simp: row_held_lease)
  have hr: "has_run db x" if x: "x \<in> set (sy_leases s)" "P x" "row_held (sy_now s) db x" for x
    using D(7) [OF x(1) rh [OF x(3)]] runs [OF x(1,2) rh [OF x(3)]] by (auto simp: has_run_def run)
  show ?thesis
  proof (rule sys_okI, goal_cases)
    case 1 show ?case using runs_ok_closed [OF D(1) f run nx] by simp
  next
    case (6 x) then show ?case using backed_cong [OF keep [OF _ _ backed_held]] D(6) by auto
  next
    case (9 x) then show ?case using backed_cong [OF keep' [OF _ _ backed_held]] D(9) by auto
  next
    case (10 r)
    then have r: "r \<in> set (job_runs (sy_db s))" using f by (auto simp: run split: if_splits)
    show ?case
      using ls [of "rn_job r"] run_rowed_cong [OF D(10) [OF r 10(2)]] run_rowed_freed [OF D(10) [OF r 10(2)]] by auto
  qed (use D hr in \<open>auto simp: nx distinct_map_filter\<close>)
qed

lemma still_holder_lease: "still_holder db h \<longleftrightarrow> (\<exists>e. lease_of db (h_job h) = Some (Some (h_holder h), e))"
  by (auto simp: still_holder_def lease_of_def split: option.splits)

lemma held_same_key: "still_holder db h \<Longrightarrow> row_held t db x \<Longrightarrow> h_job x = h_job h \<Longrightarrow> hold_key x = hold_key h"
  by (auto simp: still_holder_lease row_held_lease hold_key_def)

lemma released_lease:
  assumes "map_of (job_rows db) name \<noteq> None"
  shows "lease_of (db\<lparr>job_rows := update_rows (\<lambda>n _. n = name) (released_row t oc er kind rq ds) (job_rows db), job_runs := rs\<rparr>) n
    = (if n = name then Some (None, None) else lease_of db n)"
  using assms by (cases "map_of (job_rows db) n") (auto simp: lease_of_def released_row_def)

lemma releaseE:
  assumes "release t l oc due er code db = Some (b, db')"
  obtains (lost) "\<not> b" "db' = db"
  | (yes) "b" "still_holder db l" "\<And>n. lease_of db' n = (if n = h_job l then Some (None, None) else lease_of db n)"
      "job_runs db' = map (\<lambda>r. if rn_id r = le_run l \<and> open_run r then (end_run t oc r)\<lparr>rn_exit := code\<rparr> else r) (job_runs db)"
      "next_run db' = next_run db"
proof (cases "still_holder db l")
  case True
  then have "map_of (job_rows db) (h_job l) \<noteq> None" by (auto simp: still_holder_def split: option.splits)
  with True assms yes show thesis by (auto simp: release_def released_lease split: option.splits)
qed (use assms lost in \<open>auto simp: release_def split: option.splits\<close>)

lemma release_holdE:
  assumes "release_hold t h oc er db = Some (b, db')"
  obtains (lost) "\<not> b" "db' = db"
  | (yes) "b" "still_holder db h" "\<And>n. lease_of db' n = (if n = h_job h then Some (None, None) else lease_of db n)"
      "job_runs db' = job_runs db" "next_run db' = next_run db"
proof (cases "still_holder db h")
  case True
  then have "map_of (job_rows db) (h_job h) \<noteq> None" by (auto simp: still_holder_def split: option.splits)
  then have "lease_of (db\<lparr>job_rows := update_rows (\<lambda>n _. n = h_job h) (released_row t oc (cut_error er) k False False) (job_rows db)\<rparr>) n
      = (if n = h_job h then Some (None, None) else lease_of db n)" for n k
    using released_lease [where db = db and rs = "job_runs db" and name = "h_job h"] by simp
  with True assms yes show thesis by (auto simp: release_hold_def split: option.splits)
qed (use assms lost in \<open>auto simp: release_hold_def split: option.splits\<close>)

lemma release_ok:
  assumes ok: "sys_ok lanes s" and l: "l \<in> set (sy_leases s)"
    and r: "release (sy_now s) l oc due er code (sy_db s) = Some (b, db')"
  shows "sys_ok lanes (set_db s db'\<lparr>sy_leases := removeAll l (sy_leases s)\<rparr>)"
  using r
proof (cases rule: releaseE)
  case lost
  then show ?thesis using sys_ok_subset(1) [OF ok, of "\<lambda>x. x \<noteq> l"] by (simp add: removeAll_filter_not_eq eq_commute)
next
  case yes
  note D = sys_okD [OF ok]
  have other: "h_job x \<noteq> h_job l" if "x \<in> set (sy_leases s)" "x \<noteq> l" "row_held (sy_now s) (sy_db s) x" for x
    using held_same_key [OF yes(2) that(3)] key_inj [OF D(2) that(1) l that(2)] by blast
  have lane: "h_job x \<noteq> h_job l" if "x \<in> set (sy_holds s)" for x using D(5) [OF l] D(8) [OF that] by auto
  have ids: "le_run x \<noteq> le_run l" if "x \<in> set (sy_leases s)" "x \<noteq> l" for x using key_inj [OF D(4) that(1) l that(2)] .
  have "sys_ok lanes (set_db s db'\<lparr>sy_leases := filter (\<lambda>x. x \<noteq> l) (sy_leases s), sy_holds := filter (\<lambda>_. True) (sy_holds s)\<rparr>)"
  proof (rule sys_ok_shrink [OF ok _ yes(4,5)], goal_cases)
    case 1 show ?case by (simp add: open_run_def end_run_def)
  next
    case 2 show ?case by (simp add: yes(3))
  next
    case (3 x) then show ?case using other by (simp add: yes(3))
  next
    case (4 x) then show ?case using lane by (simp add: yes(3))
  next
    case (5 x r) then show ?case using ids by simp
  qed
  then show ?thesis by (simp add: removeAll_filter_not_eq eq_commute)
qed

lemma release_hold_ok:
  assumes ok: "sys_ok lanes s" and l: "h \<in> set (sy_holds s)"
    and r: "release_hold (sy_now s) h oc er (sy_db s) = Some (b, db')"
  shows "sys_ok lanes (set_db s db'\<lparr>sy_holds := removeAll h (sy_holds s)\<rparr>)"
  using r
proof (cases rule: release_holdE)
  case lost
  then show ?thesis using sys_ok_subset(2) [OF ok, of "\<lambda>x. x \<noteq> h"] by (simp add: removeAll_filter_not_eq eq_commute)
next
  case yes
  note D = sys_okD [OF ok]
  have other: "h_job x \<noteq> h_job h" if "x \<in> set (sy_holds s)" "x \<noteq> h" "row_held (sy_now s) (sy_db s) x" for x
    using held_same_key [OF yes(2) that(3)] key_inj [OF D(3) that(1) l that(2)] by blast
  have lane: "h_job x \<noteq> h_job h" if "x \<in> set (sy_leases s)" for x using D(8) [OF l] D(5) [OF that] by auto
  have "sys_ok lanes (set_db s db'\<lparr>sy_leases := filter (\<lambda>_. True) (sy_leases s), sy_holds := filter (\<lambda>x. x \<noteq> h) (sy_holds s)\<rparr>)"
    by (rule sys_ok_shrink [OF ok, where C = "\<lambda>_. False" and f = "end_run 0 []"])
      (use yes other lane in auto)
  then show ?thesis by (simp add: removeAll_filter_not_eq eq_commute)
qed

lemma reap_runs [simp]:
  "job_runs (snd (reap_lost t names on_hour runner db)) = map (\<lambda>r. if lapsed t runner db r then end_run t ''lost'' r else r) (job_runs db)"
  "next_run (snd (reap_lost t names on_hour runner db)) = next_run db"
  by (simp_all add: reap_lost_def Let_def)

lemma reap_lease:
  "lease_of (snd (reap_lost t names on_hour runner db)) n = lease_of db n
   \<or> lease_of (snd (reap_lost t names on_hour runner db)) n = Some (None, None)
     \<and> (\<exists>r e. lapsed t runner db r \<and> rn_job r = n \<and> lease_of db n = Some (Some (rn_holder r), e))"
proof (cases "map_of (job_rows db) n")
  case None
  then show ?thesis by (simp add: lease_of_def reap_lost_def Let_def map_of_map_rows)
next
  case (Some j)
  show ?thesis
  proof (cases "filter (\<lambda>r. rn_job r = n) (filter (lapsed t runner db) (job_runs db))")
    case Nil
    then show ?thesis using Some by (simp add: lease_of_def reap_lost_def Let_def map_of_map_rows)
  next
    case (Cons r rs)
    then have "r \<in> set (filter (\<lambda>r. rn_job r = n) (filter (lapsed t runner db) (job_runs db)))" by simp
    then have "lapsed t runner db r" "rn_job r = n" by auto
    then show ?thesis
      using Some Cons by (auto simp: lease_of_def reap_lost_def Let_def map_of_map_rows reaped_row_def)
  qed
qed

lemma reap_spares:
  assumes "row_held t db x"
  shows "lease_of (snd (reap_lost t names on_hour runner db)) (h_job x) = lease_of db (h_job x)"
proof (rule ccontr)
  assume "\<not> ?thesis"
  then obtain r e where r: "lapsed t runner db r" "rn_job r = h_job x" "lease_of db (h_job x) = Some (Some (rn_holder r), e)"
    using reap_lease [of t names on_hour runner db "h_job x"] by blast
  then have "rn_holder r = h_holder x" using assms by (auto simp: row_held_lease)
  then show False using r(1,2) assms by (auto simp: lapsed_def row_held_def split: option.splits)
qed

lemma lapsed_not_held: "row_held t db x \<Longrightarrow> rn_job r = h_job x \<Longrightarrow> rn_holder r = h_holder x \<Longrightarrow> \<not> lapsed t runner db r"
  by (auto simp: lapsed_def row_held_def split: option.splits)

lemma reap_ok:
  assumes ok: "sys_ok lanes s"
  shows "sys_ok lanes (set_db s (snd (reap_lost (sy_now s) names on_hour runner (sy_db s))))"
proof -
  have "sys_ok lanes (set_db s (snd (reap_lost (sy_now s) names on_hour runner (sy_db s)))
      \<lparr>sy_leases := filter (\<lambda>_. True) (sy_leases s), sy_holds := filter (\<lambda>_. True) (sy_holds s)\<rparr>)"
  proof (rule sys_ok_shrink [OF ok _ reap_runs], goal_cases)
    case 2 show ?case using reap_lease by blast
  qed (simp_all add: reap_spares lapsed_not_held)
  then show ?thesis by simp
qed

section \<open>Lanes and renewals\<close>

lemma held_enterE:
  assumes "held_enter sent t name cad runner ttl holder db = (Some h, db')"
  obtains "h = \<lparr>h_job = name, h_holder = holder, h_ttl = ttl, h_fence = fence_after sent ttl\<rparr>"
    "job_runs db' = job_runs db" "next_run db' = next_run db"
    "\<And>k e. lease_of db name = Some (Some k, Some e) \<Longrightarrow> e < t"
    "\<And>n. lease_of db' n = (if n = name then Some (Some holder, Some (t + of_int ttl)) else lease_of db n)"
proof (cases "map_of (job_rows db) name")
  case None
  then show thesis
    using assms by (intro that) (auto simp: held_enter_def Let_def lease_of_def row_held_def take_def map_add_def option.map_ident
        split: if_splits option.splits)
next
  case (Some j)
  then have "free t j" using assms by (simp add: held_enter_def split: if_splits)
  with Some have no: "lease_of db name = Some (Some k, Some e) \<Longrightarrow> e < t" for k e
    by (auto simp: lease_of_def free_def)
  show thesis
    by (rule that [OF _ _ _ no]) (use assms Some in \<open>auto simp: held_enter_def lease_of_def take_def option.map_ident split: if_splits\<close>)
qed

lemma busy_frame:
  assumes "held_enter sent t name cad runner ttl holder db = (None, db')"
  shows "job_runs db' = job_runs db" "next_run db' = next_run db"
    "lease_of db' n = lease_of db n \<or> lease_of db n = None \<and> lease_of db' n = Some (None, None)"
  using assms by (auto simp: held_enter_def Let_def lease_of_def lane_row_def map_add_def split: if_splits option.splits)

lemma busy_ok:
  "sys_ok lanes s \<Longrightarrow> held_enter sent (sy_now s) name cad runner ttl holder (sy_db s) = (None, db') \<Longrightarrow> sys_ok lanes (set_db s db')"
  by (rule sys_ok_frame [where Q = "\<lambda>_. True"]) (use busy_frame in auto)

lemma entered_ok:
  assumes ok: "sys_ok lanes s" and n: "name \<in> lanes" "(name, holder) \<notin> hold_key ` set (sy_holds s)" "sent \<le> sy_now s"
    and c: "held_enter sent (sy_now s) name cad runner ttl holder (sy_db s) = (Some h, db')"
  shows "sys_ok lanes (set_db s db'\<lparr>sy_holds := sy_holds s @ [h]\<rparr>)"
  using c
proof (cases rule: held_enterE)
  case 1
  note D = sys_okD [OF ok]
  have lane: "h_job x \<noteq> name" if "x \<in> set (sy_leases s)" for x using D(5) [OF that] n(1) by auto
  have new: "backed db' h" using n(3) by (simp add: backed_def 1(1,5) fence_after_def)
  show ?thesis
  proof (rule sys_okI, goal_cases)
    case 1 then show ?case using D(1) \<open>job_runs db' = _\<close> \<open>next_run db' = _\<close> by (simp add: runs_ok_def)
  next
    case 3 then show ?case using D(3) n(2) by (simp add: hold_key_def \<open>h = _\<close>)
  next
    case (5 x) then show ?case using D(5) by (simp add: \<open>next_run db' = _\<close>)
  next
    case (6 x) then show ?case using D(6) [of x] lane [of x] by (simp add: backed_def 1(5))
  next
    case (7 x) then show ?case using D(7) [of x] lane [of x] by (simp add: row_held_lease has_run_def 1(2,5))
  next
    case (8 x) then show ?case using D(8) n(1) by (auto simp: \<open>h = _\<close>)
  next
    case (9 x)
    then show ?case
      using new D(9) [of x] 1(4) [of "h_holder x"] by (fastforce simp: backed_def 1(5) FENCE_MARGIN_S_def)
  next
    case (10 r)
    then have "run_rowed lanes (sy_db s) r" using D(10) by (simp add: \<open>job_runs db' = _\<close>)
    then show ?case using n(1) by (auto simp: run_rowed_def 1(5))
  qed (use D in auto)
qed

lemma renewE:
  assumes "renew sent t h db = (b, h', db')"
  obtains (no) "h' = h" "db' = db"
  | (yes) "h' = h\<lparr>h_fence := fence_after sent (h_ttl h)\<rparr>" "row_held t db h" "job_runs db' = job_runs db" "next_run db' = next_run db"
      "\<And>n. lease_of db' n = (if n = h_job h then Some (Some (h_holder h), Some (t + of_int (h_ttl h))) else lease_of db n)"
proof (cases "row_held t db h")
  case True
  then have "lease_of db' n = (if n = h_job h then Some (Some (h_holder h), Some (t + of_int (h_ttl h))) else lease_of db n)" for n
    using assms by (cases "map_of (job_rows db) n") (auto simp: renew_def lease_of_def row_held_def held_by_def)
  with True assms show thesis by (intro yes) (auto simp: renew_def)
qed (use assms no in \<open>auto simp: renew_def\<close>)

lemma renew_row_held:
  assumes "renew sent t h db = (b, h', db')"
  shows "h_job x \<noteq> h_job h \<Longrightarrow> lease_of db' (h_job x) = lease_of db (h_job x)"
    and "row_held t db x \<Longrightarrow> hold_key x \<noteq> hold_key h \<Longrightarrow> lease_of db' (h_job x) = lease_of db (h_job x)"
    and "row_held t db' x \<Longrightarrow> hold_key x \<noteq> hold_key h \<Longrightarrow> row_held t db x"
    and "run_rowed lanes db r \<Longrightarrow> run_rowed lanes db' r"
proof -
  have ls: "lease_of db' n = lease_of db n \<or> n = h_job h \<and> (\<exists>e. lease_of db n = Some (Some (h_holder h), Some e) \<and> t \<le> e)
      \<and> lease_of db' n = Some (Some (h_holder h), Some (t + of_int (h_ttl h)))" for n
    using assms by (cases rule: renewE) (auto simp: row_held_lease)
  show "h_job x \<noteq> h_job h \<Longrightarrow> lease_of db' (h_job x) = lease_of db (h_job x)"
    using ls [of "h_job x"] by blast
  show "row_held t db x \<Longrightarrow> hold_key x \<noteq> hold_key h \<Longrightarrow> lease_of db' (h_job x) = lease_of db (h_job x)"
    "row_held t db' x \<Longrightarrow> hold_key x \<noteq> hold_key h \<Longrightarrow> row_held t db x"
    using ls [of "h_job x"] by (auto simp: row_held_lease hold_key_def)
  show "run_rowed lanes db r \<Longrightarrow> run_rowed lanes db' r"
    using ls [of "rn_job r"] by (auto simp: run_rowed_def)
qed

lemma renew_new:
  assumes "renew sent t h db = (b, h', db')"
  shows "hold_key h' = hold_key h" "h_job h' = h_job h" "h_holder h' = h_holder h"
    and "row_held t db' h' \<Longrightarrow> row_held t db h"
    and "job_runs db' = job_runs db" "next_run db' = next_run db"
  using assms by (auto simp: renew_def hold_key_def split: if_splits)

lemma renew_backed:
  assumes "renew sent t h db = (b, h', db')" "sent \<le> t" "t < h_fence h'" "t < h_fence h \<Longrightarrow> backed db h"
  shows "backed db' h'"
  using assms(1)
proof (cases rule: renewE)
  case no
  then show ?thesis using assms(3,4) by simp
next
  case yes
  then show ?thesis using assms(2) by (simp add: backed_def fence_after_def)
qed

lemma renewed_ok:
  assumes ok: "sys_ok lanes s" and l: "l \<in> set (sy_leases s)" "sent \<le> sy_now s"
    and r: "renew sent (sy_now s) l (sy_db s) = (b, l', db')"
  shows "sys_ok lanes (set_db s db'\<lparr>sy_leases := map (\<lambda>x. if x = l then l' else x) (sy_leases s)\<rparr>)"
proof -
  note D = sys_okD [OF ok] and N = renew_new [OF r] and H = renew_row_held [OF r]
  have run: "le_run l' = le_run l" using r by (auto simp: renew_def split: if_splits)
  have k: "hold_key x \<noteq> hold_key l" if "x \<in> set (sy_leases s)" "x \<noteq> l" for x
    using key_inj [OF D(2) that(1) l(1) that(2)] .
  have hr: "has_run db' x" if "has_run (sy_db s) y" "h_job x = h_job y" "h_holder x = h_holder y" "le_run x = le_run y" for x y
    using that N by (simp add: has_run_def)
  have lane: "h_job x \<noteq> h_job l" if "x \<in> set (sy_holds s)" for x using D(5) [OF l(1)] D(8) [OF that] by auto
  show ?thesis
  proof (rule sys_okI, goal_cases)
    case 2 show ?case using distinct_map_upd [OF D(2)] N(1) by simp
  next
    case 4 show ?case using distinct_map_upd [OF D(4)] run by simp
  next
    case (5 x) then show ?case using D(5) N run l(1) by auto
  next
    case (6 x)
    then consider "x \<in> set (sy_leases s)" "x \<noteq> l" | "x = l'" by (auto split: if_splits)
    then show ?case
    proof cases
      case 1 then show ?thesis using D(6) 6 backed_cong [OF H(2) [OF backed_held k]] by auto
    next
      case 2 then show ?thesis using renew_backed [OF r l(2)] D(6) [OF l(1)] 6 by simp
    qed
  next
    case (7 x)
    then consider "x \<in> set (sy_leases s)" "x \<noteq> l" | "x = l'" by (auto split: if_splits)
    then show ?case
    proof cases
      case 1 then show ?thesis using hr [OF D(7) [OF 1(1) H(3) [OF _ k [OF 1]]]] 7 by simp
    next
      case 2 then show ?thesis using hr [OF D(7) [OF l(1) N(4)]] N(2,3) run 7 by simp
    qed
  next
    case 1 then show ?case using D(1) N(5,6) by (simp add: runs_ok_def)
  next
    case (9 x) then show ?case using D(9) [of x] backed_cong [OF H(1) [OF lane]] by auto
  qed (use D N H in auto)
qed

lemma lane_renewed_ok:
  assumes ok: "sys_ok lanes s" and l: "l \<in> set (sy_holds s)" "sent \<le> sy_now s"
    and r: "renew sent (sy_now s) l (sy_db s) = (b, l', db')"
  shows "sys_ok lanes (set_db s db'\<lparr>sy_holds := map (\<lambda>x. if x = l then l' else x) (sy_holds s)\<rparr>)"
proof -
  note D = sys_okD [OF ok] and N = renew_new [OF r] and H = renew_row_held [OF r]
  have k: "hold_key x \<noteq> hold_key l" if "x \<in> set (sy_holds s)" "x \<noteq> l" for x
    using key_inj [OF D(3) that(1) l(1) that(2)] .
  have lane: "h_job x \<noteq> h_job l" if "x \<in> set (sy_leases s)" for x using D(8) [OF l(1)] D(5) [OF that] by auto
  show ?thesis
  proof (rule sys_okI, goal_cases)
    case 3 show ?case using distinct_map_upd [OF D(3)] N(1) by simp
  next
    case (6 x) then show ?case using D(6) [of x] backed_cong [OF H(1) [OF lane]] by auto
  next
    case (7 x) then show ?case using D(7) [of x] row_held_cong [OF H(1) [OF lane]] N(5) by (auto simp: has_run_def)
  next
    case (8 x) then show ?case using D(8) N l(1) by auto
  next
    case (9 x)
    then consider "x \<in> set (sy_holds s)" "x \<noteq> l" | "x = l'" by (auto split: if_splits)
    then show ?case
    proof cases
      case 1 then show ?thesis using D(9) 9 backed_cong [OF H(2) [OF backed_held k]] by auto
    next
      case 2 then show ?thesis using renew_backed [OF r l(2)] D(9) [OF l(1)] 9 by simp
    qed
  next
    case 1 then show ?case using D(1) N(5,6) by (simp add: runs_ok_def)
  qed (use D N H in auto)
qed

section \<open>Every reachable system\<close>

lemma tick_ok:
  assumes ok: "sys_ok lanes s" and t: "sy_now s \<le> t"
  shows "sys_ok lanes (s\<lparr>sy_now := t\<rparr>)"
proof -
  note D = sys_okD [OF ok]
  have "row_held (sy_now s) (sy_db s) x" if "row_held t (sy_db s) x" for x :: lease
    using that t by (auto simp: row_held_lease)
  then show ?thesis using D t by (intro sys_okI) auto
qed

lemma step_ok: "job_step lanes s s' \<Longrightarrow> sys_ok lanes s \<Longrightarrow> sys_ok lanes s'"
proof (induction rule: job_step.induct)
  case (tick s t) then show ?case by (rule tick_ok [rotated])
next
  case (claimed name holder s sent ttl v l db') then show ?case by (blast intro: claim_ok)
next
  case (refused sent s name holder ttl v db') then show ?case using claim_refused [OF refused(1)] by simp
next
  case (renewed l s sent b l' db') then show ?case by (blast intro: renewed_ok)
next
  case (released l s oc due er code b db') then show ?case by (blast intro: release_ok)
next
  case (died s l)
  then show ?case using sys_ok_subset(1) [where P = "\<lambda>x. x \<noteq> l"] by (simp add: removeAll_filter_not_eq eq_commute)
next
  case (entered name holder s sent cadence runner ttl h db') then show ?case by (blast intro: entered_ok)
next
  case (busy sent s name cadence runner ttl holder db') then show ?case by (blast intro: busy_ok)
next
  case (lane_renewed h s sent b h' db') then show ?case by (blast intro: lane_renewed_ok)
next
  case (lane_released h s oc er b db') then show ?case by (blast intro: release_hold_ok)
next
  case (lane_died s h)
  then show ?case using sys_ok_subset(2) [where P' = "\<lambda>x. x \<noteq> h"] by (simp add: removeAll_filter_not_eq eq_commute)
qed (simp_all add: register_ok retire_ok reap_ok request_ok pause_ok prune_ok)

lemma job_reaches_ok: "job_reaches lanes s \<Longrightarrow> sys_ok lanes s"
proof (induction rule: job_reaches.induct)
  case (booted t)
  show ?case by (simp add: sys_ok_def boot_def runs_ok_def holds_backed_def open_jobs_def open_resources_def List.map_filter_def)
qed (rule step_ok)

text \<open>Two jobs registered, both claimed: a reachable system with two leases.\<close>

definition two_specs :: "job_spec list" where
  "two_specs = [\<lparr>js_name = ''scrape'', js_every = 3600, js_offset = 60, js_timeout = 600, js_resource = Some ''db''\<rparr>,
                \<lparr>js_name = ''dedup'', js_every = 7200, js_offset = 0, js_timeout = 900, js_resource = None\<rparr>]"

definition two_lease :: "string \<Rightarrow> int \<Rightarrow> lease" where
  "two_lease name k = \<lparr>h_job = name, h_holder = ''w'', h_ttl = 180, h_fence = 8150, le_run = k, le_args = None, le_by = None, le_due_slot = True\<rparr>"

definition two_db0 :: jobs where "two_db0 = snd (register 0 ''r'' two_specs (sy_db (boot 0)))"
definition two_db1 :: jobs where "two_db1 = snd (claim 8000 8001 ''scrape'' ''w'' 180 None two_db0)"
definition two_db2 :: jobs where "two_db2 = snd (claim 8000 8001 ''dedup'' ''w'' 180 None two_db1)"

definition two_leases :: job_sys where
  "two_leases = \<lparr>sy_now = 8001, sy_db = two_db2, sy_leases = [two_lease ''scrape'' 1, two_lease ''dedup'' 2], sy_holds = []\<rparr>"

lemma two_claims:
  "claim 8000 8001 ''scrape'' ''w'' 180 None two_db0 = (Some (two_lease ''scrape'' 1), two_db1)"
  "claim 8000 8001 ''dedup'' ''w'' 180 None two_db1 = (Some (two_lease ''dedup'' 2), two_db2)"
proof -
  have "fst (claim 8000 8001 ''scrape'' ''w'' 180 None two_db0) = Some (two_lease ''scrape'' 1)" by code_simp
  then show "claim 8000 8001 ''scrape'' ''w'' 180 None two_db0 = (Some (two_lease ''scrape'' 1), two_db1)"
    by (simp add: two_db1_def prod_eq_iff)
  have "fst (claim 8000 8001 ''dedup'' ''w'' 180 None two_db1) = Some (two_lease ''dedup'' 2)" by code_simp
  then show "claim 8000 8001 ''dedup'' ''w'' 180 None two_db1 = (Some (two_lease ''dedup'' 2), two_db2)"
    by (simp add: two_db2_def prod_eq_iff)
qed

lemma two_reached: "job_reaches {''lane''} two_leases"
proof -
  let ?L = "{''lane''}"
  have 1: "job_reaches ?L (set_db (boot 0) two_db0)"
    using job_step.registers [of ?L "boot 0" "''r''" two_specs] by (auto intro: job_reaches.intros simp: two_db0_def boot_def)
  have 2: "job_reaches ?L (set_db (boot 8001) two_db0)"
    using job_reaches.stepped [OF 1 job_step.tick [of _ 8001]] by (simp add: boot_def)
  have 3: "job_reaches ?L (set_db (boot 8001) two_db1\<lparr>sy_leases := [two_lease ''scrape'' 1]\<rparr>)"
    using job_reaches.stepped [OF 2 job_step.claimed [of "''scrape''" ?L "''w''" _ 8000]] two_claims(1) by (simp add: boot_def)
  show ?thesis
    using job_reaches.stepped [OF 3 job_step.claimed [of "''dedup''" ?L "''w''" _ 8000]] two_claims(2)
    by (simp add: boot_def two_leases_def hold_key_def two_lease_def)
qed

end
