(* ===== verification/Job_Lease_Props.thy ===== *)
theory Job_Lease_Props
  imports Job_Lease_System
begin

text \<open>
  The properties of the leases: exclusion in every reachable system, when a claim succeeds and what it
  leaves, and where a release puts the next due time.
\<close>

text \<open>
  C4. Mutual exclusion. However the calls interleave and whoever dies, two leases that have not reached
  their fences never are for one job; each has its own open run, and the two runs never name one resource.
\<close>

theorem leases_exclude:
  assumes "job_reaches lanes s" "l \<in> set (sy_leases s)" "l' \<in> set (sy_leases s)" "l \<noteq> l'"
    and "\<not> fenced (sy_now s) l" "\<not> fenced (sy_now s) l'"
  shows "h_job l \<noteq> h_job l' \<and>
     (\<exists>r r'. r \<in> set (job_runs (sy_db s)) \<and> r' \<in> set (job_runs (sy_db s)) \<and> open_run r \<and> open_run r'
        \<and> rn_id r = le_run l \<and> rn_id r' = le_run l' \<and> rn_job r = h_job l \<and> rn_job r' = h_job l'
        \<and> (rn_resource r = None \<or> rn_resource r \<noteq> rn_resource r'))"
proof -
  note D = sys_okD [OF job_reaches_ok [OF assms(1)]]
  have unf: "sy_now s < h_fence l" "sy_now s < h_fence l'" using assms(5,6) by (simp_all add: fenced_def)
  have held: "row_held (sy_now s) (sy_db s) l" "row_held (sy_now s) (sy_db s) l'"
    using backed_held D(6) assms(2,3) unf by blast+
  have job: "h_job l \<noteq> h_job l'"
    using held key_inj [OF D(2) assms(2,3,4)] by (auto simp: row_held_lease hold_key_def)
  obtain r where r: "r \<in> set (job_runs (sy_db s))" "open_run r" "rn_id r = le_run l" "rn_job r = h_job l"
    using D(7) [OF assms(2) held(1)] by (auto simp: has_run_def)
  obtain r' where r': "r' \<in> set (job_runs (sy_db s))" "open_run r'" "rn_id r' = le_run l'" "rn_job r' = h_job l'"
    using D(7) [OF assms(3) held(2)] by (auto simp: has_run_def)
  have "rn_resource r = None \<or> rn_resource r \<noteq> rn_resource r'"
    using open_resources_inj [OF D(1), of r r'] r r' job by (cases "rn_resource r'") auto
  with r r' job show ?thesis by blast
qed

theorem leases_exclude_witness:
  "\<exists>s l l'. h_job l \<noteq> h_job l' \<and> l \<in> set (sy_leases s) \<and> l' \<in> set (sy_leases s) \<and> job_reaches {''lane''} s"
proof -
  let ?l = "two_lease ''scrape'' 1" and ?l' = "two_lease ''dedup'' 2"
  have m: "?l \<in> set (sy_leases two_leases)" "?l' \<in> set (sy_leases two_leases)" by (simp_all add: two_leases_def)
  have "h_job ?l \<noteq> h_job ?l'"
    using leases_exclude [OF two_reached m] by (simp add: two_leases_def two_lease_def fenced_def)
  with m two_reached show ?thesis by blast
qed

section \<open>Lanes\<close>

text \<open>A lane taken at 0 for a minute, lapsed, and taken by another holder at 100.\<close>

definition lane_hold :: "string \<Rightarrow> rat \<Rightarrow> hold" where
  "lane_hold holder t = \<lparr>h_job = ''lane'', h_holder = holder, h_ttl = 60, h_fence = t + 30\<rparr>"

definition lane_db1 :: jobs where "lane_db1 = snd (held_enter 0 0 ''lane'' 60 ''r'' 60 ''a'' (sy_db (boot 0)))"
definition lane_db2 :: jobs where "lane_db2 = snd (held_enter 100 100 ''lane'' 60 ''r'' 60 ''b'' lane_db1)"

definition lane_taken_over :: job_sys where
  "lane_taken_over = \<lparr>sy_now = 100, sy_db = lane_db2, sy_leases = [], sy_holds = [lane_hold ''a'' 0, lane_hold ''b'' 100]\<rparr>"

lemma lane_enters:
  "held_enter 0 0 ''lane'' 60 ''r'' 60 ''a'' (sy_db (boot 0)) = (Some (lane_hold ''a'' 0), lane_db1)"
  "held_enter 100 100 ''lane'' 60 ''r'' 60 ''b'' lane_db1 = (Some (lane_hold ''b'' 100), lane_db2)"
proof -
  have "fst (held_enter 0 0 ''lane'' 60 ''r'' 60 ''a'' (sy_db (boot 0))) = Some (lane_hold ''a'' 0)" by code_simp
  then show "held_enter 0 0 ''lane'' 60 ''r'' 60 ''a'' (sy_db (boot 0)) = (Some (lane_hold ''a'' 0), lane_db1)"
    by (simp add: lane_db1_def prod_eq_iff)
  have "fst (held_enter 100 100 ''lane'' 60 ''r'' 60 ''b'' lane_db1) = Some (lane_hold ''b'' 100)" by code_simp
  then show "held_enter 100 100 ''lane'' 60 ''r'' 60 ''b'' lane_db1 = (Some (lane_hold ''b'' 100), lane_db2)"
    by (simp add: lane_db2_def prod_eq_iff)
qed

lemma lane_reached: "job_reaches {''lane''} lane_taken_over"
proof -
  let ?L = "{''lane''}"
  have 1: "job_reaches ?L (set_db (boot 0) lane_db1\<lparr>sy_holds := [lane_hold ''a'' 0]\<rparr>)"
    using job_reaches.stepped [OF job_reaches.booted [of ?L 0] job_step.entered [of "''lane''" ?L "''a''" _ 0]] lane_enters(1)
    by (simp add: boot_def)
  have 2: "job_reaches ?L (set_db (boot 100) lane_db1\<lparr>sy_holds := [lane_hold ''a'' 0]\<rparr>)"
    using job_reaches.stepped [OF 1 job_step.tick [of _ 100]] by (simp add: boot_def)
  show ?thesis
    using job_reaches.stepped [OF 2 job_step.entered [of "''lane''" ?L "''b''" _ 100]] lane_enters(2)
    by (simp add: boot_def lane_taken_over_def hold_key_def lane_hold_def)
qed

text \<open>
  C18. Nothing commits under a lapsed lease: in a reachable system, once one holder of a lane passes its
  fence, every other holder of that lane is past its own fence time, and its commit is refused.
\<close>

theorem lane_commits_alone:
  assumes "job_reaches lanes s" "h \<in> set (sy_holds s)" "h' \<in> set (sy_holds s)" "h \<noteq> h'" "h_job h = h_job h'"
    and "fence (sy_now s) h (sy_db s)"
  shows "\<not> fence (sy_now s) h' (sy_db s) \<and> fenced (sy_now s) h'"
proof -
  note D = sys_okD [OF job_reaches_ok [OF assms(1)]]
  have k: "h_holder h \<noteq> h_holder h'"
    using key_inj [OF D(3) assms(2,3,4)] assms(5) by (simp add: hold_key_def)
  have row: "\<exists>e. lease_of (sy_db s) (h_job x) = Some (Some (h_holder x), e)" if "fence (sy_now s) x (sy_db s)" for x :: hold
    using that by (auto simp: fence_def lease_of_def split: option.splits)
  have "\<not> sy_now s < h_fence h'"
    using D(9) [OF assms(3)] row [OF assms(6)] k assms(5) by (auto simp: backed_def)
  then have "fenced (sy_now s) h'" by (simp add: fenced_def)
  moreover have "\<not> fence (sy_now s) h' (sy_db s)" using row [OF assms(6)] row [of h'] k assms(5) by auto
  ultimately show ?thesis by simp
qed

theorem lane_commits_alone_witness:
  "\<not> fence (sy_now lane_taken_over) (lane_hold ''a'' 0) (sy_db lane_taken_over) \<and> fence (sy_now lane_taken_over) (lane_hold ''b'' 100) (sy_db lane_taken_over)"
proof -
  have f: "fence (sy_now lane_taken_over) (lane_hold ''b'' 100) (sy_db lane_taken_over)" by code_simp
  moreover have "\<not> fence (sy_now lane_taken_over) (lane_hold ''a'' 0) (sy_db lane_taken_over)"
    using lane_commits_alone [OF lane_reached _ _ _ _ f, of "lane_hold ''a'' 0"]
    by (simp add: lane_taken_over_def lane_hold_def)
  ultimately show ?thesis by simp
qed

section \<open>Claims\<close>

definition blocked :: "rat \<Rightarrow> jobs \<Rightarrow> string \<Rightarrow> job_row \<Rightarrow> bool" where
  "blocked t db name j \<longleftrightarrow> (\<exists>r \<in> set (job_runs db). open_run r \<and> rn_job r \<noteq> name \<and> jr_resource j \<noteq> None
     \<and> rn_resource r = jr_resource j \<and> run_held t db r)"

lemma run_held_taken: "rn_job r \<noteq> name \<Longrightarrow> run_held t (taken t name holder ttl db) r = run_held t db r"
  by (simp add: run_held_def taken_row_other)

lemma lost_in_taken:
  assumes "map_of (job_rows db) name = Some j" "open_run r" "map_of (job_rows db) (rn_job r) \<noteq> None"
  shows "lost_run t (taken t name holder ttl db) name res r \<longleftrightarrow>
     rn_job r = name \<or> res \<noteq> None \<and> rn_resource r = res \<and> \<not> run_held t db r"
  using assms run_held_taken [of r name]
  by (cases "rn_job r = name") (auto simp: lost_run_def taken_row_other take_row)

lemma closed_ex:
  "(\<And>r. \<not> open_run (f r)) \<Longrightarrow>
     (\<exists>x \<in> set (map (\<lambda>r. if L r then f r else r) rs). open_run x \<and> Q x) \<longleftrightarrow> (\<exists>x \<in> set rs. open_run x \<and> \<not> L x \<and> Q x)"
  by (induction rs) auto

text \<open>
  C17. When a claim succeeds: exactly on a job that is not retired, is due and unpaused or asked for, has a
  free row and no sibling with a live lease on its resource, and whose resource no live run still names.
  A crashed holder never blocks: its lapsed lease leaves the row free and its run lost.
\<close>

theorem claim_succeeds_iff:
  assumes "job_reaches lanes s"
  shows "(\<exists>l db'. claim sent (sy_now s) name holder ttl v (sy_db s) = (Some l, db')) \<longleftrightarrow>
     (\<exists>j. map_of (job_rows (sy_db s)) name = Some j \<and> claimable (sy_now s) (sy_db s) name j \<and> \<not> blocked (sy_now s) (sy_db s) name j)"
proof (cases "\<exists>j. map_of (job_rows (sy_db s)) name = Some j \<and> claimable (sy_now s) (sy_db s) name j")
  case False
  then show ?thesis by (auto simp: claim_def split: option.splits)
next
  case True
  then obtain j where j: "map_of (job_rows (sy_db s)) name = Some j" "claimable (sy_now s) (sy_db s) name j" by blast
  note D = sys_okD [OF job_reaches_ok [OF assms]]
  have lost: "lost_run (sy_now s) (taken (sy_now s) name holder ttl (sy_db s)) name (jr_resource j) x \<longleftrightarrow>
      rn_job x = name \<or> jr_resource j \<noteq> None \<and> rn_resource x = jr_resource j \<and> \<not> run_held (sy_now s) (sy_db s) x"
    if x: "x \<in> set (job_runs (sy_db s))" "open_run x" for x
    using lost_in_taken [OF j(1) x(2)] D(10) [OF x] by (auto simp: run_rowed_def lease_of_def)
  have "(\<exists>l db'. claim sent (sy_now s) name holder ttl v (sy_db s) = (Some l, db')) \<longleftrightarrow> \<not> blocked (sy_now s) (sy_db s) name j"
    unfolding claim_result [OF j] close_lost_runs taken_runs closed_ex [OF end_run_simps(3)] blocked_def
    by (intro arg_cong [where f = Not] bex_cong refl) (use lost in blast)
  then show ?thesis using j by simp
qed

theorem claim_succeeds_iff_witness:
  "\<not> (\<exists>l db'. claim 8001 (sy_now two_leases) ''scrape'' ''v'' 180 None (sy_db two_leases) = (Some l, db'))"
proof -
  have "\<not> claimable (sy_now two_leases) (sy_db two_leases) ''scrape'' (the (map_of (job_rows (sy_db two_leases)) ''scrape''))" by code_simp
  then show ?thesis unfolding claim_succeeds_iff [OF two_reached] by auto
qed

lemma claimed_row:
  assumes "claim sent t name holder ttl v db = (Some l, db')" "map_of (job_rows db) name = Some j"
  shows "map_of (job_rows db') name = Some (let k = take t holder ttl j;
       k' = (if \<exists>r \<in> set (job_runs db). open_run r \<and> rn_job r = name then k\<lparr>jr_fails := jr_fails j + 1\<rparr> else k)
     in if past t (jr_requested j) then k'\<lparr>jr_requested := None, jr_req_args := None, jr_req_by := None\<rparr> else k')"
  using assms(1)
proof (rule claimE, goal_cases)
  case (1 i r db2 db3)
  have ij: "i = j" using 1(1) assms(2) by simp
  have lost: "(\<exists>r \<in> set (job_runs db). lost_run t (taken t name holder ttl db) name (jr_resource j) r \<and> rn_job r = name)
     \<longleftrightarrow> (\<exists>r \<in> set (job_runs db). open_run r \<and> rn_job r = name)"
    using assms(2) by (auto simp: lost_run_def take_row)
  have row2: "map_of (job_rows db2) name = Some (if \<exists>r \<in> set (job_runs db). open_run r \<and> rn_job r = name
     then (take t holder ttl j)\<lparr>jr_fails := jr_fails j + 1\<rparr> else take t holder ttl j)"
    using lost by (simp add: 1(3) ij close_lost_def Let_def map_of_map_rows take_row [OF assms(2)] image_iff Bex_def conj_commute)
      (auto simp: take_def)
  show ?case by (simp add: 1(15) row2 ij Let_def)
qed

text \<open>
  What a claim leaves: the row is the holder's for \<open>ttl\<close> seconds, the request it serves is consumed
  and handed over, the job has exactly one open run, the lease's own, and a run its last holder
  left open is closed as lost and counted as one failure.
\<close>

theorem claim_opens:
  assumes "claim sent t name holder ttl v db = (Some l, db')"
  shows "\<exists>j j'. map_of (job_rows db) name = Some j \<and> map_of (job_rows db') name = Some j'
    \<and> jr_holder j' = Some holder \<and> jr_expires j' = Some (t + of_int ttl) \<and> jr_due j' = jr_due j
    \<and> jr_fails j' = jr_fails j + (if \<exists>r \<in> set (job_runs db). open_run r \<and> rn_job r = name then 1 else 0)
    \<and> (if past t (jr_requested j) then jr_requested j' = None \<and> le_args l = jr_req_args j \<and> le_by l = jr_req_by j
       else jr_requested j' = jr_requested j \<and> le_args l = None \<and> le_by l = None)
    \<and> (\<exists>r. filter (\<lambda>r. open_run r \<and> rn_job r = name) (job_runs db') = [r] \<and> rn_id r = le_run l \<and> rn_holder r = holder
         \<and> rn_args r = le_args l \<and> rn_started r = t)
    \<and> filter (\<lambda>r. rn_job r = name) (job_runs db') =
        map (\<lambda>r. if open_run r then end_run t ''lost'' r else r) (filter (\<lambda>r. rn_job r = name) (job_runs db))
        @ filter (\<lambda>r. open_run r \<and> rn_job r = name) (job_runs db')"
  using assms
proof (rule claimE, goal_cases)
  case (1 j r db2 db3)
  have lost: "lost_run t (taken t name holder ttl db) name (jr_resource j) x \<longleftrightarrow> open_run x" if "rn_job x = name" for x
    using that 1(1) by (simp add: lost_run_def take_row)
  have split: "filter (\<lambda>r. rn_job r = name) (map (\<lambda>x. if lost_run t (taken t name holder ttl db) name (jr_resource j) x
      then end_run t ''lost'' x else x) rs) = map (\<lambda>r. if open_run r then end_run t ''lost'' r else r) (filter (\<lambda>r. rn_job r = name) rs)" for rs
    by (induction rs) (auto simp: lost)
  have closed: "filter (\<lambda>r. open_run r \<and> rn_job r = name) (map (\<lambda>x. if lost_run t (taken t name holder ttl db) name (jr_resource j) x
      then end_run t ''lost'' x else x) rs) = []" for rs
  proof (induction rs)
    case (Cons a rs)
    then show ?case using lost [of a] by (cases "rn_job a = name") auto
  qed simp
  have runs: "job_runs db' = map (\<lambda>x. if lost_run t (taken t name holder ttl db) name (jr_resource j) x
      then end_run t ''lost'' x else x) (job_runs db) @ [r]"
    by (simp add: 1(3,10,15))
  have open1: "filter (\<lambda>r. open_run r \<and> rn_job r = name) (job_runs db') = [r]"
    by (simp only: runs filter_append closed) (simp add: 1(5,7))
  have all: "filter (\<lambda>r. rn_job r = name) (job_runs db') =
      map (\<lambda>r. if open_run r then end_run t ''lost'' r else r) (filter (\<lambda>r. rn_job r = name) (job_runs db)) @ [r]"
    by (simp only: runs filter_append split) (simp add: 1(7))
  show ?case
    using claimed_row [OF assms 1(1)] 1(1) all open1 1(5-9,12-14)
    by (auto simp: Let_def take_def)
qed

theorem claim_opens_witness:
  "\<exists>j'. map_of (job_rows two_db1) ''scrape'' = Some j' \<and> jr_holder j' = Some ''w'' \<and> jr_expires j' = Some 8181"
  using claim_opens [OF two_claims(1)] by auto

section \<open>Releases\<close>

text \<open>
  C19. Where a release leaves a job with a positive cadence and a due time: free, its failures counted by
  the outcome, and due at a time the next slot of its epoch-anchored grid bounds. A run that took its slot is
  due neither before now nor after the next slot, except that a job with work left is due in exactly a
  minute, whether or not the slot comes first; a backoff waits, and at most its doubled delay. A run that
  only served a request never moves the due time later than it was.
\<close>

theorem release_reschedules:
  assumes "release t le outcome due er code db = Some (True, db')" "map_of (job_rows db) (h_job le) = Some j"
    and "0 < jr_cadence j" "jr_due j = Some d"
  shows "\<exists>j' d' k. map_of (job_rows db') (h_job le) = Some j' \<and> jr_holder j' = None \<and> free t j' \<and> jr_due j' = Some d'
    \<and> jr_fails j' = (if outcome = ''ok'' then 0 else if outcome \<in> {''cancelled'', ''skipped'', ''interrupted''} then jr_fails j else jr_fails j + 1)
    \<and> next_slot t j = of_int (k * jr_cadence j + offset_of j) \<and> t < next_slot t j \<and> next_slot t j \<le> t + of_int (jr_cadence j)
    \<and> (if le_by le \<noteq> None \<and> \<not> le_due_slot le then d' \<le> d
       else t \<le> d' \<and> (if due = Some ''more'' then d' = t + 60 else d' \<le> next_slot t j)
          \<and> (if due = Some ''backoff'' then t < d' \<and> d' \<le> t + 60 * 2 ^ min (jr_fails j) 20 else True))"
proof -
  obtain kind where kd: "due_kind outcome due = Some kind" "still_holder db le"
    using assms(1) by (auto simp: release_def split: option.splits if_splits)
  have kinds: "kind \<in> set DUE_KINDS" "due = Some ''more'' \<longleftrightarrow> kind = ''more''" "due = Some ''backoff'' \<longleftrightarrow> kind = ''backoff''"
    using kd(1) by (auto simp: due_kind_def Let_def split: if_splits option.splits list.splits)
  let ?j' = "released_row t outcome (cut_error er) kind (le_by le \<noteq> None) (le_due_slot le) j"
  have row: "map_of (job_rows db') (h_job le) = Some ?j'"
    using assms(1,2) kd by (auto simp: release_def)
  obtain k where k: "next_slot t j = of_int (k * jr_cadence j + offset_of j)" using next_slot_grid by blast
  have fields: "jr_holder ?j' = None" "free t ?j'" "jr_due ?j' = released_due t kind (le_by le \<noteq> None) (le_due_slot le) j"
    "jr_fails ?j' = (if outcome = ''ok'' then 0 else if outcome \<in> {''cancelled'', ''skipped'', ''interrupted''} then jr_fails j else jr_fails j + 1)"
    by (simp_all add: released_row_def free_def NOT_FAILURES_def)
  note slot = next_slot_bounds [OF assms(3), of t]
  show ?thesis
  proof (cases "le_by le \<noteq> None \<and> \<not> le_due_slot le")
    case True
    then have "\<exists>d'. jr_due ?j' = Some d' \<and> d' \<le> d" using assms(4) unfolding fields(3) by (simp add: released_due_def)
    with True row fields k slot show ?thesis by auto
  next
    case False
    from released_due_bounds [OF assms(3,4) kinds(1) False, of t]
    obtain d' where d': "released_due t kind (le_by le \<noteq> None) (le_due_slot le) j = Some d'" "t \<le> d'" "kind \<noteq> ''now'' \<longrightarrow> t < d'"
      "if kind = ''more'' then d' = t + of_int MORE_REMAINS_S else d' \<le> next_slot t j"
      "kind = ''backoff'' \<longrightarrow> d' \<le> t + of_int (backoff_s j)"
      by blast
    have bo: "(of_int (backoff_s j) :: rat) = 60 * 2 ^ min (jr_fails j) 20"
      by (simp add: backoff_s_def BACKOFF_BASE_S_def)
    have "t \<le> d' \<and> (if due = Some ''more'' then d' = t + 60 else d' \<le> next_slot t j)
        \<and> (if due = Some ''backoff'' then t < d' \<and> d' \<le> t + 60 * 2 ^ min (jr_fails j) 20 else True)"
      using d'(2-5) kinds(2,3) unfolding bo by (cases "kind = ''more''"; cases "kind = ''backoff''") (auto simp: MORE_REMAINS_S_def)
    moreover have "jr_due ?j' = Some d'" using d'(1) fields(3) by simp
    ultimately show ?thesis
      unfolding if_not_P [OF False] using row fields(1,2,4) k slot by (intro exI [of _ ?j'] exI [of _ d'] exI [of _ k]) blast
  qed
qed

definition two_released :: jobs where
  "two_released = snd (the (release 8100 (two_lease ''scrape'' 1) ''failed'' (Some ''backoff'') None (Some 1) two_db2))"

theorem release_reschedules_witness:
  "\<exists>j' d'. map_of (job_rows two_released) ''scrape'' = Some j' \<and> jr_fails j' = 1 \<and> jr_due j' = Some d' \<and> 8100 < d' \<and> d' \<le> 8160"
proof -
  let ?j = "the (map_of (job_rows two_db2) ''scrape'')"
  have r: "release 8100 (two_lease ''scrape'' 1) ''failed'' (Some ''backoff'') None (Some 1) two_db2 = Some (True, two_released)"
  proof -
    have "map_option fst (release 8100 (two_lease ''scrape'' 1) ''failed'' (Some ''backoff'') None (Some 1) two_db2) = Some True"
      by code_simp
    then show ?thesis by (auto simp: two_released_def)
  qed
  have j: "map_of (job_rows two_db2) (h_job (two_lease ''scrape'' 1)) = Some ?j" by code_simp
  have c: "0 < jr_cadence ?j" "jr_due ?j = Some 3660" "jr_fails ?j = 0" by code_simp+
  show ?thesis
    using release_reschedules [OF r j c(1,2)] c(3) by (auto simp: two_lease_def)
qed

end
