(* ===== verification/Job_Guard.thy ===== *)
theory Job_Guard
  imports Complex_Main Prelude
begin

text \<open>
  \<^verbatim>\<open>scraper/job_process.py\<close>: \<open>Guard\<close>, the thread of the job runner that sends every signal, and the
  record \<open>Watch\<close> it keeps of a child. Each method runs under the guard's lock, so it is one step. The
  clock, whether a stop was requested and the memory samples of the children are arguments of a pass.
  \<open>events\<close> records what happens to the children, in order: when one is taken under watch, each signal sent
  to it, and (by the runner) its reap; a signal to a process that is gone does nothing, as in the code.
  The queue of log lines is left out.
\<close>

datatype stop_reason = Timeout | Deploy | Fenced

datatype child_event = Watched int | Term int | Kill int | Reaped int

record watch =
  w_term_at :: rat
  w_fence_at :: rat
  w_label :: string
  w_reason :: "stop_reason option"
  w_kill_at :: "rat option"
  w_killed :: bool
  w_peak :: "int option"

record guard =
  grace_s :: rat
  liveness_s :: rat
  watches :: "(int, watch) dict"
  clean_at :: rat
  stop_at :: "rat option"
  events :: "child_event list"

definition new_watch :: "rat \<Rightarrow> rat \<Rightarrow> string \<Rightarrow> watch" where
  "new_watch term_at fence_at lbl = \<lparr>w_term_at = term_at, w_fence_at = fence_at, w_label = lbl,
     w_reason = None, w_kill_at = None, w_killed = False, w_peak = None\<rparr>"

definition new_guard :: "rat \<Rightarrow> rat \<Rightarrow> rat \<Rightarrow> guard" where
  "new_guard now grace liveness = \<lparr>grace_s = grace, liveness_s = liveness, watches = [],
     clean_at = now, stop_at = None, events = []\<rparr>"

section \<open>The runner's calls\<close>

definition watch_child :: "int \<Rightarrow> rat \<Rightarrow> rat \<Rightarrow> string \<Rightarrow> guard \<Rightarrow> guard" where
  "watch_child pid term_at fence_at lbl g =
     g\<lparr>watches := AList.update pid (new_watch term_at fence_at lbl) (watches g), events := events g @ [Watched pid]\<rparr>"

definition move_fence :: "int \<Rightarrow> rat \<Rightarrow> guard \<Rightarrow> guard" where
  "move_fence pid fence_at g =
     g\<lparr>watches := update_rows (\<lambda>p _. p = pid) (\<lambda>w. w\<lparr>w_fence_at := fence_at\<rparr>) (watches g)\<rparr>"

text \<open>\<^verbatim>\<open>watch.reason = watch.reason or ...\<close>: the first cause wins.\<close>

definition blame :: "stop_reason \<Rightarrow> watch \<Rightarrow> watch" where
  "blame why w = (case w_reason w of None \<Rightarrow> w\<lparr>w_reason := Some why\<rparr> | Some _ \<Rightarrow> w)"

definition fence_now :: "int \<Rightarrow> guard \<Rightarrow> guard" where
  "fence_now pid g =
     (case map_of (watches g) pid of
        None \<Rightarrow> g
      | Some w \<Rightarrow> if w_killed w then g
          else g\<lparr>watches := AList.update pid ((blame Fenced w)\<lparr>w_killed := True\<rparr>) (watches g), events := events g @ [Kill pid]\<rparr>)"

definition forget :: "int \<Rightarrow> guard \<Rightarrow> watch \<times> guard" where
  "forget pid g =
     (case map_of (watches g) pid of None \<Rightarrow> new_watch 0 0 [] | Some w \<Rightarrow> w,
      g\<lparr>watches := AList.delete pid (watches g), events := events g @ [Kill pid]\<rparr>)"

definition tick_done :: "rat \<Rightarrow> guard \<Rightarrow> guard" where
  "tick_done now g = g\<lparr>clean_at := now\<rparr>"

section \<open>A pass\<close>

definition sampled :: "int option \<Rightarrow> watch \<Rightarrow> watch" where
  "sampled mb w =
     (if w_killed w then w
      else case mb of None \<Rightarrow> w | Some m \<Rightarrow> w\<lparr>w_peak := Some (max (case w_peak w of None \<Rightarrow> 0 | Some p \<Rightarrow> p) m)\<rparr>)"

text \<open>The SIGTERM of a pass: for a stop, at the stop's own grace; else at the job's time limit.\<close>

definition ask_to_stop :: "rat \<Rightarrow> rat option \<Rightarrow> rat \<Rightarrow> int \<Rightarrow> watch \<Rightarrow> watch \<times> child_event list" where
  "ask_to_stop now stop grace pid w =
     (case (w_reason w, stop) of
        (None, Some s) \<Rightarrow> (w\<lparr>w_reason := Some Deploy, w_kill_at := Some (s + grace)\<rparr>, [Term pid])
      | (None, None) \<Rightarrow>
          if w_term_at w \<le> now
          then (w\<lparr>w_reason := Some Timeout, w_kill_at := Some (now + grace)\<rparr>, [Term pid])
          else (w, [])
      | (Some _, _) \<Rightarrow> (w, []))"

definition pass_child :: "rat \<Rightarrow> rat option \<Rightarrow> rat \<Rightarrow> int option \<Rightarrow> int \<Rightarrow> watch \<Rightarrow> watch \<times> child_event list" where
  "pass_child now stop grace mb pid w0 =
     (let w = sampled mb w0
      in if \<not> w_killed w \<and> w_fence_at w \<le> now
         then ((blame Fenced w)\<lparr>w_killed := True\<rparr>, [Kill pid])
         else
           let (w', sent) = ask_to_stop now stop grace pid w
           in if \<not> w_killed w' \<and> (case w_kill_at w' of None \<Rightarrow> False | Some k \<Rightarrow> k \<le> now)
              then (w'\<lparr>w_killed := True\<rparr>, sent @ [Kill pid])
              else (w', sent))"

definition seen_stop :: "rat \<Rightarrow> bool \<Rightarrow> guard \<Rightarrow> rat option" where
  "seen_stop now stopping g =
     (case stop_at g of None \<Rightarrow> if stopping then Some now else None | Some s \<Rightarrow> Some s)"

definition guard_pass :: "rat \<Rightarrow> bool \<Rightarrow> (int \<Rightarrow> int option) \<Rightarrow> guard \<Rightarrow> guard" where
  "guard_pass now stopping sample g =
     (let s = seen_stop now stopping g;
          done = map (\<lambda>(pid, w). (pid, pass_child now s (grace_s g) (sample pid) pid w)) (watches g)
      in g\<lparr>stop_at := s, watches := map (\<lambda>(pid, w, _). (pid, w)) done,
           events := events g @ concat (map (\<lambda>(_, _, sent). sent) done)\<rparr>)"

text \<open>One round of \<open>serve\<close>: a pass, then the watchdog, which kills every group and exits.\<close>

definition trip :: "guard \<Rightarrow> guard" where
  "trip g = g\<lparr>events := events g @ map (\<lambda>(pid, _). Kill pid) (watches g)\<rparr>"

definition serve_round :: "rat \<Rightarrow> bool \<Rightarrow> (int \<Rightarrow> int option) \<Rightarrow> bool \<Rightarrow> guard \<Rightarrow> bool \<times> guard" where
  "serve_round now stopping sample watchdog g =
     (let g' = guard_pass now stopping sample g
      in if watchdog \<and> liveness_s g' < now - clean_at g' then (True, trip g') else (False, g'))"

section \<open>Runs of the guard\<close>

datatype guard_call =
    Watch_call int rat rat string
  | Move_call int rat
  | Fence_call int
  | Forget_call int
  | Tick_call rat
  | Pass_call rat bool "int \<Rightarrow> int option"

fun guard_step :: "guard_call \<Rightarrow> guard \<Rightarrow> guard" where
  "guard_step (Watch_call pid t f lbl) g = watch_child pid t f lbl g"
| "guard_step (Move_call pid f) g = move_fence pid f g"
| "guard_step (Fence_call pid) g = fence_now pid g"
| "guard_step (Forget_call pid) g = snd (forget pid g)"
| "guard_step (Tick_call t) g = tick_done t g"
| "guard_step (Pass_call t st sample) g = guard_pass t st sample g"

end
