(* ===== verification/Job_Runner.thy ===== *)
theory Job_Runner
  imports Job_Lease Job_Guard
begin

text \<open>
  \<^verbatim>\<open>scraper/job_runner.py\<close>: \<open>Runner\<close>, which runs the registry's due jobs, over \<open>PgLedger\<close>, which asks
  the tables of \<open>Job_Lease\<close>, and over the guard of \<open>Job_Guard\<close>. A tick is a function of the state and of
  what the tick meets (\<open>tick_in\<close>): what each child looks like, and for every ledger call the clock, the
  moment it runs at, what others committed before it, how the link answered, and the passes the guard's
  thread made meanwhile. An exception that leaves a phase is \<open>False\<close> beside the state reached.

  The command and environment of a child, the heartbeat's details and the log lines are left out; \<open>granted\<close>
  and \<open>answered\<close> record the leases the ledger granted and the releases it answered, oldest first.
\<close>

section \<open>How a run ends\<close>

definition MORE_REMAINS_EXIT :: int where "MORE_REMAINS_EXIT = 75"

definition settle :: "stop_reason option \<Rightarrow> int option \<Rightarrow> bool \<Rightarrow> bool \<Rightarrow> string \<times> string" where
  "settle reason code stopping db_heavy =
     (let (outcome, due) =
            (if code = None then (''failed'', ''backoff'')
             else if reason = Some Timeout then (''timeout'', ''retry'')
             else if code = Some 0 then (''ok'', ''slot'')
             else if code = Some MORE_REMAINS_EXIT then (''ok'', ''more'')
             else if reason = Some Deploy \<or> reason = Some Fenced \<or> stopping then (''interrupted'', ''now'')
             else (''failed'', ''backoff''))
      in (outcome, if db_heavy \<and> due \<in> {''backoff'', ''retry''} then ''own_hour'' else due))"

text \<open>\<open>signal.Signals(n).name\<close> on Linux; a real-time signal between the two bounds has no name.\<close>

definition signal_names :: "string list" where
  "signal_names = [''SIGHUP'', ''SIGINT'', ''SIGQUIT'', ''SIGILL'', ''SIGTRAP'', ''SIGABRT'', ''SIGBUS'', ''SIGFPE'',
     ''SIGKILL'', ''SIGUSR1'', ''SIGSEGV'', ''SIGUSR2'', ''SIGPIPE'', ''SIGALRM'', ''SIGTERM'', ''SIGSTKFLT'',
     ''SIGCHLD'', ''SIGCONT'', ''SIGSTOP'', ''SIGTSTP'', ''SIGTTIN'', ''SIGTTOU'', ''SIGURG'', ''SIGXCPU'',
     ''SIGXFSZ'', ''SIGVTALRM'', ''SIGPROF'', ''SIGWINCH'', ''SIGIO'', ''SIGPWR'', ''SIGSYS'']"

definition signal_name :: "int \<Rightarrow> string" where
  "signal_name n =
     (if 1 \<le> n \<and> n \<le> 31 then signal_names ! nat (n - 1)
      else if n = 34 then ''SIGRTMIN'' else if n = 64 then ''SIGRTMAX''
      else ''signal '' @ show_int n)"

record job = job_spec +
  js_memory_mb :: int
  js_db_heavy :: bool

definition cause :: "job \<Rightarrow> stop_reason option \<Rightarrow> int option \<Rightarrow> int option \<Rightarrow> nat \<Rightarrow> string option" where
  "cause j reason code peak_mb left =
     (let text =
            (case code of
               None \<Rightarrow> Some ''spawn failed''
             | Some c \<Rightarrow>
                 if reason = Some Timeout
                 then Some (''stopped at timeout_s='' @ show_int (js_timeout j) @ ''; exit '' @ show_int c)
                 else if c = 0 \<or> c = MORE_REMAINS_EXIT then None
                 else if reason = Some Deploy then Some (''deploy stop; exit '' @ show_int c)
                 else if reason = Some Fenced then Some (''lease fenced; exit '' @ show_int c)
                 else if c = - 9
                 then Some (''SIGKILL not sent by the runner (likely the OOM killer); peak ''
                            @ (case peak_mb of None \<Rightarrow> ''None'' | Some m \<Rightarrow> show_int m)
                            @ '' MB of memory_mb '' @ show_int (js_memory_mb j))
                 else if c < 0 then Some (''killed by '' @ signal_name (- c))
                 else Some (''exit '' @ show_int c));
          tail = show_nat left @ '' processes outlived the leader by 10 s''
      in if left = 0 then text
         else Some (case text of None \<Rightarrow> tail | Some t \<Rightarrow> t @ ''; '' @ tail))"

section \<open>The state\<close>

record running =
  ru_job :: job
  ru_lease :: lease
  ru_started :: rat
  ru_renew_at :: "rat option"
  ru_exit :: "int option"
  ru_watch :: "watch option"
  ru_reaped_at :: "rat option"

record finished =
  fi_lease :: lease
  fi_outcome :: string
  fi_due :: string
  fi_error :: "string option"
  fi_exit :: "int option"
  fi_peak :: "int option"
  fi_tail :: string
  fi_bare :: bool

text \<open>
  The runner with its guard, its ledger and the tables the ledger asks. \<open>None\<close> of a next time is
  minus infinity, of \<open>ru_renew_at\<close> infinity.
\<close>

record runner =
  registry :: "job list"
  service :: bool
  claim_limit :: "nat option"
  max_children :: nat
  pid1 :: bool
  beats :: bool
  renew_every_s :: rat
  straggler_wait_s :: rat
  stop_phase_budget_s :: rat
  children :: "(int, running) dict"
  unreleased :: "finished list"
  last_released :: "(finished \<times> bool) option"
  is_registered :: bool
  skipped :: "string list"
  claims :: nat
  claim_passes :: nat
  answer_by :: "rat option"
  passes_at_beat :: nat
  next_claim_at :: "rat option"
  next_beat_at :: "rat option"
  next_prune_at :: "rat option"
  budget_until :: "rat option"
  the_guard :: guard
  pg_holder :: string
  pg_version :: "string option"
  pg_heartbeat :: bool
  pg_claims :: nat
  pg_up :: bool
  pg_stopping :: bool
  tables :: jobs
  granted :: "lease list"
  answered :: "(finished \<times> bool) list"

definition CLAIM_EVERY_S :: rat where "CLAIM_EVERY_S = 5"
definition BEAT_EVERY_S :: rat where "BEAT_EVERY_S = 30"
definition PRUNE_EVERY_S :: rat where "PRUNE_EVERY_S = 86400"
definition JOB_RUNNER :: string where "JOB_RUNNER = ''job-runner''"

definition stopping :: "runner \<Rightarrow> bool" where
  "stopping r \<longleftrightarrow> stop_at (the_guard r) \<noteq> None"

section \<open>The guard's thread and the ledger's link\<close>

record pass =
  ps_now :: rat
  ps_stop :: bool
  ps_sample :: "int \<Rightarrow> int option"

definition guard_passes :: "pass list \<Rightarrow> runner \<Rightarrow> runner" where
  "guard_passes ps r =
     r\<lparr>the_guard := fold (\<lambda>p. guard_pass (ps_now p) (ps_stop p) (ps_sample p)) ps (the_guard r)\<rparr>"

text \<open>
  How a call ends: answered; refused by the server, its content at fault or not; or the connection is
  lost, with the transaction committed or not.
\<close>

datatype link = Answered | Refused bool | Lost bool

record moment =
  mo_passes :: "pass list"
  mo_clock :: rat
  mo_others :: "jobs \<Rightarrow> jobs"
  mo_sent :: rat
  mo_at :: rat
  mo_link :: link

text \<open>
  \<open>PgLedger._call\<close> behind \<open>Runner._ask\<close>: the call is not made, is made and fails (its content at fault or
  not), or is answered. \<open>ask\<close> reads the first two as the code's \<^verbatim>\<open>None\<close>.
\<close>

datatype 'a reply = Unasked | Failed bool | Reply 'a

definition reach :: "moment \<Rightarrow> (jobs \<Rightarrow> 'a \<times> jobs) \<Rightarrow> runner \<Rightarrow> 'a reply \<times> runner" where
  "reach m tx r0 =
     (let r = guard_passes (mo_passes m) r0
      in if \<not> pg_up r \<or> (case budget_until r of None \<Rightarrow> False | Some b \<Rightarrow> b \<le> mo_clock m) then (Unasked, r)
         else
           let db = mo_others m (tables r); (a, db') = tx db
           in case mo_link m of
                Answered \<Rightarrow> (Reply a, r\<lparr>tables := db'\<rparr>)
              | Refused content \<Rightarrow> (Failed content, r\<lparr>tables := db, pg_up := \<not> pg_stopping r\<rparr>)
              | Lost committed \<Rightarrow> (Failed False, r\<lparr>tables := if committed then db' else db, pg_up := False\<rparr>))"

definition ask :: "moment \<Rightarrow> (jobs \<Rightarrow> 'a \<times> jobs) \<Rightarrow> runner \<Rightarrow> 'a option \<times> runner" where
  "ask m tx r = (case reach m tx r of (Reply a, r') \<Rightarrow> (Some a, r') | (_, r') \<Rightarrow> (None, r'))"

text \<open>A phase may raise; the rest of it then does not happen.\<close>

definition and_then :: "bool \<times> runner \<Rightarrow> (runner \<Rightarrow> bool \<times> runner) \<Rightarrow> bool \<times> runner" where
  "and_then s f = (if fst s then f (snd s) else s)"

section \<open>The process phase\<close>

text \<open>
  What the phase finds of a child: whether it has exited, its exit code (\<open>None\<close> for either: the call
  raises), the live processes left in its group, whether its output is at an end, and the output's tail.
\<close>

record sight =
  si_passes :: "pass list"
  si_exited :: "bool option"
  si_code :: "int option"
  si_left :: nat
  si_reader_done :: bool
  si_tail :: string

definition settle_run :: "int \<Rightarrow> running \<Rightarrow> sight \<Rightarrow> runner \<Rightarrow> runner" where
  "settle_run pid run si r =
     (let watch = (case ru_watch run of None \<Rightarrow> new_watch 0 0 [] | Some w \<Rightarrow> w);
          stopped = (case (stop_at (the_guard r), ru_reaped_at run) of (Some s, Some t) \<Rightarrow> s \<le> t | _ \<Rightarrow> False);
          (outcome, due) = settle (w_reason watch) (ru_exit run) stopped (js_db_heavy (ru_job run));
          error = cause (ru_job run) (w_reason watch) (ru_exit run) (w_peak watch) (si_left si)
      in r\<lparr>unreleased := unreleased r @ [\<lparr>fi_lease = ru_lease run, fi_outcome = outcome, fi_due = due,
             fi_error = error, fi_exit = ru_exit run, fi_peak = w_peak watch, fi_tail = si_tail si, fi_bare = False\<rparr>],
           children := AList.delete pid (children r)\<rparr>)"

definition put_run :: "int \<Rightarrow> running \<Rightarrow> runner \<Rightarrow> runner" where
  "put_run pid run r = r\<lparr>children := AList.update pid run (children r)\<rparr>"

text \<open>The reap: the guard forgets the child first. \<open>None\<close> is an exception, with the run as it is then.\<close>

definition reap_run :: "rat \<Rightarrow> int \<Rightarrow> running \<Rightarrow> sight \<Rightarrow> runner \<Rightarrow> running option \<times> runner" where
  "reap_run now pid run si r =
     (if ru_exit run \<noteq> None then (Some run, r)
      else case si_exited si of
             None \<Rightarrow> (None, r)
           | Some False \<Rightarrow> (Some run, r)
           | Some True \<Rightarrow>
               let (w, g) = forget pid (the_guard r);
                   run1 = run\<lparr>ru_watch := Some w\<rparr>
               in (case si_code si of
                     None \<Rightarrow> (None, put_run pid run1 (r\<lparr>the_guard := g\<rparr>))
                   | Some c \<Rightarrow>
                       let run2 = run1\<lparr>ru_exit := Some c, ru_reaped_at := Some now\<rparr>
                       in (Some run2, put_run pid run2 (r\<lparr>the_guard := g\<lparr>events := events g @ [Reaped pid]\<rparr>\<rparr>))))"

definition see_child :: "rat \<Rightarrow> (int \<Rightarrow> sight) \<Rightarrow> int \<times> running \<Rightarrow> bool \<times> runner \<Rightarrow> bool \<times> runner" where
  "see_child now sights = (\<lambda>(pid, run) (clean, r0).
     let si = sights pid; r = guard_passes (si_passes si) r0
     in case reap_run now pid run si r of
          (None, r1) \<Rightarrow> (False, r1)
        | (Some run', r1) \<Rightarrow>
            (clean,
             case (ru_exit run', ru_reaped_at run') of
               (Some _, Some t) \<Rightarrow>
                 if si_left si = 0 \<and> si_reader_done si \<or> t + straggler_wait_s r1 \<le> now
                 then settle_run pid run' si r1 else r1
             | _ \<Rightarrow> r1))"

definition process_phase :: "rat \<Rightarrow> (int \<Rightarrow> sight) \<Rightarrow> bool \<Rightarrow> runner \<Rightarrow> bool \<times> runner" where
  "process_phase now sights orphans_ok r =
     (let (clean, r') = fold (see_child now sights) (children r) (True, r)
      in (clean \<and> (pid1 r \<longrightarrow> orphans_ok), r'))"

section \<open>The ledger phase\<close>

record spawning =
  sp_passes :: "pass list"
  sp_child :: "int + string"

record tick_in =
  ti_process_now :: rat
  ti_sights :: "int \<Rightarrow> sight"
  ti_orphans_ok :: bool
  ti_passes :: "pass list"
  ti_ledger_now :: rat
  ti_register :: moment
  ti_retire :: moment
  ti_release :: "int \<Rightarrow> moment"
  ti_renew :: "int \<Rightarrow> moment"
  ti_lost :: moment
  ti_due :: moment
  ti_claim :: "string \<Rightarrow> moment"
  ti_spawn :: "nat \<Rightarrow> spawning"
  ti_beat :: moment
  ti_forget :: moment
  ti_prune :: moment
  ti_end :: rat

definition register_jobs :: "tick_in \<Rightarrow> runner \<Rightarrow> runner" where
  "register_jobs ti r0 =
     (case ask (ti_register ti)
             (\<lambda>db. register (mo_at (ti_register ti)) JOB_RUNNER (map job_spec.truncate (registry r0)) db) r0 of
        (None, r) \<Rightarrow> r
      | (Some result, r) \<Rightarrow>
          (case ask (ti_retire ti)
                  (\<lambda>db. retire_jobs (mo_at (ti_retire ti)) JOB_RUNNER (map js_name (registry r)) db) r of
             (None, r') \<Rightarrow> r'
           | (Some _, r') \<Rightarrow> r'\<lparr>is_registered := True, skipped := reg_skipped result\<rparr>))"

text \<open>
  \<open>PgLedger.release\<close>: a bare release sends no error and no tail. The code's \<^verbatim>\<open>ValueError\<close> of an outcome or
  due kind the tables do not know (\<open>None\<close> of \<open>release\<close>) leaves the phase.
\<close>

definition release_tx :: "moment \<Rightarrow> finished \<Rightarrow> jobs \<Rightarrow> bool option \<times> jobs" where
  "release_tx m d db =
     (case release (mo_at m) (fi_lease d) (fi_outcome d) (Some (fi_due d)) (if fi_bare d then None else fi_error d)
             (fi_exit d) db of
        None \<Rightarrow> (None, db)
      | Some (b, db') \<Rightarrow> (Some b, db'))"

text \<open>\<open>kept\<close> are the runs passed over so far, \<open>ds\<close> those still to ask for; the list is always both.\<close>

fun release_loop :: "(int \<Rightarrow> moment) \<Rightarrow> finished list \<Rightarrow> finished list \<Rightarrow> runner \<Rightarrow> bool \<times> runner" where
  "release_loop ms kept [] r = (True, r)"
| "release_loop ms kept (d # ds) r =
     (let m = ms (le_run (fi_lease d))
      in case reach m (release_tx m d) r of
           (Reply None, r') \<Rightarrow> (False, r')
         | (Reply (Some b), r') \<Rightarrow>
             release_loop ms kept ds (r'\<lparr>unreleased := kept @ ds, last_released := Some (d, b),
                                         answered := answered r' @ [(d, b)]\<rparr>)
         | (Failed True, r') \<Rightarrow>
             release_loop ms (kept @ [d\<lparr>fi_bare := True\<rparr>]) ds (r'\<lparr>unreleased := kept @ d\<lparr>fi_bare := True\<rparr> # ds\<rparr>)
         | (_, r') \<Rightarrow> release_loop ms (kept @ [d]) ds r')"

definition release_all :: "(int \<Rightarrow> moment) \<Rightarrow> runner \<Rightarrow> bool \<times> runner" where
  "release_all ms r = release_loop ms [] (unreleased r) r"

definition renew_one :: "rat \<Rightarrow> (int \<Rightarrow> moment) \<Rightarrow> int \<times> running \<Rightarrow> runner \<Rightarrow> runner" where
  "renew_one now ms = (\<lambda>(pid, run) r0.
     if (case ru_renew_at run of None \<Rightarrow> True | Some t \<Rightarrow> now < t) then r0
     else
       let m = ms pid
       in case ask m (\<lambda>db. case renew (mo_sent m) (mo_at m) (ru_lease run) db of (b, l, db') \<Rightarrow> ((b, l), db')) r0 of
            (None, r) \<Rightarrow> r
          | (Some (True, l), r) \<Rightarrow>
              put_run pid (run\<lparr>ru_lease := l, ru_renew_at := Some (now + renew_every_s r)\<rparr>)
                (r\<lparr>the_guard := move_fence pid (h_fence l) (the_guard r)\<rparr>)
          | (Some (False, _), r) \<Rightarrow>
              put_run pid (run\<lparr>ru_renew_at := None\<rparr>) (r\<lparr>the_guard := fence_now pid (the_guard r)\<rparr>))"

definition renew_all :: "rat \<Rightarrow> (int \<Rightarrow> moment) \<Rightarrow> runner \<Rightarrow> runner" where
  "renew_all now ms r = fold (renew_one now ms) (children r) r"

text \<open>\<open>PgLedger.claim\<close>: each claim that is made is its own holder.\<close>

definition claim_holder :: "runner \<Rightarrow> string" where
  "claim_holder r = pg_holder r @ ''/'' @ show_nat (pg_claims r)"

definition claim_job :: "moment \<Rightarrow> string \<Rightarrow> runner \<Rightarrow> lease option \<times> runner" where
  "claim_job m name r0 =
     (case reach m (claim (mo_sent m) (mo_at m) name (claim_holder r0) TTL_S (pg_version r0)) r0 of
        (Unasked, r) \<Rightarrow> (None, r)
      | (Failed _, r) \<Rightarrow> (None, r\<lparr>pg_claims := pg_claims r + 1\<rparr>)
      | (Reply None, r) \<Rightarrow> (None, r\<lparr>pg_claims := pg_claims r + 1\<rparr>)
      | (Reply (Some l), r) \<Rightarrow> (Some l, r\<lparr>pg_claims := pg_claims r + 1, granted := granted r @ [l]\<rparr>))"

definition not_run :: "lease \<Rightarrow> string \<Rightarrow> string \<Rightarrow> string \<Rightarrow> finished" where
  "not_run l outcome due error = \<lparr>fi_lease = l, fi_outcome = outcome, fi_due = due, fi_error = Some error,
     fi_exit = None, fi_peak = None, fi_tail = [], fi_bare = False\<rparr>"

definition spawn_child :: "rat \<Rightarrow> spawning \<Rightarrow> job \<Rightarrow> lease \<Rightarrow> runner \<Rightarrow> runner" where
  "spawn_child now sp j l r0 =
     (let r = guard_passes (sp_passes sp) r0
      in case sp_child sp of
           Inl pid \<Rightarrow>
             put_run pid \<lparr>ru_job = j, ru_lease = l, ru_started = now, ru_renew_at = Some (now + renew_every_s r),
                          ru_exit = None, ru_watch = None, ru_reaped_at = None\<rparr>
               (r\<lparr>the_guard := watch_child pid (now + of_int (js_timeout j)) (h_fence l)
                               (js_name j @ ''#'' @ show_int (le_run l)) (the_guard r)\<rparr>)
         | Inr error \<Rightarrow>
             r\<lparr>unreleased := unreleased r
                 @ [not_run l ''failed'' (snd (settle None None False (js_db_heavy j))) (''spawn: '' @ error)]\<rparr>)"

text \<open>The spawn a claim leads to is given by the claim's number.\<close>

fun claim_loop :: "rat \<Rightarrow> (string \<Rightarrow> moment) \<Rightarrow> (nat \<Rightarrow> spawning) \<Rightarrow> string list \<Rightarrow> runner \<Rightarrow> bool \<times> runner" where
  "claim_loop now ms sps [] r = (True, r)"
| "claim_loop now ms sps (name # names) r =
     (if max_children r \<le> length (children r) \<or> stopping r then (True, r)
      else if (case claim_limit r of None \<Rightarrow> False | Some n \<Rightarrow> n \<le> claims r) then (True, r)
      else case claim_job (ms name) name r of
             (None, r1) \<Rightarrow> claim_loop now ms sps names r1
           | (Some l, r1) \<Rightarrow>
               let r2 = r1\<lparr>claims := claims r1 + 1\<rparr>
               in if stopping r2
                  then (True, r2\<lparr>unreleased := unreleased r2
                                   @ [not_run l ''interrupted'' ''now'' ''deploy stop; not started'']\<rparr>)
                  else case find (\<lambda>j. js_name j = name) (rev (registry r2)) of
                         None \<Rightarrow> (False, r2)
                       | Some j \<Rightarrow> claim_loop now ms sps names (spawn_child now (sps (claims r2)) j l r2))"

definition claim_pass :: "tick_in \<Rightarrow> runner \<Rightarrow> bool \<times> runner" where
  "claim_pass ti r0 =
     (let now = ti_ledger_now ti;
          r1 = r0\<lparr>next_claim_at := Some (now + CLAIM_EVERY_S)\<rparr>;
          names = filter (\<lambda>n. n \<notin> set (skipped r1)) (map js_name (registry r1));
          on_hour = map js_name (filter (\<lambda>j. js_db_heavy j \<and> js_name j \<in> set names) (registry r1))
      in case ask (ti_lost ti) (reap_lost (mo_at (ti_lost ti)) names on_hour JOB_RUNNER) r1 of
           (None, r2) \<Rightarrow> (True, r2)
         | (Some _, r2) \<Rightarrow>
             (case ask (ti_due ti) (\<lambda>db. (due_jobs (mo_at (ti_due ti)) names JOB_RUNNER db, db)) r2 of
                (None, r3) \<Rightarrow> (True, r3)
              | (Some due, r3) \<Rightarrow>
                  claim_loop now (ti_claim ti) (ti_spawn ti) due (r3\<lparr>claim_passes := claim_passes r3 + 1\<rparr>)))"

text \<open>The heartbeat's own table is not modelled: its two calls leave the tables alone.\<close>

definition beat_call :: "moment \<Rightarrow> runner \<Rightarrow> runner" where
  "beat_call m r = (if pg_heartbeat r then snd (ask m (\<lambda>db. ((), db)) r) else r)"

definition since :: "rat option \<Rightarrow> rat \<Rightarrow> bool" where
  "since t now = (case t of None \<Rightarrow> True | Some u \<Rightarrow> u \<le> now)"

definition beat_step :: "tick_in \<Rightarrow> runner \<Rightarrow> runner" where
  "beat_step ti r =
     (if service r \<and> beats r \<and> since (next_beat_at r) (ti_ledger_now ti) \<and> pg_up r
         \<and> passes_at_beat r < claim_passes r \<and> \<not> stopping r
      then beat_call (ti_forget ti) (beat_call (ti_beat ti)
             (r\<lparr>next_beat_at := Some (ti_ledger_now ti + BEAT_EVERY_S), passes_at_beat := claim_passes r\<rparr>))
      else r)"

definition prune_step :: "tick_in \<Rightarrow> runner \<Rightarrow> runner" where
  "prune_step ti r =
     (if service r \<and> since (next_prune_at r) (ti_ledger_now ti) \<and> pg_up r
      then snd (ask (ti_prune ti) (prune_runs (mo_at (ti_prune ti)) 90)
             (r\<lparr>next_prune_at := Some (ti_ledger_now ti + PRUNE_EVERY_S)\<rparr>))
      else r)"

definition ledger_begin :: "rat \<Rightarrow> runner \<Rightarrow> runner" where
  "ledger_begin now r =
     r\<lparr>budget_until := if stopping r then Some (now + stop_phase_budget_s r) else None,
       pg_up := True, pg_stopping := stopping r\<rparr>"

definition claim_step :: "tick_in \<Rightarrow> runner \<Rightarrow> bool \<times> runner" where
  "claim_step ti r =
     (if (is_registered r \<or> \<not> service r) \<and> since (next_claim_at r) (ti_ledger_now ti) \<and> pg_up r
      then claim_pass ti r else (True, r))"

definition ledger_phase :: "tick_in \<Rightarrow> runner \<Rightarrow> bool \<times> runner" where
  "ledger_phase ti r0 =
     (let r = ledger_begin (ti_ledger_now ti) r0;
          r1 = (if service r \<and> \<not> stopping r0 \<and> \<not> is_registered r then register_jobs ti r else r)
      in and_then (release_all (ti_release ti) r1) (\<lambda>r2.
           let r3 = renew_all (ti_ledger_now ti) (ti_renew ti) r2
           in if stopping r0 \<or> stopping r3 then (True, r3)
              else and_then (claim_step ti r3) (\<lambda>r4. (True, prune_step ti (beat_step ti r4)))))"

section \<open>Ticks\<close>

definition all_done :: "rat \<Rightarrow> runner \<Rightarrow> bool" where
  "all_done now r \<longleftrightarrow> children r = [] \<and> unreleased r = [] \<and>
     (stopping r \<or> \<not> service r \<and> (0 < claim_passes r \<or> (case answer_by r of None \<Rightarrow> False | Some t \<Rightarrow> t \<le> now)))"

definition tick :: "tick_in \<Rightarrow> runner \<Rightarrow> bool \<times> runner" where
  "tick ti r0 =
     (let (clean, r1) = process_phase (ti_process_now ti) (ti_sights ti) (ti_orphans_ok ti) r0;
          (returned, r2) = ledger_phase ti (guard_passes (ti_passes ti) r1);
          r3 = (if returned \<and> clean then r2\<lparr>the_guard := tick_done (ti_end ti) (the_guard r2)\<rparr> else r2)
      in (returned \<and> all_done (ti_end ti) r3, r3))"

text \<open>
  \<open>loop\<close>: ticks until one says that nothing is left, or the drain of a stop is spent. \<open>None\<close>: the given
  ticks are used up and it is still running.
\<close>

definition drain_spent :: "rat \<Rightarrow> rat \<Rightarrow> runner \<Rightarrow> bool" where
  "drain_spent draining now r = (case stop_at (the_guard r) of None \<Rightarrow> False | Some s \<Rightarrow> s + draining \<le> now)"

fun loop :: "rat \<Rightarrow> tick_in list \<Rightarrow> runner \<Rightarrow> runner option" where
  "loop draining [] r = None"
| "loop draining (ti # tis) r =
     (case tick ti r of (finished, r') \<Rightarrow>
        if finished \<or> drain_spent draining (ti_end ti) r' then Some r' else loop draining tis r')"

text \<open>The exit code of \<open>once\<close>, read off the runner the loop leaves.\<close>

definition once_code :: "runner \<Rightarrow> int" where
  "once_code r =
     (if claims r = 0
      then if stopping r then 143 else if claim_passes r = 0 then 1 else 0
      else case last_released r of
             Some (d, True) \<Rightarrow> if fi_outcome d = ''ok'' then 0 else if fi_outcome d = ''interrupted'' then 143 else 1
           | _ \<Rightarrow> 1)"

text \<open>A runner as it is made, with its guard and its ledger.\<close>

definition new_runner :: "job list \<Rightarrow> bool \<Rightarrow> nat option \<Rightarrow> bool \<Rightarrow> rat option \<Rightarrow> string \<Rightarrow> bool \<Rightarrow> rat \<Rightarrow> jobs \<Rightarrow> runner" where
  "new_runner jobs_of serves limit first_process give_up holder heart now db = \<lparr>
     registry = jobs_of, service = serves, claim_limit = limit, max_children = 3, pid1 = first_process,
     beats = heart, renew_every_s = 60, straggler_wait_s = 10, stop_phase_budget_s = 10,
     children = [], unreleased = [], last_released = None, is_registered = False, skipped = [],
     claims = 0, claim_passes = 0, answer_by = give_up, passes_at_beat = 0,
     next_claim_at = None, next_beat_at = None, next_prune_at = None, budget_until = None,
     the_guard = new_guard now 90 300, pg_holder = holder, pg_version = None, pg_heartbeat = heart, pg_claims = 1,
     pg_up = True, pg_stopping = False, tables = db, granted = [], answered = []\<rparr>"

end
