(* ===== verification/Job_Guard_Laws.thy ===== *)
theory Job_Guard_Laws
  imports Job_Guard
begin

text \<open>
  What the guard promises of one child: the signals it was sent are what its record says, at most one
  SIGTERM and then at most one SIGKILL, for the first cause; a child asked to stop is dead a grace later;
  and no pass leaves a child alive past its fence.
\<close>

section \<open>One child\<close>

definition watch_ok :: "watch \<Rightarrow> bool" where
  "watch_ok w \<longleftrightarrow> (w_reason w = None \<longleftrightarrow> w_kill_at w = None \<and> \<not> w_killed w)"

text \<open>The signals a record stands for, and a record that has only gone further.\<close>

definition told_child :: "int \<Rightarrow> watch \<Rightarrow> child_event list" where
  "told_child pid w = (if w_kill_at w = None then [] else [Term pid]) @ (if w_killed w then [Kill pid] else [])"

definition further :: "watch \<Rightarrow> watch \<Rightarrow> bool" where
  "further w w' \<longleftrightarrow> (w_killed w \<longrightarrow> w_killed w') \<and> (w_reason w \<noteq> None \<longrightarrow> w_reason w' = w_reason w)
     \<and> (w_kill_at w \<noteq> None \<longrightarrow> w_kill_at w' = w_kill_at w)"

definition signals_to :: "int \<Rightarrow> child_event list \<Rightarrow> child_event list" where
  "signals_to pid es = filter (\<lambda>e. e = Term pid \<or> e = Kill pid) es"

text \<open>From one record and log to the next: what was sent in between is what the record gained.\<close>

definition told_on :: "int \<Rightarrow> watch \<Rightarrow> child_event list \<Rightarrow> watch \<Rightarrow> child_event list \<Rightarrow> bool" where
  "told_on pid w es w' es' \<longleftrightarrow> watch_ok w' \<and> further w w' \<and>
     (\<exists>s. signals_to pid es' = signals_to pid es @ s \<and> told_child pid w' = told_child pid w @ s)"

lemma signals_to_simps [simp]:
  "signals_to pid [] = []"
  "signals_to pid (es @ fs) = signals_to pid es @ signals_to pid fs"
  "signals_to pid (Term p # es) = (if p = pid then Term p # signals_to pid es else signals_to pid es)"
  "signals_to pid (Kill p # es) = (if p = pid then Kill p # signals_to pid es else signals_to pid es)"
  "signals_to pid (Watched p # es) = signals_to pid es"
  "signals_to pid (Reaped p # es) = signals_to pid es"
  by (auto simp: signals_to_def)

lemma new_watch_simps [simp]:
  "w_reason (new_watch t f l) = None" "w_kill_at (new_watch t f l) = None" "\<not> w_killed (new_watch t f l)"
  "watch_ok (new_watch t f l)" "told_child pid (new_watch t f l) = []"
  by (simp_all add: new_watch_def watch_ok_def told_child_def)

lemma blame_simps [simp]:
  "w_killed (blame why w) = w_killed w" "w_kill_at (blame why w) = w_kill_at w"
  "w_fence_at (blame why w) = w_fence_at w" "w_reason (blame why w) \<noteq> None"
  "w_reason w \<noteq> None \<Longrightarrow> blame why w = w"
  by (auto simp: blame_def split: option.splits)

lemma blame_reason [simp]: "\<exists>r. w_reason (blame why w) = Some r"
  by (auto simp: blame_def split: option.splits)

lemma sampled_simps [simp]:
  "w_killed (sampled mb w) = w_killed w" "w_kill_at (sampled mb w) = w_kill_at w"
  "w_fence_at (sampled mb w) = w_fence_at w" "w_term_at (sampled mb w) = w_term_at w"
  "w_reason (sampled mb w) = w_reason w"
  by (auto simp: sampled_def split: option.splits)

lemma told_on_refl: "watch_ok w \<Longrightarrow> told_on pid w es w es"
  by (simp add: told_on_def further_def)

lemma told_on_trans [trans]:
  assumes "told_on pid w es w' es'" "told_on pid w' es' w'' es''"
  shows "told_on pid w es w'' es''"
  using assms unfolding told_on_def further_def by (metis append_assoc)

lemma killed_told_on:
  "watch_ok w \<Longrightarrow> \<not> w_killed w \<Longrightarrow> told_on pid w es ((blame Fenced w)\<lparr>w_killed := True\<rparr>) (es @ [Kill pid])"
  by (auto simp: told_on_def watch_ok_def further_def told_child_def)

text \<open>A pass over one child.\<close>

lemma pass_child_told:
  assumes "watch_ok w" "pass_child now stop grace mb pid w = (w', sent)"
  shows "watch_ok w' \<and> further w w' \<and> told_child pid w' = told_child pid w @ sent"
  using assms
  by (auto simp: pass_child_def ask_to_stop_def Let_def watch_ok_def further_def told_child_def
      split: if_splits option.splits prod.splits)

lemma pass_child_sent: "snd (pass_child now stop grace mb pid w) = sent \<Longrightarrow> set sent \<subseteq> {Term pid, Kill pid}"
  by (auto simp: pass_child_def ask_to_stop_def Let_def split: if_splits option.splits prod.splits)

lemma pass_child_fence: "w_fence_at (fst (pass_child now stop grace mb pid w)) = w_fence_at w"
  by (auto simp: pass_child_def ask_to_stop_def Let_def split: option.splits prod.splits)

text \<open>What a pass at or past a deadline leaves.\<close>

lemma pass_child_fenced: "w_fence_at w \<le> now \<Longrightarrow> w_killed (fst (pass_child now stop grace mb pid w))"
  by (auto simp: pass_child_def ask_to_stop_def Let_def split: option.splits prod.splits)

lemma pass_child_overdue:
  "w_killed w \<or> (\<exists>k. w_kill_at w = Some k \<and> k \<le> now) \<Longrightarrow> watch_ok w \<Longrightarrow>
   w_killed (fst (pass_child now stop grace mb pid w))"
  by (auto simp: pass_child_def ask_to_stop_def Let_def watch_ok_def split: option.splits prod.splits)

lemma pass_child_asked:
  assumes "w_reason w = None" "watch_ok w" "w_term_at w \<le> now \<or> stop \<noteq> None" "\<And>s. stop = Some s \<Longrightarrow> s \<le> now"
  shows "w_killed (fst (pass_child now stop grace mb pid w)) \<or>
    (\<exists>k. w_kill_at (fst (pass_child now stop grace mb pid w)) = Some k \<and> k \<le> now + grace)"
  using assms by (auto simp: pass_child_def ask_to_stop_def Let_def watch_ok_def split: option.splits)

section \<open>The guard\<close>

definition guard_ok :: "guard \<Rightarrow> bool" where
  "guard_ok g \<longleftrightarrow> distinct (map fst (watches g)) \<and> (\<forall>pid w. map_of (watches g) pid = Some w \<longrightarrow> watch_ok w)"

lemma guard_ok_get: "guard_ok g \<Longrightarrow> map_of (watches g) pid = Some w \<Longrightarrow> watch_ok w"
  by (simp add: guard_ok_def)

lemma guard_pass_watches:
  "watches (guard_pass now stopping sample g) =
     map (\<lambda>(pid, w). (pid, fst (pass_child now (seen_stop now stopping g) (grace_s g) (sample pid) pid w))) (watches g)"
  by (simp add: guard_pass_def Let_def split_def)

lemma guard_pass_log:
  "events (guard_pass now stopping sample g) = events g @ concat (map (\<lambda>(pid, w).
     snd (pass_child now (seen_stop now stopping g) (grace_s g) (sample pid) pid w)) (watches g))"
  by (simp add: guard_pass_def Let_def split_def comp_def)

lemma guard_pass_fields [simp]:
  "grace_s (guard_pass now stopping sample g) = grace_s g"
  "stop_at (guard_pass now stopping sample g) = seen_stop now stopping g"
  "clean_at (guard_pass now stopping sample g) = clean_at g"
  "liveness_s (guard_pass now stopping sample g) = liveness_s g"
  by (simp_all add: guard_pass_def Let_def)

lemma guard_pass_keys [simp]: "map fst (watches (guard_pass now stopping sample g)) = map fst (watches g)"
  by (simp add: guard_pass_watches comp_def split_def)

lemma map_of_map_keyed: "map_of (map (\<lambda>(k, v). (k, f k v)) d) k = map_option (f k) (map_of d k)"
  by (induction d) auto

lemma guard_pass_get:
  "map_of (watches (guard_pass now stopping sample g)) pid = map_option
     (\<lambda>w. fst (pass_child now (seen_stop now stopping g) (grace_s g) (sample pid) pid w)) (map_of (watches g) pid)"
  unfolding guard_pass_watches by (rule map_of_map_keyed)

text \<open>The part of a pass's signals that goes to one child.\<close>

lemma signals_to_concat:
  assumes "distinct (map fst d)" "\<And>p w. set (f p w) \<subseteq> {Term p, Kill p}"
  shows "signals_to pid (concat (map (\<lambda>(p, w). f p w) d)) =
    (case map_of d pid of None \<Rightarrow> [] | Some w \<Rightarrow> f pid w)"
  using assms(1)
proof (induction d)
  case (Cons x d)
  obtain p w where x: "x = (p, w)" by (cases x)
  have other: "signals_to pid (f p w) = []" if "p \<noteq> pid" for p w
    using assms(2) [of p w] that by (auto simp: signals_to_def filter_empty_conv)
  have own: "signals_to pid (f pid w) = f pid w" for w
    using assms(2) [of pid w] by (auto simp: signals_to_def filter_id_conv)
  show ?case
  proof (cases "p = pid")
    case True
    then have "map_of d pid = None" using Cons.prems by (simp add: x map_of_eq_None_iff)
    then show ?thesis using Cons own True by (simp add: x)
  qed (use Cons other in \<open>simp add: x\<close>)
qed simp

lemma guard_pass_told:
  assumes "guard_ok g" "map_of (watches g) pid = Some w"
  shows "\<exists>w'. map_of (watches (guard_pass now stopping sample g)) pid = Some w'
     \<and> told_on pid w (events g) w' (events (guard_pass now stopping sample g))"
proof -
  let ?f = "\<lambda>p w. pass_child now (seen_stop now stopping g) (grace_s g) (sample p) p w"
  have "signals_to pid (events (guard_pass now stopping sample g)) = signals_to pid (events g) @ snd (?f pid w)"
    using assms signals_to_concat [of "watches g" "\<lambda>p w. snd (?f p w)" pid] pass_child_sent
    by (simp add: guard_pass_log guard_ok_def)
  then show ?thesis
    using pass_child_told [OF guard_ok_get [OF assms], of now "seen_stop now stopping g" "grace_s g" "sample pid" pid
        "fst (?f pid w)" "snd (?f pid w)"] assms(2)
    by (auto simp: guard_pass_get told_on_def)
qed

section \<open>Calls that leave a child under watch\<close>

text \<open>Every call but those that put a child under watch or forget it.\<close>

fun spares :: "int \<Rightarrow> guard_call \<Rightarrow> bool" where
  "spares pid (Watch_call p _ _ _) = (p \<noteq> pid)"
| "spares pid (Forget_call p) = (p \<noteq> pid)"
| "spares pid _ = True"

lemma guard_step_ok:
  assumes "guard_ok g"
  shows "guard_ok (guard_step c g)"
proof (cases c)
  case (Fence_call p)
  have "watch_ok ((blame Fenced w)\<lparr>w_killed := True\<rparr>)" for w
    by (simp add: watch_ok_def)
  then show ?thesis using assms Fence_call
    by (auto simp: guard_ok_def fence_now_def distinct_update update_conv' simp del: map_of_eq_Some_iff
        split: option.splits)
next
  case (Pass_call now st sample)
  have "watch_ok (fst (pass_child now s gr mb p w))" if "watch_ok w" for s gr mb p w
    using that pass_child_told by (metis prod.collapse)
  then show ?thesis using assms Pass_call
    by (auto simp: guard_ok_def guard_pass_get)
qed (use assms in \<open>auto simp: watch_child_def move_fence_def forget_def tick_done_def guard_ok_def
      distinct_update distinct_delete update_conv' delete_conv' watch_ok_def\<close>)

lemma guard_steps_ok: "guard_ok g \<Longrightarrow> guard_ok (fold guard_step cs g)"
  by (rule fold_inv [where P = guard_ok]) (simp_all add: guard_step_ok)

lemma guard_step_told:
  assumes g: "guard_ok g" and w: "map_of (watches g) pid = Some w" and c: "spares pid c"
  shows "\<exists>w'. map_of (watches (guard_step c g)) pid = Some w' \<and> told_on pid w (events g) w' (events (guard_step c g))"
proof (cases c)
  case (Fence_call p)
  show ?thesis
  proof (cases "p = pid \<and> \<not> w_killed w")
    case True
    then show ?thesis using Fence_call w killed_told_on [OF guard_ok_get [OF g w]]
      by (simp add: fence_now_def update_conv')
  next
    case False
    then show ?thesis using Fence_call w told_on_refl [OF guard_ok_get [OF g w], of pid]
      by (auto simp: fence_now_def update_conv' told_on_def split: option.splits)
  qed
next
  case (Pass_call now st sample)
  then show ?thesis using guard_pass_told [OF g w] by simp
next
  case (Move_call p f)
  then show ?thesis using w told_on_refl [OF guard_ok_get [OF g w], of pid]
    by (auto simp: move_fence_def told_on_def watch_ok_def further_def told_child_def)
next
  case (Forget_call p)
  then show ?thesis using w c told_on_refl [OF guard_ok_get [OF g w], of pid]
    by (auto simp: forget_def delete_conv' told_on_def)
qed (use w c told_on_refl [OF guard_ok_get [OF g w], of pid] in
  \<open>auto simp: watch_child_def tick_done_def update_conv' told_on_def\<close>)

lemma guard_steps_told:
  "guard_ok g \<Longrightarrow> map_of (watches g) pid = Some w \<Longrightarrow> list_all (spares pid) cs \<Longrightarrow>
   \<exists>w'. map_of (watches (fold guard_step cs g)) pid = Some w'
      \<and> told_on pid w (events g) w' (events (fold guard_step cs g))"
proof (induction cs arbitrary: g w)
  case Nil
  then show ?case using told_on_refl [OF guard_ok_get [OF Nil.prems(1,2)]] by simp
next
  case (Cons c cs)
  then show ?case using guard_step_told [of g pid w c] guard_step_ok [of g c]
    by simp (metis told_on_trans)
qed

lemma guard_ok_boot: "guard_ok (fold guard_step cs (new_guard now grace liveness))"
  by (rule guard_steps_ok) (simp add: guard_ok_def new_guard_def)

section \<open>The properties\<close>

text \<open>
  One life under watch: whatever the guard was asked before, and whatever it is asked until the child
  is forgotten, the signals sent to the child are the ones its record names (at most one SIGTERM, then
  at most one SIGKILL), and a cause, a deadline or a kill once recorded stays as it is: the first cause wins.
\<close>

theorem child_signals:
  assumes "list_all (spares pid) (cs1 @ cs2)"
  shows "let g0 = fold guard_step cs0 (new_guard now grace liveness);
             g1 = fold guard_step (Watch_call pid t f lbl # cs1) g0;
             g2 = fold guard_step cs2 g1
         in \<exists>w1 w2. map_of (watches g1) pid = Some w1 \<and> map_of (watches g2) pid = Some w2
              \<and> signals_to pid (events g1) = signals_to pid (events g0) @ told_child pid w1
              \<and> signals_to pid (events g2) = signals_to pid (events g0) @ told_child pid w2
              \<and> further w1 w2"
proof -
  let ?base = "fold guard_step cs0 (new_guard now grace liveness)"
  let ?born = "guard_step (Watch_call pid t f lbl) ?base"
  let ?mid = "fold guard_step cs1 ?born"
  have g: "guard_ok ?born" by (intro guard_step_ok guard_ok_boot)
  have w: "map_of (watches ?born) pid = Some (new_watch t f lbl)"
    by (simp add: watch_child_def update_conv')
  obtain w1 where 1: "map_of (watches ?mid) pid = Some w1" "told_on pid (new_watch t f lbl) (events ?born) w1 (events ?mid)"
    using guard_steps_told [OF g w, of cs1] assms by auto
  obtain w2 where 2: "map_of (watches (fold guard_step cs2 ?mid)) pid = Some w2"
      "told_on pid w1 (events ?mid) w2 (events (fold guard_step cs2 ?mid))"
    using guard_steps_told [OF guard_steps_ok [OF g] 1(1), of cs2] assms by auto
  show ?thesis
    unfolding Let_def
  proof (intro exI conjI)
    show "map_of (watches (fold guard_step (Watch_call pid t f lbl # cs1) ?base)) pid = Some w1" using 1 by simp
  qed (use 1 2 in \<open>auto simp: told_on_def watch_child_def\<close>)
qed

theorem child_signals_witness:
  "let g0 = fold guard_step [] (new_guard 0 90 300);
       g1 = fold guard_step (Watch_call 7 10 150 ''j'' # [Pass_call 10 False (\<lambda>_. None)]) g0;
       g2 = fold guard_step [Pass_call 100 True (\<lambda>_. Some 5)] g1
   in \<exists>w1 w2. map_of (watches g1) 7 = Some w1 \<and> map_of (watches g2) 7 = Some w2
        \<and> signals_to 7 (events g1) = signals_to 7 (events g0) @ told_child 7 w1
        \<and> signals_to 7 (events g2) = signals_to 7 (events g0) @ told_child 7 w2 \<and> further w1 w2"
  by (rule child_signals) simp

lemma killed_stays: "told_on pid w es w' es' \<Longrightarrow> w_killed w \<Longrightarrow> w_killed w'"
  by (simp add: told_on_def further_def)

lemma guard_step_logs: "\<exists>es. events (guard_step c g) = events g @ es"
  by (cases c) (auto simp: watch_child_def move_fence_def fence_now_def forget_def tick_done_def guard_pass_log
      split: option.splits)

lemma guard_steps_log: "\<exists>es. events (fold guard_step cs g) = events g @ es"
proof (induction cs arbitrary: g)
  case (Cons c cs)
  obtain es fs where "events (guard_step c g) = events g @ es"
      "events (fold guard_step cs (guard_step c g)) = events (guard_step c g) @ fs"
    using guard_step_logs Cons.IH by metis
  then show ?case by simp
qed simp

text \<open>A record with no signal that becomes a killed one: the log gained the SIGKILL, after at most one SIGTERM.\<close>

lemma killed_logged:
  assumes "told_on pid w es w' es'" "w_reason w = None" "watch_ok w" "w_killed w'" "es' = es @ fs"
  shows "signals_to pid fs = [Kill pid] \<or> signals_to pid fs = [Term pid, Kill pid]"
proof -
  have "told_child pid w = []" using assms(2,3) by (simp add: watch_ok_def told_child_def)
  then have "signals_to pid fs = told_child pid w'"
    using assms(1,5) unfolding told_on_def by auto
  then show ?thesis using assms(4) by (simp add: told_child_def)
qed

lemma kill_signalled: "Kill pid \<in> set (signals_to pid es) \<Longrightarrow> Kill pid \<in> set es"
  by (simp add: signals_to_def)

text \<open>
  C24. A child whose time is up dies: once a pass has found its time limit reached or a stop requested,
  the log has gained its one SIGKILL, after at most one SIGTERM, by any later pass a grace or more after,
  whatever else the guard was asked, unless the child was forgotten because it had exited.
\<close>

theorem stopped_child_killed:
  assumes "map_of (watches (fold guard_step cs0 (new_guard now grace liveness))) pid = Some w" "w_reason w = None"
    and "\<And>s. stop_at (fold guard_step cs0 (new_guard now grace liveness)) = Some s \<Longrightarrow> s \<le> t1"
    and "w_term_at w \<le> t1 \<or> stopping \<or> stop_at (fold guard_step cs0 (new_guard now grace liveness)) \<noteq> None"
    and "list_all (spares pid) cs" "t1 + grace \<le> t2"
  shows "let g0 = fold guard_step cs0 (new_guard now grace liveness);
             g2 = fold guard_step (Pass_call t1 stopping smp # cs @ [Pass_call t2 stopping' smp']) g0
         in \<exists>sent. events g2 = events g0 @ sent
              \<and> (signals_to pid sent = [Kill pid] \<or> signals_to pid sent = [Term pid, Kill pid])"
proof -
  let ?g = "fold guard_step cs0 (new_guard now grace liveness)"
  let ?g1 = "guard_pass t1 stopping smp ?g" and ?s = "seen_stop t1 stopping ?g"
  let ?w1 = "fst (pass_child t1 ?s (grace_s ?g) (smp pid) pid w)"
  let ?calls = "Pass_call t1 stopping smp # cs @ [Pass_call t2 stopping' smp']"
  let ?g2 = "fold guard_step ?calls ?g"
  have ok: "guard_ok ?g" by (rule guard_ok_boot)
  have "grace_s (guard_step c h) = grace_s h" for c h
    by (cases c) (auto simp: watch_child_def move_fence_def fence_now_def forget_def tick_done_def split: option.splits)
  then have grace: "grace_s (fold guard_step cs h) = grace_s h" for cs h by (induction cs arbitrary: h) auto
  have w1: "map_of (watches ?g1) pid = Some ?w1" using assms(1) by (simp add: guard_pass_get)
  have "w_term_at w \<le> t1 \<or> ?s \<noteq> None" and "\<And>s. ?s = Some s \<Longrightarrow> s \<le> t1"
    using assms(3,4) by (cases "stop_at ?g"; auto simp: seen_stop_def split: if_splits)+
  then have asked: "w_killed ?w1 \<or> (\<exists>k. w_kill_at ?w1 = Some k \<and> k \<le> t1 + grace)"
    using pass_child_asked [OF assms(2) guard_ok_get [OF ok assms(1)], of t1 ?s "grace_s ?g"] grace
    by (simp add: new_guard_def)
  have ok1: "guard_ok ?g1" using guard_step_ok [OF ok, of "Pass_call t1 stopping smp"] by simp
  obtain w2 where w2: "map_of (watches (fold guard_step cs ?g1)) pid = Some w2"
      "told_on pid ?w1 (events ?g1) w2 (events (fold guard_step cs ?g1))"
    using guard_steps_told [OF ok1 w1 assms(5)] by blast
  then have "w_killed w2 \<or> (\<exists>k. w_kill_at w2 = Some k \<and> k \<le> t2)"
    using asked assms(6) by (fastforce simp: told_on_def further_def)
  then have dead: "\<exists>w'. map_of (watches ?g2) pid = Some w' \<and> w_killed w'"
    using w2(1) pass_child_overdue [of w2 t2] guard_ok_get [OF guard_steps_ok [OF ok1] w2(1)]
    by (simp add: guard_pass_get)
  have "list_all (spares pid) ?calls" using assms(5) by simp
  from guard_steps_told [OF ok assms(1) this] dead obtain w' where
    w': "told_on pid w (events ?g) w' (events ?g2)" "w_killed w'" by auto
  obtain sent where sent: "events ?g2 = events ?g @ sent" using guard_steps_log by blast
  show ?thesis
    unfolding Let_def
    using killed_logged [OF w'(1) assms(2) guard_ok_get [OF ok assms(1)] w'(2) sent] sent by blast
qed

theorem stopped_child_killed_witness:
  "let g0 = fold guard_step [Watch_call 7 10 150 ''j''] (new_guard 0 90 300);
       g2 = fold guard_step (Pass_call 10 False (\<lambda>_. None) # [Move_call 7 900] @ [Pass_call 100 False (\<lambda>_. None)]) g0
   in \<exists>sent. events g2 = events g0 @ sent \<and> (signals_to 7 sent = [Kill 7] \<or> signals_to 7 sent = [Term 7, Kill 7])"
  by (rule stopped_child_killed [where w = "new_watch 10 150 ''j''"]) (simp_all add: watch_child_def new_guard_def new_watch_def)

text \<open>The fence of a child: the one it was put under watch with, until the last renewal that moved it.\<close>

definition last_fence :: "int \<Rightarrow> rat \<Rightarrow> guard_call list \<Rightarrow> rat" where
  "last_fence pid f cs = fold (\<lambda>c f. case c of Move_call p x \<Rightarrow> if p = pid then x else f | _ \<Rightarrow> f) cs f"

lemma fence_step:
  assumes "map_of (watches g) pid = Some w" "spares pid c"
  shows "\<exists>w'. map_of (watches (guard_step c g)) pid = Some w' \<and> w_fence_at w' = last_fence pid (w_fence_at w) [c]"
proof (cases c)
  case (Fence_call p)
  then show ?thesis using assms by (auto simp: fence_now_def update_conv' last_fence_def split: option.splits)
next
  case (Pass_call now st sample)
  then show ?thesis using assms by (simp add: guard_pass_get pass_child_fence last_fence_def)
qed (use assms in \<open>auto simp: watch_child_def move_fence_def forget_def tick_done_def update_conv' delete_conv' last_fence_def\<close>)

lemma fence_steps:
  "map_of (watches g) pid = Some w \<Longrightarrow> list_all (spares pid) cs \<Longrightarrow>
   \<exists>w'. map_of (watches (fold guard_step cs g)) pid = Some w' \<and> w_fence_at w' = last_fence pid (w_fence_at w) cs"
proof (induction cs arbitrary: g w)
  case (Cons c cs)
  obtain w1 where w1: "map_of (watches (guard_step c g)) pid = Some w1" "w_fence_at w1 = last_fence pid (w_fence_at w) [c]"
    using fence_step [OF Cons.prems(1), of c] Cons.prems(2) by auto
  show ?case using Cons.IH [OF w1(1)] Cons.prems(2) by (simp add: w1(2) last_fence_def)
qed (simp add: last_fence_def)

text \<open>
  C25. No child outlives its lease: take a child under watch with a fence, after any history, and ask the
  guard anything until the child is forgotten. A pass at or past the fence, as the last renewal moved it,
  ends with the child's SIGKILL in the log since; and so does a refused renewal, at once.
\<close>

theorem fenced_child_killed:
  assumes "list_all (spares pid) cs"
  shows "let g0 = fold guard_step cs0 (new_guard boot grace liveness);
             g1 = fold guard_step (Watch_call pid t f lbl # cs) g0
         in (if last_fence pid f cs \<le> now
             then \<exists>sent. events (guard_pass now stopping smp g1) = events g0 @ sent \<and> Kill pid \<in> set sent else True)
          \<and> (\<exists>sent. events (fence_now pid g1) = events g0 @ sent \<and> Kill pid \<in> set sent)"
proof -
  let ?g0 = "fold guard_step cs0 (new_guard boot grace liveness)"
  let ?w = "new_watch t f lbl" let ?born = "watch_child pid t f lbl ?g0"
  have ok: "guard_ok ?born" using guard_step_ok [OF guard_ok_boot, of "Watch_call pid t f lbl"] by simp
  have w: "map_of (watches ?born) pid = Some ?w" by (simp add: watch_child_def update_conv')
  have killed: "\<exists>sent. events (guard_step c (fold guard_step cs ?born)) = events ?g0 @ sent \<and> Kill pid \<in> set sent"
    if c: "spares pid c" and dead: "\<exists>w'. map_of (watches (guard_step c (fold guard_step cs ?born))) pid = Some w' \<and> w_killed w'" for c
  proof -
    have "list_all (spares pid) (cs @ [c])" using assms c by simp
    from guard_steps_told [OF ok w this] dead obtain w' where
      w': "told_on pid ?w (events ?born) w' (events (fold guard_step (cs @ [c]) ?born))" "w_killed w'" by auto
    obtain sent where sent: "events (fold guard_step (cs @ [c]) ?born) = events ?born @ sent" using guard_steps_log by blast
    have "Kill pid \<in> set (signals_to pid sent)"
      using killed_logged [OF w'(1) _ _ w'(2) sent] by auto
    then show ?thesis using sent kill_signalled by (auto simp: watch_child_def)
  qed
  obtain w1 where w1: "map_of (watches (fold guard_step cs ?born)) pid = Some w1" "w_fence_at w1 = last_fence pid f cs"
    using fence_steps [OF w assms] by (auto simp: new_watch_def)
  show ?thesis
    using killed [of "Pass_call now stopping smp"] killed [of "Fence_call pid"] w1 pass_child_fenced [of w1 now]
    by (auto simp: guard_pass_get fence_now_def update_conv')
qed

theorem fenced_child_killed_witness:
  "let g0 = fold guard_step [] (new_guard 0 90 300);
       g1 = fold guard_step (Watch_call 7 500 150 ''j'' # [Move_call 7 200, Pass_call 160 False (\<lambda>_. None)]) g0
   in \<exists>sent. events (guard_pass 200 False (\<lambda>_. None) g1) = events g0 @ sent \<and> Kill 7 \<in> set sent"
  using fenced_child_killed [of 7 "[Move_call 7 200, Pass_call 160 False (\<lambda>_. None)]" "[]" 0 90 300 500 150 "''j''" 200 False "\<lambda>_. None"]
  by (simp add: last_fence_def Let_def)

end
