(* ===== verification/Job_Runner_Laws.thy ===== *)
theory Job_Runner_Laws
  imports Job_Runner Job_Guard_Laws
begin

text \<open>
  What the runner promises, by an invariant of every tick: no lease it was granted is lost between its
  children and its unreleased runs, no signal goes to a process that is not its own unreaped child, no
  run ends in a word the tables refuse, and the number of children is bounded.
\<close>

section \<open>Dictionaries as multisets\<close>

lemma mset_map_delete:
  "distinct (map fst d) \<Longrightarrow> map_of d k = Some v \<Longrightarrow>
   mset (map f d) = add_mset (f (k, v)) (mset (map f (AList.delete k d)))"
proof (induction d)
  case (Cons x d)
  show ?case
  proof (cases "fst x = k")
    case True
    then have "AList.delete k d = d" using Cons.prems(1) by (auto simp: delete_id)
    then show ?thesis using Cons.prems(2) True by (cases x) auto
  qed (use Cons in \<open>cases x; auto\<close>)
qed simp

lemma mset_map_update:
  "distinct (map fst d) \<Longrightarrow> mset (map f (AList.update k v d)) = add_mset (f (k, v)) (mset (map f (AList.delete k d)))"
  by (induction d) (auto simp: delete_id)

lemma mset_map_update_same:
  assumes "distinct (map fst d)" "map_of d k = Some v" "f (k, v') = f (k, v)"
  shows "mset (map f (AList.update k v' d)) = mset (map f d)"
  using assms mset_map_delete [OF assms(1,2), of f] mset_map_update [OF assms(1), of f k v'] by simp

lemma length_update:
  "length (AList.update k v d) = (if map_of d k = None then Suc (length d) else length d)"
  by (induction d) auto

section \<open>The life of a process\<close>

text \<open>The unreaped children after an event; \<open>None\<close>: the event is out of order.\<close>

fun life :: "child_event \<Rightarrow> int set \<Rightarrow> int set option" where
  "life (Watched p) A = (if p \<in> A then None else Some (insert p A))"
| "life (Term p) A = (if p \<in> A then Some A else None)"
| "life (Kill p) A = (if p \<in> A then Some A else None)"
| "life (Reaped p) A = (if p \<in> A then Some (A - {p}) else None)"

definition unreaped :: "(int, running) dict \<Rightarrow> int set" where
  "unreaped d = {pid. \<exists>run. map_of d pid = Some run \<and> ru_exit run = None}"

lemma life_signals: "\<forall>e \<in> set es. \<exists>p \<in> A. e = Term p \<or> e = Kill p \<Longrightarrow> foldM life es A = Some A"
  by (induction es) auto

section \<open>The invariant\<close>

definition lease_id :: "lease \<Rightarrow> lease" where
  "lease_id l = l\<lparr>h_fence := 0\<rparr>"

definition leases_kept :: "runner \<Rightarrow> bool" where
  "leases_kept r \<longleftrightarrow>
     mset (map (\<lambda>(_, run). lease_id (ru_lease run)) (children r)) + mset (map (\<lambda>d. lease_id (fi_lease d)) (unreleased r))
     + mset (map (\<lambda>(d, _). lease_id (fi_lease d)) (answered r)) = mset (map lease_id (granted r))"

definition releasable :: "finished \<Rightarrow> bool" where
  "releasable d \<longleftrightarrow> due_kind (fi_outcome d) (Some (fi_due d)) = Some (fi_due d)"

definition watched :: "guard \<Rightarrow> int set" where
  "watched g = fst ` set (watches g)"

definition children_ok :: "(int, running) dict \<Rightarrow> guard \<Rightarrow> bool" where
  "children_ok d g \<longleftrightarrow> distinct (map fst d) \<and> guard_ok g
     \<and> watched g \<subseteq> unreaped d \<and> foldM life (events g) {} = Some (unreaped d)
     \<and> (\<forall>pid run. map_of d pid = Some run \<longrightarrow> (ru_exit run = None \<longleftrightarrow> ru_reaped_at run = None))"

definition runner_ok :: "runner \<Rightarrow> bool" where
  "runner_ok r \<longleftrightarrow> children_ok (children r) (the_guard r) \<and> leases_kept r
     \<and> list_all releasable (unreleased r) \<and> length (children r) \<le> max_children r"

definition endings :: "(string \<times> string) list" where
  "endings = [(''failed'', ''backoff''), (''failed'', ''own_hour''), (''timeout'', ''retry''), (''timeout'', ''own_hour''),
              (''ok'', ''slot''), (''ok'', ''more''), (''interrupted'', ''now'')]"

lemma settle_ending: "settle reason code stopped heavy \<in> set endings"
  unfolding settle_def Let_def endings_def
  by (cases "code = None"; cases "reason = Some Timeout"; cases "code = Some 0"; cases "code = Some MORE_REMAINS_EXIT";
      cases "reason = Some Deploy \<or> reason = Some Fenced \<or> stopped"; cases heavy) simp_all

lemma endings_releasable: "list_all (\<lambda>(outcome, due). due_kind outcome (Some due) = Some due) endings"
  by code_simp

lemma settle_releasable:
  "settle reason code stopped heavy = (outcome, due) \<Longrightarrow> due_kind outcome (Some due) = Some due"
  using settle_ending [of reason code stopped heavy] endings_releasable by (auto simp: list_all_iff)

text \<open>The guard's passes keep to the children under watch.\<close>

lemma guard_pass_life:
  assumes "children_ok d g"
  shows "children_ok d (guard_pass now st sample g)"
proof -
  let ?sent = "concat (map (\<lambda>(pid, w). snd (pass_child now (seen_stop now st g) (grace_s g) (sample pid) pid w)) (watches g))"
  have "\<forall>e \<in> set ?sent. \<exists>p \<in> unreaped d. e = Term p \<or> e = Kill p"
    using assms pass_child_sent [OF refl] by (fastforce simp: children_ok_def watched_def)
  then have "foldM life ?sent (unreaped d) = Some (unreaped d)" by (rule life_signals)
  then have "foldM life (events (guard_pass now st sample g)) {} = Some (unreaped d)"
    using assms by (simp add: children_ok_def guard_pass_log foldM_append)
  moreover have "watched (guard_pass now st sample g) = watched g"
    by (metis guard_pass_keys set_map watched_def)
  ultimately show ?thesis
    using assms guard_step_ok [of g "Pass_call now st sample"] by (simp add: children_ok_def)
qed

lemma guard_passes_ok [simp]: "runner_ok r \<Longrightarrow> runner_ok (guard_passes ps r)"
proof -
  assume r: "runner_ok r"
  have "children_ok (children r) (fold (\<lambda>p. guard_pass (ps_now p) (ps_stop p) (ps_sample p)) ps (the_guard r))"
    by (rule fold_inv [where P = "children_ok (children r)"]) (use r in \<open>simp_all add: runner_ok_def guard_pass_life\<close>)
  then show ?thesis using r by (simp add: runner_ok_def guard_passes_def leases_kept_def)
qed

section \<open>The guard's calls and the children\<close>

lemma children_okD:
  assumes "children_ok d g"
  shows "distinct (map fst d)" "guard_ok g" "watched g \<subseteq> unreaped d"
    "foldM life (events g) {} = Some (unreaped d)"
    "map_of d pid = Some run \<Longrightarrow> ru_exit run = None \<longleftrightarrow> ru_reaped_at run = None"
  using assms by (auto simp: children_ok_def)

lemma watched_keys: "pid \<in> watched g \<longleftrightarrow> map_of (watches g) pid \<noteq> None"
  by (simp add: map_of_eq_None_iff watched_def)

lemma unreaped_update:
  "unreaped (AList.update pid run d) = (if ru_exit run = None then insert pid (unreaped d) else unreaped d - {pid})"
  by (auto simp: unreaped_def update_conv')

lemma forget_children:
  assumes ok: "children_ok d g" and pid: "pid \<in> unreaped d" and f: "forget pid g = (w, g')"
  shows "children_ok d g'" and "map_of (watches g') pid = None"
proof -
  have g': "g' = snd (forget pid g)" using f by simp
  show "map_of (watches g') pid = None" by (simp add: g' forget_def delete_conv')
  have "watched g' \<subseteq> watched g" by (simp add: g' forget_def watched_def dom_delete_subset)
  then show "children_ok d g'"
    using children_okD [OF ok] guard_step_ok [of g "Forget_call pid"] pid ok
    by (auto simp: children_ok_def g' foldM_append forget_def split: option.splits)
qed

lemma reaped_children:
  assumes ok: "children_ok d g" and run: "map_of d pid = Some run" "ru_exit run = None" and w: "map_of (watches g) pid = None"
    and run': "ru_exit run' \<noteq> None" "ru_reaped_at run' \<noteq> None"
  shows "children_ok (AList.update pid run' d) (g\<lparr>events := events g @ [Reaped pid]\<rparr>)"
proof -
  note D = children_okD [OF ok]
  have "pid \<in> unreaped d" using run by (simp add: unreaped_def)
  moreover have "watched g \<subseteq> unreaped d - {pid}" using D(3) w watched_keys [of pid g] by auto
  ultimately show ?thesis
    using D run' ok by (auto simp: children_ok_def guard_ok_def watched_def unreaped_update foldM_append distinct_update update_conv')
qed

text \<open>A run replaced by one at the same point of its life.\<close>

lemma replaced_children:
  assumes ok: "children_ok d g" and run: "map_of d pid = Some run"
    and run': "ru_exit run' = ru_exit run" "ru_reaped_at run' = ru_reaped_at run"
  shows "children_ok (AList.update pid run' d) g"
proof -
  note D = children_okD [OF ok]
  have "unreaped (AList.update pid run' d) = unreaped d"
    using run run' by (auto simp: unreaped_update) (auto simp: unreaped_def)
  then show ?thesis using D ok run run' by (auto simp: children_ok_def distinct_update update_conv')
qed

lemma settled_children:
  assumes ok: "children_ok d g" and run: "map_of d pid = Some run" "ru_exit run \<noteq> None"
  shows "children_ok (AList.delete pid d) g"
proof -
  note D = children_okD [OF ok]
  have "unreaped (AList.delete pid d) = unreaped d" using run by (auto simp: unreaped_def delete_conv')
  then show ?thesis using D ok by (auto simp: children_ok_def distinct_delete delete_conv')
qed

lemma spawned_children:
  assumes ok: "children_ok d g" and pid: "map_of d pid = None" and run: "ru_exit run = None" "ru_reaped_at run = None"
  shows "children_ok (AList.update pid run d) (watch_child pid t f lbl g)"
proof -
  note D = children_okD [OF ok]
  have "pid \<notin> unreaped d" using pid by (simp add: unreaped_def)
  moreover have "watched (watch_child pid t f lbl g) = insert pid (watched g)"
    by (simp add: watch_child_def watched_def dom_update)
  ultimately show ?thesis
    using D guard_step_ok [of g "Watch_call pid t f lbl"] run ok
    by (auto simp: children_ok_def unreaped_update foldM_append distinct_update update_conv' watch_child_def)
qed

text \<open>A renewal that landed, and one that was refused.\<close>

lemma moved_children: "children_ok d g \<Longrightarrow> children_ok d (move_fence pid f g)"
  using guard_step_ok [of g "Move_call pid f"]
  by (auto simp: children_ok_def move_fence_def watched_def update_rows_def)

lemma fenced_children: "children_ok d g \<Longrightarrow> children_ok d (fence_now pid g)"
proof -
  assume ok: "children_ok d g"
  note D = children_okD [OF ok]
  have "pid \<in> unreaped d" if "map_of (watches g) pid = Some w" for w
    using that D(3) watched_keys [of pid g] by auto
  moreover have "watched (fence_now pid g) \<subseteq> watched g"
    using watched_keys [of pid g] by (auto simp: fence_now_def watched_def dom_update split: option.splits)
  ultimately show ?thesis
    using D guard_step_ok [of g "Fence_call pid"] ok
    by (cases "map_of (watches g) pid") (auto simp: children_ok_def foldM_append fence_now_def)
qed

section \<open>The process phase\<close>

lemma runner_okD:
  assumes "runner_ok r"
  shows "children_ok (children r) (the_guard r)" "leases_kept r" "list_all releasable (unreleased r)"
    "length (children r) \<le> max_children r"
  using assms by (simp_all add: runner_ok_def)

lemma put_run_ok:
  assumes "runner_ok r" "map_of (children r) pid = Some run" "lease_id (ru_lease run') = lease_id (ru_lease run)"
    and "children_ok (AList.update pid run' (children r)) g"
  shows "runner_ok (put_run pid run' (r\<lparr>the_guard := g\<rparr>))"
proof -
  note R = runner_okD [OF assms(1)]
  have "mset (map (\<lambda>(_, run). lease_id (ru_lease run)) (AList.update pid run' (children r)))
      = mset (map (\<lambda>(_, run). lease_id (ru_lease run)) (children r))"
    using children_okD(1) [OF R(1)] assms(2,3) by (intro mset_map_update_same) auto
  then show ?thesis
    using R assms(2,4) by (simp add: runner_ok_def put_run_def leases_kept_def length_update)
qed

lemma reap_run_ok:
  assumes ok: "runner_ok r" and run: "map_of (children r) pid = Some run" and s: "reap_run now pid run si r = (res, r1)"
  shows "runner_ok r1" and "\<exists>run1. map_of (children r1) = (map_of (children r))(pid \<mapsto> run1) \<and> (res = None \<or> res = Some run1)"
proof -
  note R = runner_okD [OF ok]
  consider "res = Some run" "r1 = r" | "res = None" "r1 = r"
    | w g where "ru_exit run = None" "forget pid (the_guard r) = (w, g)" "res = None"
        "r1 = put_run pid (run\<lparr>ru_watch := Some w\<rparr>) (r\<lparr>the_guard := g\<rparr>)"
    | w g run2 where "ru_exit run = None" "forget pid (the_guard r) = (w, g)" "res = Some run2"
        "ru_exit run2 \<noteq> None" "ru_reaped_at run2 \<noteq> None" "ru_lease run2 = ru_lease run"
        "r1 = put_run pid run2 (r\<lparr>the_guard := g\<lparr>events := events g @ [Reaped pid]\<rparr>\<rparr>)"
  proof (cases "ru_exit run = None \<and> si_exited si = Some True")
    case True
    obtain w g where f: "forget pid (the_guard r) = (w, g)" by force
    show ?thesis
    proof (cases "si_code si")
      case None
      then show ?thesis using True f s that(3) [OF _ f] by (auto simp: reap_run_def Let_def)
    next
      case (Some c)
      then show ?thesis using True f s
        by (intro that(4) [OF _ f, of "run\<lparr>ru_watch := Some w, ru_exit := Some c, ru_reaped_at := Some now\<rparr>"])
          (auto simp: reap_run_def Let_def)
    qed
  next
    case False
    then show ?thesis using s that(1,2) by (auto simp: reap_run_def split: if_splits option.splits bool.splits)
  qed
  then have "runner_ok r1 \<and>
    (\<exists>run1. map_of (children r1) = (map_of (children r))(pid \<mapsto> run1) \<and> (res = None \<or> res = Some run1))"
  proof cases
    case 1
    then show ?thesis using ok run by (auto intro!: exI [of _ run])
  next
    case 2
    then show ?thesis using ok run by (auto intro!: exI [of _ run])
  next
    case 3
    have "pid \<in> unreaped (children r)" using run 3 by (simp add: unreaped_def)
    then have "children_ok (children r) g" using forget_children(1) [OF R(1) _ 3(2)] by simp
    then have "runner_ok r1" unfolding 3(4)
      using run by (intro put_run_ok [OF ok run] replaced_children [OF _ run]) auto
    then show ?thesis using 3 by (auto simp: put_run_def update_conv')
  next
    case 4
    have u: "pid \<in> unreaped (children r)" using run 4 by (simp add: unreaped_def)
    have "runner_ok r1" unfolding 4(7)
      using 4(6) by (intro put_run_ok [OF ok run] reaped_children [OF forget_children(1) [OF R(1) u 4(2)] run 4(1)
            forget_children(2) [OF R(1) u 4(2)] 4(4,5)]) simp
    then show ?thesis using 4 by (auto simp: put_run_def update_conv')
  qed
  then show "runner_ok r1" and "\<exists>run1. map_of (children r1) = (map_of (children r))(pid \<mapsto> run1) \<and> (res = None \<or> res = Some run1)"
    by auto
qed

lemma settle_run_ok:
  assumes ok: "runner_ok r" and run: "map_of (children r) pid = Some run" "ru_exit run \<noteq> None"
  shows "runner_ok (settle_run pid run si r)"
proof -
  note R = runner_okD [OF ok]
  obtain d where d: "settle_run pid run si r = r\<lparr>unreleased := unreleased r @ [d], children := AList.delete pid (children r)\<rparr>"
      "fi_lease d = ru_lease run" "releasable d"
    by (auto simp: settle_run_def Let_def releasable_def split_def settle_releasable)
  have "length (AList.delete pid (children r)) \<le> max_children r" using R(4) length_delete_le [of pid "children r"] by linarith
  then show ?thesis
    using R settled_children [OF R(1) run] d
      mset_map_delete [OF children_okD(1) [OF R(1)] run(1), of "\<lambda>(_, run). lease_id (ru_lease run)"]
    by (simp add: runner_ok_def leases_kept_def)
qed

lemma settle_run_children: "children (settle_run pid run si r) = AList.delete pid (children r)"
  by (simp add: settle_run_def Let_def split_def)

lemma guard_passes_children [simp]: "children (guard_passes ps r) = children r"
  by (simp add: guard_passes_def)

lemma see_child_ok:
  assumes ok: "runner_ok r" and run: "map_of (children r) pid = Some run"
  shows "runner_ok (snd (see_child now sights (pid, run) (clean, r)))
    \<and> (\<forall>p. p \<noteq> pid \<longrightarrow> map_of (children (snd (see_child now sights (pid, run) (clean, r)))) p = map_of (children r) p)"
proof -
  let ?r = "guard_passes (si_passes (sights pid)) r"
  obtain res r1 where s: "reap_run now pid run (sights pid) ?r = (res, r1)" by force
  note P = reap_run_ok [OF guard_passes_ok [OF ok] _ s, simplified, OF run]
  obtain run1 where run1: "map_of (children r1) = (map_of (children r))(pid \<mapsto> run1)" "res = None \<or> res = Some run1"
    using P(2) by blast
  show ?thesis
  proof (cases res)
    case None
    then show ?thesis using P(1) run1 s by (simp add: see_child_def Let_def)
  next
    case (Some run')
    then have "ru_exit run1 \<noteq> None \<Longrightarrow> runner_ok (settle_run pid run1 (sights pid) r1)"
      using settle_run_ok [OF P(1)] run1(1) by simp
    then show ?thesis using P(1) run1 s Some
      by (auto simp: see_child_def Let_def settle_run_children delete_conv' split: option.splits)
  qed
qed

lemma see_children_ok:
  "runner_ok r \<Longrightarrow> distinct (map fst runs) \<Longrightarrow> \<forall>(pid, run) \<in> set runs. map_of (children r) pid = Some run \<Longrightarrow>
   runner_ok (snd (fold (see_child now sights) runs (clean, r)))"
proof (induction runs arbitrary: clean r)
  case (Cons x runs)
  obtain pid run where x: "x = (pid, run)" by (cases x)
  obtain clean' r' where s: "see_child now sights (pid, run) (clean, r) = (clean', r')" by force
  have "runner_ok r' \<and> (\<forall>p. p \<noteq> pid \<longrightarrow> map_of (children r') p = map_of (children r) p)"
    using see_child_ok [of r pid run now sights clean] Cons.prems s by (simp add: x)
  moreover have "\<forall>(p, run) \<in> set runs. p \<noteq> pid" using Cons.prems(2) by (force simp: x)
  ultimately show ?case using Cons.IH [of r' clean'] Cons.prems s by (fastforce simp: x)
qed simp

lemma process_phase_ok:
  assumes "runner_ok r"
  shows "runner_ok (snd (process_phase now sights orphans_ok r))"
proof -
  have "distinct (map fst (children r))" using children_okD(1) [OF runner_okD(1) [OF assms]] .
  then show ?thesis
    using see_children_ok [OF assms, of "children r" now sights True] by (simp add: process_phase_def split_def Let_def)
qed

section \<open>The ledger phase\<close>

text \<open>A call of the ledger changes the guard (its thread runs), the tables and the link, nothing else.\<close>

definition call_only :: "runner \<Rightarrow> runner \<Rightarrow> bool" where
  "call_only r r' \<longleftrightarrow> (\<exists>g t u. r' = r\<lparr>the_guard := g, tables := t, pg_up := u\<rparr>)"

lemma call_onlyD [dest]:
  assumes "call_only r r'"
  shows "children r' = children r" "unreleased r' = unreleased r" "granted r' = granted r" "answered r' = answered r"
    "max_children r' = max_children r" "registry r' = registry r" "claims r' = claims r" "pg_claims r' = pg_claims r"
    "skipped r' = skipped r" "claim_limit r' = claim_limit r" "service r' = service r"
  using assms by (auto simp: call_only_def)

lemma reach_frame:
  assumes "reach m tx r = (a, r')"
  shows "r' = r\<lparr>the_guard := the_guard (guard_passes (mo_passes m) r), tables := tables r', pg_up := pg_up r'\<rparr>"
proof -
  obtain x db' where tx: "tx (mo_others m (tables r)) = (x, db')" by force
  show ?thesis
    using assms tx
    by (cases "mo_link m"; cases "\<not> pg_up r \<or> (case budget_until r of None \<Rightarrow> False | Some b \<Rightarrow> b \<le> mo_clock m)")
      (auto simp: reach_def guard_passes_def Let_def)
qed

lemma reach_ok:
  assumes "reach m tx r = (a, r')"
  shows "call_only r r'" and "runner_ok r \<Longrightarrow> runner_ok r'"
proof -
  note F = reach_frame [OF assms]
  show c: "call_only r r'" unfolding call_only_def using F by blast
  assume r: "runner_ok r"
  have "the_guard r' = the_guard (guard_passes (mo_passes m) r)"
    by (subst F) simp
  then show "runner_ok r'" using guard_passes_ok [OF r, of "mo_passes m"] call_onlyD [OF c]
    by (simp add: runner_ok_def leases_kept_def guard_passes_def)
qed

lemma ask_ok:
  assumes "ask m tx r = (a, r')"
  shows "call_only r r'" and "runner_ok r \<Longrightarrow> runner_ok r'"
  using assms reach_ok [of m tx r] by (auto simp: ask_def split: prod.splits reply.splits)

lemma reach_reply: "reach m tx r = (Reply a, r') \<Longrightarrow> \<exists>db. a = fst (tx db)"
  by (auto simp: reach_def Let_def split: if_splits link.splits prod.splits) (metis fst_conv)

lemma ask_reply: "ask m tx r = (Some a, r') \<Longrightarrow> \<exists>db. a = fst (tx db)"
  by (auto simp: ask_def split: prod.splits reply.splits dest: reach_reply)

text \<open>A run that ended in a known word is never refused for it.\<close>

lemma release_answers: "releasable d \<Longrightarrow> fst (release_tx m d db) \<noteq> None"
  by (auto simp: release_tx_def release_def releasable_def Let_def split: option.splits)

lemma release_loop_ok:
  "release_loop ms kept ds r = (b, r') \<Longrightarrow> runner_ok r \<Longrightarrow> unreleased r = kept @ ds \<Longrightarrow>
   b \<and> runner_ok r' \<and> children r' = children r \<and> granted r' = granted r"
proof (induction ds arbitrary: kept r)
  case (Cons d ds)
  let ?m = "ms (le_run (fi_lease d))"
  obtain a r1 where s: "reach ?m (release_tx ?m d) r = (a, r1)" by force
  note C = call_onlyD [OF reach_ok(1) [OF s]] and K = reach_ok(2) [OF s Cons.prems(2)]
  note R = runner_okD [OF K]
  have d: "releasable d" using runner_okD(3) [OF Cons.prems(2)] Cons.prems(3) by simp
  show ?case
  proof (cases a)
    case (Reply x)
    then obtain y where y: "x = Some y" using reach_reply s release_answers [OF d] by fastforce
    have "runner_ok (r1\<lparr>unreleased := kept @ ds, last_released := Some (d, y), answered := answered r1 @ [(d, y)]\<rparr>)"
      using R C Cons.prems(3) by (simp add: runner_ok_def leases_kept_def)
    then show ?thesis 
      using Cons.IH [of kept "r1\<lparr>unreleased := kept @ ds, last_released := Some (d, y), answered := answered r1 @ [(d, y)]\<rparr>"]
        Cons.prems s Reply y C by (simp add: Let_def)
  next
    case (Failed content)
    show ?thesis
    proof (cases content)
      case True
      have "runner_ok (r1\<lparr>unreleased := kept @ d\<lparr>fi_bare := True\<rparr> # ds\<rparr>)"
        using R C Cons.prems(3) by (simp add: runner_ok_def leases_kept_def releasable_def)
      then show ?thesis 
        using Cons.IH [of "kept @ [d\<lparr>fi_bare := True\<rparr>]" "r1\<lparr>unreleased := kept @ d\<lparr>fi_bare := True\<rparr> # ds\<rparr>"]
          Cons.prems s Failed True C by (simp add: Let_def)
    next
      case False
      then show ?thesis using Cons.IH [of "kept @ [d]" r1] Cons.prems s Failed False K C by (simp add: Let_def)
    qed
  next
    case Unasked
    then show ?thesis using Cons.IH [of "kept @ [d]" r1] Cons.prems s K C by (simp add: Let_def)
  qed
qed simp

text \<open>Renewals.\<close>

lemma renew_id: "renew sent t l db = (b, l', db') \<Longrightarrow> lease_id l' = lease_id l"
  by (auto simp: renew_def lease_id_def split: if_splits)

lemma renew_one_ok:
  assumes ok: "runner_ok r" and run: "map_of (children r) pid = Some run"
  shows "runner_ok (renew_one now ms (pid, run) r)
     \<and> (\<exists>run'. map_of (children (renew_one now ms (pid, run) r)) = (map_of (children r))(pid \<mapsto> run'))
     \<and> granted (renew_one now ms (pid, run) r) = granted r \<and> registry (renew_one now ms (pid, run) r) = registry r"
proof (cases "case ru_renew_at run of None \<Rightarrow> True | Some t \<Rightarrow> now < t")
  case True
  then show ?thesis using ok run by (auto simp: renew_one_def intro!: exI [of _ run])
next
  case False
  let ?tx = "\<lambda>db. case renew (mo_sent (ms pid)) (mo_at (ms pid)) (ru_lease run) db of (b, l, db') \<Rightarrow> ((b, l), db')"
  obtain a r1 where s: "ask (ms pid) ?tx r = (a, r1)" by force
  note C = call_onlyD [OF ask_ok(1) [OF s]] and K = ask_ok(2) [OF s ok]
  have c: "children_ok (children r1) (the_guard r1)" by (rule runner_okD(1) [OF K])
  have run1: "map_of (children r1) pid = Some run" using run C by simp
  show ?thesis
  proof (cases a)
    case None
    then show ?thesis using False s K C run by (auto simp: renew_one_def Let_def intro!: exI [of _ run])
  next
    case (Some x)
    obtain b l where x: "x = (b, l)" by (cases x)
    have l: "lease_id l = lease_id (ru_lease run)"
      using ask_reply [of "ms pid" ?tx r x r1] s renew_id Some x by (fastforce split: prod.splits)
    let ?run = "if b then run\<lparr>ru_lease := l, ru_renew_at := Some (now + renew_every_s r1)\<rparr> else run\<lparr>ru_renew_at := None\<rparr>"
    let ?g = "if b then move_fence pid (h_fence l) (the_guard r1) else fence_now pid (the_guard r1)"
    have r': "renew_one now ms (pid, run) r = put_run pid ?run (r1\<lparr>the_guard := ?g\<rparr>)"
      using False s Some x by (simp add: renew_one_def Let_def put_run_def)
    have "children_ok (AList.update pid ?run (children r1)) ?g"
      using c moved_children fenced_children by (intro replaced_children [OF _ run1]) auto
    then have "runner_ok (renew_one now ms (pid, run) r)"
      unfolding r' using l by (intro put_run_ok [OF K run1]) auto
    then show ?thesis using C by (auto simp: r' put_run_def update_conv')
  qed
qed

lemma renew_each_ok:
  "runner_ok r \<Longrightarrow> distinct (map fst runs) \<Longrightarrow> \<forall>(pid, run) \<in> set runs. map_of (children r) pid = Some run \<Longrightarrow>
   runner_ok (fold (renew_one now ms) runs r) \<and> dom (map_of (children (fold (renew_one now ms) runs r))) = dom (map_of (children r))
   \<and> granted (fold (renew_one now ms) runs r) = granted r \<and> registry (fold (renew_one now ms) runs r) = registry r"
proof (induction runs arbitrary: r)
  case (Cons x runs)
  obtain pid run where x: "x = (pid, run)" by (cases x)
  let ?r = "renew_one now ms (pid, run) r"
  have run: "map_of (children r) pid = Some run" using Cons.prems(3) by (simp add: x)
  obtain run' where S: "runner_ok ?r" "map_of (children ?r) = (map_of (children r))(pid \<mapsto> run')"
      "granted ?r = granted r" "registry ?r = registry r"
    using renew_one_ok [OF Cons.prems(1) run, of now ms] by blast
  have "\<forall>(p, run) \<in> set runs. p \<noteq> pid" using Cons.prems(2) by (force simp: x)
  then have "\<forall>(p, run) \<in> set runs. map_of (children ?r) p = Some run" using Cons.prems(3) S(2) by auto
  moreover have "dom (map_of (children ?r)) = dom (map_of (children r))" unfolding S(2) using run by auto
  ultimately show ?case using Cons.IH [OF S(1)] Cons.prems(2) S(3,4) by (simp add: x)
qed simp

lemma renew_all_ok:
  assumes "runner_ok r"
  shows "runner_ok (renew_all now ms r) \<and> dom (map_of (children (renew_all now ms r))) = dom (map_of (children r))
   \<and> granted (renew_all now ms r) = granted r \<and> registry (renew_all now ms r) = registry r"
  using renew_each_ok [OF assms, of "children r"] children_okD(1) [OF runner_okD(1) [OF assms]]
  by (simp add: renew_all_def)

text \<open>Claims: a lease just granted is owed a place.\<close>

definition owes :: "lease \<Rightarrow> runner \<Rightarrow> bool" where
  "owes l r \<longleftrightarrow> (\<exists>gs. granted r = gs @ [l] \<and> runner_ok (r\<lparr>granted := gs\<rparr>))"

lemma claim_job_ok:
  assumes "claim_job m name r = (res, r1)" "runner_ok r"
  shows "case res of None \<Rightarrow> runner_ok r1 \<and> granted r1 = granted r | Some l \<Rightarrow> owes l r1 \<and> granted r1 = granted r @ [l]"
    and "children r1 = children r" "claims r1 = claims r" "registry r1 = registry r" "max_children r1 = max_children r"
proof -
  obtain a r' where s: "reach m (claim (mo_sent m) (mo_at m) name (claim_holder r) TTL_S (pg_version r)) r = (a, r')" by force
  note C = call_onlyD [OF reach_ok(1) [OF s]] and K = reach_ok(2) [OF s assms(2)]
  show "case res of None \<Rightarrow> runner_ok r1 \<and> granted r1 = granted r | Some l \<Rightarrow> owes l r1 \<and> granted r1 = granted r @ [l]"
    using assms(1) s K C
    by (auto simp: claim_job_def owes_def runner_ok_def leases_kept_def split: reply.splits option.splits)
  show "children r1 = children r" "claims r1 = claims r" "registry r1 = registry r" "max_children r1 = max_children r"
    using assms(1) s C by (auto simp: claim_job_def split: reply.splits option.splits)
qed

lemma owes_unreleased:
  assumes "owes l r" "fi_lease d = l" "releasable d"
  shows "runner_ok (r\<lparr>unreleased := unreleased r @ [d]\<rparr>)"
  using assms by (auto simp: owes_def runner_ok_def leases_kept_def)

lemma spawn_child_ok:
  assumes o: "owes l r" and room: "length (children r) < max_children r"
    and fresh: "\<And>pid. sp_child sp = Inl pid \<Longrightarrow> map_of (children r) pid = None"
  shows "runner_ok (spawn_child now sp j l r)"
proof -
  let ?r = "guard_passes (sp_passes sp) r"
  obtain gs where gs: "granted r = gs @ [l]" "runner_ok (r\<lparr>granted := gs\<rparr>)" using o by (auto simp: owes_def)
  have "guard_passes (sp_passes sp) (r\<lparr>granted := gs\<rparr>) = ?r\<lparr>granted := gs\<rparr>" by (simp add: guard_passes_def)
  then have ok: "runner_ok (?r\<lparr>granted := gs\<rparr>)" using guard_passes_ok [OF gs(2), of "sp_passes sp"] by simp
  then have owed: "owes l ?r" using gs(1) by (simp add: owes_def guard_passes_def)
  show ?thesis
  proof (cases "sp_child sp")
    case (Inl pid)
    have new: "map_of (children ?r) pid = None" using fresh Inl by simp
    note R = runner_okD [OF ok, simplified]
    let ?run = "\<lparr>ru_job = j, ru_lease = l, ru_started = now, ru_renew_at = Some (now + renew_every_s ?r),
                 ru_exit = None, ru_watch = None, ru_reaped_at = None\<rparr>"
    have "mset (map (\<lambda>(_, run). lease_id (ru_lease run)) (AList.update pid ?run (children ?r)))
        = add_mset (lease_id l) (mset (map (\<lambda>(_, run). lease_id (ru_lease run)) (children ?r)))"
      using new mset_map_update [OF children_okD(1) [OF R(1)], of "\<lambda>(_, run). lease_id (ru_lease run)" pid ?run]
      by (simp add: map_of_eq_None_iff)
    then show ?thesis
      using Inl R spawned_children [OF R(1), of pid ?run] new room gs(1)
      by (simp add: spawn_child_def Let_def put_run_def runner_ok_def leases_kept_def length_update guard_passes_def)
  next
    case (Inr e)
    have "due_kind ''failed'' (Some (snd (settle None None False (js_db_heavy j)))) = Some (snd (settle None None False (js_db_heavy j)))"
      using settle_releasable [of None None False "js_db_heavy j"] by (simp add: settle_def Let_def)
    then show ?thesis
      using Inr owes_unreleased [OF owed, of "not_run l ''failed'' (snd (settle None None False (js_db_heavy j))) (''spawn: '' @ e)"]
      by (simp add: spawn_child_def Let_def not_run_def releasable_def)
  qed
qed

text \<open>The processes a tick starts are new: none is a child, and no two are one.\<close>

definition fresh_spawns :: "(nat \<Rightarrow> spawning) \<Rightarrow> nat \<Rightarrow> runner \<Rightarrow> bool" where
  "fresh_spawns sps n r \<longleftrightarrow>
     (\<forall>k \<ge> n. \<forall>pid. sp_child (sps k) = Inl pid \<longrightarrow> map_of (children r) pid = None
        \<and> (\<forall>k' \<ge> n. sp_child (sps k') = Inl pid \<longrightarrow> k' = k))"

lemma find_registered:
  "name \<in> js_name ` set js \<Longrightarrow> \<exists>j. find (\<lambda>j. js_name j = name) (rev js) = Some j"
  by (cases "find (\<lambda>j. js_name j = name) (rev js)") (auto simp: find_None_iff)

lemma spawn_child_fields:
  "claims (spawn_child now sp j l r) = claims r" "registry (spawn_child now sp j l r) = registry r"
  "map_of (children r) p = None \<Longrightarrow> sp_child sp \<noteq> Inl p \<Longrightarrow> map_of (children (spawn_child now sp j l r)) p = None"
  by (auto simp: spawn_child_def Let_def put_run_def guard_passes_def update_conv' split: sum.splits if_splits)

definition no_claim :: "runner \<Rightarrow> bool" where
  "no_claim r \<longleftrightarrow> max_children r \<le> length (children r) \<or> stopping r
     \<or> (case claim_limit r of None \<Rightarrow> False | Some n \<Rightarrow> n \<le> claims r)"

lemma claim_loop_step:
  "claim_loop now ms sps (name # names) r =
     (if no_claim r then (True, r)
      else case claim_job (ms name) name r of
             (None, r1) \<Rightarrow> claim_loop now ms sps names r1
           | (Some l, r1) \<Rightarrow>
               let r2 = r1\<lparr>claims := claims r1 + 1\<rparr>
               in if stopping r2
                  then (True, r2\<lparr>unreleased := unreleased r2
                                   @ [not_run l ''interrupted'' ''now'' ''deploy stop; not started'']\<rparr>)
                  else case find (\<lambda>j. js_name j = name) (rev (registry r2)) of
                         None \<Rightarrow> (False, r2)
                       | Some j \<Rightarrow> claim_loop now ms sps names (spawn_child now (sps (claims r2)) j l r2))"
  by (cases "max_children r \<le> length (children r)"; cases "stopping r"; cases "claim_limit r") (simp_all add: no_claim_def)

lemma claim_loop_ok:
  "runner_ok r \<Longrightarrow> set names \<subseteq> js_name ` set (registry r) \<Longrightarrow> fresh_spawns sps (claims r + 1) r \<Longrightarrow>
   claim_loop now ms sps names r = (b, r') \<Longrightarrow> b \<and> runner_ok r'"
proof (induction names arbitrary: r)
  case (Cons name names)
  show ?case
  proof (cases "no_claim r")
    case True
    then show ?thesis using Cons.prems(1,4) by (simp add: claim_loop_step del: claim_loop.simps)
  next
    case False
    obtain res r1 where s: "claim_job (ms name) name r = (res, r1)" by force
    note C = claim_job_ok [OF s Cons.prems(1)]
    have fresh1: "fresh_spawns sps (claims r1 + 1) r1" using Cons.prems(3) C(2,3) by (simp add: fresh_spawns_def)
    show ?thesis
    proof (cases res)
      case None
      then show ?thesis using Cons.IH [of r1] Cons.prems(2,4) False s C fresh1 by (simp add: claim_loop_step del: claim_loop.simps(2))
    next
      case (Some l)
      let ?r2 = "r1\<lparr>claims := claims r1 + 1\<rparr>"
      have owes: "owes l ?r2" using C(1) Some by (auto simp: owes_def runner_ok_def leases_kept_def)
      obtain j where j: "find (\<lambda>j. js_name j = name) (rev (registry ?r2)) = Some j"
        using find_registered [of name "registry r"] Cons.prems(2) C(4) by auto
      show ?thesis
      proof (cases "stopping ?r2")
        case True
        have "releasable (not_run l ''interrupted'' ''now'' ''deploy stop; not started'')"
          using endings_releasable by (simp add: releasable_def not_run_def endings_def)
        then show ?thesis using owes_unreleased [OF owes, of "not_run l _ _ _"] True Some s False Cons.prems(4)
          by (auto simp: not_run_def Let_def claim_loop_step simp del: claim_loop.simps(2))
      next
        case running: False
        let ?r3 = "spawn_child now (sps (claims ?r2)) j l ?r2"
        have "length (children ?r2) < max_children ?r2" using False C(2,5) by (simp add: no_claim_def)
        moreover have "map_of (children ?r2) pid = None" if "sp_child (sps (claims ?r2)) = Inl pid" for pid
          using that fresh1 unfolding fresh_spawns_def by fastforce
        ultimately have "runner_ok ?r3" by (rule spawn_child_ok [OF owes])
        moreover have "fresh_spawns sps (claims ?r3 + 1) ?r3"
          unfolding fresh_spawns_def
        proof (intro allI impI conjI)
          fix k pid assume k: "claims ?r3 + 1 \<le> k" "sp_child (sps k) = Inl pid"
          then have later: "claims r1 + 1 < k" by (simp add: spawn_child_fields)
          have new: "map_of (children r1) pid = None" "\<And>k'. claims r1 + 1 \<le> k' \<Longrightarrow> sp_child (sps k') = Inl pid \<Longrightarrow> k' = k"
            using fresh1 k(2) later unfolding fresh_spawns_def by (meson less_imp_le)+
          then have "sp_child (sps (claims ?r2)) \<noteq> Inl pid" using later by fastforce
          then show "map_of (children ?r3) pid = None"
            using new(1) by (intro spawn_child_fields(3)) simp_all
          show "k' = k" if "claims ?r3 + 1 \<le> k'" "sp_child (sps k') = Inl pid" for k'
            using that new(2) [of k'] by (simp add: spawn_child_fields)
        qed
        ultimately show ?thesis
          using Cons.IH [of ?r3] Cons.prems(2,4) C(4) False s Some j running 
          by (simp add: Let_def spawn_child_fields claim_loop_step del: claim_loop.simps(2))
      qed
    qed
  qed
qed simp

lemma due_names: "set (due_jobs t names runner db) \<subseteq> set names"
  by (auto simp: due_jobs_def is_due_def)

lemma claim_pass_ok:
  assumes "runner_ok r" "fresh_spawns (ti_spawn ti) (claims r + 1) r"
  shows "fst (claim_pass ti r) \<and> runner_ok (snd (claim_pass ti r))"
proof -
  let ?r1 = "r\<lparr>next_claim_at := Some (ti_ledger_now ti + CLAIM_EVERY_S)\<rparr>"
  let ?names = "filter (\<lambda>n. n \<notin> set (skipped ?r1)) (map js_name (registry ?r1))"
  let ?hour = "map js_name (filter (\<lambda>j. js_db_heavy j \<and> js_name j \<in> set ?names) (registry ?r1))"
  have ok1: "runner_ok ?r1" using assms(1) by (simp add: runner_ok_def leases_kept_def)
  obtain a r2 where s2: "ask (ti_lost ti) (reap_lost (mo_at (ti_lost ti)) ?names ?hour JOB_RUNNER) ?r1 = (a, r2)" by force
  obtain b r3 where s3: "ask (ti_due ti) (\<lambda>db. (due_jobs (mo_at (ti_due ti)) ?names JOB_RUNNER db, db)) r2 = (b, r3)" by force
  note C2 = call_onlyD [OF ask_ok(1) [OF s2]] and K2 = ask_ok(2) [OF s2 ok1]
  note C3 = call_onlyD [OF ask_ok(1) [OF s3]] and K3 = ask_ok(2) [OF s3 K2]
  show ?thesis
  proof (cases "a = None \<or> b = None")
    case True
    then show ?thesis using s2 s3 K2 K3 by (auto simp: claim_pass_def Let_def split: option.splits)
  next
    case False
    then obtain x due where x: "a = Some x" "b = Some due" by auto
    obtain db where "due = due_jobs (mo_at (ti_due ti)) ?names JOB_RUNNER db" using ask_reply s3 x(2) by fastforce
    then have "set due \<subseteq> js_name ` set (registry r3)" using due_names C2 C3 by fastforce
    moreover have "runner_ok (r3\<lparr>claim_passes := claim_passes r3 + 1\<rparr>)" using K3 by (simp add: runner_ok_def leases_kept_def)
    moreover have "claim_pass ti r = claim_loop (ti_ledger_now ti) (ti_claim ti) (ti_spawn ti) due
        (r3\<lparr>claim_passes := claim_passes r3 + 1\<rparr>)"
      using s2 s3 x by (simp add: claim_pass_def Let_def)
    moreover have "fresh_spawns (ti_spawn ti) (claims r3 + 1) (r3\<lparr>claim_passes := claim_passes r3 + 1\<rparr>)"
      using assms(2) C2 C3 by (simp add: fresh_spawns_def)
    ultimately show ?thesis
      using claim_loop_ok [of "r3\<lparr>claim_passes := claim_passes r3 + 1\<rparr>" due "ti_spawn ti" "ti_ledger_now ti" "ti_claim ti"
          "fst (claim_pass ti r)" "snd (claim_pass ti r)"] by simp
  qed
qed

section \<open>The tick\<close>

lemma ask_snd_ok: "runner_ok r \<Longrightarrow> runner_ok (snd (ask m tx r))"
  by (metis ask_ok(2) prod.collapse)

lemma other_steps_ok:
  assumes "runner_ok r"
  shows "runner_ok (beat_step ti r)" "runner_ok (prune_step ti r)"
    "runner_ok (ledger_begin now r)" "runner_ok (register_jobs ti r)"
    "runner_ok (r\<lparr>the_guard := tick_done t (the_guard r)\<rparr>)"
proof -
  have beat: "runner_ok (beat_call m x)" if "runner_ok x" for m x
    using that by (simp add: beat_call_def ask_snd_ok)
  have field: "runner_ok (r\<lparr>next_prune_at := x\<rparr>)" "runner_ok (r\<lparr>next_beat_at := x, passes_at_beat := n\<rparr>)" for x n
    using assms by (simp_all add: runner_ok_def leases_kept_def)
  show "runner_ok (beat_step ti r)" using assms field(2) beat by (simp add: beat_step_def)
  show "runner_ok (prune_step ti r)" using assms field(1) by (simp add: prune_step_def ask_snd_ok)
  show "runner_ok (ledger_begin now r)" using assms by (simp add: ledger_begin_def runner_ok_def leases_kept_def)
  show "runner_ok (r\<lparr>the_guard := tick_done t (the_guard r)\<rparr>)"
    using assms guard_step_ok [of "the_guard r" "Tick_call t"]
    by (simp add: runner_ok_def leases_kept_def children_ok_def tick_done_def watched_def)
  have registered: "runner_ok (x\<lparr>is_registered := b, skipped := ns\<rparr>)" if "runner_ok x" for x b ns
    using that by (simp add: runner_ok_def leases_kept_def)
  show "runner_ok (register_jobs ti r)"
    using assms by (auto simp: register_jobs_def split: prod.splits option.splits intro!: registered intro: ask_ok(2))
qed

lemma register_children: "children (register_jobs ti r) = children r"
  by (auto simp: register_jobs_def call_onlyD(1) dest!: ask_ok(1) split: prod.splits option.splits)

lemma fresh_spawns_cong:
  assumes "fresh_spawns sps 0 r" "dom (map_of (children r')) = dom (map_of (children r))"
  shows "fresh_spawns sps n r'"
  using assms unfolding fresh_spawns_def by (metis domIff le0)

text \<open>A ledger phase never raises, and keeps the invariant.\<close>

lemma ledger_phase_ok:
  assumes ok: "runner_ok r" and fresh: "fresh_spawns (ti_spawn ti) 0 r"
  shows "fst (ledger_phase ti r) \<and> runner_ok (snd (ledger_phase ti r))"
proof -
  let ?r = "ledger_begin (ti_ledger_now ti) r"
  let ?r1 = "if service ?r \<and> \<not> stopping r \<and> \<not> is_registered ?r then register_jobs ti ?r else ?r"
  have ok1: "runner_ok ?r1" using other_steps_ok(3,4) ok by simp
  have c1: "children ?r1 = children r" by (simp add: register_children ledger_begin_def)
  obtain b r2 where s2: "release_all (ti_release ti) ?r1 = (b, r2)" by force
  have 2: "b" "runner_ok r2" "children r2 = children r"
    using release_loop_ok [of "ti_release ti" "[]" "unreleased ?r1" ?r1 b r2] s2 ok1 c1 by (simp_all add: release_all_def)
  let ?r3 = "renew_all (ti_ledger_now ti) (ti_renew ti) r2"
  have 3: "runner_ok ?r3" "dom (map_of (children ?r3)) = dom (map_of (children r))"
    using renew_all_ok [OF 2(2)] 2(3) by auto
  have 4: "fst (claim_step ti ?r3) \<and> runner_ok (snd (claim_step ti ?r3))"
    using claim_pass_ok [OF 3(1)] 3(1) fresh_spawns_cong [OF fresh 3(2)] by (simp add: claim_step_def)
  have "ledger_phase ti r = and_then (b, r2) (\<lambda>r2. let r3 = renew_all (ti_ledger_now ti) (ti_renew ti) r2
      in if stopping r \<or> stopping r3 then (True, r3)
         else and_then (claim_step ti r3) (\<lambda>r4. (True, prune_step ti (beat_step ti r4))))"
    using s2 by (simp only: ledger_phase_def Let_def)
  then show ?thesis using 2(1) 3(1) 4 other_steps_ok(1,2) by (simp add: and_then_def Let_def)
qed

text \<open>
  What is assumed of the operating system: a process started in this tick has a pid no child of the runner
  has, a child that is reaped and still waits to be settled included. Unix may hand the pid of a reaped
  process out again; such a reuse inside one tick is left out here.
\<close>

definition fresh_tick :: "tick_in \<Rightarrow> runner \<Rightarrow> bool" where
  "fresh_tick ti r \<longleftrightarrow>
     fresh_spawns (ti_spawn ti) 0 (snd (process_phase (ti_process_now ti) (ti_sights ti) (ti_orphans_ok ti) r))"

lemma runner_tick_ok:
  assumes "runner_ok r" "fresh_tick ti r"
  shows "runner_ok (snd (tick ti r))"
proof -
  let ?r1 = "guard_passes (ti_passes ti) (snd (process_phase (ti_process_now ti) (ti_sights ti) (ti_orphans_ok ti) r))"
  have "runner_ok ?r1" using process_phase_ok [OF assms(1)] by simp
  moreover have "fresh_spawns (ti_spawn ti) 0 ?r1" using assms(2) by (simp add: fresh_tick_def fresh_spawns_def)
  ultimately have "runner_ok (snd (ledger_phase ti ?r1))" using ledger_phase_ok by blast
  then show ?thesis using other_steps_ok(5) by (simp add: tick_def split_def Let_def)
qed

text \<open>Every runner the code can reach: made, then ticked, whatever the ticks meet.\<close>

inductive runner_reaches :: "runner \<Rightarrow> bool" where
  made: "runner_reaches (new_runner js serves limit first_process give_up holder heart now db)"
| ticked: "runner_reaches r \<Longrightarrow> fresh_tick ti r \<Longrightarrow> runner_reaches (snd (tick ti r))"

lemma runner_reaches_ok: "runner_reaches r \<Longrightarrow> runner_ok r"
proof (induction rule: runner_reaches.induct)
  case (made js serves limit first_process give_up holder heart now db)
  show ?case
    by (simp add: new_runner_def runner_ok_def leases_kept_def children_ok_def guard_ok_def new_guard_def watched_def unreaped_def)
qed (rule runner_tick_ok)

end
