(* ===== verification/Job_Runner_Props.thy ===== *)
theory Job_Runner_Props
  imports Job_Runner_Laws
begin

text \<open>
  The properties of the job runner: what holds of every runner the code can reach, and how a stop ends it.
\<close>

section \<open>Every reachable runner\<close>

text \<open>
  C21. The runner signals its own children only: in every reachable runner the recorded events are in
  order, each signal and each reap going to a process that was started and not yet reaped, and the
  processes left are exactly the runner's unreaped children.
\<close>

theorem runner_signals:
  assumes "runner_reaches r"
  shows "foldM life (events (the_guard r)) {} = Some {pid. \<exists>run. map_of (children r) pid = Some run \<and> ru_exit run = None}"
  using children_okD(4) [OF runner_okD(1) [OF runner_reaches_ok [OF assms]]] by (simp add: unreaped_def)

text \<open>
  C20. No lease is lost or doubled: in every reachable runner each lease the ledger granted is held by one
  child, or waits in one unreleased run, or its release was answered; and the children stay within the
  bound.
\<close>

theorem runner_keeps_leases:
  assumes "runner_reaches r"
  shows "mset (map (\<lambda>(_, run). lease_id (ru_lease run)) (children r)) + mset (map (\<lambda>d. lease_id (fi_lease d)) (unreleased r))
     + mset (map (\<lambda>(d, _). lease_id (fi_lease d)) (answered r)) = mset (map lease_id (granted r))
   \<and> length (children r) \<le> max_children r"
  using runner_okD(2,4) [OF runner_reaches_ok [OF assms]] by (simp add: leases_kept_def)

text \<open>
  C23. A tick never raises: of a reachable runner, the ledger phase returns whatever it meets, and no run
  waits for its release in a word the tables refuse.
\<close>

theorem tick_returns:
  assumes "runner_reaches r" "fresh_tick ti r"
  shows "fst (ledger_phase ti (guard_passes ps (snd (process_phase (ti_process_now ti) (ti_sights ti) (ti_orphans_ok ti) r))))
    \<and> list_all (\<lambda>d. release t (fi_lease d) (fi_outcome d) (Some (fi_due d)) (fi_error d) (fi_exit d) db \<noteq> None) (unreleased r)"
proof
  have ok: "runner_ok r" by (rule runner_reaches_ok [OF assms(1)])
  have "fresh_spawns (ti_spawn ti) 0
      (guard_passes ps (snd (process_phase (ti_process_now ti) (ti_sights ti) (ti_orphans_ok ti) r)))"
    using assms(2) by (simp add: fresh_tick_def fresh_spawns_def)
  then show "fst (ledger_phase ti (guard_passes ps (snd (process_phase (ti_process_now ti) (ti_sights ti) (ti_orphans_ok ti) r))))"
    using ledger_phase_ok process_phase_ok [OF ok] by simp
  show "list_all (\<lambda>d. release t (fi_lease d) (fi_outcome d) (Some (fi_due d)) (fi_error d) (fi_exit d) db \<noteq> None) (unreleased r)"
    using runner_okD(3) [OF ok] by (auto simp: list_all_iff releasable_def release_def)
qed

section \<open>A stop\<close>

lemma stop_stays [simp]:
  "stop_at g \<noteq> None \<Longrightarrow> stop_at (guard_pass now st smp g) \<noteq> None"
  "stop_at (snd (forget pid g)) = stop_at g" "stop_at (move_fence pid f g) = stop_at g" "stop_at (fence_now pid g) = stop_at g"
  by (auto simp: seen_stop_def forget_def move_fence_def fence_now_def split: option.splits)

lemma forget_stop: "forget pid g = (w, g') \<Longrightarrow> stop_at g' = stop_at g"
  by (auto simp: forget_def)

lemma stopping_passes [simp]: "stopping r \<Longrightarrow> stopping (guard_passes ps r)"
proof -
  assume "stopping r"
  then have "stop_at (fold (\<lambda>p. guard_pass (ps_now p) (ps_stop p) (ps_sample p)) ps (the_guard r)) \<noteq> None"
    unfolding stopping_def
    by (rule fold_inv [where P = "\<lambda>g. stop_at g \<noteq> None"]) (rule stop_stays(1))
  then show ?thesis by (simp add: stopping_def guard_passes_def)
qed

lemma passes_granted [simp]:
  "granted (guard_passes ps r) = granted r" "stop_phase_budget_s (guard_passes ps r) = stop_phase_budget_s r"
  "unreleased (guard_passes ps r) = unreleased r"
  by (simp_all add: guard_passes_def)

lemma stopping_reach: "reach m tx r = (a, r') \<Longrightarrow> stopping r \<Longrightarrow> stopping r'"
  using stopping_passes [of r "mo_passes m"] by (subst reach_frame [of m tx r a r']) (simp_all add: stopping_def)

text \<open>What the process phase leaves alone.\<close>

lemma see_child_keeps:
  "granted (snd (see_child now sights x (clean, r))) = granted r"
  "stopping r \<Longrightarrow> stopping (snd (see_child now sights x (clean, r)))"
  "stop_phase_budget_s (snd (see_child now sights x (clean, r))) = stop_phase_budget_s r"
proof -
  obtain pid run where x: "x = (pid, run)" by (cases x)
  let ?r = "guard_passes (si_passes (sights pid)) r"
  obtain res r1 where s: "reap_run now pid run (sights pid) ?r = (res, r1)" by force
  have "stop_at (the_guard r1) = stop_at (the_guard ?r) \<and> granted r1 = granted r
      \<and> stop_phase_budget_s r1 = stop_phase_budget_s r"
    using s
    by (auto simp: reap_run_def Let_def put_run_def forget_stop split: if_splits option.splits bool.splits prod.splits)
  moreover have "granted (settle_run pid run' si r1) = granted r1" "the_guard (settle_run pid run' si r1) = the_guard r1"
      "stop_phase_budget_s (settle_run pid run' si r1) = stop_phase_budget_s r1" for run' si
    by (simp_all add: settle_run_def Let_def split_def)
  ultimately show "granted (snd (see_child now sights x (clean, r))) = granted r"
    and "stopping r \<Longrightarrow> stopping (snd (see_child now sights x (clean, r)))"
    and "stop_phase_budget_s (snd (see_child now sights x (clean, r))) = stop_phase_budget_s r"
    using s stopping_passes [of r "si_passes (sights pid)"]
    by (auto simp: x see_child_def Let_def stopping_def split: option.splits)
qed

lemma process_phase_keeps:
  "granted (snd (process_phase now sights ok r)) = granted r"
  "stopping r \<Longrightarrow> stopping (snd (process_phase now sights ok r))"
  "stop_phase_budget_s (snd (process_phase now sights ok r)) = stop_phase_budget_s r"
proof -
  have f: "granted (snd (fold (see_child now sights) xs (c, s))) = granted s
      \<and> stop_phase_budget_s (snd (fold (see_child now sights) xs (c, s))) = stop_phase_budget_s s
      \<and> (stopping s \<longrightarrow> stopping (snd (fold (see_child now sights) xs (c, s))))" for xs c s
  proof (induction xs arbitrary: c s)
    case (Cons x xs)
    then show ?case using see_child_keeps [where now = now and sights = sights and x = x and clean = c and r = s] by (cases "see_child now sights x (c, s)") simp
  qed simp
  then show "granted (snd (process_phase now sights ok r)) = granted r"
    and "stopping r \<Longrightarrow> stopping (snd (process_phase now sights ok r))"
    and "stop_phase_budget_s (snd (process_phase now sights ok r)) = stop_phase_budget_s r"
    by (simp_all add: process_phase_def Let_def split_def)
qed

text \<open>A child that is gone for good: exited, its code read, its group empty and its output at an end.\<close>

definition gone :: "sight \<Rightarrow> bool" where
  "gone si \<longleftrightarrow> si_exited si = Some True \<and> si_code si \<noteq> None \<and> si_left si = 0 \<and> si_reader_done si"

lemma see_child_gone:
  assumes ok: "runner_ok r" and run: "map_of (children r) pid = Some run" and gone: "gone (sights pid)"
  shows "map_of (children (snd (see_child now sights (pid, run) (clean, r)))) pid = None"
proof -
  let ?r = "guard_passes (si_passes (sights pid)) r"
  obtain res r1 where s: "reap_run now pid run (sights pid) ?r = (res, r1)" by force
  have "ru_exit run \<noteq> None \<Longrightarrow> ru_reaped_at run \<noteq> None"
    using children_okD(5) [OF runner_okD(1) [OF ok] run] by simp
  then obtain run' c t where "res = Some run'" "ru_exit run' = Some c" "ru_reaped_at run' = Some t"
    using s gone by (cases "ru_exit run = None") (auto simp: reap_run_def gone_def Let_def split_def)
  then show ?thesis using s gone
    by (simp add: see_child_def Let_def gone_def settle_run_children delete_conv')
qed

lemma see_children_dom:
  "runner_ok r \<Longrightarrow> distinct (map fst runs) \<Longrightarrow> \<forall>(pid, run) \<in> set runs. map_of (children r) pid = Some run \<Longrightarrow>
   dom (map_of (children (snd (fold (see_child now sights) runs (clean, r))))) \<subseteq> dom (map_of (children r))
     - (if \<forall>pid. gone (sights pid) then fst ` set runs else {})"
proof (induction runs arbitrary: clean r)
  case (Cons x runs)
  obtain pid run where x: "x = (pid, run)" by (cases x)
  obtain clean' r' where s: "see_child now sights (pid, run) (clean, r) = (clean', r')" by force
  have run: "map_of (children r) pid = Some run" using Cons.prems(3) by (simp add: x)
  have S: "runner_ok r'" "\<And>p. p \<noteq> pid \<Longrightarrow> map_of (children r') p = map_of (children r) p"
    using see_child_ok [OF Cons.prems(1) run, of now sights clean] s by auto
  have "\<forall>(p, run) \<in> set runs. p \<noteq> pid" using Cons.prems(2) by (force simp: x)
  then have ih: "dom (map_of (children (snd (fold (see_child now sights) runs (clean', r'))))) \<subseteq> dom (map_of (children r'))
     - (if \<forall>pid. gone (sights pid) then fst ` set runs else {})"
    using Cons.prems(2,3) S by (intro Cons.IH) (fastforce simp: x)+
  have "dom (map_of (children r')) \<subseteq> dom (map_of (children r))"
    using S(2) run by (metis domIff domI subsetI)
  moreover have "map_of (children r') pid = None" if "\<forall>pid. gone (sights pid)"
    using see_child_gone [OF Cons.prems(1) run, of sights now clean] that s by simp
  ultimately show ?case using ih s by (auto simp: x subset_iff split: if_splits)
qed simp

lemma process_phase_dom:
  assumes "runner_ok r"
  shows "dom (map_of (children (snd (process_phase now sights ok r)))) \<subseteq> dom (map_of (children r))"
    and "\<forall>pid. gone (sights pid) \<Longrightarrow> children (snd (process_phase now sights ok r)) = []"
proof -
  have d: "distinct (map fst (children r))" by (rule children_okD(1) [OF runner_okD(1) [OF assms]])
  note D = see_children_dom [OF assms d, of now sights True]
  show "dom (map_of (children (snd (process_phase now sights ok r)))) \<subseteq> dom (map_of (children r))"
    using D d by (auto simp: process_phase_def Let_def split_def split: if_splits)
  assume "\<forall>pid. gone (sights pid)"
  then have "dom (map_of (children (snd (process_phase now sights ok r)))) = {}"
    using D d by (auto simp: process_phase_def Let_def split_def dom_map_of_conv_image_fst)
  then show "children (snd (process_phase now sights ok r)) = []"
    by (simp add: dom_map_of_conv_image_fst)
qed

text \<open>The releases and renewals of a ledger phase change nothing else.\<close>

lemma release_loop_stopping: "release_loop ms kept ds r = (b, r') \<Longrightarrow> stopping r \<Longrightarrow> stopping r'"
proof (induction ds arbitrary: kept r)
  case (Cons d ds)
  obtain a r1 where s: "reach (ms (le_run (fi_lease d))) (release_tx (ms (le_run (fi_lease d))) d) r = (a, r1)" by force
  have st: "stopping r1" using stopping_reach [OF s Cons.prems(2)] .
  then have st': "stopping (r1\<lparr>unreleased := x, last_released := y, answered := z\<rparr>)" "stopping (r1\<lparr>unreleased := x\<rparr>)" for x y z
    by (simp_all add: stopping_def)
  show ?case using Cons.prems(1) s st st' Cons.IH
    by (auto simp: Let_def split: reply.splits option.splits bool.splits)
qed simp

lemma ask_stopping: "ask m tx r = (a, r') \<Longrightarrow> stopping r \<Longrightarrow> stopping r'"
  by (auto simp: ask_def dest: stopping_reach split: prod.splits reply.splits)

lemma put_run_stopping:
  "stopping (put_run pid run (r\<lparr>the_guard := move_fence p f (the_guard r)\<rparr>)) = stopping r"
  "stopping (put_run pid run (r\<lparr>the_guard := fence_now p (the_guard r)\<rparr>)) = stopping r"
  by (simp_all add: stopping_def put_run_def)

lemma renew_one_stopping: "stopping r \<Longrightarrow> stopping (renew_one now ms x r)"
  by (auto simp: renew_one_def Let_def put_run_stopping dest: ask_stopping split: prod.splits option.splits bool.splits)

lemma renew_all_stopping: "stopping r \<Longrightarrow> stopping (renew_all now ms r)"
  unfolding renew_all_def by (rule fold_inv [where P = stopping]) (simp_all add: renew_one_stopping)

lemma ledger_phase_stopping:
  assumes ok: "runner_ok r" and st: "stopping r"
  shows "\<exists>r2. release_all (ti_release ti) (ledger_begin (ti_ledger_now ti) r) = (True, r2) \<and> runner_ok r2
    \<and> children r2 = children r \<and> granted r2 = granted r
    \<and> ledger_phase ti r = (True, renew_all (ti_ledger_now ti) (ti_renew ti) r2)"
proof -
  let ?r = "ledger_begin (ti_ledger_now ti) r"
  obtain b r2 where s: "release_all (ti_release ti) ?r = (b, r2)" by force
  have "b \<and> runner_ok r2 \<and> children r2 = children ?r \<and> granted r2 = granted ?r"
    using release_loop_ok [of "ti_release ti" "[]" "unreleased ?r" ?r b r2] s other_steps_ok(3) [OF ok]
    by (simp add: release_all_def)
  moreover have "children ?r = children r" "granted ?r = granted r" by (simp_all add: ledger_begin_def)
  ultimately show ?thesis using s st by (auto simp: ledger_phase_def Let_def and_then_def)
qed

text \<open>
  C26. A stop stops the claims: a tick of a reachable runner that has seen the stop is granted no lease
  and starts no child.
\<close>

theorem stop_claims_nothing:
  assumes "runner_reaches r" "stopping r"
  shows "granted (snd (tick ti r)) = granted r \<and> fst ` set (children (snd (tick ti r))) \<subseteq> fst ` set (children r)"
proof -
  have ok: "runner_ok r" by (rule runner_reaches_ok [OF assms(1)])
  let ?r1 = "snd (process_phase (ti_process_now ti) (ti_sights ti) (ti_orphans_ok ti) r)"
  let ?r2 = "guard_passes (ti_passes ti) ?r1"
  have r2: "runner_ok ?r2" "stopping ?r2" "granted ?r2 = granted r" "children ?r2 = children ?r1"
    using process_phase_ok [OF ok] process_phase_keeps assms(2) by simp_all
  obtain r3 where r3: "runner_ok r3" "children r3 = children ?r1" "granted r3 = granted r"
      "ledger_phase ti ?r2 = (True, renew_all (ti_ledger_now ti) (ti_renew ti) r3)"
    using ledger_phase_stopping [OF r2(1,2), of ti] r2(3,4) by auto
  have "dom (map_of (children (renew_all (ti_ledger_now ti) (ti_renew ti) r3))) = dom (map_of (children ?r1))"
    and "granted (renew_all (ti_ledger_now ti) (ti_renew ti) r3) = granted r"
    using renew_all_ok [OF r3(1)] r3(2,3) by simp_all
  moreover have "dom (map_of (children ?r1)) \<subseteq> dom (map_of (children r))"
    by (rule process_phase_dom(1) [OF ok])
  ultimately show ?thesis using r3(4)
    by (simp add: tick_def split_def Let_def dom_map_of_conv_image_fst)
qed

lemma reach_answers:
  assumes "pg_up r" "mo_link m = Answered" "\<And>b. budget_until r = Some b \<Longrightarrow> mo_clock m < b"
  shows "\<exists>db'. reach m tx r = (Reply (fst (tx (mo_others m (tables r)))), (guard_passes (mo_passes m) r)\<lparr>tables := db'\<rparr>)"
proof -
  let ?r = "guard_passes (mo_passes m) r"
  have "pg_up ?r" "\<not> (case budget_until ?r of None \<Rightarrow> False | Some b \<Rightarrow> b \<le> mo_clock m)" "tables ?r = tables r"
    using assms(1,3) by (auto simp: guard_passes_def not_le split: option.splits)
  then show ?thesis using assms(2) unfolding reach_def Let_def split_def by auto
qed

lemma release_loop_empties:
  "release_loop ms [] ds r = (True, r') \<Longrightarrow> pg_up r \<Longrightarrow> unreleased r = ds \<Longrightarrow> list_all releasable ds \<Longrightarrow>
   \<forall>k. mo_link (ms k) = Answered \<and> (\<forall>b. budget_until r = Some b \<longrightarrow> mo_clock (ms k) < b) \<Longrightarrow> unreleased r' = []"
proof (induction ds arbitrary: r)
  case (Cons d ds)
  let ?m = "ms (le_run (fi_lease d))" and ?tx = "release_tx (ms (le_run (fi_lease d))) d"
  obtain db' where s: "reach ?m ?tx r = (Reply (fst (?tx (mo_others ?m (tables r)))), (guard_passes (mo_passes ?m) r)\<lparr>tables := db'\<rparr>)"
    using reach_answers [of r ?m ?tx] Cons.prems(2,5) by blast
  obtain b where b: "fst (?tx (mo_others ?m (tables r))) = Some b" using release_answers Cons.prems(4) by fastforce
  let ?r = "(guard_passes (mo_passes ?m) r)\<lparr>tables := db', unreleased := ds, last_released := Some (d, b),
      answered := answered r @ [(d, b)]\<rparr>"
  have "release_loop ms [] ds ?r = (True, r')"
    using Cons.prems(1) s b by (simp add: Let_def guard_passes_def)
  then show ?case using Cons.IH [of ?r] Cons.prems by (simp add: guard_passes_def)
qed simp

text \<open>
  C22. A stop is carried through: when the children have gone and the ledger answers every release before
  the phase's budget is spent, the tick is the runner's last.
\<close>

theorem stop_ends:
  assumes "runner_reaches r" "stopping r" "\<And>pid. gone (ti_sights ti pid)"
    and "\<And>k. mo_link (ti_release ti k) = Answered"
    and "\<And>k. mo_clock (ti_release ti k) < ti_ledger_now ti + stop_phase_budget_s r"
  shows "fst (tick ti r)"
proof -
  have ok: "runner_ok r" by (rule runner_reaches_ok [OF assms(1)])
  let ?r1 = "snd (process_phase (ti_process_now ti) (ti_sights ti) (ti_orphans_ok ti) r)"
  let ?r2 = "guard_passes (ti_passes ti) ?r1" and ?started = "ledger_begin (ti_ledger_now ti)"
  have r2: "runner_ok ?r2" "stopping ?r2" "stop_phase_budget_s ?r2 = stop_phase_budget_s r" "children ?r2 = []"
    using process_phase_ok [OF ok] process_phase_keeps assms(2,3) process_phase_dom(2) [OF ok] by simp_all
  obtain r3 where r3: "release_all (ti_release ti) (?started ?r2) = (True, r3)" "runner_ok r3" "children r3 = []"
      "ledger_phase ti ?r2 = (True, renew_all (ti_ledger_now ti) (ti_renew ti) r3)"
    using ledger_phase_stopping [OF r2(1,2), of ti] r2(4) by auto
  have b: "pg_up (?started ?r2)" "budget_until (?started ?r2) = Some (ti_ledger_now ti + stop_phase_budget_s r)"
    using r2(2,3) by (simp_all add: ledger_begin_def stopping_def)
  have "unreleased r3 = []"
    using release_loop_empties [of "ti_release ti" "unreleased (?started ?r2)" "?started ?r2" r3] r3(1) b assms(4,5)
      runner_okD(3) [OF other_steps_ok(3) [OF r2(1)]] by (simp add: release_all_def)
  moreover have "stopping r3"
    using release_loop_stopping r3(1) r2(2) by (fastforce simp: release_all_def ledger_begin_def stopping_def)
  moreover have "renew_all (ti_ledger_now ti) (ti_renew ti) r3 = r3" using r3(3) by (simp add: renew_all_def)
  moreover have "stopping (x\<lparr>the_guard := tick_done t (the_guard x)\<rparr>) = stopping x" for x t
    by (simp add: stopping_def tick_done_def)
  ultimately show ?thesis using r3 by (simp add: tick_def split_def Let_def all_done_def)
qed

section \<open>A run\<close>

text \<open>
  One job: registered at 0, started as process 7 at 4000 when it has come due, asked to stop by the
  guard at 4005, and found gone at 4010.
\<close>

definition ex_job :: job where
  "ex_job = \<lparr>js_name = ''clip'', js_every = 900, js_offset = 300, js_timeout = 3300, js_resource = None,
     js_memory_mb = 3072, js_db_heavy = False\<rparr>"

definition quiet :: "rat \<Rightarrow> moment" where
  "quiet t = \<lparr>mo_passes = [], mo_clock = t, mo_others = (\<lambda>db. db), mo_sent = t, mo_at = t, mo_link = Answered\<rparr>"

definition ex_tick :: "rat \<Rightarrow> bool \<Rightarrow> bool \<Rightarrow> tick_in" where
  "ex_tick t stop ended = \<lparr>ti_process_now = t,
     ti_sights = (\<lambda>_. \<lparr>si_passes = (if stop then [\<lparr>ps_now = t, ps_stop = True, ps_sample = (\<lambda>_. Some 100)\<rparr>] else []),
        si_exited = Some ended, si_code = Some 143, si_left = 0, si_reader_done = True, si_tail = []\<rparr>),
     ti_orphans_ok = True, ti_passes = [], ti_ledger_now = t, ti_register = quiet t, ti_retire = quiet t,
     ti_release = (\<lambda>_. quiet t), ti_renew = (\<lambda>_. quiet t), ti_lost = quiet t, ti_due = quiet t, ti_claim = (\<lambda>_. quiet t),
     ti_spawn = (\<lambda>n. \<lparr>sp_passes = [], sp_child = (if n = 1 then Inl (if t < 4005 then 7 else 8) else Inr ''OSError'')\<rparr>),
     ti_beat = quiet t, ti_forget = quiet t, ti_prune = quiet t, ti_end = t\<rparr>"

definition ex_made :: runner where
  "ex_made = new_runner [ex_job] True None True None ''w'' False 0 \<lparr>job_rows = [], job_runs = [], next_run = 1\<rparr>"
definition ex_registered :: runner where "ex_registered = snd (tick (ex_tick 0 False False) ex_made)"
definition ex_running :: runner where "ex_running = snd (tick (ex_tick 4000 False False) ex_registered)"
definition ex_stopping :: runner where "ex_stopping = snd (tick (ex_tick 4005 True False) ex_running)"

lemma ex_spawn: "sp_child (ti_spawn (ex_tick t stop ended) k) = Inl pid \<Longrightarrow> k = 1 \<and> pid = (if t < 4005 then 7 else 8)"
  by (cases "k = 1") (simp_all add: ex_tick_def)

lemma ex_fresh:
  assumes "runner_ok r" "(if t < 4005 then 7 else 8) \<notin> fst ` set (children r)"
  shows "fresh_tick (ex_tick t stop ended) r"
proof -
  let ?r = "snd (process_phase (ti_process_now (ex_tick t stop ended)) (ti_sights (ex_tick t stop ended))
      (ti_orphans_ok (ex_tick t stop ended)) r)"
  have "dom (map_of (children ?r)) \<subseteq> dom (map_of (children r))"
    by (rule process_phase_dom(1) [OF assms(1)])
  moreover define p where "p = (if t < 4005 then 7 else 8 :: int)"
  moreover have "p \<notin> dom (map_of (children r))" using assms(2) by (simp add: dom_map_of_conv_image_fst p_def)
  ultimately have "p \<notin> dom (map_of (children ?r))" by blast
  then have none: "map_of (children ?r) p = None" by (simp add: domIff)
  show ?thesis unfolding fresh_tick_def fresh_spawns_def
  proof (intro allI impI conjI)
    fix k pid assume "sp_child (ti_spawn (ex_tick t stop ended) k) = Inl pid"
    note k = ex_spawn [OF this]
    show "map_of (children ?r) pid = None" using k none by (simp add: p_def)
    show "k' = k" if "sp_child (ti_spawn (ex_tick t stop ended) k') = Inl pid" for k'
      using ex_spawn [OF that] k by simp
  qed
qed

lemma ex_children: "children ex_made = []" "children ex_registered = []" "fst ` set (children ex_running) = {7}"
proof -
  show "children ex_made = []" by (simp add: ex_made_def new_runner_def)
  have "map fst (children ex_registered) = []" by code_simp
  then show "children ex_registered = []" by simp
  have "map fst (children ex_running) = [7]" by code_simp
  then show "fst ` set (children ex_running) = {7}" by (metis list.set_map list.simps(15) list.set(1))
qed

lemma ex_reached: "runner_reaches ex_registered" "runner_reaches ex_running" "runner_reaches ex_stopping"
proof -
  have m: "runner_reaches ex_made" by (simp add: ex_made_def runner_reaches.made)
  show r: "runner_reaches ex_registered" unfolding ex_registered_def
    using ex_children(1) by (intro runner_reaches.ticked [OF m] ex_fresh runner_reaches_ok m) simp
  show r': "runner_reaches ex_running" unfolding ex_running_def
    using ex_children(2) by (intro runner_reaches.ticked [OF r] ex_fresh runner_reaches_ok r) simp
  show "runner_reaches ex_stopping" unfolding ex_stopping_def
    using ex_children(3) by (intro runner_reaches.ticked [OF r'] ex_fresh runner_reaches_ok r') simp
qed

lemma ex_stop: "stopping ex_stopping"
proof -
  have "stop_at (the_guard ex_stopping) = Some 4005" by code_simp
  then show ?thesis by (simp add: stopping_def)
qed

theorem runner_signals_witness:
  "foldM life (events (the_guard ex_stopping)) {}
     = Some {pid. \<exists>run. map_of (children ex_stopping) pid = Some run \<and> ru_exit run = None}
   \<and> events (the_guard ex_stopping) = [Watched 7, Term 7]"
proof (rule conjI [OF runner_signals [OF ex_reached(3)]])
  show "events (the_guard ex_stopping) = [Watched 7, Term 7]" by code_simp
qed

theorem runner_keeps_leases_witness:
  "mset (map (\<lambda>(_, run). lease_id (ru_lease run)) (children ex_running)) + mset (map (\<lambda>d. lease_id (fi_lease d)) (unreleased ex_running))
     + mset (map (\<lambda>(d, _). lease_id (fi_lease d)) (answered ex_running)) = mset (map lease_id (granted ex_running))
   \<and> length (children ex_running) \<le> max_children ex_running \<and> length (granted ex_running) = 1"
proof -
  have "length (granted ex_running) = 1" by code_simp
  then show ?thesis using runner_keeps_leases [OF ex_reached(2)] by simp
qed

theorem tick_returns_witness:
  "fst (ledger_phase (ex_tick 4000 False False) (guard_passes [] (snd (process_phase (ti_process_now (ex_tick 4000 False False))
        (ti_sights (ex_tick 4000 False False)) (ti_orphans_ok (ex_tick 4000 False False)) ex_registered))))
    \<and> list_all (\<lambda>d. release 4000 (fi_lease d) (fi_outcome d) (Some (fi_due d)) (fi_error d) (fi_exit d) (tables ex_registered) \<noteq> None)
        (unreleased ex_registered)"
  using ex_children(2) by (intro tick_returns ex_reached ex_fresh runner_reaches_ok) simp

theorem stop_claims_nothing_witness:
  "granted (snd (tick (ex_tick 4010 True True) ex_stopping)) = granted ex_stopping
   \<and> fst ` set (children (snd (tick (ex_tick 4010 True True) ex_stopping))) \<subseteq> fst ` set (children ex_stopping)"
  by (rule stop_claims_nothing [OF ex_reached(3) ex_stop])

theorem stop_ends_witness: "fst (tick (ex_tick 4010 True True) ex_stopping)"
proof (rule stop_ends [OF ex_reached(3) ex_stop])
  have "stop_phase_budget_s ex_stopping = 10" by code_simp
  then show "mo_clock (ti_release (ex_tick 4010 True True) k) < ti_ledger_now (ex_tick 4010 True True) + stop_phase_budget_s ex_stopping" for k
    by (simp add: ex_tick_def quiet_def)
qed (simp_all add: ex_tick_def quiet_def gone_def)

end
