(* ===== verification/Family.thy ===== *)
theory Family
  imports Cluster
begin

text \<open>
  \<^verbatim>\<open>autodedup/family.py\<close>: the family guard of the K-B certificate. What the guard reads off an advert's
  text (\<open>stated_areas\<close>, \<open>reference_codes\<close>, \<open>unit_designators\<close>) and off its time stamps comes with the
  advert, already read; areas, prices and epoch days are rational. A mapping is a function, so its keys
  are what it is defined on; \<open>None\<close> as a whole result is the \<^verbatim>\<open>KeyError\<close> of an advert that is not there.
\<close>

record family_settings =
  family_guard_mode :: string
  family_guard_area_tol :: rat
  family_guard_area_window :: rat
  family_guard_price_tol :: rat
  family_guard_price_rise_max :: rat
  family_guard_overlap_days :: rat
  family_guard_concurrency_clause :: bool
  family_guard_price_clause :: bool
  family_guard_ref_code_clause :: bool
  family_guard_unit_designator_clause :: bool
  family_guard_disposition_clause :: bool

record family_ad =
  fa_id :: int
  fa_area :: "rat option"
  fa_printed :: "rat list"
  fa_price :: "rat option"
  fa_start :: "rat option"
  fa_end :: "rat option"
  fa_refs :: "string list"
  fa_units :: "string list"
  fa_disposition :: "string option"

record member_fact =
  m_id :: int
  headline_area :: "rat option"
  m_price :: "rat option"
  win_start :: "rat option"
  win_end :: "rat option"
  ref_codes :: "string list"
  unit_designators :: "string list"
  m_disposition :: "string option"

definition headline_area_of :: "family_settings \<Rightarrow> family_ad \<Rightarrow> rat option" where
  "headline_area_of cfg a =
     (case fa_area a of
        None \<Rightarrow> None
      | Some s \<Rightarrow>
          if s \<le> 0 then None
          else let printed = filter (\<lambda>v. \<bar>v - s\<bar> / s \<le> family_guard_area_window cfg) (fa_printed a)
               in if printed = [] then None else Some (arg_min_list (\<lambda>v. \<bar>v - s\<bar>) printed))"

definition member_facts :: "family_settings \<Rightarrow> family_ad \<Rightarrow> member_fact" where
  "member_facts cfg a = \<lparr>m_id = fa_id a, headline_area = headline_area_of cfg a, m_price = fa_price a,
     win_start = fa_start a, win_end = fa_end a, ref_codes = fa_refs a, unit_designators = fa_units a,
     m_disposition = fa_disposition a\<rparr>"

section \<open>Two adverts\<close>

definition rel :: "rat \<Rightarrow> rat \<Rightarrow> rat" where
  "rel a b = (let low = min a b in if 0 < low then \<bar>a - b\<bar> / low else 0)"

definition overlap_days :: "member_fact \<Rightarrow> member_fact \<Rightarrow> rat option" where
  "overlap_days a b = (case (win_start a, win_end a, win_start b, win_end b) of
     (Some sa, Some ea, Some sb, Some eb) \<Rightarrow> Some (min ea eb - max sa sb) | _ \<Rightarrow> None)"

text \<open>The truth value Python gives an optional number, an optional text and a set.\<close>

definition number_of :: "rat option \<Rightarrow> rat" where
  "number_of x = (case x of None \<Rightarrow> 0 | Some v \<Rightarrow> v)"

definition told :: "string option \<Rightarrow> bool" where
  "told x \<longleftrightarrow> x \<noteq> None \<and> x \<noteq> Some []"

definition disjoint_sets :: "string list \<Rightarrow> string list \<Rightarrow> bool" where
  "disjoint_sets xs ys \<longleftrightarrow> xs \<noteq> [] \<and> ys \<noteq> [] \<and> \<not> list_ex (\<lambda>x. x \<in> set ys) xs"

definition areas_apart :: "family_settings \<Rightarrow> member_fact \<Rightarrow> member_fact \<Rightarrow> bool" where
  "areas_apart cfg a b = (case (headline_area a, headline_area b) of
     (Some x, Some y) \<Rightarrow> family_guard_area_tol cfg < rel x y | _ \<Rightarrow> False)"

definition runs_beside :: "family_settings \<Rightarrow> rat option \<Rightarrow> bool" where
  "runs_beside cfg overlap = (case overlap of None \<Rightarrow> False | Some d \<Rightarrow> family_guard_overlap_days cfg < d)"

definition rose :: "family_settings \<Rightarrow> member_fact \<Rightarrow> member_fact \<Rightarrow> bool" where
  "rose cfg earlier later \<longleftrightarrow>
     number_of (m_price earlier) * (1 + family_guard_price_rise_max cfg) < number_of (m_price later)"

definition prices_apart :: "family_settings \<Rightarrow> member_fact \<Rightarrow> member_fact \<Rightarrow> bool" where
  "prices_apart cfg a b \<longleftrightarrow>
     number_of (m_price a) \<noteq> 0 \<and> number_of (m_price b) \<noteq> 0
     \<and> family_guard_price_tol cfg < rel (number_of (m_price a)) (number_of (m_price b))
     \<and> (overlap_days a b = None \<or> runs_beside cfg (overlap_days a b)
        \<or> (if number_of (win_start a) \<le> number_of (win_start b) then rose cfg a b else rose cfg b a))"

definition incompatible :: "family_settings \<Rightarrow> member_fact \<Rightarrow> member_fact \<Rightarrow> string option" where
  "incompatible cfg a b =
     (if areas_apart cfg a b then Some ''printed_area''
      else if family_guard_disposition_clause cfg \<and> told (m_disposition a) \<and> told (m_disposition b)
           \<and> m_disposition a \<noteq> m_disposition b then Some ''disposition''
      else if family_guard_unit_designator_clause cfg \<and> disjoint_sets (unit_designators a) (unit_designators b)
           then Some ''unit_designator''
      else if family_guard_ref_code_clause cfg \<and> disjoint_sets (ref_codes a) (ref_codes b) then Some ''ref_code''
      else if family_guard_concurrency_clause cfg \<and> runs_beside cfg (overlap_days a b) then Some ''concurrent''
      else if family_guard_price_clause cfg \<and> prices_apart cfg a b then Some ''price''
      else None)"

section \<open>Families and cells\<close>

text \<open>\<open>_Union.find\<close>: the item is born as its own parent, then the walk from the item itself.\<close>

definition family_find :: "int \<Rightarrow> parents \<Rightarrow> (parents \<times> int) option" where
  "family_find x d = find_root (setdefault x d) x"

definition kb_edges :: "decision list \<Rightarrow> (int \<times> int) list" where
  "kb_edges ds = map (\<lambda>d. (d_lo d, d_hi d)) (filter (\<lambda>d. d_certificate d = Some ''K-B'') ds)"

definition kb_families :: "decision list \<Rightarrow> (int, int list) dict option" where
  "kb_families ds = Option.bind (foldM (union_by family_find) (kb_edges ds) [])
     (\<lambda>d. group_roots family_find (sort (map fst d)) d [])"

definition seen_key :: "member_fact \<Rightarrow> bool \<times> rat \<times> int" where
  "seen_key m = (win_start m = None, number_of (win_start m), m_id m)"

definition fits_cell :: "family_settings \<Rightarrow> member_fact \<Rightarrow> member_fact list \<Rightarrow> bool" where
  "fits_cell cfg m g \<longleftrightarrow> list_all (\<lambda>x. incompatible cfg m x = None) g"

definition first_fit_cells :: "family_settings \<Rightarrow> member_fact list \<Rightarrow> member_fact list list" where
  "first_fit_cells cfg ms = fold (first_fit (fits_cell cfg)) (sort_key seen_key ms) []"

definition cells :: "family_settings \<Rightarrow> member_fact list \<Rightarrow> int list list" where
  "cells cfg ms = sort_key hd (map (\<lambda>g. sort (map m_id g)) (first_fit_cells cfg ms))"

definition first_inconsistency :: "family_settings \<Rightarrow> member_fact list \<Rightarrow> (string \<times> int \<times> int) option" where
  "first_inconsistency cfg ms =
     (case filter (\<lambda>(a, b). incompatible cfg a b \<noteq> None) (pairs_of ms) of
        [] \<Rightarrow> None
      | (a, b) # _ \<Rightarrow> Some (the (incompatible cfg a b), m_id a, m_id b))"

section \<open>Refusals\<close>

record family_entry =
  fe_root :: int
  fe_size :: nat
  fe_pairs :: nat
  fe_cells :: "int list list"
  fe_inconsistency :: "(string \<times> int \<times> int) option"
  fe_refused :: "(int \<times> int \<times> string) list"

record family_report =
  fr_mode :: string
  fr_families :: nat
  fr_kb_pairs :: nat
  fr_refused :: nat
  fr_impure :: nat
  fr_by_clause :: "(string, nat) dict"
  fr_entries :: "family_entry list"

definition empty_report :: "string \<Rightarrow> family_report" where
  "empty_report mode = \<lparr>fr_mode = mode, fr_families = 0, fr_kb_pairs = 0, fr_refused = 0, fr_impure = 0,
     fr_by_clause = [], fr_entries = []\<rparr>"

definition family_facts :: "family_settings \<Rightarrow> (int \<Rightarrow> family_ad option) \<Rightarrow> int list \<Rightarrow> member_fact list" where
  "family_facts cfg ads ms = map (member_facts cfg) (List.map_filter ads ms)"

definition by_id :: "member_fact list \<Rightarrow> int \<Rightarrow> member_fact option" where
  "by_id facts = map_of (rev (map (\<lambda>m. (m_id m, m)) facts))"

definition cell_index :: "int list list \<Rightarrow> int \<Rightarrow> nat option" where
  "cell_index gs = map_of (rev (concat (map (\<lambda>(i, g). map (\<lambda>x. (x, i)) g) (List.enumerate 0 gs))))"

definition root_of :: "(int, int list) dict \<Rightarrow> int \<Rightarrow> int option" where
  "root_of fams = map_of (rev (concat (map (\<lambda>(r, ms). map (\<lambda>m. (m, r)) ms) fams)))"

definition pairs_in :: "(int, int list) dict \<Rightarrow> decision list \<Rightarrow> int \<Rightarrow> (int \<times> int) list" where
  "pairs_in fams ds r = sort (filter (\<lambda>(lo, hi). root_of fams lo = Some r) (kb_edges ds))"

text \<open>The clause that refuses a pair; \<open>None\<close> is the \<^verbatim>\<open>KeyError\<close> of \<^verbatim>\<open>by_id[lo]\<close>.\<close>

definition pair_clause :: "family_settings \<Rightarrow> member_fact list \<Rightarrow> int \<times> int \<Rightarrow> string option option" where
  "pair_clause cfg facts = (\<lambda>(lo, hi).
     if family_guard_mode cfg = ''family'' then Some (map_option fst (first_inconsistency cfg facts))
     else if family_guard_mode cfg = ''pair''
     then Some (case (by_id facts lo, by_id facts hi) of (Some l, Some r) \<Rightarrow> incompatible cfg l r | _ \<Rightarrow> None)
     else if cell_index (cells cfg facts) lo = cell_index (cells cfg facts) hi then Some None
     else (case (by_id facts lo, by_id facts hi) of
             (Some l, Some r) \<Rightarrow> Some (Some (case incompatible cfg l r of None \<Rightarrow> ''cross_cell'' | Some c \<Rightarrow> c))
           | _ \<Rightarrow> None))"

type_synonym refused_pairs = "((int \<times> int), string) dict"

definition refuse_pair :: "family_settings \<Rightarrow> member_fact list \<Rightarrow> int \<times> int
    \<Rightarrow> refused_pairs \<times> (string, nat) dict \<times> (int \<times> int \<times> string) list
    \<Rightarrow> (refused_pairs \<times> (string, nat) dict \<times> (int \<times> int \<times> string) list) option" where
  "refuse_pair cfg facts p = (\<lambda>(refused, counts, rows).
     map_option (\<lambda>c. case c of
         None \<Rightarrow> (refused, counts, rows)
       | Some cl \<Rightarrow> (AList.update p cl refused,
                     AList.update cl ((case map_of counts cl of None \<Rightarrow> 0 | Some k \<Rightarrow> k) + 1) counts,
                     rows @ [(fst p, snd p, cl)]))
       (pair_clause cfg facts p))"

definition judge_family :: "family_settings \<Rightarrow> (int \<Rightarrow> family_ad option) \<Rightarrow> (int, int list) dict \<Rightarrow> decision list
    \<Rightarrow> int \<times> int list \<Rightarrow> refused_pairs \<times> (string, nat) dict \<times> family_entry list
    \<Rightarrow> (refused_pairs \<times> (string, nat) dict \<times> family_entry list) option" where
  "judge_family cfg ads fams ds = (\<lambda>(r, ms) (refused, counts, entries).
     let facts = family_facts cfg ads ms; pairs = pairs_in fams ds r
     in map_option (\<lambda>(refused', counts', rows).
          (refused', counts', entries @ [\<lparr>fe_root = r, fe_size = length ms, fe_pairs = length pairs,
             fe_cells = cells cfg facts, fe_inconsistency = first_inconsistency cfg facts, fe_refused = rows\<rparr>]))
        (foldM (refuse_pair cfg facts) pairs (refused, counts, [])))"

definition refusals :: "family_settings \<Rightarrow> (int \<Rightarrow> family_ad option) \<Rightarrow> decision list
    \<Rightarrow> (refused_pairs \<times> family_report) option" where
  "refusals cfg ads ds =
     (if family_guard_mode cfg = ''off'' then Some ([], empty_report ''off'')
      else Option.bind (kb_families ds) (\<lambda>fams.
        if fams = [] then Some ([], empty_report (family_guard_mode cfg))
        else map_option (\<lambda>(refused, counts, entries).
          (refused, \<lparr>fr_mode = family_guard_mode cfg, fr_families = length fams, fr_kb_pairs = length (kb_edges ds),
             fr_refused = length refused, fr_impure = length (filter (\<lambda>e. fe_inconsistency e \<noteq> None) entries),
             fr_by_clause = sort_key fst counts,
             fr_entries = filter (\<lambda>e. fe_refused e \<noteq> [] \<or> fe_inconsistency e \<noteq> None) entries\<rparr>))
          (foldM (judge_family cfg ads fams ds) (sort_key fst fams) ([], [], []))))"

section \<open>A small family\<close>

text \<open>Three adverts posted in a row, the last at twice the price, chained by two certificates.\<close>

definition demo_guard :: "string \<Rightarrow> family_settings" where
  "demo_guard m = \<lparr>family_guard_mode = m, family_guard_area_tol = 1 / 100, family_guard_area_window = 1 / 4,
     family_guard_price_tol = 1 / 100, family_guard_price_rise_max = 1 / 10, family_guard_overlap_days = 0,
     family_guard_concurrency_clause = True, family_guard_price_clause = True, family_guard_ref_code_clause = False,
     family_guard_unit_designator_clause = True, family_guard_disposition_clause = True\<rparr>"

definition demo_ad :: "int \<Rightarrow> rat \<Rightarrow> rat \<Rightarrow> rat \<Rightarrow> family_ad" where
  "demo_ad i price s e = \<lparr>fa_id = i, fa_area = Some 50, fa_printed = [49, 50], fa_price = Some price, fa_start = Some s,
     fa_end = Some e, fa_refs = [], fa_units = [], fa_disposition = Some ''2+kk''\<rparr>"

definition demo_ads :: "int \<Rightarrow> family_ad option" where
  "demo_ads = map_of [(1, demo_ad 1 100 0 1), (2, demo_ad 2 100 2 3), (3, demo_ad 3 200 4 5)]"

definition demo_kb :: "int \<Rightarrow> int \<Rightarrow> decision" where
  "demo_kb lo hi = \<lparr>d_lo = lo, d_hi = hi, d_score = 1, d_certificate = Some ''K-B'', d_zone = ''merge'', d_families = []\<rparr>"

definition demo_chain :: "decision list" where
  "demo_chain = [demo_kb 2 3, demo_kb 1 2]"

end
