(* ===== verification/Family_Laws.thy ===== *)
theory Family_Laws
  imports Family Cluster_Laws Categories
begin

text \<open>
  What the family guard promises: its families are components of the certificates, its cells are a
  first-fit partition into compatible adverts, and its modes refuse more and more.
\<close>

section \<open>Families\<close>

interpretation family: root_finder family_find "\<lambda>_ _. True"
proof
  fix d :: parents and x :: int
  assume f: "forest d"
  let ?d = "setdefault x d"
  have "forest ?d" "x \<in> items ?d" using setdefault_forest [OF f] by simp_all
  then obtain d' r where "find_root ?d x = Some (d', r)" "forest d'"
      "items d' = items ?d" "rooted d' = rooted ?d" "rooted ?d x r"
    using find_root_correct by blast
  then show "\<exists>d' r. family_find x d = Some (d', r) \<and> forest d' \<and> items d' = insert x (items d)
      \<and> rooted d' = rooted d \<and> rooted d' x r"
    by (simp add: family_find_def)
qed auto

lemma family_find_distinct:
  "family_find x d = Some (d', r) \<Longrightarrow> distinct (map fst d) \<Longrightarrow> distinct (map fst d')"
  unfolding family_find_def by (blast intro: find_root_distinct setdefault_distinct)

lemma kb_families_forest:
  "\<exists>d. kb_families ds = Some (group_by (the_root d) (sort (map fst d))) \<and> forest d \<and> distinct (map fst d)
     \<and> items d = link_ends (kb_edges ds) \<and> conn d = eqc (link_ends (kb_edges ds)) (set (kb_edges ds))"
proof -
  let ?es = "kb_edges ds"
  obtain d where d: "foldM (union_by family_find) ?es [] = Some d" "forest d"
      "items d = fst ` set ?es \<union> snd ` set ?es" "conn d = eqc (items d) (set ?es)"
    using family.linked_from_empty [of ?es] by auto
  have "distinct (map fst d)"
    by (rule link_all_distinct [where fnd = family_find, OF _ d(1)]) (auto intro: family_find_distinct)
  moreover have "group_roots family_find (sort (map fst d)) d [] = Some (group_by (the_root d) (sort (map fst d)))"
    using family.group_roots_classes [OF d(2), of "sort (map fst d)"] by (simp add: items_def)
  ultimately show ?thesis using d by (auto simp: kb_families_def link_ends_def)
qed

text \<open>What every list of families is.\<close>

definition families_ok :: "(int, int list) dict \<Rightarrow> bool" where
  "families_ok fs \<longleftrightarrow> distinct (map fst fs) \<and> distinct (concat (map snd fs))
     \<and> list_all (\<lambda>(k, ms). ms \<noteq> [] \<and> sorted ms \<and> hd ms = k) fs"

lemma families_of_forest:
  assumes f: "forest d" and dist: "distinct (map fst d)"
  shows "families_ok (group_by (the_root d) (sort (map fst d)))"
    and "(\<exists>(k, ms) \<in> set (group_by (the_root d) (sort (map fst d))). x \<in> set ms \<and> y \<in> set ms) \<longleftrightarrow> (x, y) \<in> conn d"
proof -
  let ?g = "group_by (the_root d) (sort (map fst d))"
  have entry: "ms = filter (\<lambda>x. the_root d x = k) (sort (map fst d))" "ms \<noteq> []" if "(k, ms) \<in> set ?g" for k ms
    using group_by_entry [OF that] by auto
  have ok: "ms \<noteq> [] \<and> sorted ms \<and> hd ms = k" if m: "(k, ms) \<in> set ?g" for k ms
  proof -
    have "sorted ms" using entry(1) [OF m] by (simp add: sorted_wrt_filter)
    moreover have "k \<in> set ms \<and> (\<forall>x \<in> set ms. k \<le> x)"
      using class_root [OF f _ m] by (simp add: items_def)
    ultimately show ?thesis using entry(2) [OF m] hd_sort_least [of k ms] by (simp add: sorted_sort_id)
  qed
  then have ids: "map (sort \<circ> snd) ?g = map snd ?g" by (auto simp: sorted_sort_id)
  have "distinct (concat (map (sort \<circ> snd) ?g))"
    by (rule distinct_group_concat [of "sort (map fst d)" _ "the_root d"]) (use dist distinct_group_by entry(1) in auto)
  then have "distinct (concat (map snd ?g))" by (simp only: ids)
  then show "families_ok ?g" using ok distinct_group_by by (fastforce simp: families_ok_def list_all_iff)
  show "(\<exists>(k, ms) \<in> set ?g. x \<in> set ms \<and> y \<in> set ms) \<longleftrightarrow> (x, y) \<in> conn d"
  proof
    assume "\<exists>(k, ms) \<in> set ?g. x \<in> set ms \<and> y \<in> set ms"
    then obtain k ms where m: "(k, ms) \<in> set ?g" "x \<in> set ms" "y \<in> set ms" by blast
    then have "x \<in> set (filter (\<lambda>x. the_root d x = k) (sort (map fst d)))" "y \<in> set (filter (\<lambda>x. the_root d x = k) (sort (map fst d)))"
      using entry(1) [OF m(1)] by simp_all
    then have "x \<in> items d" "y \<in> items d" "the_root d x = the_root d y"
      by (auto simp: items_def)
    then show "(x, y) \<in> conn d" using the_root_conn [OF f] by blast
  next
    assume xy: "(x, y) \<in> conn d"
    then have i: "x \<in> items d" "y \<in> items d" by (auto simp: conn_def)
    then have "the_root d x = the_root d y" using the_root_conn [OF f] xy by blast
    moreover have "(the_root d x, filter (\<lambda>z. the_root d z = the_root d x) (sort (map fst d))) \<in> set ?g"
      using i by (intro group_by_covers) (simp add: items_def)
    ultimately show "\<exists>(k, ms) \<in> set ?g. x \<in> set ms \<and> y \<in> set ms"
      using i by (intro bexI) (auto simp: items_def)
  qed
qed

text \<open>
  The families of the K-B certificates are the connected components of the certified pairs: pairwise
  disjoint, each named by its smallest advert and listed in ascending order. They always exist.
\<close>

theorem kb_families_correct:
  "\<exists>fs. kb_families ds = Some fs \<and> families_ok fs \<and>
     (\<forall>x y. (\<exists>(k, ms) \<in> set fs. x \<in> set ms \<and> y \<in> set ms)
        \<longleftrightarrow> (x, y) \<in> eqc (link_ends (kb_edges ds)) (set (kb_edges ds)))"
proof -
  obtain d where d: "kb_families ds = Some (group_by (the_root d) (sort (map fst d)))" "forest d" "distinct (map fst d)"
      "conn d = eqc (link_ends (kb_edges ds)) (set (kb_edges ds))"
    using kb_families_forest by blast
  then show ?thesis using families_of_forest [OF d(2,3)] by auto
qed

section \<open>Cells\<close>

text \<open>The adverts by first sighting, and the groups the first fit makes of them.\<close>

lemma seen_distinct: "distinct (map m_id ms) \<Longrightarrow> distinct (map seen_key ms)"
  by (auto simp: distinct_map inj_on_def seen_key_def)

lemma fits_chain: "fits_cell cfg x g = list_all (\<lambda>y. incompatible cfg x y = None) g"
  by (simp add: fits_cell_def)

lemma fit_cells_mset: "mset (concat (first_fit_cells cfg ms)) = mset ms"
  by (simp add: first_fit_cells_def first_fit_fold_mset)

lemma fit_cells_chain:
  assumes "distinct (map m_id ms)" "g \<in> set (first_fit_cells cfg ms)" "x \<in> set g" "y \<in> set g" "seen_key x < seen_key y"
  shows "incompatible cfg y x = None"
proof -
  let ?R = "\<lambda>x y. incompatible cfg y x = None"
  have "\<forall>g \<in> set (first_fit_cells cfg ms). sorted_wrt (\<lambda>x y. seen_key x < seen_key y \<and> ?R x y) g"
    unfolding first_fit_cells_def
    by (rule first_fit_chain) (use sorted_wrt_sort_key [OF seen_distinct [OF assms(1)]] in \<open>auto simp: fits_cell_def list_all_iff\<close>)
  then show ?thesis using sorted_wrt_pick [where R = ?R and f = seen_key] assms(2-5) by blast
qed

lemma fit_cells_single:
  assumes "distinct (map m_id ms)"
    and "\<And>x y. x \<in> set ms \<Longrightarrow> y \<in> set ms \<Longrightarrow> seen_key x < seen_key y \<Longrightarrow> incompatible cfg y x = None"
  shows "length (first_fit_cells cfg ms) \<le> 1"
proof -
  let ?xs = "sort_key seen_key ms"
  have "sorted_wrt (\<lambda>x y. seen_key x < seen_key y) ?xs"
    by (rule sorted_wrt_sort_key [OF seen_distinct [OF assms(1)]])
  then have s: "sorted_wrt (\<lambda>x y. incompatible cfg y x = None) ?xs"
    by (rule sorted_wrt_mono_rel [rotated]) (use assms(2) in auto)
  show ?thesis
  proof (cases ?xs)
    case (Cons x xs)
    have "fold (first_fit (fits_cell cfg)) xs [[x]] = [[x] @ xs]"
      by (rule first_fit_single [where R = "\<lambda>x y. incompatible cfg y x = None"]) (use s Cons in \<open>auto simp: fits_cell_def\<close>)
    then show ?thesis by (simp add: first_fit_cells_def Cons)
  qed (simp add: first_fit_cells_def)
qed

lemma cells_length: "length (cells cfg ms) = length (first_fit_cells cfg ms)"
  by (simp add: cells_def)

lemma cells_of_fit: "c \<in> set (cells cfg ms) \<longleftrightarrow> (\<exists>g \<in> set (first_fit_cells cfg ms). c = sort (map m_id g))"
  by (auto simp: cells_def)

lemma cells_mset: "mset (concat (cells cfg ms)) = mset (map m_id ms)"
proof -
  have "mset (cells cfg ms) = mset (map (\<lambda>g. sort (map m_id g)) (first_fit_cells cfg ms))" by (simp add: cells_def)
  then have "mset (concat (cells cfg ms)) = mset (concat (map (\<lambda>g. sort (map m_id g)) (first_fit_cells cfg ms)))"
    by (rule mset_concat_perm)
  then show ?thesis by (simp add: mset_concat_map_sort fit_cells_mset)
qed

lemma fit_member: "g \<in> set (first_fit_cells cfg ms) \<Longrightarrow> x \<in> set g \<Longrightarrow> x \<in> set ms"
  using mset_eq_setD [OF fit_cells_mset [of cfg ms]] by auto

lemma cell_group:
  assumes "distinct (map m_id ms)" "c \<in> set (cells cfg ms)" "x \<in> set ms" "m_id x \<in> set c"
  shows "\<exists>g \<in> set (first_fit_cells cfg ms). c = sort (map m_id g) \<and> x \<in> set g"
proof -
  obtain g where g: "g \<in> set (first_fit_cells cfg ms)" "c = sort (map m_id g)" using assms(2) cells_of_fit by blast
  then obtain z where "z \<in> set g" "m_id z = m_id x" using assms(4) by auto
  moreover from this have "z = x" using fit_member [OF g(1)] assms(1,3) by (auto simp: distinct_map inj_on_def)
  ultimately show ?thesis using g by blast
qed

lemma cell_compatible:
  assumes "distinct (map m_id ms)"
    and m: "c \<in> set (cells cfg ms)" "x \<in> set ms" "y \<in> set ms" "m_id x \<in> set c" "m_id y \<in> set c" "seen_key x < seen_key y"
  shows "incompatible cfg y x = None"
proof -
  obtain g where g: "g \<in> set (first_fit_cells cfg ms)" "c = sort (map m_id g)" "x \<in> set g"
    using cell_group [OF assms(1) m(1,2,4)] by blast
  obtain z where "z \<in> set g" "m_id z = m_id y" using m(5) g(2) by auto
  moreover from this have "z = y" using fit_member [OF g(1)] assms(1) m(3) by (auto simp: distinct_map inj_on_def)
  ultimately show ?thesis using fit_cells_chain [OF assms(1) g(1,3)] m(6) by blast
qed

lemma cells_single:
  "distinct (map m_id ms) \<Longrightarrow> (\<And>x y. x \<in> set ms \<Longrightarrow> y \<in> set ms \<Longrightarrow> seen_key x < seen_key y \<Longrightarrow> incompatible cfg y x = None)
    \<Longrightarrow> length (cells cfg ms) \<le> 1"
  unfolding cells_length by (rule fit_cells_single)

text \<open>
  C35. The cells of a family partition its adverts, each cell and the list of cells in ascending order. Of
  two adverts in one cell the later seen is compatible with the earlier, and the family is one cell
  exactly when that holds of all its adverts.
\<close>

theorem cells_correct:
  assumes "distinct (map m_id ms)"
  shows "mset (concat (cells cfg ms)) = mset (map m_id ms) \<and> list_all (\<lambda>c. c \<noteq> [] \<and> sorted c) (cells cfg ms)
    \<and> sorted (map hd (cells cfg ms))
    \<and> (\<forall>c \<in> set (cells cfg ms). \<forall>x \<in> set ms. \<forall>y \<in> set ms. m_id x \<in> set c \<longrightarrow> m_id y \<in> set c \<longrightarrow>
         seen_key x < seen_key y \<longrightarrow> incompatible cfg y x = None)
    \<and> (length (cells cfg ms) \<le> 1 \<longleftrightarrow>
         (\<forall>x \<in> set ms. \<forall>y \<in> set ms. seen_key x < seen_key y \<longrightarrow> incompatible cfg y x = None))"
proof -
  note same = cell_compatible [OF assms]
  have one: "incompatible cfg y x = None"
    if l: "length (cells cfg ms) \<le> 1" and m: "x \<in> set ms" "y \<in> set ms" "seen_key x < seen_key y" for x y
  proof -
    have "m_id x \<in> set (concat (cells cfg ms))" "m_id y \<in> set (concat (cells cfg ms))"
      using m(1,2) cells_mset [of cfg ms] by (auto simp flip: set_mset_mset)
    moreover obtain cs where "cells cfg ms = cs" "cs = [] \<or> (\<exists>c. cs = [c])" using l by (cases "cells cfg ms") auto
    ultimately obtain c where "c \<in> set (cells cfg ms)" "m_id x \<in> set c" "m_id y \<in> set c" by auto
    then show ?thesis using same m by blast
  qed
  have "\<forall>g \<in> set (first_fit_cells cfg ms). g \<noteq> []" unfolding first_fit_cells_def by (rule first_fit_nonempty) simp
  then have "list_all (\<lambda>c. c \<noteq> [] \<and> sorted c) (cells cfg ms)" 
    by (auto simp: list_all_iff cells_of_fit dest!: sym [of "[]"])
  moreover have "sorted (map hd (cells cfg ms))" by (simp add: cells_def)
  moreover have "length (cells cfg ms) \<le> 1"
    if "\<forall>x \<in> set ms. \<forall>y \<in> set ms. seen_key x < seen_key y \<longrightarrow> incompatible cfg y x = None"
    by (rule cells_single [OF assms]) (use that in blast)
  ultimately show ?thesis using cells_mset same one by blast
qed

theorem cells_correct_witness:
  "mset (concat (cells (demo_guard ''cell'') (family_facts (demo_guard ''cell'') demo_ads [1, 2, 3]))) = {#1, 2, 3#}
   \<and> 1 < length (cells (demo_guard ''cell'') (family_facts (demo_guard ''cell'') demo_ads [1, 2, 3]))"
proof -
  let ?g = "demo_guard ''cell''"
  let ?f = "family_facts ?g demo_ads [1, 2, 3]"
  have ids: "map m_id ?f = [1, 2, 3]" by code_simp
  have "\<not> (\<forall>x \<in> set ?f. \<forall>y \<in> set ?f. seen_key x < seen_key y \<longrightarrow> incompatible ?g y x = None)" by code_simp
  with cells_correct [of ?f ?g] ids show ?thesis by (simp add: not_le)
qed

text \<open>
  Two adverts first and last seen at the same moments, at different prices: refused in one order and let
  through in the other, so a cell may hold a pair that the \<open>pair\<close> mode refuses.
\<close>

definition tie_ads :: "int \<Rightarrow> family_ad option" where
  "tie_ads = map_of [(1, demo_ad 1 100 0 0), (2, demo_ad 2 200 0 0)]"

lemma incompatible_asymmetric:
  "incompatible (demo_guard ''pair'') (member_facts (demo_guard ''pair'') (demo_ad 1 100 0 0)) (member_facts (demo_guard ''pair'') (demo_ad 2 200 0 0)) = Some ''price''"
  "incompatible (demo_guard ''pair'') (member_facts (demo_guard ''pair'') (demo_ad 2 200 0 0)) (member_facts (demo_guard ''pair'') (demo_ad 1 100 0 0)) = None"
  "map_option fst (refusals (demo_guard ''pair'') tie_ads [demo_kb 1 2]) = Some [((1, 2), ''price'')]"
  "map_option fst (refusals (demo_guard ''cell'') tie_ads [demo_kb 1 2]) = Some []"
  by code_simp+

end
