(* ===== verification/Family_Refusals.thy ===== *)
theory Family_Refusals
  imports Family_Laws
begin

text \<open>
  What \<open>refusals\<close> withdraws: the folds over families and pairs reduce to one question per pair, so each
  mode has a closed form; from there the error of a missing advert and the order of the modes.
\<close>

section \<open>The folds\<close>

lemma refuse_pair_fails: "refuse_pair cfg facts p s = None \<longleftrightarrow> pair_clause cfg facts p = None"
  by (cases s) (simp add: refuse_pair_def)

lemma refuse_pairs_result:
  "foldM (refuse_pair cfg facts) ps (rf, ct, rows) = Some (rf', ct', rows') \<Longrightarrow>
     map_of rf' p = (if p \<in> set ps \<and> (\<exists>c. pair_clause cfg facts p = Some (Some c))
                     then the (pair_clause cfg facts p) else map_of rf p)"
proof (induction ps arbitrary: rf ct rows)
  case (Cons q ps)
  obtain c where c: "pair_clause cfg facts q = Some c"
    using Cons.prems refuse_pair_fails [of cfg facts q "(rf, ct, rows)"] by (cases "pair_clause cfg facts q") auto
  let ?rf1 = "case c of None \<Rightarrow> rf | Some cl \<Rightarrow> AList.update q cl rf"
  obtain ct1 rows1 where "refuse_pair cfg facts q (rf, ct, rows) = Some (?rf1, ct1, rows1)"
    using c by (cases c) (auto simp: refuse_pair_def)
  then have "map_of rf' p = (if p \<in> set ps \<and> (\<exists>c. pair_clause cfg facts p = Some (Some c))
      then the (pair_clause cfg facts p) else map_of ?rf1 p)"
    using Cons.IH Cons.prems by simp
  then show ?case using c by (cases c) (auto simp: update_conv')
qed simp

text \<open>The clause a pair is refused by, in its own family.\<close>

definition clause_in :: "family_settings \<Rightarrow> (int \<Rightarrow> family_ad option) \<Rightarrow> (int, int list) dict \<Rightarrow> int \<times> int \<Rightarrow> string option option" where
  "clause_in cfg ads fams p =
     (case root_of fams (fst p) of None \<Rightarrow> Some None
      | Some r \<Rightarrow> pair_clause cfg (family_facts cfg ads (the (map_of fams r))) p)"

lemma pairs_in_clause:
  "distinct (map fst fams) \<Longrightarrow> (r, ms) \<in> set fams \<Longrightarrow> p \<in> set (pairs_in fams ds r) \<Longrightarrow>
     pair_clause cfg (family_facts cfg ads ms) p = clause_in cfg ads fams p"
  by (auto simp: pairs_in_def clause_in_def)

lemma judge_family_result:
  assumes "distinct (map fst fams)" "(r, ms) \<in> set fams"
    and "judge_family cfg ads fams ds (r, ms) (rf, ct, es) = Some (rf', ct', es')"
  shows "map_of rf' p = (if p \<in> set (pairs_in fams ds r) \<and> (\<exists>c. clause_in cfg ads fams p = Some (Some c))
                         then the (clause_in cfg ads fams p) else map_of rf p)"
proof -
  obtain rows where "foldM (refuse_pair cfg (family_facts cfg ads ms)) (pairs_in fams ds r) (rf, ct, []) = Some (rf', ct', rows)"
    using assms(3) by (auto simp: judge_family_def Let_def)
  from refuse_pairs_result [OF this, of p] show ?thesis
    using pairs_in_clause [OF assms(1,2), where ds = ds and cfg = cfg and ads = ads and p = p]
    by (cases "p \<in> set (pairs_in fams ds r)") simp_all
qed

lemma judge_family_fails:
  assumes "distinct (map fst fams)" "(r, ms) \<in> set fams"
  shows "judge_family cfg ads fams ds (r, ms) s = None \<longleftrightarrow> (\<exists>p \<in> set (pairs_in fams ds r). clause_in cfg ads fams p = None)"
proof -
  obtain rf ct es where s: "s = (rf, ct, es)" by (cases s)
  have "judge_family cfg ads fams ds (r, ms) s = None \<longleftrightarrow>
      foldM (refuse_pair cfg (family_facts cfg ads ms)) (pairs_in fams ds r) (rf, ct, []) = None"
    by (simp add: s judge_family_def Let_def)
  also have "\<dots> \<longleftrightarrow> (\<exists>p \<in> set (pairs_in fams ds r). pair_clause cfg (family_facts cfg ads ms) p = None)"
    by (rule foldM_None_iff) (rule refuse_pair_fails)
  also have "\<dots> \<longleftrightarrow> (\<exists>p \<in> set (pairs_in fams ds r). clause_in cfg ads fams p = None)"
    using pairs_in_clause [OF assms] by (intro bex_cong) auto
  finally show ?thesis .
qed

lemma judge_families_fail:
  assumes "distinct (map fst fams)" "set fl \<subseteq> set fams"
  shows "foldM (judge_family cfg ads fams ds) fl s = None \<longleftrightarrow>
     (\<exists>x \<in> set fl. \<exists>p \<in> set (pairs_in fams ds (fst x)). clause_in cfg ads fams p = None)"
proof (rule foldM_None_iff)
  fix x s assume "x \<in> set fl"
  then have "(fst x, snd x) \<in> set fams" using assms(2) by auto
  from judge_family_fails [OF assms(1) this, of cfg ads ds s]
  show "judge_family cfg ads fams ds x s = None \<longleftrightarrow> (\<exists>p \<in> set (pairs_in fams ds (fst x)). clause_in cfg ads fams p = None)"
    by simp
qed

lemma judge_families_result:
  assumes d: "distinct (map fst fams)"
  shows "set fl \<subseteq> set fams \<Longrightarrow> foldM (judge_family cfg ads fams ds) fl (rf, ct, es) = Some (rf', ct', es') \<Longrightarrow>
     map_of rf' p = (if (\<exists>x \<in> set fl. p \<in> set (pairs_in fams ds (fst x))) \<and> (\<exists>c. clause_in cfg ads fams p = Some (Some c))
                     then the (clause_in cfg ads fams p) else map_of rf p)"
proof (induction fl arbitrary: rf ct es)
  case (Cons x fl)
  have m: "(fst x, snd x) \<in> set fams" using Cons.prems by simp
  obtain rf1 ct1 es1 where st: "judge_family cfg ads fams ds x (rf, ct, es) = Some (rf1, ct1, es1)"
      "foldM (judge_family cfg ads fams ds) fl (rf1, ct1, es1) = Some (rf', ct', es')"
    using Cons.prems(2) by (cases "judge_family cfg ads fams ds x (rf, ct, es)") auto
  have "map_of rf1 p = (if p \<in> set (pairs_in fams ds (fst x)) \<and> (\<exists>c. clause_in cfg ads fams p = Some (Some c))
      then the (clause_in cfg ads fams p) else map_of rf p)"
    using judge_family_result [OF d m] st(1) by simp
  then show ?case using Cons.IH [OF _ st(2)] Cons.prems(1) by auto
qed simp

section \<open>What is refused\<close>

lemma root_of_family:
  assumes "families_ok fs"
  shows "root_of fs x = Some r \<longleftrightarrow> (\<exists>ms. (r, ms) \<in> set fs \<and> x \<in> set ms)"
proof -
  let ?l = "concat (map (\<lambda>(r, ms). map (\<lambda>m. (m, r)) ms) fs)"
  have "map fst ?l = concat (map snd fs)" by (induction fs) (auto simp: comp_def)
  then have "distinct (map fst (rev ?l))" using assms by (simp add: families_ok_def rev_map [symmetric])
  then have "map_of (rev ?l) x = Some r \<longleftrightarrow> (x, r) \<in> set (rev ?l)" by (rule map_of_eq_Some_iff)
  then show ?thesis by (auto simp: root_of_def)
qed

lemma edge_ends: "(lo, hi) \<in> set (kb_edges ds) \<Longrightarrow> lo \<in> link_ends (kb_edges ds) \<and> hi \<in> link_ends (kb_edges ds)"
  by (force simp: link_ends_def)

text \<open>Both ends of a certified pair are in the one family the pair is judged in.\<close>

lemma edge_family:
  assumes "kb_families ds = Some fs" "(lo, hi) \<in> set (kb_edges ds)"
  obtains r ms where "(r, ms) \<in> set fs" "lo \<in> set ms" "hi \<in> set ms" "root_of fs lo = Some r" "map_of fs r = Some ms"
    "families_ok fs"
proof -
  obtain d where d: "kb_families ds = Some (group_by (the_root d) (sort (map fst d)))" "forest d" "distinct (map fst d)"
      "conn d = eqc (link_ends (kb_edges ds)) (set (kb_edges ds))"
    using kb_families_forest by blast
  note ok = families_of_forest [OF d(2,3)]
  have fs: "families_ok fs" "fs = group_by (the_root d) (sort (map fst d))" using ok(1) d(1) assms(1) by simp_all
  have "(lo, hi) \<in> conn d"
    unfolding d(4) using assms(2) edge_ends [OF assms(2)] by (intro eqc_edge) auto
  then obtain r ms where m: "(r, ms) \<in> set fs" "lo \<in> set ms" "hi \<in> set ms"
    using ok(2) [of lo hi] fs(2) by blast
  moreover have "map_of fs r = Some ms" using m(1) fs(1) by (auto simp: families_ok_def)
  ultimately show thesis using that root_of_family [OF fs(1)] fs(1) by blast
qed

lemma refusals_char:
  assumes fs: "kb_families ds = Some fs" and m: "family_guard_mode cfg \<noteq> ''off''"
  shows "refusals cfg ads ds = None \<longleftrightarrow> (\<exists>p \<in> set (kb_edges ds). clause_in cfg ads fs p = None)"
    and "refusals cfg ads ds = Some (rf, rep) \<Longrightarrow>
      map_of rf p = (if p \<in> set (kb_edges ds) \<and> (\<exists>c. clause_in cfg ads fs p = Some (Some c)) then the (clause_in cfg ads fs p) else None)"
proof -
  have ok: "families_ok fs" using kb_families_forest [of ds] families_of_forest(1) fs by fastforce
  then have d: "distinct (map fst fs)" by (simp add: families_ok_def)
  have cover: "(\<exists>x \<in> set (sort_key fst fs). p \<in> set (pairs_in fs ds (fst x))) \<longleftrightarrow> p \<in> set (kb_edges ds)" for p
  proof
    assume p: "p \<in> set (kb_edges ds)"
    obtain lo hi where lh: "p = (lo, hi)" by (cases p)
    obtain r ms where "(r, ms) \<in> set fs" "root_of fs lo = Some r" using edge_family [OF fs] p lh by metis
    then show "\<exists>x \<in> set (sort_key fst fs). p \<in> set (pairs_in fs ds (fst x))"
      using p lh by (intro bexI [of _ "(r, ms)"]) (auto simp: pairs_in_def)
  qed (auto simp: pairs_in_def)
  have none: "p \<notin> set (kb_edges ds)" if "fs = []" for p using cover [of p] that by simp
  let ?J = "foldM (judge_family cfg ads fs ds) (sort_key fst fs) ([], [], [])"
  have eq: "refusals cfg ads ds = (if fs = [] then Some ([], empty_report (family_guard_mode cfg))
      else map_option (\<lambda>(refused, counts, entries).
          (refused, \<lparr>fr_mode = family_guard_mode cfg, fr_families = length fs, fr_kb_pairs = length (kb_edges ds),
             fr_refused = length refused, fr_impure = length (filter (\<lambda>e. fe_inconsistency e \<noteq> None) entries),
             fr_by_clause = sort_key fst counts,
             fr_entries = filter (\<lambda>e. fe_refused e \<noteq> [] \<or> fe_inconsistency e \<noteq> None) entries\<rparr>)) ?J)"
    using m fs by (simp add: refusals_def)
  have "?J = None \<longleftrightarrow> (\<exists>p. (\<exists>x \<in> set (sort_key fst fs). p \<in> set (pairs_in fs ds (fst x))) \<and> clause_in cfg ads fs p = None)"
    unfolding judge_families_fail [OF d, of "sort_key fst fs", simplified] by auto
  then show "refusals cfg ads ds = None \<longleftrightarrow> (\<exists>p \<in> set (kb_edges ds). clause_in cfg ads fs p = None)"
    unfolding cover using none by (auto simp: eq)
  show "map_of rf p = (if p \<in> set (kb_edges ds) \<and> (\<exists>c. clause_in cfg ads fs p = Some (Some c)) then the (clause_in cfg ads fs p) else None)"
    if r: "refusals cfg ads ds = Some (rf, rep)"
  proof (cases "fs = []")
    case True
    then show ?thesis using r none [OF True] by (simp add: eq)
  next
    case False
    then obtain ct es where J: "?J = Some (rf, ct, es)" using r by (auto simp: eq)
    have "set (sort_key fst fs) \<subseteq> set fs" by simp
    from judge_families_result [OF d this J, of p, unfolded cover map_of.simps] show ?thesis .
  qed
qed

lemma family_ends:
  assumes "kb_families ds = Some fs" "(r, ms) \<in> set fs" "x \<in> set ms"
  shows "x \<in> link_ends (kb_edges ds)"
proof -
  obtain d where d: "kb_families ds = Some (group_by (the_root d) (sort (map fst d)))" "forest d" "distinct (map fst d)"
      "items d = link_ends (kb_edges ds)"
    using kb_families_forest by blast
  then have "ms = filter (\<lambda>x. the_root d x = r) (sort (map fst d))" using assms(1,2) group_by_entry by fastforce
  then show ?thesis using assms(3) d(4) by (auto simp: items_def)
qed

section \<open>The facts of a family\<close>

text \<open>The listings are held under their own ids.\<close>

definition ads_keyed :: "(int \<Rightarrow> family_ad option) \<Rightarrow> bool" where
  "ads_keyed ads \<longleftrightarrow> (\<forall>k a. ads k = Some a \<longrightarrow> fa_id a = k)"

lemma facts_ids: "ads_keyed ads \<Longrightarrow> map m_id (family_facts cfg ads ms) = filter (\<lambda>x. ads x \<noteq> None) ms"
  by (induction ms)
    (auto simp: family_facts_def map_filter_Cons member_facts_def ads_keyed_def List.map_filter_simps split: option.splits)

lemma facts_mem: "m \<in> set (family_facts cfg ads ms) \<longleftrightarrow> (\<exists>x \<in> set ms. \<exists>a. ads x = Some a \<and> m = member_facts cfg a)"
  by (auto simp: family_facts_def set_map_filter)

lemma m_id_facts [simp]: "m_id (member_facts cfg a) = fa_id a"
  by (simp add: member_facts_def)

lemma by_id_facts:
  assumes k: "ads_keyed ads" and d: "distinct ms"
  shows "by_id (family_facts cfg ads ms) x = (if x \<in> set ms then map_option (member_facts cfg) (ads x) else None)"
proof -
  let ?f = "family_facts cfg ads ms"
  have "distinct (map fst (rev (map (\<lambda>m. (m_id m, m)) ?f)))"
    using facts_ids [OF k, of cfg ms] d by (simp add: rev_map [symmetric] comp_def)
  then have iff: "by_id ?f x = Some m \<longleftrightarrow> m \<in> set ?f \<and> m_id m = x" for m
    unfolding by_id_def by (subst map_of_eq_Some_iff) auto
  show ?thesis
  proof (cases "x \<in> set ms \<and> ads x \<noteq> None")
    case True
    then obtain a where a: "x \<in> set ms" "ads x = Some a" by auto
    then have "by_id ?f x = Some (member_facts cfg a)" using k unfolding iff facts_mem by (auto simp: ads_keyed_def)
    then show ?thesis using a by simp
  next
    case False
    have "by_id ?f x = None"
    proof (rule ccontr)
      assume "by_id ?f x \<noteq> None"
      then obtain m where "m \<in> set ?f" "m_id m = x" using iff by blast
      then show False using False k by (auto simp: facts_mem ads_keyed_def)
    qed
    then show ?thesis using False by auto
  qed
qed

lemma cell_index_iff:
  assumes "distinct (concat gs)"
  shows "cell_index gs x = Some i \<longleftrightarrow> i < length gs \<and> x \<in> set (gs ! i)"
proof -
  let ?l = "\<lambda>n gs. concat (map (\<lambda>(i, g). map (\<lambda>x. (x, i)) g) (List.enumerate n gs))"
  have fsts: "map fst (?l n gs) = concat gs" for n by (induction gs arbitrary: n) (auto simp: comp_def)
  have "distinct (map fst (rev (?l 0 gs)))" using assms fsts [of 0] by (simp add: rev_map [symmetric])
  then have "map_of (rev (?l 0 gs)) x = Some i \<longleftrightarrow> (x, i) \<in> set (rev (?l 0 gs))" by (rule map_of_eq_Some_iff)
  also have "\<dots> \<longleftrightarrow> i < length gs \<and> x \<in> set (gs ! i)" 
    by (auto simp: in_set_enumerate_eq) (rule bexI [of _ "(i, gs ! i)"]; auto simp: in_set_enumerate_eq)
  finally show ?thesis by (simp add: cell_index_def)
qed

text \<open>The cells of a family's facts: who is in one at all, and who shares one.\<close>

lemma cells_distinct: "distinct (map m_id ms) \<Longrightarrow> distinct (concat (cells cfg ms))"
  using cells_mset [of cfg ms] by (metis mset_eq_imp_distinct_iff)

lemma cell_index_known:
  assumes "distinct (map m_id ms)"
  shows "cell_index (cells cfg ms) x \<noteq> None \<longleftrightarrow> x \<in> m_id ` set ms"
proof -
  have "x \<in> set (concat (cells cfg ms)) \<longleftrightarrow> x \<in> m_id ` set ms"
    using mset_eq_setD [OF cells_mset [of cfg ms]] by simp
  moreover have "x \<in> set (concat gs) \<longleftrightarrow> (\<exists>i. i < length gs \<and> x \<in> set (gs ! i))" for gs :: "int list list"
    by (auto simp: in_set_conv_nth [of _ gs] intro: nth_mem)
  ultimately show ?thesis
    using cell_index_iff [OF cells_distinct [OF assms], of cfg x] by (auto simp del: set_concat)
qed

text \<open>The error of the cell mode: one end of a certified pair is missing.\<close>

lemma pair_clause_error:
  assumes "ads_keyed ads" "distinct ms" "lo \<in> set ms" "hi \<in> set ms"
  shows "pair_clause cfg (family_facts cfg ads ms) (lo, hi) = None \<longleftrightarrow>
     family_guard_mode cfg \<noteq> ''family'' \<and> family_guard_mode cfg \<noteq> ''pair'' \<and> (ads lo = None) \<noteq> (ads hi = None)"
proof -
  let ?f = "family_facts cfg ads ms"
  have d: "distinct (map m_id ?f)" using facts_ids [OF assms(1), of cfg ms] assms(2) by simp
  have ids: "x \<in> m_id ` set ?f \<longleftrightarrow> x \<in> set ms \<and> ads x \<noteq> None" for x
    using arg_cong [OF facts_ids [OF assms(1), of cfg ms], of set] by auto
  have c: "cell_index (cells cfg ?f) x = None \<longleftrightarrow> ads x = None" if "x \<in> set ms" for x
    using cell_index_known [OF d, of cfg x] ids [of x] that by auto
  show ?thesis
    using c [OF assms(3)] c [OF assms(4)] assms(3,4)
    by (cases "ads lo"; cases "ads hi") (auto simp: pair_clause_def by_id_facts [OF assms(1,2)])
qed

text \<open>
  C34. When the guard raises: the modes \<open>off\<close>, \<open>family\<close> and \<open>pair\<close> never do; the cell mode raises a
  \<^verbatim>\<open>KeyError\<close> exactly when some certified pair has one of its two adverts missing from the listings.
\<close>

theorem refusals_fails_iff:
  assumes "ads_keyed ads"
  shows "refusals cfg ads ds = None \<longleftrightarrow>
     family_guard_mode cfg \<notin> {''off'', ''family'', ''pair''} \<and> (\<exists>(lo, hi) \<in> set (kb_edges ds). (ads lo = None) \<noteq> (ads hi = None))"
proof (cases "family_guard_mode cfg = ''off''")
  case True
  then show ?thesis by (simp add: refusals_def)
next
  case False
  obtain fs where fs: "kb_families ds = Some fs" using kb_families_forest by blast
  have "clause_in cfg ads fs (lo, hi) = None \<longleftrightarrow>
      family_guard_mode cfg \<noteq> ''family'' \<and> family_guard_mode cfg \<noteq> ''pair'' \<and> (ads lo = None) \<noteq> (ads hi = None)"
    if e: "(lo, hi) \<in> set (kb_edges ds)" for lo hi
  proof (rule edge_family [OF fs e])
    fix r ms assume m: "(r, ms) \<in> set fs" "lo \<in> set ms" "hi \<in> set ms" "root_of fs lo = Some r" "map_of fs r = Some ms" "families_ok fs"
    have "distinct ms" using m(1,6) by (force simp: families_ok_def intro: distinct_concat_member)
    from pair_clause_error [OF assms this m(2,3), of cfg] show ?thesis by (simp add: clause_in_def m)
  qed
  then show ?thesis using refusals_char(1) [OF fs False, of ads] False by fastforce
qed

theorem refusals_fails_iff_witness:
  "refusals (demo_guard ''cell'') (demo_ads(1 := None)) demo_chain = None"
proof -
  have "ads_keyed (demo_ads(1 := None))"
    by (auto simp: ads_keyed_def demo_ads_def demo_ad_def split: if_splits)
  from refusals_fails_iff [OF this, of "demo_guard ''cell''" demo_chain] show ?thesis
    by (simp add: demo_guard_def demo_chain_def demo_kb_def demo_ads_def kb_edges_def)
qed

section \<open>The order of the modes\<close>

lemma rel_sym: "rel a b = rel b a"
  by (simp add: rel_def min.commute abs_minus_commute)

lemma areas_apart_sym: "areas_apart cfg a b = areas_apart cfg b a"
  by (auto simp: areas_apart_def rel_sym split: option.splits)

lemma disjoint_sets_sym: "disjoint_sets xs ys = disjoint_sets ys xs"
  by (auto simp: disjoint_sets_def list_ex_iff)

lemma overlap_sym: "overlap_days a b = overlap_days b a"
  by (auto simp: overlap_days_def min.commute max.commute split: option.splits)

text \<open>Two adverts first seen at different moments are compatible in both orders or in neither.\<close>

lemma incompatible_sym:
  assumes "win_start a \<noteq> win_start b \<or> win_start a = None"
  shows "incompatible cfg a b = incompatible cfg b a"
proof -
  have "overlap_days a b = None" if "win_start a = None \<or> win_start b = None"
    using that by (auto simp: overlap_days_def split: option.splits)
  moreover have "number_of (win_start a) \<noteq> number_of (win_start b)" if "win_start a \<noteq> None" "win_start b \<noteq> None"
    using that assms by (auto simp: number_of_def)
  ultimately have "prices_apart cfg a b = prices_apart cfg b a"
    using overlap_sym [of a b] rel_sym [of "number_of (m_price a)" "number_of (m_price b)"]
    by (cases "win_start a = None \<or> win_start b = None";
        cases "number_of (win_start a) \<le> number_of (win_start b)"; cases "number_of (win_start b) \<le> number_of (win_start a)")
      (auto simp: prices_apart_def)
  then show ?thesis
    using areas_apart_sym [of cfg a b] disjoint_sets_sym [of "unit_designators a" "unit_designators b"]
      disjoint_sets_sym [of "ref_codes a" "ref_codes b"] overlap_sym [of a b]
    by (simp add: incompatible_def eq_commute conj_commute)
qed

lemma seen_linear: "x \<noteq> y \<Longrightarrow> distinct (map m_id ms) \<Longrightarrow> x \<in> set ms \<Longrightarrow> y \<in> set ms \<Longrightarrow> seen_key x < seen_key y \<or> seen_key y < seen_key x"
proof -
  assume "x \<noteq> y" "distinct (map m_id ms)" "x \<in> set ms" "y \<in> set ms"
  then have "seen_key x \<noteq> seen_key y" using seen_distinct [of ms] by (auto simp: distinct_map inj_on_def)
  then show ?thesis by (rule linorder_neqE) simp_all
qed

lemma first_inconsistency_None:
  "first_inconsistency cfg ms = None \<longleftrightarrow> (\<forall>a b. (a, b) \<in> set (pairs_of ms) \<longrightarrow> incompatible cfg a b = None)"
proof -
  have "first_inconsistency cfg ms = None \<longleftrightarrow> filter (\<lambda>(a, b). incompatible cfg a b \<noteq> None) (pairs_of ms) = []"
    by (cases "filter (\<lambda>(a, b). incompatible cfg a b \<noteq> None) (pairs_of ms)") (auto simp: first_inconsistency_def)
  then show ?thesis by (auto simp: filter_empty_conv)
qed

lemma mode_irrelevant:
  "incompatible (cfg\<lparr>family_guard_mode := m\<rparr>) = incompatible cfg"
  "cells (cfg\<lparr>family_guard_mode := m\<rparr>) = cells cfg"
  "first_inconsistency (cfg\<lparr>family_guard_mode := m\<rparr>) = first_inconsistency cfg"
  "family_facts (cfg\<lparr>family_guard_mode := m\<rparr>) = family_facts cfg"
proof -
  show i: "incompatible (cfg\<lparr>family_guard_mode := m\<rparr>) = incompatible cfg"
  proof (intro ext)
    fix a b
    have "rose (cfg\<lparr>family_guard_mode := m\<rparr>) = rose cfg" "runs_beside (cfg\<lparr>family_guard_mode := m\<rparr>) = runs_beside cfg"
      by (intro ext; simp add: rose_def runs_beside_def split: option.split)+
    then have "prices_apart (cfg\<lparr>family_guard_mode := m\<rparr>) a b = prices_apart cfg a b"
      "runs_beside (cfg\<lparr>family_guard_mode := m\<rparr>) (overlap_days a b) = runs_beside cfg (overlap_days a b)"
      "areas_apart (cfg\<lparr>family_guard_mode := m\<rparr>) a b = areas_apart cfg a b"
      by (simp_all add: prices_apart_def areas_apart_def split: option.split)
    moreover have "family_guard_disposition_clause (cfg\<lparr>family_guard_mode := m\<rparr>) = family_guard_disposition_clause cfg"
      "family_guard_unit_designator_clause (cfg\<lparr>family_guard_mode := m\<rparr>) = family_guard_unit_designator_clause cfg"
      "family_guard_ref_code_clause (cfg\<lparr>family_guard_mode := m\<rparr>) = family_guard_ref_code_clause cfg"
      "family_guard_concurrency_clause (cfg\<lparr>family_guard_mode := m\<rparr>) = family_guard_concurrency_clause cfg"
      "family_guard_price_clause (cfg\<lparr>family_guard_mode := m\<rparr>) = family_guard_price_clause cfg" by simp_all
    ultimately show "incompatible (cfg\<lparr>family_guard_mode := m\<rparr>) a b = incompatible cfg a b"
      unfolding incompatible_def by (simp only:)
  qed
  have "fits_cell (cfg\<lparr>family_guard_mode := m\<rparr>) = fits_cell cfg" by (intro ext) (simp add: fits_cell_def i)
  then show "cells (cfg\<lparr>family_guard_mode := m\<rparr>) = cells cfg"
    by (intro ext) (simp add: cells_def first_fit_cells_def)
  show "first_inconsistency (cfg\<lparr>family_guard_mode := m\<rparr>) = first_inconsistency cfg"
    by (intro ext) (simp only: first_inconsistency_def i)
  have "member_facts (cfg\<lparr>family_guard_mode := m\<rparr>) = member_facts cfg"
    by (intro ext) (simp add: member_facts_def headline_area_of_def split: option.split)
  then show "family_facts (cfg\<lparr>family_guard_mode := m\<rparr>) = family_facts cfg"
    by (intro ext) (simp add: family_facts_def)
qed

text \<open>No two certified adverts were first seen at the same moment.\<close>

definition seen_apart :: "(int \<Rightarrow> family_ad option) \<Rightarrow> decision list \<Rightarrow> bool" where
  "seen_apart ads ds \<longleftrightarrow> (\<forall>x \<in> link_ends (kb_edges ds). \<forall>y \<in> link_ends (kb_edges ds). x \<noteq> y \<longrightarrow>
     map_option fa_start (ads x) \<noteq> map_option fa_start (ads y) \<or> map_option fa_start (ads x) = Some None)"

text \<open>One certified pair, judged in the three modes.\<close>

lemma modes_on_pair:
  assumes k: "ads_keyed ads" and d: "distinct ms" and m: "lo \<in> set ms" "hi \<in> set ms" "lo < hi"
    and a: "ads lo = Some a" "ads hi = Some b"
    and sym: "\<And>x y. x \<in> set (family_facts cfg ads ms) \<Longrightarrow> y \<in> set (family_facts cfg ads ms) \<Longrightarrow> x \<noteq> y \<Longrightarrow>
      incompatible cfg x y = incompatible cfg y x"
  defines "f \<equiv> family_facts cfg ads ms"
  shows "incompatible cfg (member_facts cfg a) (member_facts cfg b) \<noteq> None \<Longrightarrow> cell_index (cells cfg f) lo \<noteq> cell_index (cells cfg f) hi"
    and "cell_index (cells cfg f) lo \<noteq> cell_index (cells cfg f) hi \<Longrightarrow> first_inconsistency cfg f \<noteq> None"
proof -
  let ?a = "member_facts cfg a" and ?b = "member_facts cfg b"
  have df: "distinct (map m_id f)" using facts_ids [OF k, of cfg ms] d by (simp add: f_def)
  have mem: "?a \<in> set f" "?b \<in> set f" using m a by (auto simp: f_def facts_mem)
  have id: "m_id ?a = lo" "m_id ?b = hi" using a k by (auto simp: ads_keyed_def)
  then have ne: "?a \<noteq> ?b" using m(3) by (metis less_irrefl)
  have lo_in: "lo \<in> m_id ` set f" and hi_in: "hi \<in> m_id ` set f" using mem id by force+
  obtain i j where ij: "cell_index (cells cfg f) lo = Some i" "cell_index (cells cfg f) hi = Some j"
    using cell_index_known [OF df, of cfg lo] cell_index_known [OF df, of cfg hi] lo_in hi_in by auto
  note idx = cell_index_iff [OF cells_distinct [OF df, of cfg]]
  have i: "i < length (cells cfg f)" "lo \<in> set (cells cfg f ! i)" and j: "j < length (cells cfg f)" "hi \<in> set (cells cfg f ! j)"
    using ij idx by auto
  show "cell_index (cells cfg f) lo \<noteq> cell_index (cells cfg f) hi" if inc: "incompatible cfg ?a ?b \<noteq> None"
  proof
    assume "cell_index (cells cfg f) lo = cell_index (cells cfg f) hi"
    then have "i = j" using ij by simp
    then have c: "cells cfg f ! i \<in> set (cells cfg f)" "m_id ?a \<in> set (cells cfg f ! i)" "m_id ?b \<in> set (cells cfg f ! i)"
      using i j id by auto
    have "incompatible cfg ?b ?a = None \<or> incompatible cfg ?a ?b = None"
      using seen_linear [OF ne df mem] cell_compatible [OF df c(1) mem c(2,3)] cell_compatible [OF df c(1) mem(2,1) c(3,2)] by metis
    then show False using inc sym [of ?a ?b] mem ne by (auto simp: f_def)
  qed
  show "first_inconsistency cfg f \<noteq> None" if diff: "cell_index (cells cfg f) lo \<noteq> cell_index (cells cfg f) hi"
  proof -
    have "\<not> length (cells cfg f) \<le> 1" using i(1) j(1) ij diff by auto
    then obtain x y where xy: "x \<in> set f" "y \<in> set f" "seen_key x < seen_key y" "incompatible cfg y x \<noteq> None"
      using cells_single [OF df, of cfg] by blast
    then have ne: "x \<noteq> y" by auto
    then have "incompatible cfg x y \<noteq> None" using sym [of x y] xy by (simp add: f_def)
    then show ?thesis
      using pairs_of_cases [OF xy(1,2) ne] xy(4) unfolding first_inconsistency_None by metis
  qed
qed

text \<open>
  C32. The modes refuse more and more. Where every certified advert is at hand and no two were first seen
  together, a pair that \<open>pair\<close> refuses is refused by \<open>cell\<close>, what \<open>cell\<close> refuses \<open>family\<close> refuses, and
  nothing is refused but certified pairs. In the \<open>pair\<close> mode the verdict reads the two adverts alone.
\<close>

theorem refusals_nested:
  assumes k: "ads_keyed ads" and apart: "seen_apart ads ds"
    and there: "\<forall>(lo, hi) \<in> set (kb_edges ds). lo < hi \<and> ads lo \<noteq> None \<and> ads hi \<noteq> None"
  shows "\<exists>rp rc rf p c f. refusals (cfg\<lparr>family_guard_mode := ''pair''\<rparr>) ads ds = Some (rp, p)
      \<and> refusals (cfg\<lparr>family_guard_mode := ''cell''\<rparr>) ads ds = Some (rc, c)
      \<and> refusals (cfg\<lparr>family_guard_mode := ''family''\<rparr>) ads ds = Some (rf, f)
      \<and> dom (map_of rp) \<subseteq> dom (map_of rc) \<and> dom (map_of rc) \<subseteq> dom (map_of rf) \<and> dom (map_of rf) \<subseteq> set (kb_edges ds)
      \<and> (\<forall>lo hi. map_of rp (lo, hi) = (if (lo, hi) \<in> set (kb_edges ds)
            then incompatible cfg (member_facts cfg (the (ads lo))) (member_facts cfg (the (ads hi))) else None))"
proof -
  obtain fs where fs: "kb_families ds = Some fs" using kb_families_forest by blast
  let ?cl = "\<lambda>m. clause_in (cfg\<lparr>family_guard_mode := m\<rparr>) ads fs"
  have edge: "?cl ''pair'' (lo, hi) = Some (incompatible cfg (member_facts cfg (the (ads lo))) (member_facts cfg (the (ads hi))))
      \<and> (\<exists>x. ?cl ''cell'' (lo, hi) = Some x \<and> (incompatible cfg (member_facts cfg (the (ads lo))) (member_facts cfg (the (ads hi))) \<noteq> None \<longrightarrow> x \<noteq> None)
           \<and> (\<exists>y. ?cl ''family'' (lo, hi) = Some y \<and> (x \<noteq> None \<longrightarrow> y \<noteq> None)))"
    if e: "(lo, hi) \<in> set (kb_edges ds)" for lo hi
  proof (rule edge_family [OF fs e])
    fix r ms assume m: "(r, ms) \<in> set fs" "lo \<in> set ms" "hi \<in> set ms" "root_of fs lo = Some r" "map_of fs r = Some ms" "families_ok fs"
    have d: "distinct ms" using m(1,6) by (force simp: families_ok_def intro: distinct_concat_member)
    obtain a b where ab: "lo < hi" "ads lo = Some a" "ads hi = Some b" using there e by fastforce
    have ends: "x \<in> link_ends (kb_edges ds)" if "x \<in> set ms" for x using family_ends [OF fs m(1) that] .
    have sym: "incompatible cfg x y = incompatible cfg y x"
      if f: "x \<in> set (family_facts cfg ads ms)" "y \<in> set (family_facts cfg ads ms)" "x \<noteq> y" for x y
    proof -
      obtain i j u v where uv: "i \<in> set ms" "j \<in> set ms" "ads i = Some u" "ads j = Some v" "x = member_facts cfg u" "y = member_facts cfg v"
        using f(1,2) by (auto simp: facts_mem)
      then have "i \<noteq> j" using f(3) by auto
      then have "fa_start u \<noteq> fa_start v \<or> fa_start u = None"
        using apart ends [OF uv(1)] ends [OF uv(2)] uv(3,4) by (fastforce simp: seen_apart_def)
      then show ?thesis using uv(5,6) by (intro incompatible_sym) (simp add: member_facts_def)
    qed
    note M = modes_on_pair [OF k d m(2,3) ab sym]
    have by_ids: "by_id (family_facts cfg ads ms) lo = Some (member_facts cfg a)" "by_id (family_facts cfg ads ms) hi = Some (member_facts cfg b)"
      using m(2,3) ab by (simp_all add: by_id_facts [OF k d])
    let ?f = "family_facts cfg ads ms" and ?i = "incompatible cfg (member_facts cfg a) (member_facts cfg b)"
    have cl: "?cl md (lo, hi) = pair_clause (cfg\<lparr>family_guard_mode := md\<rparr>) ?f (lo, hi)" for md
      by (simp add: clause_in_def m(4,5) mode_irrelevant)
    have p: "?cl ''pair'' (lo, hi) = Some ?i"
      and c: "?cl ''cell'' (lo, hi) = (if cell_index (cells cfg ?f) lo = cell_index (cells cfg ?f) hi then Some None
        else Some (Some (case ?i of None \<Rightarrow> ''cross_cell'' | Some c \<Rightarrow> c)))"
      and f: "?cl ''family'' (lo, hi) = Some (map_option fst (first_inconsistency cfg ?f))"
      unfolding cl by (simp_all add: pair_clause_def mode_irrelevant by_ids)
    show ?thesis
    proof (cases "cell_index (cells cfg ?f) lo = cell_index (cells cfg ?f) hi")
      case True
      then have "?i = None" using M(1) by metis
      then show ?thesis unfolding p c f ab option.sel by (simp add: True)
    next
      case False
      then have "first_inconsistency cfg ?f \<noteq> None" using M(2) by metis
      then show ?thesis unfolding p c f ab option.sel if_not_P [OF False] by simp
    qed
  qed
  have defined: "\<exists>rf rep. refusals (cfg\<lparr>family_guard_mode := m\<rparr>) ads ds = Some (rf, rep)"
    if "m = ''pair'' \<or> m = ''cell'' \<or> m = ''family''" for m
  proof -
    have "\<not> (\<exists>p \<in> set (kb_edges ds). ?cl m p = None)" using edge that by force
    moreover have "family_guard_mode (cfg\<lparr>family_guard_mode := m\<rparr>) \<noteq> ''off''" using that by auto
    ultimately have "refusals (cfg\<lparr>family_guard_mode := m\<rparr>) ads ds \<noteq> None"
      using refusals_char(1) [OF fs] by metis
    then show ?thesis by auto
  qed
  obtain rp p rc c rf f where R: "refusals (cfg\<lparr>family_guard_mode := ''pair''\<rparr>) ads ds = Some (rp, p)"
      "refusals (cfg\<lparr>family_guard_mode := ''cell''\<rparr>) ads ds = Some (rc, c)"
      "refusals (cfg\<lparr>family_guard_mode := ''family''\<rparr>) ads ds = Some (rf, f)"
    using defined [of "''pair''"] defined [of "''cell''"] defined [of "''family''"] by auto
  note C = refusals_char(2) [OF fs _ R(1)] refusals_char(2) [OF fs _ R(2)] refusals_char(2) [OF fs _ R(3)]
  have doms: "q \<in> dom (map_of rp) \<longleftrightarrow> q \<in> set (kb_edges ds) \<and> (\<exists>c. ?cl ''pair'' q = Some (Some c))"
    "q \<in> dom (map_of rc) \<longleftrightarrow> q \<in> set (kb_edges ds) \<and> (\<exists>c. ?cl ''cell'' q = Some (Some c))"
    "q \<in> dom (map_of rf) \<longleftrightarrow> q \<in> set (kb_edges ds) \<and> (\<exists>c. ?cl ''family'' q = Some (Some c))" for q
    using C [of q] by (auto split: if_splits)
  have "q \<in> dom (map_of rp) \<Longrightarrow> q \<in> dom (map_of rc)" "q \<in> dom (map_of rc) \<Longrightarrow> q \<in> dom (map_of rf)" for q
    unfolding doms using edge [of "fst q" "snd q"] by auto
  then have "dom (map_of rp) \<subseteq> dom (map_of rc)" "dom (map_of rc) \<subseteq> dom (map_of rf)" by blast+
  moreover have "dom (map_of rf) \<subseteq> set (kb_edges ds)" using doms(3) by blast
  moreover have "map_of rp (lo, hi) = (if (lo, hi) \<in> set (kb_edges ds)
      then incompatible cfg (member_facts cfg (the (ads lo))) (member_facts cfg (the (ads hi))) else None)" for lo hi
    using C(1) [of "(lo, hi)"] edge [of lo hi] by (cases "incompatible cfg (member_facts cfg (the (ads lo))) (member_facts cfg (the (ads hi)))") auto
  ultimately show ?thesis using R by blast
qed

theorem refusals_nested_witness:
  "\<exists>rf rep. refusals (demo_guard ''family'') demo_ads demo_chain = Some (rf, rep) \<and> (2, 3) \<in> dom (map_of rf)"
proof -
  let ?g = "demo_guard ''pair''"
  have k: "ads_keyed demo_ads" by (auto simp: ads_keyed_def demo_ads_def demo_ad_def split: if_splits)
  have e: "kb_edges demo_chain = [(2, 3), (1, 2)]" by (simp add: kb_edges_def demo_chain_def demo_kb_def)
  have a: "seen_apart demo_ads demo_chain"
    by (simp add: seen_apart_def e link_ends_def demo_ads_def demo_ad_def)
  have t: "\<forall>(lo, hi) \<in> set (kb_edges demo_chain). lo < hi \<and> demo_ads lo \<noteq> None \<and> demo_ads hi \<noteq> None"
    by (simp add: e demo_ads_def)
  have i: "incompatible ?g (member_facts ?g (the (demo_ads 2))) (member_facts ?g (the (demo_ads 3))) = Some ''price''" by code_simp
  have f: "?g\<lparr>family_guard_mode := ''family''\<rparr> = demo_guard ''family''" by (simp add: demo_guard_def)
  from refusals_nested [OF k a t, of ?g] obtain rp rf rep and rc :: refused_pairs where
    r: "refusals (?g\<lparr>family_guard_mode := ''family''\<rparr>) demo_ads demo_chain = Some (rf, rep)"
      "dom (map_of rp) \<subseteq> dom (map_of rc)" "dom (map_of rc) \<subseteq> dom (map_of rf)"
      "\<forall>lo hi. map_of rp (lo, hi) = (if (lo, hi) \<in> set (kb_edges demo_chain)
            then incompatible ?g (member_facts ?g (the (demo_ads lo))) (member_facts ?g (the (demo_ads hi))) else None)"
    by blast
  have "map_of rp (2, 3) = Some ''price''" using r(4) i by (simp add: e)
  then show ?thesis using r(1-3) f by auto
qed

end
