(* ===== verification/Rate_Limit.thy ===== *)
theory Rate_Limit
  imports Complex_Main Prelude
begin

text \<open>
  \<^verbatim>\<open>scraper/rate_limit.py\<close> and \<^verbatim>\<open>scraper/rate_ledger.py\<close>: the request pacing of one process and the
  ledger row all processes of a portal share. A call is a function of the state it finds: the lock of
  the code makes it one step. Every clock reading is an argument, as is whether a stop signal has
  arrived by each point the code looks, and whether the database answers. Times are seconds, rational.
\<close>

section \<open>The limiter of one process\<close>

record limiter =
  base_interval :: rat
  interval :: rat
  max_interval :: rat
  penalty_factor :: rat
  recovery_factor :: rat
  next_at :: rat
  refused :: bool
  refused_reason :: "string option"

text \<open>A rate that is not positive is a \<^verbatim>\<open>ValueError\<close>.\<close>

definition new_limiter :: "rat \<Rightarrow> rat \<Rightarrow> rat \<Rightarrow> rat \<Rightarrow> limiter option" where
  "new_limiter rate penalty recovery max_mult =
     (if rate \<le> 0 then None
      else Some \<lparr>base_interval = 1 / rate, interval = 1 / rate, max_interval = 1 / rate * max_mult,
                 penalty_factor = penalty, recovery_factor = recovery, next_at = 0, refused = False, refused_reason = None\<rparr>)"

definition refuse :: "string \<Rightarrow> 'a limiter_scheme \<Rightarrow> 'a limiter_scheme" where
  "refuse reason s = s\<lparr>refused := True, refused_reason := Some reason\<rparr>"

text \<open>\<open>True\<close> is the \<^verbatim>\<open>StopRequested\<close>; a portal the ledger already blocked stays reported as blocked.\<close>

definition refuse_on_stop :: "bool \<Rightarrow> 'a limiter_scheme \<Rightarrow> bool \<times> 'a limiter_scheme" where
  "refuse_on_stop stop s = (stop, if stop \<and> \<not> refused s then refuse ''stop'' s else s)"

datatype acquired = Slot rat | Stopped | Unavailable

definition schedule :: "rat \<Rightarrow> 'a limiter_scheme \<Rightarrow> rat \<times> 'a limiter_scheme" where
  "schedule now s =
     (let scheduled = max now (next_at s)
      in (scheduled, s\<lparr>next_at := scheduled + interval s,
            interval := (if base_interval s < interval s then max (base_interval s) (interval s * recovery_factor s) else interval s)\<rparr>))"

text \<open>\<open>stop\<close>: a stop had arrived before the call; \<open>stop'\<close>: by the end of the wait.\<close>

definition acquire :: "rat \<Rightarrow> bool \<Rightarrow> bool \<Rightarrow> 'a limiter_scheme \<Rightarrow> acquired \<times> 'a limiter_scheme" where
  "acquire now stop stop' s =
     (case refuse_on_stop stop s of
        (True, s1) \<Rightarrow> (Stopped, s1)
      | (False, s1) \<Rightarrow>
          (case schedule now s1 of (scheduled, s2) \<Rightarrow>
             (case refuse_on_stop stop' s2 of
                (True, s3) \<Rightarrow> (Stopped, s3)
              | (False, s3) \<Rightarrow> (Slot scheduled, s3))))"

definition penalize :: "'a limiter_scheme \<Rightarrow> 'a limiter_scheme" where
  "penalize s = s\<lparr>interval := min (max_interval s) (interval s * penalty_factor s)\<rparr>"

definition reschedule :: "rat \<Rightarrow> rat option \<Rightarrow> 'a limiter_scheme \<Rightarrow> 'a limiter_scheme" where
  "reschedule i not_before s =
     s\<lparr>base_interval := i, interval := i,
       next_at := (case not_before of None \<Rightarrow> next_at s | Some t \<Rightarrow> if next_at s < t then t else next_at s)\<rparr>"

section \<open>The shared row\<close>

record rate_row =
  next_slot_at :: rat
  rr_interval_ms :: int
  rr_penalty :: rat

definition PENALTY_MULT :: rat where "PENALTY_MULT = 2"
definition PENALTY_CAP :: rat where "PENALTY_CAP = 8"
definition RECOVERY_FACTOR :: rat where "RECOVERY_FACTOR = 9 / 10"
definition DEFAULT_LEASE_N :: int where "DEFAULT_LEASE_N = 20"

definition ensure_row :: "rat \<Rightarrow> int \<Rightarrow> rate_row option \<Rightarrow> rate_row option" where
  "ensure_row now ms row = (case row of
     None \<Rightarrow> Some \<lparr>next_slot_at = now, rr_interval_ms = ms, rr_penalty = 1\<rparr> | Some r \<Rightarrow> Some r)"

text \<open>The seconds to the window, the width of a slot, whether it was granted, and the row after.\<close>

definition lease_row :: "rat \<Rightarrow> int \<Rightarrow> int \<Rightarrow> rat option \<Rightarrow> rate_row \<Rightarrow> rat \<times> rat \<times> bool \<times> rate_row" where
  "lease_row now n ms bound r =
     (let start = max (next_slot_at r) now;
          width = of_int ms * rr_penalty r / 1000;
          granted = (case bound of None \<Rightarrow> True | Some b \<Rightarrow> start \<le> now + b)
      in (max (start - now) 0, width, granted,
          if granted then r\<lparr>next_slot_at := start + of_int n * width, rr_interval_ms := ms,
                            rr_penalty := max 1 (rr_penalty r * RECOVERY_FACTOR)\<rparr>
          else r))"

definition penalize_row :: "rat \<Rightarrow> rate_row \<Rightarrow> rate_row" where
  "penalize_row now r =
     (let p = min PENALTY_CAP (rr_penalty r * PENALTY_MULT)
      in r\<lparr>rr_penalty := p, next_slot_at := max (next_slot_at r) now + of_int (rr_interval_ms r) * p / 1000\<rparr>)"

section \<open>The limiter over the ledger\<close>

record ledger = limiter +
  local_base :: rat
  interval_ms :: int
  lease_n :: int
  max_wait :: "rat option"
  deadline :: "rat option"
  ensured :: bool
  slots_left :: int
  single_owed :: int
  fallen_back :: bool

text \<open>Python's \<^verbatim>\<open>round\<close>: to the nearest integer, a tie to the even one.\<close>

definition round_even :: "rat \<Rightarrow> int" where
  "round_even x = (let f = \<lfloor>x\<rfloor>; d = x - of_int f
                   in if d < 1 / 2 then f else if 1 / 2 < d then f + 1 else if even f then f else f + 1)"

definition new_ledger :: "rat \<Rightarrow> int \<Rightarrow> rat option \<Rightarrow> rat option \<Rightarrow> ledger option" where
  "new_ledger rate n wait_s stop_at =
     (if n < 1 then None
      else case new_limiter rate 2 (9 / 10) 8 of
        None \<Rightarrow> None
      | Some s \<Rightarrow> Some \<lparr>base_interval = base_interval s, interval = interval s, max_interval = max_interval s,
          penalty_factor = penalty_factor s, recovery_factor = recovery_factor s, next_at = next_at s,
          refused = refused s, refused_reason = refused_reason s,
          local_base = 1 / rate, interval_ms = max 1 (round_even (1000 / rate)), lease_n = n, max_wait = wait_s,
          deadline = stop_at, ensured = False, slots_left = 0, single_owed = 0, fallen_back = False\<rparr>)"

definition fall_back :: "ledger \<Rightarrow> ledger" where
  "fall_back s = s\<lparr>fallen_back := True, slots_left := 0, base_interval := local_base s,
                   interval := max (interval s) (local_base s)\<rparr>"

text \<open>The database, as one call finds it: it answers, or fails at the row's birth, or at the statement.\<close>

datatype db_answer = Db_ok | Birth_fails | Statement_fails

text \<open>\<open>_cursor\<close>: the first call of a process sees that the row exists; \<open>None\<close> is an exception.\<close>

definition cursor :: "db_answer \<Rightarrow> rat \<Rightarrow> ledger \<Rightarrow> rate_row option \<Rightarrow> (ledger \<times> rate_row option) option" where
  "cursor ans now s row =
     (if ensured s then Some (s, row)
      else if ans = Birth_fails then None
      else Some (s\<lparr>ensured := True\<rparr>, ensure_row now (interval_ms s) row))"

definition wait_bound :: "rat \<Rightarrow> ledger \<Rightarrow> rat option" where
  "wait_bound t s = (case deadline s of
     None \<Rightarrow> max_wait s
   | Some d \<Rightarrow> (let left = max 0 (d - t) in Some (case max_wait s of None \<Rightarrow> left | Some b \<Rightarrow> min b left)))"

text \<open>\<open>_lease_locked\<close>: \<open>False\<close> is the \<^verbatim>\<open>RateBudgetUnavailable\<close> of a window too far away.\<close>

definition lease_locked :: "rat \<Rightarrow> rat \<Rightarrow> rat \<Rightarrow> db_answer \<Rightarrow> ledger \<Rightarrow> rate_row option \<Rightarrow> bool \<times> ledger \<times> rate_row option" where
  "lease_locked t t' now ans s row =
     (let n = (if single_owed s \<noteq> 0 then 1 else lease_n s)
      in (case cursor ans now s row of
            None \<Rightarrow> (True, fall_back s, row)
          | Some (s1, None) \<Rightarrow> (True, fall_back s1, None)
          | Some (s1, Some r) \<Rightarrow>
              if ans = Statement_fails then (True, fall_back s1, Some r)
              else case lease_row now n (interval_ms s1) (wait_bound t s1) r of (delay, width, granted, r') \<Rightarrow>
                if \<not> granted
                then (False, refuse (if (case max_wait s1 of None \<Rightarrow> False | Some b \<Rightarrow> b < delay) then ''cap'' else ''deadline'') s1, Some r')
                else (True, reschedule width (Some (t' + delay)) (s1\<lparr>single_owed := max 0 (single_owed s1 - 1), slots_left := n\<rparr>), Some r')))"

text \<open>The clock readings of one \<open>acquire\<close>, in the order it takes them, and the stops it sees.\<close>

record readings =
  at_deadline :: rat
  at_bound :: rat
  at_grant :: rat
  at_slot :: rat
  at_db :: rat
  stop_first :: bool
  stop_inner :: bool
  stop_after :: bool

definition past_deadline :: "rat \<Rightarrow> ledger \<Rightarrow> bool" where
  "past_deadline t s \<longleftrightarrow> \<not> refused s \<and> (case deadline s of None \<Rightarrow> False | Some d \<Rightarrow> d \<le> t)"

definition take_slot :: "ledger \<Rightarrow> ledger" where
  "take_slot s = (if fallen_back s then s else s\<lparr>slots_left := slots_left s - 1\<rparr>)"

definition ledger_acquire :: "readings \<Rightarrow> db_answer \<Rightarrow> ledger \<times> rate_row option \<Rightarrow> acquired \<times> ledger \<times> rate_row option" where
  "ledger_acquire ts ans = (\<lambda>(s, row).
     case refuse_on_stop (stop_first ts) s of
       (True, s1) \<Rightarrow> (Stopped, s1, row)
     | (False, s1) \<Rightarrow>
         let s2 = (if past_deadline (at_deadline ts) s1 then refuse ''deadline'' s1 else s1)
         in if refused s2 then (Unavailable, s2, row)
            else (case (if \<not> fallen_back s2 \<and> slots_left s2 \<le> 0
                        then lease_locked (at_bound ts) (at_grant ts) (at_db ts) ans s2 row else (True, s2, row)) of
                    (False, s3, row') \<Rightarrow> (Unavailable, s3, row')
                  | (True, s3, row') \<Rightarrow>
                      (case acquire (at_slot ts) (stop_inner ts) (stop_after ts) (take_slot s3) of
                         (out, s4) \<Rightarrow> (out, s4, row'))))"

definition ledger_penalize :: "rat \<Rightarrow> db_answer \<Rightarrow> ledger \<times> rate_row option \<Rightarrow> ledger \<times> rate_row option" where
  "ledger_penalize now ans = (\<lambda>(s, row).
     if fallen_back s then (penalize s, row)
     else let s1 = s\<lparr>slots_left := 0, single_owed := min (single_owed s + 1) (lease_n s)\<rparr>
          in (case cursor ans now s1 row of
                None \<Rightarrow> (penalize (fall_back s1), row)
              | Some (s2, row') \<Rightarrow>
                  if ans = Statement_fails then (penalize (fall_back s2), row')
                  else (s2, map_option (penalize_row now) row')))"

section \<open>Runs\<close>

text \<open>Calls on the limiter of one process, by any of its threads, and the slots it grants.\<close>

datatype call = Acquire rat bool bool | Penalize

fun run_limiter :: "call list \<Rightarrow> limiter \<Rightarrow> rat list \<times> limiter" where
  "run_limiter [] s = ([], s)"
| "run_limiter (Penalize # cs) s = run_limiter cs (penalize s)"
| "run_limiter (Acquire now stop stop' # cs) s =
     (case acquire now stop stop' s of (out, s1) \<Rightarrow>
        (case run_limiter cs s1 of (slots, s2) \<Rightarrow>
           (case out of Slot t \<Rightarrow> (t # slots, s2) | _ \<Rightarrow> (slots, s2))))"

text \<open>Statements on the shared row, by any process, and the windows they lease.\<close>

datatype row_call = Lease rat int int "rat option" | Penalized rat

fun run_row :: "row_call list \<Rightarrow> rate_row \<Rightarrow> (rat \<times> rat) list \<times> rate_row" where
  "run_row [] r = ([], r)"
| "run_row (Penalized now # cs) r = run_row cs (penalize_row now r)"
| "run_row (Lease now n ms bound # cs) r =
     (case lease_row now n ms bound r of (delay, width, granted, r1) \<Rightarrow>
        (case run_row cs r1 of (ws, r2) \<Rightarrow>
           (if granted then (now + delay, now + delay + of_int n * width) # ws else ws, r2)))"

text \<open>Calls of one process on its ledger limiter; others may change the row between them.\<close>

datatype ledger_call = L_acquire readings db_answer | L_penalize rat db_answer | L_others "rate_row option"

fun run_ledger :: "ledger_call list \<Rightarrow> ledger \<times> rate_row option \<Rightarrow> acquired list \<times> ledger \<times> rate_row option" where
  "run_ledger [] st = ([], st)"
| "run_ledger (L_acquire ts ans # cs) st =
     (case ledger_acquire ts ans st of (out, st1) \<Rightarrow> (case run_ledger cs st1 of (outs, st2) \<Rightarrow> (out # outs, st2)))"
| "run_ledger (L_penalize now ans # cs) st = run_ledger cs (ledger_penalize now ans st)"
| "run_ledger (L_others row # cs) st = run_ledger cs (fst st, row)"

end
