(* ===== verification/Rate_Limit_Laws.thy ===== *)
theory Rate_Limit_Laws
  imports Rate_Limit
begin

text \<open>
  What the pacing promises: the slots of one process never come faster than its rate, the windows leased
  from a shared row never overlap, and a refusal or a fall-back is for the rest of the run.
\<close>

section \<open>One process\<close>

definition paced :: "rat \<Rightarrow> rat \<Rightarrow> 'a limiter_scheme \<Rightarrow> bool" where
  "paced base widest s \<longleftrightarrow> 0 < base \<and> base_interval s = base \<and> max_interval s = widest \<and> base \<le> interval s \<and> interval s \<le> widest
     \<and> 1 \<le> penalty_factor s \<and> 0 \<le> recovery_factor s \<and> recovery_factor s \<le> 1"

lemma refuse_fields [simp]:
  "base_interval (refuse why s) = base_interval s" "interval (refuse why s) = interval s" "max_interval (refuse why s) = max_interval s"
  "penalty_factor (refuse why s) = penalty_factor s" "recovery_factor (refuse why s) = recovery_factor s" "next_at (refuse why s) = next_at s"
  "refused (refuse why s)" "refused_reason (refuse why s) = Some why"
  by (simp_all add: refuse_def)

lemma refuse_on_stop_cases:
  "refuse_on_stop stop s = (b, s') \<Longrightarrow> b = stop \<and> s' = (if stop \<and> \<not> refused s then refuse ''stop'' s else s)"
  by (auto simp: refuse_on_stop_def)

lemma mult_le_self: "0 \<le> x \<Longrightarrow> r \<le> 1 \<Longrightarrow> x * r \<le> x" for x :: rat
  by (simp add: mult_left_le)

lemma schedule_paced:
  assumes "paced base widest s" "schedule now s = (t, s')"
  shows "paced base widest s'" "next_at s \<le> t" "now \<le> t" "t + base \<le> next_at s'"
proof -
  have e: "t = max now (next_at s)" "s' = s\<lparr>next_at := t + interval s,
      interval := (if base_interval s < interval s then max (base_interval s) (interval s * recovery_factor s) else interval s)\<rparr>"
    using assms(2) by (auto simp: schedule_def Let_def)
  have "interval s * recovery_factor s \<le> widest"
    by (rule order_trans [OF mult_le_self [of "interval s" "recovery_factor s"]]) (use assms(1) in \<open>auto simp: paced_def\<close>)
  then show "paced base widest s'" using assms(1) unfolding e(2) by (auto simp: paced_def)
  show "next_at s \<le> t" "now \<le> t" "t + base \<le> next_at s'" using assms(1) by (auto simp: e paced_def)
qed

lemma paced_refuse: "paced base widest s \<Longrightarrow> paced base widest (refuse why s)"
  by (simp add: paced_def)

lemma acquire_paced:
  assumes "paced base widest s" "acquire now stop stop' s = (out, s')"
  shows "paced base widest s' \<and> next_at s \<le> next_at s' \<and> (case out of Slot t \<Rightarrow> next_at s \<le> t \<and> now \<le> t \<and> t + base \<le> next_at s' | _ \<Rightarrow> True)"
proof (cases stop)
  case True
  then show ?thesis using assms by (auto simp: acquire_def refuse_on_stop_def paced_refuse)
next
  case False
  obtain t s2 where sc: "schedule now s = (t, s2)" by fastforce
  note P = schedule_paced [OF assms(1) sc]
  have "0 < base" using assms(1) by (simp add: paced_def)
  then show ?thesis
    using assms(2) False P sc by (cases stop') (auto simp: acquire_def refuse_on_stop_def paced_refuse split: if_splits)
qed

lemma penalize_paced: "paced base widest s \<Longrightarrow> paced base widest (penalize s)"
proof -
  assume p: "paced base widest s"
  have "0 \<le> interval s" using p by (auto simp: paced_def)
  then have "interval s * 1 \<le> interval s * penalty_factor s"
    using p by (intro mult_left_mono) (auto simp: paced_def)
  moreover have "base \<le> interval s" using p by (simp add: paced_def)
  ultimately have "base \<le> interval s * penalty_factor s" by linarith
  with p show ?thesis by (auto simp: paced_def penalize_def)
qed

lemma run_limiter_paced:
  "paced base widest s \<Longrightarrow> run_limiter cs s = (slots, s') \<Longrightarrow>
     paced base widest s' \<and> sorted_wrt (\<lambda>a b. a + base \<le> b) slots \<and> (\<forall>t \<in> set slots. next_at s \<le> t)"
proof (induction cs arbitrary: s slots s')
  case (Cons c cs)
  show ?case
  proof (cases c)
    case Penalize
    then show ?thesis
      using Cons.IH [OF penalize_paced [OF Cons.prems(1)]] Cons.prems(2) by (simp add: penalize_def)
  next
    case (Acquire now stop stop')
    obtain out s1 where a: "acquire now stop stop' s = (out, s1)" by fastforce
    obtain rest s2 where r: "run_limiter cs s1 = (rest, s2)" by fastforce
    note A = acquire_paced [OF Cons.prems(1) a]
    have IH: "paced base widest s2 \<and> sorted_wrt (\<lambda>a b. a + base \<le> b) rest \<and> (\<forall>t \<in> set rest. next_at s1 \<le> t)"
      using Cons.IH [OF _ r] A by blast
    show ?thesis
    proof (cases out)
      case (Slot t)
      then have eq: "slots = t # rest" "s' = s2" using Cons.prems(2) Acquire a r by simp_all
      have t: "next_at s \<le> t" "t + base \<le> next_at s1" using A Slot by simp_all
      have "0 < base" using Cons.prems(1) by (simp add: paced_def)
      with IH t have "\<forall>x \<in> set rest. t + base \<le> x \<and> next_at s \<le> x" by fastforce
      with IH t eq show ?thesis by simp
    qed (use Cons.prems(2) Acquire a r A IH in \<open>fastforce+\<close>)
  qed
qed simp

text \<open>
  C38. One process never asks faster than its rate: whatever its threads call, with whatever penalties and
  stops, two slots it grants are at least \<open>1 / rate\<close> apart, in order, and its interval stays between
  that and \<open>max_mult\<close> times that.
\<close>

theorem limiter_paced:
  assumes "new_limiter rate penalty recovery max_mult = Some s" "1 \<le> penalty" "0 \<le> recovery" "recovery \<le> 1" "1 \<le> max_mult"
  shows "case run_limiter cs s of (slots, s') \<Rightarrow> sorted_wrt (\<lambda>a b. a + 1 / rate \<le> b) slots
     \<and> 1 / rate \<le> interval s' \<and> interval s' \<le> max_mult / rate"
proof -
  have "0 < rate" using assms(1) by (simp add: new_limiter_def split: if_splits)
  then have "paced (1 / rate) (max_mult / rate) s"
    using assms by (auto simp: new_limiter_def paced_def divide_right_mono)
  moreover obtain slots s' where r: "run_limiter cs s = (slots, s')" by fastforce
  ultimately show ?thesis using run_limiter_paced [OF _ r] by (auto simp: paced_def)
qed

theorem limiter_paced_witness:
  "\<exists>s slots s'. new_limiter 2 2 (9 / 10) 8 = Some s \<and> run_limiter [Acquire 10 False False, Penalize, Acquire 10 False False, Acquire 10 False False] s = (slots, s')
     \<and> slots = [10, 21 / 2, 23 / 2] \<and> sorted_wrt (\<lambda>a b. a + 1 / 2 \<le> b) slots"
proof -
  let ?cs = "[Acquire 10 False False, Penalize, Acquire 10 False False, Acquire 10 False False]"
  let ?s = "the (new_limiter 2 2 (9 / 10) 8)"
  have s: "new_limiter 2 2 (9 / 10) 8 = Some ?s" by code_simp
  have "fst (run_limiter ?cs ?s) = [10, 21 / 2, 23 / 2]" by code_simp
  moreover have "sorted_wrt (\<lambda>a b. a + 1 / 2 \<le> b) (fst (run_limiter ?cs ?s))"
    using limiter_paced [OF s, of ?cs] by (simp add: case_prod_unfold)
  ultimately show ?thesis using s by (metis prod.collapse)
qed

section \<open>The shared row\<close>

definition row_ok :: "rate_row \<Rightarrow> bool" where
  "row_ok r \<longleftrightarrow> 0 \<le> rr_interval_ms r \<and> 1 \<le> rr_penalty r \<and> rr_penalty r \<le> PENALTY_CAP"

fun row_call_ok :: "row_call \<Rightarrow> bool" where
  "row_call_ok (Lease now n ms bound) \<longleftrightarrow> 0 \<le> n \<and> 0 \<le> ms"
| "row_call_ok (Penalized now) \<longleftrightarrow> True"

lemma row_width: "row_ok r \<Longrightarrow> 0 \<le> ms \<Longrightarrow> of_int ms / 1000 \<le> of_int ms * rr_penalty r / 1000"
  using mult_left_mono [of 1 "rr_penalty r" "of_int ms"] by (simp add: row_ok_def divide_right_mono)

lemma lease_row_ok:
  assumes ok: "row_ok r" and c: "0 \<le> n" "0 \<le> ms" and l: "lease_row now n ms bound r = (delay, width, granted, r')"
  shows "row_ok r' \<and> next_slot_at r \<le> next_slot_at r' \<and> of_int ms / 1000 \<le> width
    \<and> (if granted then next_slot_at r \<le> now + delay \<and> now \<le> now + delay \<and> now + delay + of_int n * width = next_slot_at r'
         \<and> (case bound of None \<Rightarrow> True | Some b \<Rightarrow> now + delay \<le> now + b \<or> delay = 0) else r' = r)"
proof -
  have e: "delay = max (max (next_slot_at r) now - now) 0" "width = of_int ms * rr_penalty r / 1000"
    "granted = (case bound of None \<Rightarrow> True | Some b \<Rightarrow> max (next_slot_at r) now \<le> now + b)"
    "r' = (if granted then r\<lparr>next_slot_at := max (next_slot_at r) now + of_int n * width, rr_interval_ms := ms,
                            rr_penalty := max 1 (rr_penalty r * RECOVERY_FACTOR)\<rparr> else r)"
    using l by (auto simp: lease_row_def Let_def)
  have w: "of_int ms / 1000 \<le> width" using row_width [OF ok c(2)] by (simp add: e)
  have w0: "0 \<le> width" using ok c(2) by (simp add: e row_ok_def)
  then have "0 \<le> of_int n * width" using c(1) by (intro mult_nonneg_nonneg) auto
  then have far: "next_slot_at r \<le> max (next_slot_at r) now + of_int n * width" by linarith
  have pen: "1 \<le> max 1 (rr_penalty r * RECOVERY_FACTOR)" "max 1 (rr_penalty r * RECOVERY_FACTOR) \<le> PENALTY_CAP"
    using ok by (auto simp: row_ok_def RECOVERY_FACTOR_def PENALTY_CAP_def)
  have d: "delay = max (next_slot_at r) now - now" by (simp add: e(1))
  show ?thesis
  proof (cases granted)
    case True
    then have r': "r' = r\<lparr>next_slot_at := max (next_slot_at r) now + of_int n * width, rr_interval_ms := ms,
        rr_penalty := max 1 (rr_penalty r * RECOVERY_FACTOR)\<rparr>" using e(4) by simp
    have "row_ok r'" using c(2) pen by (simp add: r' row_ok_def)
    moreover have "case bound of None \<Rightarrow> True | Some b \<Rightarrow> now + delay \<le> now + b \<or> delay = 0"
      using True e(3) by (auto simp: d split: option.splits)
    ultimately show ?thesis using True w far by (simp add: r' d)
  next
    case False
    then show ?thesis using e(4) ok w by simp
  qed
qed

lemma penalize_row_ok:
  assumes "row_ok r"
  shows "row_ok (penalize_row now r) \<and> next_slot_at r \<le> next_slot_at (penalize_row now r)"
proof -
  have p: "1 \<le> min PENALTY_CAP (rr_penalty r * PENALTY_MULT)"
    using assms by (simp add: row_ok_def PENALTY_CAP_def PENALTY_MULT_def)
  then have "0 \<le> of_int (rr_interval_ms r) * min PENALTY_CAP (rr_penalty r * PENALTY_MULT)"
    using assms by (intro mult_nonneg_nonneg) (auto simp: row_ok_def)
  then have "0 \<le> of_int (rr_interval_ms r) * min PENALTY_CAP (rr_penalty r * PENALTY_MULT) / 1000" by (intro divide_nonneg_pos) simp_all
  then have "next_slot_at r \<le> max (next_slot_at r) now + of_int (rr_interval_ms r) * min PENALTY_CAP (rr_penalty r * PENALTY_MULT) / 1000"
    by linarith
  then show ?thesis using assms p unfolding penalize_row_def Let_def row_ok_def by simp
qed

lemma run_row_ok:
  "row_ok r \<Longrightarrow> list_all row_call_ok cs \<Longrightarrow> run_row cs r = (ws, r') \<Longrightarrow>
     row_ok r' \<and> next_slot_at r \<le> next_slot_at r' \<and> sorted_wrt (\<lambda>w w'. snd w \<le> fst w') ws
     \<and> (\<forall>w \<in> set ws. next_slot_at r \<le> fst w \<and> snd w \<le> next_slot_at r')"
proof (induction cs arbitrary: r ws r')
  case (Cons c cs)
  show ?case
  proof (cases c)
    case (Penalized now)
    then show ?thesis
      using Cons.IH [OF conjunct1 [OF penalize_row_ok [OF Cons.prems(1), of now]]] Cons.prems penalize_row_ok [OF Cons.prems(1), of now]
      by fastforce
  next
    case (Lease now n ms bound)
    obtain delay width granted r1 where l: "lease_row now n ms bound r = (delay, width, granted, r1)" by (cases "lease_row now n ms bound r")
    obtain rest r2 where run: "run_row cs r1 = (rest, r2)" by fastforce
    have L: "row_ok r1 \<and> next_slot_at r \<le> next_slot_at r1 \<and> (if granted then next_slot_at r \<le> now + delay
        \<and> now + delay + of_int n * width = next_slot_at r1 else r1 = r)"
      using lease_row_ok [OF Cons.prems(1) _ _ l] Cons.prems(2) Lease by (auto split: if_splits)
    have IH: "row_ok r2 \<and> next_slot_at r1 \<le> next_slot_at r2 \<and> sorted_wrt (\<lambda>w w'. snd w \<le> fst w') rest
        \<and> (\<forall>w \<in> set rest. next_slot_at r1 \<le> fst w \<and> snd w \<le> next_slot_at r2)"
      using Cons.IH [OF _ _ run] Cons.prems(2) L by simp
    have eq: "ws = (if granted then (now + delay, now + delay + of_int n * width) # rest else rest)" "r' = r2"
      using Cons.prems(3) Lease l run by simp_all
    show ?thesis using IH L unfolding eq by (cases granted) fastforce+
  qed
qed simp

text \<open>
  C37. No two leases of a portal's ledger overlap: whichever processes lease and are penalised, in whatever
  order, the windows granted follow one another and the row's frontier, never moved back, lies past all
  of them; the shared penalty stays between 1 and 8.
\<close>

theorem ledger_windows_disjoint:
  assumes "row_ok r" "list_all row_call_ok cs"
  shows "case run_row cs r of (ws, r') \<Rightarrow> sorted_wrt (\<lambda>w w'. snd w \<le> fst w') ws
     \<and> list_all (\<lambda>w. next_slot_at r \<le> fst w \<and> snd w \<le> next_slot_at r') ws
     \<and> next_slot_at r \<le> next_slot_at r' \<and> 1 \<le> rr_penalty r' \<and> rr_penalty r' \<le> 8"
proof -
  obtain ws r' where run: "run_row cs r = (ws, r')" by fastforce
  show ?thesis using run_row_ok [OF assms run] by (simp add: run list_all_iff row_ok_def PENALTY_CAP_def)
qed

theorem ledger_windows_disjoint_witness:
  "case run_row [Lease 100 20 500 None, Penalized 101, Lease 101 1 500 None, Lease 102 20 500 (Some 2)]
      \<lparr>next_slot_at = 0, rr_interval_ms = 500, rr_penalty = 1\<rparr> of (ws, r') \<Rightarrow>
     ws = [(100, 110), (111, 112)] \<and> sorted_wrt (\<lambda>w w'. snd w \<le> fst w') ws"
proof -
  let ?cs = "[Lease 100 20 500 None, Penalized 101, Lease 101 1 500 None, Lease 102 20 500 (Some 2)]"
  let ?r = "\<lparr>next_slot_at = 0, rr_interval_ms = 500, rr_penalty = 1\<rparr>"
  have "fst (run_row ?cs ?r) = [(100, 110), (111, 112)]" by code_simp
  moreover have "sorted_wrt (\<lambda>w w'. snd w \<le> fst w') (fst (run_row ?cs ?r))"
    using ledger_windows_disjoint [of ?r ?cs] by (simp add: row_ok_def PENALTY_CAP_def case_prod_unfold)
  ultimately show ?thesis by (simp add: case_prod_unfold)
qed

section \<open>One process on the ledger\<close>

lemma cursor_fields:
  "cursor ans now s row = Some (s', row') \<Longrightarrow> s' = s\<lparr>ensured := True\<rparr> \<or> s' = s"
  by (auto simp: cursor_def split: if_splits)

text \<open>A refusal, once there, is what every later call finds and leaves.\<close>

lemma refused_acquire:
  assumes "refused s" "ledger_acquire ts ans (s, row) = (out, st)"
  shows "(out = Stopped \<or> out = Unavailable) \<and> st = (s, row)"
  using assms by (cases "stop_first ts") (auto simp: ledger_acquire_def refuse_on_stop_def past_deadline_def)

lemma fallen_acquire:
  assumes "fallen_back s" "ledger_acquire ts ans (s, row) = (out, s', row')"
  shows "fallen_back s' \<and> row' = row"
  using assms
  by (cases "stop_first ts"; cases "stop_inner ts"; cases "stop_after ts")
    (auto simp: ledger_acquire_def refuse_on_stop_def refuse_def acquire_def schedule_def take_slot_def Let_def split: if_splits)

lemma penalize_keeps:
  assumes "ledger_penalize now ans (s, row) = (s', row')"
  shows "refused s' = refused s \<and> refused_reason s' = refused_reason s \<and> (fallen_back s \<longrightarrow> fallen_back s' \<and> row' = row)"
  using assms by (auto simp: ledger_penalize_def penalize_def fall_back_def cursor_def Let_def split: if_splits option.splits)

fun is_others :: "ledger_call \<Rightarrow> bool" where
  "is_others (L_others row) = True"
| "is_others c = False"

text \<open>
  Both ways out of the ledger are one way. A refused run is refused for the rest of it: every
  later acquire raises, and the first reason given stands. A run that has fallen back to local pacing
  stays there and never reads or writes the shared row again.
\<close>

theorem ledger_one_way:
  assumes "run_ledger cs (s, row) = (outs, s', row')"
  shows "(refused s \<longrightarrow> list_all (\<lambda>o_s. o_s = Stopped \<or> o_s = Unavailable) outs \<and> refused s' \<and> refused_reason s' = refused_reason s)
     \<and> (fallen_back s \<longrightarrow> fallen_back s' \<and> (list_ex is_others cs \<or> row' = row))"
  using assms
proof (induction cs arbitrary: s row outs)
  case (Cons c cs)
  show ?case
  proof (cases c)
    case (L_acquire ts ans)
    obtain out s1 row1 where a: "ledger_acquire ts ans (s, row) = (out, s1, row1)" by (cases "ledger_acquire ts ans (s, row)") auto
    obtain rest where r: "run_ledger cs (s1, row1) = (rest, s', row')" "outs = out # rest"
      using Cons.prems L_acquire a by (cases "run_ledger cs (s1, row1)") auto
    show ?thesis
      using Cons.IH [OF r(1)] refused_acquire [OF _ a] fallen_acquire [OF _ a] r(2) L_acquire by auto
  next
    case (L_penalize now ans)
    obtain s1 row1 where p: "ledger_penalize now ans (s, row) = (s1, row1)" by fastforce
    show ?thesis using Cons.IH [of s1 row1 outs] Cons.prems L_penalize p penalize_keeps [OF p] by auto
  next
    case (L_others row1)
    then show ?thesis using Cons.IH [of s row1 outs] Cons.prems by auto
  qed
qed simp

definition calm :: "rat \<Rightarrow> readings" where
  "calm t = \<lparr>at_deadline = t, at_bound = t, at_grant = t, at_slot = t, at_db = t, stop_first = False, stop_inner = False, stop_after = False\<rparr>"

definition blocked_ledger :: "ledger \<times> rate_row option" where
  "blocked_ledger = snd (ledger_acquire (calm 0) Db_ok (the (new_ledger 2 20 (Some 5) None), Some \<lparr>next_slot_at = 60, rr_interval_ms = 500, rr_penalty = 8\<rparr>))"

theorem ledger_one_way_witness:
  "refused (fst blocked_ledger) \<and> refused_reason (fst (snd (run_ledger [L_acquire (calm 100) Db_ok, L_penalize 100 Db_ok, L_acquire (calm 101) Db_ok] blocked_ledger))) = Some ''cap''"
proof -
  let ?cs = "[L_acquire (calm 100) Db_ok, L_penalize 100 Db_ok, L_acquire (calm 101) Db_ok]"
  obtain s row where b: "blocked_ledger = (s, row)" by fastforce
  have r: "refused (fst blocked_ledger)" "refused_reason (fst blocked_ledger) = Some ''cap''" by code_simp+
  obtain outs s' row' where run: "run_ledger ?cs (s, row) = (outs, s', row')" by (cases "run_ledger ?cs (s, row)") auto
  show ?thesis using ledger_one_way [OF run] r unfolding b run fst_conv snd_conv by simp
qed

definition ledger_ok :: "rat \<Rightarrow> int \<Rightarrow> ledger \<Rightarrow> bool" where
  "ledger_ok base n s \<longleftrightarrow> 0 < base \<and> local_base s = base \<and> max_interval s = 8 * base \<and> penalty_factor s = 2 \<and> recovery_factor s = 9 / 10
     \<and> 1 \<le> n \<and> lease_n s = n \<and> 0 \<le> slots_left s \<and> slots_left s \<le> n \<and> 0 \<le> single_owed s \<and> single_owed s \<le> n
     \<and> (fallen_back s \<longrightarrow> slots_left s = 0 \<and> base_interval s = base \<and> base \<le> interval s)
     \<and> (refused s \<longleftrightarrow> refused_reason s \<noteq> None)"

lemma ok_refuse: "ledger_ok base n s \<Longrightarrow> ledger_ok base n (refuse why s)"
  by (simp add: ledger_ok_def refuse_def)

lemma ok_fall_back: "ledger_ok base n s \<Longrightarrow> ledger_ok base n (fall_back s)"
  by (simp add: ledger_ok_def fall_back_def)

lemma fallen_fall_back [simp]: "fallen_back (fall_back s)"
  by (simp add: fall_back_def)

lemma ok_ensured: "ledger_ok base n s \<Longrightarrow> ledger_ok base n (s\<lparr>ensured := b\<rparr>)"
  by (simp add: ledger_ok_def)

lemma ok_penalize:
  assumes "ledger_ok base n s"
  shows "ledger_ok base n (penalize s)"
proof -
  have "base \<le> interval s * 2" if "base \<le> interval s" using that assms by (auto simp: ledger_ok_def)
  then show ?thesis using assms by (auto simp: ledger_ok_def penalize_def)
qed

lemma ok_acquire:
  assumes ok: "ledger_ok base n s" and a: "acquire now stop stop' s = (out, s')"
  shows "ledger_ok base n s' \<and> fallen_back s' = fallen_back s"
proof -
  have sc: "ledger_ok base n (snd (schedule now s)) \<and> fallen_back (snd (schedule now s)) = fallen_back s"
    using ok by (simp add: ledger_ok_def schedule_def Let_def)
  have re: "fallen_back (refuse why x) = fallen_back x" for why and x :: ledger by (simp add: refuse_def)
  show ?thesis
    using a ok sc
    by (cases stop; cases stop'; cases "schedule now s")
      (auto simp: acquire_def refuse_on_stop_def ok_refuse re split: if_splits)
qed

lemma ok_lease:
  assumes ok: "ledger_ok base n s" and nf: "\<not> fallen_back s" and l: "lease_locked t t' now ans s row = (b, s', row')"
  shows "ledger_ok base n s' \<and> (b \<longrightarrow> fallen_back s' \<or> 1 \<le> slots_left s')"
proof (cases "cursor ans now s row")
  case None
  then show ?thesis using l ok by (auto simp: lease_locked_def Let_def ok_fall_back)
next
  case (Some c)
  obtain s1 row1 where c: "c = (s1, row1)" by (cases c)
  have ok1: "ledger_ok base n s1" using cursor_fields [of ans now s row s1 row1] Some c ok ok_ensured by auto
  have same: "single_owed s1 = single_owed s" "lease_n s1 = lease_n s" "fallen_back s1 = fallen_back s"
    using cursor_fields [of ans now s row s1 row1] Some c by auto
  show ?thesis
  proof (cases row1)
    case None
    then show ?thesis using l ok1 Some c by (auto simp: lease_locked_def Let_def ok_fall_back)
  next
    case r: (Some r)
    obtain delay width granted r' where lr: "lease_row now (if single_owed s \<noteq> 0 then 1 else lease_n s) (interval_ms s1) (wait_bound t s1) r = (delay, width, granted, r')"
      by (cases "lease_row now (if single_owed s \<noteq> 0 then 1 else lease_n s) (interval_ms s1) (wait_bound t s1) r")
    consider "ans = Statement_fails" | "ans \<noteq> Statement_fails" "\<not> granted" | "ans \<noteq> Statement_fails" "granted" by blast
    then show ?thesis
    proof cases
      case 1 then show ?thesis using l ok1 Some c r by (auto simp: lease_locked_def Let_def ok_fall_back)
    next
      case 2 then show ?thesis using l ok1 Some c r lr by (auto simp: lease_locked_def Let_def intro: ok_refuse)
    next
      case 3
      then have s': "s' = reschedule width (Some (t' + delay)) (s1\<lparr>single_owed := max 0 (single_owed s1 - 1),
          slots_left := if single_owed s \<noteq> 0 then 1 else lease_n s\<rparr>)"
        using l Some c r lr by (auto simp: lease_locked_def Let_def)
      show ?thesis using ok ok1 same nf unfolding s' by (auto simp: ledger_ok_def reschedule_def)
    qed
  qed
qed

lemma ok_take_slot: "ledger_ok base n s \<Longrightarrow> fallen_back s \<or> 1 \<le> slots_left s \<Longrightarrow> ledger_ok base n (take_slot s)"
  by (auto simp: ledger_ok_def take_slot_def)

lemma ok_ledger_acquire:
  assumes ok: "ledger_ok base n s" and a: "ledger_acquire ts ans (s, row) = (out, s', row')"
  shows "ledger_ok base n s'"
proof (cases "stop_first ts")
  case True
  then show ?thesis using a ok by (auto simp: ledger_acquire_def refuse_on_stop_def ok_refuse split: if_splits)
next
  case False
  let ?s2 = "if past_deadline (at_deadline ts) s then refuse ''deadline'' s else s"
  have ok2: "ledger_ok base n ?s2" using ok ok_refuse by auto
  show ?thesis
  proof (cases "refused ?s2")
    case True
    then show ?thesis using a False ok2 by (simp add: ledger_acquire_def refuse_on_stop_def Let_def)
  next
    case nr: False
    let ?lease = "if \<not> fallen_back ?s2 \<and> slots_left ?s2 \<le> 0
        then lease_locked (at_bound ts) (at_grant ts) (at_db ts) ans ?s2 row else (True, ?s2, row)"
    obtain b s3 row3 where l: "?lease = (b, s3, row3)" by (cases ?lease) auto
    have ok3: "ledger_ok base n s3 \<and> (b \<longrightarrow> fallen_back s3 \<or> 1 \<le> slots_left s3)"
    proof (cases "\<not> fallen_back ?s2 \<and> slots_left ?s2 \<le> 0")
      case True
      then have "lease_locked (at_bound ts) (at_grant ts) (at_db ts) ans ?s2 row = (b, s3, row3)" using l by simp
      from ok_lease [OF ok2 _ this] True show ?thesis by blast
    next
      case nl: False
      then have "s3 = ?s2" using l unfolding if_not_P [OF nl] by simp
      then show ?thesis using ok2 nl by auto
    qed
    have eq: "(out, s', row') = (case (b, s3, row3) of
          (False, s3, row') \<Rightarrow> (Unavailable, s3, row')
        | (True, s3, row') \<Rightarrow> (case acquire (at_slot ts) (stop_inner ts) (stop_after ts) (take_slot s3) of (out, s4) \<Rightarrow> (out, s4, row')))"
      using a False nr l by (simp add: ledger_acquire_def refuse_on_stop_def Let_def split del: if_split)
    show ?thesis
    proof (cases b)
      case False
      then show ?thesis using eq ok3 by simp
    next
      case True
      obtain o4 s4 where a4: "acquire (at_slot ts) (stop_inner ts) (stop_after ts) (take_slot s3) = (o4, s4)" by fastforce
      then have "s' = s4" using eq True by simp
      then show ?thesis using ok_acquire [OF ok_take_slot a4] ok3 True by blast
    qed
  qed
qed

lemma ok_ledger_penalize:
  assumes ok: "ledger_ok base n s" and p: "ledger_penalize now ans (s, row) = (s', row')"
  shows "ledger_ok base n s'"
proof (cases "fallen_back s")
  case True
  then show ?thesis using p ok_penalize [OF ok] by (simp add: ledger_penalize_def)
next
  case False
  let ?s1 = "s\<lparr>slots_left := 0, single_owed := min (single_owed s + 1) (lease_n s)\<rparr>"
  have ok1: "ledger_ok base n ?s1" using ok by (simp add: ledger_ok_def)
  show ?thesis
  proof (cases "cursor ans now ?s1 row")
    case None
    then show ?thesis using p False ok_penalize [OF ok_fall_back [OF ok1]] by (simp add: ledger_penalize_def Let_def)
  next
    case (Some c)
    obtain s2 row2 where c: "c = (s2, row2)" by (cases c)
    then have "ledger_ok base n s2" using cursor_fields [of ans now ?s1 row s2 row2] Some ok1 ok_ensured [OF ok1] by auto
    then show ?thesis
      using p False Some c ok_penalize [OF ok_fall_back] by (auto simp: ledger_penalize_def Let_def split: if_splits)
  qed
qed

lemma run_ledger_ok:
  "ledger_ok base n s \<Longrightarrow> run_ledger cs (s, row) = (outs, s', row') \<Longrightarrow> ledger_ok base n s'"
proof (induction cs arbitrary: s row outs)
  case (Cons c cs)
  show ?case
  proof (cases c)
    case (L_acquire ts ans)
    obtain out s1 row1 where a: "ledger_acquire ts ans (s, row) = (out, s1, row1)" by (cases "ledger_acquire ts ans (s, row)") auto
    obtain rest where "run_ledger cs (s1, row1) = (rest, s', row')"
      using Cons.prems L_acquire a by (cases "run_ledger cs (s1, row1)") auto
    then show ?thesis using Cons.IH ok_ledger_acquire [OF Cons.prems(1) a] by blast
  next
    case (L_penalize now ans)
    obtain s1 row1 where p: "ledger_penalize now ans (s, row) = (s1, row1)" by fastforce
    then show ?thesis using Cons.IH ok_ledger_penalize [OF Cons.prems(1) p] Cons.prems(2) L_penalize by simp
  next
    case (L_others row1)
    then show ?thesis using Cons.IH [of s row1 outs] Cons.prems by simp
  qed
qed simp

text \<open>
  The counters of the ledger limiter stay in their bounds for as long as it is used: the slots left
  of a lease and the single leases owed between 0 and the batch, a run is refused exactly when it has a
  reason, and a limiter that fell back holds no leased slot and paces no faster than its own rate.
\<close>

theorem ledger_bounded:
  assumes "new_ledger rate n wait_s stop_at = Some s" "run_ledger cs (s, row) = (outs, s', row')"
  shows "0 \<le> slots_left s' \<and> slots_left s' \<le> n \<and> 0 \<le> single_owed s' \<and> single_owed s' \<le> n
     \<and> (refused s' \<longleftrightarrow> refused_reason s' \<noteq> None)
     \<and> (if fallen_back s' then slots_left s' = 0 \<and> 1 / rate \<le> interval s' else True)"
proof -
  have "ledger_ok (1 / rate) n s"
    using assms(1) by (auto simp: new_ledger_def new_limiter_def ledger_ok_def split: if_splits option.splits)
  from run_ledger_ok [OF this assms(2)] show ?thesis by (auto simp: ledger_ok_def)
qed

theorem ledger_bounded_witness:
  "slots_left (fst (snd (run_ledger [L_acquire (calm 1) Db_ok, L_penalize 1 Db_ok, L_penalize 1 Db_ok, L_acquire (calm 2) Db_ok, L_acquire (calm 9) Statement_fails]
      (the (new_ledger 2 20 None None), None)))) = 0"
proof -
  let ?cs = "[L_acquire (calm 1) Db_ok, L_penalize 1 Db_ok, L_penalize 1 Db_ok, L_acquire (calm 2) Db_ok, L_acquire (calm 9) Statement_fails]"
  let ?s = "the (new_ledger 2 20 None None)"
  have s: "new_ledger 2 20 None None = Some ?s" by code_simp
  obtain outs s' row' where run: "run_ledger ?cs (?s, None) = (outs, s', row')" by (cases "run_ledger ?cs (?s, None)") auto
  have "fallen_back (fst (snd (run_ledger ?cs (?s, None))))" by code_simp
  then show ?thesis using ledger_bounded [OF s run] unfolding run fst_conv snd_conv by simp
qed

end
