(* ===== verification/Delist_Policy.thy ===== *)
theory Delist_Policy
  imports Complex_Main Prelude
begin

text \<open>
  \<^verbatim>\<open>scraper/delist_policy.py\<close>: how many nominated rows a walk checks now, when a gone verdict is
  trusted, and the breaker on a portal that reads gone everywhere. A setting is what the operator's JSON
  holds, field by field: absent, a value the code can convert, or one whose conversion raises. Times are
  seconds, rational, and the naive stamps are already read as UTC. A fraction is a rational number or, since
  \<^verbatim>\<open>float\<close> also converts the texts \<^verbatim>\<open>nan\<close> and \<^verbatim>\<open>inf\<close>, not finite: its product then has no \<^verbatim>\<open>int\<close>, and
  \<open>verify_budget\<close> raises (\<open>None\<close>).
\<close>

datatype 'a field = Absent | Holds 'a | Broken

datatype number = Finite rat | Not_finite

record override =
  ov_source :: "string option"
  ov_main :: "string option"
  ov_type :: "string option"
  ov_subtype :: "string option"
  ov_until :: "rat field"
  ov_max_rows :: "int field"

record cap_setting =
  cap_fraction :: "number field"
  cap_min_rows :: "int field"
  cap_overrides :: "override list"

record scope =
  sc_source :: string
  sc_main :: "string option"
  sc_type :: "string option"
  sc_subtype :: "string option"

record verify_budget =
  vb_queue :: int
  vb_deferred :: int
  vb_cap :: "int option"
  vb_override :: "override option"

definition DEFAULT_FRACTION :: rat where "DEFAULT_FRACTION = 1 / 10"
definition DEFAULT_MIN_ROWS :: int where "DEFAULT_MIN_ROWS = 2000"
definition GONE_DWELL :: rat where "GONE_DWELL = 12 * 3600"

text \<open>\<open>None\<close> is a setting that is not an object; one broken number drops the whole of it.\<close>

definition parse_cap :: "cap_setting option \<Rightarrow> number \<times> int \<times> override list" where
  "parse_cap setting =
     (case setting of
        None \<Rightarrow> (Finite DEFAULT_FRACTION, DEFAULT_MIN_ROWS, [])
      | Some s \<Rightarrow>
          if cap_fraction s = Broken \<or> cap_min_rows s = Broken then (Finite DEFAULT_FRACTION, DEFAULT_MIN_ROWS, [])
          else (case cap_fraction s of Holds f \<Rightarrow> f | _ \<Rightarrow> Finite DEFAULT_FRACTION,
                case cap_min_rows s of Holds m \<Rightarrow> m | _ \<Rightarrow> DEFAULT_MIN_ROWS,
                cap_overrides s))"

definition wanted :: "string option \<Rightarrow> string option \<Rightarrow> bool" where
  "wanted want actual \<longleftrightarrow> want = None \<or> want = actual"

definition permits :: "scope \<Rightarrow> int \<Rightarrow> rat \<Rightarrow> override \<Rightarrow> bool" where
  "permits sc candidates now o_v \<longleftrightarrow>
     ov_source o_v = Some (sc_source sc) \<and> wanted (ov_main o_v) (sc_main sc) \<and> wanted (ov_type o_v) (sc_type sc)
     \<and> wanted (ov_subtype o_v) (sc_subtype sc)
     \<and> (case ov_until o_v of Holds u \<Rightarrow> now < u | _ \<Rightarrow> False)
     \<and> (case ov_max_rows o_v of Holds m \<Rightarrow> candidates \<le> m | _ \<Rightarrow> False)"

definition override_permits :: "override list \<Rightarrow> scope \<Rightarrow> int \<Rightarrow> rat \<Rightarrow> override option" where
  "override_permits os sc candidates now = List.find (permits sc candidates now) os"

text \<open>Python's \<^verbatim>\<open>int\<close> of a number: towards zero.\<close>

definition trunc_int :: "rat \<Rightarrow> int" where
  "trunc_int x = (if x < 0 then \<lceil>x\<rceil> else \<lfloor>x\<rfloor>)"

definition cap_of :: "number \<Rightarrow> int \<Rightarrow> int option" where
  "cap_of fraction active_rows =
     (case fraction of Finite f \<Rightarrow> Some (max 1 (trunc_int (of_int active_rows * f))) | Not_finite \<Rightarrow> None)"

definition verify_budget :: "cap_setting option \<Rightarrow> scope \<Rightarrow> int \<Rightarrow> int \<Rightarrow> rat \<Rightarrow> verify_budget option" where
  "verify_budget setting sc nominated active_rows now =
     (case parse_cap setting of (fraction, min_rows, overrides) \<Rightarrow>
        if active_rows < min_rows
        then Some \<lparr>vb_queue = nominated, vb_deferred = 0, vb_cap = None, vb_override = None\<rparr>
        else case cap_of fraction active_rows of
               None \<Rightarrow> None
             | Some cap \<Rightarrow>
                 if nominated \<le> cap
                 then Some \<lparr>vb_queue = nominated, vb_deferred = 0, vb_cap = Some cap, vb_override = None\<rparr>
                 else case override_permits overrides sc nominated now of
                        Some o_v \<Rightarrow> Some \<lparr>vb_queue = nominated, vb_deferred = 0, vb_cap = Some cap, vb_override = Some o_v\<rparr>
                      | None \<Rightarrow> Some \<lparr>vb_queue = cap, vb_deferred = nominated - cap, vb_cap = Some cap, vb_override = None\<rparr>)"

definition gone_confirmed :: "rat option \<Rightarrow> rat \<Rightarrow> bool" where
  "gone_confirmed first_gone now = (case first_gone of None \<Rightarrow> False | Some t \<Rightarrow> GONE_DWELL \<le> now - t)"

section \<open>The breaker\<close>

record breaker =
  exempt_priority :: int
  ingest_fetched :: nat
  ingest_gone :: nat
  tripped :: bool

definition MIN_SAMPLE :: nat where "MIN_SAMPLE = 20"
definition MAX_GONE_SHARE :: rat where "MAX_GONE_SHARE = 1 / 2"

definition new_breaker :: "int \<Rightarrow> breaker" where
  "new_breaker exempt = \<lparr>exempt_priority = exempt, ingest_fetched = 0, ingest_gone = 0, tripped = False\<rparr>"

definition observe :: "int \<Rightarrow> string \<Rightarrow> breaker \<Rightarrow> bool \<times> breaker" where
  "observe priority kind b =
     (if priority = exempt_priority b \<or> tripped b then (False, b)
      else let b1 = b\<lparr>ingest_fetched := ingest_fetched b + 1,
                      ingest_gone := (if kind = ''gone'' then ingest_gone b + 1 else ingest_gone b)\<rparr>
           in if MIN_SAMPLE \<le> ingest_fetched b1 \<and> MAX_GONE_SHARE * of_nat (ingest_fetched b1) < of_nat (ingest_gone b1)
              then (True, b1\<lparr>tripped := True\<rparr>) else (False, b1))"

fun observe_all :: "(int \<times> string) list \<Rightarrow> breaker \<Rightarrow> bool list \<times> breaker" where
  "observe_all [] b = ([], b)"
| "observe_all ((p, k) # os) b = (case observe p k b of (r, b1) \<Rightarrow> (case observe_all os b1 of (rs, b2) \<Rightarrow> (r # rs, b2)))"

section \<open>Properties\<close>

text \<open>The cap in plain terms: the whole rows of the share, and never fewer than one.\<close>

definition share_cap :: "rat \<Rightarrow> int \<Rightarrow> int" where
  "share_cap f rows = (if of_int rows * f < 2 then 1 else \<lfloor>of_int rows * f\<rfloor>)"

lemma trunc_share: "max 1 (trunc_int x) = (if x < 2 then 1 else \<lfloor>x\<rfloor>)"
proof -
  consider "x < 0" | "0 \<le> x" "x < 2" | "2 \<le> x" by linarith
  then show ?thesis
  proof cases
    case 1
    then have "\<lceil>x\<rceil> \<le> 0" by (simp add: ceiling_le_iff)
    then show ?thesis using 1 by (simp add: trunc_int_def)
  next
    case 2
    then have "\<lfloor>x\<rfloor> \<le> 1" by linarith
    then show ?thesis using 2 by (simp add: trunc_int_def)
  next
    case 3
    then have "2 \<le> \<lfloor>x\<rfloor>" by (simp add: le_floor_iff)
    then show ?thesis using 3 by (simp add: trunc_int_def)
  qed
qed

lemma cap_of_share: "cap_of (Finite f) rows = Some (share_cap f rows)"
  by (simp add: cap_of_def share_cap_def trunc_share)

lemma share_cap_pos: "1 \<le> share_cap f rows"
  by (auto simp: share_cap_def not_less le_floor_iff)

text \<open>What an operator's entry must say to lift the throttle for one walk.\<close>

definition lifts :: "scope \<Rightarrow> int \<Rightarrow> rat \<Rightarrow> override \<Rightarrow> bool" where
  "lifts sc nominated now e \<longleftrightarrow>
     ov_source e = Some (sc_source sc)
     \<and> (ov_main e = None \<or> ov_main e = sc_main sc) \<and> (ov_type e = None \<or> ov_type e = sc_type sc)
     \<and> (ov_subtype e = None \<or> ov_subtype e = sc_subtype sc)
     \<and> (\<exists>u. ov_until e = Holds u \<and> now < u) \<and> (\<exists>m. ov_max_rows e = Holds m \<and> nominated \<le> m)"

lemma permits_lifts: "permits sc nominated now e = lifts sc nominated now e"
  by (auto simp: permits_def lifts_def wanted_def split: field.splits)

lemma override_found:
  "(override_permits os sc nominated now \<noteq> None) = (\<exists>e \<in> set os. lifts sc nominated now e)"
  "override_permits os sc nominated now = Some e \<Longrightarrow> e \<in> set os \<and> lifts sc nominated now e"
  by (auto simp: override_permits_def find_None_iff find_Some_iff permits_lifts)

lemma budget_at_cap:
  assumes "parse_cap setting = (Finite f, floor_rows, os)" "\<not> active_rows < floor_rows"
  shows "\<exists>b. verify_budget setting sc nominated active_rows now = Some b
    \<and> vb_queue b + vb_deferred b = nominated \<and> vb_cap b = Some (share_cap f active_rows)
    \<and> vb_queue b = (if \<exists>e \<in> set os. lifts sc nominated now e then nominated else min nominated (share_cap f active_rows))
    \<and> (case vb_override b of
         None \<Rightarrow> (\<forall>e \<in> set os. \<not> lifts sc nominated now e) \<or> nominated \<le> share_cap f active_rows
       | Some e \<Rightarrow> e \<in> set os \<and> lifts sc nominated now e \<and> share_cap f active_rows < nominated)"
proof (cases "nominated \<le> share_cap f active_rows")
  case True
  then show ?thesis using assms by (simp add: verify_budget_def cap_of_share)
next
  case False
  then show ?thesis
  proof (cases "override_permits os sc nominated now")
    case None
    then have "\<forall>e \<in> set os. \<not> lifts sc nominated now e" using override_found(1) [of os sc nominated now] by simp
    then show ?thesis using assms False None by (auto simp: verify_budget_def cap_of_share)
  next
    case (Some e)
    then have "e \<in> set os \<and> lifts sc nominated now e" by (rule override_found(2))
    then show ?thesis using assms False Some by (auto simp: verify_budget_def cap_of_share)
  qed
qed

text \<open>
  C39. The throttle of one walk, for a non-negative number of nominations. A setting that is missing or
  no object, or has a broken number, throttles as the defaults do: a tenth of the active rows, from 2000
  rows on. Below the floor everything is queued. From the floor on the cap is the whole rows of the share,
  at least one, and the walk queues the smaller of the nominations and the cap, unless an operator's entry
  for this source (and the categories it names), unexpired and good for this many rows, lifts it: then
  everything is queued. What is not queued is deferred, so no nomination is lost, and a walk with a
  nomination queues one. It fails exactly when, from the floor on, the share is not a finite number.
\<close>

theorem verify_budget_correct:
  assumes "0 \<le> nominated"
  shows "let (fraction, floor_rows, entries) =
           (case setting of
              None \<Rightarrow> (Finite (1 / 10), 2000, [])
            | Some s \<Rightarrow> if cap_fraction s = Broken \<or> cap_min_rows s = Broken then (Finite (1 / 10), 2000, [])
                else (case cap_fraction s of Holds x \<Rightarrow> x | _ \<Rightarrow> Finite (1 / 10),
                      case cap_min_rows s of Holds m \<Rightarrow> m | _ \<Rightarrow> 2000, cap_overrides s));
             lifted = (\<exists>e \<in> set entries. lifts sc nominated now e)
         in case verify_budget setting sc nominated active_rows now of
              None \<Rightarrow> floor_rows \<le> active_rows \<and> fraction = Not_finite
            | Some b \<Rightarrow>
                vb_queue b + vb_deferred b = nominated \<and> (if 0 < nominated then 0 < vb_queue b else vb_queue b = 0)
                \<and> (if active_rows < floor_rows then vb_queue b = nominated \<and> vb_cap b = None
                   else case fraction of
                          Not_finite \<Rightarrow> False
                        | Finite f \<Rightarrow>
                            vb_cap b = Some (share_cap f active_rows)
                            \<and> vb_queue b = (if lifted then nominated else min nominated (share_cap f active_rows))
                            \<and> (case vb_override b of
                                 None \<Rightarrow> \<not> lifted \<or> nominated \<le> share_cap f active_rows
                               | Some e \<Rightarrow> e \<in> set entries \<and> lifts sc nominated now e \<and> share_cap f active_rows < nominated))"
proof -
  obtain x m os where p: "parse_cap setting = (x, m, os)" by (cases "parse_cap setting")
  have given: "(case setting of
              None \<Rightarrow> (Finite (1 / 10), 2000, [])
            | Some s \<Rightarrow> if cap_fraction s = Broken \<or> cap_min_rows s = Broken then (Finite (1 / 10), 2000, [])
                else (case cap_fraction s of Holds x \<Rightarrow> x | _ \<Rightarrow> Finite (1 / 10),
                      case cap_min_rows s of Holds m \<Rightarrow> m | _ \<Rightarrow> 2000, cap_overrides s)) = (x, m, os)"
    unfolding p [symmetric] parse_cap_def DEFAULT_FRACTION_def DEFAULT_MIN_ROWS_def ..
  show ?thesis
  proof (cases "active_rows < m")
    case True
    then show ?thesis using assms by (simp add: given Let_def verify_budget_def p)
  next
    case low: False
    show ?thesis
    proof (cases x)
      case Not_finite
      then show ?thesis using low by (simp add: given Let_def verify_budget_def p cap_of_def)
    next
      case (Finite f)
      obtain b where b: "verify_budget setting sc nominated active_rows now = Some b"
        "vb_queue b + vb_deferred b = nominated" "vb_cap b = Some (share_cap f active_rows)"
        "vb_queue b = (if \<exists>e \<in> set os. lifts sc nominated now e then nominated else min nominated (share_cap f active_rows))"
        "case vb_override b of
         None \<Rightarrow> (\<forall>e \<in> set os. \<not> lifts sc nominated now e) \<or> nominated \<le> share_cap f active_rows
       | Some e \<Rightarrow> e \<in> set os \<and> lifts sc nominated now e \<and> share_cap f active_rows < nominated"
        using budget_at_cap [OF p [unfolded Finite] low, of sc nominated now] by blast
      have "if 0 < nominated then 0 < vb_queue b else vb_queue b = 0"
        using assms share_cap_pos [of f active_rows] by (auto simp: b(4))
      then show ?thesis using low b by (simp add: given Let_def Finite cong: option.case_cong)
    qed
  qed
qed

definition demo_scope :: scope where
  "demo_scope = \<lparr>sc_source = ''idnes'', sc_main = Some ''byt'', sc_type = Some ''prodej'', sc_subtype = None\<rparr>"

theorem verify_budget_witness:
  "case verify_budget None demo_scope 900 3000 0 of
     None \<Rightarrow> False | Some b \<Rightarrow> vb_queue b = 300 \<and> vb_deferred b = 600 \<and> vb_cap b = Some 300"
proof -
  have s: "share_cap (1 / 10) 3000 = 300" by code_simp
  have "case verify_budget None demo_scope 900 3000 0 of None \<Rightarrow> False | Some b \<Rightarrow> True" by code_simp
  then show ?thesis
    using verify_budget_correct [of 900 None demo_scope 0 3000]
    by (cases "verify_budget None demo_scope 900 3000 0") (simp_all add: s)
qed

text \<open>The observations that count, and the rule read off a prefix of them.\<close>

definition counted :: "int \<Rightarrow> (int \<times> string) list \<Rightarrow> string list" where
  "counted exempt os = map snd (filter (\<lambda>x. fst x \<noteq> exempt) os)"

definition too_many_gone :: "string list \<Rightarrow> bool" where
  "too_many_gone ks \<longleftrightarrow> MIN_SAMPLE \<le> length ks \<and> length ks < 2 * length (filter (\<lambda>k. k = ''gone'') ks)"

lemma observe_tripped: "tripped b \<Longrightarrow> observe_all os b = (replicate (length os) False, b)"
  by (induction os rule: list.induct) (auto simp: observe_def)

lemma half_share: "MAX_GONE_SHARE * of_nat n < of_nat m \<longleftrightarrow> n < 2 * m"
proof -
  have "MAX_GONE_SHARE * of_nat n < of_nat m \<longleftrightarrow> (of_nat n :: rat) < of_nat (2 * m)" by (auto simp: MAX_GONE_SHARE_def)
  then show ?thesis by (simp only: of_nat_less_iff)
qed

lemma observe_counted:
  assumes "ingest_fetched b = length ks" "ingest_gone b = length (filter (\<lambda>k. k = ''gone'') ks)" "\<not> tripped b" "p \<noteq> exempt_priority b"
  shows "observe p k b = (too_many_gone (ks @ [k]), b\<lparr>ingest_fetched := length (ks @ [k]),
     ingest_gone := length (filter (\<lambda>k. k = ''gone'') (ks @ [k])), tripped := too_many_gone (ks @ [k])\<rparr>)"
  using assms by (simp add: observe_def Let_def half_share too_many_gone_def)

lemma observe_run:
  assumes "ingest_fetched b = length ks" "ingest_gone b = length (filter (\<lambda>k. k = ''gone'') ks)" "\<not> tripped b" "\<not> too_many_gone ks"
  shows "tripped (snd (observe_all os b)) = (\<exists>n. too_many_gone (ks @ take n (counted (exempt_priority b) os)))
     \<and> length (filter id (fst (observe_all os b))) = (if tripped (snd (observe_all os b)) then 1 else 0)"
  using assms
proof (induction os arbitrary: b ks)
  case Nil
  then show ?case by (simp add: counted_def)
next
  case (Cons o_b os)
  obtain p k where o_b: "o_b = (p, k)" by (cases o_b)
  show ?case
  proof (cases "p = exempt_priority b")
    case True
    then have "observe_all (o_b # os) b = (False # fst (observe_all os b), snd (observe_all os b))"
      using o_b by (simp add: observe_def split_def)
    then show ?thesis using Cons.IH [OF Cons.prems] True o_b by (simp add: counted_def)
  next
    case False
    let ?ks = "ks @ [k]"
    define b1 where "b1 = b\<lparr>ingest_fetched := length ?ks, ingest_gone := length (filter (\<lambda>k. k = ''gone'') ?ks), tripped := too_many_gone ?ks\<rparr>"
    have fields: "ingest_fetched b1 = length ?ks" "ingest_gone b1 = length (filter (\<lambda>k. k = ''gone'') ?ks)"
      "tripped b1 = too_many_gone ?ks" "exempt_priority b1 = exempt_priority b" by (simp_all add: b1_def)
    have "observe p k b = (too_many_gone ?ks, b1)"
      unfolding b1_def by (rule observe_counted [OF Cons.prems(1-3) False])
    then have all: "observe_all (o_b # os) b = (too_many_gone ?ks # fst (observe_all os b1), snd (observe_all os b1))"
      using o_b by (simp add: split_def)
    have split: "(\<exists>n. too_many_gone (ks @ take n (counted (exempt_priority b) (o_b # os))))
        \<longleftrightarrow> (\<exists>n. too_many_gone (?ks @ take n (counted (exempt_priority b) os)))" (is "?L = ?R")
    proof
      assume ?L
      then obtain n where n: "too_many_gone (ks @ take n (k # counted (exempt_priority b) os))"
        using False o_b by (auto simp: counted_def)
      then obtain m where "n = Suc m" using Cons.prems(4) by (cases n) auto
      then show ?R using n by auto
    next
      assume ?R
      then obtain n where "too_many_gone (ks @ take (Suc n) (k # counted (exempt_priority b) os))" by auto
      then show ?L using False o_b by (intro exI [of _ "Suc n"]) (simp add: counted_def)
    qed
    show ?thesis
    proof (cases "too_many_gone ?ks")
      case True
      have "observe_all os b1 = (replicate (length os) False, b1)" by (rule observe_tripped) (simp add: fields True)
      moreover have "\<exists>n. too_many_gone (?ks @ take n (counted (exempt_priority b) os))" using True by (intro exI [of _ 0]) simp
      ultimately show ?thesis unfolding all split using True fields(3) by simp
    next
      case no: False
      note IH = Cons.IH [of b1 ?ks, OF fields(1,2) _ no, unfolded fields, OF no]
      have "filter id (fst (observe_all (o_b # os) b)) = filter id (fst (observe_all os b1))"
        "snd (observe_all (o_b # os) b) = snd (observe_all os b1)" unfolding all using no by simp_all
      then show ?thesis unfolding split using IH by (simp only:)
    qed
  qed
qed

text \<open>
  The breaker is what its rule says: after any observations it is tripped exactly when some prefix of
  the counted ones, those not at the exempt priority, held at least 20 and more than half of them read
  gone; and it answers \<open>True\<close> exactly once if it trips, never otherwise.
\<close>

theorem breaker_trips_once:
  "tripped (snd (observe_all os (new_breaker exempt))) = (\<exists>n. too_many_gone (take n (counted exempt os)))
   \<and> length (filter id (fst (observe_all os (new_breaker exempt)))) = (if tripped (snd (observe_all os (new_breaker exempt))) then 1 else 0)"
proof -
  have "\<not> too_many_gone []" by (simp add: too_many_gone_def MIN_SAMPLE_def)
  from observe_run [of "new_breaker exempt" "[]", OF _ _ _ this] show ?thesis by (simp add: new_breaker_def)
qed

end
