(* ===== verification/Decide.thy ===== *)
theory Decide
  imports Cluster
begin

text \<open>
  \<^verbatim>\<open>autodedup/decide.py\<close>: the decision of one pair, with the evidence families of
  \<^verbatim>\<open>autodedup/features.py\<close> and the census limbs of \<^verbatim>\<open>autodedup/hazard_context.py\<close>. A feature row is a
  dictionary of values with their presence flag. What is read off the two adverts' texts, paths and
  photographs (\<open>distinguishing_facts\<close>, \<open>promotion_warrant\<close>, the limbs of \<^verbatim>\<open>demonstrate.py\<close>), the parse of
  a time stamp and the trained model's probability are the fields of \<open>readers\<close>: the decision only asks
  them. Scores and features are rational. A set of families is the list of them, in the code's order.
\<close>

type_synonym feats = "(string, rat \<times> bool) dict"

record 'x listing =
  li_type :: "string option"
  li_main :: "string option"
  li_first_seen :: "string option"
  li_last_seen :: "string option"
  li_inactive :: "string option"
  li_rest :: 'x

record 'x readers =
  parse_ts :: "string \<Rightarrow> rat option"
  proba :: "feats \<Rightarrow> rat"
  designators :: "'x listing \<Rightarrow> string set"
  block_key :: "'x listing \<Rightarrow> string option"
  gate_facts :: "'x listing \<Rightarrow> 'x listing \<Rightarrow> feats \<Rightarrow> string list"
  promotion_warrant :: "'x listing \<Rightarrow> 'x listing \<Rightarrow> feats \<Rightarrow> string option"
  demonstration_shortfall :: "'x listing \<Rightarrow> 'x listing \<Rightarrow> (string \<times> string) option"
  strong_corroboration :: "'x listing \<Rightarrow> 'x listing \<Rightarrow> feats \<Rightarrow> string option"
  corroboration_warrant :: "'x listing \<Rightarrow> 'x listing \<Rightarrow> feats \<Rightarrow> string option"

record decide_settings =
  ds_guard :: guard_settings
  t_hi :: rat
  t_lo :: rat
  t_hi_by_stratum :: "(string, rat option) dict"
  min_evidence_families :: nat
  max_attr_contradictions :: rat
  live_window_from_sighting :: bool
  certificate_ka_enabled :: bool
  certificate_kr_enabled :: bool
  certificate_b_min_images :: rat
  certificate_b_min_matched_images :: rat
  certificate_b_min_gap_days :: rat
  unit_evidence_required :: bool
  unit_interior_min :: rat
  unit_rare_tokens_min :: rat
  unit_containment_min :: rat
  unit_rare_requires_support :: bool
  unit_rare_support_interior_min :: rat
  developer_signature_guard :: bool
  developer_signature_same_broker_only :: bool
  developer_catalog_ratio_min :: rat
  developer_colive_guard :: bool
  colive_overlap_days :: rat
  context_rule_enabled :: bool
  context_rule_min_score :: rat
  context_rule_containment_min :: rat
  context_rule_price_ratio_min :: rat
  context_rule_area_max :: rat
  context_rule_interior_min :: "rat option"
  context_rule_min_images :: rat
  context_rule_from_price_veto :: bool
  context_rule_block_min :: "int option"
  context_rule_image_population_min :: "int option"
  d43_gate :: bool
  d43_promote :: bool
  demonstrate_identity :: bool
  demonstrate_recover_missing :: bool
  merge_policy :: "(string, string) dict"

text \<open>The defaults of \<open>Settings\<close>.\<close>

definition default_decide_settings :: decide_settings where
  "default_decide_settings =
     \<lparr>ds_guard = default_guard_settings, t_hi = 97/100, t_lo = 30/100, t_hi_by_stratum = [], min_evidence_families = 2,
      max_attr_contradictions = 3, live_window_from_sighting = False, certificate_ka_enabled = False,
      certificate_kr_enabled = True, certificate_b_min_images = 0, certificate_b_min_matched_images = 0,
      certificate_b_min_gap_days = 0, unit_evidence_required = True, unit_interior_min = 50/100,
      unit_rare_tokens_min = 2, unit_containment_min = 90/100, unit_rare_requires_support = False,
      unit_rare_support_interior_min = 1/100, developer_signature_guard = True,
      developer_signature_same_broker_only = False, developer_catalog_ratio_min = 80/100,
      developer_colive_guard = True, colive_overlap_days = 30, context_rule_enabled = False,
      context_rule_min_score = 9999/10000, context_rule_containment_min = 90/100,
      context_rule_price_ratio_min = 995/1000, context_rule_area_max = 1/100, context_rule_interior_min = None,
      context_rule_min_images = 4, context_rule_from_price_veto = True, context_rule_block_min = None,
      context_rule_image_population_min = Some 10, d43_gate = False, d43_promote = False,
      demonstrate_identity = False, demonstrate_recover_missing = False, merge_policy = []\<rparr>"

text \<open>A \<open>Decision\<close> of the clustering, with what explains it.\<close>

record full_decision = decision +
  d_veto :: "string option"
  d_reason :: string
  d_evidence :: "(string, string) dict"

definition make_decision :: "int \<times> int \<Rightarrow> string \<Rightarrow> rat \<Rightarrow> string list \<Rightarrow> string option \<Rightarrow> string option \<Rightarrow> string
    \<Rightarrow> (string, string) dict \<Rightarrow> full_decision" where
  "make_decision p zone score families certificate veto reason evidence =
     \<lparr>d_lo = fst p, d_hi = snd p, d_score = score, d_certificate = certificate, d_zone = zone, d_families = families,
      d_veto = veto, d_reason = reason, d_evidence = evidence\<rparr>"

section \<open>Features\<close>

definition present_value :: "feats \<Rightarrow> string \<Rightarrow> rat option" where
  "present_value f name = (case map_of f name of Some (v, True) \<Rightarrow> Some v | _ \<Rightarrow> None)"

definition is_one :: "feats \<Rightarrow> string \<Rightarrow> bool" where
  "is_one f name \<longleftrightarrow> present_value f name = Some 1"

definition at_least :: "feats \<Rightarrow> string \<Rightarrow> rat \<Rightarrow> bool" where
  "at_least f name lo \<longleftrightarrow> (case present_value f name of None \<Rightarrow> False | Some v \<Rightarrow> lo \<le> v)"

definition at_most :: "feats \<Rightarrow> string \<Rightarrow> rat \<Rightarrow> bool" where
  "at_most f name hi \<longleftrightarrow> (case present_value f name of None \<Rightarrow> False | Some v \<Rightarrow> v \<le> hi)"

text \<open>A condition is a feature and its bounds; \<open>None\<close> above is \<^verbatim>\<open>math.inf\<close>.\<close>

type_synonym condition = "string \<times> rat \<times> rat option"

definition rule_holds :: "feats \<Rightarrow> condition list \<Rightarrow> bool" where
  "rule_holds f conditions \<longleftrightarrow> list_all (\<lambda>(name, lo, hi). case present_value f name of
     None \<Rightarrow> False | Some v \<Rightarrow> lo \<le> v \<and> (case hi of None \<Rightarrow> True | Some h \<Rightarrow> v \<le> h)) conditions"

definition EVIDENCE_RULES :: "(string \<times> condition list list) list" where
  "EVIDENCE_RULES =
    [(''IMG'', [[(''interior_match_ratio'', 1/100, None)],
                [(''phash_match_ratio'', 3/10, None), (''catalog_ratio_max'', 0, Some (2/10))],
                [(''phash_tight_matches'', 4, None), (''seq_monotone_ratio'', 8/10, None),
                 (''catalog_ratio_max'', 0, Some (2/10))],
                [(''clip_max_cos'', 95/100, None), (''catalog_ratio_max'', 0, Some (2/10))]]),
     (''TXT'', [[(''rare_token_overlap'', 2, None)],
                [(''numeric_fact_overlap'', 2, None)],
                [(''ref_code_shared'', 1, Some 1)]]),
     (''LOC'', [[(''same_ruian_adm_kod'', 1, Some 1)],
                [(''same_street_key'', 1, Some 1)],
                [(''same_house_number'', 1, Some 1)],
                [(''same_exact_pin'', 1, Some 1)],
                [(''dist_norm'', 0, Some 1)]]),
     (''BRK'', [[(''same_broker_identity'', 1, Some 1)],
                [(''same_broker_key'', 1, Some 1)]]),
     (''ATTR'', [[(''area_exact'', 1, Some 1)],
                 [(''area_rel_diff'', 0, Some (1/100))],
                 [(''area_rel_diff'', 0, Some (2/100)), (''dispo_equal'', 1, Some 1)],
                 [(''attr_agreements_rare'', 4, None)],
                 [(''plot_area_exact'', 1, Some 1)]])]"

definition evidence_families :: "feats \<Rightarrow> string list" where
  "evidence_families f = map fst (filter (\<lambda>(_, rules). list_ex (rule_holds f) rules) EVIDENCE_RULES)"

section \<open>Certificates\<close>

text \<open>\<^verbatim>\<open>a or b\<close> of two stamps: an empty string is false.\<close>

definition stamp_or :: "string option \<Rightarrow> string option \<Rightarrow> string option" where
  "stamp_or a b = (case a of Some (c # s) \<Rightarrow> a | _ \<Rightarrow> b)"

definition window_end_stamp :: "decide_settings \<Rightarrow> 'x listing \<Rightarrow> string option" where
  "window_end_stamp cfg l =
     (if live_window_from_sighting cfg then stamp_or (li_last_seen l) (li_inactive l)
      else stamp_or (li_inactive l) (li_last_seen l))"

text \<open>\<open>parse_ts\<close> reads an absent or empty stamp as no time.\<close>

definition day_of :: "'x readers \<Rightarrow> string option \<Rightarrow> rat option" where
  "day_of rd s = (case s of Some (c # cs) \<Rightarrow> parse_ts rd (c # cs) | _ \<Rightarrow> None)"

definition window_gap_days :: "'x readers \<Rightarrow> decide_settings \<Rightarrow> 'x listing \<Rightarrow> 'x listing \<Rightarrow> rat option" where
  "window_gap_days rd cfg a b =
     (case (day_of rd (li_first_seen a), day_of rd (li_first_seen b),
            day_of rd (window_end_stamp cfg a), day_of rd (window_end_stamp cfg b)) of
        (Some sa, Some sb, Some ea, Some eb) \<Rightarrow> Some (max sa sb - min ea eb)
      | _ \<Rightarrow> None)"

definition disjoint_windows :: "'x readers \<Rightarrow> decide_settings \<Rightarrow> 'x listing \<Rightarrow> 'x listing \<Rightarrow> bool" where
  "disjoint_windows rd cfg a b =
     (case window_gap_days rd cfg a b of None \<Rightarrow> False | Some gap \<Rightarrow> 0 < gap \<and> certificate_b_min_gap_days cfg \<le> gap)"

definition certificate_a :: "feats \<Rightarrow> bool" where
  "certificate_a f \<longleftrightarrow> is_one f ''same_ruian_adm_kod'' \<and> is_one f ''dispo_equal'' \<and> at_most f ''area_rel_diff'' (2/100)
     \<and> present_value f ''floor_diff'' \<in> {None, Some 0}"

definition certificate_b_image_floor :: "decide_settings \<Rightarrow> feats \<Rightarrow> bool" where
  "certificate_b_image_floor cfg f \<longleftrightarrow>
     (0 < certificate_b_min_images cfg \<longrightarrow> at_least f ''n_images_min'' (certificate_b_min_images cfg))
     \<and> (0 < certificate_b_min_matched_images cfg \<longrightarrow>
          at_least f ''phash_loose_matches'' (certificate_b_min_matched_images cfg))"

definition certificate_b :: "'x readers \<Rightarrow> decide_settings \<Rightarrow> 'x listing \<Rightarrow> 'x listing \<Rightarrow> feats \<Rightarrow> bool" where
  "certificate_b rd cfg a b f \<longleftrightarrow> is_one f ''same_source'' \<and> is_one f ''same_broker_key''
     \<and> at_least f ''containment_max'' (9/10) \<and> at_most f ''area_rel_diff'' (1/100)
     \<and> certificate_b_image_floor cfg f \<and> disjoint_windows rd cfg a b"

definition certificate_c :: "feats \<Rightarrow> bool" where
  "certificate_c f \<longleftrightarrow> at_least f ''phash_tight_matches'' 4 \<and> at_least f ''seq_monotone_ratio'' (8/10)
     \<and> at_most f ''area_rel_diff'' (3/100) \<and> is_one f ''dispo_equal'' \<and> at_most f ''catalog_ratio_max'' (2/10)"

definition certificate_r :: "feats \<Rightarrow> bool" where
  "certificate_r f \<longleftrightarrow> is_one f ''ref_code_shared''"

definition certificate_of :: "'x readers \<Rightarrow> decide_settings \<Rightarrow> 'x listing \<Rightarrow> 'x listing \<Rightarrow> feats \<Rightarrow> bool \<Rightarrow> string option" where
  "certificate_of rd cfg a b f kb_refused =
     (if certificate_kr_enabled cfg \<and> certificate_r f then Some ''K-R''
      else if certificate_ka_enabled cfg \<and> certificate_a f then Some ''K-A''
      else if \<not> kb_refused \<and> certificate_b rd cfg a b f then Some ''K-B''
      else if certificate_c f then Some ''K-C'' else None)"

section \<open>The gates before the merge zone\<close>

definition interior_arm :: "decide_settings \<Rightarrow> feats \<Rightarrow> bool" where
  "interior_arm cfg f \<longleftrightarrow> at_least f ''interior_match_ratio'' (unit_interior_min cfg) \<and> at_least f ''n_images_min'' 1"

definition repost_arm :: "decide_settings \<Rightarrow> feats \<Rightarrow> bool" where
  "repost_arm cfg f \<longleftrightarrow> is_one f ''same_source'' \<and> is_one f ''same_broker_key''
     \<and> at_least f ''containment_max'' (unit_containment_min cfg) \<and> present_value f ''overlap_days'' = Some 0"

definition unit_number_arm :: "feats \<Rightarrow> bool" where
  "unit_number_arm f \<longleftrightarrow> is_one f ''same_ruian_adm_kod'' \<and> present_value f ''floor_diff'' = Some 0
     \<and> is_one f ''unit_number_shared''"

definition rare_token_arm :: "decide_settings \<Rightarrow> feats \<Rightarrow> bool" where
  "rare_token_arm cfg f \<longleftrightarrow> at_least f ''rare_token_overlap'' (unit_rare_tokens_min cfg)
     \<and> (unit_rare_requires_support cfg \<longrightarrow>
          at_least f ''interior_match_ratio'' (unit_rare_support_interior_min cfg) \<and> at_least f ''n_images_min'' 1)"

definition unit_grade_evidence :: "decide_settings \<Rightarrow> feats \<Rightarrow> bool" where
  "unit_grade_evidence cfg f \<longleftrightarrow> interior_arm cfg f \<or> repost_arm cfg f \<or> unit_number_arm f \<or> certificate_r f"

definition unit_evidence :: "decide_settings \<Rightarrow> feats \<Rightarrow> bool" where
  "unit_evidence cfg f \<longleftrightarrow> unit_grade_evidence cfg f \<or> rare_token_arm cfg f"

definition exceeds :: "feats \<Rightarrow> string \<Rightarrow> rat \<Rightarrow> bool" where
  "exceeds f name lo \<longleftrightarrow> (case present_value f name of None \<Rightarrow> False | Some v \<Rightarrow> lo < v)"

definition developer_signature :: "decide_settings \<Rightarrow> feats \<Rightarrow> bool" where
  "developer_signature cfg f \<longleftrightarrow>
     (developer_signature_same_broker_only cfg \<longrightarrow> is_one f ''same_source'' \<and> is_one f ''same_broker_key'')
     \<and> exceeds f ''overlap_days'' 0 \<and> at_least f ''catalog_ratio_max'' (developer_catalog_ratio_min cfg)
     \<and> \<not> at_least f ''interior_match_ratio'' (unit_interior_min cfg)"

definition developer_colive :: "decide_settings \<Rightarrow> feats \<Rightarrow> bool" where
  "developer_colive cfg f \<longleftrightarrow> is_one f ''same_source'' \<and> is_one f ''same_broker_key''
     \<and> exceeds f ''overlap_days'' (colive_overlap_days cfg) \<and> \<not> is_one f ''unit_number_shared''"

definition stratum_key :: "feats \<Rightarrow> string option \<Rightarrow> string" where
  "stratum_key f certificate =
     (case certificate of Some (c # s) \<Rightarrow> c # s | _ \<Rightarrow> ''model'') @ ''|'' @ (if is_one f ''same_source'' then ''same'' else ''cross'')"

definition stratum_t_hi :: "decide_settings \<Rightarrow> feats \<Rightarrow> string option \<Rightarrow> rat option" where
  "stratum_t_hi cfg f certificate =
     (case map_of (t_hi_by_stratum cfg) (stratum_key f certificate) of None \<Rightarrow> Some (t_hi cfg) | Some bar \<Rightarrow> bar)"

definition auto_reject_reason :: "decide_settings \<Rightarrow> feats \<Rightarrow> string option" where
  "auto_reject_reason cfg f =
     (if at_least f ''attr_contradictions'' (max_attr_contradictions cfg) then Some ''attr_contradictions''
      else if is_one f ''numeral_conflict'' then Some ''numeral_conflict'' else None)"

definition merge_zone_block :: "decide_settings \<Rightarrow> feats \<Rightarrow> string option" where
  "merge_zone_block cfg f =
     (if developer_signature_guard cfg \<and> developer_signature cfg f then Some ''developer_signature''
      else if developer_colive_guard cfg \<and> developer_colive cfg f then Some ''developer_colive''
      else if unit_evidence_required cfg \<and> \<not> unit_evidence cfg f then Some ''unit_evidence_gate''
      else None)"

section \<open>The rule floor and the score\<close>

definition guard_name :: "guard_rule \<Rightarrow> string" where
  "guard_name g = (case g of Deal_type \<Rightarrow> ''category_type'' | Category \<Rightarrow> ''category_main'' | Area \<Rightarrow> ''area''
     | Disposition \<Rightarrow> ''disposition'' | Floor \<Rightarrow> ''floor'')"

definition UNIT_DESIGNATOR_VETO :: string where "UNIT_DESIGNATOR_VETO = ''unit_designator_conflict''"

text \<open>The pair below the rule floor: certified, or by its score.\<close>

definition decide_certified :: "decide_settings \<Rightarrow> feats \<Rightarrow> int \<times> int \<Rightarrow> rat \<Rightarrow> string \<Rightarrow> full_decision" where
  "decide_certified cfg f p score certificate =
     (let families = evidence_families f;
          answer = (\<lambda>zone note. make_decision p zone score families (Some certificate) None (''certificate:'' @ certificate @ note) [])
      in if stratum_t_hi cfg f (Some certificate) = None then answer ''band'' '':stratum_propose_only''
         else case merge_zone_block cfg f of
                Some blocked \<Rightarrow> answer ''band'' ('':'' @ blocked)
              | None \<Rightarrow> if min_evidence_families cfg \<le> length families then answer ''merge'' ''''
                        else answer ''band'' '':evidence_gate'')"

definition decide_scored :: "decide_settings \<Rightarrow> feats \<Rightarrow> int \<times> int \<Rightarrow> rat \<Rightarrow> full_decision" where
  "decide_scored cfg f p score =
     (let families = evidence_families f;
          answer = (\<lambda>zone reason. make_decision p zone score families None None reason [])
      in if (case stratum_t_hi cfg f None of None \<Rightarrow> False | Some bar \<Rightarrow> bar \<le> score)
         then case merge_zone_block cfg f of
                Some blocked \<Rightarrow> answer ''band'' blocked
              | None \<Rightarrow> if min_evidence_families cfg \<le> length families then answer ''merge'' ''model''
                        else answer ''band'' ''evidence_gate''
         else if t_lo cfg < score then answer ''band'' ''model'' else answer ''reject'' ''model'')"

definition decide_layers :: "'x readers \<Rightarrow> decide_settings \<Rightarrow> fingerprint \<Rightarrow> fingerprint \<Rightarrow> 'x listing \<Rightarrow> 'x listing \<Rightarrow> feats
    \<Rightarrow> bool \<Rightarrow> full_decision" where
  "decide_layers rd cfg fa fb la lb f kb_refused =
     (let p = (if fp_id fa < fp_id fb then (fp_id fa, fp_id fb) else (fp_id fb, fp_id fa))
      in case pair_veto (ds_guard cfg) fa fb of
           Some g \<Rightarrow> make_decision p ''veto'' 0 [] None (Some (guard_name g)) (''guard:'' @ guard_name g) []
         | None \<Rightarrow>
       case unit_designator_conflict (designators rd) (block_key rd) (Some (ds_guard cfg)) la lb of
           Some (x, y) \<Rightarrow> make_decision p ''veto'' 0 [] None (Some UNIT_DESIGNATOR_VETO) (''guard:'' @ UNIT_DESIGNATOR_VETO)
                            [(''unit_lo'', x), (''unit_hi'', y)]
         | None \<Rightarrow>
       case auto_reject_reason cfg f of
           Some why \<Rightarrow> make_decision p ''reject'' (proba rd f) (evidence_families f) None None (''auto_reject:'' @ why) []
         | None \<Rightarrow>
       case certificate_of rd cfg la lb f kb_refused of
           Some certificate \<Rightarrow> decide_certified cfg f p (proba rd f) certificate
         | None \<Rightarrow> decide_scored cfg f p (proba rd f))"


section \<open>The context rule\<close>

text \<open>The census a promotion is taken under (\<open>ContextStamp\<close> and \<open>PairContext\<close>).\<close>

record pair_context =
  cell_n_listings :: int
  shared_image_pop_min :: int
  from_price :: bool

definition to_evidence :: "pair_context \<Rightarrow> (string, string) dict" where
  "to_evidence c = [(''context_cell_n'', show_int (cell_n_listings c)),
                    (''context_image_pop_min'', show_int (shared_image_pop_min c))]"

definition fungible_catalogue :: "decide_settings \<Rightarrow> pair_context \<Rightarrow> string option" where
  "fungible_catalogue cfg c =
     (if context_rule_from_price_veto cfg \<and> from_price c then Some ''from_price''
      else if (case context_rule_block_min cfg of None \<Rightarrow> False | Some n \<Rightarrow> n \<le> cell_n_listings c) then Some ''catalogue_block''
      else if (case context_rule_image_population_min cfg of None \<Rightarrow> False | Some n \<Rightarrow> n \<le> shared_image_pop_min c)
           then Some ''stock_images'' else None)"

text \<open>\<^verbatim>\<open>{**base, **more}\<close>\<close>

definition dict_update :: "(string, string) dict \<Rightarrow> (string, string) dict \<Rightarrow> (string, string) dict" where
  "dict_update base added = fold (\<lambda>(k, v). AList.update k v) added base"

definition context_rule_warrant :: "decide_settings \<Rightarrow> feats \<Rightarrow> rat \<Rightarrow> string option" where
  "context_rule_warrant cfg f score =
     (if score < context_rule_min_score cfg then None
      else if \<not> at_most f ''area_rel_diff'' (context_rule_area_max cfg) then None
      else if \<not> at_least f ''price_last_ratio'' (context_rule_price_ratio_min cfg) then None
      else if at_least f ''containment_max'' (context_rule_containment_min cfg) then Some ''text''
      else case context_rule_interior_min cfg of
             None \<Rightarrow> None
           | Some lo \<Rightarrow> if at_least f ''interior_match_ratio'' lo \<and> at_least f ''n_images_min'' (context_rule_min_images cfg)
                        then Some ''interior'' else None)"

definition CONTEXT_RULE_NEVER_OVERRIDES :: "string list" where
  "CONTEXT_RULE_NEVER_OVERRIDES = [''developer_signature'', ''developer_colive'']"

definition context_rule_may_promote :: "string \<Rightarrow> bool" where
  "context_rule_may_promote reason \<longleftrightarrow> \<not> list_ex (\<lambda>name. occurs name reason) CONTEXT_RULE_NEVER_OVERRIDES"

definition census_limbs_configured :: "decide_settings \<Rightarrow> bool" where
  "census_limbs_configured cfg \<longleftrightarrow> context_rule_block_min cfg \<noteq> None \<or> context_rule_image_population_min cfg \<noteq> None"

text \<open>A decision moved to another zone keeps the pair, the score, the families and the certificate.\<close>

definition rezoned :: "string \<Rightarrow> string \<Rightarrow> (string, string) dict \<Rightarrow> full_decision \<Rightarrow> full_decision" where
  "rezoned zone reason evidence d = d\<lparr>d_zone := zone, d_veto := None, d_reason := reason, d_evidence := evidence\<rparr>"

text \<open>\<open>ctx\<close> is the pair's census, already read from an index when the caller has one.\<close>

definition apply_context_rule :: "decide_settings \<Rightarrow> feats \<Rightarrow> pair_context option \<Rightarrow> full_decision \<Rightarrow> full_decision" where
  "apply_context_rule cfg f ctx d =
     (if \<not> context_rule_enabled cfg \<or> d_zone d \<noteq> ''band'' \<or> \<not> context_rule_may_promote (d_reason d) then d
      else case context_rule_warrant cfg f (d_score d) of
             None \<Rightarrow> d
           | Some arm \<Rightarrow>
               (case ctx of
                  None \<Rightarrow> if census_limbs_configured cfg then d
                          else rezoned ''merge'' (''context_rule:'' @ arm) (d_evidence d) d
                | Some c \<Rightarrow>
                    (case fungible_catalogue cfg c of
                       Some refused \<Rightarrow> rezoned ''band'' (''context_rule:fungible:'' @ refused) (d_evidence d) d
                     | None \<Rightarrow> rezoned ''merge'' (''context_rule:'' @ arm) (dict_update (d_evidence d) (to_evidence c)) d)))"

section \<open>The facts that separate two adverts\<close>

text \<open>The readings that demonstrate an identity, as the promotion asks them: \<open>A:\<close> a key fact the adverts do
  not demonstrably agree on, \<open>B\<close> nothing corroborates them. A reading nobody states may be waived.\<close>

definition MISSING :: string where "MISSING = ''missing''"

definition demonstration_refusal :: "'x readers \<Rightarrow> decide_settings \<Rightarrow> 'x listing \<Rightarrow> 'x listing \<Rightarrow> feats \<Rightarrow> string option" where
  "demonstration_refusal rd cfg a b f =
     (if \<not> demonstrate_identity cfg then None
      else let uncorroborated = (if corroboration_warrant rd a b f = None then Some ''B'' else None)
           in case demonstration_shortfall rd a b of
                None \<Rightarrow> uncorroborated
              | Some (gap, kind) \<Rightarrow>
                  if demonstrate_recover_missing cfg \<and> kind = MISSING \<and> strong_corroboration rd a b f \<noteq> None
                  then uncorroborated else Some (''A:'' @ gap))"

text \<open>The names of the facts, joined by commas.\<close>

fun join_comma :: "string list \<Rightarrow> string" where
  "join_comma [] = []"
| "join_comma [s] = s"
| "join_comma (s # t # ss) = s @ '','' @ join_comma (t # ss)"

definition apply_d43_rule :: "'x readers \<Rightarrow> decide_settings \<Rightarrow> 'x listing \<Rightarrow> 'x listing \<Rightarrow> feats \<Rightarrow> full_decision
    \<Rightarrow> full_decision" where
  "apply_d43_rule rd cfg a b f d =
     (if d_zone d = ''merge'' \<and> d43_gate cfg
      then case gate_facts rd a b f of
             [] \<Rightarrow> d
           | n # ns \<Rightarrow> rezoned ''band'' (d_reason d @ '':d43_gate:'' @ n)
                         (AList.update ''d43_gate_facts'' (join_comma (n # ns)) (d_evidence d)) d
      else if d_zone d = ''band'' \<and> d43_promote cfg
      then case promotion_warrant rd a b f of
             None \<Rightarrow> d
           | Some w \<Rightarrow>
               (case demonstration_refusal rd cfg a b f of
                  Some refusal \<Rightarrow> rezoned ''band'' (d_reason d @ '':d43_demonstrate:'' @ refusal)
                                    (AList.update ''d43_demonstrate'' refusal (d_evidence d)) d
                | None \<Rightarrow> rezoned ''merge'' (''d43_promote:'' @ w) (AList.update ''d43_banded_as'' (d_reason d) (d_evidence d)) d)
      else d)"

section \<open>The operator's dial\<close>

text \<open>\<^verbatim>\<open>text or "*"\<close>, and a column printed in a format string.\<close>

definition or_star :: "string option \<Rightarrow> string" where
  "or_star s = (case s of Some (c # cs) \<Rightarrow> c # cs | _ \<Rightarrow> ''*'')"

definition show_column :: "string option \<Rightarrow> string" where
  "show_column s = (case s of None \<Rightarrow> ''None'' | Some t \<Rightarrow> t)"

definition merge_policy_cells :: "'x listing \<Rightarrow> string list" where
  "merge_policy_cells l =
     (let kind = or_star (li_type l); main = or_star (li_main l)
      in [kind @ ''|'' @ main, kind @ ''|*'', ''*|'' @ main, ''*|*''])"

definition merge_policy_verdict :: "decide_settings \<Rightarrow> 'x listing \<Rightarrow> string option" where
  "merge_policy_verdict cfg l =
     (case List.map_filter (map_of (merge_policy cfg)) (merge_policy_cells l) of [] \<Rightarrow> None | v # _ \<Rightarrow> Some v)"

definition apply_merge_policy :: "decide_settings \<Rightarrow> 'x listing \<Rightarrow> 'x listing \<Rightarrow> full_decision \<Rightarrow> full_decision" where
  "apply_merge_policy cfg a b d =
     (if merge_policy cfg = [] \<or> d_zone d \<noteq> ''merge'' then d
      else case filter (\<lambda>l. merge_policy_verdict cfg l = Some ''propose'') [a, b] of
             [] \<Rightarrow> d
           | l # _ \<Rightarrow> let cell = show_column (li_type l) @ ''|'' @ show_column (li_main l)
                      in rezoned ''band'' (d_reason d @ '':policy_hold:'' @ cell)
                           (AList.update ''policy_hold'' cell (d_evidence d)) d)"

definition decide_pair :: "'x readers \<Rightarrow> decide_settings \<Rightarrow> fingerprint \<Rightarrow> fingerprint \<Rightarrow> 'x listing \<Rightarrow> 'x listing \<Rightarrow> feats
    \<Rightarrow> pair_context option \<Rightarrow> bool \<Rightarrow> full_decision" where
  "decide_pair rd cfg fa fb a b f ctx kb_refused =
     apply_merge_policy cfg a b (apply_d43_rule rd cfg a b f
       (apply_context_rule cfg f ctx (decide_layers rd cfg fa fb a b f kb_refused)))"

end
