(* ===== verification/Decide_Laws.thy ===== *)
theory Decide_Laws
  imports Decide
begin

text \<open>
  The laws of \<open>Decide\<close>. The decision is composed of four passes over strings and evidence; each pass gets
  one lemma that says what it does to the zone, and together they refine \<open>zone_spec\<close>, which has no strings:
  in particular the test of the reason's text becomes the condition under which a developer guard was read.
  The safety properties are read off the refinement.
\<close>

section \<open>What the passes do to the zone\<close>

datatype zone = Vetoed | Rejected | Banded | Merged

definition zone_name :: "zone \<Rightarrow> string" where
  "zone_name z = (case z of Vetoed \<Rightarrow> ''veto'' | Rejected \<Rightarrow> ''reject'' | Banded \<Rightarrow> ''band'' | Merged \<Rightarrow> ''merge'')"

definition zone_rank :: "string \<Rightarrow> nat" where
  "zone_rank z = (if z = ''merge'' then 3 else if z = ''band'' then 2 else if z = ''reject'' then 1 else 0)"

lemma zone_name_simps [simp]:
  "zone_name Vetoed = ''veto''" "zone_name Rejected = ''reject''" "zone_name Banded = ''band''" "zone_name Merged = ''merge''"
  by (simp_all add: zone_name_def)

lemma zone_name_inj [simp]: "zone_name y = zone_name z \<longleftrightarrow> y = z"
  by (cases y; cases z; simp)

lemma zone_name_is [simp]:
  "zone_name z = ''merge'' \<longleftrightarrow> z = Merged" "zone_name z = ''band'' \<longleftrightarrow> z = Banded" "zone_name z = ''veto'' \<longleftrightarrow> z = Vetoed"
  by (cases z; simp)+

lemma make_decision_simps [simp]:
  "d_zone (make_decision p z s fs c v r e) = z" "d_reason (make_decision p z s fs c v r e) = r"
  "d_score (make_decision p z s fs c v r e) = s" "d_certificate (make_decision p z s fs c v r e) = c"
  "d_families (make_decision p z s fs c v r e) = fs" "d_veto (make_decision p z s fs c v r e) = v"
  "d_lo (make_decision p z s fs c v r e) = fst p" "d_hi (make_decision p z s fs c v r e) = snd p"
  by (simp_all add: make_decision_def)

lemma rezoned_simps [simp]:
  "d_zone (rezoned z r e d) = z" "d_reason (rezoned z r e d) = r" "d_score (rezoned z r e d) = d_score d"
  "d_certificate (rezoned z r e d) = d_certificate d" "d_families (rezoned z r e d) = d_families d"
  "d_veto (rezoned z r e d) = None" "d_lo (rezoned z r e d) = d_lo d" "d_hi (rezoned z r e d) = d_hi d"
  by (simp_all add: rezoned_def)

text \<open>Whether the warrant of the context rule carries the pair, and the census lets it.\<close>

definition context_carries :: "decide_settings \<Rightarrow> feats \<Rightarrow> pair_context option \<Rightarrow> rat \<Rightarrow> bool" where
  "context_carries cfg f ctx score \<longleftrightarrow> context_rule_enabled cfg \<and> context_rule_warrant cfg f score \<noteq> None
     \<and> (case ctx of None \<Rightarrow> \<not> census_limbs_configured cfg | Some c \<Rightarrow> fungible_catalogue cfg c = None)"

definition promotable :: "'x readers \<Rightarrow> decide_settings \<Rightarrow> 'x listing \<Rightarrow> 'x listing \<Rightarrow> feats \<Rightarrow> bool" where
  "promotable rd cfg a b f \<longleftrightarrow> d43_promote cfg \<and> promotion_warrant rd a b f \<noteq> None
     \<and> demonstration_refusal rd cfg a b f = None"

definition gated :: "'x readers \<Rightarrow> decide_settings \<Rightarrow> 'x listing \<Rightarrow> 'x listing \<Rightarrow> feats \<Rightarrow> bool" where
  "gated rd cfg a b f \<longleftrightarrow> d43_gate cfg \<and> gate_facts rd a b f \<noteq> []"

definition held :: "decide_settings \<Rightarrow> 'x listing \<Rightarrow> bool" where
  "held cfg l \<longleftrightarrow> merge_policy_verdict cfg l = Some ''propose''"

lemma context_zone:
  "d_zone (apply_context_rule cfg f ctx d)
     = (if d_zone d = ''band'' \<and> context_rule_may_promote (d_reason d) \<and> context_carries cfg f ctx (d_score d)
        then ''merge'' else d_zone d)"
  by (auto simp: apply_context_rule_def context_carries_def split: option.split)

lemma d43_zone:
  "d_zone (apply_d43_rule rd cfg a b f d)
     = (if d_zone d = ''merge'' \<and> gated rd cfg a b f then ''band''
        else if d_zone d = ''band'' \<and> promotable rd cfg a b f then ''merge'' else d_zone d)"
  by (auto simp: apply_d43_rule_def gated_def promotable_def split: option.split list.split)

lemma no_policy_no_verdict: "merge_policy cfg = [] \<Longrightarrow> merge_policy_verdict cfg l = None"
  by (simp add: merge_policy_verdict_def merge_policy_cells_def Let_def List.map_filter_simps)

lemma policy_zone:
  "d_zone (apply_merge_policy cfg a b d)
     = (if d_zone d = ''merge'' \<and> (held cfg a \<or> held cfg b) then ''band'' else d_zone d)"
  by (auto simp: apply_merge_policy_def held_def no_policy_no_verdict Let_def)

section \<open>The rule floor and the score\<close>

definition floor_clear :: "'x readers \<Rightarrow> decide_settings \<Rightarrow> fingerprint \<Rightarrow> fingerprint \<Rightarrow> 'x listing \<Rightarrow> 'x listing \<Rightarrow> bool" where
  "floor_clear rd cfg fa fb a b \<longleftrightarrow> pair_veto (ds_guard cfg) fa fb = None
     \<and> unit_designator_conflict (designators rd) (block_key rd) (Some (ds_guard cfg)) a b = None"

text \<open>The pair clears its stratum's cut, so the gates before the merge zone are read.\<close>

definition cleared :: "decide_settings \<Rightarrow> feats \<Rightarrow> string option \<Rightarrow> rat \<Rightarrow> bool" where
  "cleared cfg f certificate score \<longleftrightarrow> (case stratum_t_hi cfg f certificate of None \<Rightarrow> False
     | Some bar \<Rightarrow> certificate \<noteq> None \<or> bar \<le> score)"

definition diverse :: "decide_settings \<Rightarrow> feats \<Rightarrow> bool" where
  "diverse cfg f \<longleftrightarrow> min_evidence_families cfg \<le> length (evidence_families f)"

definition developer_shape :: "decide_settings \<Rightarrow> feats \<Rightarrow> bool" where
  "developer_shape cfg f \<longleftrightarrow> developer_signature_guard cfg \<and> developer_signature cfg f
     \<or> developer_colive_guard cfg \<and> developer_colive cfg f"

definition earned_zone :: "decide_settings \<Rightarrow> feats \<Rightarrow> string option \<Rightarrow> rat \<Rightarrow> zone" where
  "earned_zone cfg f certificate score =
     (if cleared cfg f certificate score
      then if merge_zone_block cfg f = None \<and> diverse cfg f then Merged else Banded
      else if certificate \<noteq> None \<or> t_lo cfg < score then Banded else Rejected)"

definition zone_spec :: "'x readers \<Rightarrow> decide_settings \<Rightarrow> fingerprint \<Rightarrow> fingerprint \<Rightarrow> 'x listing \<Rightarrow> 'x listing \<Rightarrow> feats
    \<Rightarrow> pair_context option \<Rightarrow> bool \<Rightarrow> zone" where
  "zone_spec rd cfg fa fb a b f ctx kb_refused =
     (if \<not> floor_clear rd cfg fa fb a b then Vetoed
      else if auto_reject_reason cfg f \<noteq> None then Rejected
      else let certificate = certificate_of rd cfg a b f kb_refused;
               score = proba rd f;
               earned = earned_zone cfg f certificate score;
               kept_out = cleared cfg f certificate score \<and> developer_shape cfg f;
               read = (if earned = Banded \<and> \<not> kept_out \<and> context_carries cfg f ctx score then Merged else earned);
               ruled = (if read = Merged \<and> gated rd cfg a b f then Banded
                        else if read = Banded \<and> promotable rd cfg a b f then Merged else read)
           in if ruled = Merged \<and> (held cfg a \<or> held cfg b) then Banded else ruled)"

lemma certificate_of_cases:
  assumes "certificate_of rd cfg a b f kb = Some c"
  shows "c = ''K-R'' \<or> c = ''K-A'' \<or> c = ''K-B'' \<or> c = ''K-C''"
  using assms by (simp add: certificate_of_def split: if_splits)

lemma merge_zone_block_cases:
  assumes "merge_zone_block cfg f = Some b"
  shows "if developer_shape cfg f then b = ''developer_signature'' \<or> b = ''developer_colive'' else b = ''unit_evidence_gate''"
  using assms by (auto simp: merge_zone_block_def developer_shape_def split: if_splits)

lemma merge_zone_block_none: "merge_zone_block cfg f = None \<Longrightarrow> \<not> developer_shape cfg f"
  by (auto simp: merge_zone_block_def developer_shape_def split: if_splits)

text \<open>The reasons a banded pair can have, and which of them the context rule may re-read.\<close>

lemma certified_reason_promotable:
  assumes "c = ''K-R'' \<or> c = ''K-A'' \<or> c = ''K-B'' \<or> c = ''K-C''"
  shows "\<not> context_rule_may_promote (''certificate:'' @ c @ '':developer_signature'')"
    and "\<not> context_rule_may_promote (''certificate:'' @ c @ '':developer_colive'')"
    and "context_rule_may_promote (''certificate:'' @ c @ '':unit_evidence_gate'')"
    and "context_rule_may_promote (''certificate:'' @ c @ '':evidence_gate'')"
    and "context_rule_may_promote (''certificate:'' @ c @ '':stratum_propose_only'')"
  using assms by (elim disjE; simp add: context_rule_may_promote_def CONTEXT_RULE_NEVER_OVERRIDES_def)+

lemma scored_reason_promotable:
  "\<not> context_rule_may_promote ''developer_signature''" "\<not> context_rule_may_promote ''developer_colive''"
  "context_rule_may_promote ''unit_evidence_gate''" "context_rule_may_promote ''evidence_gate''"
  "context_rule_may_promote ''model''"
  by (simp_all add: context_rule_may_promote_def CONTEXT_RULE_NEVER_OVERRIDES_def)

lemma certified_zone:
  assumes "certificate_of rd cfg a b f kb = Some c"
  shows "d_zone (decide_certified cfg f p score c) = zone_name (earned_zone cfg f (Some c) score)"
    and "d_zone (decide_certified cfg f p score c) = ''band''
          \<Longrightarrow> context_rule_may_promote (d_reason (decide_certified cfg f p score c))
                \<longleftrightarrow> \<not> (cleared cfg f (Some c) score \<and> developer_shape cfg f)"
    and "d_score (decide_certified cfg f p score c) = score"
proof -
  note names = certified_reason_promotable [OF certificate_of_cases [OF assms], simplified]
  note defs = decide_certified_def earned_zone_def cleared_def diverse_def Let_def
  show "d_zone (decide_certified cfg f p score c) = zone_name (earned_zone cfg f (Some c) score)"
    by (simp add: defs split: option.split)
  show "context_rule_may_promote (d_reason (decide_certified cfg f p score c))
          \<longleftrightarrow> \<not> (cleared cfg f (Some c) score \<and> developer_shape cfg f)"
    if "d_zone (decide_certified cfg f p score c) = ''band''"
  proof (cases "stratum_t_hi cfg f (Some c)")
    case None
    then show ?thesis by (simp add: defs names)
  next
    case (Some bar)
    show ?thesis
    proof (cases "merge_zone_block cfg f")
      case None
      with Some that show ?thesis by (auto simp: defs names merge_zone_block_none split: if_splits)
    next
      case (Some b)
      with \<open>stratum_t_hi cfg f (Some c) = Some bar\<close> merge_zone_block_cases [OF Some] show ?thesis
        by (auto simp: defs names split: if_splits)
    qed
  qed
  show "d_score (decide_certified cfg f p score c) = score"
    by (simp add: defs split: option.split)
qed

lemma scored_zone:
  "d_zone (decide_scored cfg f p score) = zone_name (earned_zone cfg f None score)"
  "d_zone (decide_scored cfg f p score) = ''band''
     \<Longrightarrow> context_rule_may_promote (d_reason (decide_scored cfg f p score))
           \<longleftrightarrow> \<not> (cleared cfg f None score \<and> developer_shape cfg f)"
  "d_score (decide_scored cfg f p score) = score"
proof -
  note defs = decide_scored_def earned_zone_def cleared_def diverse_def Let_def
  show "d_zone (decide_scored cfg f p score) = zone_name (earned_zone cfg f None score)"
    by (simp add: defs split: option.split)
  show "context_rule_may_promote (d_reason (decide_scored cfg f p score))
          \<longleftrightarrow> \<not> (cleared cfg f None score \<and> developer_shape cfg f)"
    if "d_zone (decide_scored cfg f p score) = ''band''"
  proof (cases "cleared cfg f None score")
    case False
    with that show ?thesis
      by (auto simp: decide_scored_def cleared_def Let_def scored_reason_promotable split: option.splits if_splits)
  next
    case True
    show ?thesis
    proof (cases "merge_zone_block cfg f")
      case None
      with True that show ?thesis
        by (auto simp: defs scored_reason_promotable merge_zone_block_none split: if_splits option.splits)
    next
      case (Some b)
      with True merge_zone_block_cases [OF Some] show ?thesis
        by (auto simp: defs scored_reason_promotable split: if_splits option.splits)
    qed
  qed
  show "d_score (decide_scored cfg f p score) = score"
    by (simp add: defs split: option.split)
qed

lemma layers_zone:
  "d_zone (decide_layers rd cfg fa fb a b f kb)
     = zone_name (if \<not> floor_clear rd cfg fa fb a b then Vetoed else if auto_reject_reason cfg f \<noteq> None then Rejected
                  else earned_zone cfg f (certificate_of rd cfg a b f kb) (proba rd f))"
  by (auto simp: decide_layers_def floor_clear_def Let_def certified_zone scored_zone split: option.split)

lemma layers_band:
  assumes "d_zone (decide_layers rd cfg fa fb a b f kb) = ''band''"
  shows "context_rule_may_promote (d_reason (decide_layers rd cfg fa fb a b f kb))
           \<longleftrightarrow> \<not> (cleared cfg f (certificate_of rd cfg a b f kb) (proba rd f) \<and> developer_shape cfg f)"
    and "d_score (decide_layers rd cfg fa fb a b f kb) = proba rd f"
  using assms
  by (auto simp: decide_layers_def Let_def certified_zone scored_zone split: option.splits)

lemma decide_zone:
  "d_zone (decide_pair rd cfg fa fb a b f ctx kb) = zone_name (zone_spec rd cfg fa fb a b f ctx kb)"
  using layers_zone [of rd cfg fa fb a b f kb] layers_band [of rd cfg fa fb a b f kb]
  by (auto simp: decide_pair_def policy_zone d43_zone context_zone zone_spec_def Let_def)

text \<open>What the three passes after the layers keep.\<close>

lemma passes_keep [simp]:
  "d_score (apply_context_rule cfg f ctx d) = d_score d" "d_score (apply_d43_rule rd cfg a b f d) = d_score d"
  "d_score (apply_merge_policy cfg a b d) = d_score d"
  "d_certificate (apply_context_rule cfg f ctx d) = d_certificate d"
  "d_certificate (apply_d43_rule rd cfg a b f d) = d_certificate d"
  "d_certificate (apply_merge_policy cfg a b d) = d_certificate d"
  "d_families (apply_context_rule cfg f ctx d) = d_families d"
  "d_families (apply_d43_rule rd cfg a b f d) = d_families d"
  "d_families (apply_merge_policy cfg a b d) = d_families d"
  "d_lo (apply_context_rule cfg f ctx d) = d_lo d" "d_lo (apply_d43_rule rd cfg a b f d) = d_lo d"
  "d_lo (apply_merge_policy cfg a b d) = d_lo d"
  "d_hi (apply_context_rule cfg f ctx d) = d_hi d" "d_hi (apply_d43_rule rd cfg a b f d) = d_hi d"
  "d_hi (apply_merge_policy cfg a b d) = d_hi d"
  by (auto simp: apply_context_rule_def apply_d43_rule_def apply_merge_policy_def Let_def
        split: option.split list.split)

text \<open>A veto or a rejection is left as it is.\<close>

lemma context_leaves: "d_zone d \<noteq> ''band'' \<Longrightarrow> apply_context_rule cfg f ctx d = d"
  by (simp add: apply_context_rule_def)

lemma d43_leaves: "d_zone d \<noteq> ''band'' \<Longrightarrow> d_zone d \<noteq> ''merge'' \<Longrightarrow> apply_d43_rule rd cfg a b f d = d"
  by (simp add: apply_d43_rule_def)

lemma policy_leaves: "d_zone d \<noteq> ''merge'' \<Longrightarrow> apply_merge_policy cfg a b d = d"
  by (simp add: apply_merge_policy_def)

lemma passes_leave:
  assumes "d_zone (decide_layers rd cfg fa fb a b f kb) \<noteq> ''band''" "d_zone (decide_layers rd cfg fa fb a b f kb) \<noteq> ''merge''"
  shows "decide_pair rd cfg fa fb a b f ctx kb = decide_layers rd cfg fa fb a b f kb"
  using assms by (simp add: decide_pair_def context_leaves d43_leaves policy_leaves)

text \<open>The fields the layers write.\<close>

lemma certified_fields [simp]:
  "d_certificate (decide_certified cfg f p score c) = Some c" "d_families (decide_certified cfg f p score c) = evidence_families f"
  "d_veto (decide_certified cfg f p score c) = None"
  "d_lo (decide_certified cfg f p score c) = fst p" "d_hi (decide_certified cfg f p score c) = snd p"
  by (simp_all add: decide_certified_def Let_def split: option.split)

lemma scored_fields [simp]:
  "d_certificate (decide_scored cfg f p score) = None" "d_families (decide_scored cfg f p score) = evidence_families f"
  "d_veto (decide_scored cfg f p score) = None"
  "d_lo (decide_scored cfg f p score) = fst p" "d_hi (decide_scored cfg f p score) = snd p"
  by (simp_all add: decide_scored_def Let_def split: option.split)

lemma layers_fields:
  "d_lo (decide_layers rd cfg fa fb a b f kb) = min (fp_id fa) (fp_id fb)"
  "d_hi (decide_layers rd cfg fa fb a b f kb) = max (fp_id fa) (fp_id fb)"
  "d_score (decide_layers rd cfg fa fb a b f kb) = (if floor_clear rd cfg fa fb a b then proba rd f else 0)"
  "d_families (decide_layers rd cfg fa fb a b f kb) = (if floor_clear rd cfg fa fb a b then evidence_families f else [])"
  "d_certificate (decide_layers rd cfg fa fb a b f kb)
     = (if floor_clear rd cfg fa fb a b \<and> auto_reject_reason cfg f = None then certificate_of rd cfg a b f kb else None)"
  "d_veto (decide_layers rd cfg fa fb a b f kb) = None \<longleftrightarrow> floor_clear rd cfg fa fb a b"
  by (auto simp: decide_layers_def floor_clear_def Let_def certified_zone scored_zone min_def max_def split: option.split)

text \<open>
  C5. The decision of a pair is the one of the specification without strings: vetoed by the rule floor,
  rejected by a contradiction, then merged, banded or rejected by its stratum's cut and the gates, and from
  there moved at most by the context rule, the facts and the operator's dial, in this order. In particular
  the test of the reason's text shuts the context rule out exactly of the pairs that cleared their cut and
  have a developer's shape. The decision names the pair in order, with the model's score and the evidence
  families, both blank under a veto.
\<close>

theorem decide_pair_refines:
  "(let d = decide_pair rd cfg fa fb a b f ctx kb_refused; clear = floor_clear rd cfg fa fb a b
    in d_zone d = zone_name (zone_spec rd cfg fa fb a b f ctx kb_refused)
       \<and> d_lo d = min (fp_id fa) (fp_id fb) \<and> d_hi d = max (fp_id fa) (fp_id fb)
       \<and> d_score d = (if clear then proba rd f else 0)
       \<and> d_families d = (if clear then evidence_families f else []))"
  by (simp add: Let_def decide_zone) (simp add: decide_pair_def layers_fields)

section \<open>What a merge rests on\<close>

text \<open>
  C6. A merged pair is vetoed by no guard and no unit designator, contradicted by no attribute and held by
  the operator's dial on neither side; and either it cleared its stratum's cut, every gate and the count of
  evidence families, or the context rule carries it and no developer guard kept it out, in both cases with
  no separating fact when the gate is on; or the promotion carries it and its demonstration is not refused.
\<close>

theorem merge_sound:
  assumes "d_zone (decide_pair rd cfg fa fb a b f ctx kb_refused) = ''merge''"
  shows "pair_veto (ds_guard cfg) fa fb = None
    \<and> unit_designator_conflict (designators rd) (block_key rd) (Some (ds_guard cfg)) a b = None
    \<and> auto_reject_reason cfg f = None
    \<and> merge_policy_verdict cfg a \<noteq> Some ''propose'' \<and> merge_policy_verdict cfg b \<noteq> Some ''propose''
    \<and> (let certificate = certificate_of rd cfg a b f kb_refused; score = proba rd f;
           no_fact = (d43_gate cfg \<longrightarrow> gate_facts rd a b f = [])
       in no_fact \<and> (\<exists>bar. stratum_t_hi cfg f certificate = Some bar \<and> (certificate \<noteq> None \<or> bar \<le> score))
             \<and> merge_zone_block cfg f = None \<and> min_evidence_families cfg \<le> length (evidence_families f)
          \<or> no_fact \<and> context_rule_enabled cfg \<and> context_rule_warrant cfg f score \<noteq> None
             \<and> \<not> (cleared cfg f certificate score \<and> developer_shape cfg f)
          \<or> d43_promote cfg \<and> promotion_warrant rd a b f \<noteq> None \<and> demonstration_refusal rd cfg a b f = None)"
proof -
  let ?c = "certificate_of rd cfg a b f kb_refused"
  from assms have merge: "zone_spec rd cfg fa fb a b f ctx kb_refused = Merged" by (simp add: decide_zone)
  then have floor: "floor_clear rd cfg fa fb a b" "auto_reject_reason cfg f = None" "\<not> held cfg a" "\<not> held cfg b"
    by (auto simp: zone_spec_def Let_def split: if_splits)
  from merge floor have "\<not> gated rd cfg a b f \<and> earned_zone cfg f ?c (proba rd f) = Merged
      \<or> \<not> gated rd cfg a b f \<and> context_carries cfg f ctx (proba rd f)
         \<and> \<not> (cleared cfg f ?c (proba rd f) \<and> developer_shape cfg f)
      \<or> promotable rd cfg a b f"
    by (auto simp: zone_spec_def Let_def split: if_splits)
  with floor show ?thesis
    by (auto simp: floor_clear_def held_def gated_def promotable_def context_carries_def earned_zone_def
          cleared_def diverse_def Let_def split: if_splits option.splits)
qed

section \<open>Withholding\<close>

text \<open>What the layers and the first passes read of the settings does not include \<open>demonstrate_identity\<close>.\<close>

lemma demonstrate_windows [simp]:
  "window_gap_days rd (cfg\<lparr>demonstrate_identity := x\<rparr>) a b = window_gap_days rd cfg a b"
proof -
  have "window_end_stamp (cfg\<lparr>demonstrate_identity := x\<rparr>) l = window_end_stamp cfg l" for l :: "'a listing"
    by (simp add: window_end_stamp_def)
  then show ?thesis by (simp add: window_gap_days_def)
qed

lemma demonstrate_unread [simp]:
  "certificate_of rd (cfg\<lparr>demonstrate_identity := x\<rparr>) a b f kb = certificate_of rd cfg a b f kb"
  "stratum_t_hi (cfg\<lparr>demonstrate_identity := x\<rparr>) f c = stratum_t_hi cfg f c"
  "merge_zone_block (cfg\<lparr>demonstrate_identity := x\<rparr>) f = merge_zone_block cfg f"
  "auto_reject_reason (cfg\<lparr>demonstrate_identity := x\<rparr>) f = auto_reject_reason cfg f"
  "context_rule_warrant (cfg\<lparr>demonstrate_identity := x\<rparr>) f q = context_rule_warrant cfg f q"
  "fungible_catalogue (cfg\<lparr>demonstrate_identity := x\<rparr>) ctx = fungible_catalogue cfg ctx"
  "merge_policy_verdict (cfg\<lparr>demonstrate_identity := x\<rparr>) a = merge_policy_verdict cfg a"
  by (simp_all add: certificate_of_def certificate_b_def certificate_b_image_floor_def disjoint_windows_def
      stratum_t_hi_def merge_zone_block_def developer_signature_def developer_colive_def unit_evidence_def
      unit_grade_evidence_def interior_arm_def repost_arm_def rare_token_arm_def auto_reject_reason_def
      context_rule_warrant_def fungible_catalogue_def merge_policy_verdict_def cong: if_cong option.case_cong)

lemma demonstrate_zones [simp]:
  "decide_certified (cfg\<lparr>demonstrate_identity := x\<rparr>) f p q c = decide_certified cfg f p q c"
  "decide_scored (cfg\<lparr>demonstrate_identity := x\<rparr>) f p q = decide_scored cfg f p q"
  by (simp_all add: decide_certified_def decide_scored_def Let_def cong: if_cong option.case_cong)

lemma demonstrate_passes [simp]:
  "decide_layers rd (cfg\<lparr>demonstrate_identity := x\<rparr>) fa fb a b f kb = decide_layers rd cfg fa fb a b f kb"
  "apply_context_rule (cfg\<lparr>demonstrate_identity := x\<rparr>) f ctx d = apply_context_rule cfg f ctx d"
  "apply_merge_policy (cfg\<lparr>demonstrate_identity := x\<rparr>) a b d = apply_merge_policy cfg a b d"
  by (simp_all add: decide_layers_def Let_def apply_context_rule_def census_limbs_configured_def
      apply_merge_policy_def cong: if_cong option.case_cong)

lemma undemonstrated [simp]: "demonstration_refusal rd (cfg\<lparr>demonstrate_identity := False\<rparr>) a b f = None"
  by (simp add: demonstration_refusal_def)

text \<open>
  C27. E159: asking promotions to demonstrate the identity only withholds merges. With \<open>demonstrate_identity\<close>
  on, a pair is decided as with it off, or it stays in the band because the promotion that would have
  merged it is refused.
\<close>

theorem demonstrate_only_withholds:
  "(let on = cfg\<lparr>demonstrate_identity := True\<rparr>; off = cfg\<lparr>demonstrate_identity := False\<rparr>;
        decided = (\<lambda>s. decide_pair rd s fa fb a b f ctx kb_refused)
    in decided on = decided off
       \<or> d_zone (decided on) = ''band'' \<and> promotion_warrant rd a b f \<noteq> None \<and> demonstration_refusal rd on a b f \<noteq> None)"
proof -
  let ?on = "cfg\<lparr>demonstrate_identity := True\<rparr>" and ?off = "cfg\<lparr>demonstrate_identity := False\<rparr>"
  let ?d = "apply_context_rule cfg f ctx (decide_layers rd cfg fa fb a b f kb_refused)"
  have "apply_d43_rule rd ?on a b f ?d = apply_d43_rule rd ?off a b f ?d
      \<or> d_zone (apply_d43_rule rd ?on a b f ?d) = ''band'' \<and> promotion_warrant rd a b f \<noteq> None
        \<and> demonstration_refusal rd ?on a b f \<noteq> None"
    by (auto simp: apply_d43_rule_def split: option.split list.split)
  then show ?thesis
    by (auto simp: decide_pair_def Let_def policy_leaves)
qed

text \<open>
  C28. Redeciding a pair with K-B withdrawn, as the family guard asks, answers with another certificate or
  none, and changes nothing of a pair that was not certified by K-B.
\<close>

theorem kb_withdrawn:
  "(let decided = decide_pair rd cfg fa fb a b f ctx
    in d_certificate (decided True) \<noteq> Some ''K-B''
       \<and> (d_certificate (decided False) = Some ''K-B'' \<or> decided True = decided False))"
proof -
  have withdrawn: "certificate_of rd cfg a b f True \<noteq> Some ''K-B''"
    by (auto simp: certificate_of_def)
  have same: "certificate_of rd cfg a b f False \<noteq> Some ''K-B''
      \<Longrightarrow> certificate_of rd cfg a b f True = certificate_of rd cfg a b f False"
    by (auto simp: certificate_of_def split: if_splits)
  have "d_certificate (decide_layers rd cfg fa fb a b f False) = Some ''K-B''
      \<or> decide_layers rd cfg fa fb a b f True = decide_layers rd cfg fa fb a b f False"
  proof (cases "certificate_of rd cfg a b f False = Some ''K-B''")
    case True
    then show ?thesis by (auto simp: layers_fields floor_clear_def decide_layers_def Let_def split: option.split)
  next
    case False
    then show ?thesis unfolding decide_layers_def same [OF False] by simp
  qed
  with withdrawn show ?thesis
    by (auto simp: Let_def decide_pair_def layers_fields)
qed

section \<open>The words of a decision\<close>

definition ZONES :: "string list" where "ZONES = [''merge'', ''band'', ''reject'', ''veto'']"
definition CERTIFICATES :: "string list" where "CERTIFICATES = [''K-A'', ''K-B'', ''K-C'', ''K-R'']"

definition decision_typed :: "full_decision \<Rightarrow> bool" where
  "decision_typed d \<longleftrightarrow> d_zone d \<in> set ZONES \<and> d_lo d \<le> d_hi d
     \<and> list_all (\<lambda>c. c \<in> set CERTIFICATES) (case d_certificate d of None \<Rightarrow> [] | Some c \<Rightarrow> [c])
     \<and> (d_veto d \<noteq> None \<longleftrightarrow> d_zone d = ''veto'')
     \<and> list_all (\<lambda>x. x \<in> {''IMG'', ''TXT'', ''LOC'', ''BRK'', ''ATTR''}) (d_families d) \<and> distinct (d_families d)"

lemma zone_name_in: "zone_name z \<in> set ZONES"
  by (cases z) (simp_all add: ZONES_def)

lemma evidence_families_typed:
  "set (evidence_families f) \<subseteq> {''IMG'', ''TXT'', ''LOC'', ''BRK'', ''ATTR''}" "distinct (evidence_families f)"
proof -
  have names: "map fst EVIDENCE_RULES = [''IMG'', ''TXT'', ''LOC'', ''BRK'', ''ATTR'']"
    by (simp add: EVIDENCE_RULES_def)
  have "set (evidence_families f) \<subseteq> set (map fst EVIDENCE_RULES)"
    by (auto simp: evidence_families_def)
  then show "set (evidence_families f) \<subseteq> {''IMG'', ''TXT'', ''LOC'', ''BRK'', ''ATTR''}"
    by (simp only: names) simp
  have "distinct (map fst EVIDENCE_RULES)" by (simp only: names) simp
  then show "distinct (evidence_families f)"
    unfolding evidence_families_def by (rule distinct_map_filter)
qed

lemma passes_veto:
  assumes "d_veto d = None"
  shows "d_veto (apply_merge_policy cfg a b (apply_d43_rule rd cfg a b f (apply_context_rule cfg f ctx d))) = None"
proof -
  have "d_veto (apply_context_rule cfg f ctx d) = None"
    using assms by (simp add: apply_context_rule_def split: option.split)
  then have "d_veto (apply_d43_rule rd cfg a b f (apply_context_rule cfg f ctx d)) = None"
    by (simp add: apply_d43_rule_def split: option.split list.split)
  then show ?thesis
    by (simp add: apply_merge_policy_def Let_def split: list.split)
qed

lemma decide_pair_veto:
  "d_veto (decide_pair rd cfg fa fb a b f ctx kb) = None \<longleftrightarrow> floor_clear rd cfg fa fb a b"
proof (cases "floor_clear rd cfg fa fb a b")
  case True
  then show ?thesis by (simp add: decide_pair_def passes_veto layers_fields)
next
  case False
  then have "decide_pair rd cfg fa fb a b f ctx kb = decide_layers rd cfg fa fb a b f kb"
    by (intro passes_leave) (simp_all add: layers_zone)
  with False show ?thesis by (simp add: layers_fields)
qed

lemma certificate_of_typed: "case certificate_of rd cfg a b f kb of None \<Rightarrow> True | Some c \<Rightarrow> c \<in> set CERTIFICATES"
  using certificate_of_cases [of rd cfg a b f kb] by (auto simp: CERTIFICATES_def split: option.split)

lemma spec_vetoed: "zone_spec rd cfg fa fb a b f ctx kb = Vetoed \<longleftrightarrow> \<not> floor_clear rd cfg fa fb a b"
  by (auto simp: zone_spec_def earned_zone_def Let_def split: if_splits)

text \<open>
  C30. Every decision is well typed: its zone and its certificate are of the program's words, the pair is in
  order, the families are distinct and of the five, and a veto is named exactly in the veto zone.
\<close>

theorem decide_pair_typed: "decision_typed (decide_pair rd cfg fa fb a b f ctx kb_refused)"
proof -
  let ?d = "decide_pair rd cfg fa fb a b f ctx kb_refused"
  have fields: "d_certificate ?d = d_certificate (decide_layers rd cfg fa fb a b f kb_refused)"
    "d_families ?d = d_families (decide_layers rd cfg fa fb a b f kb_refused)"
    "d_lo ?d = min (fp_id fa) (fp_id fb)" "d_hi ?d = max (fp_id fa) (fp_id fb)"
    by (simp_all add: decide_pair_def layers_fields)
  have "d_veto ?d \<noteq> None \<longleftrightarrow> d_zone ?d = ''veto''"
    by (simp add: decide_pair_veto decide_zone spec_vetoed)
  moreover have "list_all (\<lambda>c. c \<in> set CERTIFICATES) (case d_certificate ?d of None \<Rightarrow> [] | Some c \<Rightarrow> [c])"
    using certificate_of_typed [of rd cfg a b f kb_refused] by (auto simp: fields layers_fields split: option.splits)
  moreover have "list_all (\<lambda>x. x \<in> {''IMG'', ''TXT'', ''LOC'', ''BRK'', ''ATTR''}) (d_families ?d)"
    using evidence_families_typed(1) [of f] by (auto simp: fields layers_fields list_all_iff)
  moreover have "distinct (d_families ?d)"
    using evidence_families_typed(2) [of f] by (simp add: fields layers_fields)
  ultimately show ?thesis
    using zone_name_in by (simp add: decision_typed_def decide_zone fields(3,4))
qed

section \<open>The score\<close>

text \<open>
  In the rule floor and the score a better score never lowers the zone: a model whose probability for the
  pair is at least as high rejects no pair the other bands and bands no pair the other merges.
\<close>

theorem layers_score_monotone:
  "zone_rank (d_zone (decide_layers rd cfg fa fb a b f kb_refused))
     \<le> zone_rank (d_zone (decide_layers (rd\<lparr>proba := \<lambda>g. max (proba rd g) (better g)\<rparr>) cfg fa fb a b f kb_refused))"
proof -
  let ?rd = "rd\<lparr>proba := \<lambda>g. max (proba rd g) (better g)\<rparr>"
  have same: "certificate_of ?rd cfg a b f kb_refused = certificate_of rd cfg a b f kb_refused"
    "floor_clear ?rd cfg fa fb a b = floor_clear rd cfg fa fb a b"
    by (simp_all add: certificate_of_def certificate_b_def disjoint_windows_def window_gap_days_def day_of_def
        floor_clear_def cong: option.case_cong list.case_cong)
  have "cleared cfg f c q \<Longrightarrow> cleared cfg f c (max q r)" for c q r
    by (auto simp: cleared_def split: option.splits)
  then have "zone_rank (zone_name (earned_zone cfg f c q)) \<le> zone_rank (zone_name (earned_zone cfg f c (max q r)))" for c q r
    by (auto simp: earned_zone_def zone_rank_def)
  then show ?thesis
    by (simp add: layers_zone same)
qed

section \<open>The developer guards and the context rule\<close>

text \<open>
  C29. A stratum that ships propose-only is banded before the gates are read, so the reason does not name a
  developer guard, and the context rule promotes the pair although it has the very shape the rule says it
  never overrules.
\<close>

theorem developer_shape_promoted:
  assumes "floor_clear rd cfg fa fb a b" "auto_reject_reason cfg f = None"
    and "stratum_t_hi cfg f (certificate_of rd cfg a b f kb_refused) = None"
    and "certificate_of rd cfg a b f kb_refused \<noteq> None \<or> t_lo cfg < proba rd f"
    and "developer_shape cfg f" "context_carries cfg f ctx (proba rd f)"
    and "\<not> gated rd cfg a b f" "\<not> held cfg a" "\<not> held cfg b"
  shows "d_zone (decide_pair rd cfg fa fb a b f ctx kb_refused) = ''merge''"
  using assms by (auto simp: decide_zone zone_spec_def earned_zone_def cleared_def Let_def)

section \<open>Examples\<close>

definition ex_readers :: "rat \<Rightarrow> unit readers" where
  "ex_readers score = \<lparr>parse_ts = (\<lambda>_. None), proba = (\<lambda>_. score), designators = (\<lambda>_. {}), block_key = (\<lambda>_. None),
     gate_facts = (\<lambda>_ _ _. []), promotion_warrant = (\<lambda>_ _ _. None), demonstration_shortfall = (\<lambda>_ _. None),
     strong_corroboration = (\<lambda>_ _ _. None), corroboration_warrant = (\<lambda>_ _ _. None)\<rparr>"

definition ex_side :: "int \<Rightarrow> fingerprint" where
  "ex_side i = \<lparr>fp_id = i, fp_type = Some ''prodej'', fp_main = Some ''byt'', fp_area = Some 54, fp_disposition = Some ''2+kk'',
     fp_floor = Some 3\<rparr>"

definition ex_listing :: "unit listing" where
  "ex_listing = \<lparr>li_type = Some ''prodej'', li_main = Some ''byt'', li_first_seen = None, li_last_seen = None,
     li_inactive = None, li_rest = ()\<rparr>"

text \<open>One order code and one size; and one text, price and size beside a shared catalogue.\<close>

definition ex_order :: feats where
  "ex_order = [(''ref_code_shared'', 1, True), (''area_exact'', 1, True)]"

definition ex_catalogue :: feats where
  "ex_catalogue = [(''overlap_days'', 10, True), (''catalog_ratio_max'', 9/10, True), (''area_rel_diff'', 0, True),
     (''price_last_ratio'', 1, True), (''containment_max'', 95/100, True)]"

definition ex_propose_only :: decide_settings where
  "ex_propose_only = default_decide_settings\<lparr>context_rule_enabled := True, t_hi_by_stratum := [(''model|cross'', None)]\<rparr>"

definition ex_census :: pair_context where
  "ex_census = \<lparr>cell_n_listings = 3, shared_image_pop_min = 2, from_price = False\<rparr>"

lemma ex_order_merges:
  "d_zone (decide_pair (ex_readers (1/2)) default_decide_settings (ex_side 1) (ex_side 2) ex_listing ex_listing ex_order None False)
     = ''merge''"
  by code_simp

lemma merge_sound_witness:
  "pair_veto default_guard_settings (ex_side 1) (ex_side 2) = None \<and> auto_reject_reason default_decide_settings ex_order = None
     \<and> merge_policy_verdict default_decide_settings ex_listing \<noteq> Some ''propose''"
  using merge_sound [OF ex_order_merges] by (simp add: default_decide_settings_def)

lemma ex_promoted:
  "floor_clear (ex_readers 1) ex_propose_only (ex_side 1) (ex_side 2) ex_listing ex_listing"
  "auto_reject_reason ex_propose_only ex_catalogue = None"
  "certificate_of (ex_readers 1) ex_propose_only ex_listing ex_listing ex_catalogue False = None"
  "stratum_t_hi ex_propose_only ex_catalogue None = None" "t_lo ex_propose_only < proba (ex_readers 1) ex_catalogue"
  "developer_shape ex_propose_only ex_catalogue"
  "context_carries ex_propose_only ex_catalogue (Some ex_census) (proba (ex_readers 1) ex_catalogue)"
  "\<not> gated (ex_readers 1) ex_propose_only ex_listing ex_listing ex_catalogue" "\<not> held ex_propose_only ex_listing"
  by code_simp+

lemma developer_shape_promoted_witness:
  "developer_signature ex_propose_only ex_catalogue
   \<and> d_zone (decide_pair (ex_readers 1) ex_propose_only (ex_side 1) (ex_side 2) ex_listing ex_listing ex_catalogue
               (Some ex_census) False) = ''merge''"
  using developer_shape_promoted [of "ex_readers 1" ex_propose_only "ex_side 1" "ex_side 2" ex_listing ex_listing
      ex_catalogue False "Some ex_census"] ex_promoted
  by simp code_simp

end
