(* ===== verification/Cluster_Local.thy ===== *)
theory Cluster_Local
  imports Cluster_Repartition
begin

text \<open>
  The clustering is local: on a set of adverts that no merge edge and no readable ruling leaves, it does
  what it does on those adverts alone. This is what \<^verbatim>\<open>incremental._recluster\<close> rests on (E72), which clusters
  the touched components and leaves the rest. Everything a pass reads of the vetoes, the fact relation and
  the closures it reads at the members of the groups it joins, so the two runs may disagree elsewhere.
\<close>

section \<open>What the invariants read\<close>

text \<open>Two relations that read the same bodies, with closures that agree on \<open>C\<close>.\<close>

definition same_relation :: "int set \<Rightarrow> ('l, 'f) relation option \<Rightarrow> ('l, 'f) relation option \<Rightarrow> bool" where
  "same_relation C rel rel' \<longleftrightarrow> (case (rel, rel') of (None, None) \<Rightarrow> True
     | (Some r, Some r') \<Rightarrow> rel_settings r' = rel_settings r \<and> rel_mode r' = rel_mode r
         \<and> (\<forall>a \<in> C. rel_listings r' a = rel_listings r a \<and> rel_closure_of r' a = rel_closure_of r a)
         \<and> (\<forall>a \<in> C. \<forall>b \<in> C. rel_feats r' (a, b) = rel_feats r (a, b) \<and> rel_certificates r' (a, b) = rel_certificates r (a, b))
     | _ \<Rightarrow> False)"

definition agree :: "int set \<Rightarrow> ('l, 'f) rules \<Rightarrow> ('l, 'f) rules \<Rightarrow> bool" where
  "agree C = (\<lambda>(rd, fps, cfg, mnl, rel, closure) (rd', fps', cfg', mnl', rel', closure').
     rd' = rd \<and> cfg' = cfg \<and> (\<forall>a \<in> C. fps' a = fps a) \<and> (\<forall>a \<in> C. \<forall>b \<in> C. (a, b) \<in> mnl' \<longleftrightarrow> (a, b) \<in> mnl)
     \<and> same_relation C rel rel' \<and> (\<forall>a \<in> C. closure' a = closure a))"

lemma same_closure_cong:
  "closure' a = closure a \<Longrightarrow> closure' b = closure b \<Longrightarrow> same_closure a b closure' = same_closure a b closure"
  by (simp add: same_closure_def)

lemma apart_cong:
  assumes "\<forall>p \<in> set vals. closure' (fst p) = closure (fst p)"
  shows "apart vals closure' far = apart vals closure far"
proof -
  have keys: "closure_keys closure' vals = closure_keys closure vals"
    unfolding closure_keys_def using assms by (intro map_cong filter_cong) auto
  have "same_closure (fst p) (fst q) closure' = same_closure (fst p) (fst q) closure"
    if "(p, q) \<in> set (pairs_of vals)" for p q
    using pairs_of_memD [OF that] assms by (intro same_closure_cong) auto
  then have "(\<exists>(p, q) \<in> set (pairs_of vals). \<not> same_closure (fst p) (fst q) closure' \<and> far (snd p) (snd q))
      = (\<exists>(p, q) \<in> set (pairs_of vals). \<not> same_closure (fst p) (fst q) closure \<and> far (snd p) (snd q))"
    by fast
  then show ?thesis unfolding apart_def keys by simp
qed

lemma rel_ok_cong:
  assumes "same_relation C (Some r) (Some r')" and "a \<in> C" "b \<in> C"
  shows "rel_ok rd r' a b = rel_ok rd r a b"
proof -
  obtain x y where key: "pair_key a b = (x, y)" "x \<in> C" "y \<in> C"
    using assms(2,3) by (cases "pair_key a b") (auto simp: pair_key_def split: if_splits)
  have "verdict rd r' (x, y) = verdict rd r (x, y)"
    using assms(1) key by (auto simp: verdict_def same_relation_def fun_eq_iff)
  then show ?thesis
    using assms key
    by (auto simp: same_relation_def rel_ok_def ok_step_def empty_memo_def Let_def split: option.split)
qed

lemma violating_pair_cong:
  assumes "same_relation C (Some r) (Some r')" and "set ids \<subseteq> C"
  shows "violating_pair rd r' ids = violating_pair rd r ids"
proof -
  have "find (\<lambda>p. \<not> rel_ok rd r' (fst p) (snd p)) (pairs_of (sort ids))
      = find (\<lambda>p. \<not> rel_ok rd r (fst p) (snd p)) (pairs_of (sort ids))"
  proof (rule find_cong [OF refl])
    fix p assume "p \<in> set (pairs_of (sort ids))"
    then have "fst p \<in> C" "snd p \<in> C" using pairs_of_memD [of "fst p" "snd p" "sort ids"] assms(2) by auto
    then show "(\<not> rel_ok rd r' (fst p) (snd p)) = (\<not> rel_ok rd r (fst p) (snd p))"
      using rel_ok_cong [OF assms(1)] by blast
  qed
  then show ?thesis by (simp add: violating_pair_find)
qed

lemma refusing_pair_cong:
  assumes "same_relation C rel rel'" and "set ids \<subseteq> C"
  shows "refusing_pair rd reason rel' ids = refusing_pair rd reason rel ids"
  using assms violating_pair_cong [of C _ _ ids]
  by (auto simp: refusing_pair_def same_relation_def split: option.splits)

lemma fps_of_cong: "\<forall>a \<in> set ms. fps' a = fps a \<Longrightarrow> fps_of fps' ms = fps_of fps ms"
  by (induction ms) (auto simp: fps_of_def)

lemma invariants_cong:
  assumes ids: "fp_id ` set ms \<subseteq> C" and mnl: "\<forall>a \<in> C. \<forall>b \<in> C. (a, b) \<in> mnl' \<longleftrightarrow> (a, b) \<in> mnl"
    and rel: "same_relation C rel rel'" and closure: "\<forall>a \<in> C. closure' a = closure a"
  shows "cluster_invariants_ok rd ms cfg mnl' rel' closure' = cluster_invariants_ok rd ms cfg mnl rel closure"
proof -
  have st: "\<forall>p \<in> set (stated f ms). closure' (fst p) = closure (fst p)" for f :: "fingerprint \<Rightarrow> 'v option"
    using stated_ids [of _ _ ms] ids closure by (auto simp: stated_def)
  have sz: "\<forall>p \<in> set (sized ms). closure' (fst p) = closure (fst p)"
    using st [of fp_area] by (auto simp: sized_def)
  have printed: "spread_is_printed_one rd ms cfg r' closure' = spread_is_printed_one rd ms cfg r closure"
    if "same_relation C (Some r) (Some r')" for r r'
  proof -
    have ids': "fst p \<in> C" if "p \<in> set (sized ms)" for p
      using that stated_ids [of p fp_area ms] ids by (auto simp: sized_def)
    have r': "rel_listings r' (fst p) = rel_listings r (fst p) \<and> rel_listings r' (fst q) = rel_listings r (fst q)"
      if "(p, q) \<in> set (pairs_of (sized ms))" for p q
      using pairs_of_memD [OF that] ids' \<open>same_relation C (Some r) (Some r')\<close> by (auto simp: same_relation_def)
    have "same_closure (fst p) (fst q) closure' = same_closure (fst p) (fst q) closure"
      if "(p, q) \<in> set (pairs_of (sized ms))" for p q
      using pairs_of_memD [OF that] sz by (intro same_closure_cong) auto
    with r' show ?thesis unfolding spread_is_printed_one_def by (intro ball_cong refl) (auto cong: option.case_cong)
  qed
  have m: "(\<exists>(a, b) \<in> set (pairs_of (map fp_id ms)). pair_key a b \<in> mnl')
      = (\<exists>(a, b) \<in> set (pairs_of (map fp_id ms)). pair_key a b \<in> mnl)"
  proof -
    have "pair_key a b \<in> mnl' \<longleftrightarrow> pair_key a b \<in> mnl" if "(a, b) \<in> set (pairs_of (map fp_id ms))" for a b
      using pairs_of_memD [OF that] ids mnl by (auto simp: pair_key_def)
    then show ?thesis by fast
  qed
  have p: "(case rel' of None \<Rightarrow> False | Some r \<Rightarrow> spread_is_printed_one rd ms cfg r closure')
      = (case rel of None \<Rightarrow> False | Some r \<Rightarrow> spread_is_printed_one rd ms cfg r closure)"
    using rel printed by (cases rel; cases rel') (auto simp: same_relation_def)
  have v: "(case rel' of None \<Rightarrow> False | Some r \<Rightarrow> violating_pair rd r (map fp_id ms) \<noteq> None)
      = (case rel of None \<Rightarrow> False | Some r \<Rightarrow> violating_pair rd r (map fp_id ms) \<noteq> None)"
  proof (cases "\<exists>r r'. rel = Some r \<and> rel' = Some r'")
    case True
    then show ?thesis using rel violating_pair_cong [of C] ids by fastforce
  next
    case False
    then show ?thesis using rel by (auto simp: same_relation_def split: option.splits)
  qed
  show ?thesis
    unfolding cluster_invariants_ok_def apart_cong [OF sz] apart_cong [OF st] m p v ..
qed

section \<open>The equivalence of edges that stay on one side\<close>

definition one_side :: "int set \<Rightarrow> (int \<times> int) set \<Rightarrow> bool" where
  "one_side C E \<longleftrightarrow> (\<forall>(x, y) \<in> E. x \<in> C \<longleftrightarrow> y \<in> C)"

lemma one_side_Un [simp]: "one_side C (E \<union> F) \<longleftrightarrow> one_side C E \<and> one_side C F"
  by (auto simp: one_side_def)

lemma one_side_insert [simp]: "one_side C (insert (x, y) E) \<longleftrightarrow> (x \<in> C \<longleftrightarrow> y \<in> C) \<and> one_side C E"
  by (simp add: one_side_def)

lemma one_side_empty [simp]: "one_side C {}"
  by (simp add: one_side_def)

lemma one_sideD: "one_side C E \<Longrightarrow> (x, y) \<in> E \<Longrightarrow> x \<in> C \<longleftrightarrow> y \<in> C"
  by (auto simp: one_side_def)

lemma one_side_path:
  assumes "one_side C E" and "(x, y) \<in> (E \<union> E\<inverse>)\<^sup>*" and "x \<in> C"
  shows "y \<in> C \<and> (x, y) \<in> (E \<inter> C \<times> C \<union> (E \<inter> C \<times> C)\<inverse>)\<^sup>*"
  using assms(2)
proof (induction rule: rtrancl_induct)
  case (step y z)
  then have "z \<in> C" using one_sideD [OF assms(1)] by auto
  with step have "(y, z) \<in> E \<inter> C \<times> C \<union> (E \<inter> C \<times> C)\<inverse>" by auto
  with step \<open>z \<in> C\<close> show ?case by (meson rtrancl.rtrancl_into_rtrancl)
qed (use assms(3) in simp)

lemma eqc_one_side:
  assumes "one_side C E"
  shows "one_side C (eqc K E)" and "eqc K E \<inter> C \<times> C = eqc (K \<inter> C) (E \<inter> C \<times> C)"
proof -
  have "y \<in> C" if "(x, y) \<in> eqc K E" "x \<in> C" for x y
    using one_side_path [OF assms] that by (auto simp: eqc_def)
  then show "one_side C (eqc K E)" using eqc_sym by (fastforce simp: one_side_def)
  have "(E \<inter> C \<times> C \<union> (E \<inter> C \<times> C)\<inverse>)\<^sup>* \<subseteq> (E \<union> E\<inverse>)\<^sup>*" by (rule rtrancl_mono) auto
  then show "eqc K E \<inter> C \<times> C = eqc (K \<inter> C) (E \<inter> C \<times> C)"
    using one_side_path [OF assms] by (auto simp: eqc_def)
qed

lemma conn_eqc:
  assumes "forest d"
  shows "eqc (items d) (conn d) = conn d"
proof -
  have "(conn d \<union> (conn d)\<inverse>)\<^sup>* \<subseteq> conn d \<union> Id"
  proof
    fix p assume "p \<in> (conn d \<union> (conn d)\<inverse>)\<^sup>*"
    then have "(fst p, snd p) \<in> (conn d \<union> (conn d)\<inverse>)\<^sup>*" by simp
    then have "(fst p, snd p) \<in> conn d \<union> Id"
    proof (induction rule: rtrancl_induct)
      case (step y z)
      have "(y, z) \<in> conn d" using step.hyps(2) by (auto simp: conn_def)
      with step.IH show ?case using root_unique by (auto simp: conn_def) blast
    qed simp
    then show "p \<in> conn d \<union> Id" by simp
  qed
  moreover have "(x, x) \<in> conn d" if "x \<in> items d" for x
    using that root_exists [OF assms] by (auto simp: conn_def)
  moreover have "conn d \<subseteq> items d \<times> items d" by (auto simp: conn_def)
  ultimately show ?thesis by (auto simp: eqc_def)
qed

section \<open>Two union-finds, one the part of the other\<close>

definition uf_sim :: "int set \<Rightarrow> uf \<Rightarrow> uf \<Rightarrow> bool" where
  "uf_sim C s t \<longleftrightarrow> uf_ok s \<and> uf_ok t \<and> items (parent t) = items (parent s) \<inter> C
     \<and> one_side C (conn (parent s)) \<and> conn (parent t) = conn (parent s) \<inter> C \<times> C"

lemma uf_sim_empty: "uf_sim C empty_uf empty_uf"
  by (simp add: uf_sim_def uf_ok_empty, simp add: empty_uf_def items_def)

text \<open>The group of an item, by its root: the root is the least of it.\<close>

lemma group_class:
  assumes "uf_ok s" and "x \<in> items (parent s)" and "rooted (parent s) x r"
  shows "uf_members s r = sorted_list_of_set {y. (x, y) \<in> conn (parent s)}"
    and "r = Min {y. (x, y) \<in> conn (parent s)}" and "(x, r) \<in> conn (parent s)"
proof -
  have f: "forest (parent s)" using assms(1) by (rule uf_okD)
  obtain ms where ms: "distinct ms" "x \<in> set ms" "set ms = {y \<in> items (parent s). rooted (parent s) y r}"
      "uf_members s r = sort ms"
    using root_group [OF assms] by blast
  have cls: "{y. (x, y) \<in> conn (parent s)} = set ms"
    using assms(2,3) root_unique by (auto simp: ms(3) conn_def)
  show "uf_members s r = sorted_list_of_set {y. (x, y) \<in> conn (parent s)}"
    using ms(1) by (simp add: cls ms(4) sorted_list_of_set_sort_remdups distinct_remdups_id)
  have r: "r \<in> set ms" using root_item [OF assms(3) f assms(2)] root_self [OF assms(3)] by (simp add: ms(3))
  then show "r = Min {y. (x, y) \<in> conn (parent s)}"
    unfolding cls using root_le f by (intro Min_eqI [symmetric]) (auto simp: ms(3))
  show "(x, r) \<in> conn (parent s)" using r cls by blast
qed

lemma sim_class:
  assumes "uf_sim C s t" and "x \<in> C"
  shows "{y. (x, y) \<in> conn (parent t)} = {y. (x, y) \<in> conn (parent s)}"
  using assms one_sideD [of C "conn (parent s)" x] by (auto simp: uf_sim_def)

lemma find_conn:
  assumes "uf_ok s"
  obtains s' r where "uf_find x s = Some (s', r)" and "uf_ok s'" and "items (parent s') = insert x (items (parent s))"
    and "conn (parent s') = insert (x, x) (conn (parent s))" and "rooted (parent s') x r"
    and "rooted (parent s') = rooted (parent s)"
proof -
  obtain s' r where s': "uf_find x s = Some (s', r)" "uf_ok s'" "items (parent s') = insert x (items (parent s))"
      "rooted (parent s') = rooted (parent s)" "rooted (parent s') x r"
    using uf_find_ok [OF assms, of x] by blast
  then have "conn (parent s') = insert (x, x) (conn (parent s))"
    using conn_admit [OF uf_okD(1) [OF assms]] by simp
  then show ?thesis using that s' by blast
qed

lemma find_sim:
  assumes sim: "uf_sim C s t" and x: "x \<in> C"
  obtains s' t' r where "uf_find x s = Some (s', r)" and "uf_find x t = Some (t', r)" and "uf_sim C s' t'"
    and "x \<in> items (parent s')" and "rooted (parent s') x r" and "rooted (parent t') x r"
    and "items (parent s) \<subseteq> items (parent s')" and "rooted (parent s') = rooted (parent s)"
    and "rooted (parent t') = rooted (parent t)"
proof -
  have ok: "uf_ok s" "uf_ok t" using sim by (simp_all add: uf_sim_def)
  obtain s' r where s': "uf_find x s = Some (s', r)" "uf_ok s'" "items (parent s') = insert x (items (parent s))"
      "conn (parent s') = insert (x, x) (conn (parent s))" "rooted (parent s') x r" "rooted (parent s') = rooted (parent s)"
    by (rule find_conn [OF ok(1), where x = x])
  obtain t' q where t': "uf_find x t = Some (t', q)" "uf_ok t'" "items (parent t') = insert x (items (parent t))"
      "conn (parent t') = insert (x, x) (conn (parent t))" "rooted (parent t') x q" "rooted (parent t') = rooted (parent t)"
    by (rule find_conn [OF ok(2), where x = x])
  have sim': "uf_sim C s' t'" using sim s'(2-4) t'(2-4) x by (auto simp: uf_sim_def)
  have "r = Min {y. (x, y) \<in> conn (parent s')}" using s'(2,3,5) group_class(2) by blast
  moreover have "q = Min {y. (x, y) \<in> conn (parent t')}" using t'(2,3,5) group_class(2) by blast
  ultimately have "q = r" using sim_class [OF sim' x] by simp
  then show ?thesis using that [OF s'(1) _ sim'] s'(3,5,6) t'(1,5,6) by blast
qed

lemma find_out:
  assumes sim: "uf_sim C s t" and x: "x \<notin> C"
  obtains s' r where "uf_find x s = Some (s', r)" and "uf_sim C s' t" and "x \<in> items (parent s')"
    and "rooted (parent s') x r" and "items (parent s) \<subseteq> items (parent s')"
    and "rooted (parent s') = rooted (parent s)"
proof -
  have ok: "uf_ok s" using sim by (simp add: uf_sim_def)
  obtain s' r where s': "uf_find x s = Some (s', r)" "uf_ok s'" "items (parent s') = insert x (items (parent s))"
      "conn (parent s') = insert (x, x) (conn (parent s))" "rooted (parent s') x r" "rooted (parent s') = rooted (parent s)"
    by (rule find_conn [OF ok, where x = x])
  have "uf_sim C s' t" using sim s'(2-4) x by (auto simp: uf_sim_def)
  then show ?thesis using that [OF s'(1)] s'(3,5,6) by blast
qed

lemma union_sim:
  assumes sim: "uf_sim C s t" and xy: "x \<in> C" "y \<in> C"
  shows "\<exists>s' t'. map_option fst (uf_union x y s) = Some s' \<and> map_option fst (uf_union x y t) = Some t' \<and> uf_sim C s' t'"
proof -
  have ok: "uf_ok s" "uf_ok t" using sim by (simp_all add: uf_sim_def)
  obtain s' where s': "map_option fst (uf_union x y s) = Some s'" "uf_ok s'"
      "items (parent s') = {x, y} \<union> items (parent s)" "conn (parent s') = eqc (items (parent s')) (conn (parent s) \<union> {(x, y)})"
    using uf_union_conn [OF ok(1)] by blast
  obtain t' where t': "map_option fst (uf_union x y t) = Some t'" "uf_ok t'"
      "items (parent t') = {x, y} \<union> items (parent t)" "conn (parent t') = eqc (items (parent t')) (conn (parent t) \<union> {(x, y)})"
    using uf_union_conn [OF ok(2)] by blast
  have its: "items (parent t') = items (parent s') \<inter> C" using sim s'(3) t'(3) xy by (auto simp: uf_sim_def)
  have side: "one_side C (conn (parent s) \<union> {(x, y)})" using sim xy by (simp add: uf_sim_def)
  have part: "(conn (parent s) \<union> {(x, y)}) \<inter> C \<times> C = conn (parent t) \<union> {(x, y)}" using sim xy by (auto simp: uf_sim_def)
  have "uf_sim C s' t'"
    using s'(2,4) t'(2,4) its eqc_one_side [OF side] part by (simp add: uf_sim_def)
  then show ?thesis using s'(1) t'(1) by blast
qed

lemma union_out:
  assumes sim: "uf_sim C s t" and xy: "x \<notin> C" "y \<notin> C"
  shows "\<exists>s'. map_option fst (uf_union x y s) = Some s' \<and> uf_sim C s' t"
proof -
  have ok: "uf_ok s" using sim by (simp add: uf_sim_def)
  obtain s' where s': "map_option fst (uf_union x y s) = Some s'" "uf_ok s'"
      "items (parent s') = {x, y} \<union> items (parent s)" "conn (parent s') = eqc (items (parent s')) (conn (parent s) \<union> {(x, y)})"
    using uf_union_conn [OF ok(1)] by blast
  have its: "items (parent t) = items (parent s') \<inter> C" using sim s'(3) xy by (auto simp: uf_sim_def)
  have side: "one_side C (conn (parent s) \<union> {(x, y)})" using sim xy by (simp add: uf_sim_def)
  have part: "(conn (parent s) \<union> {(x, y)}) \<inter> C \<times> C = conn (parent t)" using sim xy by (auto simp: uf_sim_def)
  have "forest (parent t)" using sim uf_okD(1) by (simp add: uf_sim_def)
  then have "conn (parent t) = conn (parent s') \<inter> C \<times> C"
    using eqc_one_side(2) [OF side, of "items (parent s')"] conn_eqc [of "parent t"]
    by (simp only: s'(4) its part)
  moreover have "one_side C (conn (parent s'))" unfolding s'(4) by (rule eqc_one_side(1) [OF side])
  ultimately have "uf_sim C s' t" using sim s'(2) its by (simp add: uf_sim_def)
  then show ?thesis using s'(1) by blast
qed

text \<open>Two finds in a row, as the passes make them: the roots and groups are those of the part.\<close>

lemma sim_members:
  assumes "uf_sim C s t" and "x \<in> C" "x \<in> items (parent s)" and "rooted (parent s) x r" "rooted (parent t) x r"
  shows "uf_members t r = uf_members s r" and "set (uf_members s r) \<subseteq> C" and "r \<in> C"
proof -
  have ok: "uf_ok s" "uf_ok t" and t: "x \<in> items (parent t)" using assms(1-3) by (auto simp: uf_sim_def)
  show "uf_members t r = uf_members s r"
    using group_class(1) [OF ok(1) assms(3,4)] group_class(1) [OF ok(2) t assms(5)] sim_class [OF assms(1,2)] by simp
  have cls: "{y. (x, y) \<in> conn (parent s)} \<subseteq> C" using assms(1,2) one_sideD by (fastforce simp: uf_sim_def)
  moreover have "finite {y. (x, y) \<in> conn (parent s)}"
    by (rule finite_subset [OF _ finite_items [of "parent s"]]) (auto simp: conn_def)
  ultimately show "set (uf_members s r) \<subseteq> C" using group_class(1) [OF ok(1) assms(3,4)] by simp
  show "r \<in> C" using group_class(3) [OF ok(1) assms(3,4)] cls by blast
qed

lemma two_finds_sim:
  assumes sim: "uf_sim C s t" and xy: "x \<in> C" "y \<in> C"
  obtains s1 t1 s2 t2 a b where "uf_find x s = Some (s1, a)" and "uf_find y s1 = Some (s2, b)"
    and "uf_find x t = Some (t1, a)" and "uf_find y t1 = Some (t2, b)" and "uf_sim C s2 t2"
    and "uf_members t2 a = uf_members s2 a" and "uf_members t2 b = uf_members s2 b"
    and "set (uf_members s2 a) \<subseteq> C" and "set (uf_members s2 b) \<subseteq> C" and "a \<in> C" and "b \<in> C"
proof -
  obtain s1 t1 a where 1: "uf_find x s = Some (s1, a)" "uf_find x t = Some (t1, a)" "uf_sim C s1 t1"
      "x \<in> items (parent s1)" "rooted (parent s1) x a" "rooted (parent t1) x a"
    by (rule find_sim [OF sim xy(1)])
  obtain s2 t2 b where 2: "uf_find y s1 = Some (s2, b)" "uf_find y t1 = Some (t2, b)" "uf_sim C s2 t2"
      "y \<in> items (parent s2)" "rooted (parent s2) y b" "rooted (parent t2) y b"
      "items (parent s1) \<subseteq> items (parent s2)" "rooted (parent s2) = rooted (parent s1)"
      "rooted (parent t2) = rooted (parent t1)"
    by (rule find_sim [OF 1(3) xy(2)])
  have "x \<in> items (parent s2)" "rooted (parent s2) x a" "rooted (parent t2) x a" using 1 2 by auto
  from sim_members [OF 2(3) xy(1) this] sim_members [OF 2(3) xy(2) 2(4-6)]
  show ?thesis using that [OF 1(1) 2(1) 1(2) 2(2,3)] by blast
qed

lemma two_finds_out:
  assumes sim: "uf_sim C s t" and xy: "x \<notin> C" "y \<notin> C"
  obtains s1 s2 a b where "uf_find x s = Some (s1, a)" and "uf_find y s1 = Some (s2, b)" and "uf_sim C s2 t"
    and "a \<notin> C" and "b \<notin> C"
proof -
  obtain s1 a where 1: "uf_find x s = Some (s1, a)" "uf_sim C s1 t" "x \<in> items (parent s1)" "rooted (parent s1) x a"
    by (rule find_out [OF sim xy(1)])
  obtain s2 b where 2: "uf_find y s1 = Some (s2, b)" "uf_sim C s2 t" "y \<in> items (parent s2)" "rooted (parent s2) y b"
    by (rule find_out [OF 1(2) xy(2)])
  have "a \<notin> C" using group_class(3) [OF _ 1(3,4)] one_sideD [of C "conn (parent s1)" x a] 1(2) xy
    by (auto simp: uf_sim_def)
  moreover have "b \<notin> C" using group_class(3) [OF _ 2(3,4)] one_sideD [of C "conn (parent s2)" y b] 2(2) xy
    by (auto simp: uf_sim_def)
  ultimately show ?thesis using that [OF 1(1) 2(1,2)] by blast
qed

section \<open>The passes\<close>

text \<open>A fold whose steps outside \<open>Q\<close> leave the part alone is the fold of the part.\<close>

lemma foldM_part:
  assumes "R s t"
    and "\<And>x u v. x \<in> set xs \<Longrightarrow> Q x \<Longrightarrow> R u v \<Longrightarrow> \<exists>u' v'. f x u = Some u' \<and> g x v = Some v' \<and> R u' v'"
    and "\<And>x u v. x \<in> set xs \<Longrightarrow> \<not> Q x \<Longrightarrow> R u v \<Longrightarrow> \<exists>u'. f x u = Some u' \<and> R u' v"
  shows "\<exists>s' t'. foldM f xs s = Some s' \<and> foldM g (filter Q xs) t = Some t' \<and> R s' t'"
  using assms
proof (induction xs arbitrary: s t)
  case (Cons x xs)
  have tail: "\<exists>s' t'. foldM f xs u = Some s' \<and> foldM g (filter Q xs) v = Some t' \<and> R s' t'" if "R u v" for u v
    using that Cons.prems(2,3) by (intro Cons.IH) auto
  show ?case
  proof (cases "Q x")
    case True
    then obtain u v where "f x s = Some u" "g x t = Some v" "R u v" using Cons.prems(1,2) by fastforce
    then show ?thesis using tail [of u v] True by auto
  next
    case False
    then obtain u where "f x s = Some u" "R u t" using Cons.prems(1,3) by fastforce
    then show ?thesis using tail [of u t] False by auto
  qed
qed simp

lemma agree_invariants:
  assumes "agree C (rd, fps, cfg, mnl, rel, closure) (rd, fps', cfg, mnl', rel', closure')"
    and "fps_keyed fps" and "set ms \<subseteq> C"
  shows "cluster_invariants_ok rd (fps_of fps' ms) cfg mnl' rel' closure'
    = cluster_invariants_ok rd (fps_of fps ms) cfg mnl rel closure"
proof -
  have fps: "fps_of fps' ms = fps_of fps ms" using assms(1,3) by (intro fps_of_cong) (auto simp: agree_def)
  have "fp_id ` set (fps_of fps ms) \<subseteq> C" using assms(2,3) by (auto simp: fps_of_set fps_keyed_def)
  then show ?thesis
    unfolding fps using assms(1) by (intro invariants_cong [where C = C]) (auto simp: agree_def)
qed

lemma agree_refusing:
  assumes "agree C (rd, fps, cfg, mnl, rel, closure) (rd, fps', cfg, mnl', rel', closure')" and "set ms \<subseteq> C"
  shows "refusing_pair rd reason rel' ms = refusing_pair rd reason rel ms"
  using assms by (intro refusing_pair_cong [where C = C]) (auto simp: agree_def)

definition pass_sim :: "int set \<Rightarrow> pass \<Rightarrow> pass \<Rightarrow> bool" where
  "pass_sim C p q \<longleftrightarrow> uf_sim C (p_uf p) (p_uf q) \<and> p_conflicts q = filter (\<lambda>c. c_lo c \<in> C) (p_conflicts p)
     \<and> p_bridges q = filter (\<lambda>b. b_lo b \<in> C) (p_bridges p) \<and> list_all (\<lambda>b. b_lo b \<in> C \<longleftrightarrow> b_hi b \<in> C) (p_bridges p)"

lemma conflict_row_lo [simp]: "c_lo (conflict_row rd rel d reason ms rs) = d_lo d"
  by (simp add: conflict_row_def)

lemma bridge_row_lo [simp]: "b_lo (bridge_row d a b left right) = d_lo d" "b_hi (bridge_row d a b left right) = d_hi d"
  by (simp_all add: bridge_row_def)

lemma offer_edge_sim:
  assumes agree: "agree C (rd, fps, cfg, mnl, rel, closure) (rd, fps', cfg, mnl', rel', closure')" "fps_keyed fps"
    and d: "d_lo d \<in> C" "d_hi d \<in> C" and sim: "pass_sim C p q"
  shows "\<exists>p' q'. offer_edge rd fps cfg mnl rel closure d p = Some p' \<and> offer_edge rd fps' cfg mnl' rel' closure' d q = Some q'
     \<and> pass_sim C p' q'"
proof -
  have uf: "uf_sim C (p_uf p) (p_uf q)" using sim by (simp add: pass_sim_def)
  obtain s1 t1 s2 t2 a b where f: "uf_find (d_lo d) (p_uf p) = Some (s1, a)" "uf_find (d_hi d) s1 = Some (s2, b)"
      "uf_find (d_lo d) (p_uf q) = Some (t1, a)" "uf_find (d_hi d) t1 = Some (t2, b)" "uf_sim C s2 t2"
      "uf_members t2 a = uf_members s2 a" "uf_members t2 b = uf_members s2 b"
      "set (uf_members s2 a) \<subseteq> C" "set (uf_members s2 b) \<subseteq> C" "a \<in> C" "b \<in> C"
    by (rule two_finds_sim [OF uf d])
  let ?ms = "uf_members s2 a @ uf_members s2 b"
  have ms: "set ?ms \<subseteq> C" using f(8,9) by simp
  note inv = agree_invariants [OF agree ms]
  have row: "conflict_row rd rel' d reason (sort ?ms) ?ms = conflict_row rd rel d reason (sort ?ms) ?ms" for reason
    using agree_refusing [OF agree(1) ms] by (simp add: conflict_row_def)
  obtain s3 t3 where u: "map_option fst (uf_union a b s2) = Some s3" "map_option fst (uf_union a b t2) = Some t3" "uf_sim C s3 t3"
    using union_sim [OF f(5,10,11)] by blast
  then obtain k l where "uf_union a b s2 = Some (s3, k)" "uf_union a b t2 = Some (t3, l)" by auto
  with u(3) show ?thesis
    using sim d f(1-7) inv row
    by (simp add: offer_edge_def Let_def pass_sim_def split: option.split)
qed

lemma offer_edge_out:
  assumes d: "d_lo d \<notin> C" "d_hi d \<notin> C" and sim: "pass_sim C p q"
  shows "\<exists>p'. offer_edge rd fps cfg mnl rel closure d p = Some p' \<and> pass_sim C p' q"
proof -
  have uf: "uf_sim C (p_uf p) (p_uf q)" using sim by (simp add: pass_sim_def)
  obtain s1 s2 a b where f: "uf_find (d_lo d) (p_uf p) = Some (s1, a)" "uf_find (d_hi d) s1 = Some (s2, b)"
      "uf_sim C s2 (p_uf q)" "a \<notin> C" "b \<notin> C"
    by (rule two_finds_out [OF uf d])
  obtain s3 where u: "map_option fst (uf_union a b s2) = Some s3" "uf_sim C s3 (p_uf q)"
    using union_out [OF f(3,4,5)] by blast
  then obtain k where "uf_union a b s2 = Some (s3, k)" by auto
  with u(2) show ?thesis
    using sim d f(1-3) by (simp add: offer_edge_def Let_def pass_sim_def split: option.split)
qed

definition bridged_sim :: "int set \<Rightarrow> uf \<times> bridge list \<Rightarrow> uf \<times> bridge list \<Rightarrow> bool" where
  "bridged_sim C x y \<longleftrightarrow> uf_sim C (fst x) (fst y) \<and> snd y = filter (\<lambda>b. b_lo b \<in> C) (snd x)"

lemma apply_bridge_sim:
  assumes agree: "agree C (rd, fps, cs_guard cfg, mnl, rel, closure) (rd, fps', cs_guard cfg, mnl', rel', closure')" "fps_keyed fps"
    and b: "b_lo b \<in> C" "b_hi b \<in> C" and sim: "bridged_sim C x y"
  shows "\<exists>x' y'. apply_bridge rd fps cfg mnl rel closure b x = Some x' \<and> apply_bridge rd fps' cfg mnl' rel' closure' b y = Some y'
     \<and> bridged_sim C x' y'"
proof -
  obtain s rows where x: "x = (s, rows)" by (cases x)
  obtain t rows' where y: "y = (t, rows')" by (cases y)
  have uf: "uf_sim C s t" using sim by (simp add: bridged_sim_def x y)
  obtain s1 t1 s2 t2 a c where f: "uf_find (b_lo b) s = Some (s1, a)" "uf_find (b_hi b) s1 = Some (s2, c)"
      "uf_find (b_lo b) t = Some (t1, a)" "uf_find (b_hi b) t1 = Some (t2, c)" "uf_sim C s2 t2"
      "uf_members t2 a = uf_members s2 a" "uf_members t2 c = uf_members s2 c"
      "set (uf_members s2 a) \<subseteq> C" "set (uf_members s2 c) \<subseteq> C" "a \<in> C" "c \<in> C"
    by (rule two_finds_sim [OF uf b])
  have "set (uf_members s2 a @ uf_members s2 c) \<subseteq> C" using f(8,9) by simp
  note inv = agree_invariants [OF agree this]
  obtain s3 t3 where u: "map_option fst (uf_union a c s2) = Some s3" "map_option fst (uf_union a c t2) = Some t3" "uf_sim C s3 t3"
    using union_sim [OF f(5,10,11)] by blast
  then obtain k l where "uf_union a c s2 = Some (s3, k)" "uf_union a c t2 = Some (t3, l)" by auto
  with u(3) show ?thesis
    using sim b f(1-7) inv
    by (simp add: apply_bridge_def bridged_sim_def x y split: option.split)
qed

lemma apply_bridge_out:
  assumes b: "b_lo b \<notin> C" "b_hi b \<notin> C" and sim: "bridged_sim C x y"
  shows "\<exists>x'. apply_bridge rd fps cfg mnl rel closure b x = Some x' \<and> bridged_sim C x' y"
proof -
  obtain s rows where x: "x = (s, rows)" by (cases x)
  have uf: "uf_sim C s (fst y)" using sim by (simp add: bridged_sim_def x)
  obtain s1 s2 a c where f: "uf_find (b_lo b) s = Some (s1, a)" "uf_find (b_hi b) s1 = Some (s2, c)"
      "uf_sim C s2 (fst y)" "a \<notin> C" "c \<notin> C"
    by (rule two_finds_out [OF uf b])
  obtain s3 where u: "map_option fst (uf_union a c s2) = Some s3" "uf_sim C s3 (fst y)"
    using union_out [OF f(3,4,5)] by blast
  then obtain k where "uf_union a c s2 = Some (s3, k)" by auto
  with u(2) show ?thesis
    using sim b f(1-3) by (simp add: apply_bridge_def bridged_sim_def x split: option.split)
qed

lemma uf_add_find: "uf_add x s = uf_find x s"
proof -
  have "uf_admit x (uf_admit x s) = uf_admit x s" by (simp add: uf_admit_def update_conv')
  then show ?thesis by (simp add: uf_add_def uf_find_def)
qed

text \<open>The ends of the edges enter, and the closures.\<close>

definition admit_edge :: "decision \<Rightarrow> uf \<Rightarrow> uf option" where
  "admit_edge d s = Option.bind (uf_add (d_lo d) s) (\<lambda>(s1, _). map_option fst (uf_add (d_hi d) s1))"

lemma admit_sim:
  assumes "d_lo d \<in> C" "d_hi d \<in> C" and "uf_sim C s t"
  shows "\<exists>s' t'. admit_edge d s = Some s' \<and> admit_edge d t = Some t' \<and> uf_sim C s' t'"
proof -
  obtain s1 t1 s2 t2 a b where "uf_find (d_lo d) s = Some (s1, a)" "uf_find (d_hi d) s1 = Some (s2, b)"
      "uf_find (d_lo d) t = Some (t1, a)" "uf_find (d_hi d) t1 = Some (t2, b)" "uf_sim C s2 t2"
    by (rule two_finds_sim [OF assms(3,1,2)])
  then show ?thesis by (simp add: admit_edge_def uf_add_find)
qed

lemma admit_out:
  assumes "d_lo d \<notin> C" "d_hi d \<notin> C" and "uf_sim C s t"
  shows "\<exists>s'. admit_edge d s = Some s' \<and> uf_sim C s' t"
proof -
  obtain s1 s2 a b where "uf_find (d_lo d) s = Some (s1, a)" "uf_find (d_hi d) s1 = Some (s2, b)" "uf_sim C s2 t"
    by (rule two_finds_out [OF assms(3,1,2)])
  then show ?thesis by (simp add: admit_edge_def uf_add_find)
qed

lemma link_sim:
  assumes "set ms \<subseteq> C" and "uf_sim C s t"
  shows "\<exists>s' t'. link_closure ms s = Some s' \<and> link_closure ms t = Some t' \<and> uf_sim C s' t'"
proof -
  have "hd ms \<in> C" if "m \<in> set ms" for m using that assms(1) by (cases ms) auto
  then have "\<exists>s' t'. link_closure ms s = Some s'
      \<and> foldM (\<lambda>m s. map_option fst (uf_union (hd ms) m s)) (filter (\<lambda>_. True) ms) t = Some t' \<and> uf_sim C s' t'"
    unfolding link_closure_def by (intro foldM_part [where R = "uf_sim C", OF assms(2)]) (use assms(1) union_sim [of C] in blast)+
  then show ?thesis by (simp add: link_closure_def)
qed

lemma link_out:
  assumes "set ms \<inter> C = {}" and "uf_sim C s t"
  shows "\<exists>s'. link_closure ms s = Some s' \<and> uf_sim C s' t"
proof -
  have "hd ms \<notin> C" if "m \<in> set ms" for m using that assms(1) by (cases ms) auto
  then have "\<exists>s' t'. link_closure ms s = Some s'
      \<and> foldM (\<lambda>m s. map_option fst (uf_union (hd ms) m s)) (filter (\<lambda>_. False) ms) t = Some t' \<and> uf_sim C s' t'"
    unfolding link_closure_def by (intro foldM_part [where R = "uf_sim C", OF assms(2)]) (use assms(1) union_out [of C] in blast)+
  then show ?thesis by simp
qed

definition edges_stay :: "int set \<Rightarrow> decision list \<Rightarrow> bool" where
  "edges_stay C es \<longleftrightarrow> list_all (\<lambda>d. d_lo d \<in> C \<longleftrightarrow> d_hi d \<in> C) es"

definition closures_stay :: "int set \<Rightarrow> (int, int list) dict \<Rightarrow> bool" where
  "closures_stay C closures \<longleftrightarrow> list_all (\<lambda>(k, ms). if k \<in> C then set ms \<subseteq> C else set ms \<inter> C = {}) closures"

lemma offers_sim:
  assumes agree: "agree C (rd, fps, cfg, mnl, rel, closure) (rd, fps', cfg, mnl', rel', closure')" "fps_keyed fps"
    and es: "edges_stay C es" and sim: "pass_sim C p q"
  shows "\<exists>p' q'. foldM (offer_edge rd fps cfg mnl rel closure) es p = Some p'
     \<and> foldM (offer_edge rd fps' cfg mnl' rel' closure') (filter (\<lambda>d. d_lo d \<in> C) es) q = Some q' \<and> pass_sim C p' q'"
proof (rule foldM_part [where R = "pass_sim C", OF sim])
  fix d u v
  assume d: "d \<in> set es" and uv: "pass_sim C u v"
  have side: "d_lo d \<in> C \<longleftrightarrow> d_hi d \<in> C" using es d by (auto simp: edges_stay_def list_all_iff)
  show "\<exists>u' v'. offer_edge rd fps cfg mnl rel closure d u = Some u' \<and> offer_edge rd fps' cfg mnl' rel' closure' d v = Some v'
      \<and> pass_sim C u' v'" if "d_lo d \<in> C"
    using offer_edge_sim [OF agree that _ uv] that side by blast
  show "\<exists>u'. offer_edge rd fps cfg mnl rel closure d u = Some u' \<and> pass_sim C u' v" if "d_lo d \<notin> C"
    using offer_edge_out [OF that _ uv] that side by blast
qed

lemma bridges_sim:
  assumes agree: "agree C (rd, fps, cs_guard cfg, mnl, rel, closure) (rd, fps', cs_guard cfg, mnl', rel', closure')" "fps_keyed fps"
    and sim: "uf_sim C s t" and bs: "list_all (\<lambda>b. b_lo b \<in> C \<longleftrightarrow> b_hi b \<in> C) bs"
  shows "\<exists>x y. apply_bridges rd fps cfg mnl rel closure bs s = Some x
     \<and> apply_bridges rd fps' cfg mnl' rel' closure' (filter (\<lambda>b. b_lo b \<in> C) bs) t = Some y \<and> bridged_sim C x y"
proof (cases "bridge_apply cfg")
  case True
  have "\<exists>x y. foldM (apply_bridge rd fps cfg mnl rel closure) (sort_key bridge_rank bs) (s, []) = Some x
      \<and> foldM (apply_bridge rd fps' cfg mnl' rel' closure') (filter (\<lambda>b. b_lo b \<in> C) (sort_key bridge_rank bs)) (t, []) = Some y
      \<and> bridged_sim C x y"
  proof (rule foldM_part [where R = "bridged_sim C"])
    show "bridged_sim C (s, []) (t, [])" using sim by (simp add: bridged_sim_def)
  next
    fix b u v
    assume b: "b \<in> set (sort_key bridge_rank bs)" and uv: "bridged_sim C u v"
    have side: "b_lo b \<in> C \<longleftrightarrow> b_hi b \<in> C" using bs b by (auto simp: list_all_iff)
    show "\<exists>u' v'. apply_bridge rd fps cfg mnl rel closure b u = Some u' \<and> apply_bridge rd fps' cfg mnl' rel' closure' b v = Some v'
        \<and> bridged_sim C u' v'" if "b_lo b \<in> C"
      using apply_bridge_sim [OF agree that _ uv] that side by blast
    show "\<exists>u'. apply_bridge rd fps cfg mnl rel closure b u = Some u' \<and> bridged_sim C u' v" if "b_lo b \<notin> C"
      using apply_bridge_out [OF that _ uv] that side by blast
  qed
  then show ?thesis using True by (simp add: apply_bridges_def filter_sort)
next
  case False
  then show ?thesis using sim by (simp add: apply_bridges_def bridged_sim_def)
qed

lemma union_find_pass_part:
  assumes agree: "agree C (rd, fps, cs_guard cfg, mnl, rel, closure_map closures)
      (rd, fps', cs_guard cfg, mnl', rel', closure_map (filter (\<lambda>(k, _). k \<in> C) closures))" "fps_keyed fps"
    and es: "edges_stay C es" and cl: "closures_stay C closures"
  shows "\<exists>p q rows. union_find_pass rd fps cfg mnl rel closures es = Some (p, rows)
     \<and> union_find_pass rd fps' cfg mnl' rel' (filter (\<lambda>(k, _). k \<in> C) closures) (filter (\<lambda>d. d_lo d \<in> C) es)
         = Some (q, filter (\<lambda>b. b_lo b \<in> C) rows)
     \<and> uf_sim C (p_uf p) (p_uf q) \<and> p_conflicts q = filter (\<lambda>c. c_lo c \<in> C) (p_conflicts p)"
proof -
  let ?cl = "filter (\<lambda>(k, _). k \<in> C) closures" and ?es = "filter (\<lambda>d. d_lo d \<in> C) es"
  have stay: "d_lo d \<in> C \<longleftrightarrow> d_hi d \<in> C" if "d \<in> set es" for d using es that by (auto simp: edges_stay_def list_all_iff)
  have "\<exists>s1 t1. foldM admit_edge es empty_uf = Some s1 \<and> foldM admit_edge ?es empty_uf = Some t1 \<and> uf_sim C s1 t1"
    by (rule foldM_part [where R = "uf_sim C", OF uf_sim_empty]) (use stay admit_sim admit_out in blast)+
  then obtain s1 t1 where 1: "foldM admit_edge es empty_uf = Some s1" "foldM admit_edge ?es empty_uf = Some t1" "uf_sim C s1 t1"
    by blast
  have "\<exists>s2 t2. foldM (\<lambda>c. link_closure (snd c)) closures s1 = Some s2
      \<and> foldM (\<lambda>c. link_closure (snd c)) (filter (\<lambda>(k, _). k \<in> C) closures) t1 = Some t2 \<and> uf_sim C s2 t2"
  proof (rule foldM_part [where R = "uf_sim C", OF 1(3)])
    fix c u v
    assume c: "c \<in> set closures" and uv: "uf_sim C u v"
    show "\<exists>u' v'. link_closure (snd c) u = Some u' \<and> link_closure (snd c) v = Some v' \<and> uf_sim C u' v'"
      if "case c of (k, _) \<Rightarrow> k \<in> C"
      using link_sim [OF _ uv] cl c that by (fastforce simp: closures_stay_def list_all_iff)
    show "\<exists>u'. link_closure (snd c) u = Some u' \<and> uf_sim C u' v" if "\<not> (case c of (k, _) \<Rightarrow> k \<in> C)"
      using link_out [OF _ uv] cl c that by (fastforce simp: closures_stay_def list_all_iff)
  qed
  then obtain s2 t2 where 2: "foldM link_closure (map snd closures) s1 = Some s2" "foldM link_closure (map snd ?cl) t1 = Some t2"
      "uf_sim C s2 t2"
    by (auto simp: foldM_map)
  let ?p0 = "\<lambda>s. \<lparr>p_uf = s, p_conflicts = [], p_bridges = [], p_accepted = 0, p_redundant = 0\<rparr>"
  have "pass_sim C (?p0 s2) (?p0 t2)" using 2(3) by (simp add: pass_sim_def)
  then obtain p q where 3: "foldM (offer_edge rd fps (cs_guard cfg) mnl rel (closure_map closures)) es (?p0 s2) = Some p"
      "foldM (offer_edge rd fps' (cs_guard cfg) mnl' rel' (closure_map ?cl)) ?es (?p0 t2) = Some q" "pass_sim C p q"
    using offers_sim [OF agree es] by blast
  have "uf_sim C (p_uf p) (p_uf q)" "list_all (\<lambda>b. b_lo b \<in> C \<longleftrightarrow> b_hi b \<in> C) (p_bridges p)"
    using 3(3) by (simp_all add: pass_sim_def)
  from bridges_sim [OF agree this] obtain x y
    where 4: "apply_bridges rd fps cfg mnl rel (closure_map closures) (p_bridges p) (p_uf p) = Some x"
      "apply_bridges rd fps' cfg mnl' rel' (closure_map ?cl) (p_bridges q) (p_uf q) = Some y" "bridged_sim C x y"
    using 3(3) by (auto simp: pass_sim_def)
  show ?thesis
    using 1 2 3 4 unfolding union_find_pass_def admit_edge_def
    by (cases x; cases y) (simp add: pass_sim_def bridged_sim_def)
qed

section \<open>The closures of a part\<close>

abbreviation ruled :: "(int \<Rightarrow> bool) \<Rightarrow> (int \<times> int) list \<Rightarrow> (int \<times> int) set" where
  "ruled readable ml \<equiv> eqc (link_ends (links readable ml)) (set (links readable ml))"

text \<open>A closure is the class of its key, the key its least advert.\<close>

lemma closure_entries:
  assumes "must_link_closures readable ml = Some cs"
  shows "sorted (map fst cs) \<and> distinct (map fst cs)"
    and "(k, ms) \<in> set cs \<longleftrightarrow> (k, k) \<in> ruled readable ml \<and> k = Min {y. (k, y) \<in> ruled readable ml}
           \<and> ms = sorted_list_of_set {y. (k, y) \<in> ruled readable ml}"
proof -
  obtain d where d: "must_link_closures readable ml = Some (filter (\<lambda>(_, ms). length ms > 1) (groups_of d))"
      "forest d" "distinct (map fst d)" "items d = link_ends (links readable ml)"
      "conn d = ruled readable ml"
    using must_link_forest by blast
  have "\<forall>(a, b) \<in> set (links readable ml). a \<noteq> b" by (auto simp: links_def)
  then have "length ms > 1" if "(k, ms) \<in> set (groups_of d)" for k ms
    using link_group_big [OF d(2,3,5,4) _ that] by blast
  then have all: "filter (\<lambda>(_, ms). length ms > 1) (groups_of d) = groups_of d"
    by (auto simp: filter_id_conv)
  then have cs: "cs = groups_of d" using assms d(1) by simp
  show "sorted (map fst cs) \<and> distinct (map fst cs)" unfolding cs by (rule groups_of_keys_sorted)
  have dist: "distinct ms" if "(k, ms) \<in> set (groups_of d)" for k ms
  proof -
    have "ms \<in> set (classes d (map fst d))" using that by (force simp flip: groups_of_snd)
    then show ?thesis by (rule distinct_concat_member [OF classes_distinct [OF d(3)]])
  qed
  have entry: "(k, k) \<in> conn d \<and> k = Min {y. (k, y) \<in> conn d} \<and> ms = sorted_list_of_set {y. (k, y) \<in> conn d}"
    if m: "(k, ms) \<in> set (groups_of d)" for k ms
  proof -
    note g = groups_of_mem [OF d(2) m]
    have k: "k \<in> set ms" using g(1,3) by (cases ms) auto
    have kd: "k \<in> items d" "the_root d k = k" using k g(4) by simp_all
    have "(k, y) \<in> conn d \<longleftrightarrow> y \<in> items d \<and> the_root d y = k" for y
    proof (cases "y \<in> items d")
      case True
      then show ?thesis using the_root_conn [OF d(2) kd(1) True] kd(2) by auto
    qed (simp add: conn_def)
    then have cls: "{y. (k, y) \<in> conn d} = set ms" by (simp add: g(4))
    have "Min (set ms) = k" using g(1-3) by (cases ms) (auto intro!: Min_eqI)
    moreover have "ms = sorted_list_of_set (set ms)"
      using g(2) dist [OF m] by (simp add: sorted_list_of_set.idem_if_sorted_distinct)
    ultimately show ?thesis using k cls by auto
  qed
  show "(k, ms) \<in> set cs \<longleftrightarrow> (k, k) \<in> ruled readable ml \<and> k = Min {y. (k, y) \<in> ruled readable ml}
           \<and> ms = sorted_list_of_set {y. (k, y) \<in> ruled readable ml}"
    unfolding cs d(5) [symmetric]
  proof (intro iffI)
    assume r: "(k, k) \<in> conn d \<and> k = Min {y. (k, y) \<in> conn d} \<and> ms = sorted_list_of_set {y. (k, y) \<in> conn d}"
    then obtain l ns where l: "(l, ns) \<in> set (groups_of d)" "k \<in> set ns"
      using groups_of_conn [OF d(2), of k k] by auto
    note e = entry [OF l(1)]
    have "(l, k) \<in> conn d" using groups_of_conn [OF d(2), of l k] groups_of_mem(1,3) [OF d(2) l(1)] l
      by (cases ns) force+
    then have "{y. (l, y) \<in> conn d} = {y. (k, y) \<in> conn d}" using root_unique by (auto simp: conn_def) blast+
    then have "l = k" "ns = ms" using e r by metis+
    then show "(k, ms) \<in> set (groups_of d)" using l(1) by simp
  qed (rule entry)
qed

lemma links_part:
  assumes "\<forall>m \<in> C. readable' m = readable m"
  shows "links readable' (filter (\<lambda>(lo, hi). lo \<in> C \<and> hi \<in> C) ml) = filter (\<lambda>(lo, hi). lo \<in> C \<and> hi \<in> C) (links readable ml)"
proof -
  have "filter P (sort (filter Q ml)) = filter Q (filter P (sort ml))" for P Q :: "int \<times> int \<Rightarrow> bool"
    by (simp add: filter_sort conj_commute)
  moreover have "filter (\<lambda>(lo, hi). lo \<in> C \<and> hi \<in> C) (filter (\<lambda>(lo, hi). lo \<noteq> hi \<and> readable' lo \<and> readable' hi) xs)
      = filter (\<lambda>(lo, hi). lo \<in> C \<and> hi \<in> C) (filter (\<lambda>(lo, hi). lo \<noteq> hi \<and> readable lo \<and> readable hi) xs)" for xs
    unfolding filter_filter using assms by (intro filter_cong) auto
  ultimately show ?thesis by (simp add: links_def)
qed

lemma closures_part:
  assumes cs: "must_link_closures readable ml = Some cs" and side: "one_side C (set (links readable ml))"
    and same: "\<forall>m \<in> C. readable' m = readable m"
  shows "must_link_closures readable' (filter (\<lambda>(lo, hi). lo \<in> C \<and> hi \<in> C) ml) = Some (filter (\<lambda>(k, _). k \<in> C) cs)"
    and "closures_stay C cs"
proof -
  let ?ml = "filter (\<lambda>(lo, hi). lo \<in> C \<and> hi \<in> C) ml" and ?E = "ruled readable ml"
  have L: "set (links readable' ?ml) = set (links readable ml) \<inter> C \<times> C"
    by (auto simp: links_part [OF same])
  have ends: "link_ends (links readable' ?ml) = link_ends (links readable ml) \<inter> C"
    unfolding link_ends_def L using side by (force simp: one_side_def)
  have E: "ruled readable' ?ml = ?E \<inter> C \<times> C"
    unfolding ends L using eqc_one_side(2) [OF side] by simp
  have stay: "one_side C ?E" by (rule eqc_one_side(1) [OF side])
  have cls: "{y. (k, y) \<in> ?E \<inter> C \<times> C} = {y. (k, y) \<in> ?E}" if "k \<in> C" for k
    using one_sideD [OF stay] that by auto
  obtain cs' where cs': "must_link_closures readable' ?ml = Some cs'" using must_link_forest by blast
  have "set cs' = set (filter (\<lambda>(k, _). k \<in> C) cs)"
  proof -
    have "(k, ms) \<in> set cs' \<longleftrightarrow> (k, ms) \<in> set cs \<and> k \<in> C" for k ms
      unfolding closure_entries(2) [OF cs'] closure_entries(2) [OF cs] E using cls [of k] by auto
    then show ?thesis by auto
  qed
  then have "cs' = filter (\<lambda>(k, _). k \<in> C) cs"
    by (intro dict_eqI closure_entries(1) [OF cs'] key_order_filter closure_entries(1) [OF cs])
  then show "must_link_closures readable' ?ml = Some (filter (\<lambda>(k, _). k \<in> C) cs)" using cs' by simp
  have "finite {y. (k, y) \<in> ?E}" for k
    by (rule finite_subset [where B = "link_ends (links readable ml)"]) (auto simp: eqc_def link_ends_def)
  then have "set ms = {y. (k, y) \<in> ?E}" if "(k, ms) \<in> set cs" for k ms
    using closure_entries(2) [OF cs, of k ms] that by simp
  then show "closures_stay C cs"
    using one_sideD [OF stay] by (auto simp: closures_stay_def list_all_iff)
qed

text \<open>What the rulings' test and the vetoes of the part see.\<close>

lemma closure_map_part:
  assumes "closures_ok closures" and "closures_stay C closures" and "a \<in> C"
  shows "closure_map (filter (\<lambda>(k, _). k \<in> C) closures) a = closure_map closures a"
proof -
  have d: "distinct (concat (map snd closures))" "distinct (concat (map snd (filter (\<lambda>(k, _). k \<in> C) closures)))"
    using assms(1) distinct_concat_filter by (auto simp: closures_ok_def)
  have "k \<in> C" if "(k, ms) \<in> set closures" "a \<in> set ms" for k ms
    using assms(2,3) that by (auto simp: closures_stay_def list_all_iff split: if_splits)
  then have "closure_map (filter (\<lambda>(k, _). k \<in> C) closures) a = Some k \<longleftrightarrow> closure_map closures a = Some k" for k
    unfolding closure_map_eq [OF d(1)] closure_map_eq [OF d(2)] by auto
  then show ?thesis by (metis not_None_eq)
qed

lemma judge_part:
  assumes "fps_keyed fps" and "\<forall>m \<in> C. fps' m = fps m" and "\<forall>a \<in> C. \<forall>b \<in> C. (a, b) \<in> mnl' \<longleftrightarrow> (a, b) \<in> mnl"
    and "set ms \<subseteq> C"
  shows "judge_closure rd fps' cfg mnl' (k, ms) = judge_closure rd fps cfg mnl (k, ms)"
  unfolding judge_closure_def prod.case
  by (rule agree_invariants [OF _ assms(1,4)]) (use assms in \<open>simp add: agree_def same_relation_def\<close>)

lemma valid_closures_part:
  assumes v: "valid_closures rd fps cfg mnl ml = Some (kept, dissolved)"
    and side: "one_side C (set (links (\<lambda>m. fps m \<noteq> None) ml))"
    and keyed: "fps_keyed fps" and fps: "\<forall>m \<in> C. fps' m = fps m"
    and mnl: "\<forall>a \<in> C. \<forall>b \<in> C. (a, b) \<in> mnl' \<longleftrightarrow> (a, b) \<in> mnl"
  shows "valid_closures rd fps' cfg mnl' (filter (\<lambda>(lo, hi). lo \<in> C \<and> hi \<in> C) ml)
      = Some (filter (\<lambda>(k, _). k \<in> C) kept, filter (\<lambda>d. dc_lo d \<in> C) dissolved)"
    and "closures_stay C kept"
proof -
  obtain cs where cs: "must_link_closures (\<lambda>m. fps m \<noteq> None) ml = Some cs" using must_link_forest by blast
  have same: "\<forall>m \<in> C. (fps' m \<noteq> None) = (fps m \<noteq> None)" using fps by simp
  note part = closures_part [OF cs side same]
  have ok: "closures_ok cs" by (rule must_link_closures_ok [OF cs])
  have judge: "judge_closure rd fps' cfg mnl' c = judge_closure rd fps cfg mnl c" if "c \<in> set cs" "fst c \<in> C" for c
    using judge_part [OF keyed fps mnl, of "snd c" rd cfg "fst c"] part(2) that
    by (fastforce simp: closures_stay_def list_all_iff)
  let ?row = "\<lambda>rd fps mnl ml (key, ms). \<lparr>dc_lo = hd ms, dc_hi = last ms,
      dc_invariant = the (judge_closure rd fps cfg mnl (key, ms)), dc_members = ms,
      dc_must_link = filter (\<lambda>(lo, hi). lo \<noteq> hi \<and> lo \<in> set ms \<and> hi \<in> set ms) (sort ml)\<rparr>"
  have k: "kept = filter (\<lambda>c. judge_closure rd fps cfg mnl c = None) cs"
    and d: "dissolved = map (?row rd fps mnl ml) (filter (\<lambda>c. judge_closure rd fps cfg mnl c \<noteq> None) cs)"
    using v unfolding valid_closures_def cs by simp_all
  show "closures_stay C kept" using part(2) by (auto simp: k closures_stay_def list_all_iff)
  have kept': "filter (\<lambda>c. judge_closure rd fps' cfg mnl' c = None) (filter (\<lambda>(k, _). k \<in> C) cs) = filter (\<lambda>(k, _). k \<in> C) kept"
    unfolding k filter_filter using judge by (intro filter_cong) auto
  have broken': "filter (\<lambda>c. judge_closure rd fps' cfg mnl' c \<noteq> None) (filter (\<lambda>(k, _). k \<in> C) cs)
      = filter (\<lambda>(k, _). k \<in> C) (filter (\<lambda>c. judge_closure rd fps cfg mnl c \<noteq> None) cs)"
    unfolding filter_filter using judge by (intro filter_cong) auto
  have row: "?row rd fps' mnl' (filter (\<lambda>(lo, hi). lo \<in> C \<and> hi \<in> C) ml) c = ?row rd fps mnl ml c"
    if c: "c \<in> set cs" "fst c \<in> C" for c
  proof -
    obtain key ms where kms: "c = (key, ms)" by (cases c)
    then have "set ms \<subseteq> C" using part(2) c by (fastforce simp: closures_stay_def list_all_iff)
    then have "filter (\<lambda>(lo, hi). lo \<noteq> hi \<and> lo \<in> set ms \<and> hi \<in> set ms) (sort (filter (\<lambda>(lo, hi). lo \<in> C \<and> hi \<in> C) ml))
        = filter (\<lambda>(lo, hi). lo \<noteq> hi \<and> lo \<in> set ms \<and> hi \<in> set ms) (sort ml)"
      unfolding filter_sort [symmetric] filter_filter by (intro filter_cong) auto
    then show ?thesis using judge [OF c] by (simp add: kms)
  qed
  have "filter (\<lambda>d. dc_lo d \<in> C) dissolved
      = map (?row rd fps mnl ml) (filter (\<lambda>(k, _). k \<in> C) (filter (\<lambda>c. judge_closure rd fps cfg mnl c \<noteq> None) cs))"
  proof -
    have "hd (snd c) = fst c" if "c \<in> set cs" for c using ok that by (auto simp: closures_ok_def)
    then show ?thesis
      unfolding d filter_map comp_def by (intro arg_cong [where f = "map (?row rd fps mnl ml)"] filter_cong) auto
  qed
  also have "\<dots> = map (?row rd fps' mnl' (filter (\<lambda>(lo, hi). lo \<in> C \<and> hi \<in> C) ml))
      (filter (\<lambda>(k, _). k \<in> C) (filter (\<lambda>c. judge_closure rd fps cfg mnl c \<noteq> None) cs))"
    using row by (intro map_cong) auto
  finally show "valid_closures rd fps' cfg mnl' (filter (\<lambda>(lo, hi). lo \<in> C \<and> hi \<in> C) ml)
      = Some (filter (\<lambda>(k, _). k \<in> C) kept, filter (\<lambda>d. dc_lo d \<in> C) dissolved)"
    unfolding valid_closures_def part(1) using kept' broken' by simp
qed

section \<open>The clustering of a part\<close>

text \<open>
  A relation of \<open>relation_for\<close> has no closures of its own. What a call of \<open>cluster_pairs\<close> is given on a
  part: the decisions, rulings and vetoes inside it, and fingerprints and bodies that agree there.
\<close>

definition unbound :: "('l, 'f) relation option \<Rightarrow> bool" where
  "unbound relation \<longleftrightarrow> (case relation of None \<Rightarrow> True | Some r \<Rightarrow> rel_closure_of r = (\<lambda>_. None))"

definition inside :: "int set \<Rightarrow> decision list \<Rightarrow> decision list" where
  "inside C ds = filter (\<lambda>d. d_lo d \<in> C \<and> d_hi d \<in> C) ds"

definition rulings_inside :: "int set \<Rightarrow> (int \<times> int) list \<Rightarrow> (int \<times> int) list" where
  "rulings_inside C ml = filter (\<lambda>(lo, hi). lo \<in> C \<and> hi \<in> C) ml"

text \<open>No merge edge and no readable ruling leaves the set.\<close>

definition closed_part :: "int set \<Rightarrow> decision list \<Rightarrow> (int \<Rightarrow> fingerprint option) \<Rightarrow> (int \<times> int) list \<Rightarrow> bool" where
  "closed_part C decisions fps ml \<longleftrightarrow> edges_stay C (merge_edges decisions) \<and> one_side C (set (links (\<lambda>m. fps m \<noteq> None) ml))"

definition agree_inputs :: "int set \<Rightarrow> (int \<Rightarrow> fingerprint option) \<Rightarrow> (int \<times> int) set \<Rightarrow> (int \<times> int) set
    \<Rightarrow> ('l, 'f) relation option \<Rightarrow> (int \<Rightarrow> fingerprint option) \<Rightarrow> (int \<times> int) set \<Rightarrow> (int \<times> int) set
    \<Rightarrow> ('l, 'f) relation option \<Rightarrow> bool" where
  "agree_inputs C fps mnl vetoes relation fps' mnl' vetoes' relation' \<longleftrightarrow>
     (\<forall>a \<in> C. fps' a = fps a) \<and> (\<forall>a \<in> C. \<forall>b \<in> C. (a, b) \<in> mnl' \<longleftrightarrow> (a, b) \<in> mnl)
     \<and> (\<forall>a \<in> C. \<forall>b \<in> C. (a, b) \<in> vetoes' \<longleftrightarrow> (a, b) \<in> vetoes)
     \<and> same_relation C relation relation' \<and> unbound relation \<and> unbound relation'"

lemma no_rulings: "valid_closures rd fps cfg mnl [] = Some ([], [])"
  by (simp add: valid_closures_def must_link_closures_def links_def)

lemma cluster_inputs_valid:
  "cluster_inputs rd fps cfg mnl relation ml vetoes =
     map_option (\<lambda>(closures, dissolved).
       \<lparr>i_closures = closures, i_dissolved = dissolved,
        i_must_not_link = mnl \<union> Set.filter (\<lambda>p. closure_map closures (fst p) = None
            \<or> closure_map closures (fst p) \<noteq> closure_map closures (snd p)) vetoes,
        i_relation = (case relation of None \<Rightarrow> None
          | Some r \<Rightarrow> if closures = [] then Some r else Some (bound (closure_map closures) r))\<rparr>)
     (valid_closures rd fps (cs_guard cfg) mnl ml)"
  by (simp add: cluster_inputs_def no_rulings Let_def)

lemma closure_map_Nil [simp]: "closure_map [] = (\<lambda>_. None)"
  by (simp add: closure_map_def)

lemma bound_relation_part:
  assumes same: "same_relation C relation relation'" "unbound relation" "unbound relation'"
    and cl: "\<forall>a \<in> C. closure_map closures' a = closure_map closures a"
  shows "same_relation C
      (case relation of None \<Rightarrow> None | Some r \<Rightarrow> if closures = [] then Some r else Some (bound (closure_map closures) r))
      (case relation' of None \<Rightarrow> None | Some r \<Rightarrow> if closures' = [] then Some r else Some (bound (closure_map closures') r))"
proof (cases relation)
  case None
  then show ?thesis using same by (auto simp: same_relation_def split: option.splits)
next
  case (Some r)
  then obtain r' where r': "relation' = Some r'" using same by (auto simp: same_relation_def split: option.splits)
  have "rel_closure_of r = (\<lambda>_. None)" "rel_closure_of r' = (\<lambda>_. None)" using same(2,3) Some r' by (simp_all add: unbound_def)
  then show ?thesis using same(1) cl by (auto simp: Some r' same_relation_def bound_def)
qed

lemma cluster_inputs_part:
  assumes inp: "cluster_inputs rd fps cfg mnl relation ml vetoes = Some inp"
    and side: "one_side C (set (links (\<lambda>m. fps m \<noteq> None) ml))" and keyed: "fps_keyed fps" and cfg: "guard_settings_ok (cs_guard cfg)"
    and agree: "agree_inputs C fps mnl vetoes relation fps' mnl' vetoes' relation'"
  shows "\<exists>inp'. cluster_inputs rd fps' cfg mnl' relation' (rulings_inside C ml) vetoes' = Some inp'
     \<and> i_closures inp' = filter (\<lambda>(k, _). k \<in> C) (i_closures inp)
     \<and> i_dissolved inp' = filter (\<lambda>d. dc_lo d \<in> C) (i_dissolved inp)
     \<and> agree C (rd, fps, cs_guard cfg, i_must_not_link inp, i_relation inp, closure_map (i_closures inp))
         (rd, fps', cs_guard cfg, i_must_not_link inp', i_relation inp', closure_map (i_closures inp'))"
    and "closures_stay C (i_closures inp)"
proof -
  obtain kept dissolved where v: "valid_closures rd fps (cs_guard cfg) mnl ml = Some (kept, dissolved)"
      "closures_ok kept"
    using valid_closures_kept [OF cfg keyed] by blast
  have a: "\<forall>m \<in> C. fps' m = fps m" "\<forall>a \<in> C. \<forall>b \<in> C. (a, b) \<in> mnl' \<longleftrightarrow> (a, b) \<in> mnl"
    using agree by (simp_all add: agree_inputs_def)
  note part = valid_closures_part [OF v(1) side keyed a]
  note maps = closure_map_part [OF v(2) part(2)]
  have i: "i_closures inp = kept" "i_dissolved inp = dissolved"
    "i_must_not_link inp = mnl \<union> Set.filter (\<lambda>p. closure_map kept (fst p) = None
        \<or> closure_map kept (fst p) \<noteq> closure_map kept (snd p)) vetoes"
    "i_relation inp = (case relation of None \<Rightarrow> None
        | Some r \<Rightarrow> if kept = [] then Some r else Some (bound (closure_map kept) r))"
    using inp unfolding cluster_inputs_valid v(1) by auto
  show "closures_stay C (i_closures inp)" using part(2) i by simp
  let ?kept = "filter (\<lambda>(k, _). k \<in> C) kept"
  have rel: "same_relation C (i_relation inp) (case relation' of None \<Rightarrow> None
      | Some r \<Rightarrow> if ?kept = [] then Some r else Some (bound (closure_map ?kept) r))"
    unfolding i(4) by (rule bound_relation_part) (use agree maps in \<open>simp_all add: agree_inputs_def\<close>)
  show "\<exists>inp'. cluster_inputs rd fps' cfg mnl' relation' (rulings_inside C ml) vetoes' = Some inp'
     \<and> i_closures inp' = filter (\<lambda>(k, _). k \<in> C) (i_closures inp)
     \<and> i_dissolved inp' = filter (\<lambda>d. dc_lo d \<in> C) (i_dissolved inp)
     \<and> agree C (rd, fps, cs_guard cfg, i_must_not_link inp, i_relation inp, closure_map (i_closures inp))
         (rd, fps', cs_guard cfg, i_must_not_link inp', i_relation inp', closure_map (i_closures inp'))"
    unfolding cluster_inputs_valid rulings_inside_def part(1)
    using agree maps rel by (simp add: agree_def agree_inputs_def i(1,2,3))
qed

lemma merge_edges_inside: "edges_stay C (merge_edges ds) \<Longrightarrow> merge_edges (inside C ds) = filter (\<lambda>d. d_lo d \<in> C) (merge_edges ds)"
proof -
  assume stay: "edges_stay C (merge_edges ds)"
  have "merge_edges (inside C ds) = filter (\<lambda>d. d_lo d \<in> C \<and> d_hi d \<in> C) (merge_edges ds)"
    unfolding merge_edges_def inside_def filter_sort filter_filter by (simp add: conj_ac)
  also have "\<dots> = filter (\<lambda>d. d_lo d \<in> C) (merge_edges ds)"
    using stay by (intro filter_cong) (auto simp: edges_stay_def list_all_iff)
  finally show ?thesis .
qed

text \<open>The groups of two or more, read off the two union-finds.\<close>

definition multi_groups :: "uf \<Rightarrow> (int, int list) dict" where
  "multi_groups u = multi (map (\<lambda>(k, ms). (k, sort ms)) (groups u))"

lemma multi_entry:
  assumes u: "uf_ok u"
  shows "(k, ms) \<in> set (multi_groups u) \<longleftrightarrow> k \<in> items (parent u) \<and> rooted (parent u) k k \<and> ms = uf_members u k \<and> 1 < length ms"
proof
  assume "(k, ms) \<in> set (multi_groups u)"
  then obtain gs where gs: "(k, gs) \<in> set (groups u)" "ms = sort gs" "1 < length ms" by (auto simp: multi_groups_def multi_mem)
  then have m: "map_of (groups u) k = Some gs" using uf_okD(2) [OF u] by simp
  then show "k \<in> items (parent u) \<and> rooted (parent u) k k \<and> ms = uf_members u k \<and> 1 < length ms"
    using uf_okD(3) [OF u, of k] gs by (simp add: uf_members_def)
next
  assume r: "k \<in> items (parent u) \<and> rooted (parent u) k k \<and> ms = uf_members u k \<and> 1 < length ms"
  then obtain gs where gs: "map_of (groups u) k = Some gs" using uf_okD(3) [OF u, of k] by blast
  then have "(k, gs) \<in> set (groups u)" by (rule map_of_SomeD)
  then show "(k, ms) \<in> set (multi_groups u)" using r gs by (force simp: multi_groups_def multi_mem uf_members_def)
qed

lemma multi_keys:
  assumes u: "uf_ok u"
  shows "sorted (map fst (multi_groups u)) \<and> distinct (map fst (multi_groups u))"
proof -
  have "mset (map fst (sort_key fst g)) = mset (map fst g)" for g :: "(int, int list) dict" by simp
  then have "distinct (map fst (sort_key fst (map (\<lambda>(k, ms). (k, sort ms)) (groups u))))"
    using uf_okD(2) [OF u] by (metis (no_types, lifting) mset_eq_imp_distinct_iff map_map comp_def case_prod_unfold fst_conv map_eq_conv)
  moreover have "sorted (map fst (filter P (sort_key fst g)))" for P and g :: "(int, int list) dict"
    by (intro sorted_filter) simp
  ultimately show ?thesis unfolding multi_groups_def multi_def by (simp add: distinct_map_filter)
qed

text \<open>A group holds its key and stays on the side of it.\<close>

lemma multi_sides:
  assumes sim: "uf_sim C s t" and km: "(k, ms) \<in> set (multi_groups s)"
  shows "k \<in> set ms" and "m \<in> set ms \<Longrightarrow> m \<in> C \<longleftrightarrow> k \<in> C" and "1 < card (set ms)"
proof -
  have ok: "uf_ok s" and side: "one_side C (conn (parent s))" using sim by (simp_all add: uf_sim_def)
  have k: "k \<in> items (parent s)" "rooted (parent s) k k" "ms = uf_members s k" "1 < length ms"
    using km unfolding multi_entry [OF ok] by blast+
  have "finite {y. (k, y) \<in> conn (parent s)}" by (rule finite_subset [of _ "items (parent s)"]) (auto simp: conn_def items_def)
  then have ms: "set ms = {y. (k, y) \<in> conn (parent s)}" using group_class(1) [OF ok k(1,2)] k(3) by simp
  have "distinct ms" using group_class(1) [OF ok k(1,2)] k(3) by simp
  then show "1 < card (set ms)" using k(4) by (simp add: distinct_card)
  show "k \<in> set ms" using ms group_class(3) [OF ok k(1,2)] by simp
  show "m \<in> set ms \<Longrightarrow> m \<in> C \<longleftrightarrow> k \<in> C" using ms side by (auto simp: one_side_def)
qed

lemma multi_part:
  assumes sim: "uf_sim C s t"
  shows "multi_groups t = filter (\<lambda>(k, _). k \<in> C) (multi_groups s)"
proof -
  have ok: "uf_ok s" "uf_ok t" using sim by (simp_all add: uf_sim_def)
  have root: "rooted (parent u) k k \<longleftrightarrow> k = Min {y. (k, y) \<in> conn (parent u)}" if u: "uf_ok u" "k \<in> items (parent u)" for u k
  proof -
    obtain r where r: "rooted (parent u) k r" using root_exists [OF uf_okD(1) [OF u(1)]] by blast
    then show ?thesis using group_class(2) [OF u r] root_unique by metis
  qed
  have "(k, ms) \<in> set (multi_groups t) \<longleftrightarrow> (k, ms) \<in> set (multi_groups s) \<and> k \<in> C" for k ms
  proof (cases "k \<in> items (parent t)")
    case True
    then have k: "k \<in> items (parent s)" "k \<in> C" using sim by (auto simp: uf_sim_def)
    have r: "rooted (parent t) k k \<longleftrightarrow> rooted (parent s) k k"
      using root [OF ok(1) k(1)] root [OF ok(2) True] sim_class [OF sim k(2)] by simp
    then show ?thesis
      unfolding multi_entry [OF ok(1)] multi_entry [OF ok(2)] using True k sim_members(1) [OF sim k(2,1)] by auto
  next
    case False
    then show ?thesis unfolding multi_entry [OF ok(1)] multi_entry [OF ok(2)] using sim by (auto simp: uf_sim_def)
  qed
  then have "set (multi_groups t) = set (filter (\<lambda>(k, _). k \<in> C) (multi_groups s))" by auto
  then show ?thesis by (intro dict_eqI multi_keys ok key_order_filter)
qed

lemma cluster_part_union_find:
  assumes cfg: "guard_settings_ok (cs_guard cfg)" and keyed: "fps_keyed fps" and mode: "\<not> repartition cfg"
    and closed: "closed_part C decisions fps ml"
    and agree: "agree_inputs C fps mnl vetoes relation fps' mnl' vetoes' relation'"
  shows "\<exists>res res'. cluster_pairs rd decisions fps cfg mnl relation ml vetoes = Some res
     \<and> cluster_pairs rd (inside C decisions) fps' cfg mnl' relation' (rulings_inside C ml) vetoes' = Some res'
     \<and> r_clusters res' = filter (\<lambda>(k, _). k \<in> C) (r_clusters res)
     \<and> r_conflicts res' = filter (\<lambda>c. c_lo c \<in> C) (r_conflicts res)
     \<and> r_bridges res' = filter (\<lambda>b. b_lo b \<in> C) (r_bridges res)
     \<and> r_dissolved res' = filter (\<lambda>d. dc_lo d \<in> C) (r_dissolved res)
     \<and> sorted (map fst (r_clusters res)) \<and> distinct (map fst (r_clusters res))
     \<and> (\<forall>(k, ms) \<in> set (r_clusters res). k \<in> set ms \<and> 1 < card (set ms) \<and> (\<forall>m \<in> set ms. m \<in> C \<longleftrightarrow> k \<in> C))"
proof -
  have stay: "edges_stay C (merge_edges decisions)" "one_side C (set (links (\<lambda>m. fps m \<noteq> None) ml))"
    using closed by (simp_all add: closed_part_def)
  obtain inp where inp: "cluster_inputs rd fps cfg mnl relation ml vetoes = Some inp"
    using cluster_inputs_total [OF cfg keyed] by blast
  obtain inp' where inp': "cluster_inputs rd fps' cfg mnl' relation' (rulings_inside C ml) vetoes' = Some inp'"
      "i_closures inp' = filter (\<lambda>(k, _). k \<in> C) (i_closures inp)" "i_dissolved inp' = filter (\<lambda>d. dc_lo d \<in> C) (i_dissolved inp)"
      "agree C (rd, fps, cs_guard cfg, i_must_not_link inp, i_relation inp, closure_map (i_closures inp))
         (rd, fps', cs_guard cfg, i_must_not_link inp', i_relation inp', closure_map (filter (\<lambda>(k, _). k \<in> C) (i_closures inp)))"
    using cluster_inputs_part(1) [OF inp stay(2) keyed cfg agree] by metis
  have cl: "closures_stay C (i_closures inp)" by (rule cluster_inputs_part(2) [OF inp stay(2) keyed cfg agree])
  obtain p q rows where run: "union_find_pass rd fps cfg (i_must_not_link inp) (i_relation inp) (i_closures inp) (merge_edges decisions)
        = Some (p, rows)"
      "union_find_pass rd fps' cfg (i_must_not_link inp') (i_relation inp') (i_closures inp') (merge_edges (inside C decisions))
        = Some (q, filter (\<lambda>b. b_lo b \<in> C) rows)"
      "uf_sim C (p_uf p) (p_uf q)" "p_conflicts q = filter (\<lambda>c. c_lo c \<in> C) (p_conflicts p)"
    using union_find_pass_part [OF inp'(4) keyed stay(1) cl] unfolding merge_edges_inside [OF stay(1)] inp'(2) by blast
  have "uf_ok (p_uf p)" using run(3) by (simp add: uf_sim_def)
  moreover have "\<forall>(k, ms) \<in> set (multi_groups (p_uf p)). k \<in> set ms \<and> 1 < card (set ms) \<and> (\<forall>m \<in> set ms. m \<in> C \<longleftrightarrow> k \<in> C)"
    using multi_sides [OF run(3)] by blast
  ultimately show ?thesis
    using mode run multi_part [OF run(3)] multi_keys by (simp add: cluster_pairs_def inp inp'(1,3) Let_def multi_groups_def)
qed

end
