(* ===== verification/Blocking.thy ===== *)
theory Blocking
  imports Cluster
begin

text \<open>
  \<open>autodedup/blocking.py\<close>: which adverts are compared at all. An advert is posted under a few keys and
  looks up a few more (its own and, on bands and deciles, the two beside them); who it meets there and the
  guards let in is its candidate, in the order of the probes and at most \<open>max_candidates_per_listing\<close> of
  them. A key carries its probe as its constructor; floats are rationals; a raise is \<open>None\<close>.
\<close>

section \<open>The row of an advert\<close>

text \<open>The fields of \<open>Fingerprint\<close> that blocking and the cluster report read, beside those the guards read.\<close>

record full_fp = fingerprint +
  fp_source :: "string option"
  fp_block_key :: string
  fp_obec_kod :: "int option"
  fp_cast_obce_kod :: "int option"
  fp_cat_group :: "string option"
  fp_area_band :: "int option"
  fp_broker_key :: "string option"
  fp_street_key :: "string option"
  fp_house_number :: "string option"
  fp_price :: "rat option"
  fp_has_text :: bool
  fp_desc_bands :: "(int \<times> int) list"
  fp_anchor_bands :: "(int \<times> int \<times> int) list"
  fp_catalog_ratio :: "rat option"
  fp_country_status :: "string option"

record blocking_settings =
  max_block_size :: int
  max_candidates_per_listing :: int
  attr_probe_town_grain :: bool
  bs_guard :: guard_settings

section \<open>Keys\<close>

datatype probe = Addr | Phash | Text | Broker | Attr_dispo | Attr_area | Foreign | Town | Quarter

datatype key =
    Addr_key int string string
  | Phash_key int int
  | Text_key int int
  | Broker_key string "string option" "string option" "int option"
  | Dispo_key string "string option" "string option" string
  | Area_key string "string option" "string option" int
  | Foreign_key string "string option" "string option" int
  | Town_key int "string option" "string option" "string option" int
  | Quarter_key string "string option" "string option" "string option" int

fun probe_of :: "key \<Rightarrow> probe" where
  "probe_of (Addr_key _ _ _) = Addr"
| "probe_of (Phash_key _ _) = Phash"
| "probe_of (Text_key _ _) = Text"
| "probe_of (Broker_key _ _ _ _) = Broker"
| "probe_of (Dispo_key _ _ _ _) = Attr_dispo"
| "probe_of (Area_key _ _ _ _) = Attr_area"
| "probe_of (Foreign_key _ _ _ _) = Foreign"
| "probe_of (Town_key _ _ _ _ _) = Town"
| "probe_of (Quarter_key _ _ _ _ _) = Quarter"

definition PROBE_PRIORITY :: "probe list" where
  "PROBE_PRIORITY = [Addr, Phash, Text, Broker, Attr_dispo, Attr_area, Foreign]"

definition FOREIGN_STATUS :: string where "FOREIGN_STATUS = ''foreign''"
definition DECILES :: int where "DECILES = 10"

definition SPLIT_CITY_OBEC_KODS :: "int list" where
  "SPLIT_CITY_OBEC_KODS = [554782, 582786, 554821]"

definition probe_priority :: "blocking_settings \<Rightarrow> probe list" where
  "probe_priority cfg =
     (if \<not> attr_probe_town_grain cfg then PROBE_PRIORITY else PROBE_PRIORITY @ [Town, Quarter])"

definition probes_town_key :: "full_fp \<Rightarrow> bool" where
  "probes_town_key fp =
     (\<not> ((case fp_obec_kod fp of None \<Rightarrow> False | Some k \<Rightarrow> k \<in> set SPLIT_CITY_OBEC_KODS) \<and> fp_cast_obce_kod fp \<noteq> None))"

text \<open>\<^verbatim>\<open>prices[min(n - 1, (n * step) // 10)] for step in range(1, 10)\<close>, on the sorted prices.\<close>

definition decile_cuts :: "rat list \<Rightarrow> rat list" where
  "decile_cuts prices =
     (let ps = sort prices; n = int (length ps)
      in map (\<lambda>step. ps ! nat (min (n - 1) (n * step div DECILES))) [1..DECILES - 1])"

text \<open>The loop of \<open>decile_of\<close>: one up per cut until a cut lies above the price.\<close>

fun count_cuts :: "rat \<Rightarrow> rat list \<Rightarrow> int" where
  "count_cuts p [] = 0"
| "count_cuts p (c # cs) = (if p < c then 0 else 1 + count_cuts p cs)"

definition decile_of :: "rat option \<Rightarrow> rat list option \<Rightarrow> int option" where
  "decile_of price cuts =
     (case (price, cuts) of
        (Some p, Some (c # cs)) \<Rightarrow> Some (min (count_cuts p (c # cs)) (DECILES - 1))
      | _ \<Rightarrow> None)"

definition posting_keys :: "full_fp \<Rightarrow> blocking_settings \<Rightarrow> int option \<Rightarrow> key list" where
  "posting_keys fp cfg decile =
     (case (fp_obec_kod fp, fp_street_key fp, fp_house_number fp) of
        (Some obec, Some s, Some h) \<Rightarrow> if s \<noteq> [] \<and> h \<noteq> [] then [Addr_key obec s h] else []
      | _ \<Rightarrow> []) @
     map (\<lambda>(no, val, _). Phash_key no val) (fp_anchor_bands fp) @
     (if fp_has_text fp then map (\<lambda>(no, val). Text_key no val) (fp_desc_bands fp) else []) @
     (case fp_broker_key fp of
        Some b \<Rightarrow> if b \<noteq> [] then [Broker_key b (fp_cat_group fp) (fp_type fp) decile] else []
      | None \<Rightarrow> []) @
     (case fp_disposition fp of
        Some d \<Rightarrow> if fp_block_key fp \<noteq> [] \<and> d \<noteq> [] then [Dispo_key (fp_block_key fp) (fp_cat_group fp) (fp_type fp) d] else []
      | None \<Rightarrow> []) @
     (case fp_area_band fp of
        Some b \<Rightarrow> if fp_block_key fp \<noteq> [] then [Area_key (fp_block_key fp) (fp_cat_group fp) (fp_type fp) b] else []
      | None \<Rightarrow> []) @
     (case (fp_country_status fp, fp_area_band fp) of
        (Some c, Some b) \<Rightarrow> if c = FOREIGN_STATUS then [Foreign_key c (fp_cat_group fp) (fp_type fp) b] else []
      | _ \<Rightarrow> []) @
     (case fp_area_band fp of
        Some b \<Rightarrow>
          if attr_probe_town_grain cfg
          then (case fp_obec_kod fp of
                  Some obec \<Rightarrow> [Town_key obec (fp_cat_group fp) (fp_type fp) (fp_disposition fp) b] | None \<Rightarrow> []) @
               (if \<not> probes_town_key fp
                then [Quarter_key (fp_block_key fp) (fp_cat_group fp) (fp_type fp) (fp_disposition fp) b] else [])
          else []
      | None \<Rightarrow> [])"

text \<open>The keys one posted key makes its advert look up: the two bands, or deciles, beside it as well.\<close>

fun probed :: "bool \<Rightarrow> key \<Rightarrow> key list" where
  "probed town (Area_key k g t b) = map (\<lambda>i. Area_key k g t (b + i)) [- 1, 0, 1]"
| "probed town (Town_key obec g t d b) = (if town then map (\<lambda>i. Town_key obec g t d (b + i)) [- 1, 0, 1] else [])"
| "probed town (Quarter_key k g t d b) = map (\<lambda>i. Quarter_key k g t d (b + i)) [- 1, 0, 1]"
| "probed town (Broker_key k g t (Some n)) =
     map (\<lambda>i. Broker_key k g t (Some (n + i))) (filter (\<lambda>i. 0 \<le> n + i \<and> n + i < DECILES) [- 1, 0, 1])"
| "probed town k = [k]"

section \<open>The index\<close>

record block_index =
  bi_settings :: blocking_settings
  bi_fps :: "(int, full_fp) dict"
  bi_postings :: "(key, int list) dict"
  bi_exploded :: "key list"
  price_cuts :: "(string option \<times> string option, rat list) dict"
  vetoed_pairs :: "(int \<times> int) list"
  veto_counts :: "(guard_rule, nat) dict"
  finalized :: bool
  keys_ready :: bool

definition new_index :: "blocking_settings \<Rightarrow> block_index" where
  "new_index cfg = \<lparr>bi_settings = cfg, bi_fps = [], bi_postings = [], bi_exploded = [], price_cuts = [],
     vetoed_pairs = [], veto_counts = [], finalized = False, keys_ready = False\<rparr>"

definition add_fp :: "full_fp \<Rightarrow> block_index \<Rightarrow> block_index option" where
  "add_fp fp bi =
     (if finalized bi then None else Some (bi\<lparr>bi_fps := AList.update (fp_id fp) fp (bi_fps bi)\<rparr>))"

definition build_price_cuts :: "block_index \<Rightarrow> block_index" where
  "build_price_cuts bi =
     (let priced = List.map_filter (\<lambda>(_, fp). map_option (\<lambda>p. ((fp_cat_group fp, fp_type fp), p)) (fp_price fp)) (bi_fps bi);
          cohorts = fold (\<lambda>(k, p). dict_append k p) priced []
      in bi\<lparr>price_cuts := fold (\<lambda>(k, ps). AList.update k (decile_cuts ps)) cohorts (price_cuts bi)\<rparr>)"

definition price_decile :: "block_index \<Rightarrow> full_fp \<Rightarrow> int option option" where
  "price_decile bi fp =
     (if \<not> keys_ready bi then None
      else Some (decile_of (fp_price fp) (map_of (price_cuts bi) (fp_cat_group fp, fp_type fp))))"

definition index_keys :: "block_index \<Rightarrow> full_fp \<Rightarrow> key list option" where
  "index_keys bi fp =
     (if \<not> keys_ready bi then None
      else if truthy (fp_broker_key fp)
           then map_option (posting_keys fp (bi_settings bi)) (price_decile bi fp)
           else Some (posting_keys fp (bi_settings bi) None))"

definition probe_keys :: "block_index \<Rightarrow> full_fp \<Rightarrow> key list option" where
  "probe_keys bi fp = map_option (\<lambda>ks. concat (map (probed (probes_town_key fp)) ks)) (index_keys bi fp)"

definition post :: "int \<times> full_fp \<Rightarrow> block_index \<Rightarrow> block_index option" where
  "post = (\<lambda>(i, fp) bi. map_option
     (\<lambda>ks. bi\<lparr>bi_postings := fold (\<lambda>k. dict_append k i) ks (bi_postings bi)\<rparr>) (index_keys bi fp))"

definition finalize :: "block_index \<Rightarrow> block_index option" where
  "finalize bi =
     (if finalized bi then Some bi
      else let bi1 = (build_price_cuts bi)\<lparr>keys_ready := True\<rparr>
           in map_option (\<lambda>bi2. bi2\<lparr>
                  bi_exploded := map fst (filter (\<lambda>(_, ms). int (length ms) > max_block_size (bi_settings bi2)) (bi_postings bi2)),
                  finalized := True\<rparr>)
                (foldM post (sort_key fst (bi_fps bi1)) bi1))"

definition exploded_probes :: "block_index \<Rightarrow> full_fp \<Rightarrow> probe list option" where
  "exploded_probes bi fp =
     map_option (\<lambda>ks. remdups (map probe_of (filter (\<lambda>k. k \<in> set (bi_exploded bi)) ks))) (index_keys bi fp)"

section \<open>Candidates\<close>

definition base :: "full_fp \<Rightarrow> fingerprint" where
  "base fp = fingerprint.truncate fp"

definition guarded :: "full_fp \<Rightarrow> int \<Rightarrow> block_index \<Rightarrow> (block_index \<times> bool) option" where
  "guarded fp i bi =
     (let pair = pair_key (fp_id fp) i
      in if pair \<in> set (vetoed_pairs bi) then Some (bi, True)
         else case map_of (bi_fps bi) i of
                None \<Rightarrow> None
              | Some fp' \<Rightarrow>
                  (case pair_veto (bs_guard (bi_settings bi)) (base fp) (base fp') of
                     None \<Rightarrow> Some (bi, False)
                   | Some v \<Rightarrow> Some (bi\<lparr>vetoed_pairs := vetoed_pairs bi @ [pair],
                       veto_counts := AList.update v
                         (case map_of (veto_counts bi) v of None \<Rightarrow> 1 | Some n \<Rightarrow> n + 1) (veto_counts bi)\<rparr>, True)))"

type_synonym hits = "(int, probe list) dict"

text \<open>\<^verbatim>\<open>self.postings[probe].get(key, ())\<close>\<close>

definition posted :: "block_index \<Rightarrow> key \<Rightarrow> int list" where
  "posted bi k = (case map_of (bi_postings bi) k of None \<Rightarrow> [] | Some ms \<Rightarrow> ms)"

text \<open>One advert met under one key.\<close>

definition meet :: "full_fp \<Rightarrow> probe \<times> int \<Rightarrow> hits \<times> block_index \<Rightarrow> (hits \<times> block_index) option" where
  "meet fp = (\<lambda>(p, i) (out, bi).
     if i = fp_id fp then Some (out, bi)
     else case map_of out i of
            Some ps \<Rightarrow> Some (AList.update i (if p \<in> set ps then ps else ps @ [p]) out, bi)
          | None \<Rightarrow>
              if int (length out) < max_candidates_per_listing (bi_settings bi)
              then map_option (\<lambda>(bi', no). (if no then out else AList.update i [p] out, bi')) (guarded fp i bi)
              else Some (out, bi))"

definition candidates :: "full_fp \<Rightarrow> block_index \<Rightarrow> (hits \<times> block_index) option" where
  "candidates fp bi =
     (if \<not> finalized bi then None
      else Option.bind (probe_keys bi fp) (\<lambda>keys.
        foldM (\<lambda>p. foldM (\<lambda>k st.
                  if k \<in> set (bi_exploded bi) then Some st
                  else foldM (\<lambda>i. meet fp (p, i)) (posted bi k) st)
                (filter (\<lambda>k. probe_of k = p) keys))
          (probe_priority (bi_settings bi)) ([], bi)))"

end
