(* ===== verification/Blocking_Laws.thy ===== *)
theory Blocking_Laws
  imports Blocking
begin

text \<open>
  What retrieval answers. The candidates of an advert are the first \<open>max_candidates_per_listing\<close> adverts the
  guards admit, in the order in which its probes first meet them, each with the probes that met it; the memo
  of refused pairs changes nothing. So the cap discards the weakest evidence first, and an advert's answer
  depends on nothing but the postings it looks up.
\<close>

section \<open>An index that can be asked\<close>

definition veto_of :: "block_index \<Rightarrow> int \<times> int \<Rightarrow> guard_rule option" where
  "veto_of bi = (\<lambda>(a, b). case (map_of (bi_fps bi) a, map_of (bi_fps bi) b) of
     (Some fa, Some fb) \<Rightarrow> pair_veto (bs_guard (bi_settings bi)) (base fa) (base fb) | _ \<Rightarrow> None)"

definition memo_ok :: "block_index \<Rightarrow> bool" where
  "memo_ok bi \<longleftrightarrow> distinct (vetoed_pairs bi) \<and> list_all (\<lambda>p. veto_of bi p \<noteq> None) (vetoed_pairs bi)
     \<and> (\<forall>v. (case map_of (veto_counts bi) v of None \<Rightarrow> 0 | Some n \<Rightarrow> n)
            = length (filter (\<lambda>p. veto_of bi p = Some v) (vetoed_pairs bi)))"

definition index_ok :: "block_index \<Rightarrow> bool" where
  "index_ok bi \<longleftrightarrow> finalized bi \<and> keys_ready bi \<and> memo_ok bi
     \<and> list_all (\<lambda>(i, fp). fp_id fp = i) (bi_fps bi)
     \<and> list_all (\<lambda>(_, ms). list_all (\<lambda>i. map_of (bi_fps bi) i \<noteq> None) ms) (bi_postings bi)"

text \<open>What the memo may change.\<close>

definition same_index :: "block_index \<Rightarrow> block_index \<Rightarrow> bool" where
  "same_index bi bi' \<longleftrightarrow> (\<exists>vs counts. bi' = bi\<lparr>vetoed_pairs := vs, veto_counts := counts\<rparr>)"

lemma same_indexI [simp]: "same_index bi (bi\<lparr>vetoed_pairs := vs, veto_counts := counts\<rparr>)"
  by (auto simp: same_index_def)

lemma same_index_refl [simp]: "same_index bi bi"
  using same_indexI [where bi = bi and vs = "vetoed_pairs bi" and counts = "veto_counts bi"] by simp

lemma same_indexD:
  assumes "same_index bi bi'"
  shows "bi_settings bi' = bi_settings bi" "bi_fps bi' = bi_fps bi" "bi_postings bi' = bi_postings bi"
    "bi_exploded bi' = bi_exploded bi" "price_cuts bi' = price_cuts bi" "finalized bi' = finalized bi"
    "keys_ready bi' = keys_ready bi" "veto_of bi' = veto_of bi"
  using assms by (auto simp: same_index_def veto_of_def fun_eq_iff cong: option.case_cong)

lemma same_index_trans: "same_index a b \<Longrightarrow> same_index b c \<Longrightarrow> same_index a c"
proof -
  assume "same_index a b" "same_index b c"
  then obtain vs counts where "c = a\<lparr>vetoed_pairs := vs, veto_counts := counts\<rparr>" by (auto simp: same_index_def)
  then show "same_index a c" by simp
qed

section \<open>The specification\<close>

definition admits_fp :: "block_index \<Rightarrow> full_fp \<Rightarrow> int \<Rightarrow> bool" where
  "admits_fp bi fp i = (case map_of (bi_fps bi) i of None \<Rightarrow> False
     | Some fp' \<Rightarrow> pair_veto (bs_guard (bi_settings bi)) (base fp) (base fp') = None)"

text \<open>The adverts met, in order, with the probe each was met under.\<close>

definition meetings :: "block_index \<Rightarrow> key list \<Rightarrow> (probe \<times> int) list" where
  "meetings bi keys = concat (map (\<lambda>p. concat (map (\<lambda>k. if k \<in> set (bi_exploded bi) then [] else
        map (Pair p) (posted bi k))
      (filter (\<lambda>k. probe_of k = p) keys))) (probe_priority (bi_settings bi)))"

definition met_under :: "(probe \<times> int) list \<Rightarrow> int \<Rightarrow> probe list" where
  "met_under vs i = firsts (map fst (filter (\<lambda>v. snd v = i) vs))"

definition kept :: "(int \<Rightarrow> bool) \<Rightarrow> int \<Rightarrow> int \<Rightarrow> (probe \<times> int) list \<Rightarrow> int list" where
  "kept ok cap self vs = take (nat cap) (filter ok (firsts (filter (\<lambda>i. i \<noteq> self) (map snd vs))))"

definition hits_spec :: "(int \<Rightarrow> bool) \<Rightarrow> int \<Rightarrow> int \<Rightarrow> (probe \<times> int) list \<Rightarrow> hits" where
  "hits_spec ok cap self vs = map (\<lambda>i. (i, met_under vs i)) (kept ok cap self vs)"

lemma met_under_snoc: "met_under (vs @ [(p, i)]) j =
    (if j = i then (if p \<in> set (met_under vs i) then met_under vs i else met_under vs i @ [p]) else met_under vs j)"
  by (auto simp: met_under_def)

lemma map_of_hits: "map_of (map (\<lambda>i. (i, f i)) xs) i = (if i \<in> set xs then Some (f i) else None)"
  by (induction xs) auto

lemma update_hits:
  assumes "distinct xs" and "i \<in> set xs"
  shows "AList.update i v (map (\<lambda>j. (j, f j)) xs) = map (\<lambda>j. (j, if j = i then v else f j)) xs"
  using assms by (induction xs) auto

lemma update_absent: "i \<notin> fst ` set d \<Longrightarrow> AList.update i v d = d @ [(i, v)]"
  by (induction d) auto

text \<open>One more meeting.\<close>

lemma kept_snoc:
  "kept ok cap self (vs @ [(p, i)]) =
     (if i = self \<or> i \<in> snd ` set vs \<or> \<not> ok i \<or> nat cap \<le> length (kept ok cap self vs) then kept ok cap self vs
      else kept ok cap self vs @ [i])"
  by (auto simp: kept_def min_def)

lemma kept_full: "length (kept ok cap self vs) < nat cap \<Longrightarrow>
    kept ok cap self vs = filter ok (firsts (filter (\<lambda>i. i \<noteq> self) (map snd vs)))"
  by (simp add: kept_def min_def split: if_splits)

lemma distinct_kept: "distinct (kept ok cap self vs)"
  by (simp add: kept_def)

text \<open>A step that meets, as both loops of the program make it.\<close>

definition spec_step :: "(int \<Rightarrow> bool) \<Rightarrow> int \<Rightarrow> int \<Rightarrow> probe \<times> int \<Rightarrow> hits \<Rightarrow> hits" where
  "spec_step ok cap self = (\<lambda>(p, i) out.
     if i = self then out
     else case map_of out i of
            Some ps \<Rightarrow> AList.update i (if p \<in> set ps then ps else ps @ [p]) out
          | None \<Rightarrow> if int (length out) < cap \<and> ok i then out @ [(i, [p])] else out)"

lemma spec_step_snoc: "spec_step ok cap self v (hits_spec ok cap self vs) = hits_spec ok cap self (vs @ [v])"
proof (cases v)
  case (Pair p i)
  let ?K = "kept ok cap self vs"
  have len: "int (length ?K) < cap \<longleftrightarrow> length ?K < nat cap" by linarith
  have full: "i \<in> set ?K" if "length ?K < nat cap" "ok i" "i \<noteq> self" "i \<in> snd ` set vs"
    using that kept_full [of ok cap self vs] by auto
  have nK: "self \<notin> set ?K" by (auto simp: kept_def dest: in_set_takeD)
  have sub: "j \<in> set ?K \<Longrightarrow> j \<in> snd ` set vs \<and> ok j" for j by (auto simp: kept_def dest: in_set_takeD)
  have met: "j \<notin> snd ` set vs \<Longrightarrow> met_under vs j = []" for j by (auto simp: met_under_def filter_empty_conv)
  show ?thesis
  proof (cases "i = self")
    case True
    then show ?thesis using nK
      by (auto simp: Pair spec_step_def hits_spec_def kept_snoc met_under_snoc)
  next
    case False
    show ?thesis
    proof (cases "i \<in> set ?K")
      case True
      then show ?thesis
        using False sub [OF True] distinct_kept [of ok cap self vs]
        by (auto simp: Pair spec_step_def hits_spec_def kept_snoc met_under_snoc map_of_hits update_hits)
    next
      case out: False
      have n: "map_of (hits_spec ok cap self vs) i = None" using out by (simp add: hits_spec_def map_of_hits)
      have same: "map (\<lambda>j. (j, met_under (vs @ [(p, i)]) j)) ?K = hits_spec ok cap self vs"
        using out by (auto simp: hits_spec_def met_under_snoc)
      have l: "length (hits_spec ok cap self vs) = length ?K" by (simp add: hits_spec_def)
      show ?thesis
      proof (cases "length ?K < nat cap \<and> ok i")
        case True
        then have "i \<notin> snd ` set vs" using full False out by blast
        then have "met_under (vs @ [(p, i)]) i = [p]" using met [of i] by (simp add: met_under_snoc)
        then show ?thesis
          using True False same \<open>i \<notin> snd ` set vs\<close> len
          by (simp add: Pair spec_step_def n l hits_spec_def [of ok cap self "vs @ [(p, i)]"] kept_snoc)
      next
        case no: False
        have "spec_step ok cap self v (hits_spec ok cap self vs) = hits_spec ok cap self vs"
          using no False len by (auto simp: Pair spec_step_def n l)
        moreover have "kept ok cap self (vs @ [(p, i)]) = ?K" using no by (auto simp: kept_snoc)
        ultimately show ?thesis using same by (simp add: Pair hits_spec_def)
      qed
    qed
  qed
qed

lemma spec_fold: "fold (spec_step ok cap self) vs (hits_spec ok cap self us) = hits_spec ok cap self (us @ vs)"
  by (induction vs arbitrary: us) (simp_all add: spec_step_snoc)

lemma hits_spec_Nil: "hits_spec ok cap self [] = []"
  by (simp add: hits_spec_def kept_def)

section \<open>The memo of refused pairs\<close>

lemma veto_of_sym: "veto_of bi (a, b) = veto_of bi (b, a)"
  using pair_veto_symmetric by (auto simp: veto_of_def split: option.splits)

lemma veto_of_key: "veto_of bi (pair_key a b) = veto_of bi (a, b)"
  using veto_of_sym [of bi a b] by (auto simp: pair_key_def)

lemma memo_ok_add:
  assumes ok: "memo_ok bi" and new: "p \<notin> set (vetoed_pairs bi)" and v: "veto_of bi p = Some v"
  shows "memo_ok (bi\<lparr>vetoed_pairs := vetoed_pairs bi @ [p], veto_counts := AList.update v
           (case map_of (veto_counts bi) v of None \<Rightarrow> 1 | Some n \<Rightarrow> n + 1) (veto_counts bi)\<rparr>)"
proof -
  have same: "veto_of (bi\<lparr>vetoed_pairs := xs, veto_counts := c\<rparr>) = veto_of bi" for xs c
    by (rule same_indexD) simp
  have counts: "(case map_of (veto_counts bi) w of None \<Rightarrow> 0 | Some n \<Rightarrow> n)
      = length (filter (\<lambda>p. veto_of bi p = Some w) (vetoed_pairs bi))" for w
    using ok by (simp add: memo_ok_def)
  have "(case map_of (veto_counts bi) v of None \<Rightarrow> 1 | Some n \<Rightarrow> n + 1)
      = Suc (length (filter (\<lambda>p. veto_of bi p = Some v) (vetoed_pairs bi)))"
    using counts [of v] by (simp split: option.splits)
  then show ?thesis
    using ok new v counts unfolding memo_ok_def same by (auto simp: update_conv')
qed

lemma guarded_correct:
  assumes ok: "memo_ok bi" and self: "map_of (bi_fps bi) (fp_id fp) = Some fp"
    and there: "map_of (bi_fps bi) i \<noteq> None"
  shows "\<exists>bi'. guarded fp i bi = Some (bi', \<not> admits_fp bi fp i) \<and> same_index bi bi' \<and> memo_ok bi'"
proof -
  obtain fp' where fp': "map_of (bi_fps bi) i = Some fp'" using there by blast
  have v: "veto_of bi (pair_key (fp_id fp) i) = pair_veto (bs_guard (bi_settings bi)) (base fp) (base fp')"
    unfolding veto_of_key using self fp' by (simp add: veto_of_def)
  have adm: "admits_fp bi fp i \<longleftrightarrow> veto_of bi (pair_key (fp_id fp) i) = None"
    unfolding v by (simp add: admits_fp_def fp')
  show ?thesis
  proof (cases "pair_key (fp_id fp) i \<in> set (vetoed_pairs bi)")
    case True
    then have "\<not> admits_fp bi fp i" using ok adm by (auto simp: memo_ok_def list_all_iff)
    then show ?thesis using True ok by (simp add: guarded_def)
  next
    case False
    show ?thesis
    proof (cases "veto_of bi (pair_key (fp_id fp) i)")
      case None
      then show ?thesis using False ok adm v by (simp add: guarded_def fp')
    next
      case (Some w)
      then show ?thesis
        using False adm v memo_ok_add [OF ok False Some] by (simp add: guarded_def fp' Let_def)
    qed
  qed
qed

section \<open>The candidates\<close>

lemma meet_correct:
  assumes ok: "memo_ok bi" and self: "map_of (bi_fps bi) (fp_id fp) = Some fp"
    and there: "map_of (bi_fps bi) (snd v) \<noteq> None"
  shows "\<exists>bi'. meet fp v (out, bi)
      = Some (spec_step (admits_fp bi fp) (max_candidates_per_listing (bi_settings bi)) (fp_id fp) v out, bi')
      \<and> same_index bi bi' \<and> memo_ok bi'"
proof -
  obtain p i where v: "v = (p, i)" by (cases v)
  obtain bi' where g: "guarded fp i bi = Some (bi', \<not> admits_fp bi fp i)" "same_index bi bi'" "memo_ok bi'"
    using guarded_correct [OF ok self] there by (auto simp: v)
  show ?thesis
  proof (cases "i = fp_id fp \<or> map_of out i \<noteq> None \<or> \<not> int (length out) < max_candidates_per_listing (bi_settings bi)")
    case True
    then show ?thesis using ok by (cases "map_of out i") (auto simp: meet_def spec_step_def v)
  next
    case False
    then have "i \<notin> fst ` set out" by (simp add: map_of_eq_None_iff)
    then show ?thesis using False g by (auto simp: meet_def spec_step_def v update_absent)
  qed
qed

lemma meet_all_correct:
  assumes "memo_ok bi" and "map_of (bi_fps bi) (fp_id fp) = Some fp"
    and "\<forall>v \<in> set vs. map_of (bi_fps bi) (snd v) \<noteq> None"
  shows "\<exists>bi'. foldM (meet fp) vs (out, bi)
      = Some (fold (spec_step (admits_fp bi fp) (max_candidates_per_listing (bi_settings bi)) (fp_id fp)) vs out, bi')
      \<and> same_index bi bi' \<and> memo_ok bi'"
  using assms
proof (induction vs arbitrary: out bi)
  case (Cons v vs)
  obtain bi1 where b1: "meet fp v (out, bi)
      = Some (spec_step (admits_fp bi fp) (max_candidates_per_listing (bi_settings bi)) (fp_id fp) v out, bi1)"
      "same_index bi bi1" "memo_ok bi1"
    using meet_correct [OF Cons.prems(1,2)] Cons.prems(3) by (metis list.set_intros(1))
  note d = same_indexD [OF b1(2)]
  have adm: "admits_fp bi1 fp = admits_fp bi fp" by (simp add: admits_fp_def fun_eq_iff d cong: option.case_cong)
  obtain bi2 where "foldM (meet fp) vs (spec_step (admits_fp bi fp) (max_candidates_per_listing (bi_settings bi)) (fp_id fp) v out, bi1)
      = Some (fold (spec_step (admits_fp bi fp) (max_candidates_per_listing (bi_settings bi)) (fp_id fp)) vs
           (spec_step (admits_fp bi fp) (max_candidates_per_listing (bi_settings bi)) (fp_id fp) v out), bi2)"
      "same_index bi1 bi2" "memo_ok bi2"
    using Cons.IH [of bi1 "spec_step (admits_fp bi fp) (max_candidates_per_listing (bi_settings bi)) (fp_id fp) v out"]
      b1(3) Cons.prems(2,3) by (auto simp: d adm)
  then show ?case using b1 same_index_trans by (fastforce simp: b1(1))
qed simp

lemma candidates_meetings:
  assumes "finalized bi" and "probe_keys bi fp = Some keys"
  shows "candidates fp bi = foldM (meet fp) (meetings bi keys) ([], bi)"
proof -
  have key: "foldM (\<lambda>k st. if k \<in> set (bi_exploded bi) then Some st
        else foldM (\<lambda>i. meet fp (p, i)) (posted bi k) st) ks st
      = foldM (meet fp) (concat (map (\<lambda>k. if k \<in> set (bi_exploded bi) then [] else
          map (Pair p) (posted bi k)) ks)) st" for p ks st
    unfolding foldM_concat foldM_map by (intro arg_cong2 [where f = "\<lambda>f s. foldM f ks s"] ext refl) (simp add: foldM_map)
  show ?thesis
    unfolding candidates_def meetings_def foldM_concat foldM_map key using assms by simp
qed

lemma meetings_posted:
  assumes "index_ok bi" and "v \<in> set (meetings bi keys)"
  shows "map_of (bi_fps bi) (snd v) \<noteq> None"
proof -
  obtain k where "snd v \<in> set (posted bi k)" using assms(2) by (auto simp: meetings_def split: if_splits)
  then obtain ms where "map_of (bi_postings bi) k = Some ms" "snd v \<in> set ms" by (cases "map_of (bi_postings bi) k") (auto simp: posted_def)
  then show ?thesis using assms(1) map_of_SomeD by (fastforce simp: index_ok_def list_all_iff)
qed

lemma candidates_spec:
  assumes ok: "index_ok bi" and self: "map_of (bi_fps bi) (fp_id fp) = Some fp"
    and keys: "probe_keys bi fp = Some keys"
  shows "\<exists>bi'. candidates fp bi = Some (hits_spec (admits_fp bi fp) (max_candidates_per_listing (bi_settings bi)) (fp_id fp)
           (meetings bi keys), bi') \<and> same_index bi bi' \<and> index_ok bi'"
proof -
  have b: "memo_ok bi" "finalized bi" using ok by (simp_all add: index_ok_def)
  obtain bi' where bi': "foldM (meet fp) (meetings bi keys) ([], bi)
      = Some (fold (spec_step (admits_fp bi fp) (max_candidates_per_listing (bi_settings bi)) (fp_id fp)) (meetings bi keys) [], bi')"
      "same_index bi bi'" "memo_ok bi'"
    using meet_all_correct [OF b(1) self] meetings_posted [OF ok] by blast
  have "index_ok bi'" using ok bi'(3) by (simp add: index_ok_def same_indexD [OF bi'(2)])
  moreover have "fold (spec_step (admits_fp bi fp) (max_candidates_per_listing (bi_settings bi)) (fp_id fp)) (meetings bi keys) []
      = hits_spec (admits_fp bi fp) (max_candidates_per_listing (bi_settings bi)) (fp_id fp) (meetings bi keys)"
    using spec_fold [of _ _ _ "meetings bi keys" "[]"] by (simp add: hits_spec_Nil)
  ultimately show ?thesis using bi' candidates_meetings [OF b(2) keys] by auto
qed

section \<open>The cap discards the weakest evidence\<close>

text \<open>The place of a probe in the fill order, and the strongest probe that met an advert.\<close>

definition strength :: "probe list \<Rightarrow> probe \<Rightarrow> nat" where
  "strength ps p = length (takeWhile (\<lambda>q. q \<noteq> p) ps)"

definition best_probe :: "probe list \<Rightarrow> (probe \<times> int) list \<Rightarrow> int \<Rightarrow> nat" where
  "best_probe ps vs i = strength ps (hd (met_under vs i))"

lemma met_under_ne_iff: "met_under vs i = [] \<longleftrightarrow> i \<notin> snd ` set vs"
  by (auto simp: met_under_def filter_empty_conv image_iff)

lemma met_under_ne: "i \<in> snd ` set vs \<Longrightarrow> met_under vs i \<noteq> []"
  by (simp add: met_under_ne_iff)

lemma hd_met_under: "i \<in> snd ` set vs \<Longrightarrow> (hd (met_under vs i), i) \<in> set vs"
  using hd_in_set [OF met_under_ne, of i vs] by (auto simp: met_under_def)

lemma hd_met_snoc: "i \<in> snd ` set vs \<Longrightarrow> hd (met_under (vs @ [v]) i) = hd (met_under vs i)"
  using met_under_ne [of i vs] by (cases v) (auto simp: met_under_snoc)

lemma firsts_by_strength:
  "sorted (map (strength ps \<circ> fst) vs) \<Longrightarrow> sorted (map (best_probe ps vs) (firsts (map snd vs)))"
proof (induction vs rule: rev_induct)
  case (snoc v vs)
  have IH: "sorted (map (best_probe ps vs) (firsts (map snd vs)))"
    and le: "\<forall>u \<in> set vs. strength ps (fst u) \<le> strength ps (fst v)"
    using snoc by (auto simp: sorted_append)
  have keep: "best_probe ps (vs @ [v]) i = best_probe ps vs i" if "i \<in> set (map snd vs)" for i
    using that by (simp add: best_probe_def hd_met_snoc)
  have old: "map (best_probe ps (vs @ [v])) (firsts (map snd vs)) = map (best_probe ps vs) (firsts (map snd vs))"
    by (rule map_cong) (use keep in auto)
  show ?case
  proof (cases "snd v \<in> set (map snd vs)")
    case True
    show ?thesis using IH by (simp only: map_append list.map firsts_snoc True if_True old)
  next
    case False
    then have "met_under vs (snd v) = []" by (simp add: met_under_ne_iff)
    then have new: "best_probe ps (vs @ [v]) (snd v) = strength ps (fst v)"
      by (cases v) (simp add: best_probe_def met_under_snoc)
    have "best_probe ps vs i \<le> strength ps (fst v)" if "i \<in> snd ` set vs" for i
      using le hd_met_under [OF that] by (force simp: best_probe_def)
    moreover have "map (best_probe ps (vs @ [v])) (firsts (map snd (vs @ [v])))
        = map (best_probe ps vs) (firsts (map snd vs)) @ [strength ps (fst v)]"
      by (simp only: map_append list.map firsts_snoc False if_False old new)
    ultimately show ?thesis using IH by (simp only:) (auto simp: sorted_append)
  qed
qed simp

lemma strength_head: "strength (p # ps) q = (if q = p then 0 else Suc (strength ps q))"
  by (auto simp: strength_def)

lemma sorted_map_Suc: "sorted (map Suc xs) = sorted xs"
  by (induction xs) auto

lemma blocks_by_strength:
  assumes "distinct ps" and "\<And>p v. p \<in> set ps \<Longrightarrow> v \<in> set (g p) \<Longrightarrow> fst v = p"
  shows "sorted (map (strength ps \<circ> fst) (concat (map g ps)))"
  using assms
proof (induction ps)
  case (Cons p ps)
  have "sorted (map (strength ps \<circ> fst) (concat (map g ps)))"
    by (rule Cons.IH) (use Cons.prems in auto)
  moreover have "strength (p # ps) (fst v) = Suc (strength ps (fst v))" if v: "v \<in> set (concat (map g ps))" for v
  proof -
    obtain q where "q \<in> set ps" "v \<in> set (g q)" using v by auto
    then have "fst v = q" "q \<noteq> p" using Cons.prems by auto
    then show ?thesis by (simp add: strength_head)
  qed
  then have eq: "map (strength (p # ps) \<circ> fst) (concat (map g ps)) = map Suc (map (strength ps \<circ> fst) (concat (map g ps)))"
    by simp
  ultimately have rest: "sorted (map (strength (p # ps) \<circ> fst) (concat (map g ps)))"
    by (simp only: eq sorted_map_Suc)
  have "strength (p # ps) (fst v) = 0" if "v \<in> set (g p)" for v using that Cons.prems(2) by (simp add: strength_head)
  then have "map (strength (p # ps) \<circ> fst) (g p) = replicate (length (g p)) 0"
    by (intro replicate_eqI) auto
  then have "map (strength (p # ps) \<circ> fst) (concat (map g (p # ps)))
      = replicate (length (g p)) 0 @ map (strength (p # ps) \<circ> fst) (concat (map g ps))"
    by (simp only: list.map concat.simps map_append)
  then show ?case using rest by (simp only:) (simp only: sorted_append set_replicate_conv_if, simp)
qed simp

lemma distinct_probe_priority: "distinct (probe_priority cfg)"
  by (simp add: probe_priority_def PROBE_PRIORITY_def)

lemma meetings_by_strength:
  "sorted (map (strength (probe_priority (bi_settings bi)) \<circ> fst) (meetings bi keys))"
  unfolding meetings_def
  by (rule blocks_by_strength [OF distinct_probe_priority]) (auto split: if_splits)

lemma take_sorted_le: "sorted (map f xs) \<Longrightarrow> x \<in> set (take n xs) \<Longrightarrow> y \<in> set xs \<Longrightarrow> y \<notin> set (take n xs) \<Longrightarrow> f x \<le> (f y :: nat)"
proof -
  assume s: "sorted (map f xs)" and x: "x \<in> set (take n xs)" and y: "y \<in> set xs" "y \<notin> set (take n xs)"
  have "sorted (map f (take n xs) @ map f (drop n xs))" using s by (simp flip: map_append)
  moreover have "y \<in> set (drop n xs)" using y by (metis Un_iff append_take_drop_id set_append)
  ultimately show "f x \<le> f y" using x by (auto simp: sorted_append)
qed

lemma sorted_filter_map: "sorted (map f xs) \<Longrightarrow> sorted (map f (filter P xs))"
  by (induction xs) auto

text \<open>
  C14. Retrieval: an index that can be asked answers an advert it holds with the first
  \<open>max_candidates_per_listing\<close> of the adverts the guards admit, in the order in which its probes meet them,
  each with the probes that met it. So there are never more than the cap, and an admitted advert that was met
  and is left out was left out by a full answer in which nothing was met by a weaker probe only. The answer
  leaves the index as it was but for the memo of refused pairs, which holds every pair once and stays the
  count of the guards' own refusals.
\<close>

theorem candidates_correct:
  assumes "index_ok bi" and "map_of (bi_fps bi) (fp_id fp) = Some fp" and "probe_keys bi fp = Some keys"
  shows "\<exists>out bi'. candidates fp bi = Some (out, bi') \<and> index_ok bi' \<and> same_index bi bi'
     \<and> out = hits_spec (admits_fp bi fp) (max_candidates_per_listing (bi_settings bi)) (fp_id fp) (meetings bi keys)
     \<and> length out \<le> nat (max_candidates_per_listing (bi_settings bi))
     \<and> (\<forall>i \<in> snd ` set (meetings bi keys) - {fp_id fp} - fst ` set out. admits_fp bi fp i \<longrightarrow>
          length out = nat (max_candidates_per_listing (bi_settings bi)) \<and>
          (\<forall>j \<in> fst ` set out. best_probe (probe_priority (bi_settings bi)) (meetings bi keys) j
             \<le> best_probe (probe_priority (bi_settings bi)) (meetings bi keys) i))"
proof -
  let ?vs = "meetings bi keys" and ?cap = "max_candidates_per_listing (bi_settings bi)"
    and ?r = "best_probe (probe_priority (bi_settings bi)) (meetings bi keys)"
  let ?xs = "filter (admits_fp bi fp) (firsts (filter (\<lambda>i. i \<noteq> fp_id fp) (map snd ?vs)))"
  let ?out = "hits_spec (admits_fp bi fp) ?cap (fp_id fp) ?vs"
  have ids: "fst ` set ?out = set (take (nat ?cap) ?xs)" by (simp add: hits_spec_def kept_def image_image)
  have len: "length ?out = min (length ?xs) (nat ?cap)" by (simp add: hits_spec_def kept_def)
  have sorted: "sorted (map ?r ?xs)"
    unfolding firsts_filter by (intro sorted_filter_map firsts_by_strength meetings_by_strength)
  have left: "length ?out = nat ?cap \<and> (\<forall>j \<in> fst ` set ?out. ?r j \<le> ?r i)"
    if i: "i \<in> snd ` set ?vs - {fp_id fp} - fst ` set ?out" "admits_fp bi fp i" for i
  proof -
    have x: "i \<in> set ?xs" "i \<notin> set (take (nat ?cap) ?xs)" using i ids by auto
    then have "nat ?cap < length ?xs" by (metis linorder_not_le take_all)
    then show ?thesis using take_sorted_le [OF sorted _ x] len ids by auto
  qed
  moreover obtain bi' where "candidates fp bi = Some (?out, bi')" "same_index bi bi'" "index_ok bi'"
    using candidates_spec [OF assms] by blast
  ultimately show ?thesis using len by auto
qed

section \<open>Building the index\<close>

text \<open>As \<open>Calibration.build\<close> and the cohort pass do: every fingerprint is added, then the index is finalized.\<close>

definition built :: "blocking_settings \<Rightarrow> full_fp list \<Rightarrow> block_index option" where
  "built cfg fps = Option.bind (foldM add_fp fps (new_index cfg)) finalize"

definition unbuilt :: "block_index \<Rightarrow> bool" where
  "unbuilt bi \<longleftrightarrow> \<not> finalized bi \<and> \<not> keys_ready bi \<and> bi_postings bi = [] \<and> vetoed_pairs bi = [] \<and> veto_counts bi = []
     \<and> list_all (\<lambda>(i, fp). fp_id fp = i) (bi_fps bi) \<and> distinct (map fst (bi_fps bi))"

lemma add_fp_unbuilt:
  assumes "unbuilt bi"
  shows "\<exists>bi'. add_fp fp bi = Some bi' \<and> unbuilt bi' \<and> bi_settings bi' = bi_settings bi
     \<and> map_of (bi_fps bi') = (map_of (bi_fps bi))(fp_id fp \<mapsto> fp)"
proof -
  let ?d = "AList.update (fp_id fp) fp (bi_fps bi)"
  have d: "distinct (map fst ?d)" using assms by (simp add: unbuilt_def distinct_update)
  have "fp_id f = i" if "(i, f) \<in> set ?d" for i f
  proof -
    have "((map_of (bi_fps bi))(fp_id fp \<mapsto> fp)) i = Some f"
      using map_of_is_SomeI [OF d that] by (simp add: update_conv')
    then show ?thesis using assms map_of_SomeD [of "bi_fps bi" i f]
      by (auto simp: unbuilt_def list_all_iff split: if_splits)
  qed
  then have "list_all (\<lambda>(i, f). fp_id f = i) ?d" by (auto simp: list_all_iff)
  then show ?thesis using assms by (simp add: add_fp_def unbuilt_def distinct_update update_conv')
qed

lemma add_all:
  "unbuilt bi \<Longrightarrow> \<exists>bi'. foldM add_fp fps bi = Some bi' \<and> unbuilt bi' \<and> bi_settings bi' = bi_settings bi
     \<and> map_of (bi_fps bi') = fold (\<lambda>fp m. m(fp_id fp \<mapsto> fp)) fps (map_of (bi_fps bi))"
proof (induction fps arbitrary: bi)
  case (Cons fp fps)
  obtain b where "add_fp fp bi = Some b" "unbuilt b" "bi_settings b = bi_settings bi"
      "map_of (bi_fps b) = (map_of (bi_fps bi))(fp_id fp \<mapsto> fp)"
    using add_fp_unbuilt [OF Cons.prems] by blast
  then show ?case using Cons.IH [of b] by simp
qed simp

text \<open>The keys an advert is posted under, in an index that has its cuts.\<close>

definition keys_of :: "block_index \<Rightarrow> full_fp \<Rightarrow> key list" where
  "keys_of bi fp = posting_keys fp (bi_settings bi) (if truthy (fp_broker_key fp)
     then decile_of (fp_price fp) (map_of (price_cuts bi) (fp_cat_group fp, fp_type fp)) else None)"

lemma index_keys_ready: "keys_ready bi \<Longrightarrow> index_keys bi fp = Some (keys_of bi fp)"
  by (simp add: index_keys_def keys_of_def price_decile_def)

lemma posted_dict_append: "posted (bi\<lparr>bi_postings := dict_append k i d\<rparr>) k'
    = (if k' = k then posted (bi\<lparr>bi_postings := d\<rparr>) k @ [i] else posted (bi\<lparr>bi_postings := d\<rparr>) k')"
  by (auto simp: posted_def map_of_dict_append split: option.splits)

lemma posted_keys: "posted (bi\<lparr>bi_postings := fold (\<lambda>k. dict_append k i) ks d\<rparr>) k'
    = posted (bi\<lparr>bi_postings := d\<rparr>) k' @ replicate (length (filter (\<lambda>k. k = k') ks)) i"
proof (induction ks arbitrary: d)
  case (Cons k ks)
  then show ?case by (simp add: Cons.IH posted_dict_append)
qed simp

definition post_all :: "block_index \<Rightarrow> (int \<times> full_fp) list \<Rightarrow> key \<Rightarrow> int list" where
  "post_all bi rows k' = concat (map (\<lambda>(i, fp). replicate (length (filter (\<lambda>k. k = k') (keys_of bi fp))) i) rows)"

text \<open>A table of postings holds a key once, and never an empty list.\<close>

definition postings_ok :: "(key, int list) dict \<Rightarrow> bool" where
  "postings_ok d \<longleftrightarrow> distinct (map fst d) \<and> list_all (\<lambda>(_, ms). ms \<noteq> []) d"

lemma postings_ok_append: "postings_ok d \<Longrightarrow> postings_ok (dict_append k i d)"
proof -
  assume ok: "postings_ok d"
  then have d: "distinct (map fst (dict_append k i d))" by (simp add: postings_ok_def distinct_dict_append)
  have "ms \<noteq> []" if "(l, ms) \<in> set (dict_append k i d)" for l ms
  proof -
    have "map_of (dict_append k i d) l = Some ms" by (rule map_of_is_SomeI [OF d that])
    then show ?thesis using ok map_of_SomeD [of d l ms]
      by (auto simp: map_of_dict_append postings_ok_def list_all_iff split: if_splits option.splits)
  qed
  then show ?thesis using d by (auto simp: postings_ok_def list_all_iff)
qed

lemma postings_ok_fold: "postings_ok d \<Longrightarrow> postings_ok (fold (\<lambda>k. dict_append k i) ks d)"
  by (induction ks arbitrary: d) (auto intro: postings_ok_append)

lemma post_rows:
  assumes "keys_ready bi" and "postings_ok (bi_postings bi)"
  shows "\<exists>d. foldM post rows bi = Some (bi\<lparr>bi_postings := d\<rparr>) \<and> postings_ok d
    \<and> (\<forall>k. posted (bi\<lparr>bi_postings := d\<rparr>) k = posted bi k @ post_all bi rows k)"
  using assms
proof (induction rows arbitrary: bi)
  case Nil
  then show ?case by (auto simp: post_all_def intro: exI [of _ "bi_postings bi"])
next
  case (Cons r rows)
  obtain i fp where r: "r = (i, fp)" by (cases r)
  let ?d = "fold (\<lambda>k. dict_append k i) (keys_of bi fp) (bi_postings bi)"
  have p: "post r bi = Some (bi\<lparr>bi_postings := ?d\<rparr>)" using index_keys_ready [OF Cons.prems(1)] by (simp add: post_def r)
  have same: "keys_of (bi\<lparr>bi_postings := ?d\<rparr>) = keys_of bi" by (simp add: keys_of_def fun_eq_iff)
  have "postings_ok ?d" using Cons.prems(2) by (rule postings_ok_fold)
  then obtain d where d: "foldM post rows (bi\<lparr>bi_postings := ?d\<rparr>) = Some (bi\<lparr>bi_postings := d\<rparr>)" "postings_ok d"
      "\<forall>k. posted (bi\<lparr>bi_postings := d\<rparr>) k = posted (bi\<lparr>bi_postings := ?d\<rparr>) k @ post_all bi rows k"
    using Cons.IH [of "bi\<lparr>bi_postings := ?d\<rparr>"] Cons.prems by (auto simp: post_all_def same)
  have "posted (bi\<lparr>bi_postings := ?d\<rparr>) k = posted bi k @ replicate (length (filter (\<lambda>l. l = k) (keys_of bi fp))) i" for k
    using posted_keys [where bi = bi and i = i and ks = "keys_of bi fp" and d = "bi_postings bi"] by simp
  then show ?case using p d by (auto simp: r post_all_def)
qed

lemma post_all_mem: "i \<in> set (post_all bi rows k) \<longleftrightarrow> (\<exists>fp. (i, fp) \<in> set rows \<and> k \<in> set (keys_of bi fp))"
  by (auto simp: post_all_def filter_empty_conv)

lemma post_all_Cons: "post_all bi (r # rows) k
    = replicate (length (filter (\<lambda>l. l = k) (keys_of bi (snd r)))) (fst r) @ post_all bi rows k"
  by (cases r) (simp add: post_all_def)

lemma sorted_post_all: "sorted (map fst rows) \<Longrightarrow> sorted (post_all bi rows k)"
proof (induction rows)
  case (Cons r rows)
  have "\<forall>x \<in> set (post_all bi rows k). fst r \<le> x" using Cons.prems post_all_mem by fastforce
  then show ?case using Cons by (auto simp: post_all_Cons sorted_append set_replicate_conv_if)
qed (simp add: post_all_def)

lemma posted_exploded:
  assumes "postings_ok (bi_postings bi)"
  shows "k \<in> fst ` set (filter (\<lambda>(_, ms). int (length ms) > n) (bi_postings bi))
    \<longleftrightarrow> posted bi k \<noteq> [] \<and> int (length (posted bi k)) > n"
proof -
  have d: "distinct (map fst (bi_postings bi))" using assms by (simp add: postings_ok_def)
  have ne: "ms \<noteq> []" if "(k, ms) \<in> set (bi_postings bi)" for ms
    using assms that by (auto simp: postings_ok_def list_all_iff)
  show ?thesis
  proof (cases "map_of (bi_postings bi) k")
    case None
    then have "k \<notin> fst ` set (bi_postings bi)" by (simp add: map_of_eq_None_iff)
    then show ?thesis by (auto simp: posted_def None rev_image_eqI)
  next
    case (Some ms)
    then have "(k, l) \<in> set (bi_postings bi) \<longleftrightarrow> l = ms" for l using d by (metis map_of_SomeD map_of_is_SomeI option.inject)
    then show ?thesis using ne [OF map_of_SomeD [OF Some]] by (force simp: posted_def Some)
  qed
qed

text \<open>
  C8. Posting: the index of a cohort comes out ready to be asked. It holds every advert (the last row of an
  id), an advert is posted under exactly its own keys, every posting list is ascending, and the exploded keys
  are those with more postings than \<open>max_block_size\<close>.
\<close>

theorem built_correct:
  "\<exists>bi. built cfg fps = Some bi \<and> index_ok bi \<and> bi_settings bi = cfg
     \<and> map_of (bi_fps bi) = fold (\<lambda>fp m. m(fp_id fp \<mapsto> fp)) fps Map.empty
     \<and> (\<forall>k. sorted (posted bi k) \<and>
          (k \<in> set (bi_exploded bi)) = (posted bi k \<noteq> [] \<and> int (length (posted bi k)) > max_block_size cfg))
     \<and> (\<forall>i k. i \<in> set (posted bi k) \<longleftrightarrow>
          (case map_of (bi_fps bi) i of None \<Rightarrow> False | Some fp \<Rightarrow> k \<in> set (keys_of bi fp)))"
proof -
  have "unbuilt (new_index cfg)" by (simp add: unbuilt_def new_index_def)
  then obtain b where b: "foldM add_fp fps (new_index cfg) = Some b" "unbuilt b" "bi_settings b = cfg"
      "map_of (bi_fps b) = fold (\<lambda>fp m. m(fp_id fp \<mapsto> fp)) fps Map.empty"
    using add_all [of "new_index cfg" fps] by (auto simp: new_index_def)
  let ?b1 = "(build_price_cuts b)\<lparr>keys_ready := True\<rparr>" and ?rows = "sort_key fst (bi_fps b)"
  have b1: "keys_ready ?b1" "bi_fps ?b1 = bi_fps b" "bi_settings ?b1 = cfg" "\<not> finalized b" "bi_postings ?b1 = []"
      "vetoed_pairs ?b1 = []" "veto_counts ?b1 = []"
    using b(2,3) by (simp_all add: build_price_cuts_def Let_def unbuilt_def)
  obtain d where d: "foldM post ?rows ?b1 = Some (?b1\<lparr>bi_postings := d\<rparr>)" "postings_ok d"
      "\<forall>k. posted (?b1\<lparr>bi_postings := d\<rparr>) k = posted ?b1 k @ post_all ?b1 ?rows k"
    using post_rows [of ?b1 ?rows] b1 by (auto simp: postings_ok_def)
  define bi where "bi = ?b1\<lparr>bi_postings := d, bi_exploded := map fst (filter (\<lambda>(_, ms). int (length ms) > max_block_size cfg) d),
      finalized := True\<rparr>"
  have run: "built cfg fps = Some bi" using b b1 d(1) by (simp add: built_def finalize_def Let_def bi_def)
  have posted: "posted bi k = post_all bi ?rows k" for k
  proof -
    have "posted bi k = posted (?b1\<lparr>bi_postings := d\<rparr>) k" by (simp add: bi_def posted_def)
    also have "\<dots> = post_all ?b1 ?rows k" using d(3) b1(5) by (simp add: posted_def)
    also have "\<dots> = post_all bi ?rows k" by (simp add: post_all_def keys_of_def bi_def cong: if_cong)
    finally show ?thesis .
  qed
  have f: "bi_fps bi = bi_fps b" "bi_settings bi = cfg" "bi_postings bi = d" "finalized bi" "keys_ready bi"
    using b1 by (simp_all add: bi_def)
  have dist: "distinct (map fst (bi_fps b))" and ids: "list_all (\<lambda>(i, fp). fp_id fp = i) (bi_fps b)"
    using b(2) by (simp_all add: unbuilt_def)
  have mem: "i \<in> set (posted bi k) \<longleftrightarrow>
      (case map_of (bi_fps bi) i of None \<Rightarrow> False | Some fp \<Rightarrow> k \<in> set (keys_of bi fp))" for i k
  proof -
    have "(i, fp) \<in> set (bi_fps b) \<longleftrightarrow> map_of (bi_fps b) i = Some fp" for fp
      using dist by (metis map_of_SomeD map_of_is_SomeI)
    then show ?thesis by (auto simp: posted post_all_mem f split: option.splits)
  qed
  have explo: "k \<in> set (bi_exploded bi) \<longleftrightarrow> posted bi k \<noteq> [] \<and> int (length (posted bi k)) > max_block_size cfg" for k
    using posted_exploded [of bi k "max_block_size cfg"] d(2) by (simp add: f) (simp add: bi_def)
  have "map_of (bi_fps bi) i \<noteq> None" if "(k, ms) \<in> set d" "i \<in> set ms" for k ms i
  proof -
    have "posted bi k = ms" using that(1) d(2) by (simp add: posted_def f postings_ok_def)
    then show ?thesis using that(2) mem by (auto split: option.splits)
  qed
  then have "index_ok bi"
    using ids b1 by (auto simp: index_ok_def memo_ok_def f bi_def list_all_iff)
  then show ?thesis using run f b(4) mem explo posted sorted_post_all [of ?rows bi] by auto
qed

section \<open>Deciles\<close>

lemma count_cuts_range: "0 \<le> count_cuts p cs \<and> count_cuts p cs \<le> int (length cs)"
  by (induction cs) auto

text \<open>A decile is one of ten, and a dearer advert is never in a lower one.\<close>

lemma decile_of_range: "case decile_of p cuts of None \<Rightarrow> True | Some n \<Rightarrow> 0 \<le> n \<and> n < DECILES"
  using count_cuts_range by (auto simp: decile_of_def DECILES_def split: option.split list.split)

lemma count_cuts_mono: "p \<le> q \<Longrightarrow> count_cuts p cs \<le> count_cuts q cs"
  using count_cuts_range by (induction cs) auto

lemma decile_of_mono:
  assumes "p \<le> q" and "decile_of (Some p) cuts = Some m" and "decile_of (Some q) cuts = Some n"
  shows "m \<le> n"
proof -
  obtain c cs where cuts: "cuts = Some (c # cs)" using assms(2) by (auto simp: decile_of_def split: option.splits list.splits)
  have "min (count_cuts p (c # cs)) (DECILES - 1) \<le> min (count_cuts q (c # cs)) (DECILES - 1)"
    by (intro min.mono count_cuts_mono assms(1) order_refl)
  moreover have "m = min (count_cuts p (c # cs)) (DECILES - 1)" "n = min (count_cuts q (c # cs)) (DECILES - 1)"
    using assms(2,3) by (simp_all only: decile_of_def cuts prod.case option.case list.case option.inject)
  ultimately show ?thesis by simp
qed

text \<open>Looking up is symmetric on the bands: what an advert of one key looks up looks it up as well.\<close>

lemma probed_band_symmetric:
  "Area_key k g t b \<in> set (probed town (Area_key k g t c)) \<longleftrightarrow> Area_key k g t c \<in> set (probed town (Area_key k g t b))"
  by auto

section \<open>An example\<close>

text \<open>Three flats of one block; the second stands one area band above the first, the third is let.\<close>

definition ex_fp :: "int \<Rightarrow> string \<Rightarrow> int \<Rightarrow> full_fp" where
  "ex_fp i deal band = \<lparr>fp_id = i, fp_type = Some deal, fp_main = Some ''byt'', fp_area = Some 50,
     fp_disposition = None, fp_floor = Some 2, fp_source = Some ''s'', fp_block_key = ''k'', fp_obec_kod = Some 5,
     fp_cast_obce_kod = None, fp_cat_group = Some ''byt'', fp_area_band = Some band, fp_broker_key = None,
     fp_street_key = None, fp_house_number = None, fp_price = None, fp_has_text = False, fp_desc_bands = [],
     fp_anchor_bands = [(0, 7, 99)], fp_catalog_ratio = None, fp_country_status = None\<rparr>"

definition ex_blocking :: blocking_settings where
  "ex_blocking = \<lparr>max_block_size = 100, max_candidates_per_listing = 1, attr_probe_town_grain = False,
     bs_guard = default_guard_settings\<rparr>"

definition ex_index :: block_index where
  "ex_index = the (built ex_blocking [ex_fp 1 ''p'' 10, ex_fp 2 ''p'' 11, ex_fp 3 ''l'' 10, ex_fp 4 ''p'' 30])"

lemma ex_index_ok: "index_ok ex_index"
proof -
  have "finalized ex_index \<and> keys_ready ex_index \<and> vetoed_pairs ex_index = [] \<and> veto_counts ex_index = []
     \<and> list_all (\<lambda>(i, fp). fp_id fp = i) (bi_fps ex_index)
     \<and> list_all (\<lambda>(_, ms). list_all (\<lambda>i. map_of (bi_fps ex_index) i \<noteq> None) ms) (bi_postings ex_index)"
    by code_simp
  then show ?thesis by (simp add: index_ok_def memo_ok_def)
qed

theorem candidates_witness:
  "\<exists>bi'. candidates (ex_fp 1 ''p'' 10) ex_index = Some ([(2, [Phash, Attr_area])], bi') \<and> index_ok bi'
     \<and> same_index ex_index bi'"
proof -
  have "map_of (bi_fps ex_index) (fp_id (ex_fp 1 ''p'' 10)) = Some (ex_fp 1 ''p'' 10)" by code_simp
  moreover have "probe_keys ex_index (ex_fp 1 ''p'' 10) = Some
      [Phash_key 0 7, Area_key ''k'' (Some ''byt'') (Some ''p'') 9, Area_key ''k'' (Some ''byt'') (Some ''p'') 10,
       Area_key ''k'' (Some ''byt'') (Some ''p'') 11]" by code_simp
  moreover have "map_option fst (candidates (ex_fp 1 ''p'' 10) ex_index) = Some [(2, [Phash, Attr_area])]" by code_simp
  ultimately show ?thesis using candidates_correct [OF ex_index_ok] by fastforce
qed

end
