(* ===== verification/Incremental_Store.thy ===== *)
theory Incremental_Store
  imports Cluster_Local Blocking Decide "HOL-Library.Log_Nat"
begin

text \<open>
  The store of the incremental lane: the rows of \<open>autodedup/incremental.py\<close>, what a score column keeps of a
  score (\<open>autodedup/store_score.py\<close>) and \<open>MemoryStore\<close> of \<open>autodedup/incremental_store.py\<close>, the
  twin that mirrors the SQL store verb by verb. A Python set is a list without repeats; the order in which a
  loop walks one is the order of that list, and no result below depends on it. A raise is \<open>None\<close>.
\<close>

section \<open>Rows\<close>

text \<open>\<open>Evidence\<close>: what a gallery's producers have delivered.\<close>

record gallery =
  n_images :: nat
  n_phash :: nat
  n_clip :: nat
  n_tags :: nat

definition gallery_complete :: "gallery \<Rightarrow> bool" where
  "gallery_complete g \<longleftrightarrow> n_images g = 0
     \<or> (n_images g \<le> n_phash g \<and> n_images g \<le> n_clip g \<and> n_images g \<le> n_tags g)"

text \<open>\<open>FpRow\<close>. \<open>GuardRow\<close> is the fields of a fingerprint that the guards read.\<close>

record fp_row =
  fr_guard :: fingerprint
  fr_digest :: string
  fr_cell :: "string \<times> string"
  fr_active :: bool
  fr_gallery :: gallery
  fr_first :: "rat option"
  fr_dd :: string

record pair_row =
  pr_lo :: int
  pr_hi :: int
  pr_probes :: "probe list"
  pr_from_lo :: bool
  pr_from_hi :: bool
  pr_zone :: string
  pr_score :: rat
  pr_families :: "string list"
  pr_certificate :: "string option"
  pr_veto :: "string option"
  pr_reason :: string
  pr_evidence :: "(string, string) dict"
  pr_context :: "(string, string) dict"
  pr_fp_lo :: string
  pr_fp_hi :: string
  pr_slots :: "feats option"
  pr_dd_lo :: string
  pr_dd_hi :: string

definition row_decision :: "pair_row \<Rightarrow> decision" where
  "row_decision r = \<lparr>d_lo = pr_lo r, d_hi = pr_hi r, d_score = pr_score r,
     d_certificate = pr_certificate r, d_zone = pr_zone r, d_families = pr_families r\<rparr>"

text \<open>\<open>CellRow\<close>, and what \<open>bump_cell\<close> reads of an advert.\<close>

record cell_row =
  cl_n :: nat
  cl_shapes :: "string list"
  cl_brokers :: "string list"
  cl_sources :: "string list"
  cl_capped :: bool

record census_ad =
  ca_cell :: "string \<times> string"
  ca_shape :: "string option"
  ca_broker :: "string option"
  ca_source :: "string option"

definition SET_CAP :: nat where "SET_CAP = 256"
definition FEATURE_VERSION :: int where "FEATURE_VERSION = 5"

section \<open>What the score column keeps\<close>

definition PAIR_SCORE_SQL_TYPE :: string where "PAIR_SCORE_SQL_TYPE = ''double precision''"

text \<open>\<^verbatim>\<open>struct.unpack("f", struct.pack("f", score))\<close>: the nearest float4, halves to even; too large is a raise.\<close>

definition round_half_even :: "rat \<Rightarrow> int" where
  "round_half_even x = (let f = \<lfloor>x\<rfloor>; r = x - of_int f
     in if r < 1/2 then f else if r > 1/2 then f + 1 else if even f then f else f + 1)"

definition two_to :: "int \<Rightarrow> rat" where
  "two_to e = (if 0 \<le> e then 2 ^ nat e else 1 / 2 ^ nat (- e))"

definition binade :: "rat \<Rightarrow> int" where
  "binade x = (case quotient_of \<bar>x\<bar> of (n, d) \<Rightarrow>
     let k = int (nat (bitlen n)) - int (nat (bitlen d)) in if two_to k \<le> \<bar>x\<bar> then k else k - 1)"

definition float4 :: "rat \<Rightarrow> rat option" where
  "float4 x =
     (if x = 0 then Some 0
      else let unit = two_to (max (binade x) (- 126) - 23); y = of_int (round_half_even (x / unit)) * unit
           in if \<bar>y\<bar> < two_to 128 then Some y else None)"

definition narrow :: "string \<Rightarrow> rat \<Rightarrow> rat option" where
  "narrow sql_type score =
     (if sql_type = ''double precision'' then Some score
      else if sql_type \<noteq> ''real'' then None
      else float4 score)"

definition is_lossless :: "string \<Rightarrow> bool" where
  "is_lossless sql_type \<longleftrightarrow> sql_type = ''double precision''"

definition storable :: "string \<Rightarrow> rat \<Rightarrow> (string, string) dict \<Rightarrow> rat \<Rightarrow> bool" where
  "storable zone score evidence store_floor \<longleftrightarrow>
     zone = ''merge'' \<or> zone = ''band'' \<or> evidence \<noteq> [] \<or> store_floor \<le> score"

section \<open>The report of a clustering\<close>

text \<open>\<open>cluster.cluster_rows\<close>: one row per cluster.\<close>

record cluster_report =
  cr_key :: int
  cr_members :: "int list"
  cr_blocks :: "string list"
  cr_groups :: "string list"
  cr_mains :: "string list"
  cr_types :: "string list"
  cr_sources :: "string list"
  cr_area_min :: "rat option"
  cr_area_max :: "rat option"
  cr_n_edges :: nat
  cr_min_score :: "rat option"
  cr_mean_score :: "rat option"
  cr_n_certificates :: nat
  cr_families :: "string list"
  cr_shared_photo :: bool

definition stated_words :: "string option list \<Rightarrow> string list" where
  "stated_words ws = sort (remdups (filter (\<lambda>w. w \<noteq> []) (List.map_filter id ws)))"

definition cluster_edges :: "cluster_result \<Rightarrow> decision list \<Rightarrow> int \<Rightarrow> decision list" where
  "cluster_edges res ds key =
     filter (\<lambda>d. d_zone d = ''merge'' \<and> cluster_of res (d_lo d) = Some key \<and> cluster_of res (d_hi d) = Some key) ds"

definition cluster_row :: "cluster_result \<Rightarrow> decision list \<Rightarrow> (int \<Rightarrow> full_fp option) \<Rightarrow> int \<times> int list \<Rightarrow> cluster_report" where
  "cluster_row res ds fps = (\<lambda>(key, ms).
     let prints = List.map_filter fps ms; areas = List.map_filter fp_area prints;
         es = cluster_edges res ds key; scores = map d_score es
     in \<lparr>cr_key = key, cr_members = ms, cr_blocks = sort (remdups (map fp_block_key prints)),
         cr_groups = stated_words (map fp_cat_group prints), cr_mains = stated_words (map fp_main prints),
         cr_types = stated_words (map fp_type prints), cr_sources = stated_words (map fp_source prints),
         cr_area_min = (if areas = [] then None else Some (Min (set areas))),
         cr_area_max = (if areas = [] then None else Some (Max (set areas))),
         cr_n_edges = length scores,
         cr_min_score = (if scores = [] then None else Some (Min (set scores))),
         cr_mean_score = (if scores = [] then None else Some (sum_list scores / of_nat (length scores))),
         cr_n_certificates = length (filter (\<lambda>d. truthy (d_certificate d)) es),
         cr_families = sort (remdups (concat (map d_families es))),
         cr_shared_photo = list_ex (\<lambda>fp. case fp_catalog_ratio fp of None \<Rightarrow> False | Some r \<Rightarrow> r > 1/2) prints\<rparr>)"

definition cluster_rows :: "cluster_result \<Rightarrow> decision list \<Rightarrow> (int \<Rightarrow> full_fp option) \<Rightarrow> cluster_report list" where
  "cluster_rows res ds fps = map (cluster_row res ds fps) (sort_key fst (r_clusters res))"

section \<open>The store\<close>

text \<open>A filed conflict: a refused union, a bridge not applied, a dissolved closure, under its generation.\<close>

datatype filed = Refused conflict | Unbridged bridge | Undone dissolved_closure

definition filed_ends :: "filed \<Rightarrow> int \<times> int" where
  "filed_ends f = (case f of Refused c \<Rightarrow> (c_lo c, c_hi c) | Unbridged b \<Rightarrow> (b_lo b, b_hi b)
     | Undone d \<Rightarrow> (dc_lo d, dc_hi d))"

type_synonym ledger_row = "string \<times> string \<times> string \<times> int \<times> string"

record store =
  st_now :: "rat option"
  st_score_type :: string
  st_floor :: rat
  st_calibration :: string
  st_engine :: string
  st_ledger :: "(int \<times> int, ledger_row) dict"
  st_postings :: "(key, int list) dict"
  st_keys :: "(int, key list) dict"
  st_fp :: "(int, fp_row) dict"
  st_pairs :: "(int \<times> int, pair_row) dict"
  st_clusters :: "(int, int list) dict"
  st_cluster_row :: "(int, cluster_report) dict"
  st_conflicts :: "(string \<times> filed) list"
  st_mnl :: "(int \<times> int) list"
  st_ml :: "(int \<times> int) list"
  st_ruled :: "int list"
  st_ruled_read :: "int list"
  st_cell :: "(string \<times> string, cell_row) dict"
  st_merge_adj :: "(int, int list) dict"

definition get_list :: "('k, 'v list) dict \<Rightarrow> 'k \<Rightarrow> 'v list" where
  "get_list d k = (case map_of d k of None \<Rightarrow> [] | Some vs \<Rightarrow> vs)"

subsection \<open>Postings and rows\<close>

definition lookup_many :: "key list \<Rightarrow> store \<Rightarrow> (key, int list) dict" where
  "lookup_many ks st = List.map_filter (\<lambda>k. map_option (Pair k) (map_of (st_postings st) k)) (remdups ks)"

text \<open>\<^verbatim>\<open>bucket.remove(listing_id)\<close> takes the first occurrence; an emptied bucket goes.\<close>

definition unpost :: "int \<Rightarrow> key \<Rightarrow> (key, int list) dict \<Rightarrow> (key, int list) dict" where
  "unpost i k d =
     (case map_of d k of None \<Rightarrow> d
      | Some ms \<Rightarrow> if i \<notin> set ms then d
                    else if remove1 i ms = [] then AList.delete k d else AList.update k (remove1 i ms) d)"

definition drop_keys :: "int \<Rightarrow> store \<Rightarrow> store" where
  "drop_keys i st = st\<lparr>st_keys := AList.delete i (st_keys st),
     st_postings := fold (unpost i) (get_list (st_keys st) i) (st_postings st)\<rparr>"

text \<open>The loop of \<open>put_listing\<close> walks back over the ids above the new one.\<close>

fun insert_asc :: "int \<Rightarrow> int list \<Rightarrow> int list" where
  "insert_asc i [] = [i]"
| "insert_asc i (m # rest) = (if m > i then m # insert_asc i rest else i # m # rest)"

definition repost :: "int \<Rightarrow> key \<Rightarrow> (key, int list) dict \<Rightarrow> (key, int list) dict" where
  "repost i k d = AList.update k (rev (insert_asc i (rev (get_list d k)))) d"

definition put_listing :: "int \<Rightarrow> fp_row \<Rightarrow> key list \<Rightarrow> store \<Rightarrow> store" where
  "put_listing i row ks st0 =
     (let st = drop_keys i st0;
          kept = (case map_of (st_fp st) i of None \<Rightarrow> None | Some held \<Rightarrow> fr_first held);
          stamped = (case kept of None \<Rightarrow> fr_first row | Some t \<Rightarrow> Some t);
          stamped' = (case stamped of None \<Rightarrow> st_now st | Some t \<Rightarrow> Some t)
      in st\<lparr>st_fp := AList.update i (row\<lparr>fr_first := stamped'\<rparr>) (st_fp st),
            st_keys := AList.update i ks (st_keys st),
            st_postings := fold (repost i) ks (st_postings st)\<rparr>)"

definition put_decision_digests :: "(int, string) dict \<Rightarrow> store \<Rightarrow> store" where
  "put_decision_digests dds st = st\<lparr>st_fp := fold (\<lambda>(i, dd) d. case map_of d i of None \<Rightarrow> d
       | Some row \<Rightarrow> AList.update i (row\<lparr>fr_dd := dd\<rparr>) d) dds (st_fp st)\<rparr>"

definition keys_many :: "int list \<Rightarrow> store \<Rightarrow> (int, key list) dict" where
  "keys_many is st = map (\<lambda>i. (i, get_list (st_keys st) i)) (remdups is)"

definition rows_of :: "int list \<Rightarrow> store \<Rightarrow> (int, fp_row) dict" where
  "rows_of is st = List.map_filter (\<lambda>i. map_option (Pair i) (map_of (st_fp st) i)) (remdups is)"

definition known_ids :: "int list \<Rightarrow> store \<Rightarrow> int list" where
  "known_ids is st = filter (\<lambda>i. map_of (st_fp st) i \<noteq> None) (remdups is)"

subsection \<open>Pairs\<close>

definition pairs_touching :: "int list \<Rightarrow> store \<Rightarrow> (int \<times> int, pair_row) dict" where
  "pairs_touching is st = filter (\<lambda>((lo, hi), _). lo \<in> set is \<or> hi \<in> set is) (st_pairs st)"

definition pairs_within :: "int list \<Rightarrow> store \<Rightarrow> pair_row list" where
  "pairs_within is st =
     map snd (filter (\<lambda>((lo, hi), _). lo \<in> set is \<and> hi \<in> set is) (sort_key fst (st_pairs st)))"

definition merge_neighbours :: "int list \<Rightarrow> store \<Rightarrow> (int, int list) dict" where
  "merge_neighbours is st = map (\<lambda>i. (i, get_list (st_merge_adj st) i)) (remdups is)"

definition adj_add :: "'k \<Rightarrow> int \<Rightarrow> ('k, int list) dict \<Rightarrow> ('k, int list) dict" where
  "adj_add x y d = AList.update x (if y \<in> set (get_list d x) then get_list d x else get_list d x @ [y]) d"

definition adj_drop :: "int \<Rightarrow> int \<Rightarrow> (int, int list) dict \<Rightarrow> (int, int list) dict" where
  "adj_drop x y d = (case map_of d x of None \<Rightarrow> d | Some ys \<Rightarrow> AList.update x (removeAll y ys) d)"

definition unlink :: "int \<Rightarrow> int \<Rightarrow> store \<Rightarrow> store" where
  "unlink lo hi st = st\<lparr>st_merge_adj := adj_drop hi lo (adj_drop lo hi (st_merge_adj st))\<rparr>"

definition reindex :: "pair_row \<Rightarrow> store \<Rightarrow> store" where
  "reindex r st =
     (if pr_zone r = ''merge''
      then st\<lparr>st_merge_adj := adj_add (pr_hi r) (pr_lo r) (adj_add (pr_lo r) (pr_hi r) (st_merge_adj st))\<rparr>
      else unlink (pr_lo r) (pr_hi r) st)"

definition ledger_key :: "store \<Rightarrow> string \<times> int \<times> string" where
  "ledger_key st = (st_calibration st, FEATURE_VERSION, st_engine st)"

definition upsert_pair :: "pair_row \<Rightarrow> store \<times> nat \<Rightarrow> (store \<times> nat) option" where
  "upsert_pair r = (\<lambda>(st, n). map_option (\<lambda>score.
     let stored = r\<lparr>pr_score := score\<rparr>; key = (pr_lo r, pr_hi r);
         st1 = reindex stored (st\<lparr>st_pairs := AList.update key stored (st_pairs st)\<rparr>)
     in if storable (pr_zone r) (pr_score r) (pr_evidence r) (st_floor st)
        then (st1\<lparr>st_ledger := AList.delete key (st_ledger st1)\<rparr>, n)
        else (st1\<lparr>st_ledger := AList.update key (pr_dd_lo r, pr_dd_hi r, ledger_key st1) (st_ledger st1)\<rparr>, n + 1))
     (narrow (st_score_type st) (pr_score r)))"

definition upsert_pairs :: "pair_row list \<Rightarrow> store \<Rightarrow> (store \<times> nat) option" where
  "upsert_pairs rows st = foldM upsert_pair rows (st, 0)"

definition rejected :: "(int \<times> int \<times> string \<times> string) list \<Rightarrow> store \<Rightarrow> (int \<times> int) list" where
  "rejected asked st = remdups (List.map_filter (\<lambda>(lo, hi, dd_lo, dd_hi).
     if map_of (st_ledger st) (lo, hi) = Some (dd_lo, dd_hi, ledger_key st) then Some (lo, hi) else None) asked)"

definition ledger_keyed :: "store \<Rightarrow> bool" where
  "ledger_keyed st = list_ex (\<lambda>(_, _, _, k). k = ledger_key st) (st_ledger st)"

definition delete_pair :: "int \<times> int \<Rightarrow> store \<Rightarrow> store" where
  "delete_pair key st =
     (case map_of (st_pairs st) key of None \<Rightarrow> st
      | Some r \<Rightarrow> unlink (pr_lo r) (pr_hi r) (st\<lparr>st_pairs := AList.delete key (st_pairs st)\<rparr>))"

definition delete_pairs :: "(int \<times> int) list \<Rightarrow> store \<Rightarrow> store" where
  "delete_pairs ks st = fold delete_pair ks st"

definition drop_listing :: "int \<Rightarrow> store \<Rightarrow> store" where
  "drop_listing i st0 =
     (let st = drop_keys i st0; st1 = st\<lparr>st_fp := AList.delete i (st_fp st)\<rparr>
      in delete_pairs (filter (\<lambda>(lo, hi). i = lo \<or> i = hi) (map fst (st_pairs st1))) st1)"

subsection \<open>Clusters\<close>

definition clusters_touching :: "int list \<Rightarrow> store \<Rightarrow> (int, int list) dict" where
  "clusters_touching is st = filter (\<lambda>(_, ms). list_ex (\<lambda>m. m \<in> set is) ms) (st_clusters st)"

text \<open>A dissolved closure is filed unless the newest record of its generation sharing an advert with it is the same.\<close>

definition file_conflict :: "string \<times> filed \<Rightarrow> (string \<times> filed) list \<Rightarrow> (string \<times> filed) list" where
  "file_conflict c held =
     (case c of
        (g, Undone d) \<Rightarrow>
          (if dc_must_link d \<noteq> [] \<and>
              find (\<lambda>(g', f). case f of Undone d' \<Rightarrow> dc_must_link d' \<noteq> [] \<and> g' = g
                   \<and> list_ex (\<lambda>m. m \<in> set (dc_members d)) (dc_members d') | _ \<Rightarrow> False) (rev held) = Some c
           then held else held @ [c])
      | _ \<Rightarrow> held @ [c])"

definition write_clusters :: "int list \<Rightarrow> cluster_report list \<Rightarrow> (string \<times> filed) list \<Rightarrow> store \<Rightarrow> store" where
  "write_clusters drop_list rows conflicts st =
     (let touched = concat (map cr_members rows);
          kept = filter (\<lambda>(_, f). \<not> (fst (filed_ends f) \<in> set touched \<and> snd (filed_ends f) \<in> set touched)) (st_conflicts st)
      in st\<lparr>st_clusters := fold (\<lambda>r. AList.update (cr_key r) (cr_members r)) rows
              (fold AList.delete drop_list (st_clusters st)),
            st_cluster_row := fold (\<lambda>r. AList.update (cr_key r) r) rows
              (fold AList.delete drop_list (st_cluster_row st)),
            st_conflicts := fold file_conflict conflicts kept\<rparr>)"

subsection \<open>Rulings, census and the end of a pass\<close>

definition rulings_changed :: "store \<Rightarrow> store \<times> int list" where
  "rulings_changed st = (st\<lparr>st_ruled_read := st_ruled st\<rparr>, st_ruled st)"

definition flush :: "store \<Rightarrow> store" where
  "flush st = st\<lparr>st_ruled := filter (\<lambda>i. i \<notin> set (st_ruled_read st)) (st_ruled st), st_ruled_read := []\<rparr>"

text \<open>One capped set of a cell: the set and whether the cap turned the value away.\<close>

definition bump_set :: "string option \<Rightarrow> string list \<Rightarrow> string list \<times> bool" where
  "bump_set v bucket =
     (case v of None \<Rightarrow> (bucket, False)
      | Some w \<Rightarrow> if w = [] \<or> w \<in> set bucket then (bucket, False)
                   else if SET_CAP \<le> length bucket then (bucket, True) else (bucket @ [w], False))"

definition new_cell :: cell_row where
  "new_cell = \<lparr>cl_n = 0, cl_shapes = [], cl_brokers = [], cl_sources = [], cl_capped = False\<rparr>"

definition bump_cell :: "census_ad \<Rightarrow> store \<Rightarrow> store" where
  "bump_cell ad st =
     (let row = (case map_of (st_cell st) (ca_cell ad) of None \<Rightarrow> new_cell | Some row \<Rightarrow> row);
          (shapes, c1) = bump_set (ca_shape ad) (cl_shapes row);
          (brokers, c2) = bump_set (ca_broker ad) (cl_brokers row);
          (sources, c3) = bump_set (ca_source ad) (cl_sources row)
      in st\<lparr>st_cell := AList.update (ca_cell ad) \<lparr>cl_n = cl_n row + 1, cl_shapes = shapes, cl_brokers = brokers,
              cl_sources = sources, cl_capped = (cl_capped row \<or> c1 \<or> c2 \<or> c3)\<rparr> (st_cell st)\<rparr>)"

definition unbump_cell :: "string \<times> string \<Rightarrow> store \<Rightarrow> store" where
  "unbump_cell c st =
     (case map_of (st_cell st) c of
        Some row \<Rightarrow> if cl_n row > 0 then st\<lparr>st_cell := AList.update c (row\<lparr>cl_n := cl_n row - 1\<rparr>) (st_cell st)\<rparr> else st
      | None \<Rightarrow> st)"

end
