(* ===== verification/Incremental_Store_Laws.thy ===== *)
theory Incremental_Store_Laws
  imports Incremental_Store
begin

text \<open>
  What the store keeps: its table of merge neighbours is exactly the merge edges of its pairs, its postings are
  ascending and are exactly the keys it holds of each advert, and its rows sit under their own ids. Every verb
  that writes keeps this.
\<close>

text \<open>A lookup is kept as a lookup.\<close>

declare map_of_eq_Some_iff [simp del]

section \<open>Dictionaries of lists\<close>

lemma get_list_update: "get_list (AList.update k v d) l = (if l = k then v else get_list d l)"
  by (simp add: get_list_def update_conv')

lemma get_list_delete: "get_list (AList.delete k d) l = (if l = k then [] else get_list d l)"
  by (simp add: get_list_def delete_conv')

lemma adj_add_mem:
  "z \<in> set (get_list (adj_add x y d) w) \<longleftrightarrow> (w = x \<and> z = y) \<or> z \<in> set (get_list d w)"
  by (auto simp: adj_add_def get_list_update)

lemma adj_drop_mem:
  "z \<in> set (get_list (adj_drop x y d) w) \<longleftrightarrow> z \<in> set (get_list d w) \<and> \<not> (w = x \<and> z = y)"
  by (cases "map_of d x") (auto simp: adj_drop_def get_list_update, auto simp: get_list_def)

section \<open>The invariant\<close>

definition merge_edge :: "store \<Rightarrow> int \<Rightarrow> int \<Rightarrow> bool" where
  "merge_edge st x y \<longleftrightarrow> x \<noteq> y \<and> (case map_of (st_pairs st) (pair_key x y) of None \<Rightarrow> False | Some r \<Rightarrow> pr_zone r = ''merge'')"

definition pairs_ok :: "store \<Rightarrow> bool" where
  "pairs_ok st \<longleftrightarrow> distinct (map fst (st_pairs st))
     \<and> list_all (\<lambda>((lo, hi), r). pr_lo r = lo \<and> pr_hi r = hi \<and> lo < hi) (st_pairs st)
     \<and> (\<forall>x y. y \<in> set (get_list (st_merge_adj st) x) \<longleftrightarrow> merge_edge st x y)"

definition postings_of_ok :: "store \<Rightarrow> bool" where
  "postings_of_ok st \<longleftrightarrow> (\<forall>k. sorted (get_list (st_postings st) k)
     \<and> (\<forall>i. count_list (get_list (st_postings st) k) i = count_list (get_list (st_keys st) i) k))"

definition tables_ok :: "store \<Rightarrow> bool" where
  "tables_ok st \<longleftrightarrow> distinct (map fst (st_keys st)) \<and> distinct (map fst (st_fp st)) \<and> distinct (map fst (st_clusters st))
     \<and> distinct (map fst (st_cluster_row st)) \<and> distinct (map fst (st_postings st))
     \<and> list_all (\<lambda>(k, r). cr_key r = k \<and> map_of (st_clusters st) k = Some (cr_members r)) (st_cluster_row st)"

definition bucket_ok :: "string list \<Rightarrow> bool" where
  "bucket_ok vs \<longleftrightarrow> length vs \<le> SET_CAP \<and> distinct vs \<and> [] \<notin> set vs"

definition cell_ok :: "cell_row \<Rightarrow> bool" where
  "cell_ok row \<longleftrightarrow> bucket_ok (cl_shapes row) \<and> bucket_ok (cl_brokers row) \<and> bucket_ok (cl_sources row)"

definition cells_ok :: "store \<Rightarrow> bool" where
  "cells_ok st \<longleftrightarrow> distinct (map fst (st_cell st)) \<and> list_all (\<lambda>(_, row). cell_ok row) (st_cell st)"

definition store_ok :: "store \<Rightarrow> bool" where
  "store_ok st \<longleftrightarrow> pairs_ok st \<and> postings_of_ok st \<and> tables_ok st \<and> cells_ok st"

definition row_ok :: "pair_row \<Rightarrow> bool" where
  "row_ok r \<longleftrightarrow> pr_lo r < pr_hi r"

section \<open>Entries of a dictionary\<close>

lemma list_all_update:
  assumes "distinct (map fst d)" and "list_all P d" and "P (k, v)"
  shows "list_all P (AList.update k v d)"
proof -
  have "P e" if e: "e \<in> set (AList.update k v d)" for e
  proof -
    obtain l w where lw: "e = (l, w)" by (cases e)
    have "distinct (map fst (AList.update k v d))" using assms(1) by (rule distinct_update)
    then have "map_of (AList.update k v d) l = Some w" using e by (simp add: lw)
    then show ?thesis using assms(2,3) map_of_SomeD [of d l w]
      by (auto simp: lw update_conv' list_all_iff split: if_splits)
  qed
  then show ?thesis by (simp add: list_all_iff)
qed

lemma list_all_delete: "list_all P d \<Longrightarrow> list_all P (AList.delete k d)"
  by (auto simp: list_all_iff AList.delete_eq)

lemma list_all_map_of:
  assumes "distinct (map fst d)"
  shows "list_all P d \<longleftrightarrow> (\<forall>k v. map_of d k = Some v \<longrightarrow> P (k, v))"
proof -
  have "(k, v) \<in> set d \<longleftrightarrow> map_of d k = Some v" for k v using assms by (metis map_of_SomeD map_of_is_SomeI)
  then show ?thesis by (auto simp: list_all_iff)
qed

lemma distinct_deletes: "distinct (map fst d) \<Longrightarrow> distinct (map fst (fold AList.delete ks d))"
  by (induction ks arbitrary: d) (auto intro: distinct_delete)

lemma distinct_updates: "distinct (map fst d) \<Longrightarrow> distinct (map fst (fold (\<lambda>x. AList.update (f x) (g x)) xs d))"
  by (induction xs arbitrary: d) (auto intro: distinct_update)

lemma map_of_deletes: "map_of (fold AList.delete ks d) k = (if k \<in> set ks then None else map_of d k)"
  by (induction ks arbitrary: d) (auto simp: delete_conv')

section \<open>Pairs\<close>

lemma pair_key_pair: "lo < hi \<Longrightarrow> pair_key x y = (lo, hi) \<longleftrightarrow> (x = lo \<and> y = hi) \<or> (x = hi \<and> y = lo)"
  by (auto simp: pair_key_def)

lemma pairs_ok_reindex:
  assumes ok: "pairs_ok st" and r: "pr_lo r < pr_hi r"
  shows "pairs_ok (reindex r (st\<lparr>st_pairs := AList.update (pr_lo r, pr_hi r) r (st_pairs st)\<rparr>))"
proof -
  let ?key = "(pr_lo r, pr_hi r)"
  let ?st = "st\<lparr>st_pairs := AList.update ?key r (st_pairs st)\<rparr>"
  have pairs: "st_pairs (reindex r ?st) = AList.update ?key r (st_pairs st)" by (simp add: reindex_def unlink_def)
  have adj: "y \<in> set (get_list (st_merge_adj (reindex r ?st)) x) \<longleftrightarrow>
      (if pair_key x y = ?key \<and> x \<noteq> y then pr_zone r = ''merge'' else y \<in> set (get_list (st_merge_adj st) x))" for x y
    using r by (auto simp: reindex_def unlink_def adj_add_mem adj_drop_mem pair_key_pair)
  have "y \<in> set (get_list (st_merge_adj (reindex r ?st)) x) \<longleftrightarrow> merge_edge (reindex r ?st) x y" for x y
    using ok unfolding adj by (auto simp: pairs_ok_def merge_edge_def pairs update_conv')
  moreover have "list_all (\<lambda>((lo, hi), r). pr_lo r = lo \<and> pr_hi r = hi \<and> lo < hi) (AList.update ?key r (st_pairs st))"
    using ok r by (intro list_all_update) (auto simp: pairs_ok_def)
  ultimately show ?thesis using ok by (simp add: pairs_ok_def pairs distinct_update)
qed

lemma pairs_ok_delete_pair:
  assumes ok: "pairs_ok st"
  shows "pairs_ok (delete_pair key st)"
proof (cases "map_of (st_pairs st) key")
  case None
  then show ?thesis using ok by (simp add: delete_pair_def)
next
  case (Some r)
  have r: "key = (pr_lo r, pr_hi r)" "pr_lo r < pr_hi r"
    using ok map_of_SomeD [OF Some] by (auto simp: pairs_ok_def list_all_iff)
  let ?st = "delete_pair key st"
  have pairs: "st_pairs ?st = AList.delete key (st_pairs st)" by (simp add: delete_pair_def Some unlink_def)
  have adj: "y \<in> set (get_list (st_merge_adj ?st) x) \<longleftrightarrow>
      y \<in> set (get_list (st_merge_adj st) x) \<and> \<not> (pair_key x y = key)" for x y
    using r(2) Some unfolding r(1) by (auto simp: delete_pair_def unlink_def adj_drop_mem pair_key_pair)
  have "y \<in> set (get_list (st_merge_adj ?st) x) \<longleftrightarrow> merge_edge ?st x y" for x y
    using ok unfolding adj by (auto simp: pairs_ok_def merge_edge_def pairs delete_conv')
  then show ?thesis using ok by (simp add: pairs_ok_def pairs distinct_delete list_all_delete)
qed

lemma pairs_ok_cong: "st_pairs st' = st_pairs st \<Longrightarrow> st_merge_adj st' = st_merge_adj st \<Longrightarrow> pairs_ok st' = pairs_ok st"
  by (simp add: pairs_ok_def merge_edge_def)

lemma postings_ok_cong: "st_postings st' = st_postings st \<Longrightarrow> st_keys st' = st_keys st \<Longrightarrow> postings_of_ok st' = postings_of_ok st"
  by (simp add: postings_of_ok_def)

lemma tables_ok_cong: "st_keys st' = st_keys st \<Longrightarrow> st_fp st' = st_fp st \<Longrightarrow> st_clusters st' = st_clusters st
    \<Longrightarrow> st_cluster_row st' = st_cluster_row st \<Longrightarrow> st_postings st' = st_postings st \<Longrightarrow> tables_ok st' = tables_ok st"
  by (simp add: tables_ok_def)

lemma cells_ok_cong: "st_cell st' = st_cell st \<Longrightarrow> cells_ok st' = cells_ok st"
  by (simp add: cells_ok_def)

lemma store_ok_pairs_only:
  assumes "store_ok st" and "pairs_ok st'"
    and "st_postings st' = st_postings st" "st_keys st' = st_keys st" "st_fp st' = st_fp st" "st_clusters st' = st_clusters st"
      "st_cluster_row st' = st_cluster_row st" "st_cell st' = st_cell st"
  shows "store_ok st'"
  using assms postings_ok_cong [of st' st] tables_ok_cong [of st' st] cells_ok_cong [of st' st] by (simp add: store_ok_def)

lemma delete_pair_frame: "st_postings (delete_pair k st) = st_postings st" "st_keys (delete_pair k st) = st_keys st"
    "st_fp (delete_pair k st) = st_fp st" "st_clusters (delete_pair k st) = st_clusters st"
    "st_cluster_row (delete_pair k st) = st_cluster_row st" "st_cell (delete_pair k st) = st_cell st"
  by (auto simp: delete_pair_def unlink_def split: option.splits)

lemma delete_pair_ok: "store_ok st \<Longrightarrow> store_ok (delete_pair k st)"
  by (rule store_ok_pairs_only) (simp_all add: delete_pair_frame store_ok_def pairs_ok_delete_pair)

lemma delete_pairs_ok: "store_ok st \<Longrightarrow> store_ok (delete_pairs ks st)"
  unfolding delete_pairs_def by (induction ks arbitrary: st) (auto intro: delete_pair_ok)

lemma upsert_pair_ok:
  assumes "store_ok st" and "row_ok r" and "upsert_pair r (st, n) = Some (st', n')"
  shows "store_ok st'"
proof -
  obtain score where "narrow (st_score_type st) (pr_score r) = Some score" using assms(3) by (auto simp: upsert_pair_def)
  let ?r = "r\<lparr>pr_score := score\<rparr>"
  let ?st1 = "reindex ?r (st\<lparr>st_pairs := AList.update (pr_lo ?r, pr_hi ?r) ?r (st_pairs st)\<rparr>)"
  obtain l where st': "st' = ?st1\<lparr>st_ledger := l\<rparr>"
    using assms(3) \<open>narrow (st_score_type st) (pr_score r) = Some score\<close>
    by (auto simp: upsert_pair_def Let_def split: if_splits)
  have "pairs_ok ?st1" by (rule pairs_ok_reindex) (use assms in \<open>auto simp: store_ok_def row_ok_def\<close>)
  then have "pairs_ok st'" using pairs_ok_cong [of st' ?st1] by (simp add: st')
  then show ?thesis
    by (rule store_ok_pairs_only [OF assms(1)]) (simp_all add: st' reindex_def unlink_def)
qed

lemma upsert_pairs_ok:
  assumes "store_ok st" and "list_all row_ok rows" and "upsert_pairs rows st = Some (st', n)"
  shows "store_ok st'"
proof -
  have "foldM upsert_pair rows (st, m) = Some (st', n) \<Longrightarrow> store_ok st'" for m
    using assms(1,2)
  proof (induction rows arbitrary: st m)
    case (Cons r rows)
    obtain st1 m1 where 1: "upsert_pair r (st, m) = Some (st1, m1)" "foldM upsert_pair rows (st1, m1) = Some (st', n)"
      using Cons.prems(1) by (auto split: bind_splits)
    have "store_ok st1" by (rule upsert_pair_ok [OF _ _ 1(1)]) (use Cons.prems in auto)
    then show ?case using Cons.IH [OF 1(2)] Cons.prems by simp
  qed simp
  then show ?thesis using assms(3) by (simp add: upsert_pairs_def)
qed

section \<open>Postings\<close>

lemma count_remove1: "count_list (remove1 x xs) y = count_list xs y - (if x = y then 1 else 0)"
  by (induction xs) auto

lemma get_list_unpost: "get_list (unpost i k d) l = (if l = k then remove1 i (get_list d k) else get_list d l)"
  by (auto simp: unpost_def get_list_def update_conv' delete_conv' remove1_idem split: option.splits)

lemma get_list_unpost_all:
  "count_list (get_list (fold (unpost i) ks d) k) j
     = count_list (get_list d k) j - (if i = j then count_list ks k else 0)"
  by (induction ks arbitrary: d) (auto simp: get_list_unpost count_remove1)

lemma sorted_unpost: "sorted (get_list d k) \<Longrightarrow> sorted (get_list (unpost i l d) k)"
  by (auto simp: get_list_unpost sorted_remove1)

lemma sorted_unpost_all: "sorted (get_list d k) \<Longrightarrow> sorted (get_list (fold (unpost i) ks d) k)"
  by (induction ks arbitrary: d) (auto intro: sorted_unpost)

lemma insert_asc_mset: "mset (insert_asc i rms) = add_mset i (mset rms)"
  by (induction rms) auto

lemma insert_asc_set: "set (insert_asc i rms) = insert i (set rms)"
  by (metis insert_asc_mset set_mset_add_mset_insert set_mset_mset)

lemma insert_asc_sorted: "sorted (rev rms) \<Longrightarrow> sorted (rev (insert_asc i rms))"
proof (induction rms)
  case (Cons m rms)
  show ?case
  proof (cases "m > i")
    case True
    then have "sorted (rev (insert_asc i rms))" using Cons by (simp add: sorted_append)
    then show ?thesis using True Cons.prems by (simp add: sorted_append insert_asc_set)
  next
    case False
    then show ?thesis using Cons.prems by (auto simp: sorted_append)
  qed
qed simp

lemma get_list_repost: "get_list (repost i k d) l = (if l = k then rev (insert_asc i (rev (get_list d k))) else get_list d l)"
  by (simp add: repost_def get_list_update)

lemma count_insert_asc: "count_list (insert_asc i ms) j = count_list ms j + (if i = j then 1 else 0)"
  by (induction ms) auto

lemma count_repost: "count_list (rev (insert_asc i (rev ms))) j = count_list ms j + (if i = j then 1 else 0)"
  by (simp add: count_insert_asc)

lemma count_repost_all:
  "count_list (get_list (fold (repost i) ks d) k) j
     = count_list (get_list d k) j + (if i = j then count_list ks k else 0)"
  by (induction ks arbitrary: d) (auto simp: get_list_repost count_insert_asc)

lemma sorted_repost_all: "sorted (get_list d k) \<Longrightarrow> sorted (get_list (fold (repost i) ks d) k)"
proof (induction ks arbitrary: d)
  case (Cons l ks)
  have "sorted (get_list (repost i l d) k)" using Cons.prems insert_asc_sorted [of "rev (get_list d l)" i] by (auto simp: get_list_repost)
  then show ?case using Cons.IH by simp
qed simp

lemma distinct_unpost: "distinct (map fst d) \<Longrightarrow> distinct (map fst (fold (unpost i) ks d))"
  by (induction ks arbitrary: d) (auto simp: unpost_def distinct_update distinct_delete split: option.split)

lemma distinct_repost: "distinct (map fst d) \<Longrightarrow> distinct (map fst (fold (repost i) ks d))"
  by (induction ks arbitrary: d) (auto simp: repost_def distinct_update)

lemma drop_keys_postings:
  assumes "postings_of_ok st"
  shows "postings_of_ok (drop_keys i st)"
proof -
  have "sorted (get_list (st_postings (drop_keys i st)) k)" for k
    using assms by (simp add: drop_keys_def sorted_unpost_all postings_of_ok_def)
  moreover have "count_list (get_list (st_postings (drop_keys i st)) k) j = count_list (get_list (st_keys (drop_keys i st)) j) k" for k j
    using assms by (simp add: drop_keys_def get_list_unpost_all get_list_delete postings_of_ok_def)
  ultimately show ?thesis by (simp add: postings_of_ok_def)
qed

lemma drop_keys_frame: "st_pairs (drop_keys i st) = st_pairs st" "st_merge_adj (drop_keys i st) = st_merge_adj st"
    "st_fp (drop_keys i st) = st_fp st" "st_clusters (drop_keys i st) = st_clusters st"
    "st_cluster_row (drop_keys i st) = st_cluster_row st" "st_cell (drop_keys i st) = st_cell st"
  by (simp_all add: drop_keys_def)

lemma drop_keys_ok: "store_ok st \<Longrightarrow> store_ok (drop_keys i st)"
proof -
  assume ok: "store_ok st"
  then have "tables_ok (drop_keys i st)"
    by (simp add: store_ok_def tables_ok_def drop_keys_frame)
      (simp add: drop_keys_def distinct_delete distinct_unpost)
  then show ?thesis
    using ok pairs_ok_cong [of "drop_keys i st" st] cells_ok_cong [of "drop_keys i st" st] drop_keys_postings [of st i]
    by (simp add: store_ok_def drop_keys_frame)
qed

lemma put_listing_ok:
  assumes "store_ok st"
  shows "store_ok (put_listing i row ks st)"
proof -
  let ?st = "put_listing i row ks st" and ?d = "drop_keys i st"
  have d: "store_ok ?d" using assms by (rule drop_keys_ok)
  have e: "get_list (st_keys ?d) i = []" by (simp add: drop_keys_def get_list_delete)
  have p: "st_postings ?st = fold (repost i) ks (st_postings ?d)" "st_keys ?st = AList.update i ks (st_keys ?d)"
    by (simp_all add: put_listing_def Let_def)
  have "sorted (get_list (st_postings ?st) k)" for k
    using d by (simp add: p sorted_repost_all store_ok_def postings_of_ok_def)
  moreover have "count_list (get_list (st_postings ?st) k) j = count_list (get_list (st_keys ?st) j) k" for k j
  proof -
    have "count_list (get_list (st_postings ?d) k) j = count_list (get_list (st_keys ?d) j) k"
      using d by (simp add: store_ok_def postings_of_ok_def)
    then show ?thesis using e by (simp add: p count_repost_all get_list_update)
  qed
  ultimately have "postings_of_ok ?st" by (simp add: postings_of_ok_def)
  moreover have "tables_ok ?st"
    using d by (simp add: store_ok_def tables_ok_def) (simp add: put_listing_def Let_def distinct_update distinct_repost)
  moreover have "pairs_ok ?st" using d pairs_ok_cong [of ?st ?d] by (simp add: store_ok_def put_listing_def Let_def)
  moreover have "cells_ok ?st" using d cells_ok_cong [of ?st ?d] by (simp add: store_ok_def put_listing_def Let_def)
  ultimately show ?thesis by (simp add: store_ok_def)
qed

lemma drop_listing_ok:
  assumes "store_ok st"
  shows "store_ok (drop_listing i st)"
proof -
  let ?st = "(drop_keys i st)\<lparr>st_fp := AList.delete i (st_fp (drop_keys i st))\<rparr>"
  have d: "store_ok (drop_keys i st)" using assms by (rule drop_keys_ok)
  have "store_ok ?st"
    using d pairs_ok_cong [of ?st "drop_keys i st"] postings_ok_cong [of ?st "drop_keys i st"] cells_ok_cong [of ?st "drop_keys i st"]
    by (simp add: store_ok_def tables_ok_def distinct_delete)
  then show ?thesis unfolding drop_listing_def Let_def by (rule delete_pairs_ok)
qed

lemma put_digests_ok: "store_ok st \<Longrightarrow> store_ok (put_decision_digests dds st)"
proof -
  assume ok: "store_ok st"
  have "distinct (map fst (fold (\<lambda>(i, dd) d. case map_of d i of None \<Rightarrow> d
       | Some row \<Rightarrow> AList.update i (row\<lparr>fr_dd := dd\<rparr>) d) dds d))" if "distinct (map fst d)" for d :: "(int, fp_row) dict"
    by (rule fold_inv [where P = "\<lambda>d. distinct (map fst d)"]) (use that in \<open>auto simp: distinct_update split: option.split\<close>)
  then have "tables_ok (put_decision_digests dds st)" using ok by (simp add: store_ok_def tables_ok_def put_decision_digests_def)
  then show ?thesis
    using ok pairs_ok_cong [of "put_decision_digests dds st" st] postings_ok_cong [of "put_decision_digests dds st" st]
      cells_ok_cong [of "put_decision_digests dds st" st]
    by (simp add: store_ok_def put_decision_digests_def)
qed

section \<open>Clusters and cells\<close>

lemma update_reports_ok:
  assumes "distinct (map fst cs)" and "distinct (map fst rs)"
    and "list_all (\<lambda>(k, r). cr_key r = k \<and> map_of cs k = Some (cr_members r)) rs"
  shows "list_all (\<lambda>(k, r). cr_key r = k \<and> map_of (fold (\<lambda>r. AList.update (cr_key r) (cr_members r)) rows cs) k = Some (cr_members r))
    (fold (\<lambda>r. AList.update (cr_key r) r) rows rs)"
  using assms
proof (induction rows arbitrary: cs rs)
  case (Cons r rows)
  let ?cs = "AList.update (cr_key r) (cr_members r) cs" and ?rs = "AList.update (cr_key r) r rs"
  have "list_all (\<lambda>(k, r). cr_key r = k \<and> map_of ?cs k = Some (cr_members r)) ?rs"
    using Cons.prems(3) unfolding list_all_map_of [OF Cons.prems(2)] list_all_map_of [OF distinct_update [OF Cons.prems(2)]]
    by (simp add: update_conv')
  then show ?case using Cons.IH [of ?cs ?rs] Cons.prems by (simp add: distinct_update)
qed simp

lemma write_clusters_ok:
  assumes "store_ok st"
  shows "store_ok (write_clusters ks rows cs st)"
proof -
  let ?st = "write_clusters ks rows cs st"
  have t: "tables_ok st" using assms by (simp add: store_ok_def)
  have d: "distinct (map fst (fold AList.delete ks (st_clusters st)))" "distinct (map fst (fold AList.delete ks (st_cluster_row st)))"
    using t by (simp_all add: tables_ok_def distinct_deletes)
  have "list_all (\<lambda>(k, r). cr_key r = k \<and> map_of (fold AList.delete ks (st_clusters st)) k = Some (cr_members r))
      (fold AList.delete ks (st_cluster_row st))"
    using t unfolding list_all_map_of [OF d(2)] tables_ok_def
    by (auto simp: map_of_deletes list_all_map_of split: if_splits)
  then have "tables_ok ?st"
    using t d update_reports_ok [OF d, of rows]
    by (simp add: tables_ok_def write_clusters_def Let_def distinct_updates)
  then show ?thesis
    using assms pairs_ok_cong [of ?st st] postings_ok_cong [of ?st st] cells_ok_cong [of ?st st]
    by (simp add: store_ok_def write_clusters_def Let_def)
qed

lemma bump_set_ok: "bucket_ok vs \<Longrightarrow> bucket_ok (fst (bump_set v vs))"
  by (auto simp: bucket_ok_def bump_set_def split: option.splits)

lemma cell_of_ok: "cells_ok st \<Longrightarrow> map_of (st_cell st) c = Some row \<Longrightarrow> cell_ok row"
  using map_of_SomeD [of "st_cell st" c row] by (auto simp: cells_ok_def list_all_iff)

lemma cells_ok_update: "cells_ok st \<Longrightarrow> cell_ok row \<Longrightarrow> cells_ok (st\<lparr>st_cell := AList.update c row (st_cell st)\<rparr>)"
  by (simp add: cells_ok_def distinct_update list_all_update)

lemma store_ok_cell: "store_ok st \<Longrightarrow> cell_ok row \<Longrightarrow> store_ok (st\<lparr>st_cell := AList.update c row (st_cell st)\<rparr>)"
proof -
  assume ok: "store_ok st" "cell_ok row"
  let ?st = "st\<lparr>st_cell := AList.update c row (st_cell st)\<rparr>"
  have "cells_ok ?st" using ok cells_ok_update by (simp add: store_ok_def)
  then show "store_ok ?st"
    using ok(1) pairs_ok_cong [of ?st st] postings_ok_cong [of ?st st] tables_ok_cong [of ?st st] by (simp add: store_ok_def)
qed

lemma bump_cell_ok:
  assumes "store_ok st"
  shows "store_ok (bump_cell ad st)"
proof -
  define row where "row = (case map_of (st_cell st) (ca_cell ad) of None \<Rightarrow> new_cell | Some row \<Rightarrow> row)"
  have c: "cells_ok st" using assms by (simp add: store_ok_def)
  have "cell_ok new_cell" by (simp add: cell_ok_def bucket_ok_def new_cell_def)
  then have "cell_ok row" using cell_of_ok [OF c] by (cases "map_of (st_cell st) (ca_cell ad)") (auto simp: row_def)
  then have "cell_ok \<lparr>cl_n = cl_n row + 1, cl_shapes = fst (bump_set (ca_shape ad) (cl_shapes row)),
      cl_brokers = fst (bump_set (ca_broker ad) (cl_brokers row)),
      cl_sources = fst (bump_set (ca_source ad) (cl_sources row)),
      cl_capped = (cl_capped row \<or> snd (bump_set (ca_shape ad) (cl_shapes row))
        \<or> snd (bump_set (ca_broker ad) (cl_brokers row)) \<or> snd (bump_set (ca_source ad) (cl_sources row)))\<rparr>"
    by (simp add: cell_ok_def bump_set_ok)
  from store_ok_cell [OF assms this] show ?thesis
    unfolding bump_cell_def row_def [symmetric] Let_def prod.case_eq_if by simp
qed

lemma unbump_cell_ok: "store_ok st \<Longrightarrow> store_ok (unbump_cell c st)"
proof (cases "map_of (st_cell st) c")
  case None
  then show "store_ok st \<Longrightarrow> ?thesis" by (simp add: unbump_cell_def)
next
  case (Some row)
  assume ok: "store_ok st"
  then have "cell_ok row" using cell_of_ok [OF _ Some] by (simp add: store_ok_def)
  then have "cell_ok (row\<lparr>cl_n := cl_n row - 1\<rparr>)" by (simp add: cell_ok_def)
  then show ?thesis using store_ok_cell [OF ok] ok by (simp add: unbump_cell_def Some)
qed

section \<open>Every verb keeps the store\<close>

text \<open>The writes a pass makes, as one step each.\<close>

datatype verb = Put int fp_row "key list" | Drop int | Digests "(int, string) dict" | Upsert "pair_row list"
  | Delete "(int \<times> int) list" | Write "int list" "cluster_report list" "(string \<times> filed) list"
  | Bump census_ad | Unbump "string \<times> string" | Read_rulings | Flush

fun perform :: "verb \<Rightarrow> store \<Rightarrow> store option" where
  "perform (Put i row ks) st = Some (put_listing i row ks st)"
| "perform (Drop i) st = Some (drop_listing i st)"
| "perform (Digests dds) st = Some (put_decision_digests dds st)"
| "perform (Upsert rows) st = map_option fst (upsert_pairs rows st)"
| "perform (Delete ks) st = Some (delete_pairs ks st)"
| "perform (Write ks rows cs) st = Some (write_clusters ks rows cs st)"
| "perform (Bump ad) st = Some (bump_cell ad st)"
| "perform (Unbump c) st = Some (unbump_cell c st)"
| "perform Read_rulings st = Some (fst (rulings_changed st))"
| "perform Flush st = Some (flush st)"

fun verb_ok :: "verb \<Rightarrow> bool" where
  "verb_ok (Upsert rows) = list_all row_ok rows"
| "verb_ok _ = True"

definition empty_store :: store where
  "empty_store = \<lparr>st_now = None, st_score_type = PAIR_SCORE_SQL_TYPE, st_floor = 0, st_calibration = [], st_engine = [],
     st_ledger = [], st_postings = [], st_keys = [], st_fp = [], st_pairs = [], st_clusters = [], st_cluster_row = [],
     st_conflicts = [], st_mnl = [], st_ml = [], st_ruled = [], st_ruled_read = [], st_cell = [], st_merge_adj = []\<rparr>"

lemma store_ok_empty: "store_ok empty_store"
  by (simp add: store_ok_def pairs_ok_def merge_edge_def postings_of_ok_def tables_ok_def cells_ok_def empty_store_def get_list_def)

lemma store_ok_ruled: "store_ok st \<Longrightarrow> store_ok (st\<lparr>st_ruled := a, st_ruled_read := b\<rparr>)"
  by (simp add: store_ok_def pairs_ok_def merge_edge_def postings_of_ok_def tables_ok_def cells_ok_def)

lemma store_ok_read: "store_ok st \<Longrightarrow> store_ok (st\<lparr>st_ruled_read := b\<rparr>)"
  using store_ok_ruled [where st = st and a = "st_ruled st" and b = b] by simp

lemma perform_ok:
  assumes "store_ok st" and "verb_ok v" and "perform v st = Some st'"
  shows "store_ok st'"
  using assms
  by (cases v) (auto simp: put_listing_ok drop_listing_ok put_digests_ok delete_pairs_ok write_clusters_ok bump_cell_ok
      unbump_cell_ok rulings_changed_def flush_def store_ok_ruled store_ok_read upsert_pairs_ok)

text \<open>
  C13. The store keeps its tables in step: from an empty store, whatever verbs a pass performs in whatever
  order, the merge neighbours of an advert are exactly the other sides of its stored merge pairs, every
  posting list is ascending and lists an advert under a key exactly as often as the advert's own keys do,
  every pair sits under its two ids in order, a cluster and its report name the same members, and no census
  set outgrows its cap.
\<close>

theorem store_keeps_tables:
  assumes "list_all verb_ok vs" and "foldM perform vs empty_store = Some st"
  shows "store_ok st \<and> (\<forall>x y. y \<in> set (get_list (st_merge_adj st) x) \<longleftrightarrow> merge_edge st x y)
     \<and> (\<forall>k i. sorted (get_list (st_postings st) k) \<and>
          count_list (get_list (st_postings st) k) i = count_list (get_list (st_keys st) i) k)"
proof -
  have "foldM perform vs s = Some st \<Longrightarrow> list_all verb_ok vs \<Longrightarrow> store_ok s \<Longrightarrow> store_ok st" for s
  proof (induction vs arbitrary: s)
    case (Cons v vs)
    then show ?case using perform_ok by (fastforce split: bind_splits)
  qed simp
  then have "store_ok st" using assms store_ok_empty by blast
  then show ?thesis by (simp add: store_ok_def pairs_ok_def postings_of_ok_def)
qed

text \<open>Two adverts posted under one key, merged, rescored to the band and dropped.\<close>

definition ex_row :: "string \<Rightarrow> pair_row" where
  "ex_row zone = \<lparr>pr_lo = 1, pr_hi = 2, pr_probes = [Addr], pr_from_lo = True, pr_from_hi = True, pr_zone = zone,
     pr_score = 9/10, pr_families = [], pr_certificate = None, pr_veto = None, pr_reason = [], pr_evidence = [],
     pr_context = [], pr_fp_lo = ''a'', pr_fp_hi = ''b'', pr_slots = None, pr_dd_lo = [], pr_dd_hi = []\<rparr>"

definition ex_fp_row :: "int \<Rightarrow> fp_row" where
  "ex_fp_row i = \<lparr>fr_guard = \<lparr>fp_id = i, fp_type = None, fp_main = None, fp_area = None, fp_disposition = None, fp_floor = None\<rparr>,
     fr_digest = [], fr_cell = (''c'', ''byt''), fr_active = True,
     fr_gallery = \<lparr>n_images = 0, n_phash = 0, n_clip = 0, n_tags = 0\<rparr>, fr_first = None, fr_dd = []\<rparr>"

theorem store_keeps_tables_witness:
  "\<exists>st. foldM perform [Put 2 (ex_fp_row 2) [Phash_key 0 7], Put 1 (ex_fp_row 1) [Phash_key 0 7],
       Upsert [ex_row ''merge''], Write [] [] [], Read_rulings, Flush] empty_store = Some st
     \<and> store_ok st \<and> get_list (st_merge_adj st) 1 = [2] \<and> get_list (st_postings st) (Phash_key 0 7) = [1, 2]"
proof -
  let ?vs = "[Put 2 (ex_fp_row 2) [Phash_key 0 7], Put 1 (ex_fp_row 1) [Phash_key 0 7],
       Upsert [ex_row ''merge''], Write [] [] [], Read_rulings, Flush]"
  have "map_option (\<lambda>st. (get_list (st_merge_adj st) 1, get_list (st_postings st) (Phash_key 0 7))) (foldM perform ?vs empty_store)
      = Some ([2], [1, 2])" by code_simp
  then obtain st where st: "foldM perform ?vs empty_store = Some st" "get_list (st_merge_adj st) 1 = [2]"
      "get_list (st_postings st) (Phash_key 0 7) = [1, 2]" by auto
  have "list_all verb_ok ?vs" by (simp add: row_ok_def ex_row_def)
  from store_keeps_tables [OF this st(1)] st show ?thesis by auto
qed

section \<open>What the column keeps of a score\<close>

text \<open>
  A score column of type \<open>double precision\<close> hands every score back; \<open>real\<close> does not, and two scores
  the ranking tells apart can come back as one (E115).
\<close>

lemma narrow_lossless: "is_lossless t \<Longrightarrow> narrow t x = Some x"
  by (simp add: is_lossless_def narrow_def)

lemma narrow_real_collides:
  "narrow ''real'' (1 - 1 / 2 ^ 30) = Some 1 \<and> narrow ''real'' 1 = Some 1 \<and> narrow ''real'' (9/10) = Some (15099494 / 2 ^ 24)"
  by code_simp

lemma narrow_unknown: "narrow t x = None \<Longrightarrow> \<not> is_lossless t"
  by (auto simp: is_lossless_def narrow_def)

end
