(* ===== verification/Incremental.thy ===== *)
theory Incremental
  imports Incremental_Store_Laws
begin

text \<open>
  The clustering half of an incremental pass (\<open>autodedup/incremental.py\<close>): the rulings as a pass reads them
  and the components they seed, the walk that collects the touched components of the merge graph, and the
  re-clustering of those components from their stored edges. What a pass reads of an advert, its body and its
  fingerprint, is a function of the id (\<open>facts\<close>): a pass reads an advert once.
\<close>

section \<open>Rulings\<close>

record rulings =
  ru_mnl :: "(int \<times> int) list"
  ru_ml :: "(int \<times> int) list"
  ru_changed :: "int list"

definition rulings_within :: "int list \<Rightarrow> rulings \<Rightarrow> (int \<times> int) list \<times> (int \<times> int) list" where
  "rulings_within ms r =
     (filter (\<lambda>(a, b). a \<in> set ms \<and> b \<in> set ms) (ru_mnl r), filter (\<lambda>(a, b). a \<in> set ms \<and> b \<in> set ms) (ru_ml r))"

definition read_rulings :: "store \<Rightarrow> store \<times> rulings" where
  "read_rulings st =
     (let same = remdups (map (\<lambda>(lo, hi). (min lo hi, max lo hi)) (filter (\<lambda>(lo, hi). lo \<noteq> hi) (st_ml st)));
          (st1, changed) = rulings_changed st;
          wanted = concat (map (\<lambda>(a, b). [a, b]) same) @ changed;
          held = known_ids wanted st1
      in (st1, \<lparr>ru_mnl = st_mnl st1, ru_ml = filter (\<lambda>(a, b). a \<in> set held \<and> b \<in> set held) same,
                ru_changed = filter (\<lambda>i. i \<in> set held) (remdups changed)\<rparr>))"

definition member_map :: "(int, int list) dict \<Rightarrow> (int, int) dict" where
  "member_map cs = fold (\<lambda>(k, ms). fold (\<lambda>m. AList.update m k) ms) cs []"

definition ruling_seeds :: "store \<Rightarrow> rulings \<Rightarrow> int list" where
  "ruling_seeds st r =
     (let pairs = ru_mnl r @ ru_ml r;
          members = member_map (clusters_touching (concat (map (\<lambda>(a, b). [a, b]) pairs)) st);
          together = (\<lambda>(lo, hi). map_of members lo \<noteq> None \<and> map_of members lo = map_of members hi);
          asunder = (\<lambda>(lo, hi). map_of members lo = None \<or> map_of members lo \<noteq> map_of members hi)
      in if pairs = [] then ru_changed r
         else remdups (ru_changed r @ concat (map (\<lambda>(lo, hi). [lo, hi]) (filter together (ru_mnl r)))
                @ concat (map (\<lambda>(lo, hi). [lo, hi]) (filter asunder (ru_ml r)))))"

section \<open>The walk over the merge graph\<close>

text \<open>\<open>_Reach\<close>: a union-find that hangs the smaller group under the larger one.\<close>

record reach_uf =
  ra_parent :: parents
  ra_count :: "(int, nat) dict"

definition empty_reach :: reach_uf where
  "empty_reach = \<lparr>ra_parent = [], ra_count = []\<rparr>"

definition reach_find :: "int \<Rightarrow> reach_uf \<Rightarrow> (reach_uf \<times> int) option" where
  "reach_find x s =
     (let d = setdefault x (ra_parent s);
          c = (if map_of (ra_count s) x = None then AList.update x 1 (ra_count s) else ra_count s)
      in map_option (\<lambda>(d', r). (\<lparr>ra_parent = AList.update x r d', ra_count = c\<rparr>, r)) (find_root d (parent_of d x)))"

definition reach_add :: "int \<Rightarrow> reach_uf \<Rightarrow> reach_uf option" where
  "reach_add x s =
     map_option fst (reach_find x
       (if map_of (ra_parent s) x = None
        then \<lparr>ra_parent = AList.update x x (ra_parent s), ra_count = AList.update x 1 (ra_count s)\<rparr> else s))"

definition count_of :: "reach_uf \<Rightarrow> int \<Rightarrow> nat" where
  "count_of s r = (case map_of (ra_count s) r of None \<Rightarrow> 0 | Some n \<Rightarrow> n)"

definition reach_union :: "int \<Rightarrow> int \<Rightarrow> reach_uf \<Rightarrow> reach_uf option" where
  "reach_union left right s =
     Option.bind (reach_find left s) (\<lambda>(s1, a).
     Option.bind (reach_find right s1) (\<lambda>(s2, b).
       if a = b then Some s2
       else let (small, large) = (if count_of s2 a < count_of s2 b then (a, b) else (b, a))
            in Some \<lparr>ra_parent = AList.update small large (ra_parent s2),
                     ra_count = AList.update large (count_of s2 large + count_of s2 small) (ra_count s2)\<rparr>))"

definition reach_size :: "int \<Rightarrow> reach_uf \<Rightarrow> (reach_uf \<times> nat) option" where
  "reach_size x s = map_option (\<lambda>(s', r). (s', count_of s' r)) (reach_find x s)"

definition reach_groups :: "reach_uf \<Rightarrow> (reach_uf \<times> (int, int list) dict) option" where
  "reach_groups s =
     map_option (\<lambda>(s', out). (s', map (\<lambda>(r, ms). (r, sort ms)) out))
       (foldM (\<lambda>x (s, out). map_option (\<lambda>(s', r). (s', dict_append r x out)) (reach_find x s))
          (map fst (ra_parent s)) (s, []))"

text \<open>The rulings as edges of the graph, one list of partners per advert.\<close>

definition linked_of :: "(int \<times> int) list \<Rightarrow> (int, int list) dict" where
  "linked_of ml = fold (\<lambda>(lo, hi) d. adj_add hi lo (adj_add lo hi d)) ml []"

text \<open>What one level of the walk meets at an advert of its frontier: merge neighbours, then rulings.\<close>

definition level_edges :: "store \<Rightarrow> (int, int list) dict \<Rightarrow> int list \<Rightarrow> (int, int list) dict" where
  "level_edges st linked frontier =
     map (\<lambda>(i, others). (i, others @ filter (\<lambda>j. j \<notin> set others) (get_list linked i))) (merge_neighbours (sort frontier) st)"

definition reach_star :: "int \<times> int list \<Rightarrow> reach_uf \<Rightarrow> reach_uf option" where
  "reach_star = (\<lambda>(i, others) s. Option.bind (reach_add i s)
     (foldM (\<lambda>j s. Option.bind (reach_add j s) (reach_union i j)) others))"

text \<open>\<^verbatim>\<open>{i for i in (found - seen) if reach.size(i) <= max_size}\<close>\<close>

definition small_enough :: "nat \<Rightarrow> int \<Rightarrow> reach_uf \<times> int list \<Rightarrow> (reach_uf \<times> int list) option" where
  "small_enough cap i = (\<lambda>(s, out).
     map_option (\<lambda>(s', n). (s', if n \<le> cap then out @ [i] else out)) (reach_size i s))"

text \<open>The state of the walk: what it has expanded, what it expands next, and the groups so far.\<close>

type_synonym walk = "int list \<times> int list \<times> reach_uf"

definition walk_level :: "store \<Rightarrow> (int, int list) dict \<Rightarrow> nat \<Rightarrow> walk \<Rightarrow> walk option" where
  "walk_level st linked cap = (\<lambda>(seen, frontier, s).
     let seen' = remdups (seen @ frontier); met = level_edges st linked frontier;
         found = remdups (concat (map snd met))
     in Option.bind (foldM reach_star met s) (\<lambda>s1.
        map_option (\<lambda>(s2, next). (seen', next, s2))
          (foldM (small_enough cap) (filter (\<lambda>i. i \<notin> set seen') found) (s1, []))))"

definition walk_all :: "store \<Rightarrow> (int, int list) dict \<Rightarrow> nat \<Rightarrow> walk \<Rightarrow> walk option" where
  "walk_all st linked cap w =
     Option.bind (while_option (\<lambda>w. case w of None \<Rightarrow> False | Some (_, frontier, _) \<Rightarrow> frontier \<noteq> [])
       (\<lambda>w. Option.bind w (walk_level st linked cap)) (Some w)) id"

definition touched_components :: "store \<Rightarrow> int list \<Rightarrow> nat \<Rightarrow> (int \<times> int) list \<Rightarrow> (int list list \<times> int list) option" where
  "touched_components st seeds cap must_link =
     (let wanted = sort (remdups seeds)
      in if wanted = [] then Some ([], [])
         else Option.bind (foldM reach_add wanted empty_reach) (\<lambda>s0.
              Option.bind (walk_all st (linked_of must_link) cap ([], wanted, s0)) (\<lambda>(_, _, s).
              map_option (\<lambda>(_, groups).
                 let gs = sort (map snd groups)
                 in (filter (\<lambda>ms. length ms \<le> cap) gs,
                     sort (concat (map (filter (\<lambda>i. i \<in> set wanted)) (filter (\<lambda>ms. cap < length ms) gs)))))
                (reach_groups s))))"

section \<open>Re-clustering\<close>

record lane_settings =
  ls_cluster :: cluster_settings
  ls_d43 :: d43_settings
  ls_store_floor :: rat
  ls_max_component :: nat

text \<open>What the re-clustering adds to the result of the pass.\<close>

record pass_result =
  ps_generation :: string
  ps_oversized :: "int list"
  ps_components :: nat
  ps_keys :: "int list"
  ps_written :: nat
  ps_dropped :: nat
  ps_dissolved :: "int list list"
  ps_pairs :: nat
  ps_ledgered :: nat

text \<open>The rows of a pass that the relation keeps slots for, and the certificates of the edges.\<close>

definition slots_of :: "lane_settings \<Rightarrow> pair_row list \<Rightarrow> int \<times> int \<Rightarrow> feats option" where
  "slots_of cfg rows = map_of (List.map_filter (\<lambda>r.
     if storable (pr_zone r) (pr_score r) (pr_evidence r) (ls_store_floor cfg)
     then Some ((pr_lo r, pr_hi r), case pr_slots r of None \<Rightarrow> [] | Some s \<Rightarrow> s) else None) rows)"

definition certificates_of :: "pair_row list \<Rightarrow> int \<times> int \<Rightarrow> string option" where
  "certificates_of rows = map_of (List.map_filter (\<lambda>r.
     if truthy (pr_certificate r) then Some ((pr_lo r, pr_hi r), the (pr_certificate r)) else None) rows)"

definition vetoes_of :: "pair_row list \<Rightarrow> (int \<times> int) set" where
  "vetoes_of rows = set (map (\<lambda>r. (pr_lo r, pr_hi r)) (filter (\<lambda>r. pr_veto r = Some UNIT_DESIGNATOR_VETO) rows))"

definition loaded :: "(int \<Rightarrow> 'a option) \<Rightarrow> int list \<Rightarrow> int \<Rightarrow> 'a option" where
  "loaded facts ms i = (if i \<in> set ms then facts i else None)"

text \<open>One component: its clusters' rows, the conflicts it files, the clusters it keeps, the closures it dissolved.\<close>

definition recluster_one :: "('l, feats) fact_reader \<Rightarrow> lane_settings \<Rightarrow> string \<Rightarrow> (int \<Rightarrow> full_fp option)
    \<Rightarrow> ('l, feats) relation option \<Rightarrow> rulings \<Rightarrow> pair_row list \<Rightarrow> int list
    \<Rightarrow> (cluster_report list \<times> (string \<times> filed) list \<times> int list \<times> int list list) option" where
  "recluster_one rd cfg generation fps relation r rows ms =
     (let decisions = map row_decision rows; (mnl, same) = rulings_within ms r; here = loaded fps ms
      in map_option (\<lambda>res.
           (cluster_rows res decisions here,
            map (\<lambda>c. (generation, Refused c)) (r_conflicts res)
              @ map (\<lambda>b. (generation, Unbridged b)) (filter (\<lambda>b. \<not> b_applied b) (r_bridges res))
              @ map (\<lambda>d. (generation, Undone d)) (r_dissolved res),
            map fst (r_clusters res), map dc_members (r_dissolved res)))
         (cluster_pairs rd decisions (map_option base \<circ> here) (ls_cluster cfg) (set mnl) relation same (vetoes_of rows)))"

definition recluster :: "('l, feats) fact_reader \<Rightarrow> (int \<Rightarrow> ('l \<times> full_fp) option) \<Rightarrow> lane_settings \<Rightarrow> int list
    \<Rightarrow> rulings \<Rightarrow> int list \<Rightarrow> pass_result \<times> store \<Rightarrow> (pass_result \<times> store) option" where
  "recluster rd facts cfg working r seeds = (\<lambda>(ps, st).
     Option.bind (touched_components st seeds (ls_max_component cfg) (ru_ml r)) (\<lambda>(comps, oversized).
       let ps1 = ps\<lparr>ps_oversized := sort (remdups (ps_oversized ps @ oversized)),
                    ps_components := ps_components ps + length comps\<rparr>
       in if comps = [] then Some (ps1, st)
          else let every = sort (concat comps);
                   known_ads = loaded facts (working @ every);
                   same_component = (\<lambda>row. list_ex (\<lambda>ms. pr_lo row \<in> set ms \<and> pr_hi row \<in> set ms) comps);
                   stored = pairs_within every st; mine = filter same_component stored;
                   relation = relation_for (ls_d43 cfg) (map_option fst \<circ> known_ads) (slots_of cfg mine) (certificates_of mine);
                   touched = clusters_touching every st;
                   outs = map (\<lambda>ms. recluster_one rd cfg (ps_generation ps) (map_option snd \<circ> known_ads) relation r
                            (filter (\<lambda>row. pr_lo row \<in> set ms \<and> pr_hi row \<in> set ms) mine) ms) comps
               in if list_ex (\<lambda>out. out = None) outs then None
                  else let results = map the outs; rows = concat (map fst results);
                           keep = concat (map (fst \<circ> snd \<circ> snd) results);
                           gone = sort (filter (\<lambda>k. k \<notin> set keep) (map fst touched));
                           st1 = write_clusters gone rows (concat (map (fst \<circ> snd) results)) st
                       in Some (ps1\<lparr>ps_keys := ps_keys ps1 @ map cr_key rows, ps_written := ps_written ps1 + length rows,
                                   ps_dropped := ps_dropped ps1 + length gone,
                                   ps_dissolved := remdups (ps_dissolved ps1 @ concat (map (snd \<circ> snd \<circ> snd) results))\<rparr>, st1)))"

section \<open>The steps of a pass around it\<close>

text \<open>\<open>_write_rows\<close>: a chunk of rows is written, and names the adverts whose merge edges or vetoes it moved.\<close>

definition row_moves :: "pair_row option \<Rightarrow> pair_row \<Rightarrow> bool" where
  "row_moves previous row \<longleftrightarrow>
     pr_zone row = ''merge'' \<or> map_option pr_zone previous = Some ''merge'' \<or> pr_veto row = Some UNIT_DESIGNATOR_VETO"

definition write_rows :: "pair_row list \<Rightarrow> (int \<times> int, pair_row) dict \<Rightarrow> pass_result \<times> store
    \<Rightarrow> ((pass_result \<times> store) \<times> int list) option" where
  "write_rows rows stored = (\<lambda>(ps, st). map_option (\<lambda>(st', ledgered).
     ((ps\<lparr>ps_ledgered := ps_ledgered ps + ledgered, ps_pairs := ps_pairs ps + length rows\<rparr>, st'),
      remdups (concat (map (\<lambda>r. [pr_lo r, pr_hi r])
        (filter (\<lambda>r. row_moves (map_of stored (pr_lo r, pr_hi r)) r) rows)))))
     (upsert_pairs rows st))"

text \<open>
  Step 6 of \<open>run_pass\<close>: the seeds are the adverts the rows moved, the sides of every dropped merge pair and what
  the rulings seed, less the retired adverts.
\<close>

definition pass_seeds :: "int list \<Rightarrow> (int \<times> int) list \<Rightarrow> (int \<times> int, pair_row) dict \<Rightarrow> int list \<Rightarrow> store
    \<Rightarrow> store \<times> rulings \<times> int list" where
  "pass_seeds moved dropped stored retired st =
     (let ends = concat (map (\<lambda>(lo, hi). [lo, hi])
            (filter (\<lambda>k. map_option pr_zone (map_of stored k) = Some ''merge'') dropped));
          (st1, r) = read_rulings st
      in (st1, r, filter (\<lambda>i. i \<notin> set retired) (remdups (moved @ ends @ ruling_seeds st1 r))))"

definition cluster_step :: "('l, feats) fact_reader \<Rightarrow> (int \<Rightarrow> ('l \<times> full_fp) option) \<Rightarrow> lane_settings \<Rightarrow> int list
    \<Rightarrow> int list \<Rightarrow> (int \<times> int) list \<Rightarrow> (int \<times> int, pair_row) dict \<Rightarrow> int list \<Rightarrow> pass_result \<times> store
    \<Rightarrow> (pass_result \<times> store) option" where
  "cluster_step rd facts cfg working moved dropped stored retired = (\<lambda>(ps, st).
     let (st1, r, seeds) = pass_seeds moved dropped stored retired st
     in recluster rd facts cfg working r seeds (ps, st1))"

text \<open>A pass that claimed nothing still honours the rulings.\<close>

definition idle_pass :: "('l, feats) fact_reader \<Rightarrow> (int \<Rightarrow> ('l \<times> full_fp) option) \<Rightarrow> lane_settings
    \<Rightarrow> pass_result \<times> store \<Rightarrow> (pass_result \<times> store) option" where
  "idle_pass rd facts cfg = (\<lambda>(ps, st).
     let (st1, r) = read_rulings st; seeds = ruling_seeds st1 r
     in map_option (\<lambda>(ps', st2). (ps', flush st2))
          (if seeds = [] then Some (ps, st1) else recluster rd facts cfg [] r seeds (ps, st1)))"

section \<open>The chunks in which pairs are scored\<close>

text \<open>
  \<open>_score_chunks\<close>: the scored pairs in groups of at most \<open>chunk\<close>, which sides each group opens at its first pair, and
  which sides it gives back at its last. \<open>ck_at\<close> is the entry of \<open>opens\<close> the loop's \<open>sides\<close> is;
  the caller passes \<^verbatim>\<open>max(1, caps.score_chunk)\<close>, so \<open>chunk\<close> is positive.
\<close>

record chunking =
  ck_opens :: "(nat, int list) dict"
  ck_ends :: "nat list"
  ck_last :: "(int, nat) dict"
  ck_at :: nat
  ck_taken :: nat

definition chunk_pair :: "nat \<Rightarrow> nat \<times> int \<times> int \<Rightarrow> chunking \<Rightarrow> chunking" where
  "chunk_pair chunk = (\<lambda>(index, lo, hi) s.
     let s1 = (if ck_taken s mod chunk = 0
               then s\<lparr>ck_opens := AList.update index [] (ck_opens s), ck_ends := ck_ends s @ [index], ck_at := index\<rparr> else s);
         c = length (ck_ends s1) - 1
     in s1\<lparr>ck_taken := ck_taken s1 + 1, ck_opens := adj_add (ck_at s1) hi (adj_add (ck_at s1) lo (ck_opens s1)),
           ck_ends := butlast (ck_ends s1) @ [index], ck_last := AList.update hi c (AList.update lo c (ck_last s1))\<rparr>)"

definition scored_pairs :: "(int \<times> int) list \<Rightarrow> (int \<times> int) list \<Rightarrow> int list \<Rightarrow> (nat \<times> int \<times> int) list" where
  "scored_pairs ordered decide held =
     filter (\<lambda>(_, lo, hi). (lo, hi) \<in> set decide \<and> lo \<in> set held \<and> hi \<in> set held) (zip [0..<length ordered] ordered)"

definition score_chunks :: "(int \<times> int) list \<Rightarrow> (int \<times> int) list \<Rightarrow> int list \<Rightarrow> nat
    \<Rightarrow> (nat, int list) dict \<times> (nat, int list) dict" where
  "score_chunks ordered decide held chunk =
     (let s = fold (chunk_pair chunk) (scored_pairs ordered decide held)
            \<lparr>ck_opens = [], ck_ends = [], ck_last = [], ck_at = 0, ck_taken = 0\<rparr>
      in (ck_opens s, fold (\<lambda>(side, c). adj_add (ck_ends s ! c) side) (ck_last s) (map (\<lambda>i. (i, [])) (ck_ends s))))"

end
