(* ===== verification/Incremental_Walk.thy ===== *)
theory Incremental_Walk
  imports Incremental
begin

text \<open>
  The walk that collects the components a pass re-clusters. \<open>_Reach\<close> hangs the smaller group under the
  larger one, so its parents do not descend by id; they ascend by a rank. Its unions interpret the same
  interface as the other union-finds, and the walk, which stops growing a group once it is over the cap,
  answers exactly the connected components of the seeds that fit the cap and names the seeds of the others.
\<close>

section \<open>Parents that ascend by a rank\<close>

definition ranked_by :: "(int \<Rightarrow> nat) \<Rightarrow> parents \<Rightarrow> bool" where
  "ranked_by rk d \<longleftrightarrow> (\<forall>x. parent_of d x \<noteq> x \<longrightarrow> rk x < rk (parent_of d x)) \<and> (\<forall>x \<in> items d. parent_of d x \<in> items d)"

definition ranked :: "parents \<Rightarrow> bool" where
  "ranked d \<longleftrightarrow> (\<exists>rk. ranked_by rk d)"

lemma ranked_le: "ranked_by rk d \<Longrightarrow> rk x \<le> rk (parent_of d x)"
  by (cases "parent_of d x = x") (auto simp: ranked_by_def less_imp_le)

lemma ranked_item: "ranked_by rk d \<Longrightarrow> x \<in> items d \<Longrightarrow> parent_of d x \<in> items d"
  by (simp add: ranked_by_def)

definition above :: "(int \<Rightarrow> nat) \<Rightarrow> parents \<Rightarrow> int \<Rightarrow> nat" where
  "above rk d x = Max (insert 0 (rk ` items d)) - rk x"

lemma above_less: "x \<in> items d \<Longrightarrow> y \<in> items d \<Longrightarrow> rk x < rk y \<Longrightarrow> above rk d y < above rk d x"
proof -
  assume "x \<in> items d" "y \<in> items d" and lt: "rk x < rk y"
  then have "rk y \<le> Max (insert 0 (rk ` items d))" by (intro Max_ge) auto
  then show ?thesis using lt by (simp add: above_def diff_less_mono2)
qed

lemma ranked_root_exists:
  assumes r: "ranked_by rk d"
  shows "\<exists>r. rooted d x r"
proof (cases "x \<in> items d")
  case True
  then show ?thesis
  proof (induction "above rk d x" arbitrary: x rule: less_induct)
    case less
    show ?case
    proof (cases "parent_of d x = x")
      case True
      then show ?thesis by (blast intro: rooted.here)
    next
      case False
      then have "above rk d (parent_of d x) < above rk d x"
        using above_less [OF less.prems ranked_item [OF r less.prems]] r by (auto simp: ranked_by_def)
      then show ?thesis using less.hyps ranked_item [OF r less.prems] root_parent by blast
    qed
  qed
next
  case False
  then show ?thesis by (auto simp: root_outside)
qed

lemma ranked_root_item: "rooted d x r \<Longrightarrow> ranked_by rk d \<Longrightarrow> x \<in> items d \<Longrightarrow> r \<in> items d"
  by (induction rule: rooted.induct) (auto dest: ranked_item)

lemma ranked_root_le: "rooted d x r \<Longrightarrow> ranked_by rk d \<Longrightarrow> rk x \<le> rk r"
  by (induction rule: rooted.induct) (auto dest: ranked_le intro: order_trans)

lemma halve_ranked:
  assumes r: "ranked_by rk d" and x: "x \<in> items d"
  shows "ranked_by rk (fst (halve (d, x)))" and "items (fst (halve (d, x))) = items d"
    and "rooted (fst (halve (d, x))) = rooted d"
proof -
  let ?e = "fst (halve (d, x))"
  have two: "parent_of d (parent_of d x) \<in> items d" using ranked_item [OF r] x by blast
  show its: "items ?e = items d" using x by (auto simp: halve_def Let_def)
  have up: "parent_of d y \<noteq> y \<Longrightarrow> rk y < rk (parent_of d (parent_of d y))" for y
    using r ranked_le [OF r, of "parent_of d y"] by (auto simp: ranked_by_def intro: less_le_trans)
  have up2: "parent_of d (parent_of d y) \<noteq> y \<Longrightarrow> rk y < rk (parent_of d (parent_of d y))" for y
    using up [of y] by fastforce
  show e: "ranked_by rk ?e"
    unfolding ranked_by_def its halve_parent using r two up2 by (auto simp: ranked_by_def)
  have "rooted ?e y s \<longleftrightarrow> rooted d y s" for y s
  proof (rule root_transfer)
    show "\<exists>r. rooted d z r" "\<exists>r. rooted ?e z r" for z using ranked_root_exists r e by blast+
    show "parent_of ?e z = z" if "parent_of d z = z" for z using that by (metis halve_parent)
    show "rooted d (parent_of ?e z) s" if "rooted d z s" for z s
      using that by (cases "z = x") (simp_all add: halve_parent root_parent)
    show "parent_of ?e z \<noteq> z" if "parent_of d z \<noteq> z" for z
      using that up [of z] by (auto simp: halve_parent)
  qed
  then show "rooted ?e = rooted d" by blast
qed

text \<open>The walk up returns the root and moves none.\<close>

lemma find_root_ranked:
  assumes r: "ranked_by rk d" and x: "x \<in> items d"
  shows "\<exists>d' s. find_root d x = Some (d', s) \<and> ranked_by rk d' \<and> items d' = items d \<and> rooted d' = rooted d \<and> rooted d x s"
proof -
  define P where "P = (\<lambda>t. ranked_by rk (fst t) \<and> items (fst t) = items d \<and> snd t \<in> items d \<and> rooted (fst t) = rooted d
     \<and> (\<forall>s. rooted d x s \<longleftrightarrow> rooted d (snd t) s))"
  have step: "P (halve t) \<and> above rk d (snd (halve t)) < above rk d (snd t)"
    if p: "P t" and go: "snd t \<noteq> parent_of (fst t) (snd t)" for t
  proof -
    obtain e y where t: "t = (e, y)" by (cases t)
    have e: "ranked_by rk e" "items e = items d" "y \<in> items e" "rooted e = rooted d" "parent_of e y \<noteq> y"
      and xy: "\<And>s. rooted d x s \<longleftrightarrow> rooted d y s"
      using p go by (auto simp: P_def t)
    note h = halve_ranked [OF e(1,3)]
    have z: "snd (halve t) \<in> items d" using ranked_item [OF e(1)] e(2,3) by (simp add: t halve_snd)
    have "rk y < rk (snd (halve t))"
      using e(1,5) ranked_le [OF e(1), of "parent_of e y"] by (auto simp: t halve_snd ranked_by_def intro: less_le_trans)
    then have "above rk d (snd (halve t)) < above rk d (snd t)" using above_less [OF _ z] e(2,3) by (simp add: t)
    moreover have "rooted d y s \<longleftrightarrow> rooted d (snd (halve t)) s" for s
      using root_parent [of e] by (simp add: t halve_snd flip: e(4))
    ultimately show ?thesis using h e(2,4) z xy by (simp add: P_def t)
  qed
  have start: "P (d, x)" using r x by (simp add: P_def)
  have "\<exists>k \<le> above rk d (snd (d, x)). while_option (\<lambda>t. snd t \<noteq> parent_of (fst t) (snd t)) halve (d, x) = Some ((halve ^^ k) (d, x))"
    by (rule while_option_steps [where P = P and m = "\<lambda>t. above rk d (snd t)", OF step start])
  then obtain k where k: "while_option (\<lambda>t. snd t \<noteq> parent_of (fst t) (snd t)) halve (d, x) = Some ((halve ^^ k) (d, x))"
    by (elim exE conjE)
  obtain e y where ey: "(halve ^^ k) (d, x) = (e, y)" by (cases "(halve ^^ k) (d, x)")
  have w: "find_root d x = Some (e, y)" using k unfolding ey by (simp only: find_root_def case_prod_beta')
  have "P (e, y)"
    by (rule while_option_rule [where P = P, OF _ w [unfolded find_root_def] start]) (use step in \<open>simp add: case_prod_beta\<close>)
  then have e: "ranked_by rk e" "items e = items d" "rooted e = rooted d" "\<And>s. rooted d x s \<longleftrightarrow> rooted d y s"
    by (auto simp: P_def)
  have "parent_of e y = y" using while_option_stop [OF w [unfolded find_root_def]] by simp
  then have "rooted d y y" using rooted.here [of e y] by (simp add: e(3))
  then show ?thesis using w e by auto
qed

text \<open>Pointing an item at its own root, as \<open>find\<close> does last.\<close>

lemma shortcut_ranked:
  assumes r: "ranked_by rk d" and x: "x \<in> items d" and root: "rooted d x s"
  shows "ranked_by rk (AList.update x s d)" and "items (AList.update x s d) = items d" and "rooted (AList.update x s d) = rooted d"
proof -
  let ?e = "AList.update x s d"
  have s: "s \<in> items d" by (rule ranked_root_item [OF root r x])
  have fx: "parent_of d s = s" by (rule root_fix [OF root])
  have lt: "rk x < rk s" if "s \<noteq> x"
  proof -
    have "parent_of d x \<noteq> x" using that root by (auto elim: root_E)
    moreover have "rooted d (parent_of d x) s" using root by (simp add: root_parent)
    ultimately show ?thesis using r ranked_root_le [OF _ r] by (auto simp: ranked_by_def intro: less_le_trans)
  qed
  show its: "items ?e = items d" using x by auto
  show e: "ranked_by rk ?e" unfolding ranked_by_def its parent_of_update using r s lt by (auto simp: ranked_by_def)
  have "rooted ?e y t \<longleftrightarrow> rooted d y t" for y t
  proof (rule root_transfer)
    show "\<exists>r. rooted d z r" "\<exists>r. rooted ?e z r" for z using ranked_root_exists r e by blast+
    show "parent_of ?e z = z" if "parent_of d z = z" for z
      using that root by (auto simp: parent_of_update elim: root_E)
    show "rooted d (parent_of ?e z) t" if "rooted d z t" for z t
    proof (cases "z = x")
      case True
      then have "t = s" using that root root_unique by blast
      then show ?thesis using root_self [OF root] by (simp add: True parent_of_update)
    qed (use that in \<open>simp add: parent_of_update root_parent\<close>)
    show "parent_of ?e z \<noteq> z" if "parent_of d z \<noteq> z" for z
      using that fx by (auto simp: parent_of_update)
  qed
  then show "rooted ?e = rooted d" by blast
qed

lemma hang_ranked:
  assumes r: "ranked_by rk d" and a: "rooted d a a" "a \<in> items d" and b: "rooted d b b" "b \<in> items d" and ne: "a \<noteq> b"
  shows "ranked (AList.update a b d)"
proof -
  define rk' where "rk' = (\<lambda>x. if rooted d x a then rk x else rk x + rk a + 1)"
  have "rk' x < rk' (parent_of (AList.update a b d) x)" if p: "parent_of (AList.update a b d) x \<noteq> x" for x
  proof (cases "x = a")
    case True
    have "\<not> rooted d b a" using b(1) ne root_unique by blast
    then show ?thesis using a(1) by (simp add: True parent_of_update rk'_def)
  next
    case False
    then have "rk x < rk (parent_of d x)" using p r by (simp add: parent_of_update ranked_by_def)
    moreover have "rooted d (parent_of d x) a \<longleftrightarrow> rooted d x a" by (rule root_parent)
    ultimately show ?thesis using False by (simp add: parent_of_update rk'_def)
  qed
  moreover have "parent_of (AList.update a b d) x \<in> items (AList.update a b d)" if "x \<in> items (AList.update a b d)" for x
    using that a b ranked_item [OF r] by (auto simp: parent_of_update)
  ultimately show ?thesis by (auto simp: ranked_def ranked_by_def)
qed

section \<open>Reach\<close>

definition class_of :: "parents \<Rightarrow> int \<Rightarrow> int set" where
  "class_of d r = {y \<in> items d. rooted d y r}"

definition reach_ok :: "reach_uf \<Rightarrow> bool" where
  "reach_ok s \<longleftrightarrow> ranked (ra_parent s) \<and> distinct (map fst (ra_parent s))
     \<and> (\<forall>x. (map_of (ra_count s) x \<noteq> None) = (x \<in> items (ra_parent s)))
     \<and> (\<forall>r \<in> items (ra_parent s). parent_of (ra_parent s) r = r \<longrightarrow> count_of s r = card (class_of (ra_parent s) r))"

abbreviation reached :: "reach_uf \<Rightarrow> int set" where
  "reached s \<equiv> items (ra_parent s)"

lemma reach_ok_empty: "reach_ok empty_reach"
  by (simp add: reach_ok_def empty_reach_def ranked_def ranked_by_def items_def parent_of_def)

text \<open>A new item is a group of its own.\<close>

definition admit :: "int \<Rightarrow> reach_uf \<Rightarrow> reach_uf" where
  "admit x s = \<lparr>ra_parent = setdefault x (ra_parent s),
     ra_count = (if map_of (ra_count s) x = None then AList.update x 1 (ra_count s) else ra_count s)\<rparr>"

lemma ranked_setdefault: "ranked_by rk d \<Longrightarrow> ranked_by rk (setdefault x d)"
  using parent_of_outside [of x d] by (auto simp: ranked_by_def)

lemma class_setdefault:
  assumes "ranked_by rk d"
  shows "class_of (setdefault x d) r = (if x \<notin> items d \<and> r = x then {x} else class_of d r)"
proof -
  have "rooted d x r \<longleftrightarrow> r = x" if "x \<notin> items d" using that by (rule root_outside)
  moreover have "y \<in> items d \<Longrightarrow> rooted d y r \<Longrightarrow> r \<in> items d" for y using ranked_root_item assms by blast
  ultimately show ?thesis by (auto simp: class_of_def)
qed

lemma admit_ok:
  assumes ok: "reach_ok s"
  shows "reach_ok (admit x s)" and "reached (admit x s) = insert x (reached s)"
    and "rooted (ra_parent (admit x s)) = rooted (ra_parent s)"
proof -
  let ?d = "ra_parent s"
  obtain rk where rk: "ranked_by rk ?d" using ok by (auto simp: reach_ok_def ranked_def)
  show its: "reached (admit x s) = insert x (reached s)" and rt: "rooted (ra_parent (admit x s)) = rooted ?d"
    by (simp_all add: admit_def)
  have cnt: "map_of (ra_count s) y \<noteq> None \<longleftrightarrow> y \<in> items ?d" for y using ok by (simp add: reach_ok_def)
  have "count_of (admit x s) r = card (class_of (ra_parent (admit x s)) r)"
    if r: "r \<in> reached (admit x s)" "parent_of (ra_parent (admit x s)) r = r" for r
  proof (cases "x \<in> items ?d")
    case True
    then have "admit x s = s" using cnt [of x] by (cases s) (auto simp: admit_def setdefault_def items_dom domIff)
    then show ?thesis using ok r by (simp add: reach_ok_def)
  next
    case False
    then have "map_of (ra_count s) x = None" using cnt [of x] by simp
    then have "count_of (admit x s) r = (if r = x then 1 else count_of s r)" by (simp add: admit_def count_of_def update_conv')
    moreover have "class_of (ra_parent (admit x s)) r = (if r = x then {x} else class_of ?d r)"
      using class_setdefault [OF rk, of x r] False by (simp add: admit_def)
    moreover have "r \<noteq> x \<Longrightarrow> count_of s r = card (class_of ?d r)" using ok r its by (simp add: reach_ok_def admit_def)
    ultimately show ?thesis by simp
  qed
  moreover have "map_of (ra_count (admit x s)) y \<noteq> None \<longleftrightarrow> y \<in> reached (admit x s)" for y
    using cnt [of y] cnt [of x] unfolding its by (auto simp: admit_def update_conv')
  moreover have "ranked (ra_parent (admit x s))" using ranked_setdefault [OF rk] by (auto simp: ranked_def admit_def)
  moreover have "distinct (map fst (ra_parent (admit x s)))" using ok by (simp add: reach_ok_def admit_def setdefault_distinct)
  ultimately show "reach_ok (admit x s)" by (simp add: reach_ok_def)
qed

lemma reach_find_correct:
  assumes ok: "reach_ok s"
  shows "\<exists>s' r. reach_find x s = Some (s', r) \<and> reach_ok s' \<and> reached s' = insert x (reached s)
    \<and> rooted (ra_parent s') = rooted (ra_parent s) \<and> rooted (ra_parent s') x r"
proof -
  note a = admit_ok [OF ok, of x]
  let ?s = "admit x s" and ?d = "ra_parent (admit x s)"
  obtain rk where rk: "ranked_by rk ?d" using a(1) by (auto simp: reach_ok_def ranked_def)
  have x: "x \<in> items ?d" using a(2) by simp
  obtain d' r where f: "find_root ?d (parent_of ?d x) = Some (d', r)" "ranked_by rk d'" "items d' = items ?d"
      "rooted d' = rooted ?d" "rooted ?d (parent_of ?d x) r"
    using find_root_ranked [OF rk ranked_item [OF rk x]] by blast
  have root: "rooted d' x r" using f(4,5) by (simp add: root_parent)
  note sc = shortcut_ranked [OF f(2) _ root]
  let ?e = "AList.update x r d'"
  have e: "ranked_by rk ?e" "items ?e = items ?d" "rooted ?e = rooted ?d" using sc x f(3,4) by auto
  have find: "reach_find x s = Some (\<lparr>ra_parent = ?e, ra_count = ra_count ?s\<rparr>, r)"
    using f(1) by (simp add: reach_find_def admit_def Let_def)
  have fixes_same: "parent_of ?e y = y \<longleftrightarrow> parent_of ?d y = y" for y
  proof -
    have "parent_of d y = y \<longleftrightarrow> rooted d y y" for d by (metis rooted.here root_fix)
    then show ?thesis by (simp add: e(3))
  qed
  have "distinct (map fst ?e)"
    using a(1) find_root_distinct [OF f(1)] by (simp add: reach_ok_def distinct_update)
  then have "reach_ok \<lparr>ra_parent = ?e, ra_count = ra_count ?s\<rparr>"
    using a(1) e fixes_same by (auto simp: reach_ok_def ranked_def class_of_def count_of_def)
  then show ?thesis using find a(2,3) e root f(4) by (auto simp: f(4))
qed

lemma reach_add_correct:
  assumes ok: "reach_ok s"
  shows "\<exists>s'. reach_add x s = Some s' \<and> reach_ok s' \<and> reached s' = insert x (reached s)
    \<and> rooted (ra_parent s') = rooted (ra_parent s)"
proof -
  have "map_of (ra_parent s) x = None \<longleftrightarrow> map_of (ra_count s) x = None"
    using ok unfolding reach_ok_def items_dom by (metis domIff)
  then have "reach_add x s = map_option fst (reach_find x (admit x s))"
    by (cases s) (simp add: reach_add_def admit_def setdefault_def)
  then show ?thesis
    using reach_find_correct [OF admit_ok(1) [OF ok], of x x] admit_ok(2,3) [OF ok, of x] by fastforce
qed

text \<open>New items are connected to nothing but themselves.\<close>

lemma conn_outside:
  assumes rk: "ranked_by rk d" and rt: "rooted d' = rooted d"
  shows "conn d' \<subseteq> conn d \<union> Id"
proof -
  have "x = y \<or> (x, y) \<in> conn d" if xy: "(x, y) \<in> conn d'" for x y
  proof -
    obtain r where r: "rooted d x r" "rooted d y r" using xy by (auto simp: conn_def rt)
    show ?thesis
    proof (cases "r \<in> items d")
      case True
      then have "x \<in> items d" "y \<in> items d" using r root_outside by metis+
      then show ?thesis using r by (auto simp: conn_def)
    next
      case False
      then have "x \<notin> items d" "y \<notin> items d"
        using ranked_root_item [OF r(1) rk] ranked_root_item [OF r(2) rk] by blast+
      then show ?thesis using r by (simp add: root_outside)
    qed
  qed
  then show ?thesis by auto
qed

lemma conn_admit_alone:
  assumes rk: "ranked_by rk d" and rt: "rooted d' = rooted d" and its: "items d' = X \<union> items d"
  shows "eqc K (conn d' \<union> F) = eqc K (conn d \<union> F)"
proof (rule eqc_upto_Id)
  show "conn d \<subseteq> conn d'" using its by (auto simp: conn_def rt)
qed (rule conn_outside [OF rk rt])

text \<open>An item that joins alone leaves the relation generated by the same edges.\<close>

lemma conn_grow:
  assumes rk: "ranked_by rk d" and rk': "ranked_by rk' d'" and rt: "rooted d' = rooted d" and its: "items d \<subseteq> items d'"
    and rel: "conn d = eqc (items d) E" and E: "E \<subseteq> items d \<times> items d"
  shows "conn d' = eqc (items d') E"
proof
  have path: "x = y \<or> x \<in> items d \<and> y \<in> items d" if "(x, y) \<in> (E \<union> E\<inverse>)\<^sup>*" for x y
    using that by (induction rule: rtrancl_induct) (use E in auto)
  show "conn d' \<subseteq> eqc (items d') E"
    using conn_outside [OF rk rt] rel its by (auto simp: conn_def eqc_def)
  show "eqc (items d') E \<subseteq> conn d'"
  proof (rule subrelI)
    fix x y assume xy: "(x, y) \<in> eqc (items d') E"
    then have "x = y \<or> (x, y) \<in> eqc (items d) E" using path [of x y] by (auto simp: eqc_def)
    moreover have "(x, x) \<in> conn d'" using xy ranked_root_exists [OF rk'] by (auto simp: conn_def eqc_def)
    ultimately show "(x, y) \<in> conn d'" using its by (auto simp: conn_def rt simp flip: rel)
  qed
qed

lemma reach_union_correct:
  assumes ok: "reach_ok s"
  shows "\<exists>s'. reach_union a b s = Some s' \<and> reach_ok s' \<and> reached s' = {a, b} \<union> reached s
    \<and> conn (ra_parent s') = eqc (reached s') (conn (ra_parent s) \<union> {(a, b)})"
proof -
  obtain s1 ra where 1: "reach_find a s = Some (s1, ra)" "reach_ok s1" "reached s1 = insert a (reached s)"
      "rooted (ra_parent s1) = rooted (ra_parent s)" "rooted (ra_parent s1) a ra"
    using reach_find_correct [OF ok] by blast
  obtain s2 rb where 2: "reach_find b s1 = Some (s2, rb)" "reach_ok s2" "reached s2 = insert b (reached s1)"
      "rooted (ra_parent s2) = rooted (ra_parent s1)" "rooted (ra_parent s2) b rb"
    using reach_find_correct [OF 1(2)] by blast
  let ?d = "ra_parent s2"
  have its: "items ?d = {a, b} \<union> reached s" using 1(3) 2(3) by auto
  obtain rk0 where rk0: "ranked_by rk0 (ra_parent s)" using ok by (auto simp: reach_ok_def ranked_def)
  obtain rk where rk: "ranked_by rk ?d" using 2(2) by (auto simp: reach_ok_def ranked_def)
  have a: "rooted ?d a ra" "a \<in> items ?d" and b: "rooted ?d b rb" "b \<in> items ?d" using 1(5) 2(4,5) its by auto
  have r: "ra \<in> items ?d" "rb \<in> items ?d" using ranked_root_item [OF _ rk] a b by blast+
  have base: "eqc (items ?d) (conn ?d \<union> {(a, b)}) = eqc (items ?d) (conn (ra_parent s) \<union> {(a, b)})"
    by (rule conn_admit_alone [OF rk0 _ its]) (simp add: 1(4) 2(4))
  note merged = merged_conn [OF ranked_root_exists [OF rk] a b]
  show ?thesis
  proof (cases "ra = rb")
    case True
    have "conn ?d = eqc (items ?d) (conn ?d \<union> {(a, b)})"
    proof (rule merged [where keep = ra])
      show "rooted ?d x t \<longleftrightarrow> (if rooted ?d x ra \<or> rooted ?d x rb then t = ra else rooted ?d x t)" for x t
        using True root_unique [of ?d x] by auto
    qed simp_all
    then show ?thesis using 1(1) 2(1,2) True its base by (simp add: reach_union_def)
  next
    case False
    define small large where sl: "small = (if count_of s2 ra < count_of s2 rb then ra else rb)"
      "large = (if count_of s2 ra < count_of s2 rb then rb else ra)"
    define s' where "s' = \<lparr>ra_parent = AList.update small large ?d,
        ra_count = AList.update large (count_of s2 large + count_of s2 small) (ra_count s2)\<rparr>"
    have run: "reach_union a b s = Some s'"
      using 1(1) 2(1) False by (simp add: reach_union_def s'_def sl)
    have m: "small \<in> items ?d" "large \<in> items ?d" "small \<noteq> large" "rooted ?d small small" "rooted ?d large large"
        "{small, large} = {ra, rb}"
      using r False root_self [OF a(1)] root_self [OF b(1)] by (auto simp: sl)
    have rt: "rooted (ra_parent s') x t \<longleftrightarrow> rooted ?d x t \<and> t \<noteq> small \<or> rooted ?d x small \<and> t = large" for x t
      unfolding s'_def reach_uf.simps
      by (rule hang_root [OF ranked_root_exists [OF rk] root_fix [OF m(4)] root_fix [OF m(5)] m(3)])
    have its': "items (ra_parent s') = items ?d" using m(1) by (auto simp: s'_def)
    have conn: "conn (ra_parent s') = eqc (items ?d) (conn ?d \<union> {(a, b)})"
    proof (rule merged [OF its', where keep = large])
      show "large = ra \<or> large = rb" by (auto simp: sl)
      show "rooted (ra_parent s') x t \<longleftrightarrow> (if rooted ?d x ra \<or> rooted ?d x rb then t = large else rooted ?d x t)" for x t
        unfolding rt using m(3,6) root_unique [of ?d x] by (auto simp: sl split: if_splits)
    qed
    have cls: "class_of (ra_parent s') t = (if t = large then class_of ?d small \<union> class_of ?d large
        else if t = small then {} else class_of ?d t)" for t
      unfolding class_of_def its' using rt m(3) root_unique [of ?d] by auto
    have cnt: "count_of s2 t = card (class_of ?d t)" if "t \<in> items ?d" "parent_of ?d t = t" for t
      using 2(2) that by (simp add: reach_ok_def)
    have "class_of ?d small \<inter> class_of ?d large = {}" using m(3) root_unique by (auto simp: class_of_def)
    then have both: "card (class_of ?d small \<union> class_of ?d large) = count_of s2 large + count_of s2 small"
      using cnt m(1,2) root_fix [OF m(4)] root_fix [OF m(5)] by (subst card_Un_disjoint) (auto simp: class_of_def)
    have "count_of s' t = card (class_of (ra_parent s') t)"
      if t: "t \<in> items (ra_parent s')" "parent_of (ra_parent s') t = t" for t
    proof -
      have "t \<noteq> small" using t(2) m(3) by (auto simp: s'_def parent_of_update)
      then have "t \<noteq> large \<Longrightarrow> count_of s2 t = card (class_of ?d t)" using t cnt its' by (simp add: s'_def parent_of_update)
      then show ?thesis using \<open>t \<noteq> small\<close> both by (simp add: cls) (simp add: s'_def count_of_def update_conv')
    qed
    moreover have "map_of (ra_count s') y \<noteq> None \<longleftrightarrow> y \<in> items (ra_parent s')" for y
      using 2(2) m(2) its' by (auto simp: reach_ok_def s'_def update_conv')
    moreover have "ranked (ra_parent s')" using hang_ranked [OF rk m(4,1,5,2,3)] by (simp add: s'_def)
    moreover have "distinct (map fst (ra_parent s'))" using 2(2) by (simp add: reach_ok_def s'_def distinct_update)
    ultimately have "reach_ok s'" by (simp add: reach_ok_def)
    then show ?thesis using run conn its its' base by simp
  qed
qed

text \<open>The interface of a union, on \<open>_Reach\<close>.\<close>

definition reach_link :: "int \<times> int \<Rightarrow> reach_uf \<Rightarrow> reach_uf option" where
  "reach_link e s = Option.bind (reach_add (snd e) s) (reach_union (fst e) (snd e))"

lemma reach_link_correct:
  assumes "reach_ok s"
  shows "\<exists>s'. reach_link e s = Some s' \<and> reach_ok s' \<and> reached s' = {fst e, snd e} \<union> reached s
    \<and> conn (ra_parent s') = eqc (reached s') (conn (ra_parent s) \<union> {e})"
proof -
  obtain s1 where 1: "reach_add (snd e) s = Some s1" "reach_ok s1" "reached s1 = insert (snd e) (reached s)"
      "rooted (ra_parent s1) = rooted (ra_parent s)"
    using reach_add_correct [OF assms] by blast
  obtain s' where s': "reach_union (fst e) (snd e) s1 = Some s'" "reach_ok s'" "reached s' = {fst e, snd e} \<union> reached s1"
      "conn (ra_parent s') = eqc (reached s') (conn (ra_parent s1) \<union> {e})"
    using reach_union_correct [OF 1(2), of "fst e" "snd e"] by auto
  obtain rk where rk: "ranked_by rk (ra_parent s)" using assms by (auto simp: reach_ok_def ranked_def)
  have "conn (ra_parent s') = eqc (reached s') (conn (ra_parent s) \<union> {e})"
    unfolding s'(4) by (rule conn_admit_alone [OF rk 1(4), where X = "{snd e}"]) (simp add: 1(3))
  then show ?thesis using 1(1,3) s' by (auto simp: reach_link_def)
qed

interpretation reach: edge_merging reach_link "\<lambda>s. reached s" "\<lambda>s. conn (ra_parent s)" reach_ok "\<lambda>_ _. True"
  by unfold_locales (use reach_link_correct in auto)

text \<open>A star is the links from its centre.\<close>

lemma reach_star_correct:
  assumes ok: "reach_ok s" and rel: "conn (ra_parent s) = eqc (reached s) E" and E: "E \<subseteq> reached s \<times> reached s"
  shows "\<exists>s'. reach_star (i, js) s = Some s' \<and> reach_ok s' \<and> reached s' = reached s \<union> insert i (set js)
    \<and> conn (ra_parent s') = eqc (reached s') (E \<union> Pair i ` set js)"
proof -
  obtain s1 where 1: "reach_add i s = Some s1" "reach_ok s1" "reached s1 = insert i (reached s)"
      "rooted (ra_parent s1) = rooted (ra_parent s)"
    using reach_add_correct [OF ok] by blast
  obtain rk where rk: "ranked_by rk (ra_parent s)" using ok by (auto simp: reach_ok_def ranked_def)
  obtain rk1 where rk1: "ranked_by rk1 (ra_parent s1)" using 1(2) by (auto simp: reach_ok_def ranked_def)
  have rel1: "conn (ra_parent s1) = eqc (reached s1) E"
    by (rule conn_grow [OF rk rk1 1(4) _ rel E]) (use 1(3) in auto)
  have E1: "E \<subseteq> reached s1 \<times> reached s1" using E 1(3) by auto
  have "\<exists>s'. foldM reach_link (map (Pair i) js) s1 = Some s' \<and> reach_ok s'
      \<and> reached s' = reached s1 \<union> fst ` set (map (Pair i) js) \<union> snd ` set (map (Pair i) js)
      \<and> conn (ra_parent s') = eqc (reached s') (E \<union> set (map (Pair i) js))"
    by (rule reach.link_all_closure [OF 1(2) _ rel1 E1]) simp
  moreover have "foldM reach_link (map (Pair i) js) s1 = foldM (\<lambda>j s. Option.bind (reach_add j s) (reach_union i j)) js s1"
  proof -
    have "reach_link (i, j) = (\<lambda>s. Option.bind (reach_add j s) (reach_union i j))" for j
      by (simp add: reach_link_def fun_eq_iff)
    then show ?thesis by (simp add: foldM_map)
  qed
  ultimately show ?thesis using 1(1,3) by (auto simp: reach_star_def image_image)
qed

definition star_edges :: "(int, int list) dict \<Rightarrow> (int \<times> int) set" where
  "star_edges met = {(i, j). \<exists>js. (i, js) \<in> set met \<and> j \<in> set js}"

lemma star_edges_Cons: "star_edges ((i, js) # met) = Pair i ` set js \<union> star_edges met"
  by (auto simp: star_edges_def)

lemma reach_level_correct:
  assumes "reach_ok s" and "conn (ra_parent s) = eqc (reached s) E" and "E \<subseteq> reached s \<times> reached s"
  shows "\<exists>s'. foldM reach_star met s = Some s' \<and> reach_ok s'
    \<and> reached s' = reached s \<union> fst ` set met \<union> snd ` star_edges met
    \<and> conn (ra_parent s') = eqc (reached s') (E \<union> star_edges met)"
  using assms
proof (induction met arbitrary: s E)
  case Nil
  then show ?case by (simp add: star_edges_def)
next
  case (Cons m met)
  obtain i js where m: "m = (i, js)" by (cases m)
  obtain s1 where 1: "reach_star (i, js) s = Some s1" "reach_ok s1" "reached s1 = reached s \<union> insert i (set js)"
      "conn (ra_parent s1) = eqc (reached s1) (E \<union> Pair i ` set js)"
    using reach_star_correct [OF Cons.prems, of i js] by blast
  have "E \<union> Pair i ` set js \<subseteq> reached s1 \<times> reached s1" using Cons.prems(3) 1(3) by auto
  then obtain s' where s': "foldM reach_star met s1 = Some s'" "reach_ok s'"
      "reached s' = reached s1 \<union> fst ` set met \<union> snd ` star_edges met"
      "conn (ra_parent s') = eqc (reached s') (E \<union> Pair i ` set js \<union> star_edges met)"
    using Cons.IH [OF 1(2,4)] by blast
  have "reached s' = reached s \<union> fst ` set (m # met) \<union> snd ` star_edges (m # met)"
    using s'(3) 1(3) by (auto simp: m star_edges_Cons image_Un image_image)
  then show ?case using s' 1(1) by (simp add: m star_edges_Cons Un_assoc)
qed

text \<open>The group an item is in.\<close>

definition around :: "reach_uf \<Rightarrow> int \<Rightarrow> int set" where
  "around s i = {y. (i, y) \<in> conn (ra_parent s)}"

lemma around_class: "i \<in> reached s \<Longrightarrow> rooted (ra_parent s) i r \<Longrightarrow> around s i = class_of (ra_parent s) r"
  using root_unique by (auto simp: around_def conn_def class_of_def)

lemma around_self: "reach_ok s \<Longrightarrow> i \<in> reached s \<Longrightarrow> i \<in> around s i"
  using ranked_root_exists unfolding around_def conn_def reach_ok_def ranked_def by blast

lemma around_same: "(x, y) \<in> conn (ra_parent s) \<Longrightarrow> around s x = around s y"
proof -
  assume "(x, y) \<in> conn (ra_parent s)"
  then obtain r where r: "x \<in> reached s" "y \<in> reached s" "rooted (ra_parent s) x r" "rooted (ra_parent s) y r"
    by (auto simp: conn_def)
  show "around s x = around s y" using around_class [OF r(1,3)] around_class [OF r(2,4)] by simp
qed

lemma reach_size_correct:
  assumes ok: "reach_ok s" and i: "i \<in> reached s"
  shows "\<exists>s'. reach_size i s = Some (s', card (around s i)) \<and> reach_ok s' \<and> reached s' = reached s
    \<and> rooted (ra_parent s') = rooted (ra_parent s)"
proof -
  obtain s' r where s': "reach_find i s = Some (s', r)" "reach_ok s'" "reached s' = insert i (reached s)"
      "rooted (ra_parent s') = rooted (ra_parent s)" "rooted (ra_parent s') i r"
    using reach_find_correct [OF ok] by blast
  obtain rk where rk: "ranked_by rk (ra_parent s')" using s'(2) by (auto simp: reach_ok_def ranked_def)
  have same: "reached s' = reached s" using s'(3) i by auto
  have "r \<in> reached s'" by (rule ranked_root_item [OF s'(5) rk]) (use same i in simp)
  then have "count_of s' r = card (class_of (ra_parent s') r)"
    using s'(2) root_fix [OF s'(5)] by (simp add: reach_ok_def)
  also have "class_of (ra_parent s') r = class_of (ra_parent s) r" by (simp add: class_of_def same s'(4))
  also have "\<dots> = around s i" using around_class [OF i, of r] s'(4,5) by simp
  finally show ?thesis using s'(1,2,4) same by (simp add: reach_size_def)
qed

lemma small_enough_correct:
  assumes "reach_ok s" and "set xs \<subseteq> reached s"
  shows "\<exists>s'. foldM (small_enough cap) xs (s, out) = Some (s', out @ filter (\<lambda>i. card (around s i) \<le> cap) xs)
    \<and> reach_ok s' \<and> reached s' = reached s \<and> rooted (ra_parent s') = rooted (ra_parent s)"
  using assms
proof (induction xs arbitrary: s out)
  case (Cons i xs)
  obtain s1 where 1: "reach_size i s = Some (s1, card (around s i))" "reach_ok s1" "reached s1 = reached s"
      "rooted (ra_parent s1) = rooted (ra_parent s)"
    using reach_size_correct [of s i] Cons.prems by auto
  have same: "around s1 = around s" using 1(3,4) by (simp add: around_def conn_def fun_eq_iff)
  obtain s' where "foldM (small_enough cap) xs (s1, if card (around s i) \<le> cap then out @ [i] else out)
        = Some (s', (if card (around s i) \<le> cap then out @ [i] else out) @ filter (\<lambda>i. card (around s1 i) \<le> cap) xs)"
      "reach_ok s'" "reached s' = reached s1" "rooted (ra_parent s') = rooted (ra_parent s1)"
  proof -
    have "set xs \<subseteq> reached s1" using Cons.prems(2) 1(3) by simp
    then show ?thesis using Cons.IH [OF 1(2)] that by blast
  qed
  moreover have "small_enough cap i (s, out) = Some (s1, if card (around s i) \<le> cap then out @ [i] else out)"
    by (simp add: small_enough_def 1(1))
  ultimately show ?case using 1 by (auto simp: same)
qed simp

lemma reach_adds_correct:
  assumes "reach_ok s" and "conn (ra_parent s) = eqc (reached s) {}"
  shows "\<exists>s'. foldM reach_add xs s = Some s' \<and> reach_ok s' \<and> reached s' = reached s \<union> set xs
    \<and> conn (ra_parent s') = eqc (reached s') {}"
  using assms
proof (induction xs arbitrary: s)
  case (Cons x xs)
  obtain s1 where 1: "reach_add x s = Some s1" "reach_ok s1" "reached s1 = insert x (reached s)"
      "rooted (ra_parent s1) = rooted (ra_parent s)"
    using reach_add_correct [OF Cons.prems(1)] by blast
  obtain rk rk1 where rk: "ranked_by rk (ra_parent s)" "ranked_by rk1 (ra_parent s1)"
    using Cons.prems(1) 1(2) by (auto simp: reach_ok_def ranked_def)
  have "conn (ra_parent s1) = eqc (reached s1) {}"
    by (rule conn_grow [OF rk 1(4) _ Cons.prems(2)]) (use 1(3) in auto)
  then show ?case using Cons.IH [OF 1(2)] 1 by auto
qed simp

section \<open>The walk\<close>

text \<open>The graph: a stored merge pair, or a ruling that two adverts are one.\<close>

definition touch_graph :: "store \<Rightarrow> (int \<times> int) list \<Rightarrow> (int \<times> int) set" where
  "touch_graph st ml = {(i, j). merge_edge st i j \<or> (i, j) \<in> set ml \<or> (j, i) \<in> set ml}"

definition component_of :: "(int \<times> int) set \<Rightarrow> int \<Rightarrow> int set" where
  "component_of G i = {j. (i, j) \<in> G\<^sup>*}"

lemma linked_of_mem: "j \<in> set (get_list (linked_of ml) i) \<longleftrightarrow> (i, j) \<in> set ml \<or> (j, i) \<in> set ml"
proof -
  have "j \<in> set (get_list (fold (\<lambda>(lo, hi) d. adj_add hi lo (adj_add lo hi d)) ml d) i)
      \<longleftrightarrow> j \<in> set (get_list d i) \<or> (i, j) \<in> set ml \<or> (j, i) \<in> set ml" for d
  proof (induction ml arbitrary: d)
    case (Cons e ml)
    obtain lo hi where e: "e = (lo, hi)" by (cases e)
    show ?case unfolding e fold_simps comp_def prod.case Cons.IH adj_add_mem by (simp, blast)
  qed simp
  then show ?thesis by (simp add: linked_of_def get_list_def)
qed

lemma level_edges_star:
  assumes "pairs_ok st"
  shows "fst ` set (level_edges st (linked_of ml) frontier) = set frontier"
    and "star_edges (level_edges st (linked_of ml) frontier) = {(i, j) \<in> touch_graph st ml. i \<in> set frontier}"
proof -
  define met where "met i = get_list (st_merge_adj st) i
      @ filter (\<lambda>j. j \<notin> set (get_list (st_merge_adj st) i)) (get_list (linked_of ml) i)" for i
  have l: "level_edges st (linked_of ml) frontier = map (\<lambda>i. (i, met i)) (remdups (sort frontier))"
    by (simp add: level_edges_def merge_neighbours_def met_def)
  show "fst ` set (level_edges st (linked_of ml) frontier) = set frontier" by (simp add: l image_image)
  have "j \<in> set (get_list (st_merge_adj st) i) \<longleftrightarrow> merge_edge st i j" for i j using assms by (simp add: pairs_ok_def)
  then have "j \<in> set (met i) \<longleftrightarrow> (i, j) \<in> touch_graph st ml" for i j
    unfolding met_def touch_graph_def set_append set_filter Un_iff mem_Collect_eq linked_of_mem prod.case by blast
  then show "star_edges (level_edges st (linked_of ml) frontier) = {(i, j) \<in> touch_graph st ml. i \<in> set frontier}"
    by (auto simp: star_edges_def l)
qed

lemma touch_graph_sym: "(i, j) \<in> touch_graph st ml \<Longrightarrow> (j, i) \<in> touch_graph st ml"
  by (auto simp: touch_graph_def merge_edge_def pair_key_sym)

lemma finite_touch_graph:
  assumes "pairs_ok st"
  shows "finite (touch_graph st ml)"
proof -
  have "merge_edge st i j \<Longrightarrow> pair_key i j \<in> fst ` set (st_pairs st)" for i j
    by (auto simp: merge_edge_def split: option.splits dest: map_of_SomeD intro: rev_image_eqI)
  then have "(i, j) \<in> touch_graph st ml \<Longrightarrow> (i, j) \<in> (\<Union>(a, b) \<in> fst ` set (st_pairs st). {(a, b), (b, a)}) \<union> set ml \<union> (set ml)\<inverse>" for i j
    by (fastforce simp: touch_graph_def pair_key_def split: if_splits)
  then have "touch_graph st ml \<subseteq> (\<Union>(a, b) \<in> fst ` set (st_pairs st). {(a, b), (b, a)}) \<union> set ml \<union> (set ml)\<inverse>" by (rule subrelI)
  then show ?thesis by (rule finite_subset) auto
qed

text \<open>
  While the walk runs: the groups are those of the edges out of what it has expanded; an advert it has met is
  expanded, is about to be, or sits in a group over the cap; and everything it met hangs on a seed.
\<close>

definition walk_inv :: "(int \<times> int) set \<Rightarrow> int set \<Rightarrow> nat \<Rightarrow> walk \<Rightarrow> bool" where
  "walk_inv G seeds cap = (\<lambda>(seen, frontier, s). reach_ok s \<and> set seen \<union> set frontier \<union> seeds \<subseteq> reached s
     \<and> set seen \<inter> set frontier = {}
     \<and> {(i, j) \<in> G. i \<in> set seen} \<subseteq> reached s \<times> reached s
     \<and> conn (ra_parent s) = eqc (reached s) {(i, j) \<in> G. i \<in> set seen}
     \<and> (\<forall>i \<in> reached s. i \<in> set seen \<union> set frontier \<or> cap < card (around s i))
     \<and> (\<forall>i \<in> reached s. \<exists>w \<in> seeds. (w, i) \<in> conn (ra_parent s))
     \<and> reached s \<subseteq> seeds \<union> fst ` G \<union> snd ` G)"

lemma finite_around: "finite (around s i)"
  by (rule finite_subset [of _ "reached s"]) (auto simp: around_def conn_def)

lemma walk_level_correct:
  assumes inv: "walk_inv (touch_graph st ml) seeds cap (seen, frontier, s)" and ok: "pairs_ok st"
  shows "\<exists>next s'. walk_level st (linked_of ml) cap (seen, frontier, s) = Some (remdups (seen @ frontier), next, s')
    \<and> walk_inv (touch_graph st ml) seeds cap (remdups (seen @ frontier), next, s')"
proof -
  let ?G = "touch_graph st ml" and ?met = "level_edges st (linked_of ml) frontier" and ?seen = "remdups (seen @ frontier)"
  let ?E = "{(i, j) \<in> ?G. i \<in> set seen}" and ?F = "{(i, j) \<in> ?G. i \<in> set frontier}"
  note met = level_edges_star [OF ok, of ml frontier]
  have i: "reach_ok s" "set seen \<union> set frontier \<union> seeds \<subseteq> reached s" "?E \<subseteq> reached s \<times> reached s"
    "conn (ra_parent s) = eqc (reached s) ?E"
    using inv by (simp_all add: walk_inv_def)
  obtain s1 where 1: "foldM reach_star ?met s = Some s1" "reach_ok s1"
      "reached s1 = reached s \<union> set frontier \<union> snd ` ?F" "conn (ra_parent s1) = eqc (reached s1) (?E \<union> ?F)"
    using reach_level_correct [OF i(1,4,3), of ?met] unfolding met by blast
  have R1: "reached s1 = reached s \<union> snd ` ?F" using 1(3) i(2) by auto
  have EF: "?E \<union> ?F = {(i, j) \<in> ?G. i \<in> set ?seen}" by auto
  define cand where "cand = filter (\<lambda>i. i \<notin> set ?seen) (remdups (concat (map snd ?met)))"
  have cand: "set cand = snd ` ?F - set ?seen"
  proof -
    have "set (concat (map snd ?met)) = snd ` star_edges ?met" by (force simp: star_edges_def)
    then have "set cand = {x \<in> snd ` star_edges ?met. x \<notin> set ?seen}" by (simp only: cand_def set_filter set_remdups)
    then show ?thesis unfolding met by blast
  qed
  then have "set cand \<subseteq> reached s1" using R1 by auto
  then obtain s2 where 2: "foldM (small_enough cap) cand (s1, []) = Some (s2, filter (\<lambda>i. card (around s1 i) \<le> cap) cand)"
      "reach_ok s2" "reached s2 = reached s1" "rooted (ra_parent s2) = rooted (ra_parent s1)"
    using small_enough_correct [OF 1(2), of cand cap "[]"] by auto
  let ?next = "filter (\<lambda>i. card (around s1 i) \<le> cap) cand"
  have same: "conn (ra_parent s2) = conn (ra_parent s1)" using 2(3,4) by (simp add: conn_def)
  then have around: "around s2 = around s1" by (simp add: around_def fun_eq_iff)
  have grow: "conn (ra_parent s) \<subseteq> conn (ra_parent s2)"
    unfolding same 1(4) i(4) R1 eqc_def using rtrancl_mono [of "?E \<union> ?E\<inverse>" "(?E \<union> ?F) \<union> (?E \<union> ?F)\<inverse>"] by blast
  have edges: "?E \<union> ?F \<subseteq> reached s2 \<times> reached s2" 
  proof (rule subrelI)
    fix a b assume ab: "(a, b) \<in> ?E \<union> ?F"
    then have "b \<in> reached s \<or> b \<in> snd ` ?F" using i(3) by force
    then show "(a, b) \<in> reached s2 \<times> reached s2" using ab i(2) unfolding 2(3) R1 by auto
  qed
  have big: "x \<in> set ?seen \<union> set ?next \<or> cap < card (around s2 x)" if x: "x \<in> reached s2" for x
  proof (cases "x \<in> reached s")
    case True
    then consider "x \<in> set seen \<union> set frontier" | "cap < card (around s x)" using inv by (auto simp: walk_inv_def)
    then show ?thesis
    proof cases
      case 2
      have "around s x \<subseteq> around s2 x" using grow by (auto simp: around_def)
      then have "card (around s x) \<le> card (around s2 x)" by (intro card_mono finite_around)
      then show ?thesis using 2 by simp
    qed auto
  next
    case False
    then have "x \<in> set cand" using x cand 2(3) R1 i(2) by auto
    then show ?thesis by (auto simp: around)
  qed
  have hang: "\<exists>w \<in> seeds. (w, x) \<in> conn (ra_parent s2)" if x: "x \<in> reached s2" for x
  proof (cases "x \<in> reached s")
    case True
    then obtain w where "w \<in> seeds" "(w, x) \<in> conn (ra_parent s)" using inv by (auto simp: walk_inv_def)
    then show ?thesis using grow by blast
  next
    case False
    then obtain y where y: "(y, x) \<in> ?F" using x 2(3) R1 by auto
    then have "y \<in> reached s" using i(2) by auto
    then obtain w where w: "w \<in> seeds" "(w, y) \<in> conn (ra_parent s2)" using inv grow by (fastforce simp: walk_inv_def)
    have "(y, x) \<in> conn (ra_parent s2)" unfolding same 1(4) using y edges 2(3) by (intro eqc_edge) auto
    then show ?thesis using w unfolding same 1(4) by (blast intro: eqc_trans)
  qed
  have "walk_level st (linked_of ml) cap (seen, frontier, s) = Some (?seen, ?next, s2)"
    unfolding walk_level_def prod.case Let_def cand_def [symmetric] 1(1) using 2(1) by simp
  moreover have "walk_inv ?G seeds cap (?seen, ?next, s2)"
  proof -
    have "set ?seen \<union> set ?next \<union> seeds \<subseteq> reached s2" using i(2) cand 2(3) R1 by auto
    moreover have "set ?seen \<inter> set ?next = {}" using cand by auto
    moreover have "reached s2 \<subseteq> seeds \<union> fst ` ?G \<union> snd ` ?G" using inv unfolding 2(3) R1 by (auto simp: walk_inv_def rev_image_eqI)
    ultimately show ?thesis
      unfolding walk_inv_def prod.case using 2(2) edges 1(4) big hang unfolding EF same 2(3) by auto
  qed
  ultimately show ?thesis by blast
qed

text \<open>Each level expands something new, so the walk ends.\<close>

lemma walk_all_correct:
  assumes inv: "walk_inv (touch_graph st ml) seeds cap w" and ok: "pairs_ok st" and fin: "finite seeds"
  shows "\<exists>seen s. walk_all st (linked_of ml) cap w = Some (seen, [], s) \<and> walk_inv (touch_graph st ml) seeds cap (seen, [], s)"
proof -
  let ?G = "touch_graph st ml" and ?b = "\<lambda>w. case w of None \<Rightarrow> False | Some (_, frontier, _) \<Rightarrow> frontier \<noteq> []"
  let ?c = "\<lambda>w. Option.bind w (walk_level st (linked_of ml) cap)" and ?N = "seeds \<union> fst ` ?G \<union> snd ` ?G"
  define P where "P = (\<lambda>w. case w of None \<Rightarrow> False | Some w \<Rightarrow> walk_inv ?G seeds cap w)"
  define m where "m = (\<lambda>w :: walk option. case w of None \<Rightarrow> 0 | Some (seen, _, _) \<Rightarrow> card (?N - set (seen :: int list)))"
  have finN: "finite ?N" using fin finite_touch_graph [OF ok] by auto
  have step: "P (?c w) \<and> m (?c w) < m w" if p: "P w" and go: "?b w" for w :: "walk option"
  proof -
    obtain seen frontier s where w: "w = Some (seen, frontier, s)" using p by (cases w) (auto simp: P_def)
    have i: "walk_inv ?G seeds cap (seen, frontier, s)" using p by (simp add: P_def w)
    obtain nxt s' where n: "walk_level st (linked_of ml) cap (seen, frontier, s) = Some (remdups (seen @ frontier), nxt, s')"
        "walk_inv ?G seeds cap (remdups (seen @ frontier), nxt, s')"
      using walk_level_correct [OF i ok] by blast
    obtain y where "y \<in> set frontier" using go by (cases frontier) (auto simp: w)
    moreover have "set frontier \<subseteq> ?N - set seen" using i by (auto simp: walk_inv_def)
    ultimately have "?N - set (remdups (seen @ frontier)) \<subset> ?N - set seen" by auto
    then have "card (?N - set (remdups (seen @ frontier))) < card (?N - set seen)" using finN by (intro psubset_card_mono) auto
    then show ?thesis using n by (simp add: P_def m_def w)
  qed
  have start: "P (Some w)" using inv by (simp add: P_def)
  obtain k where k: "while_option ?b ?c (Some w) = Some ((?c ^^ k) (Some w))"
    using while_option_steps [where P = P and m = m, OF step start] by blast
  have "P ((?c ^^ k) (Some w))" by (rule while_option_rule [where P = P, OF _ k start]) (use step in blast)
  moreover have "\<not> ?b ((?c ^^ k) (Some w))" by (rule while_option_stop [OF k])
  ultimately obtain seen s where "(?c ^^ k) (Some w) = Some (seen, [], s)" "walk_inv ?G seeds cap (seen, [], s)"
    by (cases "(?c ^^ k) (Some w)") (auto simp: P_def)
  then show ?thesis using k by (auto simp: walk_all_def)
qed

text \<open>When nothing is left to expand, a group within the cap is a component, and a larger one lies in a larger component.\<close>

lemma component_trans: "j \<in> component_of G i \<Longrightarrow> (j, k) \<in> G \<Longrightarrow> k \<in> component_of G i"
  by (auto simp: component_of_def)

lemma walk_end:
  assumes inv: "walk_inv (touch_graph st ml) seeds cap (seen, [], s)" and ok: "pairs_ok st" and i: "i \<in> reached s"
  shows "around s i \<subseteq> component_of (touch_graph st ml) i" and "finite (component_of (touch_graph st ml) i)"
    and "card (around s i) \<le> cap \<Longrightarrow> around s i = component_of (touch_graph st ml) i"
    and "card (around s i) \<le> cap \<longleftrightarrow> card (component_of (touch_graph st ml) i) \<le> cap"
proof -
  let ?G = "touch_graph st ml" and ?E = "{(a, b) \<in> touch_graph st ml. a \<in> set seen}"
  have w: "conn (ra_parent s) = eqc (reached s) ?E" "?E \<subseteq> reached s \<times> reached s"
    "\<forall>x \<in> reached s. x \<in> set seen \<or> cap < card (around s x)"
    using inv by (auto simp: walk_inv_def)
  show sub: "around s i \<subseteq> component_of ?G i"
  proof
    fix y assume "y \<in> around s i"
    then have "(i, y) \<in> (?E \<union> ?E\<inverse>)\<^sup>*" by (simp add: around_def w(1) eqc_def)
    moreover have "?E \<union> ?E\<inverse> \<subseteq> ?G" using touch_graph_sym by auto
    ultimately have "(i, y) \<in> ?G\<^sup>*" using rtrancl_mono by blast
    then show "y \<in> component_of ?G i" by (simp add: component_of_def)
  qed
  have "j = i \<or> j \<in> snd ` ?G" if "(i, j) \<in> ?G\<^sup>*" for j
    using that by (cases rule: rtranclE) (auto intro: rev_image_eqI)
  then have "component_of ?G i \<subseteq> insert i (snd ` ?G)" by (auto simp: component_of_def)
  then show fin: "finite (component_of ?G i)" using finite_touch_graph [OF ok] by (auto intro: finite_subset)
  show eq: "around s i = component_of ?G i" if small: "card (around s i) \<le> cap"
  proof
    show "component_of ?G i \<subseteq> around s i"
    proof
      fix y assume "y \<in> component_of ?G i"
      then have "(i, y) \<in> ?G\<^sup>*" by (simp add: component_of_def)
      then show "y \<in> around s i"
      proof (induction rule: rtrancl_induct)
        case base
        then show ?case using i by (auto simp: around_def w(1) intro: eqc_refl)
      next
        case (step y z)
        have iy: "(i, y) \<in> eqc (reached s) ?E" using step.IH by (simp add: around_def w(1))
        have "around s y = around s i" using iy eqc_sym eqc_trans unfolding around_def w(1) by blast
        moreover have "y \<in> reached s" using iy by (simp add: eqc_def)
        ultimately have "(y, z) \<in> ?E" using w(3) small step.hyps(2) by auto
        then have "(y, z) \<in> eqc (reached s) ?E" using w(2) by (intro eqc_edge) auto
        then show ?case using iy unfolding around_def w(1) by (blast intro: eqc_trans)
      qed
    qed
  qed (rule sub)
  show "card (around s i) \<le> cap \<longleftrightarrow> card (component_of ?G i) \<le> cap"
    using eq card_mono [OF fin sub] by auto
qed

text \<open>The groups the union-find lists.\<close>

lemma reach_groups_correct:
  assumes ok: "reach_ok s"
  shows "\<exists>s' gs. reach_groups s = Some (s', gs) \<and> set (map (set \<circ> snd) gs) = around s ` reached s
    \<and> distinct (map snd gs) \<and> (\<forall>(k, ms) \<in> set gs. sorted ms \<and> distinct ms \<and> ms \<noteq> [])"
proof -
  let ?d = "ra_parent s" and ?keys = "map fst (ra_parent s)"
  obtain rk where rk: "ranked_by rk ?d" using ok by (auto simp: reach_ok_def ranked_def)
  define rt where "rt x = (SOME r. rooted ?d x r)" for x
  have rt: "rooted ?d x r \<longleftrightarrow> rt x = r" for x r
    using ranked_root_exists [OF rk, of x] root_unique by (metis rt_def someI_ex)
  have loop: "\<exists>s'. foldM (\<lambda>x (s, out). map_option (\<lambda>(s', r). (s', dict_append r x out)) (reach_find x s)) xs (t, out)
      = Some (s', fold (\<lambda>x. dict_append (rt x) x) xs out)"
    if "reach_ok t" "rooted (ra_parent t) = rooted ?d" for xs t out
    using that
  proof (induction xs arbitrary: t out)
    case (Cons x xs)
    obtain t1 r where 1: "reach_find x t = Some (t1, r)" "reach_ok t1" "rooted (ra_parent t1) = rooted (ra_parent t)"
        "rooted (ra_parent t1) x r"
      using reach_find_correct [OF Cons.prems(1)] by blast
    then have "r = rt x" using rt Cons.prems(2) by simp
    then show ?case using Cons.IH [OF 1(2)] 1 Cons.prems(2) by simp
  qed simp
  let ?out = "group_by rt ?keys"
  obtain s' where s': "reach_groups s = Some (s', map (\<lambda>(r, ms). (r, sort ms)) ?out)"
    using loop [OF ok refl, of ?keys "[]"] by (auto simp: reach_groups_def group_by_def)
  have keys: "distinct ?keys" "set ?keys = reached s" using ok by (auto simp: reach_ok_def items_def)
  have entry: "(k, g) \<in> set ?out \<longleftrightarrow> g = filter (\<lambda>x. rt x = k) ?keys \<and> g \<noteq> []" for k g
  proof
    assume g: "g = filter (\<lambda>x. rt x = k) ?keys \<and> g \<noteq> []"
    then have "hd g \<in> set (filter (\<lambda>x. rt x = k) ?keys)" using hd_in_set by metis
    then show "(k, g) \<in> set ?out" using group_by_covers [of "hd g" ?keys rt] g by simp
  next
    assume "(k, g) \<in> set ?out"
    from group_by_entry [OF this] show "g = filter (\<lambda>x. rt x = k) ?keys \<and> g \<noteq> []" by (intro conjI)
  qed
  have around: "around s x = {y \<in> reached s. rt y = rt x}" if "x \<in> reached s" for x
    using that rt by (auto simp: around_def conn_def)
  have mem: "set (sort g) = {y \<in> reached s. rt y = k}" if "(k, g) \<in> set ?out" for k g
    using that keys(2) unfolding entry by auto
  have sets: "set (map (set \<circ> snd) (map (\<lambda>(r, ms). (r, sort ms)) ?out)) = around s ` reached s"
  proof
    show "set (map (set \<circ> snd) (map (\<lambda>(r, ms). (r, sort ms)) ?out)) \<subseteq> around s ` reached s"
    proof
      fix c assume "c \<in> set (map (set \<circ> snd) (map (\<lambda>(r, ms). (r, sort ms)) ?out))"
      then obtain k g where kg: "(k, g) \<in> set ?out" "c = set (sort g)" by auto
      then obtain x where x: "x \<in> set g" by (cases g) (auto simp: entry)
      then have "x \<in> reached s" "rt x = k" using mem [OF kg(1)] by auto
      then show "c \<in> around s ` reached s" using kg mem [OF kg(1)] around by auto
    qed
    show "around s ` reached s \<subseteq> set (map (set \<circ> snd) (map (\<lambda>(r, ms). (r, sort ms)) ?out))"
    proof
      fix c assume "c \<in> around s ` reached s"
      then obtain x where x: "x \<in> reached s" "c = around s x" by auto
      then have kg: "(rt x, filter (\<lambda>y. rt y = rt x) ?keys) \<in> set ?out" using keys(2) by (intro group_by_covers) simp
      then have c: "c = set (filter (\<lambda>y. rt y = rt x) ?keys)" using mem [OF kg] around x by simp
      have "set (map (set \<circ> snd) (map (\<lambda>(r, ms). (r, sort ms)) ?out)) = (\<lambda>p. set (snd p)) ` set ?out"
        by (simp add: image_image case_prod_unfold)
      moreover have "c \<in> (\<lambda>p. set (snd p)) ` set ?out" using c by (intro rev_image_eqI [OF kg]) simp
      ultimately show "c \<in> set (map (set \<circ> snd) (map (\<lambda>(r, ms). (r, sort ms)) ?out))" by (rule ssubst)
    qed
  qed
  have "distinct (map (sort \<circ> snd) ?out)"
  proof -
    have "fst p = fst q" if "p \<in> set ?out" "q \<in> set ?out" "sort (snd p) = sort (snd q)" for p q
    proof -
      obtain k g l h where pq: "p = (k, g)" "q = (l, h)" by (cases p; cases q)
      then have "g \<noteq> []" using that(1) entry by blast
      then have "hd g \<in> set g" by (rule hd_in_set)
      then obtain x where "x \<in> set g" by blast
      moreover have "set g = set h" using that(3) pq by (metis set_sort snd_conv)
      ultimately show ?thesis using mem [of k g] mem [of l h] that pq by auto
    qed
    moreover have "p = q" if both: "p \<in> set ?out" "q \<in> set ?out" and key: "fst p = fst q" for p q
    proof -
      obtain k g h where pq: "p = (k, g)" "q = (k, h)" using key by (cases p; cases q) simp
      show ?thesis using both unfolding pq entry by simp
    qed
    ultimately have "inj_on (sort \<circ> snd) (set ?out)" unfolding inj_on_def comp_def by blast
    moreover have "distinct ?out" using distinct_group_by [of rt ?keys] by (simp add: distinct_map)
    ultimately show ?thesis by (simp add: distinct_map)
  qed
  moreover have "\<forall>(k, ms) \<in> set (map (\<lambda>(r, ms). (r, sort ms)) ?out). sorted ms \<and> distinct ms \<and> ms \<noteq> []"
  proof clarify
    fix k ms assume "(k, ms) \<in> set (map (\<lambda>(r, ms). (r, sort ms)) ?out)"
    then obtain g where g: "(k, g) \<in> set ?out" "ms = sort g" by auto
    have shape: "g = filter (\<lambda>x. rt x = k) ?keys \<and> g \<noteq> []" using g(1) entry [of k g] by (rule iffD1 [rotated])
    then have "g \<noteq> []" by (rule conjunct2)
    moreover have "distinct g" using shape keys(1) by (metis distinct_filter)
    moreover have "sort g \<noteq> []" using \<open>g \<noteq> []\<close> by (metis set_empty set_sort)
    ultimately show "sorted ms \<and> distinct ms \<and> ms \<noteq> []" using g(2) by simp
  qed
  moreover have "map snd (map (\<lambda>(r, ms). (r, sort ms)) ?out) = map (sort \<circ> snd) ?out" by (simp add: case_prod_beta)
  ultimately show ?thesis using s' sets by (metis (no_types, lifting))
qed

text \<open>The groups the walk ends with, each against the component of an advert in it.\<close>

lemma walk_groups:
  assumes ok: "pairs_ok st" and ne: "seeds \<noteq> []"
  shows "\<exists>gs. touched_components st seeds cap ml = Some (filter (\<lambda>ms. length ms \<le> cap) gs,
       sort (concat (map (filter (\<lambda>i. i \<in> set seeds)) (filter (\<lambda>ms. cap < length ms) gs))))
     \<and> distinct gs \<and> (\<forall>ms \<in> set gs. sorted ms \<and> distinct ms)
     \<and> (\<forall>ms \<in> set gs. \<exists>i \<in> set seeds. i \<in> set ms) \<and> (\<forall>i \<in> set seeds. \<exists>ms \<in> set gs. i \<in> set ms)
     \<and> (\<forall>ms \<in> set gs. \<forall>i \<in> set ms. (length ms \<le> cap \<longleftrightarrow> card (component_of (touch_graph st ml) i) \<le> cap)
          \<and> (length ms \<le> cap \<longrightarrow> set ms = component_of (touch_graph st ml) i))"
proof -
  let ?G = "touch_graph st ml" and ?wanted = "sort (remdups seeds)"
  have wanted: "?wanted \<noteq> []" using ne by (metis remdups_eq_nil_iff set_empty set_sort)
  obtain s0 where s0: "foldM reach_add ?wanted empty_reach = Some s0" "reach_ok s0" "reached s0 = set seeds"
      "conn (ra_parent s0) = eqc (reached s0) {}"
    using reach_adds_correct [OF reach_ok_empty, of ?wanted] by (auto simp: empty_reach_def items_def eqc_def)
  have "walk_inv ?G (set seeds) cap ([], ?wanted, s0)" using s0 by (auto simp: walk_inv_def intro: eqc_refl)
  then obtain seen s where w: "walk_all st (linked_of ml) cap ([], ?wanted, s0) = Some (seen, [], s)"
      "walk_inv ?G (set seeds) cap (seen, [], s)"
    using walk_all_correct [OF _ ok] by blast
  have s: "reach_ok s" "set seeds \<subseteq> reached s" "\<forall>i \<in> reached s. \<exists>x \<in> set seeds. (x, i) \<in> conn (ra_parent s)"
    using w(2) unfolding walk_inv_def prod.case by blast+
  obtain s' groups where gs: "reach_groups s = Some (s', groups)" "set (map (set \<circ> snd) groups) = around s ` reached s"
      "distinct (map snd groups)" "\<forall>(k, ms) \<in> set groups. sorted ms \<and> distinct ms \<and> ms \<noteq> []"
    using reach_groups_correct [OF s(1)] by blast
  let ?gs = "sort (map snd groups)"
  have run: "touched_components st seeds cap ml = Some (filter (\<lambda>ms. length ms \<le> cap) ?gs,
      sort (concat (map (filter (\<lambda>i. i \<in> set seeds)) (filter (\<lambda>ms. cap < length ms) ?gs))))"
    using wanted s0(1) w(1) gs(1) by (simp add: touched_components_def Let_def)
  have sets: "set ` set ?gs = around s ` reached s" using gs(2) by (simp add: image_image image_comp)
  have shape: "\<forall>ms \<in> set ?gs. sorted ms \<and> distinct ms" using gs(4) by fastforce
  have group: "set ms = around s i \<and> i \<in> reached s" if "ms \<in> set ?gs" "i \<in> set ms" for ms i
  proof -
    have "set ms \<in> around s ` reached s" using that(1) sets by (metis imageI)
    then obtain x where x: "x \<in> reached s" "set ms = around s x" by blast
    then have "(x, i) \<in> conn (ra_parent s)" using that(2) by (simp add: around_def)
    then show ?thesis using x(2) around_same by (auto simp: conn_def)
  qed
  have "\<exists>i \<in> set seeds. i \<in> set ms" if ms: "ms \<in> set ?gs" for ms
  proof -
    have "set ms \<in> around s ` reached s" using ms sets by (metis imageI)
    then obtain x where "x \<in> reached s" "set ms = around s x" by blast
    then obtain i where "i \<in> set seeds" "set ms = around s i" using s(3) around_same by metis
    then show ?thesis using around_self [OF s(1), of i] s(2) by auto
  qed
  moreover have "\<exists>ms \<in> set ?gs. i \<in> set ms" if "i \<in> set seeds" for i
  proof -
    have "around s i \<in> set ` set ?gs" using that s(2) sets by blast
    then obtain ms where "ms \<in> set ?gs" "around s i = set ms" by blast
    then show ?thesis using around_self [OF s(1), of i] that s(2) by auto
  qed
  moreover have "(length ms \<le> cap \<longleftrightarrow> card (component_of ?G i) \<le> cap) \<and> (length ms \<le> cap \<longrightarrow> set ms = component_of ?G i)"
    if ms: "ms \<in> set ?gs" and i: "i \<in> set ms" for ms i
  proof -
    have "length ms = card (around s i)" using shape ms group [OF ms i] by (metis distinct_card)
    then show ?thesis using walk_end(3,4) [OF w(2) ok, of i] group [OF ms i] by simp
  qed
  moreover have "distinct ?gs" using gs(3) by simp
  ultimately show ?thesis using run shape by blast
qed

lemma touched_components_run:
  assumes ok: "pairs_ok st"
  shows "\<exists>comps oversized. touched_components st seeds cap ml = Some (comps, oversized)
     \<and> set ` set comps = {c. \<exists>i \<in> set seeds. c = component_of (touch_graph st ml) i \<and> card c \<le> cap}
     \<and> distinct comps \<and> (\<forall>ms \<in> set comps. sorted ms \<and> distinct ms)
     \<and> set oversized = {i \<in> set seeds. cap < card (component_of (touch_graph st ml) i)} \<and> sorted oversized"
proof (cases "seeds = []")
  case True
  then show ?thesis by (simp add: touched_components_def)
next
  case False
  let ?c = "component_of (touch_graph st ml)"
  obtain gs where run: "touched_components st seeds cap ml = Some (filter (\<lambda>ms. length ms \<le> cap) gs,
       sort (concat (map (filter (\<lambda>i. i \<in> set seeds)) (filter (\<lambda>ms. cap < length ms) gs))))"
    and gs: "distinct gs" "\<forall>ms \<in> set gs. sorted ms \<and> distinct ms" "\<forall>ms \<in> set gs. \<exists>i \<in> set seeds. i \<in> set ms"
      "\<forall>i \<in> set seeds. \<exists>ms \<in> set gs. i \<in> set ms"
      "\<forall>ms \<in> set gs. \<forall>i \<in> set ms. (length ms \<le> cap \<longleftrightarrow> card (?c i) \<le> cap) \<and> (length ms \<le> cap \<longrightarrow> set ms = ?c i)"
    using walk_groups [OF ok False, of cap ml] by blast
  let ?comps = "filter (\<lambda>ms. length ms \<le> cap) gs"
  let ?over = "sort (concat (map (filter (\<lambda>i. i \<in> set seeds)) (filter (\<lambda>ms. cap < length ms) gs)))"
  have "set ` set (filter (\<lambda>ms. length ms \<le> cap) gs) = {c. \<exists>i \<in> set seeds. c = ?c i \<and> card c \<le> cap}"
  proof (intro equalityI subsetI)
    fix c assume "c \<in> set ` set (filter (\<lambda>ms. length ms \<le> cap) gs)"
    then obtain ms where ms: "ms \<in> set gs" "length ms \<le> cap" "c = set ms" by auto
    then obtain i where i: "i \<in> set seeds" "i \<in> set ms" using gs(3) by blast
    then have "c = ?c i" "card (?c i) \<le> cap" using gs(5) ms by metis+
    then show "c \<in> {c. \<exists>i \<in> set seeds. c = ?c i \<and> card c \<le> cap}" using i(1) by blast
  next
    fix c assume "c \<in> {c. \<exists>i \<in> set seeds. c = ?c i \<and> card c \<le> cap}"
    then obtain i where i: "i \<in> set seeds" "c = ?c i" "card (?c i) \<le> cap" by blast
    then obtain ms where ms: "ms \<in> set gs" "i \<in> set ms" using gs(4) by blast
    then have "length ms \<le> cap" "c = set ms" using gs(5) i by metis+
    then show "c \<in> set ` set (filter (\<lambda>ms. length ms \<le> cap) gs)" using ms(1) by simp
  qed
  moreover have over: "i \<in> set (concat (map (filter (\<lambda>i. i \<in> set seeds)) (filter (\<lambda>ms. cap < length ms) gs)))
      \<longleftrightarrow> i \<in> set seeds \<and> cap < card (?c i)" (is "?l \<longleftrightarrow> ?r") for i
  proof
    assume ?l
    then obtain ms where "ms \<in> set gs" "cap < length ms" "i \<in> set ms" "i \<in> set seeds" by auto
    then show ?r using gs(5) by (metis not_le)
  next
    assume r: ?r
    then obtain ms where ms: "ms \<in> set gs" "i \<in> set ms" using gs(4) by blast
    then have "cap < length ms" using gs(5) r by (metis not_le)
    then show ?l using ms r by auto
  qed
  moreover from over have "set ?over = {i \<in> set seeds. cap < card (?c i)}" unfolding set_sort by blast
  moreover have "distinct ?comps" "\<forall>ms \<in> set ?comps. sorted ms \<and> distinct ms" "sorted ?over" using gs(1,2) by simp_all
  ultimately show ?thesis using run by blast
qed

text \<open>
  C12. The walk: from any store that keeps its tables, \<open>_components\<close> ends and lists exactly the connected
  components, of stored merge pairs and rulings, that hold a seed and are within the cap, each once and
  sorted; and it names exactly the seeds whose component is larger. So no component is ever clustered from a
  part of its members.
\<close>

theorem touched_components_correct:
  assumes "store_ok st"
  shows "\<exists>comps oversized. touched_components st seeds cap ml = Some (comps, oversized)
     \<and> set ` set comps = {c. \<exists>i \<in> set seeds. c = component_of (touch_graph st ml) i \<and> card c \<le> cap}
     \<and> distinct comps \<and> (\<forall>ms \<in> set comps. sorted ms \<and> distinct ms)
     \<and> set oversized = {i \<in> set seeds. cap < card (component_of (touch_graph st ml) i)} \<and> sorted oversized"
  using assms touched_components_run by (simp add: store_ok_def)

text \<open>A merge pair and a ruling: with room for three the walk lists one component, with room for two it names the seeds.\<close>

definition ex_walk_store :: store where
  "ex_walk_store = empty_store\<lparr>st_pairs := [((1, 2), ex_row ''merge'')], st_merge_adj := [(1, [2]), (2, [1])]\<rparr>"

lemma ex_walk_store_ok: "store_ok ex_walk_store"
proof -
  have keys: "pair_key x y = (1, 2) \<longleftrightarrow> x = 1 \<and> y = 2 \<or> x = 2 \<and> y = 1" for x y :: int
    by (auto simp: pair_key_def)
  have "pairs_ok ex_walk_store"
    by (auto simp: pairs_ok_def merge_edge_def ex_walk_store_def empty_store_def ex_row_def get_list_def keys)
  then show ?thesis by (rule store_ok_pairs_only [OF store_ok_empty]) (simp_all add: ex_walk_store_def)
qed

theorem touched_components_witness:
  "touched_components ex_walk_store [3] 3 [(2, 3)] = Some ([[1, 2, 3]], [])
     \<and> touched_components ex_walk_store [3, 7] 2 [(2, 3)] = Some ([[7]], [3])
     \<and> component_of (touch_graph ex_walk_store [(2, 3)]) 3 = {1, 2, 3}"
proof (intro conjI)
  show *: "touched_components ex_walk_store [3] 3 [(2, 3)] = Some ([[1, 2, 3]], [])" by code_simp
  show "touched_components ex_walk_store [3, 7] 2 [(2, 3)] = Some ([[7]], [3])" by code_simp
  have "{{1, 2, 3}} = {c. c = component_of (touch_graph ex_walk_store [(2, 3)]) 3 \<and> card c \<le> 3}"
    using touched_components_correct [OF ex_walk_store_ok, of "[3]" 3 "[(2, 3)]"] * by simp
  then show "component_of (touch_graph ex_walk_store [(2, 3)]) 3 = {1, 2, 3}" by blast
qed

end
