(* ===== verification/Incremental_Laws.thy ===== *)
theory Incremental_Laws
  imports Incremental_Walk Blocking_Laws
begin

text \<open>
  What an incremental pass leaves is what a clustering of the whole store would (E72): the components it
  re-clusters get exactly their share of the clustering of all the stored pairs, and where no pair, ruling or
  fingerprint moved the share of the earlier clustering stands.
\<close>

section \<open>The clustering of the whole store\<close>

definition all_rows :: "store \<Rightarrow> pair_row list" where
  "all_rows st = map snd (sort_key fst (st_pairs st))"

text \<open>The pass over the cohort: every stored pair at once.\<close>

definition cohort :: "('l, feats) fact_reader \<Rightarrow> lane_settings \<Rightarrow> (int \<Rightarrow> ('l \<times> full_fp) option) \<Rightarrow> rulings \<Rightarrow> store
    \<Rightarrow> cluster_result option" where
  "cohort rd cfg facts r st =
     cluster_pairs rd (map row_decision (all_rows st)) (map_option (base \<circ> snd) \<circ> facts) (ls_cluster cfg) (set (ru_mnl r))
       (relation_for (ls_d43 cfg) (map_option fst \<circ> facts) (slots_of cfg (all_rows st)) (certificates_of (all_rows st)))
       (ru_ml r) (vetoes_of (all_rows st))"

definition facts_keyed :: "(int \<Rightarrow> ('l \<times> full_fp) option) \<Rightarrow> bool" where
  "facts_keyed facts \<longleftrightarrow> fps_keyed (map_option (base \<circ> snd) \<circ> facts)"

text \<open>The rows between adverts of a set.\<close>

definition rows_in :: "int set \<Rightarrow> pair_row list \<Rightarrow> pair_row list" where
  "rows_in C rows = filter (\<lambda>r. pr_lo r \<in> C \<and> pr_hi r \<in> C) rows"

definition row_key :: "pair_row \<Rightarrow> int \<times> int" where
  "row_key r = (pr_lo r, pr_hi r)"

lemma stored_row: "pairs_ok st \<Longrightarrow> (k, r) \<in> set (st_pairs st) \<Longrightarrow> k = row_key r \<and> pr_lo r < pr_hi r"
  by (auto simp: pairs_ok_def list_all_iff row_key_def)

lemma all_rows_mem:
  assumes "pairs_ok st"
  shows "r \<in> set (all_rows st) \<longleftrightarrow> map_of (st_pairs st) (row_key r) = Some r"
proof -
  have "r \<in> set (all_rows st) \<longleftrightarrow> (\<exists>k. (k, r) \<in> set (st_pairs st))" by (force simp: all_rows_def)
  also have "\<dots> \<longleftrightarrow> (row_key r, r) \<in> set (st_pairs st)" using stored_row [OF assms] by blast
  also have "\<dots> \<longleftrightarrow> map_of (st_pairs st) (row_key r) = Some r" using assms by (simp add: pairs_ok_def map_of_eq_Some_iff)
  finally show ?thesis .
qed

lemma row_order: "pairs_ok st \<Longrightarrow> map row_key (all_rows st) = map fst (sort_key fst (st_pairs st))"
  using stored_row by (auto simp: all_rows_def)

lemma inside_rows: "inside C (map row_decision rows) = map row_decision (rows_in C rows)"
  by (simp add: inside_def rows_in_def filter_map comp_def row_decision_def)

text \<open>Two stores with the same pairs inside a set have the same rows there, in the same order.\<close>

lemma rows_in_cong:
  assumes ok: "pairs_ok st" "pairs_ok st'"
    and same: "\<And>lo hi. lo \<in> C \<Longrightarrow> hi \<in> C \<Longrightarrow> map_of (st_pairs st') (lo, hi) = map_of (st_pairs st) (lo, hi)"
  shows "rows_in C (all_rows st') = rows_in C (all_rows st)"
proof -
  let ?P = "\<lambda>((lo, hi), r :: pair_row). lo \<in> C \<and> hi \<in> C"
  let ?d = "\<lambda>st. filter ?P (sort_key fst (st_pairs st))"
  have rows: "rows_in C (all_rows st) = map snd (?d st)" if "pairs_ok st" for st
  proof -
    have "\<forall>p \<in> set (sort_key fst (st_pairs st)). ?P p \<longleftrightarrow> pr_lo (snd p) \<in> C \<and> pr_hi (snd p) \<in> C"
      using stored_row [OF that] by (auto simp: row_key_def)
    then have "?d st = filter (\<lambda>p. pr_lo (snd p) \<in> C \<and> pr_hi (snd p) \<in> C) (sort_key fst (st_pairs st))"
      by (intro filter_cong) auto
    then show ?thesis by (simp add: rows_in_def all_rows_def filter_map comp_def)
  qed
  have keys: "sorted (map fst (sort_key fst (st_pairs st))) \<and> distinct (map fst (sort_key fst (st_pairs st)))" if "pairs_ok st" for st
  proof -
    have "mset (map fst (sort_key fst (st_pairs st))) = mset (map fst (st_pairs st))" by simp
    then show ?thesis using that mset_eq_imp_distinct_iff unfolding pairs_ok_def by (metis sorted_sort_key)
  qed
  have mem: "((lo, hi), r) \<in> set (?d st) \<longleftrightarrow> lo \<in> C \<and> hi \<in> C \<and> map_of (st_pairs st) (lo, hi) = Some r" if "pairs_ok st" for lo hi r st
    using that by (auto simp: pairs_ok_def map_of_eq_Some_iff)
  have "p \<in> set (?d st') \<longleftrightarrow> p \<in> set (?d st)" for p
  proof -
    obtain lo hi r where p: "p = ((lo, hi), r)" by (metis surj_pair)
    show ?thesis unfolding p mem [OF ok(1)] mem [OF ok(2)] using same by auto
  qed
  then have "set (?d st') = set (?d st)" by blast
  then have "?d st' = ?d st" by (intro dict_eqI key_order_filter keys ok)
  then show ?thesis using rows [OF ok(1)] rows [OF ok(2)] by simp
qed

section \<open>What the relation and the vetoes read of the rows\<close>

lemma map_of_rows_filter:
  assumes "\<And>r. r \<in> set rows \<Longrightarrow> row_key r = k \<Longrightarrow> Q r"
  shows "map_of (List.map_filter (\<lambda>r. if P r then Some (row_key r, v r) else None) (filter Q rows)) k
    = map_of (List.map_filter (\<lambda>r. if P r then Some (row_key r, v r) else None) rows) k"
  using assms by (induction rows) (auto simp: map_filter_simps)

lemma slots_of_filter:
  assumes "\<And>r. r \<in> set rows \<Longrightarrow> row_key r = k \<Longrightarrow> Q r"
  shows "slots_of cfg (filter Q rows) k = slots_of cfg rows k"
  unfolding slots_of_def row_key_def [symmetric] by (rule map_of_rows_filter) (rule assms)

lemma certificates_of_filter:
  assumes "\<And>r. r \<in> set rows \<Longrightarrow> row_key r = k \<Longrightarrow> Q r"
  shows "certificates_of (filter Q rows) k = certificates_of rows k"
  unfolding certificates_of_def row_key_def [symmetric] by (rule map_of_rows_filter) (rule assms)

lemma vetoes_of_filter: "k \<in> vetoes_of (filter Q rows) \<longleftrightarrow> k \<in> vetoes_of rows"
  if "\<And>r. r \<in> set rows \<Longrightarrow> row_key r = k \<Longrightarrow> Q r"
  using that by (auto simp: vetoes_of_def row_key_def)

lemma rows_in_read:
  assumes "a \<in> C" "b \<in> C"
  shows "slots_of cfg (rows_in C rows) (a, b) = slots_of cfg rows (a, b)"
    and "certificates_of (rows_in C rows) (a, b) = certificates_of rows (a, b)"
    and "(a, b) \<in> vetoes_of (rows_in C rows) \<longleftrightarrow> (a, b) \<in> vetoes_of rows"
  unfolding rows_in_def using assms
  by (auto intro!: slots_of_filter certificates_of_filter vetoes_of_filter simp: row_key_def)

lemma unbound_relation [simp]: "unbound (relation_for d listings slots certs)"
  by (simp add: unbound_def relation_for_def)

lemma same_relation_for:
  assumes "\<And>a. a \<in> C \<Longrightarrow> listings' a = listings a"
    and "\<And>a b. a \<in> C \<Longrightarrow> b \<in> C \<Longrightarrow> slots' (a, b) = slots (a, b) \<and> certs' (a, b) = certs (a, b)"
  shows "same_relation C (relation_for d listings slots certs) (relation_for d listings' slots' certs')"
  using assms by (simp add: same_relation_def relation_for_def)

text \<open>The inputs of two clusterings agree on a set when the rows, the facts and the refusals there are the same.\<close>

lemma agree_rows:
  assumes facts: "\<forall>a \<in> C. fps' a = fps a \<and> ads' a = ads a"
    and mnl: "\<forall>a \<in> C. \<forall>b \<in> C. (a, b) \<in> mnl' \<longleftrightarrow> (a, b) \<in> mnl"
    and rows: "rows_in C slot_rows = rows_in C rows" "rows_in C cert_rows = rows_in C rows" "rows_in C veto_rows = rows_in C rows"
  shows "agree_inputs C fps mnl (vetoes_of rows)
       (relation_for d ads (slots_of cfg rows) (certificates_of rows))
     fps' mnl' (vetoes_of veto_rows)
       (relation_for d ads' (slots_of cfg slot_rows) (certificates_of cert_rows))"
proof -
  have "slots_of cfg slot_rows (a, b) = slots_of cfg rows (a, b)" "certificates_of cert_rows (a, b) = certificates_of rows (a, b)"
      "(a, b) \<in> vetoes_of veto_rows \<longleftrightarrow> (a, b) \<in> vetoes_of rows" if "a \<in> C" "b \<in> C" for a b
    using rows_in_read [OF that, where rows = rows] rows_in_read [OF that, where rows = slot_rows]
      rows_in_read [OF that, where rows = cert_rows] rows_in_read [OF that, where rows = veto_rows] rows by simp_all
  then show ?thesis
    using facts mnl unfolding agree_inputs_def by (auto intro!: same_relation_for)
qed

section \<open>One component\<close>

text \<open>A set no edge of the walk's graph leaves.\<close>

definition shut :: "(int \<times> int) set \<Rightarrow> int set \<Rightarrow> bool" where
  "shut G C \<longleftrightarrow> (\<forall>(a, b) \<in> G. a \<in> C \<longleftrightarrow> b \<in> C)"

lemma shut_component:
  assumes sym: "\<And>a b. (a, b) \<in> G \<Longrightarrow> (b, a) \<in> G"
  shows "shut G (component_of G i)"
proof -
  have "b \<in> component_of G i" if "(a, b) \<in> G" "a \<in> component_of G i" for a b
    using that by (auto simp: component_of_def intro: rtrancl_into_rtrancl)
  then show ?thesis using sym by (auto simp: shut_def)
qed

lemma shut_Union: "(\<And>C. C \<in> \<C> \<Longrightarrow> shut G C) \<Longrightarrow> shut G (\<Union>\<C>)"
  by (fastforce simp: shut_def)

lemma shut_Compl: "shut G (- C) \<longleftrightarrow> shut G C"
  by (auto simp: shut_def)

lemma closed_rows:
  assumes ok: "pairs_ok st" and shut: "shut (touch_graph st ml) C"
  shows "closed_part C (map row_decision (all_rows st)) fps ml"
proof -
  have "pr_lo r \<in> C \<longleftrightarrow> pr_hi r \<in> C" if "r \<in> set (all_rows st)" "pr_zone r = ''merge''" for r
  proof -
    have r: "map_of (st_pairs st) (row_key r) = Some r" using that(1) all_rows_mem [OF ok] by blast
    then have "pr_lo r < pr_hi r" using stored_row [OF ok map_of_SomeD [OF r]] by blast
    then have "(pr_lo r, pr_hi r) \<in> touch_graph st ml"
      using r that(2) by (simp add: touch_graph_def merge_edge_def pair_key_def row_key_def)
    then show ?thesis using shut by (auto simp: shut_def)
  qed
  then have "edges_stay C (merge_edges (map row_decision (all_rows st)))"
    by (auto simp: edges_stay_def list_all_iff merge_edges_def row_decision_def)
  moreover have "one_side C (set (links readable ml))" for readable
    using shut by (auto simp: one_side_def links_def shut_def touch_graph_def)
  ultimately show ?thesis by (simp add: closed_part_def)
qed

text \<open>What a pass assumes of its settings, and of the facts it reads.\<close>

definition lane_ok :: "lane_settings \<Rightarrow> bool" where
  "lane_ok cfg \<longleftrightarrow> guard_settings_ok (cs_guard (ls_cluster cfg)) \<and> \<not> repartition (ls_cluster cfg)"

text \<open>The clustering of the cohort, seen from a shut set and from its rows alone.\<close>

lemma cohort_part:
  assumes ok: "lane_ok cfg" "facts_keyed facts" "pairs_ok st" and shut: "shut (touch_graph st (ru_ml r)) C"
    and facts: "\<forall>a \<in> C. fps' a = (map_option (base \<circ> snd) \<circ> facts) a \<and> ads' a = (map_option fst \<circ> facts) a"
    and rows: "rows_in C slot_rows = rows_in C (all_rows st)" "rows_in C cert_rows = rows_in C (all_rows st)"
      "rows_in C (all_rows st) = rows"
    and mnl: "\<forall>a \<in> C. \<forall>b \<in> C. (a, b) \<in> mnl' \<longleftrightarrow> (a, b) \<in> set (ru_mnl r)"
  shows "\<exists>res res'. cohort rd cfg facts r st = Some res
     \<and> cluster_pairs rd (map row_decision rows) fps' (ls_cluster cfg) mnl'
         (relation_for (ls_d43 cfg) ads' (slots_of cfg slot_rows) (certificates_of cert_rows))
         (rulings_inside C (ru_ml r)) (vetoes_of rows) = Some res'
     \<and> r_clusters res' = filter (\<lambda>(k, _). k \<in> C) (r_clusters res)
     \<and> sorted (map fst (r_clusters res)) \<and> distinct (map fst (r_clusters res))
     \<and> (\<forall>(k, ms) \<in> set (r_clusters res). k \<in> set ms \<and> 1 < card (set ms) \<and> (\<forall>m \<in> set ms. m \<in> C \<longleftrightarrow> k \<in> C))"
proof -
  have cfg: "guard_settings_ok (cs_guard (ls_cluster cfg))" and mode: "\<not> repartition (ls_cluster cfg)"
    using ok(1) by (simp_all add: lane_ok_def)
  have veto: "rows_in C rows = rows_in C (all_rows st)" using rows(3) by (auto simp: rows_in_def)
  note agree = agree_rows [where d = "ls_d43 cfg" and cfg = cfg, OF facts mnl rows(1,2) veto]
  from cluster_part_union_find [OF cfg ok(2) [unfolded facts_keyed_def] mode closed_rows [OF ok(3) shut] agree, of rd]
  show ?thesis unfolding cohort_def inside_rows rows(3) by fast
qed

lemma loaded_in: "i \<in> set ms \<Longrightarrow> loaded f ms i = f i"
  by (simp add: loaded_def)

lemma rows_in_rows_in: "C \<subseteq> D \<Longrightarrow> rows_in C (rows_in D rows) = rows_in C rows"
  unfolding rows_in_def filter_filter by (intro filter_cong) auto

text \<open>What \<open>_recluster\<close> reads between the adverts of its components.\<close>

lemma pairs_within_rows:
  assumes "pairs_ok st"
  shows "pairs_within is st = rows_in (set is) (all_rows st)"
proof -
  have "\<forall>p \<in> set (sort_key fst (st_pairs st)). (case p of ((lo, hi), _) \<Rightarrow> lo \<in> set is \<and> hi \<in> set is)
      \<longleftrightarrow> pr_lo (snd p) \<in> set is \<and> pr_hi (snd p) \<in> set is"
    using stored_row [OF assms] by (auto simp: row_key_def)
  then show ?thesis
    unfolding pairs_within_def rows_in_def all_rows_def filter_map comp_def by (intro arg_cong [where f = "map snd"] filter_cong) auto
qed

text \<open>A component's rows are its share of the clustering of the cohort.\<close>

definition report_of :: "cluster_report \<Rightarrow> int \<times> int list" where
  "report_of row = (cr_key row, cr_members row)"

lemma cluster_rows_report: "map report_of (cluster_rows res ds fps) = sort_key fst (r_clusters res)"
  by (simp add: cluster_rows_def cluster_row_def report_of_def Let_def comp_def case_prod_beta)

lemma recluster_one_share:
  assumes ok: "lane_ok cfg" "facts_keyed facts" "pairs_ok st" and shut: "shut (touch_graph st (ru_ml r)) (set ms)"
    and facts: "\<And>a. a \<in> set ms \<Longrightarrow> held a = facts a"
    and rows: "rows_in (set ms) stored = rows_in (set ms) (all_rows st)" "rows_in (set ms) mine = rows_in (set ms) (all_rows st)"
    and res: "cohort rd cfg facts r st = Some res"
  shows "\<exists>rows conflicts undone. recluster_one rd cfg gen (map_option snd \<circ> held)
      (relation_for (ls_d43 cfg) (map_option fst \<circ> held) (slots_of cfg stored) (certificates_of mine)) r
      (filter (\<lambda>row. pr_lo row \<in> set ms \<and> pr_hi row \<in> set ms) mine) ms
      = Some (rows, conflicts, map fst (filter (\<lambda>(k, _). k \<in> set ms) (r_clusters res)), undone)
    \<and> map report_of rows = filter (\<lambda>(k, _). k \<in> set ms) (r_clusters res)"
proof -
  let ?rows = "rows_in (set ms) (all_rows st)"
  let ?mnl = "set (filter (\<lambda>(a, b). a \<in> set ms \<and> b \<in> set ms) (ru_mnl r))"
  let ?fps = "map_option base \<circ> loaded (map_option snd \<circ> held) ms"
  have fps: "\<forall>a \<in> set ms. ?fps a = (map_option (base \<circ> snd) \<circ> facts) a \<and> (map_option fst \<circ> held) a = (map_option fst \<circ> facts) a"
    using facts by (simp add: loaded_in option.map_comp)
  have mnl: "\<forall>a \<in> set ms. \<forall>b \<in> set ms. (a, b) \<in> ?mnl \<longleftrightarrow> (a, b) \<in> set (ru_mnl r)" by auto
  obtain res' where res': "cluster_pairs rd (map row_decision ?rows) ?fps (ls_cluster cfg) ?mnl
        (relation_for (ls_d43 cfg) (map_option fst \<circ> held) (slots_of cfg stored) (certificates_of mine))
        (rulings_inside (set ms) (ru_ml r)) (vetoes_of ?rows) = Some res'"
      "r_clusters res' = filter (\<lambda>(k, _). k \<in> set ms) (r_clusters res)" "sorted (map fst (r_clusters res))"
    using cohort_part [where C = "set ms" and rd = rd and facts = facts and r = r, OF ok shut fps rows refl mnl] unfolding res option.inject by fast
  have sorted: "sort_key fst (r_clusters res') = r_clusters res'"
    using res'(2,3) by (intro sort_key_id_if_sorted) (simp add: sorted_filter)
  have "filter (\<lambda>row. pr_lo row \<in> set ms \<and> pr_hi row \<in> set ms) mine = ?rows" using rows(2) by (simp add: rows_in_def)
  then show ?thesis
    using res'(1,2) sorted by (simp add: recluster_one_def rulings_within_def rulings_inside_def Let_def cluster_rows_report)
qed

section \<open>The whole pass\<close>

text \<open>The rows of all the components, one component after the other.\<close>

lemma map_of_rewritten:
  "map_of (fold (\<lambda>r. AList.update (cr_key r) (cr_members r)) rows d) k
     = (case map_of (rev (map report_of rows)) k of None \<Rightarrow> map_of d k | Some ms \<Rightarrow> Some ms)"
  by (induction rows arbitrary: d) (auto simp: update_conv' report_of_def map_add_def split: option.splits)

text \<open>What the walk found covers what the seeds reach.\<close>

definition reach_of :: "(int \<times> int) set \<Rightarrow> int list \<Rightarrow> int set" where
  "reach_of G seeds = (\<Union>i \<in> set seeds. component_of G i)"

lemma seeds_reach: "set seeds \<subseteq> reach_of G seeds"
  by (auto simp: reach_of_def component_of_def)

lemma shut_reach: "shut (touch_graph st ml) (reach_of (touch_graph st ml) seeds)"
proof -
  have "shut (touch_graph st ml) (component_of (touch_graph st ml) i)" for i by (rule shut_component) (rule touch_graph_sym)
  then show ?thesis unfolding reach_of_def by (intro shut_Union) auto
qed

lemma touched_within:
  assumes ok: "pairs_ok st" and small: "\<forall>i \<in> set seeds. card (component_of (touch_graph st ml) i) \<le> cap"
  shows "\<exists>comps. touched_components st seeds cap ml = Some (comps, [])
    \<and> (\<Union>ms \<in> set comps. set ms) = reach_of (touch_graph st ml) seeds
    \<and> (\<forall>ms \<in> set comps. shut (touch_graph st ml) (set ms))"
proof -
  let ?c = "component_of (touch_graph st ml)"
  obtain comps oversized where t: "touched_components st seeds cap ml = Some (comps, oversized)"
      "set ` set comps = {c. \<exists>i \<in> set seeds. c = ?c i \<and> card c \<le> cap}" "set oversized = {i \<in> set seeds. cap < card (?c i)}"
    using touched_components_run [OF ok, of seeds cap ml] by blast
  have "set oversized = {}" unfolding t(3) using small leD by blast
  then have "oversized = []" by simp
  moreover have "set ` set comps = ?c ` set seeds" using t(2) small by auto
  moreover have "shut (touch_graph st ml) (?c i)" for i by (rule shut_component) (rule touch_graph_sym)
  ultimately show ?thesis using t(1) unfolding reach_of_def by (intro exI [of _ comps]) (auto, metis imageE imageI)
qed

text \<open>The rows of the components are the part of a dictionary under the keys they reach.\<close>

lemma map_of_part:
  assumes "distinct (map fst d)" and "set xs = {p \<in> set d. fst p \<in> U}"
  shows "map_of xs k = (if k \<in> U then map_of d k else None)"
proof (cases "map_of xs k")
  case None
  then have "k \<notin> fst ` set xs" by (simp add: map_of_eq_None_iff)
  then have "k \<in> U \<Longrightarrow> map_of d k = None" using assms(2) by (auto simp: map_of_eq_None_iff image_iff)
  then show ?thesis using None by simp
next
  case (Some v)
  then have "(k, v) \<in> set d" "k \<in> U" using map_of_SomeD [OF Some] assms(2) by auto
  then show ?thesis using Some assms(1) by simp
qed

lemma shares:
  "set (concat (map (\<lambda>ms. filter (\<lambda>(k, _). k \<in> set ms) d) comps)) = {p \<in> set d. fst p \<in> (\<Union>ms \<in> set comps. set ms)}"
  "set (concat (map (map fst \<circ> (\<lambda>ms. filter (\<lambda>(k, _). k \<in> set ms) d)) comps)) = {k \<in> fst ` set d. k \<in> (\<Union>ms \<in> set comps. set ms)}"
  by (auto, force)

lemma gone_clusters:
  "k \<in> set (sort (filter (\<lambda>k. k \<notin> set keep) (map fst (clusters_touching every st))))
     \<longleftrightarrow> k \<notin> set keep \<and> (\<exists>ms. (k, ms) \<in> set (st_clusters st) \<and> set ms \<inter> set every \<noteq> {})"
  by (auto simp: clusters_touching_def list_ex_iff image_iff)

text \<open>The clusters a re-clustering leaves: the cohort's share where the seeds reach, and elsewhere what stood.\<close>

lemma write_share:
  assumes dict: "distinct (map fst (st_clusters st))" "distinct (map fst (r_clusters res))"
    and keyed: "\<And>k ms. map_of (st_clusters st) k = Some ms \<Longrightarrow> k \<in> set ms"
    and rows: "set (map report_of rows) = {p \<in> set (r_clusters res). fst p \<in> U}"
    and keep: "set keep = {k \<in> fst ` set (r_clusters res). k \<in> U}" and every: "set every = U"
  shows "map_of (st_clusters (write_clusters (sort (filter (\<lambda>k. k \<notin> set keep) (map fst (clusters_touching every st)))) rows confl st)) k
      = (if k \<in> U then map_of (r_clusters res) k
         else case map_of (st_clusters st) k of None \<Rightarrow> None | Some ms \<Rightarrow> if set ms \<inter> U = {} then Some ms else None)"
proof -
  have new: "map_of (rev (map report_of rows)) k = (if k \<in> U then map_of (r_clusters res) k else None)"
    by (rule map_of_part [OF dict(2)]) (simp only: set_rev rows)
  have old: "(k, ms) \<in> set (st_clusters st) \<longleftrightarrow> map_of (st_clusters st) k = Some ms" for ms
    using dict(1) by (simp add: map_of_eq_Some_iff)
  have gone: "k \<in> set (sort (filter (\<lambda>k. k \<notin> set keep) (map fst (clusters_touching every st))))
      \<longleftrightarrow> k \<notin> set keep \<and> (case map_of (st_clusters st) k of None \<Rightarrow> False | Some ms \<Rightarrow> set ms \<inter> U \<noteq> {})"
    unfolding gone_clusters old every by (simp split: option.split)
  have kept: "k \<in> set keep \<longleftrightarrow> k \<in> U \<and> map_of (r_clusters res) k \<noteq> None"
    unfolding keep by (auto simp: map_of_eq_None_iff)
  have w: "st_clusters (write_clusters g rows confl st)
      = fold (\<lambda>r. AList.update (cr_key r) (cr_members r)) rows (fold AList.delete g (st_clusters st))" for g
    by (simp add: write_clusters_def Let_def)
  show ?thesis
    unfolding w map_of_rewritten map_of_deletes new gone kept
    using keyed [of k] by (auto split: option.splits)
qed

lemma recluster_share:
  assumes ok: "lane_ok cfg" "facts_keyed facts" "pairs_ok st"
    and keyed: "\<And>k ms. map_of (st_clusters st) k = Some ms \<Longrightarrow> k \<in> set ms"
    and dict: "distinct (map fst (st_clusters st))"
    and small: "\<forall>i \<in> set seeds. card (component_of (touch_graph st (ru_ml r)) i) \<le> ls_max_component cfg"
    and res: "cohort rd cfg facts r st = Some res" "distinct (map fst (r_clusters res))"
  defines "U \<equiv> reach_of (touch_graph st (ru_ml r)) seeds"
  shows "\<exists>ps' gone rows confl. recluster rd facts cfg working r seeds (ps, st) = Some (ps', write_clusters gone rows confl st)
     \<and> set (ps_oversized ps') = set (ps_oversized ps)
     \<and> (\<forall>k. map_of (st_clusters (write_clusters gone rows confl st)) k = (if k \<in> U then map_of (r_clusters res) k
          else case map_of (st_clusters st) k of None \<Rightarrow> None
               | Some ms \<Rightarrow> if set ms \<inter> U = {} then Some ms else None))"
proof -
  obtain comps where c: "touched_components st seeds (ls_max_component cfg) (ru_ml r) = Some (comps, [])"
      "(\<Union>ms \<in> set comps. set ms) = U" "\<forall>ms \<in> set comps. shut (touch_graph st (ru_ml r)) (set ms)"
    using touched_within [OF ok(3) small] unfolding U_def by blast
  show ?thesis
  proof (cases "comps = []")
    case True
    then have "U = {}" using c(2) by simp
    moreover have "write_clusters [] [] [] st = st" by (simp add: write_clusters_def)
    ultimately show ?thesis
      using c(1) True by (intro exI [of _ "[]"] exI) (auto simp: recluster_def split: option.split)
  next
    case False
    let ?every = "sort (concat comps)"
    let ?stored = "pairs_within ?every st"
    let ?mine = "filter (\<lambda>row. list_ex (\<lambda>ms. pr_lo row \<in> set ms \<and> pr_hi row \<in> set ms) comps) ?stored"
    let ?held = "loaded facts (working @ ?every)"
    let ?one = "\<lambda>ms. recluster_one rd cfg (ps_generation ps) (map_option snd \<circ> ?held)
        (relation_for (ls_d43 cfg) (map_option fst \<circ> ?held) (slots_of cfg ?mine) (certificates_of ?mine)) r
        (filter (\<lambda>row. pr_lo row \<in> set ms \<and> pr_hi row \<in> set ms) ?mine) ms"
    let ?share = "\<lambda>ms. filter (\<lambda>(k, _). k \<in> set ms) (r_clusters res)"
    have every: "set ?every = U" using c(2) by simp
    have one: "\<exists>rows conflicts undone. ?one ms = Some (rows, conflicts, map fst (?share ms), undone) \<and> map report_of rows = ?share ms"
      if ms: "ms \<in> set comps" for ms
    proof (rule recluster_one_share [OF ok _ _ _ _ res(1)])
      have sub: "set ms \<subseteq> set ?every" using ms by auto
      show "shut (touch_graph st (ru_ml r)) (set ms)" using c(3) ms by blast
      show "?held a = facts a" if "a \<in> set ms" for a using sub that by (auto simp: loaded_def)
      have "rows_in (set ms) ?stored = rows_in (set ms) (all_rows st)"
        unfolding pairs_within_rows [OF ok(3)] by (rule rows_in_rows_in [OF sub])
      moreover have "rows_in (set ms) ?mine = rows_in (set ms) ?stored"
        unfolding rows_in_def filter_filter using ms by (intro filter_cong) (auto simp: list_ex_iff)
      ultimately show *: "rows_in (set ms) ?mine = rows_in (set ms) (all_rows st)" by simp
      show "rows_in (set ms) ?mine = rows_in (set ms) (all_rows st)" by (rule *)
    qed
    let ?results = "map (the \<circ> ?one) comps"
    let ?rows = "concat (map fst ?results)" and ?keep = "concat (map (fst \<circ> snd \<circ> snd) ?results)"
    let ?gone = "sort (filter (\<lambda>k. k \<notin> set ?keep) (map fst (clusters_touching ?every st)))"
    let ?confl = "concat (map (fst \<circ> snd) ?results)"
    have some: "\<not> list_ex (\<lambda>out. out = None) (map ?one comps)" using one by (fastforce simp: list_ex_iff)
    have "map report_of (fst (the (?one ms))) = ?share ms" "fst (snd (snd (the (?one ms)))) = map fst (?share ms)" if "ms \<in> set comps" for ms
      using one [OF that] by auto
    then have "map report_of ?rows = concat (map ?share comps)" "?keep = concat (map (map fst \<circ> ?share) comps)"
      by (simp_all add: map_concat comp_def cong: map_cong)
    then have rows: "set (map report_of ?rows) = {p \<in> set (r_clusters res). fst p \<in> U}"
        and keep: "set ?keep = {k \<in> fst ` set (r_clusters res). k \<in> U}"
      unfolding c(2) [symmetric] by (simp_all only: shares)
    have run: "\<exists>ps'. recluster rd facts cfg working r seeds (ps, st) = Some (ps', write_clusters ?gone ?rows ?confl st)
        \<and> set (ps_oversized ps') = set (ps_oversized ps)"
      using some False by (simp add: recluster_def c(1) Let_def comp_def)
    show ?thesis using run write_share [OF dict res(2) keyed rows keep every] by blast
  qed
qed

section \<open>What moved is seeded\<close>

text \<open>A pair row as the clustering reads it: how it was retrieved and decided is left out.\<close>

definition as_read :: "pair_row \<Rightarrow> pair_row" where
  "as_read r = r\<lparr>pr_probes := [], pr_from_lo := False, pr_from_hi := False, pr_reason := [], pr_context := [],
     pr_fp_lo := [], pr_fp_hi := [], pr_dd_lo := [], pr_dd_hi := []\<rparr>"

lemma as_read_simps [simp]: "pr_lo (as_read r) = pr_lo r" "pr_hi (as_read r) = pr_hi r" "pr_zone (as_read r) = pr_zone r"
  "pr_score (as_read r) = pr_score r" "pr_families (as_read r) = pr_families r" "pr_certificate (as_read r) = pr_certificate r"
  "pr_veto (as_read r) = pr_veto r" "pr_evidence (as_read r) = pr_evidence r" "pr_slots (as_read r) = pr_slots r"
  by (simp_all add: as_read_def)

definition plain :: "store \<Rightarrow> store" where
  "plain st = st\<lparr>st_pairs := map (\<lambda>(k, r). (k, as_read r)) (st_pairs st)\<rparr>"

lemma plain_pair: "map_of (st_pairs (plain st)) k = map_option as_read (map_of (st_pairs st) k)"
  by (simp add: plain_def map_of_map)

lemma plain_merge_edge: "merge_edge (plain st) = merge_edge st"
  by (intro ext) (simp add: merge_edge_def plain_pair split: option.split)

lemma plain_graph: "touch_graph (plain st) ml = touch_graph st ml"
  by (simp add: touch_graph_def plain_merge_edge)

lemma plain_ok: "pairs_ok st \<Longrightarrow> pairs_ok (plain st)"
  unfolding pairs_ok_def plain_merge_edge by (auto simp: plain_def list_all_iff comp_def case_prod_unfold)

lemma insort_key_map:
  "insort_key fst (k, g v) (map (\<lambda>(k, r). (k, g r)) d) = map (\<lambda>(k, r). (k, g r)) (insort_key fst (k, v) d)"
  by (induction d) auto

lemma sort_dict_map: "sort_key fst (map (\<lambda>(k, r). (k, g r)) d) = map (\<lambda>(k, r). (k, g r)) (sort_key fst d)"
proof (induction d)
  case (Cons p d)
  then show ?case by (cases p) (simp add: insort_key_map)
qed simp

lemma plain_rows: "all_rows (plain st) = map as_read (all_rows st)"
proof -
  have "st_pairs (plain st) = map (\<lambda>(k, r). (k, as_read r)) (st_pairs st)" by (simp add: plain_def)
  then show ?thesis unfolding all_rows_def by (simp only: sort_dict_map) (simp add: comp_def case_prod_unfold)
qed

lemma map_filter_map: "List.map_filter f (map g xs) = List.map_filter (f \<circ> g) xs"
  by (induction xs) (auto simp: map_filter_simps split: option.split)

lemma rows_as_read:
  "map row_decision (map as_read rows) = map row_decision rows" "slots_of cfg (map as_read rows) = slots_of cfg rows"
  "certificates_of (map as_read rows) = certificates_of rows" "vetoes_of (map as_read rows) = vetoes_of rows"
  by (simp_all add: row_decision_def slots_of_def certificates_of_def vetoes_of_def map_filter_map filter_map comp_def cong: if_cong)

lemma cohort_plain: "cohort rd cfg facts r (plain st) = cohort rd cfg facts r st"
  unfolding cohort_def plain_rows rows_as_read ..

text \<open>
  Between two states of the lane, what moved lies in a set: a fact, a row as it is read and a ruling each with
  one of its adverts, and an edge that is gone with both.
\<close>

definition moved_within :: "int set \<Rightarrow> (int \<Rightarrow> ('l \<times> full_fp) option) \<times> rulings \<times> store
    \<Rightarrow> (int \<Rightarrow> ('l \<times> full_fp) option) \<times> rulings \<times> store \<Rightarrow> bool" where
  "moved_within S = (\<lambda>(facts0, r0, st0) (facts, r, st).
     (\<forall>i. i \<notin> S \<longrightarrow> facts i = facts0 i)
     \<and> (\<forall>lo hi. lo \<notin> S \<and> hi \<notin> S \<longrightarrow>
          map_option as_read (map_of (st_pairs st) (lo, hi)) = map_option as_read (map_of (st_pairs st0) (lo, hi))
          \<and> ((lo, hi) \<in> set (ru_mnl r) \<longleftrightarrow> (lo, hi) \<in> set (ru_mnl r0)) \<and> ((lo, hi) \<in> set (ru_ml r) \<longleftrightarrow> (lo, hi) \<in> set (ru_ml r0)))
     \<and> (\<forall>lo hi. (lo, hi) \<in> touch_graph st0 (ru_ml r0) - touch_graph st (ru_ml r) \<longrightarrow> lo \<in> S \<and> hi \<in> S))"

lemma moved_withinD:
  assumes "moved_within S (facts0, r0, st0) (facts, r, st)" and "lo \<notin> S" "hi \<notin> S"
  shows "facts lo = facts0 lo"
    and "map_of (st_pairs (plain st)) (lo, hi) = map_of (st_pairs (plain st0)) (lo, hi)"
    and "(lo, hi) \<in> set (ru_mnl r) \<longleftrightarrow> (lo, hi) \<in> set (ru_mnl r0)" and "(lo, hi) \<in> set (ru_ml r) \<longleftrightarrow> (lo, hi) \<in> set (ru_ml r0)"
  using assms unfolding moved_within_def prod.case plain_pair by blast+

lemma shut_before:
  assumes m: "moved_within S (facts0, r0, st0) (facts, r, st)" and shut: "shut (touch_graph st (ru_ml r)) C"
    and out: "C \<inter> S = {}"
  shows "shut (touch_graph st0 (ru_ml r0)) C"
proof -
  have "b \<in> C" if "(a, b) \<in> touch_graph st0 (ru_ml r0)" "a \<in> C" for a b
  proof -
    have "a \<notin> S" using that(2) out by blast
    then have "(a, b) \<in> touch_graph st (ru_ml r)" using m that(1) unfolding moved_within_def prod.case by blast
    then show ?thesis using shut that(2) by (auto simp: shut_def)
  qed
  then show ?thesis using touch_graph_sym unfolding shut_def by blast
qed

text \<open>The order in which the rulings come does not matter.\<close>

lemma cluster_pairs_rulings:
  assumes "sort ml = sort ml'"
  shows "cluster_pairs rd ds fps cfg mnl relation ml vetoes = cluster_pairs rd ds fps cfg mnl relation ml' vetoes"
proof -
  have "links p ml = links p ml'" for p using assms by (simp add: links_def)
  then have "valid_closures rd fps g mnl ml = valid_closures rd fps g mnl ml'" for g
    using assms by (simp add: valid_closures_def must_link_closures_def)
  then have "cluster_inputs rd fps cfg mnl relation ml vetoes = cluster_inputs rd fps cfg mnl relation ml' vetoes"
    by (simp add: cluster_inputs_valid)
  moreover have "length ml = length ml'" using assms by (metis length_sort)
  moreover have "ml = [] \<longleftrightarrow> ml' = []" using assms by (metis sort_Nil_iff)
  ultimately show ?thesis unfolding cluster_pairs_def by (simp only:)
qed

text \<open>Where nothing moved, the two clusterings of the cohort have the same share.\<close>

lemma cohort_unmoved:
  assumes ok: "lane_ok cfg" "facts_keyed facts0" "facts_keyed facts" "pairs_ok st0" "pairs_ok st"
    and ml: "distinct (ru_ml r0)" "distinct (ru_ml r)"
    and m: "moved_within S (facts0, r0, st0) (facts, r, st)" and shut: "shut (touch_graph st (ru_ml r)) C" and out: "C \<inter> S = {}"
  shows "\<exists>res0 res. cohort rd cfg facts0 r0 st0 = Some res0 \<and> cohort rd cfg facts r st = Some res
     \<and> filter (\<lambda>(k, _). k \<in> C) (r_clusters res0) = filter (\<lambda>(k, _). k \<in> C) (r_clusters res)
     \<and> distinct (map fst (r_clusters res0)) \<and> distinct (map fst (r_clusters res))
     \<and> (\<forall>(k, ms) \<in> set (r_clusters res0). k \<in> set ms \<and> 1 < card (set ms) \<and> (\<forall>m \<in> set ms. m \<in> C \<longleftrightarrow> k \<in> C))"
proof -
  let ?fps = "map_option (base \<circ> snd) \<circ> facts" and ?ads = "map_option fst \<circ> facts" and ?rows = "rows_in C (all_rows (plain st))"
  have plain: "pairs_ok (plain st0)" "pairs_ok (plain st)" using ok(4,5) by (simp_all add: plain_ok)
  have same: "facts a = facts0 a" "map_of (st_pairs (plain st)) (a, b) = map_of (st_pairs (plain st0)) (a, b)"
      "(a, b) \<in> set (ru_mnl r) \<longleftrightarrow> (a, b) \<in> set (ru_mnl r0)" "(a, b) \<in> set (ru_ml r) \<longleftrightarrow> (a, b) \<in> set (ru_ml r0)"
    if "a \<in> C" "b \<in> C" for a b using moved_withinD [OF m, of a b] that out by blast+
  have rows: "?rows = rows_in C (all_rows (plain st0))" by (rule rows_in_cong [OF plain]) (rule same(2))
  have facts: "\<forall>a \<in> C. ?fps a = (map_option (base \<circ> snd) \<circ> facts0) a \<and> ?ads a = (map_option fst \<circ> facts0) a"
    using same(1) by simp
  have mnl: "\<forall>a \<in> C. \<forall>b \<in> C. (a, b) \<in> set (ru_mnl r) \<longleftrightarrow> (a, b) \<in> set (ru_mnl r0)" using same(3) by blast
  have "set (rulings_inside C (ru_ml r)) = set (rulings_inside C (ru_ml r0))" using same(4) by (auto simp: rulings_inside_def)
  then have rulings: "sort (rulings_inside C (ru_ml r)) = sort (rulings_inside C (ru_ml r0))"
    using ml by (intro sorted_distinct_set_unique) (simp_all add: rulings_inside_def)
  note old = cohort_part [where rd = rd and facts = facts0 and fps' = ?fps and ads' = ?ads and st = "plain st0",
      unfolded plain_graph cohort_plain, OF ok(1,2) plain(1) shut_before [OF m shut out] facts rows rows rows [symmetric] mnl]
  have here: "\<forall>a \<in> C. ?fps a = ?fps a \<and> ?ads a = ?ads a"
    "\<forall>a \<in> C. \<forall>b \<in> C. (a, b) \<in> set (ru_mnl r) \<longleftrightarrow> (a, b) \<in> set (ru_mnl r)" by simp_all
  note new = cohort_part [where rd = rd and facts = facts and fps' = ?fps and ads' = ?ads and st = "plain st",
      unfolded plain_graph cohort_plain, OF ok(1,3) plain(2) shut here(1) refl refl refl here(2)]
  show ?thesis using old new unfolding cluster_pairs_rulings [OF rulings] by fastforce
qed

text \<open>An advert no edge reaches is in no cluster.\<close>

definition alone :: "(int \<times> int) set \<Rightarrow> int \<Rightarrow> bool" where
  "alone G i \<longleftrightarrow> (\<forall>j. (i, j) \<notin> G)"

lemma alone_unclustered:
  assumes ok: "lane_ok cfg" "facts_keyed facts" "pairs_ok st" and i: "alone (touch_graph st (ru_ml r)) i"
    and res: "cohort rd cfg facts r st = Some res"
  shows "map_of (r_clusters res) i = None"
proof (rule ccontr)
  assume "map_of (r_clusters res) i \<noteq> None"
  then obtain ms where ms: "(i, ms) \<in> set (r_clusters res)" by (auto dest: map_of_SomeD)
  have shut: "shut (touch_graph st (ru_ml r)) {i}" using i touch_graph_sym unfolding shut_def alone_def by blast
  have here: "\<forall>a \<in> {i}. (map_option (base \<circ> snd) \<circ> facts) a = (map_option (base \<circ> snd) \<circ> facts) a
        \<and> (map_option fst \<circ> facts) a = (map_option fst \<circ> facts) a"
    "\<forall>a \<in> {i}. \<forall>b \<in> {i}. (a, b) \<in> set (ru_mnl r) \<longleftrightarrow> (a, b) \<in> set (ru_mnl r)" by simp_all
  have "1 < card (set ms) \<and> (\<forall>m \<in> set ms. m \<in> {i} \<longleftrightarrow> i \<in> {i})"
    using cohort_part [where rd = rd, OF ok shut here(1) refl refl refl here(2)] ms unfolding res by fastforce
  then have "1 < card (set ms)" "set ms \<subseteq> {i}" by auto
  then show False using card_mono [of "{i}" "set ms"] by simp
qed

section \<open>The lane keeps the clustering of the cohort\<close>

definition keeps_clusters :: "verb \<Rightarrow> bool" where
  "keeps_clusters v \<longleftrightarrow> (case v of Write _ _ _ \<Rightarrow> False | _ \<Rightarrow> True)"

lemma delete_pairs_clusters [simp]: "st_clusters (delete_pairs ks st) = st_clusters st"
  unfolding delete_pairs_def by (induction ks arbitrary: st) (simp_all add: delete_pair_frame)

lemma upsert_pairs_clusters: "foldM upsert_pair rows (st, n) = Some (st', n') \<Longrightarrow> st_clusters st' = st_clusters st"
proof (induction rows arbitrary: st n)
  case (Cons r rows)
  then obtain st1 n1 where 1: "upsert_pair r (st, n) = Some (st1, n1)" "foldM upsert_pair rows (st1, n1) = Some (st', n')"
    by (auto split: bind_splits)
  have "st_clusters st1 = st_clusters st"
    using 1(1) by (auto simp: upsert_pair_def Let_def reindex_def unlink_def split: if_splits)
  then show ?case using Cons.IH [OF 1(2)] by simp
qed simp

lemma perform_clusters: "keeps_clusters v \<Longrightarrow> perform v st = Some st' \<Longrightarrow> st_clusters st' = st_clusters st"
  by (cases v) (auto simp: keeps_clusters_def put_listing_def drop_listing_def drop_keys_def put_decision_digests_def
      upsert_pairs_def bump_cell_def unbump_cell_def rulings_changed_def flush_def Let_def case_prod_beta
      dest: upsert_pairs_clusters split: option.splits if_splits)

lemma performs_keep:
  assumes "list_all verb_ok vs" "list_all keeps_clusters vs" "foldM perform vs st = Some st'" "store_ok st"
  shows "store_ok st' \<and> st_clusters st' = st_clusters st"
  using assms
proof (induction vs arbitrary: st)
  case (Cons v vs)
  then obtain st1 where 1: "perform v st = Some st1" "foldM perform vs st1 = Some st'" by (auto split: bind_splits)
  then show ?case using Cons.IH [OF _ _ 1(2)] perform_ok [OF Cons.prems(4) _ 1(1)] perform_clusters [OF _ 1(1)] Cons.prems by simp
qed simp

definition settled :: "('l, feats) fact_reader \<Rightarrow> lane_settings \<Rightarrow> (int \<Rightarrow> ('l \<times> full_fp) option) \<times> rulings \<times> store \<Rightarrow> bool" where
  "settled rd cfg = (\<lambda>(facts, r, st). \<exists>res. cohort rd cfg facts r st = Some res
     \<and> (\<forall>k. map_of (st_clusters st) k = map_of (r_clusters res) k))"

text \<open>What the re-clustering half of a pass finds: the verbs the first half performed, and seeds for what they moved.\<close>

definition pass_ready :: "lane_settings \<Rightarrow> int list \<Rightarrow> (int \<Rightarrow> ('l \<times> full_fp) option) \<times> rulings \<times> store
    \<Rightarrow> (int \<Rightarrow> ('l \<times> full_fp) option) \<times> rulings \<times> store \<Rightarrow> bool" where
  "pass_ready cfg seeds = (\<lambda>(facts0, r0, st0) (facts, r, st).
     let G0 = touch_graph st0 (ru_ml r0); G = touch_graph st (ru_ml r) in
     facts_keyed facts \<and> distinct (ru_ml r)
     \<and> (\<exists>vs. list_all verb_ok vs \<and> list_all keeps_clusters vs \<and> foldM perform vs st0 = Some st)
     \<and> (\<forall>i \<in> set seeds. card (component_of G i) \<le> ls_max_component cfg)
     \<and> moved_within (reach_of G seeds \<union> {i. alone G0 i \<and> alone G i}) (facts0, r0, st0) (facts, r, st))"

inductive lane_runs :: "('l, feats) fact_reader \<Rightarrow> lane_settings
    \<Rightarrow> (int \<Rightarrow> ('l \<times> full_fp) option) \<times> rulings \<times> store \<Rightarrow> bool" for rd cfg where
  lane_begins: "facts_keyed facts \<Longrightarrow> store_ok st \<Longrightarrow> st_pairs st = [] \<Longrightarrow> st_clusters st = [] \<Longrightarrow> ru_ml r = []
     \<Longrightarrow> lane_runs rd cfg (facts, r, st)"
| lane_passes: "lane_runs rd cfg s \<Longrightarrow> pass_ready cfg seeds s (facts, r, st)
     \<Longrightarrow> recluster rd facts cfg working r seeds (ps, st) = Some (ps', st') \<Longrightarrow> lane_runs rd cfg (facts, r, st')"

lemma cohort_pairs: "st_pairs st' = st_pairs st \<Longrightarrow> cohort rd cfg facts r st' = cohort rd cfg facts r st"
  by (simp add: cohort_def all_rows_def)

lemma map_of_key_filter: "map_of (filter (\<lambda>(k, _). k \<in> C) d) k = (if k \<in> C then map_of d k else None)"
  by (induction d) auto

lemma pass_settles:
  assumes cfg: "lane_ok cfg" and s0: "store_ok st0" "facts_keyed facts0" "distinct (ru_ml r0)" "settled rd cfg (facts0, r0, st0)"
    and ready: "pass_ready cfg seeds (facts0, r0, st0) (facts, r, st)"
  shows "\<exists>ps' st'. recluster rd facts cfg working r seeds (ps, st) = Some (ps', st') \<and> settled rd cfg (facts, r, st')
     \<and> store_ok st' \<and> st_pairs st' = st_pairs st \<and> set (ps_oversized ps') = set (ps_oversized ps)"
proof -
  let ?H = "touch_graph st0 (ru_ml r0)" and ?G = "touch_graph st (ru_ml r)"
  let ?U = "reach_of ?G seeds" and ?I = "{i. alone ?H i \<and> alone ?G i}"
  have facts: "facts_keyed facts" and ml: "distinct (ru_ml r)" and small: "\<forall>i \<in> set seeds. card (component_of ?G i) \<le> ls_max_component cfg"
    and m: "moved_within (?U \<union> ?I) (facts0, r0, st0) (facts, r, st)"
    using ready unfolding pass_ready_def Let_def prod.case by blast+
  obtain vs where "list_all verb_ok vs" "list_all keeps_clusters vs" "foldM perform vs st0 = Some st"
    using ready by (auto simp: pass_ready_def Let_def)
  then have st: "store_ok st" "st_clusters st = st_clusters st0" using performs_keep s0(1) by blast+
  have pairs: "pairs_ok st0" "pairs_ok st" and dict: "distinct (map fst (st_clusters st))"
    using s0(1) st(1) by (simp_all add: store_ok_def tables_ok_def)
  let ?C = "- (?U \<union> ?I)"
  have shut: "shut ?G ?C"
    using shut_reach [of st "ru_ml r" seeds] touch_graph_sym unfolding shut_def alone_def by blast
  obtain res0 res where res: "cohort rd cfg facts0 r0 st0 = Some res0" "cohort rd cfg facts r st = Some res"
      "filter (\<lambda>(k, _). k \<in> ?C) (r_clusters res0) = filter (\<lambda>(k, _). k \<in> ?C) (r_clusters res)"
      "distinct (map fst (r_clusters res0))" "distinct (map fst (r_clusters res))"
      "\<forall>(k, ms) \<in> set (r_clusters res0). k \<in> set ms \<and> 1 < card (set ms) \<and> (\<forall>m \<in> set ms. m \<in> ?C \<longleftrightarrow> k \<in> ?C)"
    using cohort_unmoved [where rd = rd, OF cfg s0(2) facts pairs s0(3) ml m shut] by blast
  have held: "map_of (st_clusters st) k = map_of (r_clusters res0) k" for k
    using s0(4) st(2) res(1) by (auto simp: settled_def)
  have keyed: "k \<in> set ms" if "map_of (st_clusters st) k = Some ms" for k ms
    using res(6) map_of_SomeD [OF that [unfolded held]] by blast
  obtain ps' gone rows confl where run: "recluster rd facts cfg working r seeds (ps, st) = Some (ps', write_clusters gone rows confl st)"
      "set (ps_oversized ps') = set (ps_oversized ps)"
      "\<forall>k. map_of (st_clusters (write_clusters gone rows confl st)) k = (if k \<in> ?U then map_of (r_clusters res) k
          else case map_of (st_clusters st) k of None \<Rightarrow> None | Some ms \<Rightarrow> if set ms \<inter> ?U = {} then Some ms else None)"
    using recluster_share [where rd = rd and working = working and ps = ps, OF cfg facts pairs(2) keyed dict small res(2,5)] by blast
  have "map_of (st_clusters (write_clusters gone rows confl st)) k = map_of (r_clusters res) k" for k
  proof -
    consider "k \<in> ?U" | "k \<notin> ?U" "k \<in> ?I" | "k \<in> ?C" by blast
    then show ?thesis
    proof cases
      case 2
      then have "map_of (r_clusters res0) k = None" "map_of (r_clusters res) k = None"
        using alone_unclustered [OF cfg s0(2) pairs(1) _ res(1)] alone_unclustered [OF cfg facts pairs(2) _ res(2)] by blast+
      then show ?thesis using run(3) 2(1) held by simp
    next
      case 3
      have share: "map_of (r_clusters res0) k = map_of (r_clusters res) k"
        using map_of_key_filter [of ?C "r_clusters res0" k] map_of_key_filter [of ?C "r_clusters res" k] res(3) 3 by simp
      have "set ms \<inter> ?U = {}" if "map_of (r_clusters res0) k = Some ms" for ms
        using res(6) map_of_SomeD [OF that] 3 by blast
      then show ?thesis using run(3) 3 held share by (auto split: option.split)
    qed (use run(3) in simp)
  qed
  moreover have pairs': "st_pairs (write_clusters gone rows confl st) = st_pairs st" by (simp add: write_clusters_def Let_def)
  then have "cohort rd cfg facts r (write_clusters gone rows confl st) = Some res" using res(2) cohort_pairs by metis
  ultimately have "settled rd cfg (facts, r, write_clusters gone rows confl st)" by (auto simp: settled_def)
  then show ?thesis using run(1,2) pairs' write_clusters_ok [OF st(1)] by blast
qed

lemma cohort_empty:
  assumes "st_pairs st = []" and "ru_ml r = []" and "\<not> repartition (ls_cluster cfg)"
  shows "\<exists>res. cohort rd cfg facts r st = Some res \<and> r_clusters res = []"
  using assms
  by (simp add: cohort_def all_rows_def cluster_pairs_def cluster_inputs_def merge_edges_def union_find_pass_def Let_def
      apply_bridges_def empty_uf_def multi_def)

lemma lane_kept:
  assumes cfg: "lane_ok cfg" and runs: "lane_runs rd cfg s"
  shows "case s of (facts, r, st) \<Rightarrow> store_ok st \<and> facts_keyed facts \<and> distinct (ru_ml r) \<and> settled rd cfg (facts, r, st)"
  using runs
proof (induction rule: lane_runs.induct)
  case (lane_begins facts st r)
  then show ?case using cohort_empty [of st r cfg rd facts] cfg by (auto simp: settled_def lane_ok_def)
next
  case (lane_passes s seeds facts r st working ps ps' st')
  obtain facts0 r0 st0 where s: "s = (facts0, r0, st0)" by (cases s)
  then have kept: "store_ok st0" "facts_keyed facts0" "distinct (ru_ml r0)" "settled rd cfg (facts0, r0, st0)"
    using lane_passes.IH by simp_all
  have "facts_keyed facts" "distinct (ru_ml r)" using lane_passes.hyps(2) by (auto simp: s pass_ready_def Let_def)
  then show ?case
    using pass_settles [OF cfg kept lane_passes.hyps(2) [unfolded s], of working ps] lane_passes.hyps(3) by auto
qed

text \<open>
  C11. The incremental lane clusters what the cohort would (E72), in union-find mode. From a store without
  pairs, after any number of passes, each of which performed any verbs of the store and then re-clustered
  seeds whose components fit the cap and hold what moved (a changed fact, a row as the clustering reads it or
  a ruling with one side, an edge that is gone with both; an advert without edges may move freely): the next
  such pass returns, names no component as oversized, and leaves exactly the clusters that one clustering of
  all the stored pairs under the rulings of the pass gives.
\<close>

theorem lane_is_cohort:
  assumes "lane_ok cfg" and "lane_runs rd cfg (facts0, r0, st0)" and "pass_ready cfg seeds (facts0, r0, st0) (facts, r, st)"
  shows "\<exists>ps' st' res. recluster rd facts cfg working r seeds (ps, st) = Some (ps', st')
     \<and> set (ps_oversized ps') = set (ps_oversized ps) \<and> store_ok st' \<and> st_pairs st' = st_pairs st
     \<and> cohort rd cfg facts r st' = Some res \<and> map_of (st_clusters st') = map_of (r_clusters res)"
proof -
  have kept: "store_ok st0" "facts_keyed facts0" "distinct (ru_ml r0)" "settled rd cfg (facts0, r0, st0)"
    using lane_kept [OF assms(1,2)] by simp_all
  obtain ps' st' where "recluster rd facts cfg working r seeds (ps, st) = Some (ps', st')" "settled rd cfg (facts, r, st')"
      "store_ok st'" "st_pairs st' = st_pairs st" "set (ps_oversized ps') = set (ps_oversized ps)"
    using pass_settles [OF assms(1) kept assms(3)] by blast
  moreover from this(2) obtain res where "cohort rd cfg facts r st' = Some res" "map_of (st_clusters st') = map_of (r_clusters res)"
    by (auto simp: settled_def)
  ultimately show ?thesis by blast
qed

text \<open>Two adverts, first known to be apart, then merged by a pass that upserts their pair.\<close>

definition ex_reader :: "(int, feats) fact_reader" where
  "ex_reader = \<lparr>distinguishing_facts = (\<lambda>a b _ mode.
       if \<bar>a - b\<bar> > (case mode of CLUSTER \<Rightarrow> 10 | PROMOTE \<Rightarrow> 5) then [''price''] else []),
     price_paths_agree = (\<lambda>_ _. True), honest_overlap_days = (\<lambda>_ _. None),
     overlap_days = (\<lambda>_ _. None), price_conflict = (\<lambda>_ _ _ _. False),
     kc_house_number_price_excuse = (\<lambda>_ _ _. False), printed_areas_prevail = (=)\<rparr>"

definition ex_lane :: lane_settings where
  "ex_lane = \<lparr>ls_cluster = plain_settings, ls_d43 = \<lparr>d43_cluster_invariant = True, demonstrate_cluster_price = False,
     demonstrate_cluster_price_honest_clock = False, d43_cluster_price_kc_house_number = False\<rparr>,
     ls_store_floor = 0, ls_max_component = 3\<rparr>"

definition ex_facts :: "int \<Rightarrow> (int \<times> full_fp) option" where
  "ex_facts i = (if i = 1 \<or> i = 2 then Some (100 + i, ex_fp i ''p'' 10) else None)"

definition ex_rulings :: rulings where
  "ex_rulings = \<lparr>ru_mnl = [], ru_ml = [], ru_changed = []\<rparr>"

definition ex_pass :: pass_result where
  "ex_pass = \<lparr>ps_generation = ''rt'', ps_oversized = [], ps_components = 0, ps_keys = [], ps_written = 0, ps_dropped = 0,
     ps_dissolved = [], ps_pairs = 0, ps_ledgered = 0\<rparr>"

definition ex_lane_store :: store where
  "ex_lane_store = the (foldM perform [Put 2 (ex_fp_row 2) [], Put 1 (ex_fp_row 1) [], Upsert [ex_row ''merge'']] empty_store)"

lemma ex_lane_store_run:
  "foldM perform [Put 2 (ex_fp_row 2) [], Put 1 (ex_fp_row 1) [], Upsert [ex_row ''merge'']] empty_store = Some ex_lane_store"
  "st_pairs ex_lane_store = [((1, 2), ex_row ''merge'')]"
  unfolding ex_lane_store_def by code_simp+

lemma ex_facts_keyed: "facts_keyed ex_facts"
  by (auto simp: facts_keyed_def fps_keyed_def ex_facts_def ex_fp_def base_def fingerprint.defs split: if_splits)

lemma ex_lane_ready: "pass_ready ex_lane [1] (ex_facts, ex_rulings, empty_store) (ex_facts, ex_rulings, ex_lane_store)"
proof -
  let ?G = "touch_graph ex_lane_store []"
  have keys: "pair_key x y = (1, 2) \<longleftrightarrow> x = 1 \<and> y = 2 \<or> x = 2 \<and> y = 1" for x y :: int by (auto simp: pair_key_def)
  have G: "?G = {(1, 2), (2, 1)}"
    by (auto simp: touch_graph_def merge_edge_def ex_lane_store_run(2) keys ex_row_def split: if_splits)
  have H: "touch_graph empty_store [] = {}" by (auto simp: touch_graph_def merge_edge_def empty_store_def)
  have pairs0: "st_pairs empty_store = []" and ruled: "ru_ml ex_rulings = []" "ru_mnl ex_rulings = []"
    by (simp_all add: empty_store_def ex_rulings_def)
  have "component_of ?G 1 \<subseteq> {1, 2}"
  proof
    fix j assume "j \<in> component_of ?G 1"
    then have "(1, j) \<in> ?G\<^sup>*" by (simp add: component_of_def)
    then show "j \<in> {1, 2}" by (cases rule: rtranclE) (auto simp: G)
  qed
  then have "card (component_of ?G 1) \<le> card {1, 2 :: int}" by (intro card_mono) auto
  then have small: "card (component_of ?G 1) \<le> 3" by simp
  have "1 \<in> component_of ?G 1" by (simp add: component_of_def)
  then have moved: "moved_within (reach_of ?G [1] \<union> {i. alone {} i \<and> alone ?G i}) (ex_facts, ex_rulings, empty_store) (ex_facts, ex_rulings, ex_lane_store)"
    unfolding moved_within_def prod.case pairs0 ruled H ex_lane_store_run(2) by (auto simp: reach_of_def)
  let ?vs = "[Put 2 (ex_fp_row 2) [], Put 1 (ex_fp_row 1) [], Upsert [ex_row ''merge'']]"
  have "list_all verb_ok ?vs" "list_all keeps_clusters ?vs"
    by (simp_all add: row_ok_def ex_row_def keeps_clusters_def)
  then have "\<exists>vs. list_all verb_ok vs \<and> list_all keeps_clusters vs \<and> foldM perform vs empty_store = Some ex_lane_store"
    using ex_lane_store_run(1) by blast
  moreover have "\<forall>i \<in> set [1]. card (component_of ?G i) \<le> ls_max_component ex_lane" using small by (simp add: ex_lane_def)
  ultimately show ?thesis
    using moved ex_facts_keyed unfolding pass_ready_def Let_def prod.case ruled H by simp
qed

theorem lane_is_cohort_witness:
  "\<exists>ps' st'. recluster ex_reader ex_facts ex_lane [] ex_rulings [1] (ex_pass, ex_lane_store) = Some (ps', st')
     \<and> map_of (st_clusters st') 1 = Some [1, 2]"
proof -
  have "lane_ok ex_lane" by (simp add: lane_ok_def ex_lane_def plain_settings_def default_guard_settings_def guard_settings_ok_def)
  moreover have "lane_runs ex_reader ex_lane (ex_facts, ex_rulings, empty_store)"
    by (intro lane_begins ex_facts_keyed store_ok_empty) (simp_all add: empty_store_def ex_rulings_def)
  moreover have "map_option r_clusters (cohort ex_reader ex_lane ex_facts ex_rulings ex_lane_store) = Some [(1, [1, 2])]"
    by code_simp
  ultimately obtain ps' st' res where run: "recluster ex_reader ex_facts ex_lane [] ex_rulings [1] (ex_pass, ex_lane_store) = Some (ps', st')"
      "st_pairs st' = st_pairs ex_lane_store" "cohort ex_reader ex_lane ex_facts ex_rulings st' = Some res"
      "map_of (st_clusters st') = map_of (r_clusters res)"
    and clusters: "map_option r_clusters (cohort ex_reader ex_lane ex_facts ex_rulings ex_lane_store) = Some [(1, [1, 2])]"
    using lane_is_cohort [OF _ _ ex_lane_ready, of ex_reader "[]" ex_pass] by blast
  have "r_clusters res = [(1, [1, 2])]" using clusters unfolding run(3) [unfolded cohort_pairs [OF run(2)]] by simp
  then show ?thesis using run(1,4) by simp
qed

end
