(* ===== verification/Incremental_Retire.thy ===== *)
theory Incremental_Retire
  imports Incremental_Laws
begin

text \<open>
  What step 6 seeds when an advert is retired. A retired advert is no seed and a ruling that names it is no
  longer read, so when a ruling alone held it to its cluster nothing seeds that cluster.
\<close>

section \<open>What a dropped listing leaves\<close>

lemma delete_pair_rest:
  "st_ruled (delete_pair k st) = st_ruled st" "st_ml (delete_pair k st) = st_ml st" "st_mnl (delete_pair k st) = st_mnl st"
  "set (st_pairs (delete_pair k st)) \<subseteq> set (st_pairs st)"
proof -
  have "set (AList.delete k d) \<subseteq> set d" for d :: "(int \<times> int, pair_row) dict"
    by (induction d) auto
  then show "set (st_pairs (delete_pair k st)) \<subseteq> set (st_pairs st)"
    by (auto simp: delete_pair_def unlink_def split: option.splits)
qed (auto simp: delete_pair_def unlink_def split: option.splits)

lemma delete_pairs_rest:
  "st_ruled (delete_pairs ks st) = st_ruled st \<and> st_ml (delete_pairs ks st) = st_ml st \<and> st_mnl (delete_pairs ks st) = st_mnl st
   \<and> st_fp (delete_pairs ks st) = st_fp st \<and> set (st_pairs (delete_pairs ks st)) \<subseteq> set (st_pairs st)"
proof (induction ks arbitrary: st)
  case (Cons k ks)
  from Cons [of "delete_pair k st"] delete_pair_rest [of k st] show ?case
    by (simp add: delete_pairs_def delete_pair_frame) blast
qed (simp add: delete_pairs_def)

lemma dropped_rest:
  "st_ruled (drop_listing x st) = st_ruled st" "st_ml (drop_listing x st) = st_ml st" "st_mnl (drop_listing x st) = st_mnl st"
  "st_clusters (drop_listing x st) = st_clusters st" "set (st_pairs (drop_listing x st)) \<subseteq> set (st_pairs st)"
  "map_of (st_fp (drop_listing x st)) x = None"
proof -
  note D = delete_pairs_rest [where st = "drop_keys x st\<lparr>st_fp := AList.delete x (st_fp (drop_keys x st))\<rparr>"]
  show "st_ruled (drop_listing x st) = st_ruled st" "st_ml (drop_listing x st) = st_ml st" "st_mnl (drop_listing x st) = st_mnl st"
    "st_clusters (drop_listing x st) = st_clusters st" "set (st_pairs (drop_listing x st)) \<subseteq> set (st_pairs st)"
    "map_of (st_fp (drop_listing x st)) x = None"
    unfolding drop_listing_def Let_def using D by (auto simp: drop_keys_def delete_conv')
qed

section \<open>What the rulings seed\<close>

lemma member_map_inv:
  assumes "map_of (member_map cs) m = Some k"
  shows "\<exists>ms. (k, ms) \<in> set cs \<and> m \<in> set ms"
proof -
  have inner: "map_of (fold (\<lambda>m. AList.update m k) ms d) j = (if j \<in> set ms then Some k else map_of d j)" for k ms d and j :: int
    by (induction ms arbitrary: d) (auto simp: update_conv')
  have "map_of (fold (\<lambda>(k, ms). fold (\<lambda>m. AList.update m k) ms) cs d) m = Some k \<Longrightarrow>
      (\<exists>ms. (k, ms) \<in> set cs \<and> m \<in> set ms) \<or> map_of d m = Some k" for d
  proof (induction cs arbitrary: d)
    case (Cons c cs)
    obtain l ns where c: "c = (l, ns)" by (cases c)
    from Cons.IH [of "fold (\<lambda>m. AList.update m l) ns d"] Cons.prems show ?case
      by (auto simp: c inner split: if_splits)
  qed simp
  from this [of "[]"] assms show ?thesis by (simp add: member_map_def)
qed

lemma member_map_some:
  assumes "(k, ms) \<in> set cs" "m \<in> set ms"
  shows "map_of (member_map cs) m \<noteq> None"
proof -
  have inner: "map_of (fold (\<lambda>m. AList.update m k) ms d) j = (if j \<in> set ms then Some k else map_of d j)" for k ms d and j :: int
    by (induction ms arbitrary: d) (auto simp: update_conv')
  have "(k, ms) \<in> set cs \<or> map_of d m \<noteq> None \<Longrightarrow>
      map_of (fold (\<lambda>(k, ms). fold (\<lambda>m. AList.update m k) ms) cs d) m \<noteq> None" for d
  proof (induction cs arbitrary: d)
    case (Cons c cs)
    obtain l ns where c: "c = (l, ns)" by (cases c)
    have "(k, ms) \<in> set cs \<or> map_of (fold (\<lambda>m. AList.update m l) ns d) m \<noteq> None"
      using Cons.prems assms(2) by (auto simp: c inner)
    from Cons.IH [OF this] show ?case by (simp add: c)
  qed simp
  then show ?thesis using assms(1) by (simp add: member_map_def)
qed

text \<open>Clusters without a common advert, and with one entry per key.\<close>

definition clusters_apart :: "(int, int list) dict \<Rightarrow> bool" where
  "clusters_apart cs \<longleftrightarrow> distinct (map fst cs) \<and> (\<forall>p \<in> set cs. \<forall>q \<in> set cs. p \<noteq> q \<longrightarrow> set (snd p) \<inter> set (snd q) = {})"

lemma together_map:
  assumes "clusters_apart cs" "(k, ms) \<in> set cs" "lo \<in> set ms" "hi \<in> set ms"
  shows "map_of (member_map cs) lo = Some k \<and> map_of (member_map cs) hi = Some k"
proof -
  have "map_of (member_map cs) m = Some k" if m: "m \<in> set ms" for m
  proof -
    obtain l where l: "map_of (member_map cs) m = Some l" using member_map_some [OF assms(2) m] by blast
    then obtain ns where ns: "(l, ns) \<in> set cs" "m \<in> set ns" using member_map_inv by blast
    have "(l, ns) = (k, ms)"
      using assms(1,2) ns m unfolding clusters_apart_def by fastforce
    then show ?thesis using l by simp
  qed
  then show ?thesis using assms(3,4) by blast
qed

text \<open>The rulings ask for nothing: each "same" that does not name \<open>x\<close> is honoured, and no "different" is broken.\<close>

definition rulings_met :: "int \<Rightarrow> store \<Rightarrow> bool" where
  "rulings_met x st \<longleftrightarrow> set (st_ruled st) \<subseteq> {x}
   \<and> (\<forall>(lo, hi) \<in> set (st_mnl st). \<forall>(k, ms) \<in> set (st_clusters st). \<not> (lo \<in> set ms \<and> hi \<in> set ms))
   \<and> (\<forall>(lo, hi) \<in> set (st_ml st). lo = x \<or> hi = x \<or> lo = hi
        \<or> (\<exists>(k, ms) \<in> set (st_clusters st). lo \<in> set ms \<and> hi \<in> set ms))"

lemma read_dropped:
  fixes x st
  defines "st1 \<equiv> drop_listing x st"
  shows "fst (read_rulings st1) = st1\<lparr>st_ruled_read := st_ruled st\<rparr>"
    and "ru_mnl (snd (read_rulings st1)) = st_mnl st"
    and "set (ru_changed (snd (read_rulings st1))) \<subseteq> set (st_ruled st)"
    and "(a, b) \<in> set (ru_ml (snd (read_rulings st1))) \<Longrightarrow> a \<noteq> x \<and> b \<noteq> x \<and> a \<noteq> b \<and> ((a, b) \<in> set (st_ml st) \<or> (b, a) \<in> set (st_ml st))"
proof -
  note R = dropped_rest [of x st, folded st1_def]
  show "fst (read_rulings st1) = st1\<lparr>st_ruled_read := st_ruled st\<rparr>"
    by (simp add: read_rulings_def rulings_changed_def Let_def R)
  show "ru_mnl (snd (read_rulings st1)) = st_mnl st" "set (ru_changed (snd (read_rulings st1))) \<subseteq> set (st_ruled st)"
    by (auto simp: read_rulings_def rulings_changed_def Let_def R)
  show "a \<noteq> x \<and> b \<noteq> x \<and> a \<noteq> b \<and> ((a, b) \<in> set (st_ml st) \<or> (b, a) \<in> set (st_ml st))"
    if "(a, b) \<in> set (ru_ml (snd (read_rulings st1)))"
  proof -
    have same: "(a, b) \<in> set (remdups (map (\<lambda>(lo, hi). (min lo hi, max lo hi)) (filter (\<lambda>(lo, hi). lo \<noteq> hi) (st_ml st))))"
      and held: "map_of (st_fp st1) a \<noteq> None" "map_of (st_fp st1) b \<noteq> None"
      using that by (simp_all add: read_rulings_def rulings_changed_def Let_def R(2) known_ids_def)
    from same obtain lo hi where "(lo, hi) \<in> set (st_ml st)" "lo \<noteq> hi" "a = min lo hi" "b = max lo hi" by auto
    then show ?thesis using held R(6) by (auto simp: min_def max_def split: if_splits)
  qed
qed

lemma nothing_seeded:
  assumes met: "rulings_met x st" and apart: "clusters_apart (st_clusters st)"
    and no_edge: "\<forall>((lo, hi), row) \<in> set (st_pairs st). lo = x \<or> hi = x \<longrightarrow> pr_zone row \<noteq> ''merge''"
  shows "pass_seeds [] (map fst (pairs_touching [x] st)) (pairs_touching [x] st) [x] (drop_listing x st)
    = (fst (read_rulings (drop_listing x st)), snd (read_rulings (drop_listing x st)), [])"
proof -
  let ?st1 = "drop_listing x st"
  obtain st2 r where rr: "read_rulings ?st1 = (st2, r)" by fastforce
  note R = read_dropped [where x = x and st = st, unfolded rr fst_conv snd_conv]
  have cl: "st_clusters st2 = st_clusters st" by (simp add: R(1) dropped_rest(4))
  have ends: "filter (\<lambda>k. map_option pr_zone (map_of (pairs_touching [x] st) k) = Some ''merge'') ks = []" for ks
    using no_edge by (auto simp: filter_empty_conv pairs_touching_def dest!: map_of_SomeD)
  let ?pairs = "ru_mnl r @ ru_ml r"
  let ?cs = "clusters_touching (concat (map (\<lambda>(a, b). [a, b]) ?pairs)) st2"
  have sub: "set ?cs \<subseteq> set (st_clusters st)" by (auto simp: clusters_touching_def cl)
  have apart': "clusters_apart ?cs"
    using apart unfolding clusters_apart_def clusters_touching_def cl by (auto simp: distinct_map_filter)
  have mnl: "\<not> (map_of (member_map ?cs) lo \<noteq> None \<and> map_of (member_map ?cs) lo = map_of (member_map ?cs) hi)"
    if p: "(lo, hi) \<in> set (ru_mnl r)" for lo hi
  proof
    assume "map_of (member_map ?cs) lo \<noteq> None \<and> map_of (member_map ?cs) lo = map_of (member_map ?cs) hi"
    then obtain k where k: "map_of (member_map ?cs) lo = Some k" "map_of (member_map ?cs) hi = Some k" by (metis option.exhaust)
    obtain ms ns where m: "(k, ms) \<in> set ?cs" "lo \<in> set ms" "(k, ns) \<in> set ?cs" "hi \<in> set ns"
      using member_map_inv [OF k(1)] member_map_inv [OF k(2)] by blast
    then have "ms = ns" using apart' by (auto simp: clusters_apart_def dest: eq_key_imp_eq_value)
    then show False using met m sub p R(2) unfolding rulings_met_def by fastforce
  qed
  have ml: "\<not> (map_of (member_map ?cs) lo = None \<or> map_of (member_map ?cs) lo \<noteq> map_of (member_map ?cs) hi)"
    if p: "(lo, hi) \<in> set (ru_ml r)" for lo hi
  proof -
    obtain k ms where m: "(k, ms) \<in> set (st_clusters st)" "lo \<in> set ms" "hi \<in> set ms"
      using met R(4) [OF p] unfolding rulings_met_def by blast
    have "lo \<in> set (concat (map (\<lambda>(a, b). [a, b]) ?pairs))" using p by force
    then have "list_ex (\<lambda>m. m \<in> set (concat (map (\<lambda>(a, b). [a, b]) ?pairs))) ms" using m(2) unfolding list_ex_iff by blast
    then have "(k, ms) \<in> set ?cs" using m(1) unfolding clusters_touching_def cl set_filter by blast
    from together_map [OF apart' this m(2,3)] show ?thesis by simp
  qed
  have "set (ruling_seeds st2 r) \<subseteq> {x}"
  proof -
    have "filter (\<lambda>(lo, hi). map_of (member_map ?cs) lo \<noteq> None \<and> map_of (member_map ?cs) lo = map_of (member_map ?cs) hi) (ru_mnl r) = []"
      unfolding filter_empty_conv
    proof (intro ballI)
      fix p assume p: "p \<in> set (ru_mnl r)"
      obtain lo hi where q: "p = (lo, hi)" by (cases p)
      show "\<not> (case p of (lo, hi) \<Rightarrow> map_of (member_map ?cs) lo \<noteq> None \<and> map_of (member_map ?cs) lo = map_of (member_map ?cs) hi)"
        unfolding q prod.case by (rule mnl) (use p q in simp)
    qed
    moreover have "filter (\<lambda>(lo, hi). map_of (member_map ?cs) lo = None \<or> map_of (member_map ?cs) lo \<noteq> map_of (member_map ?cs) hi) (ru_ml r) = []"
      unfolding filter_empty_conv
    proof (intro ballI)
      fix p assume p: "p \<in> set (ru_ml r)"
      obtain lo hi where q: "p = (lo, hi)" by (cases p)
      show "\<not> (case p of (lo, hi) \<Rightarrow> map_of (member_map ?cs) lo = None \<or> map_of (member_map ?cs) lo \<noteq> map_of (member_map ?cs) hi)"
        unfolding q prod.case by (rule ml) (use p q in simp)
    qed
    moreover have "set (ru_changed r) \<subseteq> {x}" using R(3) met by (auto simp: rulings_met_def)
    ultimately show ?thesis by (simp add: ruling_seeds_def Let_def)
  qed
  then have "filter (\<lambda>i. i \<notin> set [x]) (remdups (ruling_seeds st2 r)) = []" by (auto simp: filter_empty_conv)
  then show ?thesis
    unfolding pass_seeds_def ends rr by simp
qed

lemma alone_in_none:
  assumes ok: "lane_ok cfg" "facts_keyed facts" "pairs_ok st" and i: "alone (touch_graph st (ru_ml r)) i"
  shows "\<exists>res. cohort rd cfg facts r st = Some res \<and> (\<forall>(k, ms) \<in> set (r_clusters res). i \<notin> set ms)"
proof -
  have shut: "shut (touch_graph st (ru_ml r)) {i}" using i touch_graph_sym unfolding shut_def alone_def by blast
  have here: "\<forall>a \<in> {i}. (map_option (base \<circ> snd) \<circ> facts) a = (map_option (base \<circ> snd) \<circ> facts) a
        \<and> (map_option fst \<circ> facts) a = (map_option fst \<circ> facts) a"
    "\<forall>a \<in> {i}. \<forall>b \<in> {i}. (a, b) \<in> set (ru_mnl r) \<longleftrightarrow> (a, b) \<in> set (ru_mnl r)" by simp_all
  obtain res where res: "cohort rd cfg facts r st = Some res"
      "\<forall>(k, ms) \<in> set (r_clusters res). k \<in> set ms \<and> 1 < card (set ms) \<and> (\<forall>m \<in> set ms. m \<in> {i} \<longleftrightarrow> k \<in> {i})"
    using cohort_part [where rd = rd, OF ok shut here(1) refl refl refl here(2)]
    by (elim exE conjE) (rule that, assumption+)
  have "i \<notin> set ms" if m: "(k, ms) \<in> set (r_clusters res)" for k ms
  proof
    assume own: "i \<in> set ms"
    have q: "1 < card (set ms) \<and> (\<forall>m \<in> set ms. m \<in> {i} \<longleftrightarrow> k \<in> {i})" 
      by (rule bspec [OF res(2) m, unfolded prod.case, THEN conjunct2])
    have "k \<in> {i}" using q own by blast
    then have "set ms \<subseteq> {i}" using q by blast
    then show False using q card_mono [of "{i}" "set ms"] by simp
  qed
  then show ?thesis using res(1) by blast
qed

section \<open>The retired advert stays\<close>

text \<open>
  C33. A retired advert may stay in its cluster, in union-find mode. Take any store in which an advert lies in a
  stored cluster but on no stored merge pair, so that a ruling alone holds it there, and in which the other
  rulings are met and none has changed since they were last read. When that advert alone is retired, its
  listing dropped with its pairs, the step seeds nothing and leaves every stored cluster as it was, the retired
  advert in it, although the clustering of the whole store gives no cluster with the advert.
\<close>

theorem retired_stays_clustered:
  assumes "lane_ok cfg" "facts_keyed facts" "store_ok st" "clusters_apart (st_clusters st)" "rulings_met x st"
    and "(k, ms) \<in> set (st_clusters st)" "x \<in> set ms"
    and "\<forall>((lo, hi), row) \<in> set (st_pairs st). lo = x \<or> hi = x \<longrightarrow> pr_zone row \<noteq> ''merge''"
  shows "\<exists>ps' st' res.
     cluster_step rd facts cfg working [] (map fst (pairs_touching [x] st)) (pairs_touching [x] st) [x] (ps, drop_listing x st)
       = Some (ps', st')
     \<and> st_clusters st' = st_clusters st \<and> (k, ms) \<in> set (st_clusters st')
     \<and> cohort rd cfg facts (snd (read_rulings (drop_listing x st))) st' = Some res
     \<and> (\<forall>(l, ns) \<in> set (r_clusters res). x \<notin> set ns)"
proof -
  let ?st1 = "drop_listing x st" and ?r = "snd (read_rulings (drop_listing x st))"
  let ?st2 = "?st1\<lparr>st_ruled_read := st_ruled st\<rparr>"
  have seeds: "pass_seeds [] (map fst (pairs_touching [x] st)) (pairs_touching [x] st) [x] ?st1 = (?st2, ?r, [])"
    using nothing_seeded [OF assms(5,4,8)] read_dropped(1) [where x = x and st = st] by simp
  have "\<exists>ps'. cluster_step rd facts cfg working [] (map fst (pairs_touching [x] st)) (pairs_touching [x] st) [x] (ps, ?st1)
      = Some (ps', ?st2)"
    by (simp add: cluster_step_def seeds recluster_def touched_components_def Let_def)
  moreover have "pairs_ok ?st2"
    using drop_listing_ok [OF assms(3), of x] by (simp add: store_ok_def pairs_ok_def merge_edge_def)
  moreover have "alone (touch_graph ?st2 (ru_ml ?r)) x"
  proof -
    have "\<not> merge_edge ?st2 x j" for j
    proof
      assume "merge_edge ?st2 x j"
      then obtain row where "map_of (st_pairs ?st1) (pair_key x j) = Some row" "pr_zone row = ''merge''"
        by (auto simp: merge_edge_def split: option.splits)
      then have "(pair_key x j, row) \<in> set (st_pairs st)" using dropped_rest(5) map_of_SomeD by fastforce
      then show False using assms(8) \<open>pr_zone row = ''merge''\<close> by (auto simp: pair_key_def split: if_splits)
    qed
    then show ?thesis using read_dropped(4) [where x = x and st = st] by (auto simp: alone_def touch_graph_def)
  qed
  from alone_in_none [OF assms(1,2) calculation(2) this, of rd] obtain res where
    "cohort rd cfg facts ?r ?st2 = Some res" "\<forall>(l, ns) \<in> set (r_clusters res). x \<notin> set ns" by blast
  moreover have "st_clusters ?st2 = st_clusters st" by (simp add: dropped_rest(4))
  ultimately show ?thesis using assms(6) by metis
qed

text \<open>Two adverts are one by a ruling alone: the step clusters them, and no pair of them is stored.\<close>

definition ex_ruled :: store where
  "ex_ruled = (the (foldM perform [Put 2 (ex_fp_row 2) [], Put 1 (ex_fp_row 1) []] empty_store))\<lparr>st_ml := [(1, 2)]\<rparr>"

definition ex_step :: "int list \<Rightarrow> store \<Rightarrow> (pass_result \<times> store) option" where
  "ex_step retired st = cluster_step ex_reader ex_facts ex_lane [] [] [] [] retired (ex_pass, st)"

definition ex_clustered :: store where
  "ex_clustered = snd (the (ex_step [] ex_ruled))"

lemma ex_step_run:
  "map_option (\<lambda>(_, st). (st_clusters st, st_pairs st, st_ruled st, st_mnl st, st_ml st)) (ex_step [] ex_ruled)
     = Some ([(1, [1, 2])], [], [], [], [(1, 2)])"
  by code_simp

lemma recluster_ok:
  "store_ok st \<Longrightarrow> recluster rd facts cfg working r seeds (ps, st) = Some (ps', st') \<Longrightarrow> store_ok st'"
  by (auto simp: recluster_def Let_def bind_eq_Some_conv write_clusters_ok split: if_splits)

lemma store_ok_frame [simp]:
  "store_ok (st\<lparr>st_ml := ml\<rparr>) = store_ok st" "store_ok (st\<lparr>st_ruled_read := is\<rparr>) = store_ok st"
  by (simp_all add: store_ok_def pairs_ok_def merge_edge_def postings_of_ok_def tables_ok_def cells_ok_def)

lemma ex_clustered_ok: "store_ok ex_clustered"
proof -
  let ?vs = "[Put 2 (ex_fp_row 2) [], Put 1 (ex_fp_row 1) []]"
  have "map_option (\<lambda>_. ()) (foldM perform ?vs empty_store) = Some ()" by code_simp
  then obtain s0 where s0: "foldM perform ?vs empty_store = Some s0" by auto
  have "store_ok s0" using performs_keep [OF _ _ s0 store_ok_empty] by (simp add: keeps_clusters_def)
  then have "store_ok ex_ruled" unfolding ex_ruled_def s0 option.sel store_ok_frame .
  then have "store_ok (fst (read_rulings ex_ruled))"
    by (simp add: read_rulings_def rulings_changed_def Let_def)
  moreover obtain p s where "ex_step [] ex_ruled = Some (p, s)" using ex_step_run by auto
  ultimately show ?thesis
    using recluster_ok by (auto simp: ex_clustered_def ex_step_def cluster_step_def pass_seeds_def split_def Let_def)
qed

theorem retired_stays_clustered_witness:
  "map_option (\<lambda>(_, st). st_clusters st) (ex_step [] ex_ruled) = Some [(1, [1, 2])]
   \<and> (\<exists>ps' st' res. cluster_step ex_reader ex_facts ex_lane [] [] [] [] [1] (ex_pass, drop_listing 1 ex_clustered) = Some (ps', st')
        \<and> st_clusters st' = [(1, [1, 2])]
        \<and> cohort ex_reader ex_lane ex_facts (snd (read_rulings (drop_listing 1 ex_clustered))) st' = Some res
        \<and> (\<forall>(l, ns) \<in> set (r_clusters res). 1 \<notin> set ns))"
proof -
  obtain p s where s: "ex_step [] ex_ruled = Some (p, s)" using ex_step_run by auto
  then have run: "map_option (\<lambda>(_, st). st_clusters st) (ex_step [] ex_ruled) = Some [(1, [1, 2])]" using ex_step_run by simp
  have cl: "st_clusters ex_clustered = [(1, [1, 2])]" and pairs: "st_pairs ex_clustered = []"
    and rule: "st_ruled ex_clustered = []" "st_mnl ex_clustered = []" "st_ml ex_clustered = [(1, 2)]"
    using ex_step_run s by (simp_all add: ex_clustered_def)
  have lane: "lane_ok ex_lane" by (simp add: lane_ok_def ex_lane_def plain_settings_def default_guard_settings_def guard_settings_ok_def)
  have met: "rulings_met 1 ex_clustered" by (simp add: rulings_met_def rule)
  have "pairs_touching [1] ex_clustered = []" by (simp add: pairs_touching_def pairs)
  then show ?thesis
    using retired_stays_clustered [OF lane ex_facts_keyed ex_clustered_ok _ met, of 1 "[1, 2]" ex_reader "[]" ex_pass] run
    by (auto simp: clusters_apart_def cl pairs)
qed

end
