(* ===== verification/Spec2Isabelle.thy ===== *)
theory Spec2Isabelle
  imports Prelude Union_Find Partition_Props Categories Floor_Convention Cluster_Repartition
    Rulings Property_Detach_Laws Letters Job_Lease_Props Job_Runner_Props Family_Refusals Rate_Limit_Laws
    Delist_Policy Decide_Laws Cluster_Local Blocking_Laws Incremental_Store_Laws Incremental_Retire
begin

text \<open>
  The program collects property adverts from Czech portals, decides which adverts describe one property,
  and keeps the answer in a store that an operator can correct. This development models four parts of it.

  \<^bold>\<open>1. The deduplication engine\<close> (under \<^verbatim>\<open>src/autodedup\<close>). Scored pairs become clusters:

  \<^item> \<open>Union_Find\<close>: the parent forest with path halving that \<^verbatim>\<open>repartition.py\<close>, \<^verbatim>\<open>cluster.py\<close> and
    \<^verbatim>\<open>family.py\<close> each write out. The loop is a \<open>while_option\<close>; it is shown to return on every forest. The
    locale \<open>root_finder\<close> is what a union asks of a lookup; each of the four lookups interprets it, and
    takes from it that linking all pairs of a list builds the equivalence closure of the list.
  \<^item> \<open>Repartition\<close>, \<open>Partition_Laws\<close>, \<open>Partition_Props\<close> (\<^verbatim>\<open>repartition.py\<close>): connected
    components, and the cut of a component into groups that satisfy the caller's invariants: the greedy
    pass, the local search, the reconciliation, the rejoin and the shed with its cover. The locale
    \<open>member_rules\<close> is the contract \<open>partition\<close> states for its caller; the caller's own
    invariants interpret it in \<open>Cluster_Repartition\<close>.
  \<^item> \<open>Decide\<close>, \<open>Decide_Laws\<close> (\<^verbatim>\<open>decide.py\<close>): the decision of one pair, from the rule floor over the
    certificates, the gates and the score to the context rule, the fact rule and the operator's merge
    policy. \<open>zone_spec\<close> is the decision without reason texts; \<open>decide_pair\<close> refines it, and what a merge
    rests on is read off it. Its decisions are the input of \<open>Cluster\<close>.
  \<^item> \<open>Guards\<close> (\<^verbatim>\<open>guards.py\<close>), \<open>D43\<close> (\<^verbatim>\<open>d43.py\<close>), \<open>Floor_Convention\<close> (\<^verbatim>\<open>floor_convention.py\<close>):
    what may not be merged; the memo of the fact relation; the fit of the portals' floor conventions.
  \<^item> \<open>Cluster\<close>, \<open>Cluster_Laws\<close>, \<open>Cluster_Repartition\<close> (\<^verbatim>\<open>cluster.py\<close>): decisions to validated
    clusters, by the constrained union-find (with bridges) or by the repartition of the graph in which
    every closure of operator rulings is one node.
  \<^item> \<open>Blocking\<close>, \<open>Blocking_Laws\<close> (\<^verbatim>\<open>blocking.py\<close>): the keys an advert is posted under and the keys it probes,
    the index built from a cohort, and the candidates: the first adverts met that the guards let in.
  \<^item> \<open>Incremental_Store\<close>, \<open>Incremental_Store_Laws\<close> (\<^verbatim>\<open>incremental_store.py\<close>, \<^verbatim>\<open>store_score.py\<close>, \<open>cluster_rows\<close>):
    the store of the incremental lane as its in-memory twin keeps it, one function per verb, with the
    invariant \<open>store_ok\<close> that every verb keeps, and what a score column keeps of a score.
  \<^item> \<open>Incremental\<close>, \<open>Incremental_Walk\<close>, \<open>Cluster_Local\<close>, \<open>Incremental_Laws\<close>, \<open>Incremental_Retire\<close>
    (\<^verbatim>\<open>incremental.py\<close>): the clustering half of an incremental pass. The walk over the merge graph lists whole
    components (its union-find interprets \<open>edge_merging\<close>); \<open>Cluster_Local\<close> shows that the clustering of
    \<open>Cluster\<close> is local to sets no edge leaves; from both, \<open>Incremental_Laws\<close> shows that the lane, an inductive
    relation over passes, keeps exactly the clusters of one clustering of the whole store (\<open>cohort\<close>), provided
    its seeds reach what moved; \<open>Incremental_Retire\<close> shows where the step that finds the seeds does not: when an
    advert is retired that only a ruling held to its cluster.
  \<^item> \<open>Family\<close>, \<open>Family_Laws\<close>, \<open>Family_Refusals\<close> (\<^verbatim>\<open>family.py\<close>): the guard that withdraws
    certified pairs inside a family of look-alike adverts, in its three modes.
  \<^item> \<open>Categories\<close> (\<^verbatim>\<open>category_splits.py\<close>, \<^verbatim>\<open>toolkit/room_taxonomy.py\<close>): rule 15 and the sides of a
    mixed property.

  \<^bold>\<open>2. The identity store\<close> (\<^verbatim>\<open>src/toolkit/property_identity.py\<close>). \<open>Rulings\<close> is the operator's word on
  pairs of adverts, with the statements of \<^verbatim>\<open>autodedup/ui_sql.py\<close>; \<open>Property_Store\<close> the tables;
  \<open>Property_Merge\<close> and \<open>Property_Detach\<close> the two writers, each a function of the store that returns an
  error or the new store; \<open>Letters\<close> the operator's statement as the routes read it. The laws are in
  \<open>Property_Merge_Laws\<close> and \<open>Property_Detach_Laws\<close>. Rule 15 comes from \<open>Categories\<close>, the negative
  rulings a merge asks about from \<open>Rulings\<close>.

  \<^bold>\<open>3. The scheduler\<close> (\<^verbatim>\<open>src/scraper/job_lease.py\<close>, \<^verbatim>\<open>job_process.py\<close>, \<^verbatim>\<open>job_runner.py\<close>). \<open>Job_Lease\<close> has the tables and one function
  per transaction; \<open>Job_Lease_System\<close> puts the tables and all holders' own lease objects into one
  inductive step relation; \<open>Job_Lease_Laws\<close> and \<open>Job_Lease_Props\<close> prove its invariant by rule
  induction and read the exclusion of holders off it.
  \<open>Job_Guard\<close> is the thread that stops children, each pass a function of the watches, the clock and what
  the processes weigh; \<open>Job_Guard_Laws\<close> shows whom it signals and by when a child is dead. \<open>Job_Runner\<close> is
  the runner that claims leases from those tables and starts, renews, reaps and releases children under
  that guard, both phases of a tick; what the operating system and the database answer in a tick is its
  argument, and a started process is taken to have a pid no unsettled child has. \<open>Job_Runner_Laws\<close> proves the invariant of \<open>runner_reaches\<close> by rule induction, and
  \<open>Job_Runner_Props\<close> reads off it that no lease is lost and no stranger is signalled.

  \<^bold>\<open>4. The request side of a scrape\<close>. \<open>Rate_Limit\<close> (\<^verbatim>\<open>scraper/rate_limit.py\<close>, \<^verbatim>\<open>rate_ledger.py\<close>): the pacing
  of one process and the row that all processes of a portal share. \<open>Delist_Policy\<close>
  (\<^verbatim>\<open>scraper/delist_policy.py\<close>): how many missing adverts a walk checks, and the gone-rate breaker.

  \<^bold>\<open>How code and model correspond.\<close> A dictionary is an association list in insertion order, because the
  code iterates over it; a table is the list of its rows; a row or object is a record whose fields have
  the code's names. Floats and time stamps are rationals, so rounding is not modelled. Python's integers
  are \<open>int\<close>. An exception is \<open>None\<close> or a value of a sum type and carries no store, since the
  transaction rolls back. An object that calls mutate is passed and returned. Clock readings, random
  draws, readings of an advert's free text, the canonical order of a property's adverts, and whether a database
  answers are arguments.

  \<^bold>\<open>Bounds and fuel.\<close> Walks of a parent forest and the reads of a shed are \<open>while_option\<close> or recursion
  on a measure, proved to return. The one fuel is the code's own: a chain of merges is chased at most 20
  steps (\<^verbatim>\<open>c.depth < 20\<close> in \<^verbatim>\<open>_RESOLVE_SURVIVORS_SQL\<close>), and what the chase does when it runs out is part of the model. The rounds of the
  local search and of the outer repair loop are the caller's settings and arbitrary here.

  \<^bold>\<open>What the lemmas show.\<close> The clusters of the union-find mode are disjoint and satisfy every invariant, for
  all settings that pass their own checks. \<open>partition\<close> returns a partition whose groups satisfy the invariants
  it is given, provided these are closed under taking members away; the program's own are so only while no
  plot of land can switch the layout limb off, so the clusters of the repartition mode are shown valid with
  that limb off or without adverts of land, and a run with both shows an invalid one
  (\<open>repartition_land_leaves\<close>). The union-find based groupings are the connected components; retrieval
  gives exactly the first guarded adverts in probe order; the incremental lane ends up where a clustering of
  the whole store would, in union-find mode and while no component outgrows the cap (with the repartition of a
  component the lane is modelled but this equality is not proved); a merge moves exactly the members' adverts and a detach of
  them restores the store; no run of the writers leaves an advert on a retired property; two live leases
  never share a job or a resource, and at most one holder of a lane commits; a runner keeps every lease it
  was granted until its release is answered, signals only children it has not reaped, and sends a child past
  its limit or its fence a SIGKILL; a pair is merged
  only past every guard and on evidence the settings name; leased request windows do
  not overlap; the budget of page checks is the smaller of the nominations and the rounded share of the active
  rows unless an operator lifts it, and the breaker trips exactly on its rule. The places where the code does
  not keep its own word are proved as they are: the floor fit places a component of three levels, the
  family guard raises in its cell mode when one advert of a pair is missing, the context rule merges a pair
  of a developer's shape in a stratum that is banded before the developer guards are read, a retired advert
  that a ruling alone held to a cluster stays in it, and a share that is no finite number stops a walk.

  \<^bold>\<open>Not modelled.\<close> The readings of Czech text (facts, designators, areas) and the trained scores, which enter
  as arguments; portal clients, parsers and HTTP routes, which are input and rendering; the carriers
  behind a merge (operator curation over some twenty tables), recorded as calls in order, and of the roll-up
  after it all but the columns the writers read (first sighting, activity, canonical advert);
  the refresh, retrieval and scoring half of an incremental pass with its rail, and the lanes and the real-time
  worker, which drive the modelled steps over SQL;
  the text of worker heartbeats and the listing of job rows; floating-point analytics and image models.
\<close>

end
